(* ===== verification/Apollo_Prelude.thy ===== *)
theory Apollo_Prelude
  imports Main "HOL-Library.Word"
begin

unbundle bit_operations_syntax

text \<open>
  Shared vocabulary of the development: the C integer types as words, bit strings as
  Boolean lists (most significant bit first, the order in which every figure of the ring
  manual and every loop of the code walks them), and the generic lemmas the components use.

  A C loop \<open>for (i = 0; i < n; i++) body\<close> is \<open>fold body [0..<n]\<close> throughout; a test
  \<open>((v >> k) & 1u) != 0u\<close> is \<open>testbit v k\<close>.
\<close>

type_synonym u8 = "8 word"
type_synonym u16 = "16 word"
type_synonym u32 = "32 word"
type_synonym u64 = "64 word"

named_theorems bitstream \<open>facts that turn the loops over bits into bit lists\<close>

section \<open>Bit tests and bit strings\<close>

definition testbit :: "'a::len word \<Rightarrow> nat \<Rightarrow> bool" where
  "testbit v k \<longleftrightarrow> (drop_bit k v) AND 1 \<noteq> 0"

lemma testbit_iff [simp]: "testbit v k \<longleftrightarrow> bit v k"
  by (simp add: testbit_def and_one_eq bit_iff_odd_drop_bit odd_iff_mod_2_eq_one)

lemma unat_drop_bit_1_less: "v \<noteq> 0 \<Longrightarrow> unat (drop_bit 1 (v::'a::len word)) < unat v"
proof -
  assume "v \<noteq> 0"
  then have "0 < unat v" by (simp add: unat_gt_0)
  moreover have "unat (drop_bit 1 v) = unat v div 2 ^ 1"
    unfolding unat_drop_bit_eq by (rule drop_bit_eq_div)
  ultimately show ?thesis by simp
qed

text \<open>The low \<open>n\<close> bits of a word, most significant first.\<close>

definition bits_msb :: "nat \<Rightarrow> 'a::len word \<Rightarrow> bool list" where
  "bits_msb n v = map (\<lambda>i. bit v (n - 1 - i)) [0..<n]"

lemma length_bits_msb [simp]: "length (bits_msb n v) = n"
  by (simp add: bits_msb_def)

lemma bits_msb_0 [simp]: "bits_msb 0 v = []"
  by (simp add: bits_msb_def)

lemma bits_msb_Suc: "bits_msb (Suc n) v = bit v n # bits_msb n v"
proof -
  have "bits_msb (Suc n) v = map (\<lambda>i. bit v (n - i)) (0 # map Suc [0..<n])"
    by (simp add: bits_msb_def upt_conv_Cons map_Suc_upt del: upt_Suc)
  then show ?thesis by (simp add: bits_msb_def comp_def)
qed

lemma bits_msb_snoc: "bits_msb (Suc n) v = bits_msb n (drop_bit 1 v) @ [bit v 0]"
proof -
  have "map (\<lambda>i. bit v (n - i)) [0..<n] = bits_msb n (drop_bit 1 v)"
    by (auto simp: bits_msb_def bit_drop_bit_eq Suc_diff_Suc)
  then show ?thesis by (simp add: bits_msb_def)
qed

lemma nth_bits_msb [simp]: "i < n \<Longrightarrow> bits_msb n v ! i = bit v (n - 1 - i)"
  by (simp add: bits_msb_def)

lemma bits_msb_8:
  "bits_msb 8 v = [bit v 7, bit v 6, bit v 5, bit v 4, bit v 3, bit v 2, bit v 1, bit v 0]"
  by (simp add: numeral_eq_Suc bits_msb_Suc)

lemma bits_msb_cong:
  "(\<And>k. k < n \<Longrightarrow> bit v k = bit w k) \<Longrightarrow> bits_msb n v = bits_msb n w"
  by (auto simp: bits_msb_def)

lemma bits_msb_ucast:
  "n \<le> LENGTH('b) \<Longrightarrow> bits_msb n (ucast (v::'a::len word) :: 'b::len word) = bits_msb n v"
  by (rule bits_msb_cong) (simp add: bit_ucast_iff)

text \<open>A counting loop over the bits of a value, most significant first, is a fold over
  its bit string.\<close>

lemma fold_bits_msb [bitstream]:
  "fold (\<lambda>i. f (testbit v (n - 1 - i))) [0..<n] s = fold f (bits_msb n v) s"
  by (simp add: bits_msb_def fold_map comp_def)

text \<open>Reassembling a value: the accumulator \<open>out = (out << 1) | bit\<close>.\<close>

definition shift_in :: "bool \<Rightarrow> 'a::len word \<Rightarrow> 'a word" where
  "shift_in b out = push_bit 1 out OR (if b then 1 else 0)"

lemma bit_shift_in:
  "bit (shift_in b (v::'a::len word)) k \<longleftrightarrow>
     k < LENGTH('a) \<and> (if k = 0 then b else bit v (k - 1))"
proof -
  have "bit (push_bit 1 v) k \<longleftrightarrow> k < LENGTH('a) \<and> 1 \<le> k \<and> bit v (k - 1)"
    by (simp only: bit_push_bit_iff possible_bit_word)
       auto
  then show ?thesis
    by (cases k) (auto simp: shift_in_def bit_or_iff bit_1_iff simp del: push_bit_of_1 push_bit_Suc)
qed

lemma fold_shift_in_bits [simp]:
  "fold shift_in (bits_msb n v) 0 = take_bit n (v::'a::len word)"
proof (induction n arbitrary: v)
  case 0
  show ?case by simp
next
  case (Suc n)
  have "fold shift_in (bits_msb (Suc n) v) 0 = shift_in (bit v 0) (take_bit n (drop_bit 1 v))"
    by (simp add: bits_msb_snoc Suc.IH)
  also have "\<dots> = take_bit (Suc n) v"
  proof (rule bit_word_eqI)
    fix k assume "k < LENGTH('a)"
    then show "bit (shift_in (bit v 0) (take_bit n (drop_bit 1 v))) k = bit (take_bit (Suc n) v) k"
      by (cases k) (auto simp: bit_shift_in bit_take_bit_iff bit_drop_bit_eq)
  qed
  finally show ?case .
qed

lemma bit_fold_shift_in:
  "length bs \<le> LENGTH('a) \<Longrightarrow> k < length bs \<Longrightarrow>
     bit (fold shift_in bs (0::'a::len word)) k = bs ! (length bs - 1 - k)"
proof (induction bs arbitrary: k rule: rev_induct)
  case Nil
  then show ?case by simp
next
  case (snoc b bs)
  then show ?case by (cases k) (auto simp: bit_shift_in nth_append)
qed

section \<open>Byte buffers as bit strings\<close>

text \<open>Bit \<open>k\<close> of a buffer: bit \<open>7 - k mod 8\<close> of byte \<open>k div 8\<close>.\<close>

definition buf_bit :: "u8 list \<Rightarrow> nat \<Rightarrow> bool" where
  "buf_bit bytes k = bit (bytes ! (k div 8)) (7 - k mod 8)"

definition bytes_bits :: "u8 list \<Rightarrow> bool list" where
  "bytes_bits bs = concat (map (bits_msb 8) bs)"

lemma bytes_bits_Nil [simp]: "bytes_bits [] = []"
  and bytes_bits_Cons [simp]: "bytes_bits (b # bs) = bits_msb 8 b @ bytes_bits bs"
  and bytes_bits_append [simp]: "bytes_bits (as @ bs) = bytes_bits as @ bytes_bits bs"
  by (simp_all add: bytes_bits_def)

lemma length_bytes_bits [simp]: "length (bytes_bits bs) = 8 * length bs"
  by (induction bs) simp_all

lemma bits_msb_inj: "bits_msb LENGTH('a) v = bits_msb LENGTH('a) w \<Longrightarrow> v = (w::'a::len word)"
proof (rule bit_word_eqI)
  fix k assume eq: "bits_msb LENGTH('a) v = bits_msb LENGTH('a) w" and k: "k < LENGTH('a)"
  from k have "LENGTH('a) - 1 - k < LENGTH('a)" and "LENGTH('a) - 1 - (LENGTH('a) - 1 - k) = k"
    by auto
  with arg_cong [OF eq, of "\<lambda>bs. bs ! (LENGTH('a) - 1 - k)"] show "bit v k = bit w k"
    by (simp del: diff_diff_left)
qed

lemma bytes_bits_inj: "bytes_bits as = bytes_bits bs \<Longrightarrow> length as = length bs \<Longrightarrow> as = bs"
proof (induction as bs rule: list_induct2')
  case (4 a as b bs)
  then have "bits_msb 8 a = bits_msb 8 b" and "bytes_bits as = bytes_bits bs"
    by (simp_all add: append_eq_append_conv)
  with 4 bits_msb_inj [of a b] show ?case by simp
qed simp_all

lemma bit_single:
  assumes "n < LENGTH('a)"
  shows "bit (push_bit n (1::'a::len word)) m \<longleftrightarrow> m = n"
  using assms by (auto simp: push_bit_of_1 bit_exp_iff)

lemma buf_bit_or:
  assumes "k div 8 < length bytes"
  shows "buf_bit (bytes[k div 8 := (bytes ! (k div 8)) OR push_bit (7 - k mod 8) 1]) j =
    (buf_bit bytes j \<or> j = k)"
proof (cases "j div 8 = k div 8")
  case True
  have "7 - j mod 8 = 7 - k mod 8 \<longleftrightarrow> j = k"
    using True mod_less_divisor [of 8 j] mod_less_divisor [of 8 k] div_mult_mod_eq [of j 8]
      div_mult_mod_eq [of k 8] by linarith
  moreover have "bit (push_bit (7 - k mod 8) (1::u8)) (7 - j mod 8) \<longleftrightarrow> 7 - j mod 8 = 7 - k mod 8"
    by (rule bit_single) simp
  ultimately show ?thesis
    using True assms by (auto simp: buf_bit_def bit_or_iff)
next
  case False
  then show ?thesis by (auto simp: buf_bit_def)
qed

section \<open>One bit of a register\<close>

text \<open>C's \<open>1u << k\<close> in a word of any width.\<close>

definition bit_of :: "nat \<Rightarrow> 'a::len word" where
  "bit_of k = push_bit k 1"

lemma bit_bit_of [simp]: "bit (bit_of k :: 'a::len word) n \<longleftrightarrow> n = k \<and> n < LENGTH('a)"
  by (auto simp: bit_of_def push_bit_of_1 bit_exp_iff)

lemma and_bit_of [simp]: "v AND bit_of k = 0 \<longleftrightarrow> \<not> bit (v::'a::len word) k"
  unfolding bit_of_def by (simp add: bit_iff_and_push_bit_not_eq_0 del: push_bit_of_1)

lemma bit_set [simp]: "bit (v OR bit_of k :: 'a::len word) n \<longleftrightarrow> bit v n \<or> n = k \<and> n < LENGTH('a)"
  by (auto simp: bit_or_iff)

lemma bit_clear [simp]: "bit (v AND NOT (bit_of k) :: 'a::len word) n \<longleftrightarrow> bit v n \<and> n \<noteq> k"
  using bit_imp_le_length [of v n] by (auto simp: bit_and_iff bit_not_iff)

section \<open>Fields\<close>

lemma take_bit_self_iff: "take_bit n (v::'a::len word) = v \<longleftrightarrow> unat v < 2 ^ n"
proof -
  have "take_bit n v = v \<longleftrightarrow> take_bit n (unat v) = unat v"
    by (simp add: word_unat_eq_iff unsigned_take_bit_eq)
  then show ?thesis by (simp add: take_bit_nat_eq_self_iff)
qed

lemma bits_below_iff: "(\<forall>k. bit (v::'a::len word) k \<longrightarrow> k < n) \<longleftrightarrow> unat v < 2 ^ n"
proof -
  have "(\<forall>k. bit v k \<longrightarrow> k < n) \<longleftrightarrow> take_bit n v = v"
    by (auto simp: bit_eq_iff bit_take_bit_iff dest: bit_imp_le_length)
  then show ?thesis by (simp add: take_bit_self_iff)
qed

text \<open>The masks the code writes as hexadecimal literals.\<close>

lemma and_mask_literals:
  "v AND 0x1 = take_bit 1 (v::'a::len word)" "v AND 0x3 = take_bit 2 v" "v AND 0x7 = take_bit 3 v"
  "v AND 0xF = take_bit 4 v" "v AND 0xFF = take_bit 8 v" "v AND 0x7FFF = take_bit 15 v"
  "v AND 0xFFFF = take_bit 16 v" "v AND 0xFFFFFF = take_bit 24 v"
  by (simp_all add: take_bit_eq_mask mask_eq_exp_minus_1)

lemma unat_ucast_up:
  "LENGTH('a) \<le> LENGTH('b) \<Longrightarrow> unat (ucast (w::'a::len word) :: 'b::len word) = unat w"
proof -
  assume le: "LENGTH('a) \<le> LENGTH('b)"
  have "unat w < 2 ^ LENGTH('a)" by simp
  also have "\<dots> \<le> (2::nat) ^ LENGTH('b)" using le by simp
  finally show ?thesis by (simp add: unsigned_ucast_eq take_bit_nat_eq_self_iff)
qed

end
