(* ===== verification/Time_Base.thy ===== *)
theory Time_Base
  imports Apollo_Prelude
begin

text \<open>
  \<^verbatim>\<open>src/core/time/ap_time.{h,c}\<close>: the machine's single time base. All times are \<open>uint64_t\<close>
  counts of \<open>1 / 21542400000000\<close> second; a clock domain is a frequency and its exact period in
  these units. Times are kept at their width: the theorems carry the hypothesis that a result
  fits in 64 bits wherever C would wrap.

  The C division by \<open>clk->period\<close> is only reached through a clock that \<open>ap_clock_init\<close>
  accepted, whose period is not zero; the theorems assume an accepted clock.
\<close>

definition TIME_BASE_HZ :: u64 where "TIME_BASE_HZ = 21542400000000"
definition TIME_NEVER :: u64 where "TIME_NEVER = - 1"
definition RING_DATA_HZ :: u32 where "RING_DATA_HZ = 12000000"
definition RING_LINE_HZ :: u32 where "RING_LINE_HZ = 24000000"

record ap_clock =
  ck_hz :: u32
  ck_period :: u64

definition time_base_divides :: "u32 \<Rightarrow> bool" where
  "time_base_divides hz \<longleftrightarrow> hz \<noteq> 0 \<and> TIME_BASE_HZ mod ucast hz = 0"

definition clock_init :: "u32 \<Rightarrow> bool \<times> ap_clock" where
  "clock_init hz =
     (if \<not> time_base_divides hz then (False, \<lparr>ck_hz = 0, ck_period = 0\<rparr>)
      else (True, \<lparr>ck_hz = hz, ck_period = TIME_BASE_HZ div ucast hz\<rparr>))"

definition clock_duration :: "ap_clock \<Rightarrow> u64 \<Rightarrow> u64" where
  "clock_duration clk cycles = cycles * ck_period clk"

definition clock_cycles_in :: "ap_clock \<Rightarrow> u64 \<Rightarrow> u64" where
  "clock_cycles_in clk duration = duration div ck_period clk"

definition clock_align_up :: "ap_clock \<Rightarrow> u64 \<Rightarrow> u64" where
  "clock_align_up clk t =
     (let rem = t mod ck_period clk in if rem = 0 then t else t + (ck_period clk - rem))"

definition clock_align_down :: "ap_clock \<Rightarrow> u64 \<Rightarrow> u64" where
  "clock_align_down clk t = t - t mod ck_period clk"

section \<open>Accepted clocks are exact\<close>

lemma unat_time_base: "unat TIME_BASE_HZ = 21542400000000"
  by (simp add: TIME_BASE_HZ_def)

lemma unat_ucast_u32_u64 [simp]: "unat (ucast (v::u32) :: u64) = unat v"
proof -
  have "unat v < 2 ^ 32" using unsigned_less [of v, where ?'a = nat] by simp
  also have "(2::nat) ^ 32 < 2 ^ 64" by (rule power_strict_increasing) simp_all
  finally have "unat v < 2 ^ 64" .
  then show ?thesis by (simp add: unsigned_ucast_eq take_bit_nat_eq_self)
qed

lemma time_base_divides_iff: "time_base_divides hz \<longleftrightarrow> unat hz dvd 21542400000000"
proof -
  have "TIME_BASE_HZ mod ucast hz = 0 \<longleftrightarrow> unat (TIME_BASE_HZ mod (ucast hz :: u64)) = 0"
    by (simp add: unat_eq_zero)
  also have "\<dots> \<longleftrightarrow> 21542400000000 mod unat hz = 0"
    by (simp only: unat_mod unat_ucast_u32_u64 unat_time_base)
  finally show ?thesis
    by (auto simp: time_base_divides_def dvd_eq_mod_eq_0 unat_eq_zero)
qed

lemma clock_init_accepts: "fst (clock_init hz) \<longleftrightarrow> time_base_divides hz"
  by (simp add: clock_init_def)

lemma clock_init_exact:
  assumes "clock_init hz = (True, clk)"
  shows "ck_hz clk = hz" and "unat hz * unat (ck_period clk) = 21542400000000"
    and "0 < unat (ck_period clk)"
proof -
  have dvd: "unat hz dvd 21542400000000"
    using assms by (auto simp: clock_init_def time_base_divides_iff split: if_splits)
  have period: "unat (ck_period clk) = 21542400000000 div unat hz"
    using assms by (auto simp: clock_init_def unat_div unat_time_base split: if_splits)
  show "ck_hz clk = hz" using assms by (auto simp: clock_init_def split: if_splits)
  show exact: "unat hz * unat (ck_period clk) = 21542400000000"
    using dvd by (simp add: period)
  then show "0 < unat (ck_period clk)" by (cases "unat (ck_period clk)") simp_all
qed

text \<open>A clock is accepted exactly when its frequency divides the base, and then its
  period is exact: frequency times period is the base, with nothing rounded away. Every clock
  of the machine (12, 20, 24, 25, 33 and 68 MHz, and the 3.6 MHz crystal) is accepted.\<close>

theorem clock_init_no_drift:
  "fst (clock_init hz) = (unat hz dvd 21542400000000) \<and>
   (fst (clock_init hz) \<longrightarrow> unat hz * unat (ck_period (snd (clock_init hz))) = 21542400000000) \<and>
   (\<not> fst (clock_init hz) \<longrightarrow> snd (clock_init hz) = \<lparr>ck_hz = 0, ck_period = 0\<rparr>) \<and>
   list_all (\<lambda>f. fst (clock_init f))
     [3600000, 12000000, 20000000, 24000000, 25000000, 33000000, 68000000]"
  using clock_init_exact(2) [of hz "snd (clock_init hz)"]
  by (auto simp: clock_init_accepts time_base_divides_iff clock_init_def intro: prod_eqI)

lemma clock_init_no_drift_witness:
  "fst (clock_init 25000000) \<and>
   unat (25000000::u32) * unat (ck_period (snd (clock_init 25000000))) = 21542400000000"
  using clock_init_no_drift [of 25000000] by simp

section \<open>Cycle boundaries\<close>

lemma align_up_unat:
  assumes "0 < unat (ck_period clk)" and "unat t + unat (ck_period clk) \<le> 2 ^ 64"
  shows "unat (clock_align_up clk t) =
    (if unat t mod unat (ck_period clk) = 0 then unat t
     else unat t + (unat (ck_period clk) - unat t mod unat (ck_period clk)))"
proof -
  let ?p = "unat (ck_period clk)" and ?r = "unat t mod unat (ck_period clk)"
  have rem: "unat (t mod ck_period clk) = ?r" by (simp add: unat_mod)
  have "t mod ck_period clk = 0 \<longleftrightarrow> ?r = 0" by (metis rem unat_eq_zero)
  moreover have "unat (t + (ck_period clk - t mod ck_period clk)) = unat t + (?p - ?r)" if "?r \<noteq> 0"
  proof -
    have r: "?r < ?p" using assms(1) by simp
    then have sub: "unat (ck_period clk - t mod ck_period clk) = ?p - ?r"
      by (subst unat_sub) (simp_all add: word_le_nat_alt rem)
    have "unat t + (?p - ?r) < 2 ^ 64" using assms(2) that r by linarith
    then show ?thesis by (subst unat_add_lem [THEN iffD1]) (simp_all add: sub)
  qed
  ultimately show ?thesis by (simp add: clock_align_up_def Let_def)
qed

lemma align_down_unat:
  "unat (clock_align_down clk t) = unat t - unat t mod unat (ck_period clk)"
proof -
  have "unat (t mod ck_period clk) = unat t mod unat (ck_period clk)" by (simp add: unat_mod)
  then show ?thesis
    by (simp add: clock_align_down_def unat_sub word_le_nat_alt)
qed

text \<open>Aligning up gives the least cycle boundary at or after an instant, aligning down the
  greatest at or before it.\<close>

theorem clock_align_boundaries:
  assumes "clock_init hz = (True, clk)" and "unat t + unat (ck_period clk) \<le> 2 ^ 64"
  shows "unat (ck_period clk) dvd unat (clock_align_up clk t) \<and> t \<le> clock_align_up clk t \<and>
    (\<forall>b. unat (ck_period clk) dvd unat b \<longrightarrow> t \<le> b \<longrightarrow> clock_align_up clk t \<le> b) \<and>
    unat (ck_period clk) dvd unat (clock_align_down clk t) \<and> clock_align_down clk t \<le> t \<and>
    (\<forall>b. unat (ck_period clk) dvd unat b \<longrightarrow> b \<le> t \<longrightarrow> b \<le> clock_align_down clk t)"
proof -
  let ?p = "unat (ck_period clk)"
  have p: "0 < ?p" using clock_init_exact(3) [OF assms(1)] .
  define q r where "q = unat t div ?p" and "r = unat t mod ?p"
  have t: "unat t = ?p * q + r" and r: "r < ?p" using p by (simp_all add: q_def r_def)
  have up: "unat (clock_align_up clk t) = (if r = 0 then ?p * q else ?p * (q + 1))"
    using align_up_unat [OF p assms(2), folded r_def] t r by (auto simp: algebra_simps)
  have down: "unat (clock_align_down clk t) = ?p * q"
    using align_down_unat [of clk t, folded r_def] t by linarith
  have least: "unat (clock_align_up clk t) \<le> b" if "?p dvd b" "unat t \<le> b" for b
  proof -
    from that(1) obtain k where k: "b = ?p * k" ..
    have "unat t div ?p \<le> b div ?p" by (rule div_le_mono [OF that(2)])
    then have "q \<le> k" using p by (simp add: q_def k)
    moreover have "k \<noteq> q" if "r \<noteq> 0" using \<open>unat t \<le> b\<close> k t that by auto
    ultimately have "(if r = 0 then q else q + 1) \<le> k" by (cases "r = 0") auto
    then have "?p * (if r = 0 then q else q + 1) \<le> ?p * k" by (rule mult_le_mono2)
    then show ?thesis using k up by (cases "r = 0") simp_all
  qed
  have greatest: "b \<le> unat (clock_align_down clk t)" if "?p dvd b" "b \<le> unat t" for b
  proof -
    from that(1) obtain k where k: "b = ?p * k" ..
    have "b div ?p \<le> unat t div ?p" by (rule div_le_mono [OF that(2)])
    then have "k \<le> q" using p by (simp add: q_def k)
    then show ?thesis using k down by simp
  qed
  show ?thesis
    using up down t r least greatest by (auto simp: word_le_nat_alt)
qed

lemma clock_align_boundaries_witness:
  "clock_init 12000000 = (True, \<lparr>ck_hz = 12000000, ck_period = 1795200\<rparr>) \<and>
   unat (1795201::u64) + unat (1795200::u64) \<le> 2 ^ 64 \<and>
   1795201 \<le> clock_align_up \<lparr>ck_hz = 12000000, ck_period = 1795200\<rparr> 1795201"
proof -
  have c: "clock_init 12000000 = (True, \<lparr>ck_hz = 12000000, ck_period = 1795200\<rparr>)"
    by (simp add: clock_init_def time_base_divides_def TIME_BASE_HZ_def)
  with clock_align_boundaries [OF c, of 1795201] show ?thesis by simp
qed

lemma clock_duration_cycles_in:
  assumes "clock_init hz = (True, clk)" and "unat n * unat (ck_period clk) < 2 ^ 64"
  shows "clock_cycles_in clk (clock_duration clk n) = n"
proof -
  have "unat (clock_duration clk n) = unat n * unat (ck_period clk)"
    using assms(2) by (simp add: clock_duration_def unat_mult_lem [THEN iffD1])
  then have "unat (clock_cycles_in clk (clock_duration clk n)) = unat n"
    using clock_init_exact(3) [OF assms(1)] by (simp add: clock_cycles_in_def unat_div)
  then show ?thesis by (rule unsigned_word_eqI)
qed

end
