(* ===== verification/Ring_Mac.thy ===== *)
theory Ring_Mac
  imports Apollo_Prelude
begin

unbundle bit_operations_syntax

text \<open>
  \<^verbatim>\<open>src/core/ring/ap_ring_mac.{h,c}\<close>: the symbol level of the Apollo Token Ring. Nine-bit
  out-of-band characters, the bit writer that stuffs a Zero after five Ones, and the bit
  reader that undoes it and reports the deliberate violation.

  The C struct members \<open>bytes, capacity, bit_count, ones_run, overflow\<close> keep their names
  behind a prefix (\<open>w_\<close> for the writer, \<open>r_\<close> for the reader), since Isabelle record fields
  are global. Sizes and bit positions (\<open>size_t\<close>) are \<open>nat\<close>: they count positions in a
  buffer that exists, so they never come near \<open>2^64\<close>.

  The list-level specification is \<open>stuff\<close>: what a run of data bits looks like on the wire.
  The lemmas show that the writer appends exactly that, that it can never contain the
  seven-bit prefix of a control character, and that the reader inverts it.
\<close>

section \<open>Out-of-band characters\<close>

abbreviation (input) OOB_SEPARATOR :: u16 where "OOB_SEPARATOR \<equiv> 0x0FC"
abbreviation (input) OOB_FRAME_START :: u16 where "OOB_FRAME_START \<equiv> 0x0FD"
abbreviation (input) OOB_FREE_TOKEN :: u16 where "OOB_FREE_TOKEN \<equiv> 0x0FE"
abbreviation (input) OOB_CLAIMED_TOKEN :: u16 where "OOB_CLAIMED_TOKEN \<equiv> 0x0FF"

definition STUFF_AFTER_ONES :: nat where "STUFF_AFTER_ONES = 5"
definition OOB_BITS :: nat where "OOB_BITS = 9"

definition oob_well_formed :: "u16 \<Rightarrow> bool" where
  "oob_well_formed symbol =
     (if symbol > 0x1FF then False
      else symbol AND 0x1FC = 0x0FC \<and> symbol AND 0x100 = 0)"

definition oob_type :: "u16 \<Rightarrow> u8" where
  "oob_type symbol = ucast (symbol AND 3)"

definition token_claim :: "u16 \<Rightarrow> u16" where
  "token_claim free_token = free_token OR 1"

section \<open>The bit writer\<close>

record bitwriter =
  w_bytes :: "u8 list"
  w_capacity :: nat
  w_bit_count :: nat
  w_ones_run :: nat
  w_overflow :: bool

text \<open>\<open>ap_ring_bitwriter_init\<close> clears the caller's buffer; the buffer the model starts from
  is the one C is handed, of at least \<open>capacity\<close> bytes.\<close>

definition bitwriter_init :: "u8 list \<Rightarrow> nat \<Rightarrow> bitwriter" where
  "bitwriter_init bytes capacity =
     \<lparr>w_bytes = fold (\<lambda>i bs. bs[i := 0]) [0..<capacity] bytes, w_capacity = capacity,
      w_bit_count = 0, w_ones_run = 0, w_overflow = False\<rparr>"

definition write_raw_bit :: "bool \<Rightarrow> bitwriter \<Rightarrow> bitwriter" where
  "write_raw_bit b w =
     (let index = w_bit_count w div 8 in
      if index \<ge> w_capacity w then w\<lparr>w_overflow := True\<rparr>
      else
        let shift = 7 - w_bit_count w mod 8;
            w = (if b then w\<lparr>w_bytes := (w_bytes w)[index := (w_bytes w ! index) OR push_bit shift 1]\<rparr>
                 else w)
        in w\<lparr>w_bit_count := w_bit_count w + 1,
             w_ones_run := (if b then w_ones_run w + 1 else 0)\<rparr>)"

definition write_data_bit :: "bool \<Rightarrow> bitwriter \<Rightarrow> bitwriter" where
  "write_data_bit b w =
     (let w = write_raw_bit b w in
      if w_ones_run w \<ge> STUFF_AFTER_ONES then write_raw_bit False w else w)"

definition write_data_bits :: "u32 \<Rightarrow> nat \<Rightarrow> bitwriter \<Rightarrow> bitwriter" where
  "write_data_bits val bits w =
     fold (\<lambda>i. write_data_bit (testbit val (bits - 1 - i))) [0..<bits] w"

definition write_oob :: "u16 \<Rightarrow> bitwriter \<Rightarrow> bitwriter" where
  "write_oob symbol w =
     (fold (\<lambda>i. write_raw_bit (testbit symbol (OOB_BITS - 1 - i))) [0..<OOB_BITS] w)
       \<lparr>w_ones_run := 0\<rparr>"

section \<open>The bit reader\<close>

record bitreader =
  r_bytes :: "u8 list"
  r_bit_count :: nat
  r_bit_pos :: nat
  r_ones_run :: nat

definition bitreader_init :: "u8 list \<Rightarrow> nat \<Rightarrow> bitreader" where
  "bitreader_init bytes bit_count =
     \<lparr>r_bytes = bytes, r_bit_count = bit_count, r_bit_pos = 0, r_ones_run = 0\<rparr>"

definition bitreader_has :: "bitreader \<Rightarrow> nat \<Rightarrow> bool" where
  "bitreader_has r bits \<longleftrightarrow> r_bit_count r - r_bit_pos r \<ge> bits"

text \<open>The C functions return \<open>false\<close> at the end of the stream and otherwise write
  their out-parameters: here an option, beside the reader as the call leaves it.\<close>

definition read_raw_bit :: "bitreader \<Rightarrow> bool option \<times> bitreader" where
  "read_raw_bit r =
     (if \<not> bitreader_has r 1 then (None, r)
      else
        let index = r_bit_pos r div 8;
            shift = 7 - r_bit_pos r mod 8;
            val = testbit (r_bytes r ! index) shift
        in (Some val, r\<lparr>r_bit_pos := r_bit_pos r + 1,
                        r_ones_run := (if val then r_ones_run r + 1 else 0)\<rparr>))"

text \<open>A data bit and whether the bit after it violated the stuffing rule.\<close>

definition read_data_bit :: "bitreader \<Rightarrow> (bool \<times> bool) option \<times> bitreader" where
  "read_data_bit r =
     (case read_raw_bit r of
        (None, r) \<Rightarrow> (None, r)
      | (Some val, r) \<Rightarrow>
          if r_ones_run r < STUFF_AFTER_ONES then (Some (val, False), r)
          else
            (case read_raw_bit r of
               (None, r) \<Rightarrow> (Some (val, False), r)
             | (Some nxt, r) \<Rightarrow>
                 if nxt
                 then (Some (val, True),
                       r\<lparr>r_bit_pos := r_bit_pos r - 1, r_ones_run := STUFF_AFTER_ONES\<rparr>)
                 else (Some (val, False), r)))"

text \<open>The loop of \<open>ap_ring_read_data_bits\<close>: \<open>n\<close> turns left, the value so far in \<open>out\<close>.
  It stops early at the end of the stream and, with the value so far, at a violation.\<close>

fun read_data_bits_loop :: "nat \<Rightarrow> u32 \<Rightarrow> bitreader \<Rightarrow> (u32 \<times> bool) option \<times> bitreader" where
  "read_data_bits_loop 0 out r = (Some (out, False), r)"
| "read_data_bits_loop (Suc n) out r =
     (case read_data_bit r of
        (None, r) \<Rightarrow> (None, r)
      | (Some (b, violation), r) \<Rightarrow>
          let out = shift_in b out in
          if violation then (Some (out, True), r) else read_data_bits_loop n out r)"

definition read_data_bits :: "nat \<Rightarrow> bitreader \<Rightarrow> (u32 \<times> bool) option \<times> bitreader" where
  "read_data_bits bits r = read_data_bits_loop bits 0 r"

fun read_oob_loop :: "nat \<Rightarrow> u16 \<Rightarrow> bitreader \<Rightarrow> u16 \<times> bitreader" where
  "read_oob_loop 0 out r = (out, r)"
| "read_oob_loop (Suc n) out r =
     (case read_raw_bit r of (b, r) \<Rightarrow> read_oob_loop n (shift_in (b = Some True) out) r)"

definition read_oob :: "bitreader \<Rightarrow> u16 option \<times> bitreader" where
  "read_oob r =
     (if \<not> bitreader_has r OOB_BITS then (None, r)
      else case read_oob_loop OOB_BITS 0 r of (out, r) \<Rightarrow> (Some out, r\<lparr>r_ones_run := 0\<rparr>))"

definition peek_oob :: "bitreader \<Rightarrow> u16 option" where
  "peek_oob r =
     (case fst (read_oob r) of
        None \<Rightarrow> None
      | Some candidate \<Rightarrow> if oob_well_formed candidate then Some candidate else None)"

section \<open>The list-level specification\<close>

text \<open>Bit stuffing on the wire: the run of Ones so far, the data bits, the bits sent.\<close>

fun stuff :: "nat \<Rightarrow> bool list \<Rightarrow> bool list" where
  "stuff r [] = []"
| "stuff r (b # bs) =
     (let r' = (if b then r + 1 else 0) in
      if r' \<ge> 5 then b # False # stuff 0 bs else b # stuff r' bs)"

fun stuff_run :: "nat \<Rightarrow> bool list \<Rightarrow> nat" where
  "stuff_run r [] = r"
| "stuff_run r (b # bs) =
     (let r' = (if b then r + 1 else 0) in stuff_run (if r' \<ge> 5 then 0 else r') bs)"

lemma stuff_append: "stuff r (xs @ ys) = stuff r xs @ stuff (stuff_run r xs) ys"
  by (induction xs arbitrary: r) (auto simp: Let_def)

lemma stuff_run_append: "stuff_run r (xs @ ys) = stuff_run (stuff_run r xs) ys"
  by (induction xs arbitrary: r) (auto simp: Let_def)

lemma stuff_run_less: "r < 5 \<Longrightarrow> stuff_run r xs < 5"
  by (induction xs arbitrary: r) (auto simp: Let_def)

lemma length_stuff_ge: "length xs \<le> length (stuff r xs)"
  by (induction xs arbitrary: r) (auto simp: Let_def le_SucI)

text \<open>The largest expansion is one stuffed bit per data bit; from a run below five it is
  at most one per five.\<close>

lemma length_stuff_le: "r < 5 \<Longrightarrow> 5 * length (stuff r xs) \<le> 6 * length xs + r"
proof (induction xs arbitrary: r)
  case Nil
  show ?case by simp
next
  case (Cons b bs)
  show ?case
  proof (cases "b \<and> r = 4")
    case True
    with Cons.IH [of 0] show ?thesis by (simp add: Let_def)
  next
    case False
    with Cons.prems have "(if b then r + 1 else 0) < 5" by auto
    with Cons.IH [of "if b then r + 1 else 0"] Cons.prems False show ?thesis
      by (auto simp: Let_def split: if_splits)
  qed
qed

section \<open>The writer appends to the wire\<close>

definition wbits :: "bitwriter \<Rightarrow> bool list" where
  "wbits w = map (buf_bit (w_bytes w)) [0..<w_bit_count w]"

definition wf_writer :: "bitwriter \<Rightarrow> bool" where
  "wf_writer w \<longleftrightarrow> w_capacity w \<le> length (w_bytes w) \<and> w_bit_count w \<le> 8 * w_capacity w \<and>
     (\<forall>k. w_bit_count w \<le> k \<and> k < 8 * w_capacity w \<longrightarrow> \<not> buf_bit (w_bytes w) k)"

lemma length_wbits [simp]: "length (wbits w) = w_bit_count w"
  by (simp add: wbits_def)

lemma fold_clear:
  "n \<le> length bs \<Longrightarrow> fold (\<lambda>i bs. bs[i := 0]) [0..<n] bs = replicate n 0 @ drop n bs"
proof (induction n)
  case 0
  show ?case by simp
next
  case (Suc n)
  then have "drop n bs = bs ! n # drop (Suc n) bs" by (simp add: Cons_nth_drop_Suc)
  with Suc show ?case
    by (simp add: list_update_append replicate_app_Cons_same)
qed

lemma wf_bitwriter_init:
  assumes "n \<le> length bs"
  shows "wf_writer (bitwriter_init bs n)" and "wbits (bitwriter_init bs n) = []"
proof -
  have "\<not> buf_bit (replicate n 0 @ drop n bs) k" if "k < 8 * n" for k
    using that by (auto simp: buf_bit_def nth_append less_mult_imp_div_less mult.commute)
  with assms show "wf_writer (bitwriter_init bs n)"
    by (simp add: wf_writer_def bitwriter_init_def fold_clear)
  show "wbits (bitwriter_init bs n) = []" by (simp add: wbits_def bitwriter_init_def)
qed

text \<open>
  \<open>sends w bs run w'\<close>: going from \<open>w\<close> to \<open>w'\<close> put exactly \<open>bs\<close> on the wire and left the
  run of Ones at \<open>run\<close>, or else there was no room (now or before) and the overflow flag says so.
\<close>

definition sends :: "bitwriter \<Rightarrow> bool list \<Rightarrow> nat \<Rightarrow> bitwriter \<Rightarrow> bool" where
  "sends w bs run w' \<longleftrightarrow> wf_writer w' \<and> w_capacity w' = w_capacity w \<and>
     (if \<not> w_overflow w \<and> w_bit_count w + length bs \<le> 8 * w_capacity w
      then wbits w' = wbits w @ bs \<and> \<not> w_overflow w' \<and> w_ones_run w' = run
      else w_overflow w')"

lemma sends_Nil: "wf_writer w \<Longrightarrow> (\<not> w_overflow w \<Longrightarrow> w_ones_run w = run) \<Longrightarrow> sends w [] run w"
  by (auto simp: sends_def wf_writer_def)

lemma sends_count:
  "sends w bs run w' \<Longrightarrow> \<not> w_overflow w' \<Longrightarrow> w_bit_count w' = w_bit_count w + length bs"
  by (metis length_append length_wbits sends_def)

lemma sends_trans [trans]:
  assumes "sends w xs r1 w1" and "sends w1 ys r2 w2"
  shows "sends w (xs @ ys) r2 w2"
proof (cases "w_overflow w1")
  case True
  with assms show ?thesis by (auto simp: sends_def split: if_splits)
next
  case False
  with assms sends_count [OF assms(1) False] show ?thesis
    by (auto simp: sends_def split: if_splits)
qed

lemma write_raw_bit_full:
  "8 * w_capacity w \<le> w_bit_count w \<Longrightarrow> write_raw_bit b w = w\<lparr>w_overflow := True\<rparr>"
  by (simp add: write_raw_bit_def less_eq_div_iff_mult_less_eq mult.commute)

lemma write_raw_bit_fits:
  assumes "w_bit_count w < 8 * w_capacity w" and "wf_writer w"
  shows "wf_writer (write_raw_bit b w)" and "wbits (write_raw_bit b w) = wbits w @ [b]"
    and "w_overflow (write_raw_bit b w) = w_overflow w"
    and "w_capacity (write_raw_bit b w) = w_capacity w"
    and "w_ones_run (write_raw_bit b w) = (if b then w_ones_run w + 1 else 0)"
proof -
  let ?k = "w_bit_count w" and ?bs = "w_bytes w"
  let ?bs' = "if b then ?bs[?k div 8 := (?bs ! (?k div 8)) OR push_bit (7 - ?k mod 8) 1] else ?bs"
  have idx: "\<not> w_capacity w \<le> ?k div 8" using assms(1) by (simp add: less_mult_imp_div_less mult.commute not_le)
  then have len: "?k div 8 < length ?bs" using assms(2) by (auto simp: wf_writer_def)
  have eq: "write_raw_bit b w = w\<lparr>w_bytes := ?bs', w_bit_count := ?k + 1,
      w_ones_run := (if b then w_ones_run w + 1 else 0)\<rparr>"
    using idx by (simp add: write_raw_bit_def Let_def)
  have bit': "buf_bit ?bs' j = (buf_bit ?bs j \<or> (b \<and> j = ?k))" for j
    using buf_bit_or [OF len] by simp
  have zero: "\<not> buf_bit ?bs ?k" using assms by (auto simp: wf_writer_def)
  show "wf_writer (write_raw_bit b w)"
    using assms unfolding eq wf_writer_def by (auto simp: bit' simp del: One_nat_def split: if_splits)
  show "wbits (write_raw_bit b w) = wbits w @ [b]"
    using zero unfolding eq wbits_def by (auto simp: bit')
  show "w_overflow (write_raw_bit b w) = w_overflow w" unfolding eq by simp
  show "w_capacity (write_raw_bit b w) = w_capacity w" unfolding eq by simp
  show "w_ones_run (write_raw_bit b w) = (if b then w_ones_run w + 1 else 0)" unfolding eq by simp
qed

lemma wf_writer_overflow [simp]: "wf_writer (w\<lparr>w_overflow := o'\<rparr>) = wf_writer w"
  and wf_writer_run [simp]: "wf_writer (w\<lparr>w_ones_run := n\<rparr>) = wf_writer w"
  by (simp_all add: wf_writer_def)

lemma wbits_run [simp]: "wbits (w\<lparr>w_ones_run := n\<rparr>) = wbits w"
  by (simp add: wbits_def)

lemma sends_raw_bit:
  assumes "wf_writer w"
  shows "sends w [b] (if b then w_ones_run w + 1 else 0) (write_raw_bit b w)"
proof (cases "w_bit_count w < 8 * w_capacity w")
  case True
  with write_raw_bit_fits [OF True assms] show ?thesis by (simp add: sends_def)
next
  case False
  with assms show ?thesis by (simp add: sends_def write_raw_bit_full)
qed

lemma sends_raw_bits:
  "wf_writer w \<Longrightarrow> sends w bs (w_ones_run (fold write_raw_bit bs w)) (fold write_raw_bit bs w)"
proof (induction bs arbitrary: w)
  case Nil
  then show ?case by (simp add: sends_Nil)
next
  case (Cons b bs)
  note one = sends_raw_bit [OF Cons.prems, of b]
  then have "wf_writer (write_raw_bit b w)" by (simp add: sends_def)
  from sends_trans [OF one Cons.IH [OF this]] show ?case by simp
qed

lemma sends_oob:
  assumes "wf_writer w"
  shows "sends w (bits_msb 9 symbol) 0 (write_oob symbol w)"
proof -
  have "write_oob symbol w = (fold write_raw_bit (bits_msb 9 symbol) w)\<lparr>w_ones_run := 0\<rparr>"
    using fold_bits_msb [of write_raw_bit symbol 9 w]
    by (simp add: write_oob_def OOB_BITS_def)
  with sends_raw_bits [OF assms, of "bits_msb 9 symbol"] show ?thesis
    by (simp add: sends_def)
qed

lemma sends_data_bit:
  assumes "wf_writer w" and "\<not> w_overflow w \<Longrightarrow> w_ones_run w = r"
  shows "sends w (stuff r [b]) (stuff_run r [b]) (write_data_bit b w)"
proof -
  let ?w = "write_raw_bit b w"
  have raw: "sends w [b] (if b then w_ones_run w + 1 else 0) ?w"
    by (rule sends_raw_bit [OF assms(1)])
  then have wf: "wf_writer ?w" by (simp add: sends_def)
  show ?thesis
  proof (cases "w_ones_run ?w \<ge> 5")
    case True
    then have eq: "write_data_bit b w = write_raw_bit False ?w"
      by (simp add: write_data_bit_def STUFF_AFTER_ONES_def)
    have "sends w [b, False] 0 (write_data_bit b w)"
      using sends_trans [OF raw sends_raw_bit [OF wf, of False]] by (simp add: eq)
    with raw True assms(2) show ?thesis
      by (auto simp: sends_def Let_def split: if_splits)
  next
    case False
    then have eq: "write_data_bit b w = ?w"
      by (simp add: write_data_bit_def STUFF_AFTER_ONES_def)
    from raw False assms(2) show ?thesis
      unfolding eq by (auto simp: sends_def Let_def split: if_splits)
  qed
qed

lemma sends_data:
  "wf_writer w \<Longrightarrow> (\<not> w_overflow w \<Longrightarrow> w_ones_run w = r) \<Longrightarrow>
     sends w (stuff r ds) (stuff_run r ds) (fold write_data_bit ds w)"
proof (induction ds arbitrary: w r)
  case Nil
  then show ?case by (simp add: sends_Nil)
next
  case (Cons b ds)
  have one: "sends w (stuff r [b]) (stuff_run r [b]) (write_data_bit b w)"
    by (rule sends_data_bit [OF Cons.prems])
  then have "wf_writer (write_data_bit b w)"
    and "\<not> w_overflow (write_data_bit b w) \<Longrightarrow> w_ones_run (write_data_bit b w) = stuff_run r [b]"
    by (auto simp: sends_def split: if_splits)
  from sends_trans [OF one Cons.IH [OF this]] show ?case
    using stuff_append [of r "[b]" ds] stuff_run_append [of r "[b]" ds] by simp
qed

lemma sends_data_bits:
  assumes "wf_writer w" and "\<not> w_overflow w \<Longrightarrow> w_ones_run w = r"
  shows "sends w (stuff r (bits_msb n v)) (stuff_run r (bits_msb n v)) (write_data_bits v n w)"
  unfolding write_data_bits_def fold_bits_msb
  by (rule sends_data) (use assms in blast)+

text \<open>What a caller needs to go on: the writer stays well formed and its run is known.\<close>

lemma sends_wf: "sends w bs run w' \<Longrightarrow> wf_writer w'"
  and sends_run: "sends w bs run w' \<Longrightarrow> \<not> w_overflow w' \<Longrightarrow> w_ones_run w' = run"
  by (auto simp: sends_def split: if_splits)

section \<open>The reader inverts the writer\<close>

definition rbits :: "bitreader \<Rightarrow> bool list" where
  "rbits r = map (buf_bit (r_bytes r)) [r_bit_pos r..<r_bit_count r]"

text \<open>The reader after \<open>n\<close> more bits, with its run of Ones at \<open>run\<close>.\<close>

definition r_adv :: "nat \<Rightarrow> nat \<Rightarrow> bitreader \<Rightarrow> bitreader" where
  "r_adv n run r = r\<lparr>r_bit_pos := r_bit_pos r + n, r_ones_run := run\<rparr>"

lemma rbits_adv [simp]: "rbits (r_adv n run r) = drop n (rbits r)"
  by (simp add: rbits_def r_adv_def drop_map)

lemma run_adv [simp]: "r_ones_run (r_adv n run r) = run"
  by (simp add: r_adv_def)

lemma adv_adv [simp]: "r_adv m run' (r_adv n run r) = r_adv (n + m) run' r"
  by (simp add: r_adv_def)

lemma has_iff: "bitreader_has r n \<longleftrightarrow> n \<le> length (rbits r)"
  by (simp add: bitreader_has_def rbits_def)

lemma rbits_Cons:
  assumes "rbits r = b # bs"
  shows "r_bit_pos r < r_bit_count r" and "buf_bit (r_bytes r) (r_bit_pos r) = b"
proof -
  show *: "r_bit_pos r < r_bit_count r"
    using assms by (cases "r_bit_pos r < r_bit_count r") (auto simp: rbits_def)
  with assms show "buf_bit (r_bytes r) (r_bit_pos r) = b"
    by (simp add: rbits_def upt_conv_Cons)
qed

lemma read_raw_bit_Nil: "rbits r = [] \<Longrightarrow> read_raw_bit r = (None, r)"
  by (simp add: read_raw_bit_def has_iff)

lemma read_raw_bit_Cons:
  assumes "rbits r = b # bs"
  shows "read_raw_bit r = (Some b, r_adv 1 (if b then r_ones_run r + 1 else 0) r)"
  using assms rbits_Cons [OF assms]
  by (auto simp: read_raw_bit_def has_iff r_adv_def buf_bit_def Let_def)

lemma read_data_bit_stuffed:
  assumes "rbits r = stuff run [b] @ rest" and "r_ones_run r = run" and "run < 5"
  shows "read_data_bit r = (Some (b, False), r_adv (length (stuff run [b])) (stuff_run run [b]) r)"
proof (cases "b \<and> run = 4")
  case True
  with assms have "rbits r = True # False # rest" by (simp add: Let_def)
  from read_raw_bit_Cons [OF this] True assms(2) show ?thesis
    by (simp add: read_data_bit_def STUFF_AFTER_ONES_def read_raw_bit_Cons [where b = False and bs = rest]
        \<open>rbits r = True # False # rest\<close> Let_def)
next
  case False
  with assms have "rbits r = b # rest" by (auto simp: Let_def split: if_splits)
  from read_raw_bit_Cons [OF this] False assms(2,3) show ?thesis
    by (auto simp: read_data_bit_def STUFF_AFTER_ONES_def Let_def)
qed

lemma read_data_bits_loop_stuffed:
  "rbits r = stuff run ds @ rest \<Longrightarrow> r_ones_run r = run \<Longrightarrow> run < 5 \<Longrightarrow>
   read_data_bits_loop (length ds) out r =
     (Some (fold shift_in ds out, False), r_adv (length (stuff run ds)) (stuff_run run ds) r)"
proof (induction ds arbitrary: run out r)
  case Nil
  then show ?case by (simp add: r_adv_def)
next
  case (Cons b ds)
  have split: "stuff run (b # ds) = stuff run [b] @ stuff (stuff_run run [b]) ds"
    and split_run: "stuff_run run (b # ds) = stuff_run (stuff_run run [b]) ds"
    using stuff_append [of run "[b]" ds] stuff_run_append [of run "[b]" ds] by simp_all
  have one: "read_data_bit r = (Some (b, False), r_adv (length (stuff run [b])) (stuff_run run [b]) r)"
    by (rule read_data_bit_stuffed [where rest = "stuff (stuff_run run [b]) ds @ rest"])
      (use Cons.prems in \<open>simp_all only: split append_assoc\<close>)
  let ?r = "r_adv (length (stuff run [b])) (stuff_run run [b]) r"
  have "rbits ?r = stuff (stuff_run run [b]) ds @ rest"
    using Cons.prems(1) by (simp only: split rbits_adv) simp
  from Cons.IH [OF this run_adv stuff_run_less [OF Cons.prems(3)], of "shift_in b out"]
  show ?case by (simp add: one Let_def split split_run del: stuff.simps stuff_run.simps)
qed

lemma read_data_bits_stuffed:
  assumes "rbits r = stuff run (bits_msb n v) @ rest" and "r_ones_run r = run" and "run < 5"
  shows "read_data_bits n r =
    (Some (take_bit n v, False), r_adv (length (stuff run (bits_msb n v))) (stuff_run run (bits_msb n v)) r)"
  using read_data_bits_loop_stuffed [OF assms, of 0] by (simp add: read_data_bits_def)

lemma read_oob_loop_bits:
  "rbits r = bs @ rest \<Longrightarrow> \<exists>run. read_oob_loop (length bs) out r = (fold shift_in bs out, r_adv (length bs) run r)"
proof (induction bs arbitrary: out r)
  case Nil
  then show ?case by (simp add: r_adv_def) (metis bitreader.surjective bitreader.update_convs(4))
next
  case (Cons b bs)
  from Cons.prems have r: "rbits r = b # (bs @ rest)" by simp
  then have "rbits (r_adv 1 (if b then r_ones_run r + 1 else 0) r) = bs @ rest" by simp
  from Cons.IH [OF this, of "shift_in b out"] show ?case
    by (simp add: read_raw_bit_Cons [OF r])
qed

lemma read_oob_bits:
  assumes "rbits r = bits_msb 9 symbol @ rest" and "take_bit 9 symbol = symbol"
  shows "read_oob r = (Some symbol, r_adv 9 0 r)"
  using read_oob_loop_bits [OF assms(1), of 0] assms
  by (auto simp: read_oob_def has_iff OOB_BITS_def r_adv_def)

section \<open>Data never looks like a control character\<close>

fun runs_ok :: "nat \<Rightarrow> bool list \<Rightarrow> bool" where
  "runs_ok r [] = True"
| "runs_ok r (b # bs) = (let r' = (if b then r + 1 else 0) in r' \<le> 5 \<and> runs_ok r' bs)"

lemma runs_ok_stuff: "r < 5 \<Longrightarrow> runs_ok r (stuff r ds)"
  by (induction ds arbitrary: r) (auto simp: Let_def)

lemma runs_ok_window:
  "runs_ok r bs \<Longrightarrow> i + n \<le> length bs \<Longrightarrow> \<forall>j < n. bs ! (i + j) \<Longrightarrow> (if i = 0 then r else 0) + n \<le> 5 \<or> n = 0"
proof (induction bs arbitrary: r i n)
  case Nil
  then show ?case by simp
next
  case (Cons b bs)
  show ?case
  proof (cases i)
    case (Suc i')
    with Cons.prems Cons.IH [of "if b then r + 1 else 0" i' n] show ?thesis
      by (auto simp: Let_def split: if_splits)
  next
    case 0
    show ?thesis
    proof (cases n)
      case (Suc n')
      with Cons.prems(3) 0 have "b" and "\<forall>j < n'. bs ! j" by (auto simp: nth_Cons')
      with Cons.prems Cons.IH [of "r + 1" 0 n'] 0 Suc show ?thesis by (auto simp: Let_def)
    qed simp
  qed
qed

lemma stuff_no_six_ones:
  assumes "r < 5" and "i + 6 \<le> length (stuff r ds)"
  shows "\<exists>j < 6. \<not> stuff r ds ! (i + j)"
  using runs_ok_window [OF runs_ok_stuff [OF assms(1)] assms(2)] by fastforce

section \<open>Looking for a control character\<close>

lemma oob_well_formed_bits:
  assumes "oob_well_formed w"
  shows "\<not> bit w 8" and "2 \<le> k \<Longrightarrow> k < 8 \<Longrightarrow> bit w k"
proof -
  have eq: "w AND 0x1FC = 0x0FC" using assms by (simp add: oob_well_formed_def split: if_splits)
  have b: "bit w k \<and> bit (0x1FC :: u16) k \<longleftrightarrow> bit (0x0FC :: u16) k" for k
    using arg_cong [OF eq, of "\<lambda>v. bit v k"] by (simp only: bit_and_iff)
  show "\<not> bit w 8" using b [of 8] by simp
  show "bit w k" if "2 \<le> k" "k < 8"
  proof -
    from that consider "k = 2" | "k = 3" | "k = 4" | "k = 5" | "k = 6" | "k = 7" by linarith
    then show ?thesis using b [of k] by cases simp_all
  qed
qed

lemma read_oob_value:
  assumes "9 \<le> length (rbits r)"
  shows "fst (read_oob r) = Some (fold shift_in (take 9 (rbits r)) 0)"
proof -
  have "rbits r = take 9 (rbits r) @ drop 9 (rbits r)" by simp
  from read_oob_loop_bits [OF this, of 0] assms show ?thesis
    by (auto simp: read_oob_def has_iff OOB_BITS_def)
qed

lemma peek_oob_data:
  assumes "rbits r = stuff run ds @ rest" and "run < 5" and "7 \<le> length ds"
  shows "peek_oob r = None"
proof (cases "9 \<le> length (rbits r)")
  case False
  then show ?thesis by (simp add: peek_oob_def read_oob_def has_iff OOB_BITS_def)
next
  case True
  let ?w = "fold shift_in (take 9 (rbits r)) (0 :: u16)" and ?s = "stuff run ds"
  have len: "7 \<le> length ?s" using assms(3) length_stuff_ge [of ds run] by simp
  have "\<not> oob_well_formed ?w"
  proof
    assume wf: "oob_well_formed ?w"
    have bitw: "bit ?w k = rbits r ! (8 - k)" if "k < 9" for k
      using True that by (subst bit_fold_shift_in) auto
    have "?s ! (1 + j)" if "j < 6" for j
      using oob_well_formed_bits(2) [OF wf, of "7 - j"] bitw [of "7 - j"] that len
      by (auto simp: assms(1) nth_append)
    with stuff_no_six_ones [OF assms(2), of 1 ds] len show False by auto
  qed
  then show ?thesis by (simp add: peek_oob_def read_oob_value [OF True])
qed

lemma peek_oob_symbol:
  assumes "rbits r = bits_msb 9 symbol @ rest" and "take_bit 9 symbol = symbol" and "oob_well_formed symbol"
  shows "peek_oob r = Some symbol"
  using read_oob_bits [OF assms(1,2)] assms(3) by (simp add: peek_oob_def)

end
