(* ===== verification/Ring_Frame.thy ===== *)
theory Ring_Frame
  imports Ring_Mac
begin

unbundle bit_operations_syntax

text \<open>
  \<^verbatim>\<open>src/core/ring/ap_ring_frame.{h,c}\<close>: the fields of a ring frame, the odd-parity
  acknowledge bytes and the 32-bit frame check sequence over
  \<open>X^32 + X^23 + X^21 + X^11 + X^2 + 1\<close>.

  A header is the list of its bytes; \<open>header + offset\<close> is the list and a position. The frame
  check is characterised by its linearity: it detects every error burst of at most 32 bits,
  and it does not see the early acknowledge byte a receiver rewrites in flight.
\<close>

section \<open>Layout\<close>

definition HDR_DESTINATION :: nat where "HDR_DESTINATION = 0"
definition HDR_TYPE :: nat where "HDR_TYPE = 4"
definition HDR_EARLY_ACK :: nat where "HDR_EARLY_ACK = 7"
definition HDR_SOURCE :: nat where "HDR_SOURCE = 8"
definition HDR_FIXED_BYTES :: nat where "HDR_FIXED_BYTES = 12"
definition HDR_MAX_BYTES :: nat where "HDR_MAX_BYTES = 1024"
definition DATA_MAX_BYTES :: nat where "DATA_MAX_BYTES = 4096"

abbreviation (input) TYPE_BROADCAST :: u16 where "TYPE_BROADCAST \<equiv> 0x80"
abbreviation (input) EARLY_INTEND_TO_COPY :: u8 where "EARLY_INTEND_TO_COPY \<equiv> 0x08"
abbreviation (input) EARLY_PARITY :: u8 where "EARLY_PARITY \<equiv> 0x02"
abbreviation (input) LATE_COPIED :: u8 where "LATE_COPIED \<equiv> 0x40"
abbreviation (input) LATE_WAIT_ACK :: u8 where "LATE_WAIT_ACK \<equiv> 0x20"
abbreviation (input) LATE_INTEND_TO_COPY :: u8 where "LATE_INTEND_TO_COPY \<equiv> 0x08"
abbreviation (input) LATE_ERROR :: u8 where "LATE_ERROR \<equiv> 0x04"
abbreviation (input) LATE_PARITY :: u8 where "LATE_PARITY \<equiv> 0x02"

lemmas ring_layout = HDR_DESTINATION_def HDR_TYPE_def HDR_EARLY_ACK_def HDR_SOURCE_def
  HDR_FIXED_BYTES_def HDR_MAX_BYTES_def DATA_MAX_BYTES_def

section \<open>Acknowledge parity\<close>

function popcount8_loop :: "u8 \<Rightarrow> nat \<Rightarrow> nat" where
  "popcount8_loop v n =
     (if v \<noteq> 0 then popcount8_loop (drop_bit 1 v) (n + unat (v AND 1)) else n)"
  by pat_completeness auto
termination
proof (relation "measure (\<lambda>(v, n). unat v)")
  fix v :: u8 and n :: nat
  assume "v \<noteq> 0"
  then show "((drop_bit 1 v, n + unat (v AND 1)), v, n) \<in> measure (\<lambda>(v, n). unat v)"
    by (simp only: in_measure prod.case) (rule unat_drop_bit_1_less)
qed simp

declare popcount8_loop.simps [simp del]

definition popcount8 :: "u8 \<Rightarrow> nat" where
  "popcount8 v = popcount8_loop v 0"

definition ack_parity_ok :: "u8 \<Rightarrow> bool" where
  "ack_parity_ok field \<longleftrightarrow> popcount8 field mod 2 = 1"

definition ack_with_parity :: "u8 \<Rightarrow> u8" where
  "ack_with_parity field =
     (let without = field AND NOT EARLY_PARITY in
      if popcount8 without mod 2 = 0 then without OR EARLY_PARITY else without)"

section \<open>The frame check sequence\<close>

abbreviation (input) CRC_POLYNOMIAL :: u32 where "CRC_POLYNOMIAL \<equiv> 0x00A00805"
abbreviation (input) CRC_INIT :: u32 where "CRC_INIT \<equiv> 0"

text \<open>The body of the loop of \<open>ap_ring_crc_bits\<close>, for one incoming bit.\<close>

definition crc_step :: "bool \<Rightarrow> u32 \<Rightarrow> u32" where
  "crc_step b crc =
     (let top = testbit crc 31; crc = push_bit 1 crc
      in if top \<noteq> b then crc XOR CRC_POLYNOMIAL else crc)"

definition crc_bits :: "u32 \<Rightarrow> u32 \<Rightarrow> nat \<Rightarrow> u32" where
  "crc_bits crc val bits = fold (\<lambda>i. crc_step (testbit val (bits - 1 - i))) [0..<bits] crc"

definition crc_bytes :: "u32 \<Rightarrow> u8 list \<Rightarrow> u32" where
  "crc_bytes crc bytes = fold (\<lambda>i crc. crc_bits crc (ucast (bytes ! i)) 8) [0..<length bytes] crc"

definition frame_crc :: "u8 list \<Rightarrow> u8 list \<Rightarrow> u32" where
  "frame_crc header data =
     (let crc = CRC_INIT;
          crc = fold (\<lambda>i crc. let byte = (if i = HDR_EARLY_ACK then 0 else header ! i)
                              in crc_bits crc (ucast byte) 8) [0..<length header] crc;
          crc = crc_bits crc (ucast OOB_SEPARATOR) OOB_BITS;
          crc = crc_bytes crc data
      in crc_bits crc (ucast OOB_SEPARATOR) OOB_BITS)"

section \<open>Lengths and fields\<close>

definition header_length_valid :: "nat \<Rightarrow> bool" where
  "header_length_valid bytes \<longleftrightarrow>
     bytes \<ge> HDR_FIXED_BYTES \<and> bytes \<le> HDR_MAX_BYTES \<and> bytes mod 2 = 0"

definition data_length_valid :: "nat \<Rightarrow> bool" where
  "data_length_valid bytes \<longleftrightarrow> bytes \<le> DATA_MAX_BYTES \<and> bytes mod 2 = 0"

definition read_be32 :: "u8 list \<Rightarrow> nat \<Rightarrow> u32" where
  "read_be32 p off =
     push_bit 24 (ucast (p ! off)) OR push_bit 16 (ucast (p ! (off + 1)))
     OR push_bit 8 (ucast (p ! (off + 2))) OR ucast (p ! (off + 3))"

definition write_be32 :: "u8 list \<Rightarrow> nat \<Rightarrow> u32 \<Rightarrow> u8 list" where
  "write_be32 p off v =
     p[off := ucast (drop_bit 24 v), off + 1 := ucast (drop_bit 16 v),
       off + 2 := ucast (drop_bit 8 v), off + 3 := ucast v]"

definition header_destination :: "u8 list \<Rightarrow> u32" where
  "header_destination header = read_be32 header HDR_DESTINATION"

definition header_source :: "u8 list \<Rightarrow> u32" where
  "header_source header = read_be32 header HDR_SOURCE"

definition header_type :: "u8 list \<Rightarrow> u16" where
  "header_type header = push_bit 8 (ucast (header ! (HDR_TYPE + 1))) OR ucast (header ! HDR_TYPE)"

definition header_early_ack :: "u8 list \<Rightarrow> u8" where
  "header_early_ack header = header ! HDR_EARLY_ACK"

definition header_set_destination :: "u8 list \<Rightarrow> u32 \<Rightarrow> u8 list" where
  "header_set_destination header address = write_be32 header HDR_DESTINATION address"

definition header_set_source :: "u8 list \<Rightarrow> u32 \<Rightarrow> u8 list" where
  "header_set_source header address = write_be32 header HDR_SOURCE address"

definition header_set_type :: "u8 list \<Rightarrow> u16 \<Rightarrow> u8 list" where
  "header_set_type header type' =
     header[HDR_TYPE := ucast type', HDR_TYPE + 1 := ucast (drop_bit 8 type')]"

definition header_set_early_ack :: "u8 list \<Rightarrow> u8 \<Rightarrow> u8 list" where
  "header_set_early_ack header field = header[HDR_EARLY_ACK := field]"

definition header_addresses :: "u8 list \<Rightarrow> u32 \<Rightarrow> bool" where
  "header_addresses header node =
     (if header_type header AND TYPE_BROADCAST \<noteq> 0 then True
      else header_destination header = node)"

section \<open>Parity: a field is a set of bits\<close>

definition bit_set :: "'a::len word \<Rightarrow> nat set" where
  "bit_set v = {k. bit v k}"

lemma finite_bit_set [simp]: "finite (bit_set v)"
  by (rule finite_subset [of _ "{..<LENGTH('a)}" for v :: "'a::len word"])
    (auto simp: bit_set_def dest: bit_imp_le_length)

lemma card_bit_set_drop:
  "card (bit_set (v::u8)) = card (bit_set (drop_bit 1 v)) + unat (v AND 1)"
proof -
  have "bit_set v = (if bit v 0 then {0} else {}) \<union> Suc ` bit_set (drop_bit 1 v)"
    by (auto simp: bit_set_def bit_drop_bit_eq image_iff split: if_splits)
      (metis not0_implies_Suc)+
  moreover have "unat (v AND 1) = (if bit v 0 then 1 else 0)"
    by (simp add: and_one_eq bit_0 odd_iff_mod_2_eq_one)
  ultimately show ?thesis
    by (auto simp: card_image card_insert_if)
qed

lemma popcount8_loop_card: "popcount8_loop v n = n + card (bit_set v)"
proof (induction v n rule: popcount8_loop.induct)
  case (1 v n)
  show ?case
  proof (cases "v = 0")
    case True
    then show ?thesis by (simp add: popcount8_loop.simps bit_set_def)
  next
    case False
    with 1 show ?thesis
      by (subst popcount8_loop.simps) (simp add: card_bit_set_drop [of v])
  qed
qed

lemma popcount8_card: "popcount8 v = card (bit_set v)"
  by (simp add: popcount8_def popcount8_loop_card)

lemma ack_parity_ok_iff: "ack_parity_ok v \<longleftrightarrow> odd (card (bit_set v))"
  by (simp add: ack_parity_ok_def popcount8_card odd_iff_mod_2_eq_one)

lemma bit_two: "bit (2::u8) k \<longleftrightarrow> k = 1"
  using bit_single [where 'a = 8 and n = 1 and m = k] by simp

lemma bit_set_without: "bit_set (field AND NOT (2::u8)) = bit_set field - {1}"
proof -
  have "bit (field AND NOT (2::u8)) k \<longleftrightarrow> bit field k \<and> k \<noteq> 1" for k
    by (simp only: bit_and_iff bit_not_iff bit_two possible_bit_word)
      (auto dest: bit_imp_le_length)
  then show ?thesis by (auto simp: bit_set_def)
qed

lemma bit_set_with: "bit_set (field OR (2::u8)) = insert 1 (bit_set field)"
proof -
  have "bit (field OR (2::u8)) k \<longleftrightarrow> bit field k \<or> k = 1" for k
    by (simp only: bit_or_iff bit_two)
  then show ?thesis by (auto simp: bit_set_def)
qed

theorem ack_with_parity_odd:
  "ack_parity_ok (ack_with_parity field) \<and>
   ack_with_parity field AND NOT EARLY_PARITY = field AND NOT EARLY_PARITY"
proof
  let ?w = "field AND NOT (2::u8)"
  have no1: "1 \<notin> bit_set ?w" unfolding bit_set_without by blast
  then have card: "card (bit_set (?w OR 2)) = Suc (card (bit_set ?w))"
    unfolding bit_set_with by (intro card_insert_disjoint finite_bit_set)
  have eq: "ack_with_parity field = (if even (card (bit_set ?w)) then ?w OR 2 else ?w)"
    unfolding ack_with_parity_def Let_def popcount8_card even_iff_mod_2_eq_zero ..
  show "ack_parity_ok (ack_with_parity field)"
    unfolding ack_parity_ok_iff eq
    by (cases "even (card (bit_set ?w))") (simp_all only: if_True if_False card even_Suc simp_thms)
  show "ack_with_parity field AND NOT 2 = field AND NOT (2::u8)"
    unfolding eq by (rule bit_word_eqI)
      (simp only: bit_and_iff bit_not_iff bit_or_iff possible_bit_word split: if_split, blast)
qed

section \<open>The frame check as a linear map on bit strings\<close>

lemma crc_bits_fold: "crc_bits crc v n = fold crc_step (bits_msb n v) crc"
  unfolding crc_bits_def by (rule fold_bits_msb)

lemma crc_bytes_fold: "crc_bytes crc bytes = fold crc_step (bytes_bits bytes) crc"
proof -
  have "fold (\<lambda>i crc. crc_bits crc (ucast (bytes ! i)) 8) [0..<n] crc =
      fold crc_step (bytes_bits (take n bytes)) crc" if "n \<le> length bytes" for n crc
    using that
    by (induction n arbitrary: crc) (simp_all add: take_Suc_conv_app_nth crc_bits_fold bits_msb_ucast)
  from this [of "length bytes"] show ?thesis by (simp add: crc_bytes_def)
qed

text \<open>The bit string the frame check covers.\<close>

definition crc_image :: "u8 list \<Rightarrow> u8 list \<Rightarrow> bool list" where
  "crc_image header data =
     bytes_bits (header[HDR_EARLY_ACK := 0]) @ bits_msb 9 OOB_SEPARATOR @
     bytes_bits data @ bits_msb 9 OOB_SEPARATOR"

lemma frame_crc_fold: "frame_crc header data = fold crc_step (crc_image header data) 0"
proof -
  have "fold (\<lambda>i crc. let byte = (if i = HDR_EARLY_ACK then 0 else header ! i)
          in crc_bits crc (ucast byte) 8) [0..<length header] 0 =
        crc_bytes 0 (header[HDR_EARLY_ACK := 0])"
    by (auto simp: crc_bytes_def Let_def nth_list_update intro!: fold_cong)
  then show ?thesis
    using bits_msb_ucast [of 9 OOB_SEPARATOR, where 'b = 32]
    by (simp add: frame_crc_def Let_def crc_bytes_fold crc_bits_fold OOB_BITS_def crc_image_def)
qed

lemma bit_crc_step:
  "k < 32 \<Longrightarrow> bit (crc_step b c) k \<longleftrightarrow>
     (k \<noteq> 0 \<and> bit c (k - 1)) \<noteq> (bit c 31 \<noteq> b \<and> bit CRC_POLYNOMIAL k)"
  by (cases k) (auto simp: crc_step_def Let_def bit_xor_iff bit_push_bit_iff
      simp del: push_bit_Suc bit_numeral_word_iff)

lemma crc_step_xor: "crc_step (a \<noteq> b) (c XOR d) = crc_step a c XOR crc_step b d"
  by (rule bit_word_eqI) (auto simp: bit_crc_step bit_xor_iff simp del: bit_numeral_word_iff)

lemma crc_fold_xor:
  "length xs = length ys \<Longrightarrow>
     fold crc_step (map2 (\<noteq>) xs ys) (c XOR d) = fold crc_step xs c XOR fold crc_step ys d"
proof (induction xs ys arbitrary: c d rule: list_induct2)
  case Nil
  show ?case by simp
next
  case (Cons x xs y ys)
  then show ?case by (simp only: list.map zip_Cons_Cons prod.case fold_Cons comp_apply crc_step_xor)
qed

text \<open>A step that ends with a clear low bit cannot have applied the polynomial, so it can be
  undone: the register held the incoming bit on top of the shifted rest.\<close>

lemma crc_step_low_clear:
  assumes "\<not> bit (crc_step b c) 0"
  shows "bit c 31 = b" and "k < 31 \<Longrightarrow> bit (crc_step b c) (Suc k) = bit c k"
proof -
  show top: "bit c 31 = b"
    using assms bit_crc_step [of 0 b c] by simp
  show "k < 31 \<Longrightarrow> bit (crc_step b c) (Suc k) = bit c k"
    using bit_crc_step [of "Suc k" b c] top by simp
qed

lemma crc_fold_zero_state:
  "length bs \<le> 32 \<Longrightarrow> fold crc_step bs c = 0 \<Longrightarrow>
     (\<forall>i < length bs. bit c (31 - i) = bs ! i) \<and> (\<forall>j < 32 - length bs. \<not> bit c j)"
proof (induction bs arbitrary: c)
  case Nil
  then show ?case by simp
next
  case (Cons b bs)
  have IH: "\<forall>i < length bs. bit (crc_step b c) (31 - i) = bs ! i"
      "\<forall>j < 32 - length bs. \<not> bit (crc_step b c) j"
    using Cons.IH [of "crc_step b c"] Cons.prems by simp_all
  have "\<not> bit (crc_step b c) 0" using IH(2) Cons.prems(1) by simp
  note undo = crc_step_low_clear [OF this]
  have "bit c (31 - i) = (b # bs) ! i" if "i < length (b # bs)" for i
  proof (cases i)
    case 0
    then show ?thesis using undo(1) by simp
  next
    case (Suc i')
    with that Cons.prems(1) have "31 - i < 31" and "Suc (31 - i) = 31 - i'" by auto
    then show ?thesis using undo(2) [of "31 - i"] IH(1) Suc that by simp
  qed
  moreover have "\<not> bit c j" if "j < 32 - length (b # bs)" for j
    using undo(2) [of j] IH(2) that by simp
  ultimately show ?case by blast
qed

lemma crc_burst_detected:
  assumes "length es \<le> 32" and "fold crc_step es 0 = 0"
  shows "es = replicate (length es) False"
  using crc_fold_zero_state [OF assms] by (simp add: list_eq_iff_nth_eq)

lemma crc_zeros_inj: "fold crc_step (replicate n False) c = 0 \<Longrightarrow> c = 0"
proof (induction n arbitrary: c)
  case 0
  then show ?case by simp
next
  case (Suc n)
  then have "crc_step False c = 0" by simp
  then have z: "fold crc_step [False] c = 0" by simp
  have "\<not> bit c k" if "k < 32" for k
    using crc_fold_zero_state [OF _ z] that by (cases "k = 31") auto
  then show ?case by (auto intro: bit_word_eqI)
qed

text \<open>Two messages of one length that differ only inside a window of at most 32 bits never
  have the same check.\<close>

lemma crc_detects_burst:
  assumes "length a = length b" and "length a \<le> 32"
    and "fold crc_step (p @ a @ q) c = fold crc_step (p @ b @ q) c"
  shows "a = b"
proof -
  let ?e = "map2 (\<noteq>) a b" and ?c = "fold crc_step p c"
  have q0: "map2 (\<noteq>) q q = replicate (length q) False" by (induction q) auto
  then have qx: "fold crc_step (replicate (length q) False) (c XOR d) =
      fold crc_step q c XOR fold crc_step q d" for c d
    using crc_fold_xor [of q q c d] by (simp only: q0)
  have "fold crc_step q (fold crc_step a ?c) = fold crc_step q (fold crc_step b ?c)"
    using assms(3) by simp
  then have "fold crc_step (replicate (length q) False) (fold crc_step a ?c XOR fold crc_step b ?c) = 0"
    by (simp only: qx xor_self_eq)
  from crc_zeros_inj [OF this] have "fold crc_step ?e (?c XOR ?c) = 0"
    by (simp only: crc_fold_xor [OF assms(1)])
  then have "fold crc_step ?e 0 = 0" by simp
  from crc_burst_detected [OF _ this] assms(1,2) have "?e = replicate (length a) False" by simp
  with assms(1) show ?thesis
    by (auto simp: list_eq_iff_nth_eq)
qed

section \<open>Properties of the frame check\<close>

text \<open>A frame whose data arrives altered only inside a window of four bytes or less carries
  a different check, so the receiver's recomputation rejects it.\<close>

theorem frame_crc_detects_burst:
  assumes "length a = length b" and "length a \<le> 4"
  shows "frame_crc header (p @ a @ q) = frame_crc header (p @ b @ q) \<longleftrightarrow> a = b"
proof
  assume eq: "frame_crc header (p @ a @ q) = frame_crc header (p @ b @ q)"
  let ?h = "bytes_bits (header[HDR_EARLY_ACK := 0]) @ bits_msb 9 OOB_SEPARATOR"
    and ?t = "bytes_bits q @ bits_msb 9 OOB_SEPARATOR"
  have "fold crc_step ((?h @ bytes_bits p) @ bytes_bits x @ ?t) 0 = frame_crc header (p @ x @ q)" for x
    by (simp add: frame_crc_fold crc_image_def)
  with eq have "bytes_bits a = bytes_bits b"
    using assms by (intro crc_detects_burst [of _ _ "?h @ bytes_bits p" ?t 0]) simp_all
  then show "a = b" using assms(1) by (rule bytes_bits_inj)
qed simp

lemma frame_crc_detects_burst_witness:
  "length [1, 2 :: u8] = length [1, 3 :: u8] \<and> length [1, 2 :: u8] \<le> 4 \<and>
   frame_crc (replicate 12 0) ([7] @ [1, 2] @ [9]) \<noteq> frame_crc (replicate 12 0) ([7] @ [1, 3] @ [9])"
  using frame_crc_detects_burst [of "[1, 2]" "[1, 3]" "replicate 12 0" "[7]" "[9]"] by simp

text \<open>A receiver may rewrite the early acknowledge byte of a passing frame: the check does
  not change, whatever it writes.\<close>

theorem frame_crc_ignores_early_ack:
  "frame_crc (header_set_early_ack header field) data = frame_crc header data"
  by (simp add: frame_crc_fold crc_image_def header_set_early_ack_def)

section \<open>Header fields\<close>

lemma length_setters [simp]:
  "length (header_set_destination h a) = length h"
  "length (header_set_source h a) = length h"
  "length (header_set_type h t) = length h"
  "length (header_set_early_ack h f) = length h"
  by (simp_all add: header_set_destination_def header_set_source_def header_set_type_def
      header_set_early_ack_def write_be32_def)

lemma be32_bytes:
  fixes v :: u32
  defines "byte n \<equiv> ucast (ucast (drop_bit n v) :: u8) :: u32"
  shows "push_bit 24 (byte 24) OR push_bit 16 (byte 16) OR push_bit 8 (byte 8) OR byte 0 = v"
proof (rule bit_word_eqI)
  have byte: "bit (byte n) k \<longleftrightarrow> k < 8 \<and> bit v (n + k)" for n k
    by (auto simp: byte_def bit_ucast_iff bit_drop_bit_eq)
  fix k assume "k < LENGTH(32)"
  then consider "k < 8" | "8 \<le> k" "k < 16" | "16 \<le> k" "k < 24" | "24 \<le> k" "k < 32" by force
  then show "bit (push_bit 24 (byte 24) OR push_bit 16 (byte 16) OR push_bit 8 (byte 8) OR byte 0) k = bit v k"
    by cases (simp_all add: bit_or_iff bit_push_bit_iff byte less_diff_conv2)
qed

lemma read_write_be32:
  "off + 3 < length p \<Longrightarrow> read_be32 (write_be32 p off v) off = v"
  using be32_bytes [of v] by (simp add: read_be32_def write_be32_def)

lemma read_be32_update_other:
  "i < off \<or> off + 3 < i \<Longrightarrow> read_be32 (p[i := b]) off = read_be32 p off"
  by (auto simp: read_be32_def nth_list_update)

lemma be16_bytes:
  fixes v :: u16
  defines "byte n \<equiv> ucast (ucast (drop_bit n v) :: u8) :: u16"
  shows "push_bit 8 (byte 8) OR byte 0 = v"
proof (rule bit_word_eqI)
  have byte: "bit (byte n) k \<longleftrightarrow> k < 8 \<and> bit v (n + k)" for n k
    by (auto simp: byte_def bit_ucast_iff bit_drop_bit_eq)
  fix k assume "k < LENGTH(16)"
  then consider "k < 8" | "8 \<le> k" "k < 16" by force
  then show "bit (push_bit 8 (byte 8) OR byte 0) k = bit v k"
    by cases (simp_all add: bit_or_iff bit_push_bit_iff byte less_diff_conv2)
qed

lemmas header_fields = header_destination_def header_source_def header_type_def
  header_early_ack_def header_set_destination_def header_set_source_def header_set_type_def
  header_set_early_ack_def ring_layout

text \<open>In a header of at least the twelve fixed bytes every field reads back what was
  stored, and storing one field leaves the other three as they were.\<close>

theorem header_fields_roundtrip:
  assumes "12 \<le> length h"
  shows
    "header_destination (header_set_destination h a) = a \<and>
     header_source (header_set_source h a) = a \<and>
     header_type (header_set_type h t) = t \<and>
     header_early_ack (header_set_early_ack h f) = f \<and>
     header_source (header_set_destination h a) = header_source h \<and>
     header_type (header_set_destination h a) = header_type h \<and>
     header_early_ack (header_set_destination h a) = header_early_ack h \<and>
     header_destination (header_set_source h a) = header_destination h \<and>
     header_type (header_set_source h a) = header_type h \<and>
     header_early_ack (header_set_source h a) = header_early_ack h \<and>
     header_destination (header_set_type h t) = header_destination h \<and>
     header_source (header_set_type h t) = header_source h \<and>
     header_early_ack (header_set_type h t) = header_early_ack h \<and>
     header_destination (header_set_early_ack h f) = header_destination h \<and>
     header_source (header_set_early_ack h f) = header_source h \<and>
     header_type (header_set_early_ack h f) = header_type h"
  using assms
  by (simp add: header_fields read_write_be32 be16_bytes [simplified])
    (simp add: write_be32_def read_be32_update_other)

lemma header_fields_roundtrip_witness:
  "12 \<le> length (replicate 12 (0::u8)) \<and>
   header_destination (header_set_destination (replicate 12 0) 0x12345) = 0x12345"
  using header_fields_roundtrip [of "replicate 12 0" "0x12345" 0 0] by simp

end
