(* ===== verification/Ring_Framer.thy ===== *)
theory Ring_Framer
  imports Ring_Frame
begin

unbundle bit_operations_syntax

text \<open>
  \<^verbatim>\<open>src/core/ring/ap_ring_framer.{h,c}\<close>: whole frames over the bit stream. \<open>frame_emit\<close>
  writes the five sequences of a frame, \<open>frame_parse\<close> takes them apart again into the
  caller's two buffers. The buffers are lists as long as the capacities passed with them; the
  C functions only ever write below the capacity.

  The main result is that a receiver parses every frame a transmitter emits, whatever stands
  behind it on the wire; the others say exactly when a transmitter refuses.
\<close>

section \<open>Emitting\<close>

definition NULL_SEPARATOR_BITS :: nat where "NULL_SEPARATOR_BITS = 8"

record frame_fields =
  ff_header :: "u8 list"
  ff_header_bytes :: nat
  ff_data :: "u8 list"
  ff_data_bytes :: nat
  ff_late_acknowledge :: u8

definition frame_emit :: "bitwriter \<Rightarrow> frame_fields \<Rightarrow> bool \<times> bitwriter" where
  "frame_emit w fs =
     (if \<not> header_length_valid (ff_header_bytes fs) \<or> \<not> data_length_valid (ff_data_bytes fs)
      then (False, w)
      else
        let w = write_oob OOB_FRAME_START w;
            w = write_data_bits 0 NULL_SEPARATOR_BITS w;
            w = write_oob OOB_SEPARATOR w;
            w = fold (\<lambda>i. write_data_bits (ucast (ff_header fs ! i)) 8) [0..<ff_header_bytes fs] w;
            w = write_oob OOB_SEPARATOR w;
            w = fold (\<lambda>i. write_data_bits (ucast (ff_data fs ! i)) 8) [0..<ff_data_bytes fs] w;
            w = write_oob OOB_SEPARATOR w;
            crc = frame_crc (take (ff_header_bytes fs) (ff_header fs))
                    (take (ff_data_bytes fs) (ff_data fs));
            w = write_data_bits crc 32 w;
            w = write_data_bits 0 NULL_SEPARATOR_BITS w;
            w = write_data_bits (ucast (ff_late_acknowledge fs)) 8 w
        in (\<not> w_overflow w, w))"

section \<open>Parsing\<close>

datatype frame_status =
  FRAME_OK | FRAME_TRUNCATED | FRAME_NO_FRAME_START | FRAME_BAD_SEPARATOR | FRAME_BAD_NULL
| FRAME_HEADER_LENGTH | FRAME_DATA_LENGTH | FRAME_CHECK_FAILED

record frame_parse_result =
  fp_status :: frame_status
  fp_header_bytes :: nat
  fp_data_bytes :: nat
  fp_late_acknowledge :: u8
  fp_check_received :: u32
  fp_check_computed :: u32

definition failed :: "frame_status \<Rightarrow> frame_parse_result" where
  "failed status = \<lparr>fp_status = status, fp_header_bytes = 0, fp_data_bytes = 0,
     fp_late_acknowledge = 0, fp_check_received = 0, fp_check_computed = 0\<rparr>"

definition read_byte :: "bitreader \<Rightarrow> u8 option \<times> bitreader" where
  "read_byte r =
     (case read_data_bits 8 r of
        (None, r) \<Rightarrow> (None, r)
      | (Some (val, violation), r) \<Rightarrow> if violation then (None, r) else (Some (ucast val), r))"

definition read_separator :: "bitreader \<Rightarrow> bool \<times> bitreader" where
  "read_separator r =
     (case read_oob r of
        (None, r) \<Rightarrow> (False, r)
      | (Some symbol, r) \<Rightarrow> (symbol = OOB_SEPARATOR, r))"

text \<open>The loop that takes the bytes of a variable-length sequence until a control character
  stands next: \<open>Inl\<close> is the status the parse fails with, \<open>Inr\<close> the number of bytes taken.
  \<open>too_long\<close> is the status for a sequence longer than the buffer.\<close>

function read_sequence ::
  "frame_status \<Rightarrow> nat \<Rightarrow> bitreader \<Rightarrow> u8 list \<Rightarrow> nat \<Rightarrow> (frame_status + nat) \<times> bitreader \<times> u8 list" where
  "read_sequence too_long capacity r buf n =
     (case peek_oob r of
        Some _ \<Rightarrow> (Inr n, r, buf)
      | None \<Rightarrow>
          if n \<ge> capacity then (Inl too_long, r, buf)
          else
            (case read_byte r of
               (None, r) \<Rightarrow> (Inl FRAME_TRUNCATED, r, buf)
             | (Some b, r) \<Rightarrow> read_sequence too_long capacity r (buf[n := b]) (n + 1)))"
  by pat_completeness auto
termination
  by (relation "measure (\<lambda>(_, capacity, _, _, n). capacity - n)") auto

declare read_sequence.simps [simp del]

definition parse_frame_start :: "bitreader \<Rightarrow> frame_status option \<times> bitreader" where
  "parse_frame_start r =
     (case read_oob r of
        (None, r) \<Rightarrow> (Some FRAME_TRUNCATED, r)
      | (Some symbol, r) \<Rightarrow>
          if symbol \<noteq> OOB_FRAME_START then (Some FRAME_NO_FRAME_START, r)
          else
            (case read_byte r of
               (None, r) \<Rightarrow> (Some FRAME_TRUNCATED, r)
             | (Some null_separator, r) \<Rightarrow>
                 if null_separator \<noteq> 0 then (Some FRAME_BAD_NULL, r)
                 else
                   (case read_separator r of
                      (ok, r) \<Rightarrow> (if ok then None else Some FRAME_BAD_SEPARATOR, r))))"

definition parse_sequence ::
  "frame_status \<Rightarrow> (nat \<Rightarrow> bool) \<Rightarrow> nat \<Rightarrow> bitreader \<Rightarrow> u8 list \<Rightarrow> (frame_status + nat) \<times> bitreader \<times> u8 list" where
  "parse_sequence bad_length length_valid capacity r buf =
     (case read_sequence bad_length capacity r buf 0 of
        (Inl status, r, buf) \<Rightarrow> (Inl status, r, buf)
      | (Inr n, r, buf) \<Rightarrow>
          if \<not> length_valid n then (Inl bad_length, r, buf)
          else
            (case read_separator r of
               (ok, r) \<Rightarrow> (if ok then Inr n else Inl FRAME_BAD_SEPARATOR, r, buf)))"

text \<open>The frame check and end-of-frame sequences: the check received and the late
  acknowledge byte.\<close>

definition parse_trailer :: "bitreader \<Rightarrow> (frame_status + u32 \<times> u8) \<times> bitreader" where
  "parse_trailer r =
     (case read_data_bits 32 r of
        (None, r) \<Rightarrow> (Inl FRAME_TRUNCATED, r)
      | (Some (check, violation), r) \<Rightarrow>
          if violation then (Inl FRAME_TRUNCATED, r)
          else
            (case read_byte r of
               (None, r) \<Rightarrow> (Inl FRAME_TRUNCATED, r)
             | (Some null_separator, r) \<Rightarrow>
                 if null_separator \<noteq> 0 then (Inl FRAME_BAD_NULL, r)
                 else
                   (case read_byte r of
                      (None, r) \<Rightarrow> (Inl FRAME_TRUNCATED, r)
                    | (Some late, r) \<Rightarrow> (Inr (check, late), r))))"

definition frame_parse ::
  "bitreader \<Rightarrow> u8 list \<Rightarrow> nat \<Rightarrow> u8 list \<Rightarrow> nat \<Rightarrow> frame_parse_result \<times> bitreader \<times> u8 list \<times> u8 list" where
  "frame_parse r header header_capacity data data_capacity =
     (case parse_frame_start r of
        (Some status, r) \<Rightarrow> (failed status, r, header, data)
      | (None, r) \<Rightarrow>
     (case parse_sequence FRAME_HEADER_LENGTH header_length_valid header_capacity r header of
        (Inl status, r, header) \<Rightarrow> (failed status, r, header, data)
      | (Inr header_bytes, r, header) \<Rightarrow>
     (case parse_sequence FRAME_DATA_LENGTH data_length_valid data_capacity r data of
        (Inl status, r, data) \<Rightarrow> (failed status, r, header, data)
      | (Inr data_bytes, r, data) \<Rightarrow>
     (case parse_trailer r of
        (Inl status, r) \<Rightarrow> (failed status, r, header, data)
      | (Inr (check, late), r) \<Rightarrow>
          let computed = frame_crc (take header_bytes header) (take data_bytes data)
          in (\<lparr>fp_status = (if computed = check then FRAME_OK else FRAME_CHECK_FAILED),
               fp_header_bytes = header_bytes, fp_data_bytes = data_bytes,
               fp_late_acknowledge = late, fp_check_received = check,
               fp_check_computed = computed\<rparr>, r, header, data)))))"

section \<open>A frame on the wire\<close>

text \<open>The bit string of a whole frame: control characters raw, everything else stuffed, the
  run of Ones starting afresh after each control character.\<close>

definition trailer_bits :: "u32 \<Rightarrow> u8 \<Rightarrow> bool list" where
  "trailer_bits crc late = bits_msb 32 crc @ bits_msb 8 (0::u8) @ bits_msb 8 late"

definition frame_wire :: "u8 list \<Rightarrow> u8 list \<Rightarrow> u8 \<Rightarrow> bool list" where
  "frame_wire header data late =
     bits_msb 9 OOB_FRAME_START @ stuff 0 (bits_msb 8 (0::u8)) @ bits_msb 9 OOB_SEPARATOR @
     stuff 0 (bytes_bits header) @ bits_msb 9 OOB_SEPARATOR @
     stuff 0 (bytes_bits data) @ bits_msb 9 OOB_SEPARATOR @
     stuff 0 (trailer_bits (frame_crc header data) late)"

lemma sends_bytes:
  assumes "wf_writer w" and "\<not> w_overflow w \<Longrightarrow> w_ones_run w = r"
  shows "n \<le> length bytes \<Longrightarrow>
    sends w (stuff r (bytes_bits (take n bytes))) (stuff_run r (bytes_bits (take n bytes)))
      (fold (\<lambda>i. write_data_bits (ucast (bytes ! i)) 8) [0..<n] w)"
proof (induction n)
  case 0
  from assms show ?case by (simp add: sends_Nil)
next
  case (Suc n)
  let ?w = "fold (\<lambda>i. write_data_bits (ucast (bytes ! i)) 8) [0..<n] w"
  let ?bs = "bytes_bits (take n bytes)" and ?b = "bits_msb 8 (bytes ! n)"
  have IH: "sends w (stuff r ?bs) (stuff_run r ?bs) ?w" using Suc by simp
  have "sends ?w (stuff (stuff_run r ?bs) ?b) (stuff_run (stuff_run r ?bs) ?b)
      (write_data_bits (ucast (bytes ! n)) 8 ?w)"
    using sends_data_bits [OF sends_wf [OF IH] sends_run [OF IH], of 8 "ucast (bytes ! n)"]
    by (simp add: bits_msb_ucast)
  from sends_trans [OF IH this] Suc.prems show ?case
    by (simp add: take_Suc_conv_app_nth stuff_append stuff_run_append)
qed

text \<open>The buffers of a request hold at least as many bytes as its lengths say; its wire image.\<close>

definition fields_ok :: "frame_fields \<Rightarrow> bool" where
  "fields_ok fs \<longleftrightarrow> ff_header_bytes fs \<le> length (ff_header fs) \<and> ff_data_bytes fs \<le> length (ff_data fs)"

definition fields_wire :: "frame_fields \<Rightarrow> bool list" where
  "fields_wire fs = frame_wire (take (ff_header_bytes fs) (ff_header fs))
     (take (ff_data_bytes fs) (ff_data fs)) (ff_late_acknowledge fs)"

lemma sends_frame:
  assumes "wf_writer w" and "fields_ok fs"
    and "header_length_valid (ff_header_bytes fs)" and "data_length_valid (ff_data_bytes fs)"
  shows "\<exists>run. sends w (fields_wire fs) run (snd (frame_emit w fs))"
proof -
  let ?hn = "ff_header_bytes fs" and ?dn = "ff_data_bytes fs" and ?late = "ff_late_acknowledge fs"
  let ?header = "take ?hn (ff_header fs)" and ?data = "take ?dn (ff_data fs)"
  let ?crc = "frame_crc ?header ?data"
  let ?z = "bits_msb 8 (0::u8)"
  define w1 where "w1 = write_oob OOB_FRAME_START w"
  define w2 where "w2 = write_data_bits 0 8 w1"
  define w3 where "w3 = write_oob OOB_SEPARATOR w2"
  define w4 where "w4 = fold (\<lambda>i. write_data_bits (ucast (ff_header fs ! i)) 8) [0..<?hn] w3"
  define w5 where "w5 = write_oob OOB_SEPARATOR w4"
  define w6 where "w6 = fold (\<lambda>i. write_data_bits (ucast (ff_data fs ! i)) 8) [0..<?dn] w5"
  define w7 where "w7 = write_oob OOB_SEPARATOR w6"
  define w8 where "w8 = write_data_bits ?crc 32 w7"
  define w9 where "w9 = write_data_bits 0 8 w8"
  define w10 where "w10 = write_data_bits (ucast ?late) 8 w9"
  have z: "bits_msb 8 (0::u32) = ?z" by (rule bits_msb_cong) simp
  have s1: "sends w (bits_msb 9 OOB_FRAME_START) 0 w1"
    unfolding w1_def by (rule sends_oob [OF assms(1)])
  have s2: "sends w1 (stuff 0 ?z) (stuff_run 0 ?z) w2"
    using sends_data_bits [OF sends_wf [OF s1] sends_run [OF s1], of 8 0] by (simp add: w2_def z)
  have s3: "sends w2 (bits_msb 9 OOB_SEPARATOR) 0 w3"
    unfolding w3_def by (rule sends_oob [OF sends_wf [OF s2]])
  have s4: "sends w3 (stuff 0 (bytes_bits ?header)) (stuff_run 0 (bytes_bits ?header)) w4"
    using sends_bytes [OF sends_wf [OF s3] sends_run [OF s3], of ?hn "ff_header fs"] assms(2)
    by (simp add: w4_def fields_ok_def)
  have s5: "sends w4 (bits_msb 9 OOB_SEPARATOR) 0 w5"
    unfolding w5_def by (rule sends_oob [OF sends_wf [OF s4]])
  have s6: "sends w5 (stuff 0 (bytes_bits ?data)) (stuff_run 0 (bytes_bits ?data)) w6"
    using sends_bytes [OF sends_wf [OF s5] sends_run [OF s5], of ?dn "ff_data fs"] assms(2)
    by (simp add: w6_def fields_ok_def)
  have s7: "sends w6 (bits_msb 9 OOB_SEPARATOR) 0 w7"
    unfolding w7_def by (rule sends_oob [OF sends_wf [OF s6]])
  have s8: "sends w7 (stuff 0 (bits_msb 32 ?crc)) (stuff_run 0 (bits_msb 32 ?crc)) w8"
    unfolding w8_def by (rule sends_data_bits [OF sends_wf [OF s7] sends_run [OF s7]])
  have s9: "sends w7 (stuff 0 (bits_msb 32 ?crc @ ?z)) (stuff_run 0 (bits_msb 32 ?crc @ ?z)) w9"
    using sends_trans [OF s8 sends_data_bits [OF sends_wf [OF s8] sends_run [OF s8], of 8 0]]
    by (simp add: w9_def z stuff_append stuff_run_append)
  have s10: "sends w7 (stuff 0 (trailer_bits ?crc ?late)) (stuff_run 0 (trailer_bits ?crc ?late)) w10"
    using sends_trans [OF s9 sends_data_bits [OF sends_wf [OF s9] sends_run [OF s9], of 8 "ucast ?late"]]
    by (simp add: w10_def trailer_bits_def bits_msb_ucast flip: append_assoc)
      (simp add: stuff_append stuff_run_append)
  have "snd (frame_emit w fs) = w10"
    using assms(3,4)
    by (simp add: frame_emit_def Let_def NULL_SEPARATOR_BITS_def w1_def w2_def w3_def w4_def w5_def
        w6_def w7_def w8_def w9_def w10_def)
  moreover have "sends w (fields_wire fs) (stuff_run 0 (trailer_bits ?crc ?late)) w10"
    using sends_trans [OF s1 sends_trans [OF s2 sends_trans [OF s3 sends_trans [OF s4
      sends_trans [OF s5 sends_trans [OF s6 sends_trans [OF s7 s10]]]]]]]
    by (simp add: fields_wire_def frame_wire_def)
  ultimately show ?thesis by metis
qed

section \<open>Reading a frame back\<close>

lemma symbol_wf [simp]:
  "oob_well_formed OOB_SEPARATOR" "oob_well_formed OOB_FRAME_START"
  "oob_well_formed OOB_FREE_TOKEN" "oob_well_formed OOB_CLAIMED_TOKEN"
  by (simp_all add: oob_well_formed_def)

lemma take_bit_8_byte: "take_bit 8 (v :: u8) = v"
  by (rule bit_word_eqI) (simp add: bit_take_bit_iff)

lemma read_byte_stuffed:
  assumes "rbits r = stuff run (bits_msb 8 b) @ rest" and "r_ones_run r = run" and "run < 5"
  shows "read_byte r = (Some b, r_adv (length (stuff run (bits_msb 8 b))) (stuff_run run (bits_msb 8 b)) r)"
proof -
  have "bits_msb 8 b = bits_msb 8 (ucast b :: u32)" by (simp add: bits_msb_ucast)
  moreover have "ucast (take_bit 8 (ucast b :: u32)) = b"
    by (rule bit_word_eqI) (simp add: bit_take_bit_iff bit_ucast_iff)
  ultimately show ?thesis
    using read_data_bits_stuffed [of r run 8 "ucast b" rest] assms by (simp add: read_byte_def)
qed

lemma read_separator_bits:
  assumes "rbits r = bits_msb 9 OOB_SEPARATOR @ rest"
  shows "read_separator r = (True, r_adv 9 0 r)"
  using read_oob_bits [OF assms] by (simp add: read_separator_def)

text \<open>The byte loop takes a stuffed sequence up to its separator and stores it in order.\<close>

lemma read_sequence_stuffed:
  "rbits r = stuff run (bytes_bits bs) @ bits_msb 9 OOB_SEPARATOR @ rest \<Longrightarrow>
   r_ones_run r = run \<Longrightarrow> run < 5 \<Longrightarrow> n + length bs \<le> capacity \<Longrightarrow> capacity \<le> length buf \<Longrightarrow>
   read_sequence too_long capacity r buf n =
     (Inr (n + length bs),
      r_adv (length (stuff run (bytes_bits bs))) (stuff_run run (bytes_bits bs)) r,
      take n buf @ bs @ drop (n + length bs) buf)"
proof (induction bs arbitrary: r run n buf)
  case Nil
  then have "peek_oob r = Some OOB_SEPARATOR" by (intro peek_oob_symbol) simp_all
  with Nil show ?case by (simp add: read_sequence.simps r_adv_def)
next
  case (Cons b bs)
  let ?r = "r_adv (length (stuff run (bits_msb 8 b))) (stuff_run run (bits_msb 8 b)) r"
  have bits: "rbits r = stuff run (bits_msb 8 b) @
      stuff (stuff_run run (bits_msb 8 b)) (bytes_bits bs) @ bits_msb 9 OOB_SEPARATOR @ rest"
    using Cons.prems(1) by (simp add: stuff_append)
  have peek: "peek_oob r = None"
    by (rule peek_oob_data [OF Cons.prems(1,3)]) simp
  note byte = read_byte_stuffed [OF bits Cons.prems(2,3)]
  have "rbits ?r = stuff (stuff_run run (bits_msb 8 b)) (bytes_bits bs) @ bits_msb 9 OOB_SEPARATOR @ rest"
    by (simp add: bits)
  from Cons.IH [OF this run_adv stuff_run_less [OF Cons.prems(3)], of "n + 1" "buf[n := b]"]
  show ?case
    using Cons.prems(4,5)
    by (subst read_sequence.simps)
      (simp add: peek byte stuff_append stuff_run_append take_Suc_conv_app_nth)
qed

lemma parse_sequence_stuffed:
  assumes "rbits r = stuff 0 (bytes_bits bs) @ bits_msb 9 OOB_SEPARATOR @ rest" and "r_ones_run r = 0"
    and "length bs \<le> capacity" and "capacity \<le> length buf" and "valid (length bs)"
  shows "parse_sequence bad valid capacity r buf =
    (Inr (length bs), r_adv (length (stuff 0 (bytes_bits bs)) + 9) 0 r, bs @ drop (length bs) buf)"
proof -
  note seq = read_sequence_stuffed [OF assms(1,2) _ _ assms(4), of 0 bad]
  have "rbits (r_adv (length (stuff 0 (bytes_bits bs))) (stuff_run 0 (bytes_bits bs)) r) =
      bits_msb 9 OOB_SEPARATOR @ rest"
    by (simp add: assms(1))
  from read_separator_bits [OF this] seq assms(3,5) show ?thesis
    by (simp add: parse_sequence_def)
qed

lemma parse_frame_start_stuffed:
  assumes "rbits r = bits_msb 9 OOB_FRAME_START @ stuff 0 (bits_msb 8 (0::u8)) @
      bits_msb 9 OOB_SEPARATOR @ rest"
  shows "\<exists>n. parse_frame_start r = (None, r_adv n 0 r) \<and> drop n (rbits r) = rest"
proof -
  let ?z = "stuff 0 (bits_msb 8 (0::u8))"
  note start = read_oob_bits [OF assms]
  have "rbits (r_adv 9 0 r) = ?z @ bits_msb 9 OOB_SEPARATOR @ rest" by (simp add: assms)
  note zero = read_byte_stuffed [OF this run_adv]
  have "rbits (r_adv (9 + length ?z) (stuff_run 0 (bits_msb 8 (0::u8))) r) =
      bits_msb 9 OOB_SEPARATOR @ rest"
    by (simp add: assms)
  note sep = read_separator_bits [OF this]
  have "parse_frame_start r = (None, r_adv (9 + length ?z + 9) 0 r)"
    using start zero sep by (simp add: parse_frame_start_def)
  moreover have "drop (9 + length ?z + 9) (rbits r) = rest" by (simp add: assms)
  ultimately show ?thesis by blast
qed

lemma parse_trailer_stuffed:
  assumes "rbits r = stuff 0 (trailer_bits crc late) @ rest" and "r_ones_run r = 0"
  shows "parse_trailer r = (Inr (crc, late),
    r_adv (length (stuff 0 (trailer_bits crc late))) (stuff_run 0 (trailer_bits crc late)) r)"
proof -
  let ?c = "bits_msb 32 crc" and ?z = "bits_msb 8 (0::u8)" and ?l = "bits_msb 8 late"
  let ?r1 = "stuff_run 0 ?c"
  let ?r2 = "stuff_run ?r1 ?z"
  have b0: "rbits r = stuff 0 ?c @ stuff ?r1 ?z @ stuff ?r2 ?l @ rest"
    using assms(1) by (simp add: trailer_bits_def stuff_append)
  have lt: "?r1 < 5" "?r2 < 5" by (simp_all add: stuff_run_less)
  have "take_bit 32 crc = crc" by (rule bit_word_eqI) (simp add: bit_take_bit_iff)
  with read_data_bits_stuffed [OF b0 assms(2)]
  have c: "read_data_bits 32 r = (Some (crc, False), r_adv (length (stuff 0 ?c)) ?r1 r)" by simp
  have "rbits (r_adv (length (stuff 0 ?c)) ?r1 r) = stuff ?r1 ?z @ stuff ?r2 ?l @ rest" by (simp add: b0)
  note z = read_byte_stuffed [OF this run_adv lt(1)]
  have "rbits (r_adv (length (stuff 0 ?c) + length (stuff ?r1 ?z)) ?r2 r) = stuff ?r2 ?l @ rest"
    by (simp add: b0)
  note l = read_byte_stuffed [OF this run_adv lt(2)]
  show ?thesis
    using c z l by (simp add: parse_trailer_def trailer_bits_def stuff_append stuff_run_append add.assoc)
qed

lemma drop_plus: "drop (n + m) xs = drop m (drop n xs)"
  by (simp add: add.commute)

lemma parse_frame_wire:
  assumes "rbits r = frame_wire header data late @ rest"
    and "header_length_valid (length header)" and "data_length_valid (length data)"
    and "length header \<le> hcap" and "hcap \<le> length hbuf" and "length data \<le> dcap" and "dcap \<le> length dbuf"
  shows "\<exists>r'. rbits r' = rest \<and> frame_parse r hbuf hcap dbuf dcap =
    (\<lparr>fp_status = FRAME_OK, fp_header_bytes = length header, fp_data_bytes = length data,
      fp_late_acknowledge = late, fp_check_received = frame_crc header data,
      fp_check_computed = frame_crc header data\<rparr>,
     r', header @ drop (length header) hbuf, data @ drop (length data) dbuf)"
proof -
  let ?crc = "frame_crc header data"
  let ?tail = "stuff 0 (trailer_bits ?crc late) @ rest"
  let ?dpart = "stuff 0 (bytes_bits data) @ bits_msb 9 OOB_SEPARATOR @ ?tail"
  let ?hpart = "stuff 0 (bytes_bits header) @ bits_msb 9 OOB_SEPARATOR @ ?dpart"
  have "rbits r = bits_msb 9 OOB_FRAME_START @ stuff 0 (bits_msb 8 (0::u8)) @ bits_msb 9 OOB_SEPARATOR @ ?hpart"
    using assms(1) by (simp add: frame_wire_def)
  from parse_frame_start_stuffed [OF this] obtain n1 where
    start: "parse_frame_start r = (None, r_adv n1 0 r)" and r1: "rbits (r_adv n1 0 r) = ?hpart"
    by auto
  note head = parse_sequence_stuffed [where valid = header_length_valid and bad = FRAME_HEADER_LENGTH,
      OF r1 run_adv assms(4,5,2)]
  let ?n2 = "n1 + (length (stuff 0 (bytes_bits header)) + 9)"
  have r2: "rbits (r_adv ?n2 0 r) = ?dpart"
    using r1 unfolding rbits_adv drop_plus [of n1] by (simp add: drop_plus [where m = 9])
  note dat = parse_sequence_stuffed [where valid = data_length_valid and bad = FRAME_DATA_LENGTH,
      OF r2 run_adv assms(6,7,3)]
  let ?n3 = "?n2 + (length (stuff 0 (bytes_bits data)) + 9)"
  have r3: "rbits (r_adv ?n3 0 r) = ?tail"
    using r2 unfolding rbits_adv drop_plus [of ?n2] by (simp add: drop_plus [where m = 9])
  let ?run = "stuff_run 0 (trailer_bits ?crc late)"
  have trail: "parse_trailer (r_adv ?n3 0 r) =
      (Inr (?crc, late), r_adv (?n3 + length (stuff 0 (trailer_bits ?crc late))) ?run r)"
    using parse_trailer_stuffed [OF r3 run_adv] by simp
  have "rbits (r_adv (?n3 + length (stuff 0 (trailer_bits ?crc late))) ?run r) = rest"
    using r3 unfolding rbits_adv drop_plus [of ?n3] by simp
  moreover have "frame_parse r hbuf hcap dbuf dcap =
    (\<lparr>fp_status = FRAME_OK, fp_header_bytes = length header, fp_data_bytes = length data,
      fp_late_acknowledge = late, fp_check_received = ?crc, fp_check_computed = ?crc\<rparr>,
     r_adv (?n3 + length (stuff 0 (trailer_bits ?crc late))) ?run r,
     header @ drop (length header) hbuf, data @ drop (length data) dbuf)"
    using start head dat trail by (simp add: frame_parse_def Let_def add.assoc)
  ultimately show ?thesis by blast
qed

section \<open>Properties of the framer\<close>

lemma length_frame_wire:
  "5 * length (frame_wire header data late) \<le> 516 + 48 * (length header + length data)"
proof -
  have "5 * length (stuff 0 (bits_msb 8 (0::u8))) \<le> 48"
    and "5 * length (stuff 0 (bytes_bits header)) \<le> 48 * length header"
    and "5 * length (stuff 0 (bytes_bits data)) \<le> 48 * length data"
    and "5 * length (stuff 0 (trailer_bits (frame_crc header data) late)) \<le> 288"
    using length_stuff_le [of 0 "bits_msb 8 (0::u8)"] length_stuff_le [of 0 "bytes_bits header"]
      length_stuff_le [of 0 "bytes_bits data"]
      length_stuff_le [of 0 "trailer_bits (frame_crc header data) late"]
    by (simp_all add: trailer_bits_def)
  then show ?thesis by (simp add: frame_wire_def)
qed

lemma frame_emit_accepts:
  assumes "wf_writer w" and "\<not> w_overflow w" and "fields_ok fs"
  shows "fst (frame_emit w fs) \<longleftrightarrow>
      header_length_valid (ff_header_bytes fs) \<and> data_length_valid (ff_data_bytes fs) \<and>
      w_bit_count w + length (fields_wire fs) \<le> 8 * w_capacity w"
proof (cases "header_length_valid (ff_header_bytes fs) \<and> data_length_valid (ff_data_bytes fs)")
  case True
  then obtain run where "sends w (fields_wire fs) run (snd (frame_emit w fs))"
    using sends_frame [OF assms(1,3)] by blast
  moreover have "fst (frame_emit w fs) \<longleftrightarrow> \<not> w_overflow (snd (frame_emit w fs))"
    using True by (simp add: frame_emit_def Let_def)
  ultimately show ?thesis
    using True assms(2) by (auto simp: sends_def split: if_splits)
next
  case False
  then show ?thesis by (auto simp: frame_emit_def)
qed

text \<open>A request is accepted exactly when its lengths are legal and the whole frame fits in
  what is left of the buffer; the frame is then on the wire behind what was there before.\<close>

theorem frame_emit_accepts_iff:
  assumes "wf_writer w" and "\<not> w_overflow w" and "fields_ok fs"
  shows "fst (frame_emit w fs) \<longleftrightarrow>
      header_length_valid (ff_header_bytes fs) \<and> data_length_valid (ff_data_bytes fs) \<and>
      w_bit_count w + length (fields_wire fs) \<le> 8 * w_capacity w"
  by (rule frame_emit_accepts [OF assms])

lemma wf_fresh_witness: "wf_writer (bitwriter_init (replicate 4 0) 4)"
  by (rule wf_bitwriter_init) simp

lemma frame_emit_accepts_iff_witness:
  "\<not> fst (frame_emit (bitwriter_init (replicate 4 0) 4)
     \<lparr>ff_header = replicate 12 0, ff_header_bytes = 11, ff_data = [], ff_data_bytes = 0,
      ff_late_acknowledge = 0\<rparr>)"
  using frame_emit_accepts_iff [OF wf_fresh_witness, of "\<lparr>ff_header = replicate 12 0,
      ff_header_bytes = 11, ff_data = [], ff_data_bytes = 0, ff_late_acknowledge = 0\<rparr>"]
  by (simp add: fields_ok_def bitwriter_init_def header_length_valid_def HDR_FIXED_BYTES_def)

lemma emit_parse_ok:
  assumes "header_length_valid (length header)" and "data_length_valid (length data)"
    and "516 + 48 * (length header + length data) \<le> 40 * cap" and "cap \<le> length buf"
    and "length header \<le> hcap" and "hcap \<le> length hbuf"
    and "length data \<le> dcap" and "dcap \<le> length dbuf"
  shows "\<exists>w r'. frame_emit (bitwriter_init buf cap) \<lparr>ff_header = header,
        ff_header_bytes = length header, ff_data = data, ff_data_bytes = length data,
        ff_late_acknowledge = late\<rparr> = (True, w) \<and>
      frame_parse (bitreader_init (w_bytes w) (w_bit_count w)) hbuf hcap dbuf dcap =
        (\<lparr>fp_status = FRAME_OK, fp_header_bytes = length header, fp_data_bytes = length data,
          fp_late_acknowledge = late, fp_check_received = frame_crc header data,
          fp_check_computed = frame_crc header data\<rparr>,
         r', header @ drop (length header) hbuf, data @ drop (length data) dbuf)"
proof -
  let ?fs = "\<lparr>ff_header = header, ff_header_bytes = length header, ff_data = data,
      ff_data_bytes = length data, ff_late_acknowledge = late\<rparr>"
  let ?w0 = "bitwriter_init buf cap"
  have wf: "wf_writer ?w0" and empty: "wbits ?w0 = []"
    using wf_bitwriter_init [OF assms(4)] by simp_all
  have ok: "fields_ok ?fs" and wire: "fields_wire ?fs = frame_wire header data late"
    by (simp_all add: fields_ok_def fields_wire_def)
  have fits: "length (frame_wire header data late) \<le> 8 * cap"
    using length_frame_wire [of header data late] assms(3) by linarith
  obtain w where w: "frame_emit ?w0 ?fs = (True, w)"
    using frame_emit_accepts [OF wf _ ok] assms(1,2) fits
    by (cases "frame_emit ?w0 ?fs") (simp add: wire, simp add: bitwriter_init_def)
  obtain run where "sends ?w0 (fields_wire ?fs) run w"
    using sends_frame [OF wf ok] assms(1,2) w by auto
  then have bits: "wbits w = frame_wire header data late"
    using fits empty by (auto simp: sends_def wire bitwriter_init_def split: if_splits)
  have "rbits (bitreader_init (w_bytes w) (w_bit_count w)) = frame_wire header data late @ []"
    using bits by (simp add: rbits_def wbits_def bitreader_init_def)
  from parse_frame_wire [OF this assms(1,2,5,6,7,8)] w show ?thesis by blast
qed

text \<open>C16: every frame a transmitter emits into a fresh buffer is parsed by a receiver with
  status OK, its own header, data and late acknowledge, and equal checks.\<close>

theorem emit_parse_roundtrip:
  assumes "header_length_valid (length header)" and "data_length_valid (length data)"
    and "516 + 48 * (length header + length data) \<le> 40 * cap" and "cap \<le> length buf"
    and "length header \<le> hcap" and "hcap \<le> length hbuf"
    and "length data \<le> dcap" and "dcap \<le> length dbuf"
  shows "\<exists>w r'. frame_emit (bitwriter_init buf cap) \<lparr>ff_header = header,
        ff_header_bytes = length header, ff_data = data, ff_data_bytes = length data,
        ff_late_acknowledge = late\<rparr> = (True, w) \<and>
      frame_parse (bitreader_init (w_bytes w) (w_bit_count w)) hbuf hcap dbuf dcap =
        (\<lparr>fp_status = FRAME_OK, fp_header_bytes = length header, fp_data_bytes = length data,
          fp_late_acknowledge = late, fp_check_received = frame_crc header data,
          fp_check_computed = frame_crc header data\<rparr>,
         r', header @ drop (length header) hbuf, data @ drop (length data) dbuf)"
  by (rule emit_parse_ok [OF assms])

lemma emit_parse_roundtrip_witness:
  "\<exists>w r'. frame_emit (bitwriter_init (replicate 64 0) 64) \<lparr>ff_header = replicate 12 7,
        ff_header_bytes = length (replicate 12 (7::u8)), ff_data = [1, 2],
        ff_data_bytes = length [1::u8, 2], ff_late_acknowledge = 2\<rparr> = (True, w) \<and>
      frame_parse (bitreader_init (w_bytes w) (w_bit_count w)) (replicate 16 0) 16 (replicate 4 9) 4 =
        (\<lparr>fp_status = FRAME_OK, fp_header_bytes = length (replicate 12 (7::u8)),
          fp_data_bytes = length [1::u8, 2], fp_late_acknowledge = 2,
          fp_check_received = frame_crc (replicate 12 7) [1, 2],
          fp_check_computed = frame_crc (replicate 12 7) [1, 2]\<rparr>,
         r', replicate 12 7 @ drop (length (replicate 12 (7::u8))) (replicate 16 0),
         [1, 2] @ drop (length [1::u8, 2]) (replicate 4 9))"
  by (rule emit_parse_roundtrip)
    (simp_all add: header_length_valid_def data_length_valid_def ring_layout)

lemma read_sequence_bounds:
  "read_sequence bad cap r buf n = (res, r', buf') \<Longrightarrow>
     length buf' = length buf \<and> drop cap buf' = drop cap buf \<and>
     (\<forall>m. res = Inr m \<longrightarrow> n \<le> m \<and> m \<le> max n cap)"
proof (induction bad cap r buf n rule: read_sequence.induct)
  case (1 bad cap r buf n)
  show ?case
  proof (cases "peek_oob r = None \<and> n < cap \<and> fst (read_byte r) \<noteq> None")
    case False
    then show ?thesis
      using 1(2) by (subst (asm) read_sequence.simps) (auto split: option.splits prod.splits if_splits)
  next
    case True
    then obtain b r1 where rb: "read_byte r = (Some b, r1)" by (cases "read_byte r") auto
    with True 1(2) have "read_sequence bad cap r1 (buf[n := b]) (n + 1) = (res, r', buf')"
      by (subst (asm) read_sequence.simps) simp
    with 1(1) [OF _ _ rb [symmetric] refl] True show ?thesis
      by (auto simp: not_le)
  qed
qed

lemma parse_sequence_bounds:
  assumes "parse_sequence bad valid cap r buf = (res, r', buf')"
  shows "length buf' = length buf" and "drop cap buf' = drop cap buf"
    and "res = Inr m \<Longrightarrow> m \<le> cap \<and> valid m"
  using assms read_sequence_bounds [of bad cap r buf 0]
  by (auto simp: parse_sequence_def split: prod.splits sum.splits if_splits; metis)+

lemma failed_not_ok: "st \<noteq> FRAME_OK \<Longrightarrow> fp_status (failed st) \<noteq> FRAME_OK"
  by (simp add: failed_def)

lemma parse_status_not_ok:
  "parse_frame_start r = (Some st, r') \<Longrightarrow> st \<noteq> FRAME_OK"
  "parse_trailer r = (Inl st, r') \<Longrightarrow> st \<noteq> FRAME_OK"
  by (auto simp: parse_frame_start_def parse_trailer_def split: option.splits prod.splits if_splits)

lemma read_sequence_not_ok:
  "read_sequence bad cap r buf n = (Inl st, r', buf') \<Longrightarrow> bad \<noteq> FRAME_OK \<Longrightarrow> st \<noteq> FRAME_OK"
proof (induction bad cap r buf n rule: read_sequence.induct)
  case (1 bad cap r buf n)
  from 1(2) show ?case
    by (subst (asm) read_sequence.simps)
      (auto split: option.splits prod.splits if_splits dest: 1(1) [OF _ _ sym] simp: 1(3))
qed

lemma parse_sequence_not_ok:
  "parse_sequence bad valid cap r buf = (Inl st, r', buf') \<Longrightarrow> bad \<noteq> FRAME_OK \<Longrightarrow> st \<noteq> FRAME_OK"
  by (auto simp: parse_sequence_def split: prod.splits sum.splits if_splits dest: read_sequence_not_ok)

text \<open>C24: whatever arrives, the parser writes below the capacities it was given and nowhere
  else, and it says OK only for legal lengths within those capacities and a check that
  matches the bytes it stored.\<close>

theorem frame_parse_safe:
  assumes "frame_parse r hbuf hcap dbuf dcap = (res, r', h, d)"
  shows "length h = length hbuf \<and> drop hcap h = drop hcap hbuf \<and>
    length d = length dbuf \<and> drop dcap d = drop dcap dbuf \<and>
    (fp_status res = FRAME_OK \<longrightarrow>
       header_length_valid (fp_header_bytes res) \<and> fp_header_bytes res \<le> hcap \<and>
       data_length_valid (fp_data_bytes res) \<and> fp_data_bytes res \<le> dcap \<and>
       fp_check_received res = frame_crc (take (fp_header_bytes res) h) (take (fp_data_bytes res) d))"
proof -
  obtain o1 r1 where p1: "parse_frame_start r = (o1, r1)" by fastforce
  obtain o2 r2 h2 where p2: "parse_sequence FRAME_HEADER_LENGTH header_length_valid hcap r1 hbuf = (o2, r2, h2)"
    by (metis prod_cases3)
  obtain o3 r3 d3 where p3: "parse_sequence FRAME_DATA_LENGTH data_length_valid dcap r2 dbuf = (o3, r3, d3)"
    by (metis prod_cases3)
  obtain o4 r4 where p4: "parse_trailer r3 = (o4, r4)" by fastforce
  note facts = parse_sequence_bounds [OF p2] parse_sequence_bounds [OF p3]
  show ?thesis
    using assms p1 p2 p3 p4 facts
    by (auto simp: frame_parse_def Let_def failed_not_ok split: option.splits sum.splits prod.splits if_splits
        dest: parse_status_not_ok parse_sequence_not_ok)
qed

lemma frame_parse_safe_witness:
  "\<exists>(w::bitwriter) res r' h d. frame_parse (bitreader_init (w_bytes w) (w_bit_count w)) (replicate 16 0) 16
      (replicate 4 9) 4 = (res, r', h, d) \<and> fp_status res = FRAME_OK \<and>
    drop 16 h = [] \<and> fp_check_received res = frame_crc (take (fp_header_bytes res) h) (take (fp_data_bytes res) d)"
proof -
  have "\<exists>w r'. frame_emit (bitwriter_init (replicate 64 0) 64) \<lparr>ff_header = replicate 12 7,
        ff_header_bytes = length (replicate 12 (7::u8)), ff_data = [1, 2],
        ff_data_bytes = length [1::u8, 2], ff_late_acknowledge = 2\<rparr> = (True, w) \<and>
      frame_parse (bitreader_init (w_bytes w) (w_bit_count w)) (replicate 16 0) 16 (replicate 4 9) 4 =
        (\<lparr>fp_status = FRAME_OK, fp_header_bytes = length (replicate 12 (7::u8)),
          fp_data_bytes = length [1::u8, 2], fp_late_acknowledge = 2,
          fp_check_received = frame_crc (replicate 12 7) [1, 2],
          fp_check_computed = frame_crc (replicate 12 7) [1, 2]\<rparr>,
         r', replicate 12 7 @ drop (length (replicate 12 (7::u8))) (replicate 16 0),
         [1, 2] @ drop (length [1::u8, 2]) (replicate 4 9))"
    by (rule emit_parse_ok) (simp_all add: header_length_valid_def data_length_valid_def ring_layout)
  then obtain w :: bitwriter and r' where p: "frame_parse (bitreader_init (w_bytes w) (w_bit_count w)) (replicate 16 0) 16
      (replicate 4 9) 4 = (\<lparr>fp_status = FRAME_OK, fp_header_bytes = length (replicate 12 (7::u8)),
          fp_data_bytes = length [1::u8, 2], fp_late_acknowledge = 2,
          fp_check_received = frame_crc (replicate 12 7) [1, 2],
          fp_check_computed = frame_crc (replicate 12 7) [1, 2]\<rparr>,
         r', replicate 12 7 @ drop (length (replicate 12 (7::u8))) (replicate 16 0),
         [1, 2] @ drop (length [1::u8, 2]) (replicate 4 9))"
    by blast
  show ?thesis
    by (rule exI [of _ w], rule exI, rule exI, rule exI, rule exI, rule conjI [OF p])
      (use frame_parse_safe [OF p] in simp)
qed

end
