(* ===== verification/Ring_Phy.thy ===== *)
theory Ring_Phy
  imports Time_Base
begin

text \<open>
  \<^verbatim>\<open>src/core/ring/ap_ring_phy.{h,c}\<close>: the physical layer of the ring. A bit cell is two
  half-cell levels; the clock window always inverts the line and the data window inverts it
  again for a One. Elastic-store delays are hundredths of a bit, C's \<open>int\<close>, here \<open>int\<close>:
  every value stays far below \<open>2^31\<close>. C division truncates towards zero; it is written out.
\<close>

definition BIT_CELL_TICKS :: u64 where "BIT_CELL_TICKS = TIME_BASE_HZ div ucast RING_DATA_HZ"
definition WINDOW_TICKS :: u64 where "WINDOW_TICKS = TIME_BASE_HZ div ucast RING_LINE_HZ"
definition BYTE_TICKS :: u64 where "BYTE_TICKS = TIME_BASE_HZ * 8 div ucast RING_DATA_HZ"
definition STRIP_TIMEOUT_BYTES :: nat where "STRIP_TIMEOUT_BYTES = 16384"
definition STRIP_TIMEOUT :: u64 where "STRIP_TIMEOUT = BYTE_TICKS * of_nat STRIP_TIMEOUT_BYTES"

record ring_cell =
  clock_window :: bool
  data_window :: bool

definition zero_cell :: ring_cell where
  "zero_cell = \<lparr>clock_window = False, data_window = False\<rparr>"

definition biphase_encode :: "bool \<Rightarrow> bool \<Rightarrow> ring_cell" where
  "biphase_encode b previous =
     (let cw = \<not> previous in \<lparr>clock_window = cw, data_window = (if b then \<not> cw else cw)\<rparr>)"

definition cell_trailing_level :: "ring_cell \<Rightarrow> bool" where
  "cell_trailing_level cell = data_window cell"

text \<open>The decoded bit and whether the clock window carried no transition.\<close>

definition biphase_decode :: "ring_cell \<Rightarrow> bool \<Rightarrow> bool \<times> bool" where
  "biphase_decode cell previous =
     (let clock_transition = (clock_window cell \<noteq> previous) in
      if \<not> clock_transition then (False, True)
      else (data_window cell \<noteq> clock_window cell, False))"

section \<open>Elastic store and phase-lock loop\<close>

definition ESB_NOMINAL_CENTIBITS :: int where "ESB_NOMINAL_CENTIBITS = 100"
definition ESB_MIN_CENTIBITS :: int where "ESB_MIN_CENTIBITS = 50"
definition ESB_MAX_CENTIBITS :: int where "ESB_MAX_CENTIBITS = 150"
definition PLL_DEVIATION_HZ :: int where "PLL_DEVIATION_HZ = 3000"

lemmas esb_consts = ESB_NOMINAL_CENTIBITS_def ESB_MIN_CENTIBITS_def ESB_MAX_CENTIBITS_def
  PLL_DEVIATION_HZ_def

datatype esb_status = ESB_OK | ESB_UNDERFLOW | ESB_OVERFLOW

definition esb_classify :: "int \<Rightarrow> esb_status" where
  "esb_classify centibits =
     (if centibits \<le> ESB_MIN_CENTIBITS then ESB_UNDERFLOW
      else if centibits \<ge> ESB_MAX_CENTIBITS then ESB_OVERFLOW
      else ESB_OK)"

definition c_div :: "int \<Rightarrow> int \<Rightarrow> int" where
  "c_div a b = sgn a * sgn b * (\<bar>a\<bar> div \<bar>b\<bar>)"

definition pll_phase_offset_centibits :: "int \<Rightarrow> int" where
  "pll_phase_offset_centibits deviation_hz =
     (if deviation_hz \<le> - PLL_DEVIATION_HZ then ESB_MIN_CENTIBITS
      else if deviation_hz \<ge> PLL_DEVIATION_HZ then ESB_MAX_CENTIBITS
      else
        let span = ESB_MAX_CENTIBITS - ESB_MIN_CENTIBITS in
        ESB_NOMINAL_CENTIBITS + c_div (deviation_hz * span) (2 * PLL_DEVIATION_HZ))"

section \<open>Bypass relays\<close>

record ring_bypass =
  bypassed :: bool

definition node_in_ring :: "ring_bypass \<Rightarrow> bool" where
  "node_in_ring state \<longleftrightarrow> \<not> bypassed state"

definition node_loopback :: "ring_bypass \<Rightarrow> bool" where
  "node_loopback state \<longleftrightarrow> bypassed state"

section \<open>A stream of cells\<close>

text \<open>What a transmitter puts on the line for a bit stream, and what a receiver makes of a
  stream of cells; each carries the level the previous cell left behind.\<close>

fun encode_stream :: "bool \<Rightarrow> bool list \<Rightarrow> ring_cell list" where
  "encode_stream level [] = []"
| "encode_stream level (b # bs) =
     (let c = biphase_encode b level in c # encode_stream (cell_trailing_level c) bs)"

fun decode_stream :: "bool \<Rightarrow> ring_cell list \<Rightarrow> (bool \<times> bool) list" where
  "decode_stream level [] = []"
| "decode_stream level (c # cs) = biphase_decode c level # decode_stream (cell_trailing_level c) cs"

definition invert_cell :: "ring_cell \<Rightarrow> ring_cell" where
  "invert_cell c = \<lparr>clock_window = \<not> clock_window c, data_window = \<not> data_window c\<rparr>"

lemma decode_encode [simp]: "biphase_decode (biphase_encode b level) level = (b, False)"
  by (auto simp: biphase_decode_def biphase_encode_def Let_def)

lemma decode_stream_encode: "decode_stream level (encode_stream level bs) = map (\<lambda>b. (b, False)) bs"
  by (induction bs arbitrary: level) (simp_all add: Let_def)

lemma decode_invert: "biphase_decode (invert_cell c) (\<not> level) = biphase_decode c level"
  by (auto simp: biphase_decode_def invert_cell_def Let_def)

lemma decode_stream_invert:
  "decode_stream (\<not> level) (map invert_cell cs) = decode_stream level cs"
proof (induction cs arbitrary: level)
  case (Cons c cs)
  have "cell_trailing_level (invert_cell c) = (\<not> cell_trailing_level c)"
    by (simp add: cell_trailing_level_def invert_cell_def)
  with Cons [of "cell_trailing_level c"] show ?case by (simp add: decode_invert)
qed simp

text \<open>A receiver that starts at the transmitter's level recovers the bit stream without a
  bi-phase error, and it makes no difference to it if the cable inverts the line: only the
  transitions carry the bits.\<close>

theorem biphase_stream_roundtrip:
  "decode_stream level (encode_stream level bs) = map (\<lambda>b. (b, False)) bs \<and>
   decode_stream (\<not> level) (map invert_cell (encode_stream level bs)) = map (\<lambda>b. (b, False)) bs"
  by (simp add: decode_stream_encode decode_stream_invert)

text \<open>A damaged cell costs a single bit: whatever cell replaces one that leaves the same
  trailing level, every other bit of the stream decodes as before, and the damaged position
  still yields a bit (Zero, flagged, when its clock transition is missing).\<close>

theorem biphase_single_damage:
  assumes "data_window bad = data_window c"
  shows "\<exists>res. decode_stream level (cs @ bad # ds) =
      take (length cs) (decode_stream level (cs @ c # ds)) @ res #
      drop (Suc (length cs)) (decode_stream level (cs @ c # ds)) \<and> (snd res \<longrightarrow> \<not> fst res)"
  using assms
proof (induction cs arbitrary: level)
  case Nil
  then show ?case
    by (auto simp: cell_trailing_level_def biphase_decode_def Let_def)
next
  case (Cons a cs)
  then show ?case by (auto simp: Let_def)
qed

lemma biphase_single_damage_witness:
  "\<exists>res. decode_stream False ([] @ zero_cell # []) =
     take (length ([]::ring_cell list)) (decode_stream False ([] @ \<lparr>clock_window = True, data_window = False\<rparr> # [])) @ res #
     drop (Suc (length ([]::ring_cell list))) (decode_stream False ([] @ \<lparr>clock_window = True, data_window = False\<rparr> # [])) \<and>
     (snd res \<longrightarrow> \<not> fst res)"
  by (rule biphase_single_damage) (simp add: zero_cell_def)

lemma pll_offset_range:
  "ESB_MIN_CENTIBITS \<le> pll_phase_offset_centibits d \<and> pll_phase_offset_centibits d \<le> ESB_MAX_CENTIBITS"
proof (cases "- 3000 < d \<and> d < 3000")
  case True
  then have "\<bar>d\<bar> * 100 div 6000 \<le> 50" by linarith
  moreover have "0 \<le> \<bar>d\<bar> * 100 div 6000" by simp
  ultimately have "\<bar>c_div (d * 100) 6000\<bar> \<le> 50"
    by (auto simp: c_div_def sgn_if abs_mult)
  with True show ?thesis by (auto simp: pll_phase_offset_centibits_def esb_consts Let_def)
next
  case False
  then show ?thesis by (auto simp: pll_phase_offset_centibits_def esb_consts)
qed

end
