(* ===== verification/Ring_Medium.thy ===== *)
theory Ring_Medium
  imports Ring_Phy
begin

text \<open>
  \<^verbatim>\<open>src/core/ring/ap_ring_medium.{h,c}\<close>: what joins the nodes into a ring. Sixty-four
  slots in cable order, each with its relays, the cell it drives, the cell it received and the
  delay line of the cable leaving it; \<open>medium_advance\<close> is one bit clock of the whole ring.

  A C array is a list of its fixed length; a slot number is C's \<open>int\<close>, with \<open>-1\<close> for none.
  The locale \<open>delay_line\<close> states what a cable promises (it delivers what was pushed, in order,
  a fixed number of bit times later); it is interpreted on the model's own cable. The main
  theorem says that one clock solves the equations of the ring: every slot hears exactly what
  emerges from the nearest attached slot upstream, a bypassed slot hears itself and passes its
  input through.
\<close>

definition MAX_NODES :: nat where "MAX_NODES = 64"
definition MAX_CABLE_BITS :: nat where "MAX_CABLE_BITS = 64"

record ring_node =
  n_attached :: bool
  n_bypass :: ring_bypass
  n_driving :: ring_cell
  n_received :: ring_cell
  n_cable_bits :: nat
  n_line :: "ring_cell list"
  n_line_head :: nat

record ring_medium =
  m_node :: "ring_node list"
  m_slots :: nat
  m_bit_time :: u64

text \<open>\<open>(ap_ring_node_t){0}\<close>, and the same with \<open>.attached = true\<close>.\<close>

definition zero_node :: ring_node where
  "zero_node = \<lparr>n_attached = False, n_bypass = \<lparr>bypassed = False\<rparr>, n_driving = zero_cell,
     n_received = zero_cell, n_cable_bits = 0, n_line = replicate MAX_CABLE_BITS zero_cell,
     n_line_head = 0\<rparr>"

definition fresh_node :: ring_node where
  "fresh_node = zero_node\<lparr>n_attached := True\<rparr>"

definition upd_node :: "nat \<Rightarrow> (ring_node \<Rightarrow> ring_node) \<Rightarrow> ring_medium \<Rightarrow> ring_medium" where
  "upd_node i f m = m\<lparr>m_node := (m_node m)[i := f (m_node m ! i)]\<rparr>"

definition medium_init :: ring_medium where
  "medium_init = \<lparr>m_node = replicate MAX_NODES zero_node, m_slots = 0, m_bit_time = 0\<rparr>"

definition valid_slot :: "ring_medium \<Rightarrow> int \<Rightarrow> bool" where
  "valid_slot m slot \<longleftrightarrow> slot \<ge> 0 \<and> nat slot < m_slots m"

section \<open>Slots\<close>

definition medium_attach :: "ring_medium \<Rightarrow> int \<times> ring_medium" where
  "medium_attach m =
     (case find (\<lambda>i. \<not> n_attached (m_node m ! i)) [0..<m_slots m] of
        Some i \<Rightarrow> (int i, upd_node i (\<lambda>_. fresh_node) m)
      | None \<Rightarrow>
          if m_slots m \<ge> MAX_NODES then (-1, m)
          else (int (m_slots m),
                upd_node (m_slots m) (\<lambda>_. fresh_node) (m\<lparr>m_slots := m_slots m + 1\<rparr>)))"

definition medium_detach :: "ring_medium \<Rightarrow> int \<Rightarrow> ring_medium" where
  "medium_detach m slot =
     (if \<not> valid_slot m slot then m else upd_node (nat slot) (\<lambda>_. zero_node) m)"

definition medium_first_slot :: "ring_medium \<Rightarrow> int" where
  "medium_first_slot m =
     (case find (\<lambda>i. n_attached (m_node m ! i)) [0..<MAX_NODES] of Some i \<Rightarrow> int i | None \<Rightarrow> -1)"

definition medium_attached :: "ring_medium \<Rightarrow> int \<Rightarrow> bool" where
  "medium_attached m slot \<longleftrightarrow> valid_slot m slot \<and> n_attached (m_node m ! nat slot)"

text \<open>The loop of \<open>ap_ring_medium_set_cable_bits\<close> that fills a line with idle cells.\<close>

definition idle_line :: "ring_cell list \<Rightarrow> ring_cell list" where
  "idle_line line =
     snd (fold (\<lambda>i (level, line). let idle = biphase_encode False level
                                in (cell_trailing_level idle, line[i := idle]))
            [0..<MAX_CABLE_BITS] (False, line))"

definition medium_set_cable_bits :: "ring_medium \<Rightarrow> int \<Rightarrow> nat \<Rightarrow> ring_medium" where
  "medium_set_cable_bits m slot bits =
     (if \<not> valid_slot m slot \<or> bits > MAX_CABLE_BITS then m
      else upd_node (nat slot)
             (\<lambda>n. n\<lparr>n_cable_bits := bits, n_line_head := 0, n_line := idle_line (n_line n)\<rparr>) m)"

definition medium_set_bypass :: "ring_medium \<Rightarrow> int \<Rightarrow> bool \<Rightarrow> ring_medium" where
  "medium_set_bypass m slot b =
     (if \<not> valid_slot m slot then m
      else upd_node (nat slot) (\<lambda>n. n\<lparr>n_bypass := \<lparr>bypassed = b\<rparr>\<rparr>) m)"

definition medium_transmit :: "ring_medium \<Rightarrow> int \<Rightarrow> ring_cell \<Rightarrow> ring_medium" where
  "medium_transmit m slot cell =
     (if \<not> valid_slot m slot then m else upd_node (nat slot) (\<lambda>n. n\<lparr>n_driving := cell\<rparr>) m)"

definition medium_receive :: "ring_medium \<Rightarrow> int \<Rightarrow> ring_cell" where
  "medium_receive m slot = (if \<not> valid_slot m slot then zero_cell else n_received (m_node m ! nat slot))"

section \<open>One bit clock\<close>

definition attached_upstream_of :: "ring_medium \<Rightarrow> nat \<Rightarrow> nat" where
  "attached_upstream_of m slot =
     (case find (\<lambda>step. n_attached (m_node m ! ((slot + m_slots m - step) mod m_slots m)))
             [1..<m_slots m + 1] of
        Some step \<Rightarrow> (slot + m_slots m - step) mod m_slots m
      | None \<Rightarrow> slot)"

definition cable_head :: "ring_node \<Rightarrow> ring_cell" where
  "cable_head n = n_line n ! (n_line_head n mod n_cable_bits n)"

definition cable_push :: "ring_node \<Rightarrow> ring_cell \<Rightarrow> ring_node" where
  "cable_push n c =
     (let head = n_line_head n mod n_cable_bits n
      in n\<lparr>n_line := (n_line n)[head := c], n_line_head := (head + 1) mod n_cable_bits n\<rparr>)"

text \<open>Pass one: what emerges from every cable, from its old contents.\<close>

definition cable_outputs :: "ring_medium \<Rightarrow> ring_cell list" where
  "cable_outputs m =
     map (\<lambda>i. if n_attached (m_node m ! i) \<and> n_cable_bits (m_node m ! i) > 0
              then cable_head (m_node m ! i) else zero_cell) [0..<m_slots m]"

text \<open>Where the walk starts: the first slot in the ring, or else the first attached one.\<close>

definition walk_start :: "ring_medium \<Rightarrow> nat option" where
  "walk_start m =
     (case find (\<lambda>i. n_attached (m_node m ! i) \<and> node_in_ring (n_bypass (m_node m ! i))) [0..<m_slots m] of
        Some i \<Rightarrow> Some i
      | None \<Rightarrow> find (\<lambda>i. n_attached (m_node m ! i)) [0..<m_slots m])"

text \<open>Pass two, one slot of the walk: the medium, \<open>from_cable\<close> and \<open>carried\<close>.\<close>

definition walk_slot ::
  "nat \<Rightarrow> ring_medium \<times> ring_cell list \<times> ring_cell \<Rightarrow> ring_medium \<times> ring_cell list \<times> ring_cell" where
  "walk_slot i = (\<lambda>(m, from_cable, carried).
     if \<not> n_attached (m_node m ! i) then (m, from_cable, carried)
     else
       let inp = (if node_in_ring (n_bypass (m_node m ! i)) then n_driving (m_node m ! i) else carried)
       in if n_cable_bits (m_node m ! i) > 0
          then (upd_node i (\<lambda>n. cable_push n inp) m, from_cable, from_cable ! i)
          else (m, from_cable[i := inp], inp))"

definition receive_slot :: "ring_cell list \<Rightarrow> nat \<Rightarrow> ring_medium \<Rightarrow> ring_medium" where
  "receive_slot from_cable i m =
     (if \<not> n_attached (m_node m ! i) then m
      else if node_loopback (n_bypass (m_node m ! i))
      then upd_node i (\<lambda>n. n\<lparr>n_received := n_driving n\<rparr>) m
      else upd_node i (\<lambda>n. n\<lparr>n_received := from_cable ! attached_upstream_of m i\<rparr>) m)"

definition medium_advance :: "ring_medium \<Rightarrow> ring_medium" where
  "medium_advance m =
     (if m_slots m = 0 then m\<lparr>m_bit_time := m_bit_time m + 1\<rparr>
      else
        case walk_start m of
          None \<Rightarrow> m\<lparr>m_bit_time := m_bit_time m + 1\<rparr>
        | Some first \<Rightarrow>
            let from_cable = cable_outputs m;
                carried = from_cable ! attached_upstream_of m first;
                (m, from_cable, _) =
                  fold (\<lambda>step. walk_slot ((first + step) mod m_slots m)) [0..<m_slots m]
                    (m, from_cable, carried);
                m = fold (receive_slot from_cable) [0..<m_slots m] m
            in m\<lparr>m_bit_time := m_bit_time m + 1\<rparr>)"

section \<open>Measures of a ring\<close>

definition medium_delay_centibits :: "ring_medium \<Rightarrow> int \<Rightarrow> int" where
  "medium_delay_centibits m per_node_centibits =
     fold (\<lambda>i total. if n_attached (m_node m ! i) \<and> node_in_ring (n_bypass (m_node m ! i))
                     then total + per_node_centibits else total) [0..<m_slots m] 0"

definition medium_circumference_bits :: "ring_medium \<Rightarrow> nat" where
  "medium_circumference_bits m =
     fold (\<lambda>i total. if \<not> n_attached (m_node m ! i) then total
                     else let total = total + n_cable_bits (m_node m ! i)
                          in if node_in_ring (n_bypass (m_node m ! i)) then total + 1 else total)
       [0..<m_slots m] 0"

definition medium_plant_bits :: "ring_medium \<Rightarrow> nat" where
  "medium_plant_bits m =
     fold (\<lambda>i total. if \<not> n_attached (m_node m ! i) then total
                     else total + (1 + n_cable_bits (m_node m ! i))) [0..<m_slots m] 0"

definition medium_stable :: "ring_medium \<Rightarrow> int \<Rightarrow> bool" where
  "medium_stable m per_node_centibits \<longleftrightarrow>
     (let total = medium_delay_centibits m per_node_centibits in
      total - 100 * c_div total 100 = 0)"

section \<open>The cable is a delay line\<close>

text \<open>What a delay line promises: it delivers its oldest cell, and takes a new one behind the
  others.\<close>

locale delay_line =
  fixes head :: "'l \<Rightarrow> 'c"
    and push :: "'l \<Rightarrow> 'c \<Rightarrow> 'l"
    and content :: "'l \<Rightarrow> 'c list"
    and inv :: "'l \<Rightarrow> bool"
  assumes content_nonempty: "inv l \<Longrightarrow> content l \<noteq> []"
    and head_content: "inv l \<Longrightarrow> head l = hd (content l)"
    and content_push: "inv l \<Longrightarrow> content (push l c) = tl (content l) @ [c]"
    and inv_push: "inv l \<Longrightarrow> inv (push l c)"
begin

lemma inv_pushes: "inv l \<Longrightarrow> inv (foldl push l cs)"
  by (induction cs arbitrary: l) (simp_all add: inv_push)

lemma content_pushes:
  "inv l \<Longrightarrow> content (foldl push l cs) = drop (length cs) (content l @ cs)"
proof (induction cs arbitrary: l)
  case (Cons c cs)
  then show ?case
    using content_nonempty [of l]
    by (cases "content l") (simp_all add: content_push inv_push del: drop_append)
qed simp

lemma length_content_pushes: "inv l \<Longrightarrow> length (content (foldl push l cs)) = length (content l)"
  by (simp add: content_pushes)

lemma delivers_in_order:
  assumes "inv l" and "n < length cs" and "length (content l) \<le> n"
  shows "head (foldl push l (take n cs)) = cs ! (n - length (content l))"
proof -
  have "head (foldl push l (take n cs)) = hd (drop n (content l @ take n cs))"
    using assms(1,2) by (simp add: head_content inv_pushes content_pushes)
  also have "\<dots> = (content l @ take n cs) ! n"
    using assms content_nonempty [OF assms(1)] by (intro hd_drop_conv_nth) (simp add: length_greater_0_conv)
  also have "\<dots> = cs ! (n - length (content l))"
  proof -
    have "n - length (content l) < n"
      using assms content_nonempty [OF assms(1)] by (cases "content l") simp_all
    then show ?thesis using assms by (simp add: nth_append)
  qed
  finally show ?thesis .
qed

end

definition cable_inv :: "ring_node \<Rightarrow> bool" where
  "cable_inv n \<longleftrightarrow> 0 < n_cable_bits n \<and> n_cable_bits n \<le> length (n_line n)"

text \<open>What is on the cable, oldest first.\<close>

definition cable_content :: "ring_node \<Rightarrow> ring_cell list" where
  "cable_content n =
     map (\<lambda>k. n_line n ! ((n_line_head n + k) mod n_cable_bits n)) [0..<n_cable_bits n]"

lemma cable_content_push:
  assumes "cable_inv n"
  shows "cable_content (cable_push n c) = tl (cable_content n) @ [c]"
proof (rule nth_equalityI)
  let ?b = "n_cable_bits n" and ?h = "n_line_head n mod n_cable_bits n"
  have b: "0 < ?b" "?b \<le> length (n_line n)" using assms by (simp_all add: cable_inv_def)
  have len: "length (cable_content (cable_push n c)) = ?b"
    by (simp add: cable_content_def cable_push_def Let_def)
  show "length (cable_content (cable_push n c)) = length (tl (cable_content n) @ [c])"
    using b by (simp add: len) (simp add: cable_content_def)
  fix k assume "k < length (cable_content (cable_push n c))"
  then have k: "k < ?b" by (simp add: len)
  have pushed: "cable_content (cable_push n c) ! k =
      (n_line n)[?h := c] ! ((?h + 1 + k) mod ?b)"
    using k by (simp add: cable_content_def cable_push_def Let_def mod_add_left_eq)
  show "cable_content (cable_push n c) ! k = (tl (cable_content n) @ [c]) ! k"
  proof (cases "Suc k < ?b")
    case True
    have "(?h + 1 + k) mod ?b \<noteq> ?h"
    proof
      assume "(?h + 1 + k) mod ?b = ?h"
      then have "(?h + (1 + k)) mod ?b = (?h + 0) mod ?b" by (simp add: mod_simps)
      then have "?b dvd 1 + k" by (metis add_diff_cancel_left' diff_zero le_add1 mod_eq_dvd_iff_nat)
      with True show False by (auto dest: dvd_imp_le)
    qed
    moreover have "(?h + 1 + k) mod ?b = (n_line_head n + Suc k) mod ?b"
      by (simp add: mod_Suc_eq mod_add_left_eq flip: mod_Suc_eq [of "?h + k"])
    ultimately show ?thesis
      using True by (simp add: pushed) (simp add: cable_content_def nth_append nth_tl)
  next
    case False
    with k have "Suc k = ?b" by simp
    then have "(?h + 1 + k) mod ?b = ?h" by (metis add.assoc mod_add_self2 mod_mod_trivial plus_1_eq_Suc)
    then show ?thesis
      using False b k by (simp add: pushed)
        (simp add: cable_content_def nth_append less_le_trans [OF mod_less_divisor])
  qed
qed

interpretation cable: delay_line cable_head cable_push cable_content cable_inv
proof unfold_locales
  fix n c
  assume inv: "cable_inv n"
  show "cable_content n \<noteq> []" using inv by (simp add: cable_inv_def cable_content_def)
  show "cable_head n = hd (cable_content n)"
    using inv by (simp add: cable_inv_def cable_content_def cable_head_def hd_map)
  show "cable_content (cable_push n c) = tl (cable_content n) @ [c]"
    by (rule cable_content_push [OF inv])
  show "cable_inv (cable_push n c)"
    using inv by (simp add: cable_inv_def cable_push_def Let_def)
qed

text \<open>A cable of \<open>b\<close> bit times delivers, at every bit time from the \<open>b\<close>-th on, exactly
  the cell that was driven into it \<open>b\<close> bit times before.\<close>

theorem cable_delivers_in_order:
  assumes "0 < n_cable_bits n" and "n_cable_bits n \<le> length (n_line n)"
    and "t < length cells" and "n_cable_bits n \<le> t"
  shows "cable_head (foldl cable_push n (take t cells)) = cells ! (t - n_cable_bits n)"
proof -
  have "length (cable_content n) = n_cable_bits n" by (simp add: cable_content_def)
  with cable.delivers_in_order [of n t cells] assms show ?thesis by (simp add: cable_inv_def)
qed

lemma cable_delivers_in_order_witness:
  "cable_head (foldl cable_push (zero_node\<lparr>n_cable_bits := 2\<rparr>)
     (take 3 [zero_cell, \<lparr>clock_window = True, data_window = False\<rparr>, zero_cell, zero_cell])) =
   [zero_cell, \<lparr>clock_window = True, data_window = False\<rparr>, zero_cell, zero_cell] ! (3 - 2)"
  using cable_delivers_in_order [of "zero_node\<lparr>n_cable_bits := 2\<rparr>" 3
    "[zero_cell, \<lparr>clock_window = True, data_window = False\<rparr>, zero_cell, zero_cell]"]
  by (simp add: zero_node_def MAX_CABLE_BITS_def)

section \<open>The invariant\<close>

definition wf_node :: "ring_node \<Rightarrow> bool" where
  "wf_node n \<longleftrightarrow> n_cable_bits n \<le> MAX_CABLE_BITS \<and> length (n_line n) = MAX_CABLE_BITS"

definition wf_medium :: "ring_medium \<Rightarrow> bool" where
  "wf_medium m \<longleftrightarrow> length (m_node m) = MAX_NODES \<and> m_slots m \<le> MAX_NODES \<and>
     (\<forall>i < MAX_NODES. wf_node (m_node m ! i)) \<and>
     (\<forall>i < MAX_NODES. m_slots m \<le> i \<longrightarrow> \<not> n_attached (m_node m ! i))"

lemma wf_mediumD:
  assumes "wf_medium m"
  shows "length (m_node m) = MAX_NODES" "m_slots m \<le> MAX_NODES"
    "i < MAX_NODES \<Longrightarrow> wf_node (m_node m ! i)"
    "i < MAX_NODES \<Longrightarrow> m_slots m \<le> i \<Longrightarrow> \<not> n_attached (m_node m ! i)"
  using assms by (simp_all add: wf_medium_def)

lemma wf_upd_node:
  assumes "wf_medium m" "i < m_slots m" "wf_node (m_node m ! i) \<Longrightarrow> wf_node (f (m_node m ! i))"
  shows "wf_medium (upd_node i f m)"
  using assms by (auto simp: wf_medium_def upd_node_def nth_list_update)

lemma wf_zero_node: "wf_node zero_node" and wf_fresh_node: "wf_node fresh_node"
  by (simp_all add: wf_node_def zero_node_def fresh_node_def)

lemma wf_medium_init: "wf_medium medium_init"
  by (simp add: wf_medium_def medium_init_def wf_zero_node) (simp add: zero_node_def)

lemma find_slot_Some:
  "find P [a..<b] = Some i \<Longrightarrow> a \<le> i \<and> i < b \<and> P i \<and> (\<forall>j. a \<le> j \<longrightarrow> j < i \<longrightarrow> \<not> P j)"
  by (auto simp: find_Some_iff) (metis add_diff_inverse_nat add_less_cancel_left leD less_or_eq_imp_le
      nth_upt order.strict_trans)

lemma find_slot_None: "find P [a..<b] = None \<longleftrightarrow> (\<forall>j. a \<le> j \<longrightarrow> j < b \<longrightarrow> \<not> P j)"
  by (auto simp: find_None_iff)

lemma length_idle_line [simp]: "length (idle_line line) = length line"
proof -
  have "length (snd (fold (\<lambda>i (level, line). let idle = biphase_encode False level
      in (cell_trailing_level idle, line[i := idle])) ks (level, l))) = length l" for ks level l
    by (induction ks arbitrary: level l) (simp_all add: Let_def)
  then show ?thesis by (simp add: idle_line_def)
qed

lemma wf_medium_attach:
  assumes "wf_medium m" shows "wf_medium (snd (medium_attach m))"
proof (cases "find (\<lambda>i. \<not> n_attached (m_node m ! i)) [0..<m_slots m]")
  case None
  then show ?thesis
    using assms by (auto simp: medium_attach_def wf_medium_def upd_node_def nth_list_update wf_fresh_node)
next
  case (Some i)
  then show ?thesis
    using find_slot_Some [OF Some] assms by (simp add: medium_attach_def wf_upd_node wf_fresh_node)
qed

lemma wf_medium_slot_ops:
  assumes "wf_medium m"
  shows "wf_medium (medium_detach m slot)" "wf_medium (medium_set_cable_bits m slot bits)"
    "wf_medium (medium_set_bypass m slot b)" "wf_medium (medium_transmit m slot c)"
  using assms
  by (auto simp: medium_detach_def medium_set_cable_bits_def medium_set_bypass_def
      medium_transmit_def valid_slot_def wf_node_def wf_zero_node [unfolded wf_node_def]
      intro!: wf_upd_node)

section \<open>One clock solves the equations of the ring\<close>

lemma find_map_conv: "find P (map f xs) = map_option f (find (P \<circ> f) xs)"
  by (induction xs) simp_all

lemma find_append_Some: "find P xs = Some x \<Longrightarrow> find P (xs @ ys) = Some x"
  by (induction xs) auto

lemma step_back_Suc:
  assumes "i < n" "1 \<le> s" "s < n"
  shows "(Suc i mod n + n - Suc s) mod n = (i + n - s) mod (n::nat)"
proof (cases "Suc i = n")
  case True
  then have "i + n - s = (n - Suc s) + n" using assms by simp
  then have "(i + n - s) mod n = (n - Suc s) mod n" by (metis mod_add_self2)
  then show ?thesis using assms True by simp
next
  case False
  then show ?thesis using assms by simp
qed

text \<open>Walking the cable one slot on, the nearest attached slot behind is the slot just left if
  it is attached, and otherwise the one that was behind it already.\<close>

lemma upstream_Suc:
  assumes i: "i < m_slots m" and j: "j < m_slots m" "n_attached (m_node m ! j)"
  shows "attached_upstream_of m (Suc i mod m_slots m) =
    (if n_attached (m_node m ! i) then i else attached_upstream_of m i)"
proof -
  let ?n = "m_slots m" and ?att = "\<lambda>i. n_attached (m_node m ! i)"
  let ?behind = "\<lambda>i s. (i + ?n - s) mod ?n"
  have behind1: "?behind (Suc i mod ?n) 1 = i" using i by (cases "Suc i = ?n") simp_all
  have range: "[1..<?n + 1] = 1 # map Suc [1..<?n]"
    using i by (simp add: upt_conv_Cons map_Suc_upt del: upt_Suc)
  have range': "[1..<?n + 1] = [1..<?n] @ [?n]" using i by simp
  show ?thesis
  proof (cases "?att i")
    case True
    then show ?thesis unfolding attached_upstream_of_def range by (simp add: behind1 del: One_nat_def)
  next
    case False
    have same: "find ((\<lambda>s. ?att (?behind (Suc i mod ?n) s)) \<circ> Suc) [1..<?n] =
        find (\<lambda>s. ?att (?behind i s)) [1..<?n]"
      using i by (intro find_cong refl) (simp add: step_back_Suc del: One_nat_def)
    have left: "find (\<lambda>s. ?att (?behind (Suc i mod ?n) s)) [1..<?n + 1] =
        map_option Suc (find (\<lambda>s. ?att (?behind i s)) [1..<?n])"
      unfolding range by (simp add: behind1 False find_map_conv same del: One_nat_def)
    obtain s where s: "find (\<lambda>s. ?att (?behind i s)) [1..<?n] = Some s"
    proof -
      have "j \<noteq> i" using False j by auto
      define s where "s = (if j < i then i - j else i + ?n - j)"
      have "1 \<le> s" "s < ?n" "?behind i s = j"
        using i j \<open>j \<noteq> i\<close> by (auto simp: s_def)
      then have "find (\<lambda>s. ?att (?behind i s)) [1..<?n] \<noteq> None"
        using j unfolding find_slot_None by blast
      then show ?thesis using that by blast
    qed
    have right: "find (\<lambda>s. ?att (?behind i s)) [1..<?n + 1] = Some s"
      unfolding range' using s by (rule find_append_Some)
    have "1 \<le> s" "s < ?n" using find_slot_Some [OF s] by auto
    then show ?thesis
      using i False unfolding attached_upstream_of_def left right s
      by (simp add: step_back_Suc [of i ?n s])
  qed
qed

text \<open>The equations: given what emerges from every cable (\<open>out\<close>), what each slot puts in, and
  what a slot looks like after the clock.\<close>

definition slot_input :: "ring_medium \<Rightarrow> (nat \<Rightarrow> ring_cell) \<Rightarrow> nat \<Rightarrow> ring_cell" where
  "slot_input m out i =
     (if node_in_ring (n_bypass (m_node m ! i)) then n_driving (m_node m ! i)
      else out (attached_upstream_of m i))"

definition slot_pushed :: "ring_medium \<Rightarrow> (nat \<Rightarrow> ring_cell) \<Rightarrow> nat \<Rightarrow> ring_node" where
  "slot_pushed m out i =
     (let n = m_node m ! i in
      if n_attached n \<and> n_cable_bits n > 0 then cable_push n (slot_input m out i) else n)"

definition slot_heard :: "ring_medium \<Rightarrow> (nat \<Rightarrow> ring_cell) \<Rightarrow> nat \<Rightarrow> ring_cell" where
  "slot_heard m out i =
     (if node_loopback (n_bypass (m_node m ! i)) then n_driving (m_node m ! i)
      else out (attached_upstream_of m i))"

definition ring_solution :: "ring_medium \<Rightarrow> (nat \<Rightarrow> ring_cell) \<Rightarrow> bool" where
  "ring_solution m out \<longleftrightarrow>
     (\<forall>i < m_slots m. n_attached (m_node m ! i) \<longrightarrow>
        out i = (if n_cable_bits (m_node m ! i) > 0 then cable_head (m_node m ! i)
                 else slot_input m out i))"

definition ring_clocked :: "ring_medium \<Rightarrow> (nat \<Rightarrow> ring_cell) \<Rightarrow> ring_medium" where
  "ring_clocked m out =
     m\<lparr>m_node := map (\<lambda>i. if i < m_slots m \<and> n_attached (m_node m ! i)
                          then slot_pushed m out i \<lparr>n_received := slot_heard m out i\<rparr>
                          else m_node m ! i) [0..<length (m_node m)],
       m_bit_time := m_bit_time m + 1\<rparr>"

text \<open>The walk after \<open>k\<close> slots from \<open>f\<close>.\<close>

definition walked :: "ring_medium \<Rightarrow> nat \<Rightarrow> nat \<Rightarrow> nat set" where
  "walked m f k = (\<lambda>j. (f + j) mod m_slots m) ` {..<k}"

definition walk_inv ::
  "ring_medium \<Rightarrow> nat \<Rightarrow> nat \<Rightarrow> ring_medium \<times> ring_cell list \<times> ring_cell \<Rightarrow> bool" where
  "walk_inv m f k = (\<lambda>(m', fc, c).
     m' = m\<lparr>m_node := map (\<lambda>i. if i \<in> walked m f k then slot_pushed m (nth fc) i else m_node m ! i)
                       [0..<length (m_node m)]\<rparr> \<and>
     length fc = m_slots m \<and>
     (\<forall>i < m_slots m. n_attached (m_node m ! i) \<longrightarrow>
        (n_cable_bits (m_node m ! i) > 0 \<longrightarrow> fc ! i = cable_head (m_node m ! i)) \<and>
        (n_cable_bits (m_node m ! i) = 0 \<longrightarrow> i \<in> walked m f k \<longrightarrow> fc ! i = slot_input m (nth fc) i)) \<and>
     (0 < k \<longrightarrow> k < m_slots m \<longrightarrow> c = fc ! attached_upstream_of m ((f + k) mod m_slots m)))"

lemma walked_Suc: "walked m f (Suc k) = insert ((f + k) mod m_slots m) (walked m f k)"
  by (simp add: walked_def lessThan_Suc)

lemma walked_new:
  assumes "k < m_slots m" shows "(f + k) mod m_slots m \<notin> walked m f k"
proof
  assume "(f + k) mod m_slots m \<in> walked m f k"
  then obtain j where j: "j < k" and "(f + k) mod m_slots m = (f + j) mod m_slots m"
    by (auto simp: walked_def)
  then have "m_slots m dvd k - j"
    by (metis add_diff_cancel_left add_le_cancel_left less_imp_le_nat mod_eq_dvd_iff_nat)
  with j assms show False by (auto dest: dvd_imp_le)
qed

lemma walked_all:
  assumes "0 < m_slots m" shows "walked m f (m_slots m) = {..<m_slots m}"
proof (rule card_subset_eq)
  show "walked m f (m_slots m) \<subseteq> {..<m_slots m}" using assms by (auto simp: walked_def)
  have "card (walked m f k) = k" if "k \<le> m_slots m" for k
    using that
  proof (induction k)
    case (Suc k)
    have "finite (walked m f k)" by (simp add: walked_def)
    then show ?case using Suc walked_new [of k m f] by (simp add: walked_Suc)
  qed (simp add: walked_def)
  then show "card (walked m f (m_slots m)) = card {..<m_slots m}" by simp
qed simp

lemma upstream_walked:
  assumes f: "f < m_slots m" "n_attached (m_node m ! f)" and k: "0 < k" "k < m_slots m"
  shows "attached_upstream_of m ((f + k) mod m_slots m) \<in> walked m f k"
  using k
proof (induction k)
  case (Suc k)
  have at: "(f + Suc k) mod m_slots m = Suc ((f + k) mod m_slots m) mod m_slots m"
    by (simp add: mod_Suc_eq)
  have up: "attached_upstream_of m ((f + Suc k) mod m_slots m) =
      (if n_attached (m_node m ! ((f + k) mod m_slots m)) then (f + k) mod m_slots m
       else attached_upstream_of m ((f + k) mod m_slots m))"
    unfolding at using upstream_Suc [of "(f + k) mod m_slots m" m f] f by simp
  show ?case
    unfolding up walked_Suc using Suc f by (cases "k = 0") auto
qed simp

text \<open>Writing the link of the slot being walked changes no input computed so far.\<close>

lemma slot_input_update:
  assumes f: "f < m_slots m" "n_attached (m_node m ! f)" "node_in_ring (n_bypass (m_node m ! f))"
    and "j \<le> k" "k < m_slots m"
  shows "slot_input m (nth (fc[(f + k) mod m_slots m := x])) ((f + j) mod m_slots m) =
    slot_input m (nth fc) ((f + j) mod m_slots m)"
proof (cases "j = 0")
  case True
  then show ?thesis using f by (simp add: slot_input_def)
next
  case False
  then have "attached_upstream_of m ((f + j) mod m_slots m) \<in> walked m f j"
    using upstream_walked [OF f(1,2), of j] assms by simp
  also have "walked m f j \<subseteq> walked m f k" using assms by (auto simp: walked_def)
  finally have "attached_upstream_of m ((f + j) mod m_slots m) \<noteq> (f + k) mod m_slots m"
    using walked_new [of k m f] assms by auto
  then show ?thesis by (simp add: slot_input_def)
qed

lemma walk_inv_start:
  assumes "m_slots m \<le> length (m_node m)"
  shows "walk_inv m f 0 (m, cable_outputs m, c)"
proof -
  have "map (\<lambda>i. m_node m ! i) [0..<length (m_node m)] = m_node m" by (rule map_nth)
  then show ?thesis by (simp add: walk_inv_def walked_def cable_outputs_def)
qed

lemma walk_inv_step:
  assumes f: "f < m_slots m" "n_attached (m_node m ! f)" "node_in_ring (n_bypass (m_node m ! f))"
    and m: "m_slots m \<le> length (m_node m)"
    and k: "k < m_slots m" and inv: "walk_inv m f k (m', fc, c)"
  shows "walk_inv m f (Suc k) (walk_slot ((f + k) mod m_slots m) (m', fc, c))"
proof -
  define i where "i = (f + k) mod m_slots m"
  have i: "i < m_slots m" "i \<notin> walked m f k"
    using k walked_new [OF k, of f] by (simp_all add: i_def)
  have W: "walked m f (Suc k) = insert i (walked m f k)" by (simp add: walked_Suc i_def)
  define nodes where "nodes S g = map (\<lambda>i. if i \<in> S then slot_pushed m g i else m_node m ! i)
      [0..<length (m_node m)]" for S g
  have m': "m' = m\<lparr>m_node := nodes (walked m f k) (nth fc)\<rparr>" and len: "length fc = m_slots m"
    and fc: "\<And>i. i < m_slots m \<Longrightarrow> n_attached (m_node m ! i) \<Longrightarrow>
        (n_cable_bits (m_node m ! i) > 0 \<longrightarrow> fc ! i = cable_head (m_node m ! i)) \<and>
        (n_cable_bits (m_node m ! i) = 0 \<longrightarrow> i \<in> walked m f k \<longrightarrow> fc ! i = slot_input m (nth fc) i)"
    and c: "0 < k \<Longrightarrow> c = fc ! attached_upstream_of m i"
    using inv k by (auto simp: walk_inv_def i_def nodes_def)
  have node: "m_node m' ! i = m_node m ! i" using i m by (simp add: m' nodes_def)
  have up: "attached_upstream_of m ((f + Suc k) mod m_slots m) =
      (if n_attached (m_node m ! i) then i else attached_upstream_of m i)"
    using upstream_Suc [of i m f] f i by (simp add: i_def mod_Suc_eq)
  show ?thesis
  proof (cases "n_attached (m_node m ! i)")
    case False
    then have "0 < k" using f by (cases k) (auto simp: i_def)
    have step: "walk_slot i (m', fc, c) = (m', fc, c)"
      using False by (simp add: walk_slot_def node)
    have "nodes (insert i (walked m f k)) (nth fc) = nodes (walked m f k) (nth fc)"
      using False by (simp add: nodes_def slot_pushed_def Let_def)
    then have "walk_inv m f (Suc k) (m', fc, c)"
      using False \<open>0 < k\<close> len fc c
      unfolding walk_inv_def up W m' nodes_def [symmetric] by auto
    then show ?thesis unfolding i_def [symmetric] step .
  next
    case att: True
    have inp: "(if node_in_ring (n_bypass (m_node m ! i)) then n_driving (m_node m ! i) else c) =
        slot_input m (nth fc) i"
      using f c by (cases k) (auto simp: i_def slot_input_def)
    show ?thesis
    proof (cases "n_cable_bits (m_node m ! i) > 0")
      case True
      have step: "walk_slot i (m', fc, c) =
          (upd_node i (\<lambda>n. cable_push n (slot_input m (nth fc) i)) m', fc, fc ! i)"
        using True att by (simp add: walk_slot_def node flip: inp)
      have "upd_node i (\<lambda>n. cable_push n (slot_input m (nth fc) i)) m' =
          m\<lparr>m_node := nodes (insert i (walked m f k)) (nth fc)\<rparr>"
        using att True i m unfolding upd_node_def node
        by (intro ring_medium.equality)
          (auto simp: m' nodes_def slot_pushed_def Let_def nth_list_update intro!: nth_equalityI)
      then show ?thesis
        using att True len fc
        unfolding i_def [symmetric] step walk_inv_def up W nodes_def [symmetric] by auto
    next
      case False
      define fc' where "fc' = fc[i := slot_input m (nth fc) i]"
      have same: "slot_input m (nth fc') i' = slot_input m (nth fc) i'"
        if "i' \<in> walked m f (Suc k)" for i'
        using that slot_input_update [OF f _ k] by (auto simp: fc'_def walked_def i_def less_Suc_eq_le)
      have step: "walk_slot i (m', fc, c) = (m', fc', fc' ! i)"
        using False att i len by (simp add: walk_slot_def node fc'_def Let_def flip: inp)
      have "nodes (insert i (walked m f k)) (nth fc') = nodes (walked m f k) (nth fc)"
        using False same by (auto simp: nodes_def slot_pushed_def Let_def W)
      moreover have "(n_cable_bits (m_node m ! j) > 0 \<longrightarrow> fc' ! j = cable_head (m_node m ! j)) \<and>
          (n_cable_bits (m_node m ! j) = 0 \<longrightarrow> j \<in> insert i (walked m f k) \<longrightarrow>
           fc' ! j = slot_input m (nth fc') j)" if "j < m_slots m" "n_attached (m_node m ! j)" for j
        using fc [OF that] same [of j] that False len i unfolding W
        by (cases "j = i") (auto simp: fc'_def)
      ultimately have "walk_inv m f (Suc k) (m', fc', fc' ! i)"
        using att len
        unfolding walk_inv_def up W m' nodes_def [symmetric]
        by (auto simp: fc'_def)
      then show ?thesis unfolding i_def [symmetric] step .
    qed
  qed
qed

lemma fold_walk_inv:
  assumes f: "f < m_slots m" "n_attached (m_node m ! f)" "node_in_ring (n_bypass (m_node m ! f))"
    and m: "m_slots m \<le> length (m_node m)" and k: "k \<le> m_slots m"
  shows "walk_inv m f k (fold (\<lambda>step. walk_slot ((f + step) mod m_slots m)) [0..<k]
    (m, cable_outputs m, c))"
  using k
proof (induction k)
  case 0
  then show ?case using walk_inv_start [OF m] by simp
next
  case (Suc k)
  then have k: "k < m_slots m" by simp
  obtain m' fc c' where st: "fold (\<lambda>step. walk_slot ((f + step) mod m_slots m)) [0..<k]
      (m, cable_outputs m, c) = (m', fc, c')" by (metis prod_cases3)
  with Suc have "walk_inv m f k (m', fc, c')" by simp
  from walk_inv_step [OF f m k this] show ?case by (simp add: st)
qed

lemma attached_upstream_cong:
  assumes "m_slots m' = m_slots m" "length (m_node m') = length (m_node m)"
    and "m_slots m \<le> length (m_node m)"
    and "\<And>i. i < length (m_node m) \<Longrightarrow> n_attached (m_node m' ! i) = n_attached (m_node m ! i)"
    and "i < m_slots m"
  shows "attached_upstream_of m' i = attached_upstream_of m i"
proof -
  have "find (\<lambda>step. n_attached (m_node m' ! ((i + m_slots m - step) mod m_slots m))) [1..<m_slots m + 1] =
    find (\<lambda>step. n_attached (m_node m ! ((i + m_slots m - step) mod m_slots m))) [1..<m_slots m + 1]"
    using assms by (intro find_cong refl assms(4)) (auto intro: less_le_trans [OF mod_less_divisor])
  then show ?thesis unfolding attached_upstream_of_def assms(1) by (rule ssubst) (rule refl)
qed

lemma fold_receive:
  assumes "m_slots m \<le> length (m_node m)" "k \<le> m_slots m"
  shows "fold (receive_slot fc) [0..<k] m =
    m\<lparr>m_node := map (\<lambda>i. if i < k \<and> n_attached (m_node m ! i)
                        then (m_node m ! i)\<lparr>n_received := slot_heard m (nth fc) i\<rparr>
                        else m_node m ! i) [0..<length (m_node m)]\<rparr>"
  using assms(2)
proof (induction k)
  case 0
  then show ?case by (simp add: map_nth)
next
  case (Suc k)
  let ?m = "m\<lparr>m_node := map (\<lambda>i. if i < k \<and> n_attached (m_node m ! i)
                        then (m_node m ! i)\<lparr>n_received := slot_heard m (nth fc) i\<rparr>
                        else m_node m ! i) [0..<length (m_node m)]\<rparr>"
  have up: "attached_upstream_of ?m k = attached_upstream_of m k"
    using Suc.prems assms(1) by (intro attached_upstream_cong) auto
  have node: "m_node ?m ! k = m_node m ! k" using Suc.prems assms(1) by simp
  have "receive_slot fc k ?m = (if n_attached (m_node m ! k)
      then upd_node k (\<lambda>n. n\<lparr>n_received := slot_heard m (nth fc) k\<rparr>) ?m else ?m)"
    unfolding receive_slot_def node up upd_node_def by (simp add: slot_heard_def)
  also have "\<dots> = m\<lparr>m_node := map (\<lambda>i. if i < Suc k \<and> n_attached (m_node m ! i)
                        then (m_node m ! i)\<lparr>n_received := slot_heard m (nth fc) i\<rparr>
                        else m_node m ! i) [0..<length (m_node m)]\<rparr>"
    using Suc.prems assms(1)
    unfolding upd_node_def node
    by (intro ring_medium.equality) (auto simp: nth_list_update less_Suc_eq intro!: nth_equalityI)
  finally show ?case using Suc by simp
qed

lemma slot_pushed_fields [simp]:
  "n_attached (slot_pushed m g i) = n_attached (m_node m ! i)"
  "n_bypass (slot_pushed m g i) = n_bypass (m_node m ! i)"
  "n_driving (slot_pushed m g i) = n_driving (m_node m ! i)"
  by (simp_all add: slot_pushed_def cable_push_def Let_def)

lemma slot_pushed_detached [simp]: "\<not> n_attached (m_node m ! i) \<Longrightarrow> slot_pushed m g i = m_node m ! i"
  by (simp add: slot_pushed_def Let_def)

text \<open>The clock of a ring with a node in it.\<close>

lemma advance_solves:
  assumes wf: "wf_medium m"
    and a: "i < m_slots m" "n_attached (m_node m ! i)" "node_in_ring (n_bypass (m_node m ! i))"
  shows "\<exists>out. ring_solution m out \<and> medium_advance m = ring_clocked m out"
proof -
  have len: "m_slots m \<le> length (m_node m)" using wf by (simp add: wf_medium_def)
  define P where "P = (\<lambda>i. n_attached (m_node m ! i) \<and> node_in_ring (n_bypass (m_node m ! i)))"
  have "find P [0..<m_slots m] \<noteq> None" using a by (auto simp: find_slot_None P_def)
  then obtain f where f: "find P [0..<m_slots m] = Some f" by blast
  then have start: "walk_start m = Some f" by (simp add: walk_start_def P_def)
  have ff: "f < m_slots m" "n_attached (m_node m ! f)" "node_in_ring (n_bypass (m_node m ! f))"
    using find_slot_Some [OF f] by (simp_all add: P_def)
  define c where "c = cable_outputs m ! attached_upstream_of m f"
  obtain m' fc c' where st: "fold (\<lambda>step. walk_slot ((f + step) mod m_slots m)) [0..<m_slots m]
      (m, cable_outputs m, c) = (m', fc, c')" by (metis prod_cases3)
  have inv: "walk_inv m f (m_slots m) (m', fc, c')"
    using fold_walk_inv [OF ff len order_refl, of c] by (simp add: st)
  have all: "i \<in> walked m f (m_slots m) \<longleftrightarrow> i < m_slots m" for i
    using walked_all [of m f] a by auto
  have m': "m' = m\<lparr>m_node := map (\<lambda>i. if i < m_slots m then slot_pushed m (nth fc) i
      else m_node m ! i) [0..<length (m_node m)]\<rparr>"
    using inv by (simp add: walk_inv_def all)
  have sol: "ring_solution m (nth fc)"
    using inv by (auto simp: walk_inv_def all ring_solution_def)
  have heard: "slot_heard m' (nth fc) i = slot_heard m (nth fc) i" if "i < m_slots m" for i
  proof -
    have "attached_upstream_of m' i = attached_upstream_of m i"
      using that len by (intro attached_upstream_cong) (simp_all add: m')
    then show ?thesis using that len by (simp add: slot_heard_def m')
  qed
  have "medium_advance m = (fold (receive_slot fc) [0..<m_slots m] m')\<lparr>m_bit_time := m_bit_time m' + 1\<rparr>"
  proof -
    have "m_bit_time (fold (receive_slot fc) [0..<m_slots m] m') = m_bit_time m'"
      using fold_receive [of m' "m_slots m" fc] len by (simp add: m')
    moreover have "m_slots m' = m_slots m" by (simp add: m')
    ultimately show ?thesis
      using a by (simp add: medium_advance_def start Let_def st flip: c_def)
  qed
  also have "fold (receive_slot fc) [0..<m_slots m] m' =
      m'\<lparr>m_node := map (\<lambda>i. if i < m_slots m \<and> n_attached (m_node m' ! i)
                          then (m_node m' ! i)\<lparr>n_received := slot_heard m' (nth fc) i\<rparr>
                          else m_node m' ! i) [0..<length (m_node m')]\<rparr>"
    using len by (intro fold_receive) (simp_all add: m')
  finally have "medium_advance m = ring_clocked m (nth fc)"
    using len heard
    by (intro ring_medium.equality) (auto simp: ring_clocked_def m' intro!: nth_equalityI)
  with sol show ?thesis by blast
qed

section \<open>Every operation keeps the invariant\<close>

lemma wf_cable_push: "wf_node n \<Longrightarrow> wf_node (cable_push n c)"
  by (simp add: wf_node_def cable_push_def Let_def)

lemma wf_walk_slot:
  "wf_medium m \<Longrightarrow> i < m_slots m \<Longrightarrow>
   wf_medium (fst (walk_slot i (m, fc, c))) \<and> m_slots (fst (walk_slot i (m, fc, c))) = m_slots m"
  by (auto simp: walk_slot_def Let_def wf_cable_push intro!: wf_upd_node)
    (simp_all add: upd_node_def)

lemma wf_receive_slot:
  "wf_medium m \<Longrightarrow> i < m_slots m \<Longrightarrow>
   wf_medium (receive_slot fc i m) \<and> m_slots (receive_slot fc i m) = m_slots m"
  by (auto simp: receive_slot_def wf_node_def intro!: wf_upd_node) (simp_all add: upd_node_def)

lemma wf_fold_walk:
  assumes "wf_medium (fst st)" "m_slots (fst st) = n" "\<forall>s \<in> set ss. g s < n"
  shows "wf_medium (fst (fold (\<lambda>s. walk_slot (g s)) ss st)) \<and>
    m_slots (fst (fold (\<lambda>s. walk_slot (g s)) ss st)) = n"
  using assms
proof (induction ss arbitrary: st)
  case (Cons s ss)
  obtain m fc c where "st = (m, fc, c)" by (metis prod_cases3)
  with Cons wf_walk_slot [of m "g s" fc c] show ?case by simp
qed simp

lemma wf_fold_receive:
  assumes "wf_medium m" "m_slots m = n" "\<forall>s \<in> set ss. s < n"
  shows "wf_medium (fold (receive_slot fc) ss m)"
  using assms by (induction ss arbitrary: m) (auto dest: wf_receive_slot)

lemma walk_start_less: "walk_start m = Some f \<Longrightarrow> f < m_slots m"
  by (auto simp: walk_start_def split: option.splits dest: find_slot_Some)

lemma wf_bit_time: "wf_medium (m_bit_time_update f m) = wf_medium m"
  by (simp add: wf_medium_def)

lemma wf_medium_advance:
  assumes "wf_medium m" shows "wf_medium (medium_advance m)"
proof (cases "m_slots m = 0 \<or> walk_start m = None")
  case True
  then show ?thesis using assms by (auto simp: medium_advance_def wf_bit_time)
next
  case False
  then obtain f where f: "walk_start m = Some f" and n: "0 < m_slots m" by auto
  let ?c = "cable_outputs m ! attached_upstream_of m f"
  obtain m' fc c' where st: "fold (\<lambda>step. walk_slot ((f + step) mod m_slots m)) [0..<m_slots m]
      (m, cable_outputs m, ?c) = (m', fc, c')" by (metis prod_cases3)
  have "wf_medium m' \<and> m_slots m' = m_slots m"
    using wf_fold_walk [of "(m, cable_outputs m, ?c)" "m_slots m" "[0..<m_slots m]"
        "\<lambda>step. (f + step) mod m_slots m"] assms n st by simp
  then show ?thesis
    using n f st by (simp add: medium_advance_def Let_def wf_bit_time wf_fold_receive)
qed

section \<open>Lengths as sums\<close>

definition node_length :: "ring_node \<Rightarrow> nat" where
  "node_length n = (if n_attached n then n_cable_bits n + of_bool (node_in_ring (n_bypass n)) else 0)"

lemma circumference_sum: "medium_circumference_bits m = (\<Sum>i < m_slots m. node_length (m_node m ! i))"
proof -
  have "fold (\<lambda>i total. if \<not> n_attached (m_node m ! i) then total
         else let total = total + n_cable_bits (m_node m ! i)
              in if node_in_ring (n_bypass (m_node m ! i)) then total + 1 else total) [0..<k] 0 =
        (\<Sum>i < k. node_length (m_node m ! i))" for k
    by (induction k) (auto simp: node_length_def Let_def)
  then show ?thesis by (simp add: medium_circumference_bits_def)
qed

definition node_plant :: "ring_node \<Rightarrow> nat" where
  "node_plant n = (if n_attached n then 1 + n_cable_bits n else 0)"

lemma plant_sum: "medium_plant_bits m = (\<Sum>i < m_slots m. node_plant (m_node m ! i))"
proof -
  have "fold (\<lambda>i total. if \<not> n_attached (m_node m ! i) then total
         else total + (1 + n_cable_bits (m_node m ! i))) [0..<k] 0 =
        (\<Sum>i < k. node_plant (m_node m ! i))" for k
    by (induction k) (auto simp: node_plant_def)
  then show ?thesis by (simp add: medium_plant_bits_def)
qed

lemma sum_upd_one:
  fixes f :: "ring_node \<Rightarrow> nat"
  assumes "i < n" "n \<le> length xs"
  shows "(\<Sum>j < n. f (xs[i := x] ! j)) + f (xs ! i) = (\<Sum>j < n. f (xs ! j)) + f x"
proof -
  have "(\<Sum>j \<in> {..<n} - {i}. f (xs[i := x] ! j)) = (\<Sum>j \<in> {..<n} - {i}. f (xs ! j))"
    by (rule sum.cong) auto
  then show ?thesis
    using assms by (simp add: sum.remove [of "{..<n}" i])
qed

section \<open>Properties\<close>

text \<open>C4: one bit clock of a ring with at least one node in it solves the ring's equations. There
  is an assignment \<open>out\<close> of a cell to every attached slot's outgoing cable, where a cable with
  storage delivers its oldest cell and a bare link what is put into it, an inserted node puts in
  what it drives and a bypassed one what reaches it from the nearest attached slot upstream; and
  the clock pushes every input, lets an inserted node hear its upstream cable and a bypassed one
  its own transmitter, and counts the bit time. The order of the walk is therefore immaterial.\<close>

theorem medium_advance_ring_equations:
  assumes "wf_medium m"
    and "i < m_slots m" and "n_attached (m_node m ! i)" and "node_in_ring (n_bypass (m_node m ! i))"
  shows "\<exists>out. ring_solution m out \<and> medium_advance m = ring_clocked m out"
  by (rule advance_solves [OF assms])

definition two_nodes :: ring_medium where
  "two_nodes = medium_set_bypass (medium_set_cable_bits
     (snd (medium_attach (snd (medium_attach medium_init)))) 1 3) 1 True"

lemma wf_two_nodes: "wf_medium two_nodes"
  by (simp add: two_nodes_def wf_medium_slot_ops wf_medium_attach wf_medium_init)

lemma medium_advance_ring_equations_witness:
  "wf_medium two_nodes \<and>
   (\<exists>out. ring_solution two_nodes out \<and> medium_advance two_nodes = ring_clocked two_nodes out)"
proof
  have "m_slots two_nodes = 2 \<and> n_attached (m_node two_nodes ! 0) \<and>
      node_in_ring (n_bypass (m_node two_nodes ! 0))"
    by (simp add: two_nodes_def medium_init_def medium_attach_def upd_node_def MAX_NODES_def
        medium_set_cable_bits_def medium_set_bypass_def valid_slot_def MAX_CABLE_BITS_def
        fresh_node_def zero_node_def node_in_ring_def)
  then show "\<exists>out. ring_solution two_nodes out \<and> medium_advance two_nodes = ring_clocked two_nodes out"
    using medium_advance_ring_equations [OF wf_two_nodes, of 0] by simp
qed (rule wf_two_nodes)

text \<open>Every operation of the medium, the clock included, keeps its invariant: sixty-four
  slots, every line of its full length, no cable longer than its line, nothing attached beyond
  the slots in use.\<close>

theorem medium_operations_keep_wf:
  assumes "wf_medium m"
  shows "wf_medium (snd (medium_attach m)) \<and> wf_medium (medium_detach m slot) \<and>
    wf_medium (medium_set_cable_bits m slot bits) \<and> wf_medium (medium_set_bypass m slot b) \<and>
    wf_medium (medium_transmit m slot cell) \<and> wf_medium (medium_advance m)"
  using assms by (simp add: wf_medium_attach wf_medium_slot_ops wf_medium_advance)

lemma medium_operations_keep_wf_witness:
  "wf_medium (medium_advance medium_init) \<and> wf_medium (medium_detach medium_init 3)"
  using medium_operations_keep_wf [OF wf_medium_init] by blast

text \<open>Throwing the relays of an attached node takes exactly its one retiming bit out of the
  ring and not a bit of its cable: the circumference drops by one and the cable plant keeps its
  length.\<close>

theorem bypass_shortens_by_one_bit:
  assumes "wf_medium m" and "i < m_slots m" and "n_attached (m_node m ! i)"
    and "node_in_ring (n_bypass (m_node m ! i))"
  shows "medium_circumference_bits (medium_set_bypass m (int i) True) + 1 = medium_circumference_bits m \<and>
    medium_plant_bits (medium_set_bypass m (int i) True) = medium_plant_bits m"
proof -
  let ?n = "m_node m ! i"
  let ?n' = "?n\<lparr>n_bypass := \<lparr>bypassed = True\<rparr>\<rparr>"
  have m': "medium_set_bypass m (int i) True = m\<lparr>m_node := (m_node m)[i := ?n']\<rparr>"
    using assms by (simp add: medium_set_bypass_def valid_slot_def upd_node_def)
  have len: "m_slots m \<le> length (m_node m)" using assms(1) by (simp add: wf_medium_def)
  have "node_length ?n = node_length ?n' + 1" "node_plant ?n' = node_plant ?n"
    using assms by (simp_all add: node_length_def node_plant_def node_in_ring_def)
  with sum_upd_one [OF assms(2) len, of node_length ?n']
    sum_upd_one [OF assms(2) len, of node_plant ?n']
  show ?thesis by (simp add: m' circumference_sum plant_sum)
qed

lemma bypass_shortens_by_one_bit_witness:
  "medium_circumference_bits (medium_set_bypass (snd (medium_attach medium_init)) (int 0) True) + 1 =
     medium_circumference_bits (snd (medium_attach medium_init)) \<and>
   medium_plant_bits (medium_set_bypass (snd (medium_attach medium_init)) (int 0) True) =
     medium_plant_bits (snd (medium_attach medium_init))"
  using wf_medium_attach [OF wf_medium_init]
  by (intro bypass_shortens_by_one_bit)
    (simp_all add: medium_init_def medium_attach_def upd_node_def MAX_NODES_def
      fresh_node_def zero_node_def node_in_ring_def)

text \<open>Attaching takes the first free slot of the cable order (a slot a node has left before a
  new one), gives it fresh relays and an empty cable, touches no other slot, and fails only when
  all sixty-four are attached.\<close>

theorem medium_attach_first_free:
  assumes "wf_medium m"
  shows "case medium_attach m of (slot, m') \<Rightarrow>
    (if slot = -1 then m' = m \<and> (\<forall>i < MAX_NODES. n_attached (m_node m ! i))
     else nat slot < MAX_NODES \<and> \<not> n_attached (m_node m ! nat slot) \<and>
       (\<forall>i < nat slot. n_attached (m_node m ! i)) \<and>
       m_node m' = (m_node m)[nat slot := fresh_node] \<and>
       m_slots m' = max (m_slots m) (Suc (nat slot)))"
proof (cases "find (\<lambda>i. \<not> n_attached (m_node m ! i)) [0..<m_slots m]")
  case None
  then have "\<forall>i < m_slots m. n_attached (m_node m ! i)" by (simp add: find_slot_None)
  then show ?thesis
    using wf_mediumD [OF assms] by (auto simp: medium_attach_def None upd_node_def)
next
  case (Some i)
  then show ?thesis
    using find_slot_Some [OF Some] wf_mediumD [OF assms] by (auto simp: medium_attach_def upd_node_def)
qed

lemma medium_attach_first_free_witness:
  "(\<forall>i < nat (fst (medium_attach medium_init)). n_attached (m_node medium_init ! i)) \<and>
   fst (medium_attach medium_init) = 0"
proof -
  have "fst (medium_attach medium_init) = 0" by (simp add: medium_attach_def medium_init_def MAX_NODES_def)
  with medium_attach_first_free [OF wf_medium_init] show ?thesis by (simp split: prod.splits)
qed

definition bypassed_pair :: ring_medium where
  "bypassed_pair = medium_set_bypass (medium_set_bypass (medium_set_cable_bits
     (snd (medium_attach (snd (medium_attach medium_init)))) 0 1) 0 True) 1 True"

lemma bypassed_pair_facts:
  "m_slots bypassed_pair = 2" "length (m_node bypassed_pair) = 64"
  "n_attached (m_node bypassed_pair ! 0)" "n_attached (m_node bypassed_pair ! 1)"
  "\<not> node_in_ring (n_bypass (m_node bypassed_pair ! 0))"
  "\<not> node_in_ring (n_bypass (m_node bypassed_pair ! 1))"
  "n_cable_bits (m_node bypassed_pair ! 0) = 1" "n_cable_bits (m_node bypassed_pair ! 1) = 0"
  "attached_upstream_of bypassed_pair 0 = 1" "attached_upstream_of bypassed_pair 1 = 0"
  "length (n_line (m_node bypassed_pair ! 0)) = 64"
  by code_simp+

lemma bypassed_pair_advance:
  "cable_head (m_node bypassed_pair ! 0) \<noteq> zero_cell"
  "cable_content (m_node (medium_advance bypassed_pair) ! 0) = [zero_cell]"
  by code_simp+

text \<open>A segment with no node in the ring loses what is on its cable when the link leading
  into the first attached slot is a bare wire. Two bypassed nodes, a one-bit cable after the
  first and none after the second: the cell the cable delivers should go round and re-enter it,
  and the clock pushes a dead cell instead, so this clock solves the ring's equations in no way.\<close>

theorem all_bypassed_drops_stored_cell:
  "cable_head (m_node bypassed_pair ! 0) \<noteq> zero_cell \<and>
   cable_content (m_node (medium_advance bypassed_pair) ! 0) = [zero_cell] \<and>
   \<not> (\<exists>out. ring_solution bypassed_pair out \<and>
            medium_advance bypassed_pair = ring_clocked bypassed_pair out)"
proof (intro conjI notI)
  assume "\<exists>out. ring_solution bypassed_pair out \<and>
    medium_advance bypassed_pair = ring_clocked bypassed_pair out"
  then obtain out where sol: "ring_solution bypassed_pair out"
    and adv: "medium_advance bypassed_pair = ring_clocked bypassed_pair out" by blast
  have "out 0 = cable_head (m_node bypassed_pair ! 0)" "out 1 = out 0"
    using sol [unfolded ring_solution_def, rule_format, of 0]
      sol [unfolded ring_solution_def, rule_format, of 1]
    by (simp_all add: bypassed_pair_facts [simplified] slot_input_def)
  then have "slot_input bypassed_pair out 0 = cable_head (m_node bypassed_pair ! 0)"
    by (simp add: slot_input_def bypassed_pair_facts [simplified])
  then have "cable_content (m_node (medium_advance bypassed_pair) ! 0) =
      [cable_head (m_node bypassed_pair ! 0)]"
    by (simp add: adv ring_clocked_def slot_pushed_def bypassed_pair_facts [simplified] cable_content_def
        cable_push_def Let_def)
  then show False using bypassed_pair_advance by simp
qed (simp_all add: bypassed_pair_advance)

end
