(* ===== verification/Ring_Station.thy ===== *)
theory Ring_Station
  imports Ring_Framer Ring_Medium
begin

unbundle bit_operations_syntax

text \<open>
  \<^verbatim>\<open>src/core/ring/ap_ring_station.{h,c}\<close>: a ring station, one b time at a time. It drives the
  b it received last (or the queued frame, or a token it originates, or a Zero while it
  strips), claims a passing free token by turning its last b into a One, and reads the passing
  stream to capture a frame addressed to it and to set the acknowledge bits in flight.

  The members of \<open>ap_ring_station_t\<close> keep their names behind \<open>s_\<close>. A lent buffer is a list
  (\<open>None\<close> before one is lent); \<open>uint64_t\<close> counters are \<open>u64\<close>, the \<open>unsigned\<close> counters the code
  does not bound are \<open>u32\<close>, and the positions and lengths it does bound are \<open>nat\<close>.
  \<open>ap_ring_station_receive\<close> is \<open>station_receive\<close>, composed of the decoding of the cell
  (\<open>decode_cell\<close>) and of the blocks of its body that follow: \<open>shift_window\<close>, \<open>strip_watch\<close>,
  \<open>token_watch\<close>, \<open>track_frame\<close>.
\<close>

definition STRIP_TIMEOUT_BITS :: u64 where "STRIP_TIMEOUT_BITS = 16384 * 8"
definition TOKEN_LOSS_TIMEOUT_BITS :: u64 where "TOKEN_LOSS_TIMEOUT_BITS = STRIP_TIMEOUT_BITS"

datatype rx_state = RX_IDLE | RX_AWAIT_SEPARATOR | RX_HEADER | RX_BODY | RX_FCS | RX_LATE

record station =
  s_slot :: int
  s_tx_bits :: "u8 list option"
  s_tx_capacity :: nat
  s_tx_bit_count :: nat
  s_tx_bit_pos :: nat
  s_tx_armed :: bool
  s_address :: u32
  s_rx_state :: rx_state
  s_rx_ones_run :: u32
  s_rx_bit_count :: nat
  s_rx_byte :: u8
  s_rx_header :: "u8 list"
  s_rx_header_len :: nat
  s_rx_addressed :: bool
  s_rx_buffer :: "u8 list option"
  s_rx_capacity :: nat
  s_rx_bytes :: nat
  s_rx_header_bytes :: nat
  s_rx_overrun :: bool
  s_rx_header_bits :: u32
  s_rx_flipped_parity :: bool
  s_rx_separators :: u32
  s_rx_fcs_bits :: nat
  s_rx_late_bits :: nat
  s_rx_late :: u8
  s_receive_enabled :: bool
  s_rx_frame_error :: bool
  s_frames_copied :: u64
  s_frames_wacked :: u64
  s_frames_seen :: u64
  s_frames_addressed :: u64
  s_tx_seen_own_frame_start :: bool
  s_tx_stripped_own :: nat
  s_tx_ack :: u8
  s_tx_ack_valid :: bool
  s_window :: u16
  s_bits_seen :: nat
  s_pending_bit :: bool
  s_pending_valid :: bool
  s_tx_level :: bool
  s_rx_level :: bool
  s_rx_level_valid :: bool
  s_wants_ring :: bool
  s_holds_ring :: bool
  s_stripping :: bool
  s_saw_biphase_error :: bool
  s_bits_since_token :: u64
  s_bits_stripping :: u64
  s_strip_timeouts :: u64
  s_forced_tokens :: u64
  s_originate_symbol :: u16
  s_originate_left :: nat
  s_tokens_seen :: u64
  s_claims_made :: u64
  s_bits_forwarded :: u64

text \<open>\<open>(ap_ring_station_t){0}\<close>.\<close>

definition zero_station :: station where
  "zero_station = \<lparr>s_slot = 0, s_tx_bits = None, s_tx_capacity = 0, s_tx_bit_count = 0,
     s_tx_bit_pos = 0, s_tx_armed = False, s_address = 0, s_rx_state = RX_IDLE, s_rx_ones_run = 0,
     s_rx_bit_count = 0, s_rx_byte = 0, s_rx_header = replicate 8 0, s_rx_header_len = 0,
     s_rx_addressed = False, s_rx_buffer = None, s_rx_capacity = 0, s_rx_bytes = 0,
     s_rx_header_bytes = 0, s_rx_overrun = False, s_rx_header_bits = 0, s_rx_flipped_parity = False,
     s_rx_separators = 0, s_rx_fcs_bits = 0, s_rx_late_bits = 0, s_rx_late = 0,
     s_receive_enabled = False, s_rx_frame_error = False, s_frames_copied = 0, s_frames_wacked = 0,
     s_frames_seen = 0, s_frames_addressed = 0, s_tx_seen_own_frame_start = False,
     s_tx_stripped_own = 0, s_tx_ack = 0, s_tx_ack_valid = False, s_window = 0, s_bits_seen = 0,
     s_pending_bit = False, s_pending_valid = False, s_tx_level = False, s_rx_level = False,
     s_rx_level_valid = False, s_wants_ring = False, s_holds_ring = False, s_stripping = False,
     s_saw_biphase_error = False, s_bits_since_token = 0, s_bits_stripping = 0,
     s_strip_timeouts = 0, s_forced_tokens = 0, s_originate_symbol = 0, s_originate_left = 0,
     s_tokens_seen = 0, s_claims_made = 0, s_bits_forwarded = 0\<rparr>"

definition station_init :: "int \<Rightarrow> station" where
  "station_init slot = zero_station\<lparr>s_slot := slot, s_receive_enabled := True\<rparr>"

definition station_set_address :: "u32 \<Rightarrow> station \<Rightarrow> station" where
  "station_set_address address s = s\<lparr>s_address := address\<rparr>"

definition station_set_receive_enabled :: "bool \<Rightarrow> station \<Rightarrow> station" where
  "station_set_receive_enabled enabled s = s\<lparr>s_receive_enabled := enabled\<rparr>"

definition station_attach_tx :: "u8 list option \<Rightarrow> nat \<Rightarrow> station \<Rightarrow> station" where
  "station_attach_tx bytes capacity s =
     s\<lparr>s_tx_bits := bytes, s_tx_capacity := capacity, s_tx_bit_count := 0, s_tx_bit_pos := 0,
       s_tx_armed := False\<rparr>"

definition station_attach_rx :: "u8 list option \<Rightarrow> nat \<Rightarrow> station \<Rightarrow> station" where
  "station_attach_rx bytes capacity s =
     s\<lparr>s_rx_buffer := bytes, s_rx_capacity := capacity, s_rx_bytes := 0, s_rx_overrun := False\<rparr>"

text \<open>The frame is emitted into the lent buffer, so a refused frame may leave bits in it.\<close>

definition station_queue_frame :: "frame_fields \<Rightarrow> station \<Rightarrow> bool \<times> station" where
  "station_queue_frame fs s =
     (case s_tx_bits s of
        None \<Rightarrow> (False, s)
      | Some bytes \<Rightarrow>
          let (ok, w) = frame_emit (bitwriter_init bytes (s_tx_capacity s)) fs;
              s = s\<lparr>s_tx_bits := Some (w_bytes w)\<rparr>
          in if \<not> ok then (False, s)
             else (True, s\<lparr>s_tx_bit_count := w_bit_count w, s_tx_bit_pos := 0, s_tx_armed := True,
                           s_tx_seen_own_frame_start := False, s_tx_stripped_own := 0,
                           s_tx_ack := 0, s_tx_ack_valid := False, s_wants_ring := True\<rparr>))"

definition station_transmitted :: "station \<Rightarrow> bool" where
  "station_transmitted s \<longleftrightarrow>
     \<not> s_tx_armed s \<and> s_tx_bit_count s > 0 \<and> s_tx_bit_pos s \<ge> s_tx_bit_count s"

definition station_transmit_ack :: "station \<Rightarrow> u8 option" where
  "station_transmit_ack s = (if \<not> s_tx_ack_valid s then None else Some (s_tx_ack s))"

definition station_originate_token :: "u16 \<Rightarrow> station \<Rightarrow> station" where
  "station_originate_token symbol s =
     s\<lparr>s_originate_symbol := symbol, s_originate_left := OOB_BITS\<rparr>"

definition window_holds_free_token :: "station \<Rightarrow> bool" where
  "window_holds_free_token s \<longleftrightarrow> s_bits_seen s \<ge> OOB_BITS \<and> s_window s = OOB_FREE_TOKEN"

definition station_at_symbol :: "station \<Rightarrow> u16 option" where
  "station_at_symbol s =
     (if s_bits_seen s < OOB_BITS then None
      else if \<not> oob_well_formed (s_window s) then None
      else Some (s_window s))"

section \<open>Driving\<close>

text \<open>The bit to drive before stripping is considered: \<open>(bit, claimed_now, originated_now)\<close>.\<close>

definition drive_choose :: "station \<Rightarrow> (bool \<times> bool \<times> bool) \<times> station" where
  "drive_choose s =
     (if s_originate_left s > 0 then
        let shift = s_originate_left s - 1
        in ((testbit (s_originate_symbol s) shift, False, True),
            s\<lparr>s_originate_left := s_originate_left s - 1\<rparr>)
      else if s_pending_valid s then
        if s_wants_ring s \<and> \<not> s_holds_ring s \<and> window_holds_free_token s
        then ((True, True, False),
              s\<lparr>s_holds_ring := True, s_wants_ring := False, s_claims_made := s_claims_made s + 1,
                s_stripping := True, s_bits_stripping := 0,
                s_bits_forwarded := s_bits_forwarded s + 1\<rparr>)
        else ((s_pending_bit s, False, False), s\<lparr>s_bits_forwarded := s_bits_forwarded s + 1\<rparr>)
      else ((False, False, False), s))"

text \<open>One more stripped bit, and the 10.9 ms timeout.\<close>

definition strip_count :: "station \<Rightarrow> station" where
  "strip_count s =
     (let s = s\<lparr>s_bits_stripping := s_bits_stripping s + 1\<rparr>
      in if s_bits_stripping s \<ge> STRIP_TIMEOUT_BITS
         then s\<lparr>s_stripping := False, s_holds_ring := False, s_strip_timeouts := s_strip_timeouts s + 1\<rparr>
         else s)"

definition transmit_bit :: "bool \<Rightarrow> station \<Rightarrow> ring_medium \<Rightarrow> station \<times> ring_medium" where
  "transmit_bit b s m =
     (let cell = biphase_encode b (s_tx_level s)
      in (s\<lparr>s_tx_level := cell_trailing_level cell\<rparr>, medium_transmit m (s_slot s) cell))"

text \<open>The next bit of the queued frame; after the last one a free token is queued to follow.\<close>

definition drive_frame_bit :: "station \<Rightarrow> bool \<times> station" where
  "drive_frame_bit s =
     (let i = s_tx_bit_pos s;
          b = testbit (the (s_tx_bits s) ! (i div 8)) (7 - i mod 8);
          s = s\<lparr>s_tx_bit_pos := i + 1\<rparr>;
          s = (if s_tx_bit_pos s \<ge> s_tx_bit_count s
               then station_originate_token OOB_FREE_TOKEN (s\<lparr>s_tx_armed := False\<rparr>) else s)
      in (b, strip_count s))"

text \<open>With no token on the ring for the timeout, a station that wants it forces one.\<close>

definition force_token :: "station \<Rightarrow> station" where
  "force_token s =
     (if s_wants_ring s \<and> \<not> s_holds_ring s \<and> s_originate_left s = 0 \<and>
         s_bits_since_token s \<ge> TOKEN_LOSS_TIMEOUT_BITS
      then (station_originate_token OOB_CLAIMED_TOKEN s)
             \<lparr>s_holds_ring := True, s_wants_ring := False,
              s_forced_tokens := s_forced_tokens s + 1, s_bits_since_token := 0,
              s_stripping := True, s_bits_stripping := 0\<rparr>
      else s)"

definition station_drive :: "station \<Rightarrow> ring_medium \<Rightarrow> station \<times> ring_medium" where
  "station_drive s m =
     (let ((b, claimed_now, originated_now), s) = drive_choose s
      in if s_stripping s \<and> \<not> claimed_now \<and> \<not> originated_now then
           if s_tx_armed s \<and> s_tx_bit_pos s < s_tx_bit_count s then
             let (b, s) = drive_frame_bit s in transmit_bit b s m
           else transmit_bit False (force_token (strip_count s)) m
         else transmit_bit b (force_token s) m)"

section \<open>Receiving\<close>

definition decode_cell :: "ring_cell \<Rightarrow> station \<Rightarrow> bool \<times> station" where
  "decode_cell cell s =
     (let s = (if \<not> s_rx_level_valid s
               then s\<lparr>s_rx_level := \<not> clock_window cell, s_rx_level_valid := True\<rparr> else s);
          (b, error) = biphase_decode cell (s_rx_level s);
          s = (if error then s\<lparr>s_saw_biphase_error := True, s_rx_frame_error := True\<rparr> else s)
      in (b, s\<lparr>s_rx_level := cell_trailing_level cell\<rparr>))"

definition shift_window :: "bool \<Rightarrow> station \<Rightarrow> station" where
  "shift_window b s =
     (let s = s\<lparr>s_window := (push_bit 1 (s_window s) OR of_bool b) AND 0x1FF\<rparr>
      in if s_bits_seen s < OOB_BITS then s\<lparr>s_bits_seen := s_bits_seen s + 1\<rparr> else s)"

definition strip_watch :: "station \<Rightarrow> station" where
  "strip_watch s =
     (if s_stripping s \<and> s_tx_bit_count s > 0 then
        if \<not> s_tx_seen_own_frame_start s then
          if station_at_symbol s = Some OOB_FRAME_START
          then s\<lparr>s_tx_seen_own_frame_start := True, s_tx_stripped_own := 0\<rparr> else s
        else if s_tx_stripped_own s + OOB_BITS \<ge> s_tx_bit_count s
        then s\<lparr>s_stripping := False, s_holds_ring := False, s_tx_seen_own_frame_start := False\<rparr>
        else s\<lparr>s_tx_stripped_own := s_tx_stripped_own s + 1\<rparr>
      else s)"

definition token_watch :: "station \<Rightarrow> station" where
  "token_watch s =
     (let s = s\<lparr>s_bits_since_token := s_bits_since_token s + 1\<rparr>
      in case station_at_symbol s of
           Some symbol \<Rightarrow>
             if symbol = OOB_FREE_TOKEN \<or> symbol = OOB_CLAIMED_TOKEN
             then let s = s\<lparr>s_bits_since_token := 0\<rparr>
                  in if symbol = OOB_FREE_TOKEN then s\<lparr>s_tokens_seen := s_tokens_seen s + 1\<rparr> else s
             else s
         | None \<Rightarrow> s)"

definition frame_started :: "station \<Rightarrow> station" where
  "frame_started s =
     s\<lparr>s_rx_state := RX_AWAIT_SEPARATOR, s_rx_addressed := False, s_rx_flipped_parity := False,
       s_rx_separators := 0, s_rx_frame_error := False, s_frames_seen := s_frames_seen s + 1\<rparr>"

definition separator_passed :: "station \<Rightarrow> station" where
  "separator_passed s =
     (let s = s\<lparr>s_rx_separators := s_rx_separators s + 1\<rparr>;
          s = (if s_rx_separators s = 2
               then s\<lparr>s_rx_header_bytes := s_rx_bytes s, s_rx_ones_run := 0, s_rx_bit_count := 0,
                      s_rx_byte := 0\<rparr> else s)
      in if s_rx_separators s = 3
         then s\<lparr>s_rx_state := RX_FCS, s_rx_fcs_bits := 0, s_rx_ones_run := 0, s_rx_late_bits := 0,
                s_rx_late := 0\<rparr>
         else if s_rx_separators s = 1
         then s\<lparr>s_rx_state := RX_HEADER, s_rx_ones_run := 0, s_rx_bit_count := 0, s_rx_byte := 0,
                s_rx_header_len := 0, s_rx_header_bits := 0, s_rx_bytes := 0,
                s_rx_header_bytes := 0, s_rx_overrun := False\<rparr>
         else s\<lparr>s_rx_state := RX_BODY\<rparr>)"

text \<open>\<open>stuffed\<close> and the update of the run, shared by the three branches that destuff.\<close>

definition destuff :: "bool \<Rightarrow> station \<Rightarrow> bool \<times> station" where
  "destuff b s =
     (s_rx_ones_run s \<ge> 5 \<and> \<not> b,
      s\<lparr>s_rx_ones_run := (if b then s_rx_ones_run s + 1 else 0)\<rparr>)"

text \<open>The late acknowledge bit at position \<open>pos\<close> (0 is b 7) as this station sends it on.\<close>

definition late_out :: "station \<Rightarrow> nat \<Rightarrow> bool \<Rightarrow> bool" where
  "late_out s pos b =
     (if s_rx_addressed s \<and> pos = 1 \<and> s_receive_enabled s then True
      else if s_rx_addressed s \<and> pos = 2 \<and> \<not> s_receive_enabled s then True
      else if s_rx_addressed s \<and> pos = 4 then True
      else if s_rx_frame_error s \<and> pos = 5 then True
      else if pos = 6
      then even (fold (\<lambda>i ones. if testbit (s_rx_late s) i then ones + 1 else ones) [0..<6] (0::nat))
      else b)"

definition late_bit :: "bool \<Rightarrow> station \<Rightarrow> bool \<times> station" where
  "late_bit b s =
     (let out = late_out s (s_rx_late_bits s) b;
          s = s\<lparr>s_rx_late := push_bit 1 (s_rx_late s) OR of_bool out,
                s_rx_late_bits := s_rx_late_bits s + 1\<rparr>
      in if s_rx_late_bits s \<ge> 8 then
           let s = (if s_rx_addressed s \<and> \<not> s_stripping s
                    then if s_receive_enabled s then s\<lparr>s_frames_copied := s_frames_copied s + 1\<rparr>
                         else s\<lparr>s_frames_wacked := s_frames_wacked s + 1\<rparr>
                    else s);
               s = (if s_stripping s \<and> s_tx_seen_own_frame_start s
                    then s\<lparr>s_tx_ack := s_rx_late s, s_tx_ack_valid := True\<rparr> else s)
           in (out, s\<lparr>s_rx_state := RX_IDLE\<rparr>)
         else (out, s))"

definition trailer_bit :: "bool \<Rightarrow> station \<Rightarrow> bool \<times> station" where
  "trailer_bit b s =
     (let (stuffed, s) = destuff b s
      in if stuffed then (b, s)
         else if s_rx_state s = RX_FCS
         then let s = s\<lparr>s_rx_fcs_bits := s_rx_fcs_bits s + 1\<rparr>
              in (b, if s_rx_fcs_bits s \<ge> 40 then s\<lparr>s_rx_state := RX_LATE\<rparr> else s)
         else late_bit b s)"

text \<open>The early acknowledge bit as it is forwarded.\<close>

definition early_out :: "u32 \<Rightarrow> bool \<Rightarrow> station \<Rightarrow> bool \<times> station" where
  "early_out data_bit b s =
     (if s_rx_addressed s \<and> data_bit \<ge> 56 \<and> data_bit < 64 then
        let in_byte = data_bit - 56
        in if in_byte = 4 then
             if \<not> b then (True, s\<lparr>s_rx_flipped_parity := True\<rparr>) else (b, s)
           else if in_byte = 6 \<and> s_rx_flipped_parity s then (\<not> b, s)
           else (b, s)
      else (b, s))"

text \<open>A whole byte into the lent buffer, or the overrun flag.\<close>

definition capture_byte :: "station \<Rightarrow> station" where
  "capture_byte s =
     (if s_rx_bytes s < s_rx_capacity s
      then s\<lparr>s_rx_buffer := map_option (\<lambda>buf. buf[s_rx_bytes s := s_rx_byte s]) (s_rx_buffer s),
             s_rx_bytes := s_rx_bytes s + 1\<rparr>
      else if s_rx_buffer s \<noteq> None then s\<lparr>s_rx_overrun := True\<rparr> else s)"

text \<open>The receive decision, once six header bytes are there.\<close>

definition decide_addressed :: "station \<Rightarrow> station" where
  "decide_addressed s =
     (let h = s_rx_header s;
          dest = push_bit 24 (ucast (h ! 0)) OR push_bit 16 (ucast (h ! 1)) OR
                 push_bit 8 (ucast (h ! 2)) OR ucast (h ! 3);
          type = push_bit 8 (ucast (h ! 5)) OR ucast (h ! 4);
          s = s\<lparr>s_rx_addressed := (type AND TYPE_BROADCAST \<noteq> 0 \<or> dest = s_address s)\<rparr>
      in if s_rx_addressed s then s\<lparr>s_frames_addressed := s_frames_addressed s + 1\<rparr> else s)"

text \<open>A header byte is complete: into the eight kept, into the lent buffer, and the decision.\<close>

definition header_byte_done :: "station \<Rightarrow> station" where
  "header_byte_done s =
     (let s = (if s_rx_header_len s < 8
               then s\<lparr>s_rx_header := (s_rx_header s)[s_rx_header_len s := s_rx_byte s],
                      s_rx_header_len := s_rx_header_len s + 1\<rparr> else s);
          s = (capture_byte s)\<lparr>s_rx_bit_count := 0, s_rx_byte := 0\<rparr>
      in if s_rx_header_len s = 6 then decide_addressed s else s)"

definition header_bit :: "bool \<Rightarrow> station \<Rightarrow> bool \<times> station" where
  "header_bit b s =
     (let (stuffed, s) = destuff b s
      in if stuffed then (b, s)
         else
           let data_bit = s_rx_header_bits s;
               s = s\<lparr>s_rx_header_bits := s_rx_header_bits s + 1\<rparr>;
               (out, s) = early_out data_bit b s;
               s = s\<lparr>s_rx_byte := push_bit 1 (s_rx_byte s) OR of_bool b,
                     s_rx_bit_count := s_rx_bit_count s + 1\<rparr>
           in (out, if s_rx_bit_count s = 8 then header_byte_done s else s))"

definition body_bit :: "bool \<Rightarrow> station \<Rightarrow> station" where
  "body_bit b s =
     (let (stuffed, s) = destuff b s
      in if stuffed then s
         else let s = s\<lparr>s_rx_byte := push_bit 1 (s_rx_byte s) OR of_bool b,
                        s_rx_bit_count := s_rx_bit_count s + 1\<rparr>
              in if s_rx_bit_count s = 8
                 then (capture_byte s)\<lparr>s_rx_bit_count := 0, s_rx_byte := 0\<rparr> else s)"

text \<open>The passing stream: the bit forwarded next and the station.\<close>

definition track_frame :: "bool \<Rightarrow> station \<Rightarrow> bool \<times> station" where
  "track_frame b s =
     (if station_at_symbol s = Some OOB_FRAME_START then (b, frame_started s)
      else if station_at_symbol s = Some OOB_SEPARATOR \<and> s_rx_state s \<noteq> RX_IDLE
      then (b, separator_passed s)
      else if s_rx_state s = RX_FCS \<or> s_rx_state s = RX_LATE then trailer_bit b s
      else if s_rx_state s = RX_HEADER then header_bit b s
      else if s_rx_state s = RX_BODY then (b, body_bit b s)
      else (b, s))"

text \<open>Everything \<open>ap_ring_station_receive\<close> does once the cell is decoded.\<close>

definition station_take_bit :: "bool \<Rightarrow> station \<Rightarrow> station" where
  "station_take_bit b s =
     (let s = token_watch (strip_watch (shift_window b s));
          (forward_bit, s) = track_frame b s
      in s\<lparr>s_pending_bit := forward_bit, s_pending_valid := True\<rparr>)"

definition station_receive :: "station \<Rightarrow> ring_medium \<Rightarrow> station" where
  "station_receive s m =
     (let (b, s) = decode_cell (medium_receive m (s_slot s)) s in station_take_bit b s)"

section \<open>The invariant of a station\<close>

text \<open>Holding the ring and stripping are one event; stripping is bounded by the timeout; a frame
  is armed only with bits left to drive, in a buffer that holds them; the assembler and the
  capture stay inside the byte, the eight header bytes and the lent buffer.\<close>

definition wf_tx :: "station \<Rightarrow> bool" where
  "wf_tx s \<longleftrightarrow>
     (case s_tx_bits s of None \<Rightarrow> \<not> s_tx_armed s
      | Some bytes \<Rightarrow> s_tx_capacity s \<le> length bytes \<and>
          (s_tx_armed s \<longrightarrow> s_tx_bit_pos s < s_tx_bit_count s \<and> s_tx_bit_count s \<le> 8 * s_tx_capacity s))"

definition wf_rx :: "station \<Rightarrow> bool" where
  "wf_rx s \<longleftrightarrow> s_rx_bit_count s < 8 \<and> length (s_rx_header s) = 8 \<and> s_rx_header_len s \<le> 8 \<and>
     s_rx_fcs_bits s \<le> 40 \<and> s_rx_late_bits s \<le> 8 \<and> (s_rx_state s = RX_LATE \<longrightarrow> s_rx_late_bits s < 8) \<and>
     (s_rx_state s = RX_FCS \<longrightarrow> s_rx_late_bits s = 0 \<and> s_rx_fcs_bits s < 40) \<and>
     s_rx_bytes s \<le> s_rx_capacity s \<and>
     (case s_rx_buffer s of None \<Rightarrow> s_rx_capacity s = 0 | Some buf \<Rightarrow> s_rx_capacity s \<le> length buf)"

definition wf_ring :: "station \<Rightarrow> bool" where
  "wf_ring s \<longleftrightarrow> s_holds_ring s = s_stripping s \<and>
     (s_stripping s \<longrightarrow> s_bits_stripping s < STRIP_TIMEOUT_BITS) \<and>
     s_originate_left s \<le> OOB_BITS \<and> s_bits_seen s \<le> OOB_BITS"

definition wf_station :: "station \<Rightarrow> bool" where
  "wf_station s \<longleftrightarrow> wf_tx s \<and> wf_rx s \<and> wf_ring s"

lemmas wf_station_defs = wf_station_def wf_tx_def wf_rx_def wf_ring_def

lemma wf_station_init: "wf_station (station_init slot)"
  by (simp add: wf_station_defs station_init_def zero_station_def)

lemma frame_emit_writer:
  assumes "wf_writer w" "fields_ok fs" "frame_emit w fs = (ok, w')"
  shows "wf_writer w' \<and> w_capacity w' = w_capacity w \<and> (ok \<longrightarrow> w_bit_count w < w_bit_count w')"
proof (cases "header_length_valid (ff_header_bytes fs) \<and> data_length_valid (ff_data_bytes fs)")
  case False
  then show ?thesis using assms by (auto simp: frame_emit_def)
next
  case True
  then have ok: "ok = (\<not> w_overflow w')" using assms(3) by (auto simp: frame_emit_def Let_def)
  obtain run where s: "sends w (fields_wire fs) run w'"
    using sends_frame [OF assms(1,2)] True assms(3) by auto
  moreover have "0 < length (fields_wire fs)" by (simp add: fields_wire_def frame_wire_def)
  ultimately show ?thesis using sends_count [OF s] ok by (auto simp: sends_def)
qed

lemma wf_queue_frame:
  assumes "wf_station s" "fields_ok fs"
  shows "wf_station (snd (station_queue_frame fs s))"
proof (cases "s_tx_bits s")
  case None
  then show ?thesis using assms by (simp add: station_queue_frame_def)
next
  case (Some bytes)
  obtain ok w where e: "frame_emit (bitwriter_init bytes (s_tx_capacity s)) fs = (ok, w)" by fastforce
  have "wf_writer (bitwriter_init bytes (s_tx_capacity s))"
    using assms(1) Some by (intro wf_bitwriter_init) (simp add: wf_station_defs)
  from frame_emit_writer [OF this assms(2) e] have w: "wf_writer w" "w_capacity w = s_tx_capacity s"
    "ok \<Longrightarrow> 0 < w_bit_count w" by (auto simp: bitwriter_init_def)
  show ?thesis
  proof (cases ok)
    case True
    with w assms(1) Some e show ?thesis
      by (auto simp: station_queue_frame_def Let_def wf_station_defs wf_writer_def split: option.splits)
  next
    case False
    with w assms(1) Some e show ?thesis
      by (auto simp: station_queue_frame_def Let_def wf_station_defs wf_writer_def split: option.splits)
  qed
qed

lemma bits_stripping_Suc:
  "\<lbrakk>a < STRIP_TIMEOUT_BITS; \<not> STRIP_TIMEOUT_BITS \<le> a + 1\<rbrakk> \<Longrightarrow> a + 1 < STRIP_TIMEOUT_BITS"
  by simp

lemma strip_timeout_pos: "0 < STRIP_TIMEOUT_BITS"
  by (simp add: STRIP_TIMEOUT_BITS_def)

lemma wf_drive_choose:
  "wf_station s \<Longrightarrow> wf_station (snd (drive_choose s))"
  by (auto simp: drive_choose_def Let_def wf_station_defs strip_timeout_pos split: option.splits)

lemma wf_strip_count: "wf_station s \<Longrightarrow> wf_station (strip_count s)"
  by (auto simp: strip_count_def Let_def wf_station_defs split: option.splits)

lemma wf_force_token: "wf_station s \<Longrightarrow> wf_station (force_token s)"
  by (auto simp: force_token_def station_originate_token_def wf_station_defs strip_timeout_pos
      split: option.splits)

lemma wf_drive_frame_bit:
  assumes "wf_station s" "s_tx_armed s"
  shows "wf_station (snd (drive_frame_bit s))"
proof -
  have "wf_station (let s = s\<lparr>s_tx_bit_pos := s_tx_bit_pos s + 1\<rparr>
      in if s_tx_bit_pos s \<ge> s_tx_bit_count s
         then station_originate_token OOB_FREE_TOKEN (s\<lparr>s_tx_armed := False\<rparr>) else s)"
    using assms by (auto simp: Let_def station_originate_token_def wf_station_defs split: option.splits)
  from wf_strip_count [OF this] show ?thesis by (simp add: drive_frame_bit_def Let_def)
qed

lemma wf_tx_level: "wf_station (s_tx_level_update f s) = wf_station s"
  by (simp add: wf_station_defs split: option.split)

lemma wf_station_drive:
  assumes "wf_station s" shows "wf_station (fst (station_drive s m))"
proof -
  obtain b c g s1 where ch: "drive_choose s = ((b, c, g), s1)" by (metis surj_pair)
  then have wf: "wf_station s1" using wf_drive_choose [OF assms] by simp
  have t: "wf_station (fst (transmit_bit b s m)) = wf_station s" for b s
    by (simp add: transmit_bit_def Let_def wf_tx_level)
  show ?thesis
    using wf wf_drive_frame_bit [OF wf]
    by (auto simp: station_drive_def ch t wf_force_token wf_strip_count split: prod.split)
qed

section \<open>Receiving keeps the invariant\<close>

lemma wf_decode_cell: "wf_station s \<Longrightarrow> wf_station (snd (decode_cell cell s))"
  by (auto simp: decode_cell_def Let_def wf_station_defs split: prod.split option.splits)

lemma wf_shift_window: "wf_station s \<Longrightarrow> wf_station (shift_window b s)"
  by (auto simp: shift_window_def Let_def wf_station_defs split: option.splits)

lemma wf_strip_watch: "wf_station s \<Longrightarrow> wf_station (strip_watch s)"
  by (auto simp: strip_watch_def wf_station_defs split: option.splits)

lemma wf_token_watch: "wf_station s \<Longrightarrow> wf_station (token_watch s)"
  by (auto simp: token_watch_def Let_def wf_station_defs split: option.splits)

lemma wf_separator_passed: "wf_station s \<Longrightarrow> wf_station (separator_passed s)"
  by (auto simp: separator_passed_def Let_def wf_station_defs split: option.splits)

lemma wf_frame_started: "wf_station s \<Longrightarrow> wf_station (frame_started s)"
  by (auto simp: frame_started_def wf_station_defs split: option.splits)

lemma wf_ones_run: "wf_station (s_rx_ones_run_update f s) = wf_station s"
  by (simp add: wf_station_defs split: option.split)

lemma wf_ack_fields:
  "wf_station (s_frames_copied_update f s) = wf_station s"
  "wf_station (s_frames_wacked_update f s) = wf_station s"
  "wf_station (s_tx_ack_update g s) = wf_station s"
  "wf_station (s_tx_ack_valid_update h s) = wf_station s"
  by (simp_all add: wf_station_defs split: option.split)

lemma wf_late_bit:
  assumes "wf_station s" "s_rx_state s = RX_LATE"
  shows "wf_station (snd (late_bit b s))"
proof -
  define s1 where "s1 = s\<lparr>s_rx_late := push_bit 1 (s_rx_late s) OR of_bool (late_out s (s_rx_late_bits s) b),
                s_rx_late_bits := s_rx_late_bits s + 1\<rparr>"
  have idle: "wf_station (s1\<lparr>s_rx_state := RX_IDLE\<rparr>)"
    using assms by (auto simp: s1_def wf_station_defs split: option.splits)
  have less: "wf_station s1" if "\<not> s_rx_late_bits s1 \<ge> 8"
    using assms that by (auto simp: s1_def wf_station_defs split: option.splits)
  have swap: "s_rx_state_update f (s_frames_copied_update g t) = s_frames_copied_update g (s_rx_state_update f t)"
    "s_rx_state_update f (s_frames_wacked_update g t) = s_frames_wacked_update g (s_rx_state_update f t)"
    "s_rx_state_update f (s_tx_ack_update k t) = s_tx_ack_update k (s_rx_state_update f t)"
    "s_rx_state_update f (s_tx_ack_valid_update h t) = s_tx_ack_valid_update h (s_rx_state_update f t)"
    for f g h k t by simp_all
  show ?thesis
    unfolding late_bit_def s1_def [symmetric] Let_def
    using idle less by (simp add: if_distrib [of "s_rx_state_update _"] swap wf_ack_fields cong: if_cong)
qed

lemma wf_trailer_bit:
  assumes wf: "wf_station s" and st: "s_rx_state s = RX_FCS \<or> s_rx_state s = RX_LATE"
  shows "wf_station (snd (trailer_bit b s))"
proof -
  obtain stuffed s1 where d: "destuff b s = (stuffed, s1)" by fastforce
  have s1: "wf_station s1" "s_rx_state s1 = s_rx_state s"
    using wf d by (auto simp: destuff_def wf_ones_run)
  have "wf_station (let s = s1\<lparr>s_rx_fcs_bits := s_rx_fcs_bits s1 + 1\<rparr> in
      if s_rx_fcs_bits s \<ge> 40 then s\<lparr>s_rx_state := RX_LATE\<rparr> else s)" if "s_rx_fcs_bits s1 < 40" "s_rx_state s1 = RX_FCS"
    using s1 that by (auto simp: Let_def wf_station_defs split: option.splits)
  moreover have "s_rx_fcs_bits s1 < 40" if "s_rx_state s1 = RX_FCS"
    using s1 that by (simp add: wf_station_def wf_rx_def)
  ultimately show ?thesis
    using s1 st wf_late_bit [of s1 b] by (auto simp: trailer_bit_def d Let_def)
qed

lemma wf_capture_byte: "wf_station s \<Longrightarrow> wf_station (capture_byte s)"
  by (auto simp: capture_byte_def wf_station_defs split: option.splits)

lemma wf_decide_addressed: "wf_station s \<Longrightarrow> wf_station (decide_addressed s)"
  by (auto simp: decide_addressed_def Let_def wf_station_defs split: option.splits)

text \<open>The end of a byte: what both assemblers do with it.\<close>

lemma wf_byte_end:
  "wf_station s \<Longrightarrow> wf_station (s\<lparr>s_rx_bit_count := 0, s_rx_byte := v\<rparr>)"
  "wf_station s \<Longrightarrow> wf_station (s_rx_byte_update f s)"
  "wf_station s \<Longrightarrow> wf_station (s_rx_header_bits_update g s)"
  "wf_station s \<Longrightarrow> wf_station (s_rx_flipped_parity_update h s)"
  by (auto simp: wf_station_defs split: option.splits)

lemma wf_next_bit:
  "wf_station s \<Longrightarrow> s_rx_bit_count s + 1 \<noteq> 8 \<Longrightarrow>
   wf_station (s\<lparr>s_rx_byte := v, s_rx_bit_count := s_rx_bit_count s + 1\<rparr>)"
  by (auto simp: wf_station_defs split: option.splits)

lemma wf_capture_end:
  "wf_station (s\<lparr>s_rx_bit_count := 0\<rparr>) \<Longrightarrow> wf_station ((capture_byte s)\<lparr>s_rx_bit_count := 0, s_rx_byte := v\<rparr>)"
  by (auto simp: capture_byte_def wf_station_defs split: option.splits)

lemma wf_count_0:
  "wf_station s \<Longrightarrow> wf_station (s\<lparr>s_rx_byte := v, s_rx_bit_count := n, s_rx_bit_count := 0\<rparr>)"
  by (auto simp: wf_station_defs split: option.splits)

lemma wf_body_bit:
  assumes "wf_station s" shows "wf_station (body_bit b s)"
proof -
  obtain stuffed s1 where d: "destuff b s = (stuffed, s1)" by fastforce
  have s1: "wf_station s1" using assms d by (auto simp: destuff_def wf_ones_run)
  define s2 where "s2 = s1\<lparr>s_rx_byte := push_bit 1 (s_rx_byte s1) OR of_bool b,
      s_rx_bit_count := s_rx_bit_count s1 + 1\<rparr>"
  have "s_rx_bit_count s2 \<noteq> 8 \<Longrightarrow> wf_station s2"
    unfolding s2_def by (rule wf_next_bit [OF s1]) simp
  moreover have "wf_station (s2\<lparr>s_rx_bit_count := 0\<rparr>)"
    unfolding s2_def by (rule wf_count_0 [OF s1])
  ultimately show ?thesis
    using s1 wf_capture_end [of s2 0]
    unfolding body_bit_def d Let_def prod.case s2_def [symmetric] by simp
qed

lemma wf_header_byte_done:
  assumes "wf_station (s\<lparr>s_rx_bit_count := 0\<rparr>)" shows "wf_station (header_byte_done s)"
proof -
  define s1 where "s1 = (if s_rx_header_len s < 8
      then s\<lparr>s_rx_header := (s_rx_header s)[s_rx_header_len s := s_rx_byte s],
             s_rx_header_len := s_rx_header_len s + 1\<rparr> else s)"
  have "wf_station (s1\<lparr>s_rx_bit_count := 0\<rparr>)"
    using assms by (auto simp: s1_def wf_station_defs split: option.splits)
  from wf_capture_end [OF this, of 0] show ?thesis
    unfolding header_byte_done_def s1_def [symmetric] Let_def by (simp add: wf_decide_addressed)
qed

lemma wf_early_out: "wf_station s \<Longrightarrow> wf_station (snd (early_out k b s))"
  by (simp add: early_out_def Let_def wf_byte_end)

lemma wf_header_bit:
  assumes "wf_station s" shows "wf_station (snd (header_bit b s))"
proof -
  obtain stuffed s1 where d: "destuff b s = (stuffed, s1)" by fastforce
  have s1: "wf_station s1" using assms d by (auto simp: destuff_def wf_ones_run)
  obtain out s2 where e: "early_out (s_rx_header_bits s1) b
      (s1\<lparr>s_rx_header_bits := s_rx_header_bits s1 + 1\<rparr>) = (out, s2)" by fastforce
  have s2: "wf_station s2"
    using wf_early_out [of "s1\<lparr>s_rx_header_bits := s_rx_header_bits s1 + 1\<rparr>"
        "s_rx_header_bits s1" b] e s1 by (simp add: wf_byte_end)
  define s3 where "s3 = s2\<lparr>s_rx_byte := push_bit 1 (s_rx_byte s2) OR of_bool b,
      s_rx_bit_count := s_rx_bit_count s2 + 1\<rparr>"
  have "s_rx_bit_count s3 \<noteq> 8 \<Longrightarrow> wf_station s3"
    unfolding s3_def by (rule wf_next_bit [OF s2]) simp
  moreover have "wf_station (s3\<lparr>s_rx_bit_count := 0\<rparr>)"
    unfolding s3_def by (rule wf_count_0 [OF s2])
  ultimately show ?thesis
    using s1 wf_header_byte_done [of s3]
    unfolding header_bit_def d Let_def prod.case e s3_def [symmetric] by simp
qed

lemma wf_station_take_bit:
  assumes "wf_station s" shows "wf_station (station_take_bit b s)"
proof -
  define s1 where "s1 = token_watch (strip_watch (shift_window b s))"
  have s1: "wf_station s1"
    unfolding s1_def by (intro wf_token_watch wf_strip_watch wf_shift_window assms)
  have "wf_station (snd (track_frame b s1))"
    using s1 by (simp add: track_frame_def wf_frame_started wf_separator_passed wf_trailer_bit
        wf_header_bit wf_body_bit)
  moreover have "wf_station (t\<lparr>s_pending_bit := p, s_pending_valid := True\<rparr>) = wf_station t" for t p
    by (simp add: wf_station_defs split: option.split)
  ultimately show ?thesis
    by (cases "track_frame b s1") (simp add: station_take_bit_def s1_def [symmetric] Let_def)
qed

lemma wf_station_receive: "wf_station s \<Longrightarrow> wf_station (station_receive s m)"
  using wf_decode_cell [of s "medium_receive m (s_slot s)"]
  by (cases "decode_cell (medium_receive m (s_slot s)) s")
    (simp add: station_receive_def wf_station_take_bit)

section \<open>The late acknowledge field\<close>

text \<open>A bit function run over a list: the bits sent on and the last state.\<close>

fun run_bits :: "(bool \<Rightarrow> 's \<Rightarrow> bool \<times> 's) \<Rightarrow> bool list \<Rightarrow> 's \<Rightarrow> bool list \<times> 's" where
  "run_bits f [] s = ([], s)"
| "run_bits f (b # bs) s = (let (out, s) = f b s; (outs, s) = run_bits f bs s in (out # outs, s))"

text \<open>What a station sends on for the eight bits \<open>bs\<close> of a late acknowledge.\<close>

definition late_fields :: "station \<Rightarrow> bool list \<Rightarrow> bool list" where
  "late_fields s bs =
     (let a = s_rx_addressed s; en = s_receive_enabled s;
          d = [bs ! 0, a \<and> en \<or> bs ! 1, a \<and> \<not> en \<or> bs ! 2, bs ! 3, a \<or> bs ! 4,
               s_rx_frame_error s \<or> bs ! 5]
      in d @ [even (length (filter id d)), bs ! 7])"

lemma late_bit_inside:
  "s_rx_late_bits s < 7 \<Longrightarrow>
   late_bit b s = (late_out s (s_rx_late_bits s) b,
     s\<lparr>s_rx_late := shift_in (late_out s (s_rx_late_bits s) b) (s_rx_late s),
       s_rx_late_bits := s_rx_late_bits s + 1\<rparr>)"
  by (simp add: late_bit_def Let_def shift_in_def of_bool_def)

lemma parity_bit:
  fixes a b c d e f :: bool
  defines "w \<equiv> fold shift_in [a, b, c, d, e, f] (0 :: u8)"
  shows "fold (\<lambda>i ones. if testbit w i then ones + 1 else ones) [0..<6] (0::nat) =
    length (filter id [a, b, c, d, e, f])"
proof -
  have "bit w i = [a, b, c, d, e, f] ! (5 - i)" if "i < 6" for i
    using bit_fold_shift_in [of "[a, b, c, d, e, f]" i, where ?'a = 8] that
    by (simp add: w_def numeral_eq_Suc)
  from this [of 0] this [of 1] this [of 2] this [of 3] this [of 4] this [of 5]
  have "bit w 0 = f" "bit w 1 = e" "bit w 2 = d" "bit w 3 = c" "bit w 4 = b" "bit w 5 = a"
    by simp_all
  then show ?thesis by (simp add: numeral_eq_Suc)
qed

lemma late_out_6:
  "late_out s 6 g =
   even (fold (\<lambda>i ones. if testbit (s_rx_late s) i then ones + 1 else ones) [0..<6] (0::nat))"
  by (simp add: late_out_def)

text \<open>The record a station has after the first \<open>k\<close> bits of the field.\<close>

definition late_after :: "station \<Rightarrow> bool list \<Rightarrow> nat \<Rightarrow> station" where
  "late_after s bs k =
     s\<lparr>s_rx_late := fold shift_in (take k (late_fields s bs)) 0, s_rx_late_bits := k\<rparr>"

lemma late_out_fields:
  assumes "k < 7" shows "late_out (late_after s bs k) k (bs ! k) = late_fields s bs ! k"
proof (cases "k = 6")
  case True
  let ?d = "take 6 (late_fields s bs)"
  have "s_rx_late (late_after s bs 6) = fold shift_in ?d 0" by (simp add: late_after_def)
  moreover have "?d = [bs ! 0, s_rx_addressed s \<and> s_receive_enabled s \<or> bs ! 1,
      s_rx_addressed s \<and> \<not> s_receive_enabled s \<or> bs ! 2, bs ! 3, s_rx_addressed s \<or> bs ! 4,
      s_rx_frame_error s \<or> bs ! 5]"
    by (simp add: late_fields_def Let_def numeral_eq_Suc)
  ultimately have "late_out (late_after s bs 6) 6 (bs ! 6) = even (length (filter id ?d))"
    unfolding late_out_6 by (simp only: parity_bit)
  also have "\<dots> = late_fields s bs ! 6"
    by (simp add: late_fields_def Let_def nth_append numeral_eq_Suc)
  finally show ?thesis by (simp add: True)
next
  case False
  with assms consider "k = 0" | "k = 1" | "k = 2" | "k = 3" | "k = 4" | "k = 5" by linarith
  then show ?thesis
    by cases (auto simp: late_out_def late_after_def late_fields_def Let_def nth_append)
qed

lemma late_step:
  assumes "k < 7"
  shows "late_bit (bs ! k) (late_after s bs k) = (late_fields s bs ! k, late_after s bs (Suc k))"
proof -
  have "length (late_fields s bs) = 8" by (simp add: late_fields_def Let_def)
  then have "take (Suc k) (late_fields s bs) = take k (late_fields s bs) @ [late_fields s bs ! k]"
    using assms by (intro take_Suc_conv_app_nth) simp
  moreover have "s_rx_late_bits (late_after s bs k) = k" by (simp add: late_after_def)
  ultimately show ?thesis
    using assms late_bit_inside [of "late_after s bs k" "bs ! k"]
    by (simp add: late_out_fields) (simp add: late_after_def)
qed

lemma late_run_from:
  assumes "length bs = 8" "k \<le> 7"
  shows "run_bits late_bit (drop k bs) (late_after s bs k) =
    (take (7 - k) (drop k (late_fields s bs)) @ [fst (late_bit (bs ! 7) (late_after s bs 7))],
     snd (late_bit (bs ! 7) (late_after s bs 7)))"
  using assms(2)
proof (induction "7 - k" arbitrary: k)
  case 0
  then have "k = 7" by simp
  with assms(1) have "drop k bs = [bs ! 7]" by (simp add: Cons_nth_drop_Suc [symmetric])
  then show ?case by (simp add: \<open>k = 7\<close> split: prod.split)
next
  case (Suc j)
  then have k: "k < 7" and j: "j = 7 - Suc k" by auto
  have "drop k bs = bs ! k # drop (Suc k) bs" using k assms(1) by (simp add: Cons_nth_drop_Suc)
  moreover have "length (late_fields s bs) = 8" by (simp add: late_fields_def Let_def)
  then have "drop k (late_fields s bs) = late_fields s bs ! k # drop (Suc k) (late_fields s bs)"
    using k by (simp add: Cons_nth_drop_Suc)
  moreover have "7 - k = Suc (7 - Suc k)" using k by simp
  ultimately show ?case
    using Suc.hyps(1) [OF j] k by (simp add: late_step del: diff_Suc_Suc)
qed

lemma late_out_7: "late_out s 7 b = b"
  by (simp add: late_out_def)

lemma late_last:
  "late_bit b s = (late_out s (s_rx_late_bits s) b, snd (late_bit b s))"
  by (simp add: late_bit_def Let_def)

section \<open>Properties\<close>

text \<open>C19: every operation of a station keeps its invariant: a station holds the ring exactly
  while it strips, it never strips the timeout's 131072 bits or more, it drives only bits of a frame inside
  its lent buffer, and capture stays inside the byte assembler, the eight header bytes and the
  lent receive buffer.\<close>

theorem station_operations_keep_wf:
  assumes "wf_station s"
  shows "wf_station (fst (station_drive s m)) \<and> wf_station (station_receive s m) \<and>
    wf_station (station_originate_token symbol s) \<and> wf_station (station_set_address a s) \<and>
    wf_station (station_set_receive_enabled e s) \<and>
    (n \<le> length buf \<longrightarrow> wf_station (station_attach_tx (Some buf) n s) \<and>
                         wf_station (station_attach_rx (Some buf) n s)) \<and>
    (fields_ok fs \<longrightarrow> wf_station (snd (station_queue_frame fs s)))"
proof (intro conjI impI)
  show "wf_station (station_originate_token symbol s)" "wf_station (station_set_address a s)"
    "wf_station (station_set_receive_enabled e s)"
    using assms by (auto simp: station_originate_token_def station_set_address_def
        station_set_receive_enabled_def wf_station_defs split: option.splits)
  assume "n \<le> length buf"
  then show "wf_station (station_attach_tx (Some buf) n s)" "wf_station (station_attach_rx (Some buf) n s)"
    using assms by (auto simp: station_attach_tx_def station_attach_rx_def wf_station_defs
        split: option.splits)
qed (auto intro: assms wf_station_drive wf_station_receive wf_queue_frame)

lemma station_operations_keep_wf_witness:
  "wf_station (station_attach_rx (Some [0, 0, 0]) 2 (station_init 0)) \<and>
   wf_station (fst (station_drive (station_init 0) medium_init))"
  using station_operations_keep_wf [OF wf_station_init, where n = 2 and buf = "[0, 0, 0]"]
  by simp

text \<open>The late acknowledge as a station sends it on. An addressed station that may copy sets
  \<open>copied\<close> (bit 6), one that may not sets \<open>wait ack\<close> (bit 5), both set \<open>intend to copy\<close> (bit 3),
  a station that saw an error sets \<open>error\<close> (bit 2), no acknowledge already set is cleared, and the
  field it forwards has an odd number of Ones in bits 7 to 1, whatever arrived.\<close>

theorem late_acknowledge_forwarded:
  assumes "length bs = 8" and "s_rx_late_bits s = 0" and "s_rx_late s = 0"
  shows "fst (run_bits late_bit bs s) = late_fields s bs \<and>
    odd (length (filter id (take 7 (late_fields s bs))))"
proof
  have "late_after s bs 0 = s" using assms by (simp add: late_after_def)
  with late_run_from [OF assms(1), of 0 s]
  have "fst (run_bits late_bit bs s) =
      take 7 (late_fields s bs) @ [fst (late_bit (bs ! 7) (late_after s bs 7))]" by simp
  also have "fst (late_bit (bs ! 7) (late_after s bs 7)) = bs ! 7"
    by (subst late_last) (simp add: late_after_def late_out_7)
  also have "take 7 (late_fields s bs) @ [bs ! 7] = late_fields s bs"
    by (simp add: late_fields_def Let_def numeral_eq_Suc)
  finally show "fst (run_bits late_bit bs s) = late_fields s bs" .
  have "odd (length (filter id (take 7 (d @ [even (length (filter id d)), h]))))"
    if "length d = 6" for d h
    using that by simp
  then show "odd (length (filter id (take 7 (late_fields s bs))))"
    by (simp add: late_fields_def Let_def del: append.simps)
qed

lemma late_acknowledge_forwarded_witness:
  "fst (run_bits late_bit (bits_msb 8 (2 :: u8)) (station_init 0)) =
   late_fields (station_init 0) (bits_msb 8 (2 :: u8))"
  using late_acknowledge_forwarded [of "bits_msb 8 (2 :: u8)" "station_init 0"]
  by (simp add: station_init_def zero_station_def)

text \<open>Taking the ring. A station that drives a forwarded bit claims exactly when it wants the
  ring, does not hold it and the last nine bits it received are a free token; the bit it then
  drives is a One where the token's last bit was a Zero, so the nine bits on the wire are the
  claimed token, and it starts stripping with that very bit passed through.\<close>

theorem station_claims_free_token:
  assumes "s_originate_left s = 0" and "s_pending_valid s" and "\<not> s_stripping s"
    and "s_wants_ring s" and "\<not> s_holds_ring s" and "s_bits_since_token s < TOKEN_LOSS_TIMEOUT_BITS"
  shows "(if window_holds_free_token s
     then s_holds_ring (fst (station_drive s m)) \<and> s_stripping (fst (station_drive s m)) \<and>
          snd (station_drive s m) = medium_transmit m (s_slot s) (biphase_encode True (s_tx_level s)) \<and>
          token_claim (s_window s) = OOB_CLAIMED_TOKEN
     else \<not> s_holds_ring (fst (station_drive s m)) \<and> s_wants_ring (fst (station_drive s m)) \<and>
          snd (station_drive s m) =
            medium_transmit m (s_slot s) (biphase_encode (s_pending_bit s) (s_tx_level s)))"
  using assms
  by (auto simp: station_drive_def drive_choose_def transmit_bit_def force_token_def Let_def
      window_holds_free_token_def token_claim_def)

definition claiming_station :: station where
  "claiming_station = (station_init 1)\<lparr>s_pending_valid := True, s_wants_ring := True,
     s_bits_seen := 9, s_window := OOB_FREE_TOKEN\<rparr>"

lemma station_claims_free_token_witness:
  "s_holds_ring (fst (station_drive claiming_station medium_init))"
proof -
  have "window_holds_free_token claiming_station"
    by (simp add: window_holds_free_token_def claiming_station_def OOB_BITS_def)
  then show ?thesis
    using station_claims_free_token [of claiming_station medium_init]
    by (simp add: claiming_station_def station_init_def zero_station_def TOKEN_LOSS_TIMEOUT_BITS_def
        STRIP_TIMEOUT_BITS_def)
qed

text \<open>A refused frame does not leave an armed station idle. Asking for a frame of a length
  the ring does not permit reports failure, and leaves the frame queued before it armed with its
  bits all cleared: the buffer is cleared before the lengths are looked at.\<close>

theorem refused_frame_clears_armed_frame:
  assumes "s_tx_bits s = Some bytes" and "s_tx_capacity s = length bytes" and "s_tx_armed s"
    and "\<not> header_length_valid (ff_header_bytes fs)"
  shows "station_queue_frame fs s = (False, s\<lparr>s_tx_bits := Some (replicate (length bytes) 0)\<rparr>)"
  using assms by (simp add: station_queue_frame_def frame_emit_def bitwriter_init_def fold_clear)

lemma refused_frame_clears_armed_frame_witness:
  "station_queue_frame \<lparr>ff_header = [], ff_header_bytes = 0, ff_data = [], ff_data_bytes = 0,
       ff_late_acknowledge = 0\<rparr>
     ((station_init 0)\<lparr>s_tx_bits := Some [0xFD, 0x01], s_tx_capacity := 2, s_tx_bit_count := 16,
       s_tx_armed := True\<rparr>) =
   (False, (station_init 0)\<lparr>s_tx_bits := Some (replicate 2 0), s_tx_capacity := 2,
       s_tx_bit_count := 16, s_tx_armed := True\<rparr>)"
  using refused_frame_clears_armed_frame [of "(station_init 0)\<lparr>s_tx_bits := Some [0xFD, 0x01],
      s_tx_capacity := 2, s_tx_bit_count := 16, s_tx_armed := True\<rparr>" "[0xFD, 0x01]"
      "\<lparr>ff_header = [], ff_header_bytes = 0, ff_data = [], ff_data_bytes = 0, ff_late_acknowledge = 0\<rparr>"]
  by (simp add: header_length_valid_def HDR_FIXED_BYTES_def numeral_eq_Suc)

end
