(* ===== verification/State_Hash.thy ===== *)
theory State_Hash
  imports Time_Base
begin

text \<open>
  \<^verbatim>\<open>src/core/state/ap_hash.{h,c}\<close>: the state hash (FNV-1a, 64 bits, every typed field preceded
  by a width tag) and the dump that shares its traversal. The C \<open>FILE *out\<close> is the list of lines
  printed so far, \<open>None\<close> for a null pointer; a line keeps what \<open>fprintf\<close> is given.

  The lemmas show that the hash is FNV-1a over one byte stream, that the dump never changes it,
  that the stream of typed fields can be read back uniquely, and that a dump determines the hash.
\<close>

definition HASH_OFFSET_BASIS :: u64 where "HASH_OFFSET_BASIS = 14695981039346656037"
definition HASH_PRIME :: u64 where "HASH_PRIME = 1099511628211"

abbreviation (input) TAG_U8 :: u8 where "TAG_U8 \<equiv> 0x01"
abbreviation (input) TAG_U16 :: u8 where "TAG_U16 \<equiv> 0x02"
abbreviation (input) TAG_U32 :: u8 where "TAG_U32 \<equiv> 0x04"
abbreviation (input) TAG_U64 :: u8 where "TAG_U64 \<equiv> 0x08"
abbreviation (input) TAG_TIME :: u8 where "TAG_TIME \<equiv> 0x10"

datatype field_type = FU8 | FU16 | FU32 | FU64 | FTime | FBlob

datatype dump_line =
    Field "string option" nat field_type u64
  | Note "string option" string u64
  | Group "string option" string u64

record hash_state =
  h_h :: u64
  h_out :: "dump_line list option"
  h_scope :: "string option"
  h_index :: nat
  h_group :: "string option"

definition print :: "dump_line \<Rightarrow> hash_state \<Rightarrow> hash_state" where
  "print l st = st\<lparr>h_out := map_option (\<lambda>ls. ls @ [l]) (h_out st)\<rparr>"

definition hash_dump_to :: "dump_line list option \<Rightarrow> hash_state \<Rightarrow> hash_state" where
  "hash_dump_to out st = st\<lparr>h_out := out\<rparr>"

definition hash_scope :: "string option \<Rightarrow> hash_state \<Rightarrow> hash_state" where
  "hash_scope scope st = st\<lparr>h_scope := scope, h_index := 0\<rparr>"

definition hash_note_u32 :: "string \<Rightarrow> u32 \<Rightarrow> hash_state \<Rightarrow> hash_state" where
  "hash_note_u32 name v st =
     (if h_out st = None \<or> h_group st \<noteq> None then st
      else print (Note (h_scope st) name (ucast v)) st)"

definition hash_group_begin :: "string option \<Rightarrow> hash_state \<Rightarrow> hash_state" where
  "hash_group_begin name st = st\<lparr>h_group := name\<rparr>"

definition hash_group_end :: "hash_state \<Rightarrow> hash_state" where
  "hash_group_end st =
     (let name = h_group st; st = st\<lparr>h_group := None\<rparr>
      in case (h_out st, name) of
           (Some _, Some n) \<Rightarrow> print (Group (h_scope st) n (h_h st)) st
         | _ \<Rightarrow> st)"

definition emit :: "field_type \<Rightarrow> u64 \<Rightarrow> hash_state \<Rightarrow> hash_state" where
  "emit ty v st =
     (if h_out st = None \<or> h_group st \<noteq> None then st
      else (print (Field (h_scope st) (h_index st) ty v) st)\<lparr>h_index := h_index st + 1\<rparr>)"

definition hash_begin :: hash_state where
  "hash_begin = \<lparr>h_h = HASH_OFFSET_BASIS, h_out = None, h_scope = None, h_index = 0, h_group = None\<rparr>"

text \<open>One step of FNV-1a, the body shared by \<open>absorb\<close> and the loop of \<open>ap_hash_bytes\<close>.\<close>

definition fnv_step :: "u8 \<Rightarrow> u64 \<Rightarrow> u64" where
  "fnv_step b h = (h XOR ucast b) * HASH_PRIME"

definition hash_bytes :: "u8 list \<Rightarrow> hash_state \<Rightarrow> hash_state" where
  "hash_bytes data st =
     (let h = fold fnv_step data (h_h st) in emit FBlob h (st\<lparr>h_h := h\<rparr>))"

definition absorb :: "u8 \<Rightarrow> hash_state \<Rightarrow> hash_state" where
  "absorb b st = st\<lparr>h_h := fnv_step b (h_h st)\<rparr>"

definition absorb_le :: "u64 \<Rightarrow> nat \<Rightarrow> hash_state \<Rightarrow> hash_state" where
  "absorb_le v bytes = fold (\<lambda>i. absorb (ucast (drop_bit (8 * i) v AND 0xFF))) [0..<bytes]"

definition hash_u8 :: "u8 \<Rightarrow> hash_state \<Rightarrow> hash_state" where
  "hash_u8 v st = absorb v (absorb TAG_U8 (emit FU8 (ucast v) st))"

definition hash_u16 :: "u16 \<Rightarrow> hash_state \<Rightarrow> hash_state" where
  "hash_u16 v st = absorb_le (ucast v) 2 (absorb TAG_U16 (emit FU16 (ucast v) st))"

definition hash_u32 :: "u32 \<Rightarrow> hash_state \<Rightarrow> hash_state" where
  "hash_u32 v st = absorb_le (ucast v) 4 (absorb TAG_U32 (emit FU32 (ucast v) st))"

definition hash_u64 :: "u64 \<Rightarrow> hash_state \<Rightarrow> hash_state" where
  "hash_u64 v st = absorb_le v 8 (absorb TAG_U64 (emit FU64 v st))"

definition hash_time :: "u64 \<Rightarrow> hash_state \<Rightarrow> hash_state" where
  "hash_time t st = absorb_le t 8 (absorb TAG_TIME (emit FTime t st))"

definition hash_end :: "hash_state \<Rightarrow> u64" where
  "hash_end st = h_h st"

section \<open>A traversal as a list of calls\<close>

datatype hash_op =
    CU8 u8 | CU16 u16 | CU32 u32 | CU64 u64 | CTime u64 | CBytes "u8 list"
  | CScope "string option" | CNote string u32 | CGroupBegin string | CGroupEnd

fun hash_call :: "hash_op \<Rightarrow> hash_state \<Rightarrow> hash_state" where
  "hash_call (CU8 v) = hash_u8 v"
| "hash_call (CU16 v) = hash_u16 v"
| "hash_call (CU32 v) = hash_u32 v"
| "hash_call (CU64 v) = hash_u64 v"
| "hash_call (CTime v) = hash_time v"
| "hash_call (CBytes bs) = hash_bytes bs"
| "hash_call (CScope s) = hash_scope s"
| "hash_call (CNote s v) = hash_note_u32 s v"
| "hash_call (CGroupBegin s) = hash_group_begin (Some s)"
| "hash_call CGroupEnd = hash_group_end"

definition hash_run :: "hash_op list \<Rightarrow> hash_state \<Rightarrow> hash_state" where
  "hash_run calls = fold hash_call calls"

text \<open>The bytes a value contributes, little-endian, and a call's share of the stream.\<close>

definition le_bytes :: "u64 \<Rightarrow> nat \<Rightarrow> u8 list" where
  "le_bytes v n = map (\<lambda>i. ucast (drop_bit (8 * i) v)) [0..<n]"

fun call_bytes :: "hash_op \<Rightarrow> u8 list" where
  "call_bytes (CU8 v) = [TAG_U8, v]"
| "call_bytes (CU16 v) = TAG_U16 # le_bytes (ucast v) 2"
| "call_bytes (CU32 v) = TAG_U32 # le_bytes (ucast v) 4"
| "call_bytes (CU64 v) = TAG_U64 # le_bytes v 8"
| "call_bytes (CTime v) = TAG_TIME # le_bytes v 8"
| "call_bytes (CBytes bs) = bs"
| "call_bytes _ = []"

lemma emit_h [simp]: "h_h (emit ty v st) = h_h st" "h_group (emit ty v st) = h_group st"
  by (simp_all add: emit_def print_def)

lemma absorb_le_h: "h_h (absorb_le v n st) = fold fnv_step (le_bytes v n) (h_h st)"
proof -
  have "ucast (drop_bit (8 * i) v AND 0xFF) = (ucast (drop_bit (8 * i) v) :: u8)"
    for i and v :: u64
  proof (rule bit_word_eqI)
    have "(0xFF :: u64) = mask 8" by (simp add: mask_eq_exp_minus_1)
    then show "bit (ucast (drop_bit (8 * i) v AND 0xFF) :: u8) k = bit (ucast (drop_bit (8 * i) v) :: u8) k"
      if "k < LENGTH(8)" for k
      using that by (simp only: bit_unsigned_iff bit_and_iff bit_mask_iff) auto
  qed
  moreover have "h_h (fold (\<lambda>i. absorb (f i)) ks st) = fold fnv_step (map f ks) (h_h st)" for f ks
    by (induction ks arbitrary: st) (simp_all add: absorb_def)
  ultimately show ?thesis by (simp add: absorb_le_def le_bytes_def)
qed

lemma hash_call_h: "h_h (hash_call c st) = fold fnv_step (call_bytes c) (h_h st)"
proof -
  have "h_h (absorb b st) = fnv_step b (h_h st)" for b st by (simp add: absorb_def)
  then show ?thesis
    by (cases c) (simp_all add: hash_u8_def hash_u16_def hash_u32_def hash_u64_def hash_time_def
        absorb_le_h hash_bytes_def Let_def hash_scope_def hash_note_u32_def print_def
        hash_group_begin_def hash_group_end_def split: option.split)
qed

lemma hash_run_h: "h_h (hash_run cs st) = fold fnv_step (concat (map call_bytes cs)) (h_h st)"
  unfolding hash_run_def by (induction cs arbitrary: st) (simp_all add: hash_call_h)

section \<open>The step loses nothing\<close>

lemma prime_inverse: "x * HASH_PRIME * INVERSE = x" if "INVERSE = (14886173955864302971 :: u64)"
proof -
  have "HASH_PRIME * INVERSE = 1" by (simp add: HASH_PRIME_def that)
  then show ?thesis by (simp add: mult.assoc)
qed

lemma fnv_step_inj_state: "fnv_step b h = fnv_step b h' \<longleftrightarrow> h = h'"
proof
  assume "fnv_step b h = fnv_step b h'"
  then have "h XOR ucast b = h' XOR ucast b"
    unfolding fnv_step_def using prime_inverse [OF refl] by metis
  then have "(h XOR ucast b) XOR ucast b = (h' XOR ucast b) XOR ucast b" by simp
  then show "h = h'" by (simp add: xor.assoc)
qed simp

lemma fnv_step_inj_byte: "fnv_step b h = fnv_step b' h \<longleftrightarrow> b = b'"
proof
  assume "fnv_step b h = fnv_step b' h"
  then have "h XOR ucast b = h XOR ucast b'"
    unfolding fnv_step_def using prime_inverse [OF refl] by metis
  then have "h XOR (h XOR ucast b) = h XOR (h XOR ucast b')" by simp
  then have "(ucast b :: u64) = ucast b'" by (simp add: xor.assoc [symmetric])
  then have "(ucast (ucast b :: u64) :: u8) = ucast (ucast b' :: u64)" by simp
  then show "b = b'" by (simp add: ucast_down_ucast_id is_down)
qed simp

lemma fnv_fold_inj: "fold fnv_step bs h = fold fnv_step bs h' \<longleftrightarrow> h = h'"
  by (induction bs arbitrary: h h') (simp_all add: fnv_step_inj_state)

lemma fnv_fold_one_byte:
  assumes "i < length bs" "b \<noteq> bs ! i"
  shows "fold fnv_step (bs[i := b]) h \<noteq> fold fnv_step bs h"
proof -
  have "bs = take i bs @ bs ! i # drop (Suc i) bs" using assms by (simp add: id_take_nth_drop)
  then have "fold fnv_step bs h =
      fold fnv_step (drop (Suc i) bs) (fnv_step (bs ! i) (fold fnv_step (take i bs) h))"
    by (metis fold_append fold_simps(2) o_apply)
  moreover have "fold fnv_step (bs[i := b]) h =
      fold fnv_step (drop (Suc i) bs) (fnv_step b (fold fnv_step (take i bs) h))"
    using assms by (simp add: upd_conv_take_nth_drop)
  ultimately show ?thesis using assms(2) by (simp add: fnv_fold_inj fnv_step_inj_byte)
qed

section \<open>The stream of typed fields can be read back\<close>

lemma length_le_bytes [simp]: "length (le_bytes v n) = n"
  by (simp add: le_bytes_def)

lemma bit_le_bytes: "k < 8 * n \<Longrightarrow> bit (le_bytes v n ! (k div 8)) (k mod 8) = bit v k"
  by (simp add: le_bytes_def bit_simps less_mult_imp_div_less mult.commute [of n])

lemma le_bytes_inj:
  assumes "le_bytes v n = le_bytes w n" "k < 8 * n" shows "bit v k = bit w k"
  using bit_le_bytes [OF assms(2)] assms(1) by metis

lemma le_bytes_8: "le_bytes v 8 = le_bytes w 8 \<longleftrightarrow> v = w"
  by (auto intro!: bit_word_eqI dest!: le_bytes_inj)

lemma le_bytes_4: "le_bytes (ucast (v :: u32)) 4 = le_bytes (ucast w) 4 \<longleftrightarrow> v = w"
  by (auto intro!: bit_word_eqI dest!: le_bytes_inj simp: bit_simps)

lemma le_bytes_2: "le_bytes (ucast (v :: u16)) 2 = le_bytes (ucast w) 2 \<longleftrightarrow> v = w"
  by (auto intro!: bit_word_eqI dest!: le_bytes_inj simp: bit_simps)

fun typed_call :: "hash_op \<Rightarrow> bool" where
  "typed_call (CU8 v) = True"
| "typed_call (CU16 v) = True"
| "typed_call (CU32 v) = True"
| "typed_call (CU64 v) = True"
| "typed_call (CTime v) = True"
| "typed_call _ = False"

lemma call_bytes_split:
  assumes "typed_call c" "typed_call d" "call_bytes c @ xs = call_bytes d @ ys"
  shows "c = d \<and> xs = ys"
  using assms
  by (cases c; cases d) (auto simp: le_bytes_2 le_bytes_4 le_bytes_8 append_eq_append_conv)

lemma typed_stream_inj:
  "\<lbrakk>list_all typed_call cs; list_all typed_call ds;
    concat (map call_bytes cs) = concat (map call_bytes ds)\<rbrakk> \<Longrightarrow> cs = ds"
proof (induction cs arbitrary: ds)
  case Nil
  then show ?case by (cases ds; cases "hd ds") auto
next
  case (Cons c cs)
  have "call_bytes c \<noteq> []" using Cons.prems by (cases c) auto
  with Cons.prems obtain d ds' where ds: "ds = d # ds'" by (cases ds) auto
  with Cons.prems call_bytes_split [of c d] Cons.IH [of ds'] show ?case by auto
qed

section \<open>The dump determines the hash\<close>

text \<open>What a printed line says of the running hash.\<close>

fun line_hash :: "dump_line \<Rightarrow> u64 \<Rightarrow> u64" where
  "line_hash (Field s i FU8 v) h = fold fnv_step [TAG_U8, ucast v] h"
| "line_hash (Field s i FU16 v) h = fold fnv_step (TAG_U16 # le_bytes v 2) h"
| "line_hash (Field s i FU32 v) h = fold fnv_step (TAG_U32 # le_bytes v 4) h"
| "line_hash (Field s i FU64 v) h = fold fnv_step (TAG_U64 # le_bytes v 8) h"
| "line_hash (Field s i FTime v) h = fold fnv_step (TAG_TIME # le_bytes v 8) h"
| "line_hash (Field s i FBlob v) h = v"
| "line_hash (Note s n v) h = h"
| "line_hash (Group s n v) h = v"

definition dump_inv :: "u64 \<Rightarrow> hash_state \<Rightarrow> bool" where
  "dump_inv h0 st \<longleftrightarrow> (\<exists>ls. h_out st = Some ls \<and> (h_group st = None \<longrightarrow> h_h st = fold line_hash ls h0))"

lemma absorb_le_fields [simp]:
  "h_out (absorb_le v n st) = h_out st" "h_group (absorb_le v n st) = h_group st"
proof -
  have *: "h_out (fold (\<lambda>i. absorb (f i)) ks st') = h_out st' \<and>
      h_group (fold (\<lambda>i. absorb (f i)) ks st') = h_group st'" for f ks st'
    by (induction ks arbitrary: st') (simp_all add: absorb_def)
  show "h_out (absorb_le v n st) = h_out st" "h_group (absorb_le v n st) = h_group st"
    by (simp_all only: absorb_le_def *)
qed

lemma dump_inv_call: "dump_inv h0 st \<Longrightarrow> dump_inv h0 (hash_call c st)"
  using hash_call_h [of c st]
  by (cases c) (auto simp: dump_inv_def hash_u8_def hash_u16_def hash_u32_def hash_u64_def
      hash_time_def hash_bytes_def hash_scope_def hash_note_u32_def hash_group_begin_def
      hash_group_end_def emit_def print_def absorb_def Let_def ucast_down_ucast_id is_down
      split: option.split)

lemma dump_inv_run: "dump_inv h0 st \<Longrightarrow> dump_inv h0 (hash_run cs st)"
  unfolding hash_run_def by (induction cs arbitrary: st) (simp_all add: dump_inv_call)

section \<open>Properties\<close>

text \<open>C25: whatever is attached to it (a dump or none), whatever scopes, groups and notes are
  interleaved, a traversal's hash is FNV-1a over the tagged little-endian bytes of its fields.
  In particular attaching a dump never changes the hash.\<close>

theorem hash_is_fnv_of_stream:
  "hash_end (hash_run cs (hash_dump_to out hash_begin)) =
   fold fnv_step (concat (map call_bytes cs)) HASH_OFFSET_BASIS"
  by (simp add: hash_end_def hash_run_h hash_dump_to_def hash_begin_def)

text \<open>The byte stream of a traversal of typed fields determines the fields: two traversals
  that feed the same bytes visit the same values at the same widths in the same order, so
  retyping a field, moving a byte from one field to the next, or confusing a time with a 64-bit
  count changes what is hashed.\<close>

theorem typed_fields_unique_stream:
  assumes "list_all typed_call cs" and "list_all typed_call ds"
    and "concat (map call_bytes cs) = concat (map call_bytes ds)"
  shows "cs = ds"
  by (rule typed_stream_inj [OF assms])

lemma typed_fields_unique_stream_witness:
  "[CU16 0x0102, CTime 5] = [CU16 0x0102, CTime 5]"
  by (rule typed_fields_unique_stream) simp_all

text \<open>A traversal in which a single 8-bit field differs ends in a different hash, whatever
  is visited before and after it.\<close>

theorem hash_detects_one_field:
  assumes "v \<noteq> w"
  shows "hash_end (hash_run (cs @ CU8 v # ds) st) \<noteq> hash_end (hash_run (cs @ CU8 w # ds) st)"
  using assms by (simp add: hash_end_def hash_run_h fnv_fold_inj fnv_step_inj_byte)

lemma hash_detects_one_field_witness:
  "hash_end (hash_run ([CU32 7] @ CU8 1 # [CTime 9]) hash_begin) \<noteq>
   hash_end (hash_run ([CU32 7] @ CU8 2 # [CTime 9]) hash_begin)"
  by (rule hash_detects_one_field) simp

text \<open>A dump determines the hash. Two traversals that start from the same running hash with
  an empty dump, close the groups they open and print the same lines end in the same hash, so a
  diff of two dumps can never show two machines agreeing when their hashes differ.\<close>

theorem dump_determines_hash:
  assumes "h_out (hash_run cs (hash_dump_to (Some []) hash_begin)) =
      h_out (hash_run ds (hash_dump_to (Some []) hash_begin))"
    and "h_group (hash_run cs (hash_dump_to (Some []) hash_begin)) = None"
    and "h_group (hash_run ds (hash_dump_to (Some []) hash_begin)) = None"
  shows "hash_end (hash_run cs (hash_dump_to (Some []) hash_begin)) =
    hash_end (hash_run ds (hash_dump_to (Some []) hash_begin))"
proof -
  have "dump_inv HASH_OFFSET_BASIS (hash_run xs (hash_dump_to (Some []) hash_begin))" for xs
    by (rule dump_inv_run) (simp add: dump_inv_def hash_dump_to_def hash_begin_def)
  from this [of cs] this [of ds] assms show ?thesis by (auto simp: dump_inv_def hash_end_def)
qed

lemma dump_determines_hash_witness:
  "hash_end (hash_run [CGroupBegin ''ram'', CU8 1, CGroupEnd] (hash_dump_to (Some []) hash_begin)) =
   hash_end (hash_run [CGroupBegin ''ram'', CU8 1, CGroupEnd, CScope None]
     (hash_dump_to (Some []) hash_begin))"
  by (rule dump_determines_hash)
    (simp_all add: hash_run_def hash_dump_to_def hash_begin_def hash_group_begin_def hash_u8_def
      absorb_def emit_def hash_group_end_def print_def hash_scope_def Let_def)

end
