(* ===== verification/Ring_Sched.thy ===== *)
theory Ring_Sched
  imports Ring_Medium State_Hash
begin

text \<open>
  \<^verbatim>\<open>src/core/ring/ap_ring_sched.{h,c}\<close>: the scheduler of a ring. Every node is a period and a
  callback, the ring's bit clock is one more clock domain, and \<open>sched_run_until\<close> fires them in
  time order, the ring before the nodes and a lower slot before a higher one at the same instant.

  A callback is a function pointer with a context. The model keeps it as a handle of type \<open>'c\<close>
  (\<open>None\<close> for a null pointer) and takes what calling it does as the parameter \<open>call\<close>: it may
  change the scheduler it is attached to (nodes transmit on its medium) and the rest of the
  world, \<open>'w\<close>. The endless loop is \<open>sched_loop\<close>, a partial function: \<open>None\<close> is not returning.
  The locale \<open>timekeeping\<close> states the contract of the callbacks the header asks for (a node does
  not touch the schedule); inside it the loop is shown to return and to leave every clock
  at its first boundary after \<open>until\<close>.
\<close>

record 'c participant =
  p_present :: bool
  p_period :: u64
  p_next :: u64
  p_step :: "'c option"

record 'c sched =
  sc_medium :: ring_medium
  sc_participant :: "'c participant list"
  sc_used :: nat
  sc_bit_period :: u64
  sc_next_bit :: u64
  sc_now :: u64

definition zero_participant :: "'c participant" where
  "zero_participant = \<lparr>p_present = False, p_period = 0, p_next = 0, p_step = None\<rparr>"

definition sched_init :: "'c sched" where
  "sched_init = \<lparr>sc_medium = medium_init, sc_participant = replicate MAX_NODES zero_participant,
     sc_used = 0, sc_bit_period = BIT_CELL_TICKS, sc_next_bit = BIT_CELL_TICKS, sc_now = 0\<rparr>"

definition sched_add :: "u32 \<Rightarrow> 'c option \<Rightarrow> 'c sched \<Rightarrow> int \<times> 'c sched" where
  "sched_add hz step s =
     (let (ok, clock) = clock_init hz
      in if \<not> ok then (-1, s)
         else
           let (slot, medium) = medium_attach (sc_medium s);
               s = s\<lparr>sc_medium := medium\<rparr>
           in if slot < 0 then (-1, s)
              else
                let s = s\<lparr>sc_participant := (sc_participant s)[nat slot :=
                          \<lparr>p_present = True, p_period = ck_period clock,
                           p_next = sc_now s + ck_period clock, p_step = step\<rparr>]\<rparr>
                in (slot, if nat slot \<ge> sc_used s then s\<lparr>sc_used := nat slot + 1\<rparr> else s))"

text \<open>The earliest pending event: its time, and its slot or \<open>-1\<close> for the ring's bit clock.\<close>

definition earliest :: "'c sched \<Rightarrow> u64 \<times> int" where
  "earliest s =
     fold (\<lambda>i (when, who).
             let p = sc_participant s ! i in
             if \<not> p_present p then (when, who)
             else if p_next p < when then (p_next p, int i) else (when, who))
       [0..<sc_used s] (sc_next_bit s, -1)"

text \<open>One turn of the loop, once an event at \<open>when\<close> is due.\<close>

definition sched_fire ::
  "('c \<Rightarrow> u64 \<Rightarrow> 'c sched \<times> 'w \<Rightarrow> 'c sched \<times> 'w) \<Rightarrow> u64 \<Rightarrow> int \<Rightarrow> 'c sched \<times> 'w \<Rightarrow> 'c sched \<times> 'w" where
  "sched_fire call when who = (\<lambda>(s, w).
     let s = s\<lparr>sc_now := when\<rparr>
     in if who < 0
        then (s\<lparr>sc_medium := medium_advance (sc_medium s), sc_next_bit := sc_next_bit s + sc_bit_period s\<rparr>, w)
        else
          let p = sc_participant s ! nat who;
              s = s\<lparr>sc_participant := (sc_participant s)[nat who := p\<lparr>p_next := p_next p + p_period p\<rparr>]\<rparr>
          in case p_step p of None \<Rightarrow> (s, w) | Some c \<Rightarrow> call c when (s, w))"

partial_function (option) sched_loop ::
  "('c \<Rightarrow> u64 \<Rightarrow> 'c sched \<times> 'w \<Rightarrow> 'c sched \<times> 'w) \<Rightarrow> u64 \<Rightarrow> 'c sched \<times> 'w \<Rightarrow> ('c sched \<times> 'w) option" where
  "sched_loop call until sw =
     (if fst (earliest (fst sw)) > until then Some sw
      else sched_loop call until
             (sched_fire call (fst (earliest (fst sw))) (snd (earliest (fst sw))) sw))"

definition sched_run_until ::
  "('c \<Rightarrow> u64 \<Rightarrow> 'c sched \<times> 'w \<Rightarrow> 'c sched \<times> 'w) \<Rightarrow> u64 \<Rightarrow> 'c sched \<times> 'w \<Rightarrow> ('c sched \<times> 'w) option" where
  "sched_run_until call until sw =
     map_option (\<lambda>(s, w). (s\<lparr>sc_now := until\<rparr>, w)) (sched_loop call until sw)"

definition sched_hash :: "'c sched \<Rightarrow> u64" where
  "sched_hash s =
     hash_end (fold (\<lambda>i h.
         let p = sc_participant s ! i;
             n = m_node (sc_medium s) ! i;
             h = hash_u8 (if p_present p then 1 else 0) h
         in if \<not> p_present p then h
            else
              let h = hash_u64 (p_period p) h;
                  h = hash_u64 (p_next p) h;
                  h = hash_u8 (if n_attached n then 1 else 0) h
              in hash_u8 (if bypassed (n_bypass n) then 1 else 0) h)
       [0..<MAX_NODES]
       (hash_u64 (sc_next_bit s) (hash_u64 (m_bit_time (sc_medium s)) (hash_u64 (sc_now s) hash_begin))))"

section \<open>The earliest event\<close>

definition scan :: "'c sched \<Rightarrow> nat \<Rightarrow> u64 \<times> int \<Rightarrow> u64 \<times> int" where
  "scan s i = (\<lambda>(when, who).
     let p = sc_participant s ! i in
     if \<not> p_present p then (when, who)
     else if p_next p < when then (p_next p, int i) else (when, who))"

lemma earliest_scan: "earliest s = fold (scan s) [0..<sc_used s] (sc_next_bit s, -1)"
  by (simp add: earliest_def scan_def [abs_def])

text \<open>The event found is due no later than any other; ties go to the ring, then the lowest slot.\<close>

definition is_first :: "'c sched \<Rightarrow> nat \<Rightarrow> u64 \<times> int \<Rightarrow> bool" where
  "is_first s k = (\<lambda>(when, who).
     when \<le> sc_next_bit s \<and>
     (\<forall>i < k. p_present (sc_participant s ! i) \<longrightarrow> when \<le> p_next (sc_participant s ! i)) \<and>
     (if who = -1 then when = sc_next_bit s
      else 0 \<le> who \<and> nat who < k \<and> p_present (sc_participant s ! nat who) \<and>
           when = p_next (sc_participant s ! nat who) \<and> when < sc_next_bit s \<and>
           (\<forall>i < nat who. p_present (sc_participant s ! i) \<longrightarrow> when < p_next (sc_participant s ! i))))"

lemma scan_first:
  assumes "is_first s k e" shows "is_first s (Suc k) (scan s k e)"
proof -
  obtain t who where e: "e = (t, who)" by fastforce
  have *: "is_first s k (t, who)" using assms e by simp
  show ?thesis
  proof (cases "p_present (sc_participant s ! k) \<and> p_next (sc_participant s ! k) < t")
    case True
    then have "scan s k e = (p_next (sc_participant s ! k), int k)"
      by (simp add: e scan_def)
    moreover have "\<forall>i < k. p_present (sc_participant s ! i) \<longrightarrow>
        p_next (sc_participant s ! k) < p_next (sc_participant s ! i)"
      using * True unfolding is_first_def by fastforce
    ultimately show ?thesis
      using * True by (auto simp: is_first_def less_Suc_eq intro: less_imp_le)
  next
    case False
    then have "scan s k e = e" by (auto simp: e scan_def Let_def)
    then show ?thesis using * False
      by (auto simp: e is_first_def less_Suc_eq split: if_splits)
  qed
qed

lemma earliest_first: "is_first s (sc_used s) (earliest s)"
proof -
  have "is_first s k (fold (scan s) [0..<k] (sc_next_bit s, -1))" for k
    by (induction k) (simp_all add: scan_first, simp add: is_first_def)
  then show ?thesis by (simp add: earliest_scan)
qed

section \<open>The contract of the callbacks, and the loop under it\<close>

text \<open>What a callback has to leave alone: every clock, the slots in use, the ring's own clock and
  the count of bit times.\<close>

definition schedule :: "'c sched \<Rightarrow> (bool \<times> u64 \<times> u64) list \<times> nat \<times> u64 \<times> u64 \<times> u64" where
  "schedule s = (map (\<lambda>p. (p_present p, p_period p, p_next p)) (sc_participant s), sc_used s,
     sc_bit_period s, sc_next_bit s, m_bit_time (sc_medium s))"

lemma schedule_nth:
  assumes "schedule s = schedule s'" "i < length (sc_participant s)"
  shows "p_present (sc_participant s ! i) = p_present (sc_participant s' ! i)"
    "p_period (sc_participant s ! i) = p_period (sc_participant s' ! i)"
    "p_next (sc_participant s ! i) = p_next (sc_participant s' ! i)"
proof -
  have "map (\<lambda>p. (p_present p, p_period p, p_next p)) (sc_participant s) =
      map (\<lambda>p. (p_present p, p_period p, p_next p)) (sc_participant s')"
    using assms(1) by (simp add: schedule_def)
  from arg_cong [OF this, of "\<lambda>xs. xs ! i"] arg_cong [OF this, of length] assms(2)
  show "p_present (sc_participant s ! i) = p_present (sc_participant s' ! i)"
    "p_period (sc_participant s ! i) = p_period (sc_participant s' ! i)"
    "p_next (sc_participant s ! i) = p_next (sc_participant s' ! i)" by simp_all
qed

lemma schedule_fields:
  assumes "schedule s = schedule s'"
  shows "length (sc_participant s) = length (sc_participant s')" "sc_used s = sc_used s'"
    "sc_bit_period s = sc_bit_period s'" "sc_next_bit s = sc_next_bit s'"
    "m_bit_time (sc_medium s) = m_bit_time (sc_medium s')"
  using assms arg_cong [of "map (\<lambda>p. (p_present p, p_period p, p_next p)) (sc_participant s)" _ length]
  by (auto simp: schedule_def dest: map_eq_imp_length_eq)

text \<open>A clock that the loop can run: a period, and room for one more past \<open>until\<close>.\<close>

definition clock_ok :: "u64 \<Rightarrow> u64 \<Rightarrow> bool" where
  "clock_ok until period \<longleftrightarrow> 0 < period \<and> unat until + unat period < 2 ^ 64"

definition sched_ok :: "u64 \<Rightarrow> 'c sched \<Rightarrow> bool" where
  "sched_ok until s \<longleftrightarrow> sc_used s \<le> length (sc_participant s) \<and> clock_ok until (sc_bit_period s) \<and>
     (\<forall>i < sc_used s. p_present (sc_participant s ! i) \<longrightarrow> clock_ok until (p_period (sc_participant s ! i)))"

text \<open>How often a clock fires until then, and where that leaves it: its first boundary after.\<close>

definition fires :: "u64 \<Rightarrow> u64 \<Rightarrow> u64 \<Rightarrow> nat" where
  "fires until period next =
     (if unat next > unat until then 0 else (unat until - unat next) div unat period + 1)"

definition boundary_after :: "u64 \<Rightarrow> u64 \<Rightarrow> u64 \<Rightarrow> u64" where
  "boundary_after until period next = next + of_nat (fires until period next) * period"

lemma fire_clock:
  assumes "clock_ok until period" "next \<le> until"
  shows "unat (next + period) = unat next + unat period"
    and "fires until period next = Suc (fires until period (next + period))"
    and "boundary_after until period (next + period) = boundary_after until period next"
proof -
  have le: "unat next \<le> unat until" using assms(2) by (simp add: word_le_nat_alt)
  have pos: "0 < unat period" using assms(1) by (simp add: clock_ok_def word_less_nat_alt)
  show sum: "unat (next + period) = unat next + unat period"
    using assms(1) le by (intro unat_add_lem [THEN iffD1]) (simp add: clock_ok_def)
  show f: "fires until period next = Suc (fires until period (next + period))"
  proof (cases "unat next + unat period \<le> unat until")
    case True
    then have "unat until - unat next = (unat until - (unat next + unat period)) + unat period" by simp
    then have "(unat until - unat next) div unat period =
        (unat until - (unat next + unat period)) div unat period + 1"
      using pos by (metis div_add_self2 less_numeral_extra(3))
    then show ?thesis using True le by (simp add: fires_def sum)
  next
    case False
    then have "(unat until - unat next) div unat period = 0" using le by simp
    then show ?thesis using False le by (simp add: fires_def sum)
  qed
  show "boundary_after until period (next + period) = boundary_after until period next"
    unfolding boundary_after_def f by (simp add: algebra_simps)
qed

text \<open>Work left: it falls with every event.\<close>

definition work :: "u64 \<Rightarrow> 'c sched \<Rightarrow> nat" where
  "work until s = fires until (sc_bit_period s) (sc_next_bit s) +
     (\<Sum>i < sc_used s. if p_present (sc_participant s ! i)
        then fires until (p_period (sc_participant s ! i)) (p_next (sc_participant s ! i)) else 0)"

text \<open>Where the run ends: every clock at its first boundary after \<open>until\<close>, one bit time counted
  for every boundary of the ring's clock passed.\<close>

definition run_target :: "u64 \<Rightarrow> 'c sched \<Rightarrow> (bool \<times> u64 \<times> u64) list \<times> nat \<times> u64 \<times> u64 \<times> u64" where
  "run_target until s =
     (map (\<lambda>i. let p = sc_participant s ! i in
            (p_present p, p_period p,
             if i < sc_used s \<and> p_present p then boundary_after until (p_period p) (p_next p)
             else p_next p)) [0..<length (sc_participant s)],
      sc_used s, sc_bit_period s, boundary_after until (sc_bit_period s) (sc_next_bit s),
      m_bit_time (sc_medium s) + of_nat (fires until (sc_bit_period s) (sc_next_bit s)))"

lemma schedule_cong:
  assumes eq: "schedule s = schedule s'" and used: "sc_used s \<le> length (sc_participant s)"
  shows "sched_ok until s = sched_ok until s'" "work until s = work until s'"
    "run_target until s = run_target until s'"
proof -
  note f = schedule_fields [OF eq] and n = schedule_nth [OF eq]
  have i: "i < sc_used s \<Longrightarrow> i < length (sc_participant s)" for i using used by simp
  show "sched_ok until s = sched_ok until s'"
    using used by (auto simp: sched_ok_def simp flip: f n [OF i])
  have "(\<Sum>i < sc_used s. if p_present (sc_participant s ! i)
        then fires until (p_period (sc_participant s ! i)) (p_next (sc_participant s ! i)) else 0) =
      (\<Sum>i < sc_used s. if p_present (sc_participant s' ! i)
        then fires until (p_period (sc_participant s' ! i)) (p_next (sc_participant s' ! i)) else 0)"
    by (rule sum.cong) (simp_all add: n [OF i])
  then show "work until s = work until s'" by (simp add: work_def f)
  show "run_target until s = run_target until s'"
    by (simp add: run_target_def f Let_def) (simp add: n flip: f)
qed

lemma walk_bit_time: "m_bit_time (fst (fold (\<lambda>x. walk_slot (g x)) xs st)) = m_bit_time (fst st)"
proof -
  have "m_bit_time (fst (walk_slot i st)) = m_bit_time (fst st)" for i st
    by (cases st) (simp add: walk_slot_def upd_node_def Let_def)
  then show ?thesis by (induction xs arbitrary: st) simp_all
qed

lemma receive_bit_time: "m_bit_time (fold (receive_slot fc) xs m) = m_bit_time m"
proof -
  have "m_bit_time (receive_slot fc i m) = m_bit_time m" for i m
    by (simp add: receive_slot_def upd_node_def)
  then show ?thesis by (induction xs arbitrary: m) simp_all
qed

lemma advance_bit_time: "m_bit_time (medium_advance m) = m_bit_time m + 1"
proof (cases "walk_start m")
  case (Some f)
  obtain m' fc c where st: "fold (\<lambda>step. walk_slot ((f + step) mod m_slots m)) [0..<m_slots m]
      (m, cable_outputs m, cable_outputs m ! attached_upstream_of m f) = (m', fc, c)"
    by (metis prod_cases3)
  have "m_bit_time m' = m_bit_time m"
    using walk_bit_time [of "\<lambda>step. (f + step) mod m_slots m" "[0..<m_slots m]"
      "(m, cable_outputs m, cable_outputs m ! attached_upstream_of m f)"] st by simp
  then show ?thesis by (simp add: medium_advance_def Some Let_def st receive_bit_time)
qed (simp add: medium_advance_def)

text \<open>One event: the clock that fires moves to its next boundary.\<close>

definition fired :: "int \<Rightarrow> 'c sched \<Rightarrow> 'c sched" where
  "fired who s =
     (if who < 0
      then s\<lparr>sc_medium := medium_advance (sc_medium s), sc_next_bit := sc_next_bit s + sc_bit_period s\<rparr>
      else let p = sc_participant s ! nat who in
           s\<lparr>sc_participant := (sc_participant s)[nat who := p\<lparr>p_next := p_next p + p_period p\<rparr>]\<rparr>)"

lemma fired_progress:
  assumes ok: "sched_ok until s" and e: "earliest s = (t, who)" and t: "t \<le> until"
  shows "sched_ok until (fired who s)" "work until s = Suc (work until (fired who s))"
    "run_target until (fired who s) = run_target until s"
proof -
  have first: "is_first s (sc_used s) (t, who)" using earliest_first [of s] e by simp
  show "sched_ok until (fired who s)" "work until s = Suc (work until (fired who s))"
    "run_target until (fired who s) = run_target until s"
  proof (atomize (full), cases "who < 0")
    case True
    with first have "t = sc_next_bit s" by (auto simp: is_first_def split: if_splits)
    with ok t have c: "clock_ok until (sc_bit_period s)" "sc_next_bit s \<le> until"
      by (simp_all add: sched_ok_def)
    show "sched_ok until (fired who s) \<and> work until s = Suc (work until (fired who s)) \<and>
        run_target until (fired who s) = run_target until s"
      using True ok fire_clock [OF c]
      by (simp add: fired_def sched_ok_def work_def run_target_def advance_bit_time cong: if_cong)
  next
    case False
    define i where "i = nat who"
    define p where "p = sc_participant s ! i"
    have i: "i < sc_used s" "p_present p" "p_next p \<le> until"
      using False first t by (auto simp: is_first_def i_def p_def split: if_splits)
    with ok have c: "clock_ok until (p_period p)" and len: "i < length (sc_participant s)"
      by (auto simp: sched_ok_def p_def)
    let ?p = "p\<lparr>p_next := p_next p + p_period p\<rparr>"
    have s': "fired who s = s\<lparr>sc_participant := (sc_participant s)[i := ?p]\<rparr>"
      using False by (simp add: fired_def i_def p_def Let_def)
    have "sched_ok until (fired who s)"
      using ok i c by (auto simp: s' sched_ok_def nth_list_update)
    moreover have "work until s = Suc (work until (fired who s))"
    proof -
      let ?f = "\<lambda>q. if p_present q then fires until (p_period q) (p_next q) else 0"
      have rest: "(\<Sum>j \<in> {..<sc_used s} - {i}. ?f ((sc_participant s)[i := ?p] ! j)) =
          (\<Sum>j \<in> {..<sc_used s} - {i}. ?f (sc_participant s ! j))"
        by (rule sum.cong) auto
      have "?f p = Suc (?f ?p)" using fire_clock(2) [OF c i(3)] i(2) by simp
      then show ?thesis
        using i(1) len
        by (simp add: work_def s' sum.remove [of "{..<sc_used s}" i] rest p_def [symmetric] cong: if_cong)
    qed
    moreover have "run_target until (fired who s) = run_target until s"
      using i fire_clock(3) [OF c i(3)] len
      by (auto simp: run_target_def s' Let_def nth_list_update p_def)
    ultimately show "sched_ok until (fired who s) \<and> work until s = Suc (work until (fired who s)) \<and>
        run_target until (fired who s) = run_target until s" by blast
  qed
qed

lemma quiet_target:
  assumes "sched_ok until s" "fst (earliest s) > until"
  shows "schedule s = run_target until s"
proof -
  obtain t who where e: "earliest s = (t, who)" by fastforce
  have "is_first s (sc_used s) (t, who)" using earliest_first [of s] e by simp
  then have t: "t \<le> sc_next_bit s"
    "\<And>i. i < sc_used s \<Longrightarrow> p_present (sc_participant s ! i) \<Longrightarrow> t \<le> p_next (sc_participant s ! i)"
    by (auto simp: is_first_def)
  have late: "fires until P n = 0" if "t \<le> n" for P n
    using that assms(2) e by (simp add: fires_def word_less_nat_alt word_le_nat_alt)
  show ?thesis
    using t late by (auto simp: schedule_def run_target_def boundary_after_def Let_def intro!: nth_equalityI)
qed

locale timekeeping =
  fixes call :: "'c \<Rightarrow> u64 \<Rightarrow> 'c sched \<times> 'w \<Rightarrow> 'c sched \<times> 'w"
  assumes keeps_schedule: "schedule (fst (call c t (s, w))) = schedule s"
begin

lemma fire_schedule: "schedule (fst (sched_fire call t who (s, w))) = schedule (fired who s)"
  by (auto simp: sched_fire_def fired_def Let_def keeps_schedule split: option.split)
    (simp_all add: schedule_def)

lemma loop_returns:
  "sched_ok until s \<Longrightarrow>
   \<exists>s' w'. sched_loop call until (s, w) = Some (s', w') \<and> schedule s' = run_target until s"
proof (induction "work until s" arbitrary: s w rule: less_induct)
  case less
  obtain t who where e: "earliest s = (t, who)" by fastforce
  show ?case
  proof (cases "t > until")
    case True
    then show ?thesis
      using quiet_target [OF less.prems] e by (simp add: sched_loop.simps [of call until "(s, w)"])
  next
    case False
    then have t: "t \<le> until" by simp
    note p = fired_progress [OF less.prems e t]
    obtain s1 w1 where f: "sched_fire call t who (s, w) = (s1, w1)" by fastforce
    have eq: "schedule s1 = schedule (fired who s)" using fire_schedule [of t who s w] f by simp
    have used: "sc_used s1 \<le> length (sc_participant s1)"
      using p(1) schedule_fields [OF eq] by (simp add: sched_ok_def)
    note c = schedule_cong [OF eq used, of until]
    from less.hyps [of s1 w1] obtain s' w' where
      "sched_loop call until (s1, w1) = Some (s', w')" "schedule s' = run_target until s1"
      using p c by auto
    then show ?thesis
      using False e f p c by (simp add: sched_loop.simps [of call until "(s, w)"])
  qed
qed

lemma run_until_returns:
  assumes "sched_ok until s"
  shows "\<exists>s' w'. sched_run_until call until (s, w) = Some (s', w') \<and> sc_now s' = until \<and>
    schedule s' = run_target until s"
proof -
  obtain s' w' where "sched_loop call until (s, w) = Some (s', w')" "schedule s' = run_target until s"
    using loop_returns [OF assms] by blast
  then show ?thesis by (simp add: sched_run_until_def) (simp add: schedule_def)
qed

end

end
