(* ===== verification/Ring_Node.thy ===== *)
theory Ring_Node
  imports Ring_Station Ring_Sched
begin

text \<open>
  The ring half of a board, \<^verbatim>\<open>board_ring_step\<close>, \<^verbatim>\<open>board_pad_ring_for_token\<close> and
  \<^verbatim>\<open>ap_board_join_ring_sched\<close> of \<^verbatim>\<open>src/core/board/ap_board.c\<close> with the relay and the address that
  \<^verbatim>\<open>ap_ring_ctl_attach_ring\<close> sets: a station joined to the scheduler's medium, clocked at the
  ring's bit rate. The controller card behind the station is not modelled: its poll
  (\<open>ap_ring_ctl_poll_ring\<close>, which touches only the card and the station) is the parameter
  \<open>poll\<close>, its state \<open>'k\<close>.

  The board's step is what the scheduler calls; the interpretation \<open>ring_node\<close> discharges the
  scheduler's contract for it, so the scheduler's facts hold of a ring of boards.
\<close>

type_synonym 'k ring_boards = "(station \<times> 'k) list"

definition board_ring_step ::
  "(station \<times> 'k \<Rightarrow> station \<times> 'k) \<Rightarrow> nat \<Rightarrow> u64 \<Rightarrow> nat sched \<times> 'k ring_boards \<Rightarrow> nat sched \<times> 'k ring_boards" where
  "board_ring_step poll board now = (\<lambda>(s, boards).
     let (station, ctl) = boards ! board;
         (station, medium) = station_drive station (sc_medium s);
         station = station_receive station medium
     in (s\<lparr>sc_medium := medium\<rparr>, boards[board := poll (station, ctl)]))"

definition pad_ring_for_token :: "ring_medium \<Rightarrow> int \<Rightarrow> ring_medium" where
  "pad_ring_for_token medium slot =
     (let plant = medium_plant_bits medium
      in if plant \<ge> OOB_BITS then medium else medium_set_cable_bits medium slot (OOB_BITS - plant))"

text \<open>The buffers a board lends its station: \<open>sizeof board->ring_tx_bits\<close> and
  \<open>sizeof board->ring_rx_frame\<close> bytes.\<close>

definition lend_ring_buffers :: "u8 list \<Rightarrow> u8 list \<Rightarrow> station \<Rightarrow> station" where
  "lend_ring_buffers tx rx st =
     station_attach_rx (Some rx) (length rx) (station_attach_tx (Some tx) (length tx) st)"

definition attach_ring :: "u32 \<Rightarrow> station \<Rightarrow> ring_medium \<Rightarrow> station \<times> ring_medium" where
  "attach_ring node_id st medium =
     (let st = station_set_address node_id st in (st, medium_set_bypass medium (s_slot st) True))"

definition join_ring_sched ::
  "u32 \<Rightarrow> u8 list \<Rightarrow> u8 list \<Rightarrow> nat \<Rightarrow> nat sched \<Rightarrow> (int \<times> station option) \<times> nat sched" where
  "join_ring_sched node_id tx rx board s =
     (let (slot, s) = sched_add RING_DATA_HZ (Some board) s
      in if slot < 0 then ((-1, None), s)
         else let st = lend_ring_buffers tx rx (station_init slot);
                  medium = pad_ring_for_token (sc_medium s) slot;
                  (st, medium) = attach_ring node_id st medium
              in ((slot, Some st), s\<lparr>sc_medium := medium\<rparr>))"

section \<open>The scheduler's contract\<close>

lemma drive_bit_time: "m_bit_time (snd (station_drive s m)) = m_bit_time m"
  by (auto simp: station_drive_def transmit_bit_def medium_transmit_def upd_node_def Let_def
      split: prod.split)

interpretation ring_node: timekeeping "board_ring_step poll" for poll
proof
  fix c t and s :: "nat sched" and w :: "'a ring_boards"
  show "schedule (fst (board_ring_step poll c t (s, w))) = schedule s"
    using drive_bit_time [of "fst (w ! c)" "sc_medium s"]
    by (cases "w ! c"; cases "station_drive (fst (w ! c)) (sc_medium s)")
      (simp add: board_ring_step_def schedule_def)
qed

lemma pad_plant:
  assumes wf: "wf_medium m" and i: "i < m_slots m" "m_node m ! i = fresh_node"
  shows "medium_plant_bits (pad_ring_for_token m (int i)) \<ge> OOB_BITS"
proof (cases "medium_plant_bits m \<ge> OOB_BITS")
  case True
  then show ?thesis by (simp add: pad_ring_for_token_def Let_def)
next
  case False
  define k where "k = OOB_BITS - medium_plant_bits m"
  have k: "k \<le> MAX_CABLE_BITS" by (simp add: k_def OOB_BITS_def MAX_CABLE_BITS_def)
  let ?n = "fresh_node\<lparr>n_cable_bits := k, n_line_head := 0, n_line := idle_line (n_line fresh_node)\<rparr>"
  have pad: "pad_ring_for_token m (int i) = m\<lparr>m_node := (m_node m)[i := ?n]\<rparr>"
    using False i k by (simp add: pad_ring_for_token_def Let_def medium_set_cable_bits_def
        valid_slot_def upd_node_def flip: k_def)
  have len: "m_slots m \<le> length (m_node m)" using wf by (simp add: wf_medium_def)
  have "(\<Sum>j < m_slots m. node_plant ((m_node m)[i := ?n] ! j)) + node_plant fresh_node =
      medium_plant_bits m + node_plant ?n"
    using sum_upd_one [OF i(1) len, of node_plant ?n] i(2) by (simp add: plant_sum)
  moreover have "node_plant ?n = node_plant fresh_node + k"
    by (simp add: node_plant_def fresh_node_def zero_node_def)
  ultimately show ?thesis by (simp add: pad plant_sum k_def)
qed

lemma attach_fresh:
  assumes "wf_medium m" "medium_attach m = (slot, m')" "slot \<ge> 0"
  shows "nat slot < m_slots m'" "m_node m' ! nat slot = fresh_node" "wf_medium m'"
proof -
  have "wf_medium m'" using wf_medium_attach [OF assms(1)] assms(2) by simp
  moreover have "nat slot < m_slots m' \<and> m_node m' ! nat slot = fresh_node"
  proof (cases "find (\<lambda>i. \<not> n_attached (m_node m ! i)) [0..<m_slots m]")
    case None
    then show ?thesis using assms wf_mediumD [OF assms(1)]
      by (auto simp: medium_attach_def upd_node_def split: if_splits)
  next
    case (Some i)
    then show ?thesis using assms find_slot_Some [OF Some] wf_mediumD [OF assms(1)]
      by (auto simp: medium_attach_def upd_node_def)
  qed
  ultimately show "nat slot < m_slots m'" "m_node m' ! nat slot = fresh_node" "wf_medium m'" by blast+
qed

lemma plant_set_bypass: "medium_plant_bits (medium_set_bypass m slot b) = medium_plant_bits m"
proof -
  have "node_plant ((m_node m)[i := (m_node m ! i)\<lparr>n_bypass := v\<rparr>] ! j) = node_plant (m_node m ! j)"
    for i v j
    by (cases "i < length (m_node m)"; cases "i = j") (simp_all add: node_plant_def list_update_beyond)
  then show ?thesis by (simp add: medium_set_bypass_def plant_sum upd_node_def)
qed

lemma clock_init_ring: "fst (clock_init RING_DATA_HZ)"
  by (simp add: clock_init_def time_base_divides_def RING_DATA_HZ_def TIME_BASE_HZ_def)

section \<open>Properties\<close>

text \<open>The event the scheduler picks is due no later than any other clock; at the same instant
  the ring's bit clock goes before every node and a lower slot before a higher one.\<close>

theorem sched_picks_first: "is_first s (sc_used s) (earliest s)"
  by (rule earliest_first)

text \<open>C6: running a ring of boards returns. If every clock has a period and room for one more
  past \<open>until\<close>, the loop ends with the time at \<open>until\<close>, every clock at its first boundary after it
  (whatever the order of events, no boundary is lost and no phase shifts) and the medium
  advanced by exactly one bit time for every boundary of the bit clock passed.\<close>

theorem sched_run_until_returns:
  assumes "sched_ok until s"
  shows "\<exists>s' boards'. sched_run_until (board_ring_step poll) until (s, boards) = Some (s', boards') \<and>
    sc_now s' = until \<and> schedule s' = run_target until s"
  by (rule ring_node.run_until_returns [OF assms])

lemma sched_run_until_returns_witness:
  "\<exists>s' boards'. sched_run_until (board_ring_step id) 20000000 (sched_init, [(station_init 0, ())]) =
     Some (s', boards') \<and> sc_now s' = 20000000 \<and>
     schedule s' = run_target 20000000 (sched_init :: nat sched)"
  by (rule sched_run_until_returns)
    (simp add: sched_ok_def sched_init_def clock_ok_def BIT_CELL_TICKS_def TIME_BASE_HZ_def
      RING_DATA_HZ_def)

text \<open>A board that joins leaves a ring long enough for its token. After a successful join the
  cable plant is at least the nine bits of a free token, the joined slot has its relays thrown and
  the medium is well formed.\<close>

theorem join_makes_room_for_token:
  assumes "wf_medium (sc_medium s)"
    and "join_ring_sched node_id tx rx board s = ((slot, Some st), s')"
  shows "medium_plant_bits (sc_medium s') \<ge> OOB_BITS \<and> wf_medium (sc_medium s') \<and>
    node_loopback (n_bypass (m_node (sc_medium s') ! nat slot)) \<and> s_slot st = slot"
proof -
  obtain slot' m1 where att: "medium_attach (sc_medium s) = (slot', m1)" by fastforce
  obtain ck where ck: "clock_init RING_DATA_HZ = (True, ck)"
    using clock_init_ring by (cases "clock_init RING_DATA_HZ") auto
  let ?m = "pad_ring_for_token m1 slot'"
  have res: "slot' \<ge> 0" "slot = slot'" "s_slot st = slot'" "sc_medium s' = medium_set_bypass ?m slot' True"
    using assms(2) by (auto simp: join_ring_sched_def sched_add_def ck att Let_def attach_ring_def
        lend_ring_buffers_def station_set_address_def station_attach_tx_def station_attach_rx_def
        station_init_def split: if_splits)
  note fresh = attach_fresh [OF assms(1) att res(1)]
  have slots: "m_slots ?m = m_slots m1"
    by (simp add: pad_ring_for_token_def Let_def medium_set_cable_bits_def upd_node_def)
  have wf: "wf_medium ?m"
    using fresh(3) by (simp add: pad_ring_for_token_def Let_def wf_medium_slot_ops)
  have "medium_plant_bits (sc_medium s') \<ge> OOB_BITS"
    using pad_plant [OF fresh(3,1,2)] res by (simp add: plant_set_bypass)
  moreover have "wf_medium (sc_medium s')" using wf by (simp add: res wf_medium_slot_ops)
  moreover have "node_loopback (n_bypass (m_node (sc_medium s') ! nat slot))"
    using fresh(1) slots wf_mediumD(1,2) [OF wf] res(1)
    by (simp add: res medium_set_bypass_def valid_slot_def upd_node_def node_loopback_def)
  ultimately show ?thesis using res by simp
qed

lemma join_makes_room_for_token_witness:
  "\<exists>slot st s'. join_ring_sched 0x1234 [0] [0] 0 sched_init = ((slot, Some st), s') \<and>
     medium_plant_bits (sc_medium s') \<ge> OOB_BITS"
proof -
  obtain ck where ck: "clock_init RING_DATA_HZ = (True, ck)"
    using clock_init_ring by (cases "clock_init RING_DATA_HZ") auto
  have wf: "wf_medium (sc_medium (sched_init :: nat sched))"
    by (simp add: sched_init_def wf_medium_init)
  have "\<exists>slot st s'. join_ring_sched 0x1234 [0] [0] 0 sched_init = ((slot, Some st), s')"
    by (simp add: join_ring_sched_def sched_add_def ck Let_def sched_init_def medium_attach_def
        medium_init_def MAX_NODES_def split: prod.split)
  then show ?thesis using join_makes_room_for_token [OF wf] by blast
qed

end
