(* ===== verification/Ring_Probe.thy ===== *)
theory Ring_Probe
  imports Ring_Node
begin

text \<open>
  \<^verbatim>\<open>src/core/ring/ap_ring_probe.{h,c}\<close>: a whole ring of stations stepped in lock (every station
  drives, the medium moves the cells one hop, every station receives), and the two structural
  measurements made on it, the round trip of a token and a contention for it. The definitions
  compute: evaluated, \<open>probe_all\<close> gives the golden numbers of the suite (a token is back after
  eight bit times plus one per station, and a contention has one winner, station 1).

  The loops over bit times are bounded by \<open>PROBE_BIT_LIMIT\<close>, so they are recursions on the bit
  times left. The lemmas show that a ring step keeps the invariants of the medium and of every
  station at once.
\<close>

definition PROBE_BIT_LIMIT :: nat where "PROBE_BIT_LIMIT = 4096"

record ring =
  g_medium :: ring_medium
  g_station :: "station list"
  g_nodes :: nat

record probe_result =
  pr_name :: string
  pr_nodes :: nat
  pr_bit_times :: nat
  pr_round_trip_bits :: nat
  pr_claims :: nat
  pr_claimed_by :: int
  pr_completed :: bool
  pr_biphase_error :: bool

definition ring_build :: "nat \<Rightarrow> ring" where
  "ring_build nodes =
     fold (\<lambda>i r. let (slot, m) = medium_attach (g_medium r)
                 in r\<lparr>g_medium := m, g_station := (g_station r)[i := station_init slot]\<rparr>)
       [0..<nodes]
       \<lparr>g_medium = medium_init, g_station = replicate MAX_NODES zero_station, g_nodes = nodes\<rparr>"

definition drive_one :: "nat \<Rightarrow> ring \<Rightarrow> ring" where
  "drive_one i r =
     (let (s, m) = station_drive (g_station r ! i) (g_medium r)
      in r\<lparr>g_medium := m, g_station := (g_station r)[i := s]\<rparr>)"

definition receive_one :: "nat \<Rightarrow> ring \<Rightarrow> ring" where
  "receive_one i r =
     r\<lparr>g_station := (g_station r)[i := station_receive (g_station r ! i) (g_medium r)]\<rparr>"

definition ring_step :: "ring \<Rightarrow> ring" where
  "ring_step r =
     (let r = fold drive_one [0..<g_nodes r] r;
          r = r\<lparr>g_medium := medium_advance (g_medium r)\<rparr>
      in fold receive_one [0..<g_nodes r] r)"

definition any_biphase_error :: "ring \<Rightarrow> bool" where
  "any_biphase_error r \<longleftrightarrow> (\<exists>i \<in> set [0..<g_nodes r]. s_saw_biphase_error (g_station r ! i))"

definition upd_station :: "nat \<Rightarrow> (station \<Rightarrow> station) \<Rightarrow> ring \<Rightarrow> ring" where
  "upd_station i f r = r\<lparr>g_station := (g_station r)[i := f (g_station r ! i)]\<rparr>"

definition new_result :: "string \<Rightarrow> nat \<Rightarrow> probe_result" where
  "new_result name nodes =
     \<lparr>pr_name = name, pr_nodes = nodes, pr_bit_times = 0, pr_round_trip_bits = 0, pr_claims = 0,
      pr_claimed_by = -1, pr_completed = False, pr_biphase_error = False\<rparr>"

fun round_trip_loop :: "nat \<Rightarrow> probe_result \<times> ring \<Rightarrow> probe_result \<times> ring" where
  "round_trip_loop 0 (out, r) = (out, r)"
| "round_trip_loop (Suc left) (out, r) =
     (let r = ring_step r;
          out = out\<lparr>pr_bit_times := pr_bit_times out + 1\<rparr>
      in if s_tokens_seen (g_station r ! 0) > 0
         then (out\<lparr>pr_round_trip_bits := pr_bit_times out, pr_completed := True\<rparr>, r)
         else round_trip_loop left (out, r))"

definition probe_round_trip :: "string \<Rightarrow> nat \<Rightarrow> probe_result" where
  "probe_round_trip name nodes =
     (let r = upd_station 0 (station_originate_token OOB_FREE_TOKEN) (ring_build nodes);
          (out, r) = round_trip_loop PROBE_BIT_LIMIT (new_result name nodes, r)
      in out\<lparr>pr_biphase_error := any_biphase_error r\<rparr>)"

text \<open>The stations holding the ring, and the slot of the first of them.\<close>

definition count_claims :: "ring \<Rightarrow> nat \<times> int" where
  "count_claims r =
     fold (\<lambda>i (claims, who).
             if s_holds_ring (g_station r ! i)
             then (claims + 1, if who < 0 then s_slot (g_station r ! i) else who)
             else (claims, who))
       [0..<g_nodes r] (0, -1)"

fun contention_loop :: "nat \<Rightarrow> nat \<Rightarrow> probe_result \<times> ring \<Rightarrow> probe_result \<times> ring" where
  "contention_loop nodes 0 (out, r) = (out, r)"
| "contention_loop nodes (Suc left) (out, r) =
     (let r = ring_step r;
          out = out\<lparr>pr_bit_times := pr_bit_times out + 1\<rparr>;
          (claims, who) = count_claims r
      in if claims > 0 then
           let extra = nodes + OOB_BITS;
               r = (ring_step ^^ extra) r
           in (out\<lparr>pr_claims := fst (count_claims r), pr_claimed_by := who, pr_completed := True,
                   pr_bit_times := pr_bit_times out + extra\<rparr>, r)
         else contention_loop nodes left (out, r))"

definition probe_contention :: "string \<Rightarrow> nat \<Rightarrow> probe_result" where
  "probe_contention name nodes =
     (let r = ring_build nodes;
          r = upd_station 1 (\<lambda>s. s\<lparr>s_wants_ring := True\<rparr>) r;
          r = upd_station 2 (\<lambda>s. s\<lparr>s_wants_ring := True\<rparr>) r;
          r = upd_station 0 (station_originate_token OOB_FREE_TOKEN) r;
          (out, r) = contention_loop nodes PROBE_BIT_LIMIT (new_result name nodes, r)
      in out\<lparr>pr_biphase_error := any_biphase_error r\<rparr>)"

definition probe_all :: "probe_result list" where
  "probe_all =
     [probe_round_trip ''round_trip_2'' 2, probe_round_trip ''round_trip_3'' 3,
      probe_round_trip ''round_trip_4'' 4, probe_round_trip ''round_trip_8'' 8,
      probe_contention ''contention_4'' 4, probe_contention ''contention_8'' 8]"

section \<open>The invariant of a whole ring\<close>

definition wf_ring_of :: "ring \<Rightarrow> bool" where
  "wf_ring_of r \<longleftrightarrow> wf_medium (g_medium r) \<and> g_nodes r \<le> length (g_station r) \<and>
     list_all wf_station (g_station r)"

lemma wf_upd_station:
  "wf_ring_of r \<Longrightarrow> (\<And>s. wf_station s \<Longrightarrow> wf_station (f s)) \<Longrightarrow> i < length (g_station r) \<Longrightarrow>
   wf_ring_of (upd_station i f r)"
  by (auto simp: wf_ring_of_def upd_station_def list_all_length nth_list_update)

lemma drive_medium: "snd (station_drive s m) = medium_transmit m (s_slot s) c \<Longrightarrow>
    wf_medium m \<Longrightarrow> wf_medium (snd (station_drive s m))"
  by (simp add: wf_medium_slot_ops)

lemma drive_transmits: "\<exists>c. snd (station_drive s m) = medium_transmit m (s_slot s) c"
proof -
  have slots: "s_slot (snd (drive_choose s)) = s_slot s" "s_slot (strip_count s) = s_slot s"
    "s_slot (force_token s) = s_slot s" "s_slot (snd (drive_frame_bit s)) = s_slot s" for s
    by (simp_all add: drive_choose_def strip_count_def force_token_def drive_frame_bit_def
        station_originate_token_def Let_def)
  obtain b c g s1 where ch: "drive_choose s = ((b, c, g), s1)" by (metis surj_pair)
  then have "s_slot s1 = s_slot s" using slots(1) [of s] by simp
  then show ?thesis
    using slots by (cases "drive_frame_bit s1")
      (auto simp: station_drive_def ch transmit_bit_def Let_def, (metis snd_conv slots)+)
qed

lemma wf_drive_one:
  assumes "wf_ring_of r" "i < g_nodes r"
  shows "wf_ring_of (drive_one i r) \<and> g_nodes (drive_one i r) = g_nodes r"
proof -
  obtain s m where d: "station_drive (g_station r ! i) (g_medium r) = (s, m)" by fastforce
  have i: "i < length (g_station r)" using assms by (simp add: wf_ring_of_def)
  then have "wf_station s"
    using wf_station_drive [of "g_station r ! i" "g_medium r"] assms d
    by (simp add: wf_ring_of_def list_all_length)
  moreover have "wf_medium m"
    using drive_transmits [of "g_station r ! i" "g_medium r"] assms d
    by (auto simp: wf_ring_of_def wf_medium_slot_ops)
  ultimately show ?thesis
    using assms i by (auto simp: drive_one_def d wf_ring_of_def list_all_length nth_list_update)
qed

lemma wf_receive_one:
  assumes "wf_ring_of r" "i < g_nodes r"
  shows "wf_ring_of (receive_one i r) \<and> g_nodes (receive_one i r) = g_nodes r"
  using assms by (auto simp: receive_one_def wf_ring_of_def list_all_length nth_list_update
      wf_station_receive)

lemma wf_fold_nodes:
  assumes "\<And>i r. wf_ring_of r \<Longrightarrow> i < g_nodes r \<Longrightarrow> wf_ring_of (f i r) \<and> g_nodes (f i r) = g_nodes r"
    and "wf_ring_of r" "\<forall>i \<in> set is. i < g_nodes r"
  shows "wf_ring_of (fold f is r) \<and> g_nodes (fold f is r) = g_nodes r"
  using assms(2,3)
proof (induction "is" arbitrary: r)
  case (Cons i "is")
  then show ?case using assms(1) [of r i] by simp
qed simp

lemma wf_ring_step:
  assumes "wf_ring_of r" shows "wf_ring_of (ring_step r) \<and> g_nodes (ring_step r) = g_nodes r"
proof -
  define r1 where "r1 = fold drive_one [0..<g_nodes r] r"
  have r1: "wf_ring_of r1" "g_nodes r1 = g_nodes r"
    using wf_fold_nodes [of drive_one r "[0..<g_nodes r]"] wf_drive_one assms by (auto simp: r1_def)
  define r2 where "r2 = r1\<lparr>g_medium := medium_advance (g_medium r1)\<rparr>"
  have "wf_ring_of r2" "g_nodes r2 = g_nodes r"
    using r1 by (simp_all add: r2_def wf_ring_of_def wf_medium_advance)
  then show ?thesis
    using wf_fold_nodes [of receive_one r2 "[0..<g_nodes r2]"] wf_receive_one
    by (simp add: ring_step_def Let_def r1(2) flip: r1_def r2_def)
qed

lemma wf_ring_build: "nodes \<le> MAX_NODES \<Longrightarrow> wf_ring_of (ring_build nodes)"
proof -
  assume n: "nodes \<le> MAX_NODES"
  let ?f = "\<lambda>i r. let (slot, m) = medium_attach (g_medium r)
                 in r\<lparr>g_medium := m, g_station := (g_station r)[i := station_init slot]\<rparr>"
  have "wf_ring_of (?f i r) \<and> g_nodes (?f i r) = g_nodes r" if "wf_ring_of r" "i < g_nodes r" for i r
    using that wf_medium_attach [of "g_medium r"]
    by (cases "medium_attach (g_medium r)")
      (auto simp: wf_ring_of_def list_all_length nth_list_update wf_station_init)
  moreover have "wf_ring_of \<lparr>g_medium = medium_init, g_station = replicate MAX_NODES zero_station, g_nodes = nodes\<rparr>"
    using n by (simp add: wf_ring_of_def wf_medium_init list_all_length)
      (simp add: wf_station_defs zero_station_def)
  ultimately show ?thesis unfolding ring_build_def by (subst wf_fold_nodes) simp_all
qed

lemma wf_ring_steps: "wf_ring_of r \<Longrightarrow> wf_ring_of ((ring_step ^^ n) r)"
  by (induction n) (simp_all add: wf_ring_step)

section \<open>Properties\<close>



end
