(* ===== verification/Dev_I8259.thy ===== *)
theory Dev_I8259
  imports Apollo_Prelude
begin

unbundle bit_operations_syntax

text \<open>
  \<^verbatim>\<open>src/core/device/ap_i8259.{h,c}\<close>: the 8259A interrupt controller. The members of
  \<open>ap_i8259_t\<close> keep their names behind \<open>pic_\<close>; a level is a \<open>nat\<close> below eight, and \<open>None\<close> is the
  \<open>-1\<close> of \<open>resolve\<close> and \<open>highest_in_service\<close>.

  The lemmas show what \<open>resolve\<close> picks (the highest-priority unmasked request that no level in
  service shuts out), that an acknowledged level shuts out itself and everything below it until
  an EOI restores the in-service register, that a spurious acknowledge puts nothing in service,
  and that the initialization sequence takes exactly the words ICW1 announces.
\<close>

definition LEVELS :: nat where "LEVELS = 8"

abbreviation (input) ICW1_MARKER :: u8 where "ICW1_MARKER \<equiv> 0x10"
abbreviation (input) ICW1_IC4 :: u8 where "ICW1_IC4 \<equiv> 0x01"
abbreviation (input) ICW1_SNGL :: u8 where "ICW1_SNGL \<equiv> 0x02"
abbreviation (input) ICW1_LTIM :: u8 where "ICW1_LTIM \<equiv> 0x08"
abbreviation (input) ICW4_UPM :: u8 where "ICW4_UPM \<equiv> 0x01"
abbreviation (input) ICW4_AEOI :: u8 where "ICW4_AEOI \<equiv> 0x02"
abbreviation (input) ICW4_MS :: u8 where "ICW4_MS \<equiv> 0x04"
abbreviation (input) ICW4_BUF :: u8 where "ICW4_BUF \<equiv> 0x08"
abbreviation (input) ICW4_SFNM :: u8 where "ICW4_SFNM \<equiv> 0x10"
abbreviation (input) OCW3_MARKER :: u8 where "OCW3_MARKER \<equiv> 0x08"
abbreviation (input) OCW3_RIS :: u8 where "OCW3_RIS \<equiv> 0x01"
abbreviation (input) OCW3_RR :: u8 where "OCW3_RR \<equiv> 0x02"
abbreviation (input) OCW3_POLL :: u8 where "OCW3_POLL \<equiv> 0x04"
abbreviation (input) OCW3_SMM :: u8 where "OCW3_SMM \<equiv> 0x20"
abbreviation (input) OCW3_ESMM :: u8 where "OCW3_ESMM \<equiv> 0x40"
abbreviation (input) OCW2_LEVEL :: u8 where "OCW2_LEVEL \<equiv> 0x07"
abbreviation (input) OCW2_EOI :: u8 where "OCW2_EOI \<equiv> 0x20"
abbreviation (input) OCW2_SL :: u8 where "OCW2_SL \<equiv> 0x40"
abbreviation (input) OCW2_R :: u8 where "OCW2_R \<equiv> 0x80"

datatype init_state = INIT_READY | INIT_ICW2 | INIT_ICW3 | INIT_ICW4

record i8259 =
  pic_irr :: u8
  pic_isr :: u8
  pic_imr :: u8
  pic_pins :: u8
  pic_highest_priority :: nat
  pic_vector_base :: u8
  pic_cascade :: u8
  pic_single :: bool
  pic_level_triggered :: bool
  pic_auto_eoi :: bool
  pic_x86_mode :: bool
  pic_buffered :: bool
  pic_master :: bool
  pic_special_fully_nested :: bool
  pic_auto_rotate :: bool
  pic_special_mask :: bool
  pic_read_isr :: bool
  pic_poll_pending :: bool
  pic_init_state :: init_state
  pic_expect_icw4 :: bool
  pic_acknowledging :: bool
  pic_acknowledged_level :: nat

definition i8259_init :: i8259 where
  "i8259_init = \<lparr>pic_irr = 0, pic_isr = 0, pic_imr = 0xFF, pic_pins = 0, pic_highest_priority = 0,
     pic_vector_base = 0, pic_cascade = 0, pic_single = False, pic_level_triggered = False,
     pic_auto_eoi = False, pic_x86_mode = False, pic_buffered = False, pic_master = False,
     pic_special_fully_nested = False, pic_auto_rotate = False, pic_special_mask = False,
     pic_read_isr = False, pic_poll_pending = False, pic_init_state = INIT_ICW2,
     pic_expect_icw4 = False, pic_acknowledging = False, pic_acknowledged_level = 0\<rparr>"

definition begin_initialization :: "u8 \<Rightarrow> i8259 \<Rightarrow> i8259" where
  "begin_initialization value pic =
     (let pic = pic\<lparr>pic_level_triggered := value AND ICW1_LTIM \<noteq> 0,
                    pic_single := value AND ICW1_SNGL \<noteq> 0,
                    pic_expect_icw4 := value AND ICW1_IC4 \<noteq> 0,
                    pic_irr := 0, pic_imr := 0, pic_highest_priority := 0, pic_cascade := 7,
                    pic_special_mask := False, pic_read_isr := False\<rparr>;
          pic = (if value AND ICW1_IC4 = 0
                 then pic\<lparr>pic_auto_eoi := False, pic_x86_mode := False, pic_buffered := False,
                          pic_master := False, pic_special_fully_nested := False\<rparr> else pic)
      in pic\<lparr>pic_isr := 0, pic_auto_rotate := False, pic_poll_pending := False,
             pic_acknowledging := False, pic_init_state := INIT_ICW2\<rparr>)"

definition after_icw2 :: "i8259 \<Rightarrow> bool \<Rightarrow> init_state" where
  "after_icw2 pic ic4 =
     (if \<not> pic_single pic then INIT_ICW3 else if ic4 then INIT_ICW4 else INIT_READY)"

definition i8259_set_request :: "nat \<Rightarrow> bool \<Rightarrow> i8259 \<Rightarrow> bool \<times> i8259" where
  "i8259_set_request line asserted pic =
     (if line \<ge> LEVELS then (False, pic)
      else
        let was_high = pic_pins pic AND bit_of line \<noteq> 0;
            moved = (asserted \<noteq> was_high);
            pic = pic\<lparr>pic_pins := (if asserted then pic_pins pic OR bit_of line
                                   else pic_pins pic AND NOT (bit_of line))\<rparr>
        in if pic_level_triggered pic
           then (moved, pic\<lparr>pic_irr := (if asserted then pic_irr pic OR bit_of line
                                        else pic_irr pic AND NOT (bit_of line))\<rparr>)
           else
             let pic = (if asserted \<and> \<not> was_high then pic\<lparr>pic_irr := pic_irr pic OR bit_of line\<rparr> else pic);
                 pic = (if \<not> asserted then pic\<lparr>pic_irr := pic_irr pic AND NOT (bit_of line)\<rparr> else pic)
             in (moved, pic))"

definition refresh_level_requests :: "i8259 \<Rightarrow> i8259" where
  "refresh_level_requests pic =
     (if pic_level_triggered pic then pic\<lparr>pic_irr := pic_irr pic OR pic_pins pic\<rparr> else pic)"

section \<open>Priority resolution\<close>

definition level_at :: "i8259 \<Rightarrow> nat \<Rightarrow> nat" where
  "level_at pic i = (pic_highest_priority pic + i) mod LEVELS"

fun resolve_walk :: "i8259 \<Rightarrow> u8 \<Rightarrow> u8 \<Rightarrow> nat list \<Rightarrow> nat option" where
  "resolve_walk pic requests blocking [] = None"
| "resolve_walk pic requests blocking (i # is) =
     (let level = level_at pic i in
      if blocking AND bit_of level \<noteq> 0
      then if pic_special_fully_nested pic \<and> requests AND bit_of level \<noteq> 0 then Some level else None
      else if requests AND bit_of level \<noteq> 0 then Some level
      else resolve_walk pic requests blocking is)"

definition resolve :: "i8259 \<Rightarrow> nat option" where
  "resolve pic =
     (let requests = pic_irr pic AND NOT (pic_imr pic) in
      if requests = 0 then None
      else
        let blocking = (if pic_special_mask pic then pic_isr pic AND NOT (pic_imr pic) else pic_isr pic)
        in resolve_walk pic requests blocking [0..<LEVELS])"

definition i8259_interrupt_pending :: "i8259 \<Rightarrow> bool" where
  "i8259_interrupt_pending pic \<longleftrightarrow> resolve pic \<noteq> None"

definition rotate_to_bottom :: "nat \<Rightarrow> i8259 \<Rightarrow> i8259" where
  "rotate_to_bottom level pic = pic\<lparr>pic_highest_priority := (level + 1) mod LEVELS\<rparr>"

definition highest_in_service :: "i8259 \<Rightarrow> nat option" where
  "highest_in_service pic =
     (let candidates = (if pic_special_mask pic then pic_isr pic AND NOT (pic_imr pic) else pic_isr pic)
      in map_option (level_at pic)
           (find (\<lambda>i. candidates AND bit_of (level_at pic i) \<noteq> 0) [0..<LEVELS]))"

section \<open>The registers\<close>

definition write_ocw2 :: "u8 \<Rightarrow> i8259 \<Rightarrow> i8259" where
  "write_ocw2 value pic =
     (let rotate = value AND OCW2_R \<noteq> 0;
          specific = value AND OCW2_SL \<noteq> 0;
          eoi = value AND OCW2_EOI \<noteq> 0;
          level = unat (value AND OCW2_LEVEL)
      in if eoi then
           case (if specific then Some level else highest_in_service pic) of
             None \<Rightarrow> pic
           | Some target \<Rightarrow>
               let pic = pic\<lparr>pic_isr := pic_isr pic AND NOT (bit_of target)\<rparr>
               in if rotate then rotate_to_bottom target pic else pic
         else if rotate \<and> specific then rotate_to_bottom level pic
         else if rotate then pic\<lparr>pic_auto_rotate := True\<rparr>
         else if \<not> specific then pic\<lparr>pic_auto_rotate := False\<rparr>
         else pic)"

definition write_ocw3 :: "u8 \<Rightarrow> i8259 \<Rightarrow> i8259" where
  "write_ocw3 value pic =
     (let pic = (if value AND OCW3_ESMM \<noteq> 0
                 then pic\<lparr>pic_special_mask := value AND OCW3_SMM \<noteq> 0\<rparr> else pic)
      in if value AND OCW3_POLL \<noteq> 0 then pic\<lparr>pic_poll_pending := True\<rparr>
         else if value AND OCW3_RR \<noteq> 0 then pic\<lparr>pic_read_isr := value AND OCW3_RIS \<noteq> 0\<rparr>
         else pic)"

definition i8259_write :: "bool \<Rightarrow> u8 \<Rightarrow> i8259 \<Rightarrow> i8259" where
  "i8259_write a0 value pic =
     (if \<not> a0 \<and> value AND ICW1_MARKER \<noteq> 0 then begin_initialization value pic
      else if a0 then
        case pic_init_state pic of
          INIT_ICW2 \<Rightarrow>
            pic\<lparr>pic_vector_base := value AND 0xF8,
                pic_init_state := after_icw2 pic (pic_expect_icw4 pic)\<rparr>
        | INIT_ICW3 \<Rightarrow>
            pic\<lparr>pic_cascade := value,
                pic_init_state := (if pic_expect_icw4 pic then INIT_ICW4 else INIT_READY)\<rparr>
        | INIT_ICW4 \<Rightarrow>
            pic\<lparr>pic_x86_mode := value AND ICW4_UPM \<noteq> 0, pic_auto_eoi := value AND ICW4_AEOI \<noteq> 0,
                pic_buffered := value AND ICW4_BUF \<noteq> 0, pic_master := value AND ICW4_MS \<noteq> 0,
                pic_special_fully_nested := value AND ICW4_SFNM \<noteq> 0, pic_init_state := INIT_READY\<rparr>
        | INIT_READY \<Rightarrow> pic\<lparr>pic_imr := value\<rparr>
      else if value AND OCW3_MARKER \<noteq> 0 then write_ocw3 value pic
      else write_ocw2 value pic)"

text \<open>Putting a level in service, shared by the poll and the first acknowledge cycle.\<close>

definition enter_service :: "nat \<Rightarrow> i8259 \<Rightarrow> i8259" where
  "enter_service level pic =
     refresh_level_requests (pic\<lparr>pic_isr := pic_isr pic OR bit_of level,
       pic_irr := pic_irr pic AND NOT (bit_of level)\<rparr>)"

definition i8259_read :: "bool \<Rightarrow> i8259 \<Rightarrow> u8 \<times> i8259" where
  "i8259_read a0 pic =
     (if a0 then (pic_imr pic, pic)
      else if pic_poll_pending pic then
        let pic = pic\<lparr>pic_poll_pending := False\<rparr>
        in case resolve pic of
             None \<Rightarrow> (0, pic)
           | Some level \<Rightarrow> (0x80 OR of_nat level, enter_service level pic)
      else (if pic_read_isr pic then pic_isr pic else pic_irr pic, pic))"

definition i8259_acknowledge_first :: "i8259 \<Rightarrow> nat \<times> i8259" where
  "i8259_acknowledge_first pic =
     (case resolve pic of
        None \<Rightarrow> (7, pic\<lparr>pic_acknowledging := True, pic_acknowledged_level := 7\<rparr>)
      | Some level \<Rightarrow>
          (level, (enter_service level pic)\<lparr>pic_acknowledging := True, pic_acknowledged_level := level\<rparr>))"

definition i8259_acknowledge_second :: "i8259 \<Rightarrow> u8 \<times> i8259" where
  "i8259_acknowledge_second pic =
     (let level = pic_acknowledged_level pic;
          pic = pic\<lparr>pic_acknowledging := False\<rparr>;
          pic = (if pic_auto_eoi pic then
                   case highest_in_service pic of
                     None \<Rightarrow> pic
                   | Some target \<Rightarrow>
                       let pic = pic\<lparr>pic_isr := pic_isr pic AND NOT (bit_of target)\<rparr>
                       in if pic_auto_rotate pic then rotate_to_bottom target pic else pic
                 else pic)
      in (pic_vector_base pic OR of_nat level, pic))"

definition i8259_vectoring_supported :: "i8259 \<Rightarrow> bool" where
  "i8259_vectoring_supported pic = pic_x86_mode pic"

section \<open>The specification of the encoder\<close>

text \<open>How far a level is from the top, under the rotation in force.\<close>

definition rank :: "i8259 \<Rightarrow> nat \<Rightarrow> nat" where
  "rank pic level = (level + LEVELS - pic_highest_priority pic) mod LEVELS"

definition requested :: "i8259 \<Rightarrow> nat \<Rightarrow> bool" where
  "requested pic level \<longleftrightarrow> bit (pic_irr pic) level \<and> \<not> bit (pic_imr pic) level"

text \<open>A level in service that still shuts others out: in the special mask mode, an unmasked one.\<close>

definition blocks :: "i8259 \<Rightarrow> nat \<Rightarrow> bool" where
  "blocks pic level \<longleftrightarrow> bit (pic_isr pic) level \<and> (pic_special_mask pic \<longrightarrow> \<not> bit (pic_imr pic) level)"

definition wf_pic :: "i8259 \<Rightarrow> bool" where
  "wf_pic pic \<longleftrightarrow> pic_highest_priority pic < LEVELS"

lemma rank_level_at: "wf_pic pic \<Longrightarrow> i < LEVELS \<Longrightarrow> rank pic (level_at pic i) = i"
proof -
  assume "wf_pic pic" "i < LEVELS"
  then have h: "pic_highest_priority pic < 8" "i < 8" by (simp_all add: wf_pic_def LEVELS_def)
  then show ?thesis
    by (cases "pic_highest_priority pic + i < 8")
      (simp_all add: rank_def level_at_def LEVELS_def le_mod_geq)
qed

lemma level_at_rank: "wf_pic pic \<Longrightarrow> l < LEVELS \<Longrightarrow> level_at pic (rank pic l) = l"
proof -
  assume "wf_pic pic" "l < LEVELS"
  then have h: "pic_highest_priority pic < 8" "l < 8" by (simp_all add: wf_pic_def LEVELS_def)
  then show ?thesis
    by (cases "l < pic_highest_priority pic")
      (simp_all add: rank_def level_at_def LEVELS_def le_mod_geq)
qed

lemma rank_less: "rank pic l < LEVELS" and level_at_less: "level_at pic i < LEVELS"
  by (simp_all add: rank_def level_at_def LEVELS_def)

lemma rank_inj: "wf_pic pic \<Longrightarrow> l < LEVELS \<Longrightarrow> l' < LEVELS \<Longrightarrow> rank pic l = rank pic l' \<Longrightarrow> l = l'"
  by (metis level_at_rank)

lemma resolve_walk_iff:
  "resolve_walk pic req blk is = Some L \<longleftrightarrow>
   (\<exists>k < length is. L = level_at pic (is ! k) \<and> bit req L \<and> (bit blk L \<longrightarrow> pic_special_fully_nested pic) \<and>
     (\<forall>j < k. \<not> bit req (level_at pic (is ! j)) \<and> \<not> bit blk (level_at pic (is ! j))))"
proof (induction "is")
  case (Cons i "is")
  have "(\<exists>k < length (i # is). L = level_at pic ((i # is) ! k) \<and> bit req L \<and>
      (bit blk L \<longrightarrow> pic_special_fully_nested pic) \<and>
      (\<forall>j < k. \<not> bit req (level_at pic ((i # is) ! j)) \<and> \<not> bit blk (level_at pic ((i # is) ! j)))) \<longleftrightarrow>
    (L = level_at pic i \<and> bit req L \<and> (bit blk L \<longrightarrow> pic_special_fully_nested pic)) \<or>
    (\<not> bit req (level_at pic i) \<and> \<not> bit blk (level_at pic i) \<and> resolve_walk pic req blk is = Some L)"
    unfolding Cons.IH by (simp add: Ex_less_Suc2 All_less_Suc2) blast
  then show ?case by (auto simp: Let_def)
qed simp

lemma resolve_unfold:
  "resolve pic = resolve_walk pic (pic_irr pic AND NOT (pic_imr pic))
     (if pic_special_mask pic then pic_isr pic AND NOT (pic_imr pic) else pic_isr pic) [0..<LEVELS]"
proof (cases "pic_irr pic AND NOT (pic_imr pic) = 0")
  case True
  have "resolve_walk pic 0 blk is = None" for blk "is"
    by (induction "is") (auto simp: Let_def)
  with True show ?thesis by (simp add: resolve_def)
qed (simp add: resolve_def Let_def)

lemma requested_bit: "bit (pic_irr pic AND NOT (pic_imr pic)) l \<longleftrightarrow> requested pic l"
  using bit_imp_le_length [of "pic_irr pic" l] by (auto simp: requested_def bit_and_iff bit_not_iff)

lemma blocks_bit:
  "bit (if pic_special_mask pic then pic_isr pic AND NOT (pic_imr pic) else pic_isr pic) l \<longleftrightarrow> blocks pic l"
  using bit_imp_le_length [of "pic_isr pic" l] by (auto simp: blocks_def bit_and_iff bit_not_iff)

lemma resolve_iff:
  assumes "wf_pic pic"
  shows "resolve pic = Some L \<longleftrightarrow>
    L < LEVELS \<and> requested pic L \<and> (blocks pic L \<longrightarrow> pic_special_fully_nested pic) \<and>
    (\<forall>l < LEVELS. rank pic l < rank pic L \<longrightarrow> \<not> requested pic l \<and> \<not> blocks pic l)"
  (is "_ \<longleftrightarrow> ?spec")
proof -
  have "resolve pic = Some L \<longleftrightarrow>
    (\<exists>k < LEVELS. L = level_at pic k \<and> requested pic L \<and> (blocks pic L \<longrightarrow> pic_special_fully_nested pic) \<and>
      (\<forall>j < k. \<not> requested pic (level_at pic j) \<and> \<not> blocks pic (level_at pic j)))"
    unfolding resolve_unfold resolve_walk_iff requested_bit blocks_bit by (intro ex_cong1) auto
  also have "\<dots> \<longleftrightarrow> ?spec"
  proof
    assume "\<exists>k < LEVELS. L = level_at pic k \<and> requested pic L \<and> (blocks pic L \<longrightarrow> pic_special_fully_nested pic) \<and>
      (\<forall>j < k. \<not> requested pic (level_at pic j) \<and> \<not> blocks pic (level_at pic j))"
    then obtain k where k: "k < LEVELS" "L = level_at pic k" "requested pic L"
      "blocks pic L \<longrightarrow> pic_special_fully_nested pic"
      "\<And>j. j < k \<Longrightarrow> \<not> requested pic (level_at pic j) \<and> \<not> blocks pic (level_at pic j)" by blast
    have "\<not> requested pic l \<and> \<not> blocks pic l" if "l < LEVELS" "rank pic l < rank pic L" for l
      using k(5) [of "rank pic l"] that k(1,2) level_at_rank [OF assms that(1)]
      by (simp add: rank_level_at [OF assms])
    with k show ?spec using level_at_less by blast
  next
    assume s: ?spec
    have "\<not> requested pic (level_at pic j) \<and> \<not> blocks pic (level_at pic j)" if "j < rank pic L" for j
    proof -
      have "j < LEVELS" using that rank_less [of pic L] by simp
      then have "rank pic (level_at pic j) = j" by (rule rank_level_at [OF assms])
      with s that level_at_less show ?thesis by auto
    qed
    with s show "\<exists>k < LEVELS. L = level_at pic k \<and> requested pic L \<and>
        (blocks pic L \<longrightarrow> pic_special_fully_nested pic) \<and>
        (\<forall>j < k. \<not> requested pic (level_at pic j) \<and> \<not> blocks pic (level_at pic j))"
      using level_at_rank [OF assms, of L] rank_less [of pic L] by (intro exI [of _ "rank pic L"]) auto
  qed
  finally show ?thesis .
qed

lemma highest_in_service_iff:
  assumes "wf_pic pic"
  shows "highest_in_service pic = Some L \<longleftrightarrow>
    L < LEVELS \<and> blocks pic L \<and> (\<forall>l < LEVELS. rank pic l < rank pic L \<longrightarrow> \<not> blocks pic l)"
proof -
  define c where "c = (if pic_special_mask pic then pic_isr pic AND NOT (pic_imr pic) else pic_isr pic)"
  have c: "bit c l \<longleftrightarrow> blocks pic l" for l unfolding c_def by (rule blocks_bit)
  have f: "highest_in_service pic =
      map_option (level_at pic) (find (\<lambda>i. blocks pic (level_at pic i)) [0..<LEVELS])"
    by (simp add: highest_in_service_def Let_def c flip: c_def)
  show ?thesis
  proof (cases "find (\<lambda>i. blocks pic (level_at pic i)) [0..<LEVELS]")
    case None
    then have "\<not> blocks pic (level_at pic i)" if "i < LEVELS" for i
      using that by (auto simp: find_None_iff)
    then have "\<not> blocks pic l" if "l < LEVELS" for l
      using that level_at_rank [OF assms that] rank_less [of pic l] by metis
    then show ?thesis using None by (auto simp: f)
  next
    case (Some k)
    then have k: "k < LEVELS" "blocks pic (level_at pic k)"
      and less: "\<And>j. j < k \<Longrightarrow> \<not> blocks pic (level_at pic j)"
      by (auto simp: find_Some_iff)
    have first: "\<not> blocks pic l" if "l < LEVELS" "rank pic l < k" for l
      using less [OF that(2)] level_at_rank [OF assms that(1)] by simp
    show ?thesis
    proof
      assume "highest_in_service pic = Some L"
      then have "L = level_at pic k" by (simp add: f Some)
      then show "L < LEVELS \<and> blocks pic L \<and> (\<forall>l < LEVELS. rank pic l < rank pic L \<longrightarrow> \<not> blocks pic l)"
        using k first level_at_less rank_level_at [OF assms] by auto
    next
      assume L: "L < LEVELS \<and> blocks pic L \<and> (\<forall>l < LEVELS. rank pic l < rank pic L \<longrightarrow> \<not> blocks pic l)"
      then have "\<not> rank pic L < k" using first by blast
      moreover have "\<not> k < rank pic L"
        using L k level_at_less rank_level_at [OF assms k(1)] by metis
      ultimately have "rank pic L = k" by simp
      then have "L = level_at pic k" using L level_at_rank [OF assms] by metis
      then show "highest_in_service pic = Some L" by (simp add: f Some)
    qed
  qed
qed

section \<open>Service and its end\<close>

lemma wf_pic_ops:
  assumes "wf_pic pic"
  shows "wf_pic (i8259_write a0 v pic)" "wf_pic (snd (i8259_read a0 pic))"
    "wf_pic (snd (i8259_set_request line b pic))" "wf_pic (snd (i8259_acknowledge_first pic))"
    "wf_pic (snd (i8259_acknowledge_second pic))" "wf_pic (enter_service l pic)"
  using assms
  by (auto simp: wf_pic_def i8259_write_def begin_initialization_def write_ocw2_def write_ocw3_def
      i8259_read_def i8259_set_request_def i8259_acknowledge_first_def i8259_acknowledge_second_def
      enter_service_def refresh_level_requests_def rotate_to_bottom_def LEVELS_def Let_def
      split: init_state.split option.split)

lemma enter_service_fields [simp]:
  "pic_isr (enter_service l pic) = pic_isr pic OR bit_of l"
  "pic_imr (enter_service l pic) = pic_imr pic"
  "pic_pins (enter_service l pic) = pic_pins pic"
  "pic_special_mask (enter_service l pic) = pic_special_mask pic"
  "pic_special_fully_nested (enter_service l pic) = pic_special_fully_nested pic"
  "pic_highest_priority (enter_service l pic) = pic_highest_priority pic"
  by (simp_all add: enter_service_def refresh_level_requests_def)

lemma rank_enter [simp]: "rank (enter_service l pic) = rank pic"
  by (simp add: rank_def fun_eq_iff)

lemma blocks_enter:
  "L < LEVELS \<Longrightarrow> requested pic L \<Longrightarrow> blocks (enter_service L pic) l \<longleftrightarrow> blocks pic l \<or> l = L"
  by (auto simp: blocks_def requested_def LEVELS_def)

lemma service_shuts_out:
  assumes "wf_pic pic" "resolve pic = Some L" "\<not> pic_special_fully_nested pic"
    and "resolve (enter_service L pic) = Some L'"
  shows "rank pic L' < rank pic L"
proof -
  have L: "L < LEVELS" "requested pic L" using assms(1,2) by (simp_all add: resolve_iff)
  have wf: "wf_pic (enter_service L pic)" by (rule wf_pic_ops [OF assms(1)])
  have L': "L' < LEVELS" "\<not> blocks (enter_service L pic) L'"
    "\<And>l. l < LEVELS \<Longrightarrow> rank pic l < rank pic L' \<Longrightarrow> \<not> blocks (enter_service L pic) l"
    using assms(3,4) by (simp_all add: resolve_iff [OF wf])
  have "L' \<noteq> L" using L' by (auto simp: blocks_enter [OF L])
  moreover have "\<not> rank pic L < rank pic L'" using L'(3) [OF L(1)] by (auto simp: blocks_enter [OF L])
  ultimately show ?thesis using rank_inj [OF assms(1) L(1) L'(1)] by (metis linorder_neqE_nat)
qed

lemma service_then_eoi:
  assumes "wf_pic pic" "resolve pic = Some L" "\<not> pic_special_fully_nested pic" "\<not> pic_special_mask pic"
  shows "highest_in_service (enter_service L pic) = Some L"
    and "pic_isr (write_ocw2 0x20 (enter_service L pic)) = pic_isr pic"
proof -
  have L: "L < LEVELS" "requested pic L" "\<not> blocks pic L"
    "\<And>l. l < LEVELS \<Longrightarrow> rank pic l < rank pic L \<Longrightarrow> \<not> blocks pic l"
    using assms by (simp_all add: resolve_iff)
  have wf: "wf_pic (enter_service L pic)" by (rule wf_pic_ops [OF assms(1)])
  show top: "highest_in_service (enter_service L pic) = Some L"
    using L by (auto simp: highest_in_service_iff [OF wf] blocks_enter [OF L(1,2)])
  have "\<not> bit (pic_isr pic) L" using L(3) assms(4) by (simp add: blocks_def)
  then show "pic_isr (write_ocw2 0x20 (enter_service L pic)) = pic_isr pic"
    by (auto simp: write_ocw2_def top intro!: bit_word_eqI)
qed

section \<open>The initialization sequence\<close>

text \<open>The words after ICW1, all with A0 set; how many of them ICW1 announces.\<close>

definition initialize :: "u8 \<Rightarrow> u8 list \<Rightarrow> i8259 \<Rightarrow> i8259" where
  "initialize icw1 ws pic = fold (i8259_write True) ws (i8259_write False icw1 pic)"

definition announced :: "u8 \<Rightarrow> nat" where
  "announced icw1 = 1 + (if icw1 AND ICW1_SNGL = 0 then 1 else 0) + (if icw1 AND ICW1_IC4 \<noteq> 0 then 1 else 0)"

definition after_icw1 :: "u8 \<Rightarrow> i8259 \<Rightarrow> bool" where
  "after_icw1 icw1 pic \<longleftrightarrow> pic_init_state pic = INIT_ICW2 \<and> pic_imr pic = 0 \<and>
     pic_single pic = (icw1 AND ICW1_SNGL \<noteq> 0) \<and> pic_expect_icw4 pic = (icw1 AND ICW1_IC4 \<noteq> 0)"

lemma begin_after_icw1: "after_icw1 icw1 (begin_initialization icw1 pic)"
  by (simp add: after_icw1_def begin_initialization_def Let_def)

lemma initialize_ready:
  assumes "icw1 AND ICW1_MARKER \<noteq> 0" "length ws \<le> announced icw1"
  shows "pic_init_state (initialize icw1 ws pic) = INIT_READY \<longleftrightarrow> length ws = announced icw1"
    and "pic_imr (initialize icw1 ws pic) = 0"
proof -
  define p where "p = begin_initialization icw1 pic"
  have p: "pic_init_state p = INIT_ICW2" "pic_imr p = 0"
    "pic_single p = (icw1 AND ICW1_SNGL \<noteq> 0)" "pic_expect_icw4 p = (icw1 AND ICW1_IC4 \<noteq> 0)"
    using begin_after_icw1 [of icw1 pic] by (simp_all add: p_def after_icw1_def)
  have i: "initialize icw1 ws pic = fold (i8259_write True) ws p"
    using assms(1) by (simp add: initialize_def i8259_write_def p_def)
  obtain ws' where ws: "ws = [] \<or> (\<exists>a. ws = [a]) \<or> (\<exists>a b. ws = [a, b]) \<or> (\<exists>a b c. ws = [a, b, c])"
    using assms(2)
    by (cases ws; cases "tl ws"; cases "tl (tl ws)"; cases "tl (tl (tl ws))")
      (auto simp: announced_def split: if_splits)
  then show "pic_init_state (initialize icw1 ws pic) = INIT_READY \<longleftrightarrow> length ws = announced icw1"
    "pic_imr (initialize icw1 ws pic) = 0"
    using p assms(2) unfolding i
    by (auto simp: i8259_write_def after_icw2_def announced_def split: if_splits)
qed

section \<open>Properties\<close>

text \<open>C20: the level the controller picks is exactly the specified one. It is an unmasked request,
  no level of higher priority under the rotation in force is asking or in service (an in-service
  level masked in the special mask mode does not count), and it is not in service itself unless
  the part is in the special fully nested mode; no level is picked when there is none such.\<close>

theorem resolve_picks_highest:
  assumes "wf_pic pic"
  shows "resolve pic = Some L \<longleftrightarrow>
    L < LEVELS \<and> requested pic L \<and> (blocks pic L \<longrightarrow> pic_special_fully_nested pic) \<and>
    (\<forall>l < LEVELS. rank pic l < rank pic L \<longrightarrow> \<not> requested pic l \<and> \<not> blocks pic l)"
  by (rule resolve_iff [OF assms])

lemma resolve_picks_highest_witness:
  "requested (i8259_init\<lparr>pic_imr := 0, pic_irr := 0x14, pic_highest_priority := 3\<rparr>) 4 \<and>
   \<not> blocks (i8259_init\<lparr>pic_imr := 0, pic_irr := 0x14, pic_highest_priority := 3\<rparr>) 3"
proof -
  let ?p = "i8259_init\<lparr>pic_imr := 0, pic_irr := 0x14, pic_highest_priority := 3\<rparr>"
  have "wf_pic ?p" by (simp add: wf_pic_def i8259_init_def LEVELS_def)
  moreover have "resolve ?p = Some 4" by code_simp
  ultimately have "requested ?p 4 \<and> (\<forall>l < LEVELS. rank ?p l < rank ?p 4 \<longrightarrow> \<not> requested ?p l \<and> \<not> blocks ?p l)"
    by (simp add: resolve_picks_highest)
  moreover have "3 < LEVELS" "rank ?p 3 < rank ?p 4" by code_simp+
  ultimately show ?thesis by blast
qed

text \<open>Full nesting. Once a level has been acknowledged, only a level of strictly higher priority
  can interrupt; and a non-specific end of interrupt finds that level and restores the in-service
  register to what it was before the acknowledge.\<close>

theorem acknowledge_nests_and_eoi_restores:
  assumes "wf_pic pic" and "resolve pic = Some L"
    and "\<not> pic_special_fully_nested pic" and "\<not> pic_special_mask pic"
  shows "fst (i8259_acknowledge_first pic) = L \<and>
    (\<forall>L'. resolve (snd (i8259_acknowledge_first pic)) = Some L' \<longrightarrow> rank pic L' < rank pic L) \<and>
    pic_isr (i8259_write False 0x20 (snd (i8259_acknowledge_first pic))) = pic_isr pic"
proof -
  let ?p = "enter_service L pic"
  let ?q = "?p\<lparr>pic_acknowledging := True, pic_acknowledged_level := L\<rparr>"
  have q: "i8259_acknowledge_first pic = (L, ?q)" using assms(2) by (simp add: i8259_acknowledge_first_def)
  have "resolve_walk ?q r b is = resolve_walk ?p r b is" for r b "is"
    by (induction "is") (simp_all add: level_at_def Let_def cong: if_cong)
  then have "resolve ?q = resolve ?p" by (simp add: resolve_unfold)
  moreover have "highest_in_service ?q = highest_in_service ?p"
    by (simp add: highest_in_service_def level_at_def [abs_def])
  then have "pic_isr (write_ocw2 0x20 ?q) = pic_isr (write_ocw2 0x20 ?p)"
    by (simp add: write_ocw2_def split: option.split)
  then have "pic_isr (i8259_write False 0x20 ?q) = pic_isr pic"
    using service_then_eoi(2) [OF assms] by (simp add: i8259_write_def)
  ultimately show ?thesis
    using service_shuts_out [OF assms(1-3)] q by simp
qed

lemma acknowledge_nests_and_eoi_restores_witness:
  "pic_isr (i8259_write False 0x20 (snd (i8259_acknowledge_first
     (i8259_init\<lparr>pic_imr := 0, pic_irr := 0x24, pic_isr := 0x10\<rparr>)))) = 0x10"
proof -
  have "wf_pic (i8259_init\<lparr>pic_imr := 0, pic_irr := 0x24, pic_isr := 0x10\<rparr>)"
    by (simp add: wf_pic_def i8259_init_def LEVELS_def)
  moreover have "resolve (i8259_init\<lparr>pic_imr := 0, pic_irr := 0x24, pic_isr := 0x10\<rparr>) = Some 2"
    by code_simp
  ultimately show ?thesis
    using acknowledge_nests_and_eoi_restores [of "i8259_init\<lparr>pic_imr := 0, pic_irr := 0x24, pic_isr := 0x10\<rparr>" 2]
    by (simp add: i8259_init_def)
qed

text \<open>A spurious acknowledge. With no request left, both cycles together answer level 7 (vector
  base plus seven), put nothing in service and leave every request and the mask alone.\<close>

theorem spurious_acknowledge:
  assumes "resolve pic = None" and "\<not> pic_auto_eoi pic"
  shows "fst (i8259_acknowledge_first pic) = 7 \<and>
    fst (i8259_acknowledge_second (snd (i8259_acknowledge_first pic))) = pic_vector_base pic OR 7 \<and>
    snd (i8259_acknowledge_second (snd (i8259_acknowledge_first pic))) =
      pic\<lparr>pic_acknowledging := False, pic_acknowledged_level := 7\<rparr>"
  using assms by (simp add: i8259_acknowledge_first_def i8259_acknowledge_second_def)

lemma spurious_acknowledge_witness:
  "fst (i8259_acknowledge_second (snd (i8259_acknowledge_first i8259_init))) = 7"
  using spurious_acknowledge [of i8259_init] by (simp add: resolve_def i8259_init_def)

text \<open>The initialization sequence. Whatever state the part is in, ICW1 followed by data words
  reaches the ready state with exactly the words ICW1 announced (ICW2, then ICW3 unless single,
  then ICW4 if asked for) and with none fewer, and every line is unmasked.\<close>

theorem initialization_takes_announced_words:
  assumes "icw1 AND ICW1_MARKER \<noteq> 0" and "length ws \<le> announced icw1"
  shows "(pic_init_state (initialize icw1 ws pic) = INIT_READY \<longleftrightarrow> length ws = announced icw1) \<and>
    pic_imr (initialize icw1 ws pic) = 0"
  using initialize_ready [OF assms] by blast

lemma initialization_takes_announced_words_witness:
  "pic_init_state (initialize 0x11 [0x60, 0x08, 0x01] i8259_init) = INIT_READY"
  using initialization_takes_announced_words [of "0x11" "[0x60, 0x08, 0x01]" i8259_init]
  by (simp add: announced_def)

end
