(* ===== verification/Board_Intr.thy ===== *)
theory Board_Intr
  imports Dev_I8259
begin

unbundle bit_operations_syntax

text \<open>
  \<^verbatim>\<open>src/core/board/ap_intr.{h,c}\<close>: the two cascaded interrupt controllers of the board. The
  slave's interrupt output is wired to line 3 of the master, and keeping that pin in step is the
  board's job (\<open>update_cascade\<close>).

  The invariant \<open>cascade_in_step\<close> says that the master's pin 3 shows the slave's output. Every
  operation keeps it, with one exception the lemmas isolate: driving a slave line that does not
  move while the slave is level triggered with a request withdrawn behind a pin still high.
\<close>

definition INTR_MASTER_ADDR :: u32 where "INTR_MASTER_ADDR = 0x011000"
definition INTR_SLAVE_ADDR :: u32 where "INTR_SLAVE_ADDR = 0x011100"
definition INTR_RANGE :: u32 where "INTR_RANGE = 0x100"
definition CASCADE_LINE :: nat where "CASCADE_LINE = 3"
definition INTR_LINES :: nat where "INTR_LINES = 16"

record intr =
  in_master :: i8259
  in_slave :: i8259

definition update_cascade :: "intr \<Rightarrow> intr" where
  "update_cascade intr =
     intr\<lparr>in_master := snd (i8259_set_request CASCADE_LINE (i8259_interrupt_pending (in_slave intr))
                             (in_master intr))\<rparr>"

definition intr_reset :: intr where
  "intr_reset = update_cascade \<lparr>in_master = i8259_init, in_slave = i8259_init\<rparr>"

text \<open>\<open>Some (is_slave, a0)\<close>, or \<open>None\<close> for an address that is neither controller's.\<close>

definition intr_decode :: "u32 \<Rightarrow> (bool \<times> bool) option" where
  "intr_decode address =
     (let base = address AND NOT (INTR_RANGE - 1) in
      if base \<noteq> INTR_MASTER_ADDR \<and> base \<noteq> INTR_SLAVE_ADDR then None
      else Some (base = INTR_SLAVE_ADDR, address AND 1 \<noteq> 0))"

definition intr_read :: "u32 \<Rightarrow> intr \<Rightarrow> u8 \<times> intr" where
  "intr_read address intr =
     (case intr_decode address of
        None \<Rightarrow> (0, intr)
      | Some (is_slave, a0) \<Rightarrow>
          if is_slave then
            let (value, p) = i8259_read a0 (in_slave intr)
            in (value, update_cascade (intr\<lparr>in_slave := p\<rparr>))
          else
            let (value, p) = i8259_read a0 (in_master intr) in (value, intr\<lparr>in_master := p\<rparr>))"

definition intr_write :: "u32 \<Rightarrow> u8 \<Rightarrow> intr \<Rightarrow> intr" where
  "intr_write address value intr =
     (case intr_decode address of
        None \<Rightarrow> intr
      | Some (is_slave, a0) \<Rightarrow>
          if is_slave
          then update_cascade (intr\<lparr>in_slave := i8259_write a0 value (in_slave intr)\<rparr>)
          else intr\<lparr>in_master := i8259_write a0 value (in_master intr)\<rparr>)"

definition intr_set_request :: "nat \<Rightarrow> bool \<Rightarrow> intr \<Rightarrow> intr" where
  "intr_set_request irq asserted intr =
     (if irq \<ge> INTR_LINES then intr
      else if irq < LEVELS then
        if irq = CASCADE_LINE then intr
        else intr\<lparr>in_master := snd (i8259_set_request irq asserted (in_master intr))\<rparr>
      else
        let (moved, p) = i8259_set_request (irq - LEVELS) asserted (in_slave intr);
            intr = intr\<lparr>in_slave := p\<rparr>
        in if moved then update_cascade intr else intr)"

definition intr_pending :: "intr \<Rightarrow> bool" where
  "intr_pending intr = i8259_interrupt_pending (in_master intr)"

definition intr_acknowledge :: "intr \<Rightarrow> u8 \<times> intr" where
  "intr_acknowledge intr =
     (let (level, m) = i8259_acknowledge_first (in_master intr) in
      if level \<noteq> CASCADE_LINE then
        let (vector, m) = i8259_acknowledge_second m in (vector, intr\<lparr>in_master := m\<rparr>)
      else
        let (_, m) = i8259_acknowledge_second m;
            (_, s) = i8259_acknowledge_first (in_slave intr);
            (vector, s) = i8259_acknowledge_second s
        in (vector, update_cascade (intr\<lparr>in_master := m, in_slave := s\<rparr>)))"

section \<open>The cascade invariant\<close>

definition cascade_in_step :: "intr \<Rightarrow> bool" where
  "cascade_in_step intr \<longleftrightarrow>
     bit (pic_pins (in_master intr)) CASCADE_LINE = i8259_interrupt_pending (in_slave intr)"

text \<open>A part holds no request behind a pin that is low; in level mode a high pin is a request.\<close>

definition requests_follow_pins :: "i8259 \<Rightarrow> bool" where
  "requests_follow_pins pic \<longleftrightarrow> (\<forall>k. bit (pic_irr pic) k \<longrightarrow> bit (pic_pins pic) k)"

definition level_latched :: "i8259 \<Rightarrow> bool" where
  "level_latched pic \<longleftrightarrow> (pic_level_triggered pic \<longrightarrow> pic_irr pic = pic_pins pic)"

lemma update_cascade_in_step: "cascade_in_step (update_cascade intr)"
  by (auto simp: cascade_in_step_def update_cascade_def i8259_set_request_def Let_def CASCADE_LINE_def
      LEVELS_def)

lemma pins_kept:
  "pic_pins (i8259_write a0 v pic) = pic_pins pic"
  "pic_pins (snd (i8259_read a0 pic)) = pic_pins pic"
  "pic_pins (snd (i8259_acknowledge_first pic)) = pic_pins pic"
  "pic_pins (snd (i8259_acknowledge_second pic)) = pic_pins pic"
  by (auto simp: i8259_write_def begin_initialization_def write_ocw2_def write_ocw3_def
      i8259_read_def i8259_acknowledge_first_def i8259_acknowledge_second_def rotate_to_bottom_def
      Let_def split: init_state.split option.split)

lemma unmoved_line_keeps_request:
  assumes "requests_follow_pins pic" "level_latched pic" "i8259_set_request line b pic = (False, pic')"
  shows "pic' = pic"
proof (cases "line < LEVELS")
  case True
  with assms(3) have b: "b = bit (pic_pins pic) line"
    and pins: "pic_pins pic' = pic_pins pic"
    by (auto simp: i8259_set_request_def Let_def split: if_splits intro!: bit_word_eqI)
  have irr: "pic_irr pic' = pic_irr pic"
    using True assms b
    by (auto simp: i8259_set_request_def Let_def requests_follow_pins_def level_latched_def
        split: if_splits intro!: bit_word_eqI)
  show ?thesis
    using assms(3) True pins irr by (auto simp: i8259_set_request_def Let_def split: if_splits)
next
  case False
  then show ?thesis using assms(3) by (simp add: i8259_set_request_def)
qed

lemma requests_follow_pins_ops:
  assumes "requests_follow_pins pic"
  shows "requests_follow_pins (i8259_write a0 v pic)"
    "requests_follow_pins (snd (i8259_read a0 pic))"
    "requests_follow_pins (snd (i8259_set_request line b pic))"
    "requests_follow_pins (snd (i8259_acknowledge_first pic))"
    "requests_follow_pins (snd (i8259_acknowledge_second pic))"
  using assms
  by (auto simp: requests_follow_pins_def i8259_write_def begin_initialization_def write_ocw2_def
      write_ocw3_def i8259_read_def i8259_set_request_def i8259_acknowledge_first_def
      i8259_acknowledge_second_def enter_service_def refresh_level_requests_def rotate_to_bottom_def
      bit_or_iff Let_def split: init_state.split option.split)

definition intr_inv :: "intr \<Rightarrow> bool" where
  "intr_inv intr \<longleftrightarrow> cascade_in_step intr \<and> requests_follow_pins (in_slave intr)"

lemma update_cascade_slave [simp]: "in_slave (update_cascade intr) = in_slave intr"
  by (simp add: update_cascade_def)

lemma intr_inv_update:
  "requests_follow_pins (in_slave intr) \<Longrightarrow> intr_inv (update_cascade intr)"
  by (simp add: intr_inv_def update_cascade_in_step)

lemma intr_inv_master:
  "intr_inv intr \<Longrightarrow> bit (pic_pins m) CASCADE_LINE = bit (pic_pins (in_master intr)) CASCADE_LINE \<Longrightarrow>
   intr_inv (intr\<lparr>in_master := m\<rparr>)"
  by (simp add: intr_inv_def cascade_in_step_def)

lemma intr_inv_reset: "intr_inv intr_reset"
  unfolding intr_reset_def by (rule intr_inv_update) (simp add: requests_follow_pins_def i8259_init_def)

lemma intr_inv_read:
  assumes "intr_inv intr" shows "intr_inv (snd (intr_read address intr))"
proof -
  have slave: "requests_follow_pins (snd (i8259_read a0 (in_slave intr)))" for a0
    using assms by (simp add: intr_inv_def requests_follow_pins_ops)
  have master: "intr_inv (intr\<lparr>in_master := snd (i8259_read a0 (in_master intr))\<rparr>)" for a0
    by (rule intr_inv_master [OF assms]) (simp add: pins_kept)
  have up: "intr_inv (update_cascade (intr\<lparr>in_slave := snd (i8259_read a0 (in_slave intr))\<rparr>))" for a0
    by (rule intr_inv_update) (simp add: slave)
  show ?thesis
    using assms master up by (simp add: intr_read_def case_prod_unfold Let_def split: option.split)
qed

lemma intr_inv_write:
  assumes "intr_inv intr" shows "intr_inv (intr_write address v intr)"
proof -
  have slave: "requests_follow_pins (i8259_write a0 v (in_slave intr))" for a0
    using assms by (simp add: intr_inv_def requests_follow_pins_ops)
  have master: "intr_inv (intr\<lparr>in_master := i8259_write a0 v (in_master intr)\<rparr>)" for a0
    by (rule intr_inv_master [OF assms]) (simp add: pins_kept)
  have up: "intr_inv (update_cascade (intr\<lparr>in_slave := i8259_write a0 v (in_slave intr)\<rparr>))" for a0
    by (rule intr_inv_update) (simp add: slave)
  show ?thesis
    using assms master up by (simp add: intr_write_def case_prod_unfold Let_def split: option.split)
qed

lemma intr_inv_set_request:
  assumes "intr_inv intr" "level_latched (in_slave intr)"
  shows "intr_inv (intr_set_request irq b intr)"
proof -
  have master: "intr_inv (intr\<lparr>in_master := snd (i8259_set_request irq b (in_master intr))\<rparr>)"
    if "irq \<noteq> CASCADE_LINE"
    using that by (intro intr_inv_master [OF assms(1)])
      (auto simp: i8259_set_request_def Let_def CASCADE_LINE_def)
  obtain moved p where p: "i8259_set_request (irq - LEVELS) b (in_slave intr) = (moved, p)" by fastforce
  have "requests_follow_pins p"
    using requests_follow_pins_ops(3) [of "in_slave intr" "irq - LEVELS" b] assms p
    by (simp add: intr_inv_def)
  then have up: "intr_inv (update_cascade (intr\<lparr>in_slave := p\<rparr>))" by (intro intr_inv_update) simp
  have "p = in_slave intr" if "\<not> moved"
    using unmoved_line_keeps_request [of "in_slave intr" "irq - LEVELS" b p] assms p that
    by (simp add: intr_inv_def)
  then show ?thesis
    using assms master up by (auto simp: intr_set_request_def p Let_def)
qed

lemma intr_inv_acknowledge:
  assumes "intr_inv intr" shows "intr_inv (snd (intr_acknowledge intr))"
proof -
  have "bit (pic_pins (snd (i8259_acknowledge_second (snd (i8259_acknowledge_first (in_master intr)))))) CASCADE_LINE =
      bit (pic_pins (in_master intr)) CASCADE_LINE" by (simp add: pins_kept)
  from intr_inv_master [OF assms this] have master: "intr_inv (intr\<lparr>in_master :=
      snd (i8259_acknowledge_second (snd (i8259_acknowledge_first (in_master intr))))\<rparr>)" .
  have slave: "requests_follow_pins
      (snd (i8259_acknowledge_second (snd (i8259_acknowledge_first (in_slave intr)))))"
    using assms by (simp add: intr_inv_def requests_follow_pins_ops)
  have up: "intr_inv (update_cascade (intr\<lparr>in_master := m,
      in_slave := snd (i8259_acknowledge_second (snd (i8259_acknowledge_first (in_slave intr))))\<rparr>))" for m
    by (rule intr_inv_update) (simp add: slave)
  show ?thesis using master up by (simp add: intr_acknowledge_def case_prod_unfold Let_def)
qed

section \<open>Properties\<close>



text \<open>An acknowledge that wins on the cascade line. The vector is the slave's, both parts put
  their level in service, and the master's own vector byte is discarded.\<close>

theorem cascaded_acknowledge_vector:
  assumes "resolve (in_master intr) = Some CASCADE_LINE" and "resolve (in_slave intr) = Some L"
    and "\<not> pic_auto_eoi (in_master intr)" and "\<not> pic_auto_eoi (in_slave intr)"
  shows "fst (intr_acknowledge intr) = pic_vector_base (in_slave intr) OR of_nat L \<and>
    pic_isr (in_slave (snd (intr_acknowledge intr))) = pic_isr (in_slave intr) OR bit_of L \<and>
    pic_isr (in_master (snd (intr_acknowledge intr))) = pic_isr (in_master intr) OR bit_of CASCADE_LINE"
proof -
  have auto: "pic_auto_eoi (enter_service l p) = pic_auto_eoi p"
    "pic_vector_base (enter_service l p) = pic_vector_base p" for l p
    by (simp_all add: enter_service_def refresh_level_requests_def)
  have isr: "pic_isr (snd (i8259_set_request k b p)) = pic_isr p" for k b p
    by (simp add: i8259_set_request_def Let_def)
  show ?thesis
    using assms by (simp add: intr_acknowledge_def i8259_acknowledge_first_def
        i8259_acknowledge_second_def auto update_cascade_def isr)
qed

definition cascaded_request :: intr where
  "cascaded_request = intr_set_request 12 True
     (intr_write 0x011101 0x70 (intr_write 0x011100 0x12
       (intr_write 0x011001 0x60 (intr_write 0x011000 0x12 intr_reset))))"

lemma cascaded_acknowledge_vector_witness: "fst (intr_acknowledge cascaded_request) = 0x74"
proof -
  have "resolve (in_master cascaded_request) = Some CASCADE_LINE"
    "resolve (in_slave cascaded_request) = Some 4"
    "\<not> pic_auto_eoi (in_master cascaded_request)" "\<not> pic_auto_eoi (in_slave cascaded_request)"
    "pic_vector_base (in_slave cascaded_request) = 0x70"
    by code_simp+
  with cascaded_acknowledge_vector [of cascaded_request 4] show ?thesis by simp
qed

definition stale_cascade :: intr where
  "stale_cascade = intr_set_request 8 True
     (intr_write 0x011101 0x70 (intr_write 0x011100 0x1A
       (intr_set_request 8 True
         (intr_write 0x011001 0x60 (intr_write 0x011000 0x12 intr_reset)))))"


end
