(* ===== verification/M68030_Tc.thy ===== *)
theory M68030_Tc
  imports Apollo_Prelude
begin

text \<open>
  The MC68030's translation control register and the transparent translation registers,
  \<^verbatim>\<open>src/core/cpu/m68030/ap_m68030_tc.c\<close> and \<^verbatim>\<open>ap_m68030_tt.c\<close>: the decoded fields as
  records, the two conversions of each register image, the consistency check, the split of a
  logical address into table indices and page offset, and the transparent match.

  The lemmas show that the conversions are inverse to each other, that the split of an address
  under a consistent register loses nothing but the ignored high bits (\<open>join_index\<close> puts it
  together again), and that the indices depend on the page number alone.
\<close>

section \<open>The translation control register\<close>

definition TC_LEVELS :: nat where "TC_LEVELS = 4"

record m68030_tc =
  tc_enable :: bool
  tc_supervisor_root :: bool
  tc_function_code_lookup :: bool
  tc_page_size_bits :: u8
  tc_initial_shift :: u8
  tc_table_index :: "u8 list"

definition tc_field :: "u32 \<Rightarrow> nat \<Rightarrow> u8" where
  "tc_field value shift = ucast (drop_bit shift value AND 0x0F)"

definition tc_decode :: "u32 \<Rightarrow> m68030_tc" where
  "tc_decode value =
     \<lparr>tc_enable = (value AND 0x80000000 \<noteq> 0),
      tc_supervisor_root = (value AND 0x02000000 \<noteq> 0),
      tc_function_code_lookup = (value AND 0x01000000 \<noteq> 0),
      tc_page_size_bits = tc_field value 20,
      tc_initial_shift = tc_field value 16,
      tc_table_index = map (\<lambda>level. tc_field value (12 - level * 4)) [0..<TC_LEVELS]\<rparr>"

definition PS_MIN_BITS :: u8 where "PS_MIN_BITS = 8"
definition PS_MAX_BITS :: u8 where "PS_MAX_BITS = 15"

definition tc_page_size :: "m68030_tc \<Rightarrow> u32" where
  "tc_page_size tc =
     (if tc_page_size_bits tc < PS_MIN_BITS \<or> tc_page_size_bits tc > PS_MAX_BITS then 0
      else push_bit (unat (tc_page_size_bits tc)) 1)"

text \<open>The table index fields are added until a zero field is reached. The check answers whether
  the register is consistent and the total.\<close>

fun sum_fields :: "u8 list \<Rightarrow> u32" where
  "sum_fields [] = 0"
| "sum_fields (w # ws) = (if w = 0 then 0 else ucast w + sum_fields ws)"

definition tc_is_consistent :: "m68030_tc \<Rightarrow> bool \<times> u32" where
  "tc_is_consistent tc =
     (let total = sum_fields (tc_table_index tc) + ucast (tc_page_size_bits tc) +
                  ucast (tc_initial_shift tc)
      in (total = 32 \<and> tc_page_size tc \<noteq> 0, total))"

record tc_split =
  sp_index :: "u32 list"
  sp_levels :: nat
  sp_page_offset :: u32

text \<open>The loop over the levels: the indices taken, most significant first.\<close>

fun split_indices :: "u8 list \<Rightarrow> nat \<Rightarrow> u32 \<Rightarrow> u32 list" where
  "split_indices [] consumed address = []"
| "split_indices (width # widths) consumed address =
     (let w = unat width
      in if w = 0 \<or> consumed + w > 32 then []
         else (drop_bit (32 - consumed - w) address AND (push_bit w 1 - 1)) #
              split_indices widths (consumed + w) address)"

definition tc_split :: "m68030_tc \<Rightarrow> u32 \<Rightarrow> tc_split" where
  "tc_split tc address =
     (let indices = split_indices (tc_table_index tc) (unat (tc_initial_shift tc)) address;
          page_size = tc_page_size tc
      in \<lparr>sp_index = indices @ replicate (TC_LEVELS - length indices) 0,
          sp_levels = length indices,
          sp_page_offset = (if page_size = 0 then 0 else address AND (page_size - 1))\<rparr>)"

definition tc_encode :: "m68030_tc \<Rightarrow> u32" where
  "tc_encode tc =
     fold (\<lambda>level value. value OR push_bit (12 - 4 * level) (ucast (tc_table_index tc ! level) AND 0xF))
       [0..<TC_LEVELS]
       ((if tc_enable tc then push_bit 31 1 else 0) OR
        (if tc_supervisor_root tc then push_bit 25 1 else 0) OR
        (if tc_function_code_lookup tc then push_bit 24 1 else 0) OR
        push_bit 20 (ucast (tc_page_size_bits tc) AND 0xF) OR
        push_bit 16 (ucast (tc_initial_shift tc) AND 0xF))"

section \<open>Transparent translation\<close>

record m68030_tt =
  tt_logical_base :: u8
  tt_logical_mask :: u8
  tt_fc_base :: u8
  tt_fc_mask :: u8
  tt_enabled :: bool
  tt_cache_inhibit :: bool
  tt_read_transparent :: bool
  tt_ignore_read_write :: bool

record m68030_access =
  ac_address :: u32
  ac_function_code :: u8
  ac_read :: bool
  ac_read_modify_write :: bool

record tt_result =
  ttr_transparent :: bool
  ttr_physical :: u32
  ttr_cache_inhibit :: bool

definition masked_equal :: "u8 \<Rightarrow> u8 \<Rightarrow> u8 \<Rightarrow> bool" where
  "masked_equal a b ignored \<longleftrightarrow> (a XOR b) AND NOT ignored = 0"

definition tt_matches :: "m68030_tt option \<Rightarrow> m68030_access \<Rightarrow> bool" where
  "tt_matches register access =
     (case register of
        None \<Rightarrow> False
      | Some tt \<Rightarrow>
          if \<not> tt_enabled tt then False
          else if ac_read_modify_write access \<and> \<not> tt_ignore_read_write tt then False
          else if \<not> tt_ignore_read_write tt \<and> ac_read access \<noteq> tt_read_transparent tt then False
          else masked_equal (ucast (drop_bit 24 (ac_address access))) (tt_logical_base tt) (tt_logical_mask tt) \<and>
               masked_equal (ac_function_code access AND 7) (tt_fc_base tt AND 7) (tt_fc_mask tt AND 7))"

definition tt_translate :: "m68030_tt option \<Rightarrow> m68030_tt option \<Rightarrow> m68030_access \<Rightarrow> tt_result" where
  "tt_translate tt0 tt1 access =
     (let hit0 = tt_matches tt0 access; hit1 = tt_matches tt1 access
      in if \<not> hit0 \<and> \<not> hit1
         then \<lparr>ttr_transparent = False, ttr_physical = 0, ttr_cache_inhibit = False\<rparr>
         else \<lparr>ttr_transparent = True, ttr_physical = ac_address access,
               ttr_cache_inhibit = (hit0 \<and> tt_cache_inhibit (the tt0) \<or> hit1 \<and> tt_cache_inhibit (the tt1))\<rparr>)"

definition TT_ADDRESS_BASE_SHIFT :: nat where "TT_ADDRESS_BASE_SHIFT = 24"
definition TT_ADDRESS_MASK_SHIFT :: nat where "TT_ADDRESS_MASK_SHIFT = 16"
definition TT_E_BIT :: nat where "TT_E_BIT = 15"
definition TT_CI_BIT :: nat where "TT_CI_BIT = 10"
definition TT_RW_BIT :: nat where "TT_RW_BIT = 9"
definition TT_RWM_BIT :: nat where "TT_RWM_BIT = 8"
definition TT_FC_BASE_SHIFT :: nat where "TT_FC_BASE_SHIFT = 4"
definition TT_FC_MASK_SHIFT :: nat where "TT_FC_MASK_SHIFT = 0"
definition TT_FC_FIELD_MASK :: u8 where "TT_FC_FIELD_MASK = 7"

lemmas tt_layout = TT_ADDRESS_BASE_SHIFT_def TT_ADDRESS_MASK_SHIFT_def TT_E_BIT_def TT_CI_BIT_def
  TT_RW_BIT_def TT_RWM_BIT_def TT_FC_BASE_SHIFT_def TT_FC_MASK_SHIFT_def TT_FC_FIELD_MASK_def

definition tt_pack :: "m68030_tt \<Rightarrow> u32" where
  "tt_pack tt =
     push_bit TT_ADDRESS_BASE_SHIFT (ucast (tt_logical_base tt)) OR
     push_bit TT_ADDRESS_MASK_SHIFT (ucast (tt_logical_mask tt)) OR
     (if tt_enabled tt then push_bit TT_E_BIT 1 else 0) OR
     (if tt_cache_inhibit tt then push_bit TT_CI_BIT 1 else 0) OR
     (if tt_read_transparent tt then push_bit TT_RW_BIT 1 else 0) OR
     (if tt_ignore_read_write tt then push_bit TT_RWM_BIT 1 else 0) OR
     push_bit TT_FC_BASE_SHIFT (ucast (tt_fc_base tt AND TT_FC_FIELD_MASK)) OR
     push_bit TT_FC_MASK_SHIFT (ucast (tt_fc_mask tt AND TT_FC_FIELD_MASK))"

definition tt_unpack :: "u32 \<Rightarrow> m68030_tt" where
  "tt_unpack word =
     \<lparr>tt_logical_base = ucast (drop_bit TT_ADDRESS_BASE_SHIFT word AND 0xFF),
      tt_logical_mask = ucast (drop_bit TT_ADDRESS_MASK_SHIFT word AND 0xFF),
      tt_fc_base = ucast (drop_bit TT_FC_BASE_SHIFT word) AND TT_FC_FIELD_MASK,
      tt_fc_mask = ucast (drop_bit TT_FC_MASK_SHIFT word) AND TT_FC_FIELD_MASK,
      tt_enabled = testbit word TT_E_BIT,
      tt_cache_inhibit = testbit word TT_CI_BIT,
      tt_read_transparent = testbit word TT_RW_BIT,
      tt_ignore_read_write = testbit word TT_RWM_BIT\<rparr>"

section \<open>Conversions\<close>

definition wf_tc :: "m68030_tc \<Rightarrow> bool" where
  "wf_tc tc \<longleftrightarrow> length (tc_table_index tc) = TC_LEVELS \<and> list_all (\<lambda>w. w < 16) (tc_table_index tc) \<and>
     tc_page_size_bits tc < 16 \<and> tc_initial_shift tc < 16"

lemma upt_4: "[0..<TC_LEVELS] = [0, 1, 2, 3]"
  by (simp add: TC_LEVELS_def upt_conv_Cons)

lemma bit_less_16: "w < 16 \<Longrightarrow> bit (w::u8) k \<Longrightarrow> k < 4"
  using bits_below_iff [of w 4] by (simp add: word_less_nat_alt)

lemma tc_field_bit: "bit (tc_field v s) k \<longleftrightarrow> k < 4 \<and> bit v (s + k)"
  by (auto simp: tc_field_def and_mask_literals bit_ucast_iff bit_take_bit_iff bit_drop_bit_eq)

lemma tc_field_less: "tc_field v s < 16"
  using bits_below_iff [of "tc_field v s" 4] by (simp add: word_less_nat_alt tc_field_bit)

lemma wf_tc_decode: "wf_tc (tc_decode v)"
  by (simp add: wf_tc_def tc_decode_def list_all_length tc_field_less)

lemma bit_flag: "bit (if b then push_bit n 1 else 0 :: u32) k \<longleftrightarrow> b \<and> k = n \<and> n < 32"
  by (auto simp: bit_single push_bit_of_1 bit_exp_iff)

lemma bit_nibble: "bit (push_bit n (ucast (w::u8) AND 0xF) :: u32) k \<longleftrightarrow> n \<le> k \<and> k < n + 4 \<and> k < 32 \<and> bit w (k - n)"
  unfolding bit_push_bit_iff and_mask_literals bit_take_bit_iff bit_ucast_iff possible_bit_word
  using bit_imp_le_length [of w "k - n"] by auto

lemma bit_tc_encode:
  assumes "length (tc_table_index tc) = TC_LEVELS"
  shows "bit (tc_encode tc) k \<longleftrightarrow> k < 32 \<and>
    (if k < 4 then bit (tc_table_index tc ! 3) k
     else if k < 8 then bit (tc_table_index tc ! 2) (k - 4)
     else if k < 12 then bit (tc_table_index tc ! 1) (k - 8)
     else if k < 16 then bit (tc_table_index tc ! 0) (k - 12)
     else if k < 20 then bit (tc_initial_shift tc) (k - 16)
     else if k < 24 then bit (tc_page_size_bits tc) (k - 20)
     else k = 31 \<and> tc_enable tc \<or> k = 25 \<and> tc_supervisor_root tc \<or> k = 24 \<and> tc_function_code_lookup tc)"
  unfolding tc_encode_def upt_4 fold_Cons fold_Nil comp_apply id_apply bit_or_iff bit_flag bit_nibble
  by auto

lemma tc_field_encode:
  assumes "wf_tc tc"
  shows "tc_field (tc_encode tc) 20 = tc_page_size_bits tc"
    "tc_field (tc_encode tc) 16 = tc_initial_shift tc"
    "l < 4 \<Longrightarrow> tc_field (tc_encode tc) (12 - l * 4) = tc_table_index tc ! l"
proof -
  have len: "length (tc_table_index tc) = TC_LEVELS" and less: "\<And>l. l < 4 \<Longrightarrow> tc_table_index tc ! l < 16"
    using assms by (auto simp: wf_tc_def list_all_length TC_LEVELS_def)
  have nib: "tc_field (tc_encode tc) s = w" if "w < 16"
    and "\<And>k. k < 4 \<Longrightarrow> bit (tc_encode tc) (s + k) = bit w k" for s w
    using that by (intro bit_word_eqI) (auto simp: tc_field_bit dest: bit_less_16)
  show "tc_field (tc_encode tc) 20 = tc_page_size_bits tc" "tc_field (tc_encode tc) 16 = tc_initial_shift tc"
    using assms by (auto intro!: nib simp: bit_tc_encode [OF len] wf_tc_def)
  show "tc_field (tc_encode tc) (12 - l * 4) = tc_table_index tc ! l" if "l < 4"
  proof (rule nib [OF less [OF that]])
    fix k :: nat assume "k < 4"
    from that consider "l = 0" | "l = 1" | "l = 2" | "l = 3" by linarith
    then show "bit (tc_encode tc) (12 - l * 4 + k) = bit (tc_table_index tc ! l) k"
      using \<open>k < 4\<close> by cases (simp_all add: bit_tc_encode [OF len])
  qed
qed

lemma testbit_literals:
  "v AND 0x80000000 \<noteq> 0 \<longleftrightarrow> bit (v::u32) 31" "v AND 0x02000000 \<noteq> 0 \<longleftrightarrow> bit v 25"
  "v AND 0x01000000 \<noteq> 0 \<longleftrightarrow> bit v 24"
  using and_bit_of [of v 31] and_bit_of [of v 25] and_bit_of [of v 24] by (simp_all add: bit_of_def)

lemma tc_decode_encode:
  assumes "wf_tc tc"
  shows "tc_decode (tc_encode tc) = tc"
proof -
  have len: "length (tc_table_index tc) = TC_LEVELS" using assms by (simp add: wf_tc_def)
  have "map (\<lambda>level. tc_field (tc_encode tc) (12 - level * 4)) [0..<TC_LEVELS] = tc_table_index tc"
    by (rule nth_equalityI) (simp_all add: len, simp add: TC_LEVELS_def tc_field_encode [OF assms])
  then show ?thesis
    by (simp add: tc_decode_def testbit_literals bit_tc_encode [OF len] tc_field_encode [OF assms])
qed

lemma tc_encode_decode: "tc_encode (tc_decode v) = v AND 0x83FFFFFF"
proof (rule bit_word_eqI)
  fix k assume "k < LENGTH(32)"
  have len: "length (tc_table_index (tc_decode v)) = TC_LEVELS" by (simp add: tc_decode_def)
  have m: "(0x83FFFFFF :: u32) = bit_of 31 OR mask 26"
    by (simp add: bit_of_def mask_eq_exp_minus_1)
  have "bit (0x83FFFFFF :: u32) k \<longleftrightarrow> k = 31 \<or> k < 26" for k
    unfolding m bit_or_iff bit_bit_of bit_mask_iff by auto
  moreover have "bit (tc_encode (tc_decode v)) k \<longleftrightarrow> (k = 31 \<or> k < 26) \<and> bit v k"
  proof -
    have fields: "tc_table_index (tc_decode v) ! 0 = tc_field v 12" "tc_table_index (tc_decode v) ! 1 = tc_field v 8"
      "tc_table_index (tc_decode v) ! 2 = tc_field v 4" "tc_table_index (tc_decode v) ! 3 = tc_field v 0"
      "tc_initial_shift (tc_decode v) = tc_field v 16" "tc_page_size_bits (tc_decode v) = tc_field v 20"
      "tc_enable (tc_decode v) = bit v 31" "tc_supervisor_root (tc_decode v) = bit v 25"
      "tc_function_code_lookup (tc_decode v) = bit v 24"
      by (simp_all add: tc_decode_def upt_4 testbit_literals)
    show ?thesis
    proof -
      consider "k < 24" | "k = 24" | "k = 25" | "26 \<le> k" "k \<noteq> 31" | "k = 31" by linarith
      then show ?thesis
        unfolding bit_tc_encode [OF len] fields tc_field_bit using \<open>k < LENGTH(32)\<close>
        by cases auto
    qed
  qed
  ultimately show "bit (tc_encode (tc_decode v)) k = bit (v AND 0x83FFFFFF) k"
    by (simp only: bit_and_iff) blast
qed

text \<open>The total of the fields up to the first zero one, as a number.\<close>

fun fields_total :: "u8 list \<Rightarrow> nat" where
  "fields_total [] = 0"
| "fields_total (w # ws) = (if w = 0 then 0 else unat w + fields_total ws)"

lemma sum_fields_total:
  assumes "list_all (\<lambda>w. w < 16) ws" and "length ws \<le> 4"
  shows "unat (sum_fields ws) = fields_total ws \<and> fields_total ws \<le> 16 * length ws"
  using assms
proof (induction ws)
  case (Cons w ws)
  then have ih: "unat (sum_fields ws) = fields_total ws" "fields_total ws \<le> 16 * length ws"
    and w: "unat w < 16" by (simp_all add: word_less_nat_alt)
  have cast: "unat (ucast w :: u32) = unat w" by (simp add: unat_ucast_up)
  have "unat (ucast w + sum_fields ws) = unat w + fields_total ws"
    using ih w Cons.prems(2) by (simp add: unat_plus_if' cast)
  then show ?case using ih w by simp
qed simp

lemma tc_consistent_facts:
  assumes "wf_tc tc" and "fst (tc_is_consistent tc)"
  shows "8 \<le> unat (tc_page_size_bits tc)" "unat (tc_page_size_bits tc) \<le> 15"
    "fields_total (tc_table_index tc) + unat (tc_page_size_bits tc) + unat (tc_initial_shift tc) = 32"
    "tc_page_size tc = push_bit (unat (tc_page_size_bits tc)) 1"
proof -
  have ps: "tc_page_size tc \<noteq> 0" and total: "sum_fields (tc_table_index tc) + ucast (tc_page_size_bits tc) +
      ucast (tc_initial_shift tc) = (32::u32)"
    using assms(2) by (simp_all add: tc_is_consistent_def Let_def)
  from ps show "8 \<le> unat (tc_page_size_bits tc)" "unat (tc_page_size_bits tc) \<le> 15"
    "tc_page_size tc = push_bit (unat (tc_page_size_bits tc)) 1"
    by (simp_all add: tc_page_size_def PS_MIN_BITS_def PS_MAX_BITS_def word_less_nat_alt word_le_nat_alt
        not_less split: if_splits)
  have "unat (sum_fields (tc_table_index tc)) = fields_total (tc_table_index tc)" "fields_total (tc_table_index tc) \<le> 64"
    using sum_fields_total [of "tc_table_index tc"] assms(1) by (simp_all add: wf_tc_def TC_LEVELS_def)
  moreover have "unat (tc_page_size_bits tc) < 16" "unat (tc_initial_shift tc) < 16"
    using assms(1) by (simp_all add: wf_tc_def word_less_nat_alt)
  moreover have "unat (ucast w :: u32) = unat w" for w :: u8 by (simp add: unat_ucast_up)
  ultimately have "unat (sum_fields (tc_table_index tc) + ucast (tc_page_size_bits tc) +
      ucast (tc_initial_shift tc) :: u32) =
      fields_total (tc_table_index tc) + unat (tc_page_size_bits tc) + unat (tc_initial_shift tc)"
    by (simp add: unat_plus_if')
  with total show "fields_total (tc_table_index tc) + unat (tc_page_size_bits tc) +
      unat (tc_initial_shift tc) = 32" by simp
qed

section \<open>The split of an address\<close>

text \<open>Putting the indices back together, most significant first.\<close>

fun join_index :: "u8 list \<Rightarrow> u32 list \<Rightarrow> nat \<Rightarrow> nat" where
  "join_index (w # ws) (i # is) high = join_index ws is (high * 2 ^ unat w + unat i)"
| "join_index _ _ high = high"

lemma unat_index:
  "unat (drop_bit s (a::u32) AND (push_bit w 1 - 1)) = take_bit w (drop_bit s (unat a))"
  unfolding push_bit_of_1 mask_eq_exp_minus_1 [symmetric] take_bit_eq_mask [symmetric]
    unsigned_take_bit_eq unat_drop_bit_eq ..

lemma take_bit_split_high:
  "drop_bit (m + w) (x::nat) * 2 ^ w + take_bit w (drop_bit m x) = drop_bit m x"
  by (simp add: drop_bit_eq_div take_bit_eq_mod power_add div_mult2_eq mult.commute)

lemma split_indices_join:
  assumes "consumed + fields_total ws \<le> 32" and "c0 \<le> consumed"
  shows "join_index ws (split_indices ws consumed a) (drop_bit (32 - consumed) (take_bit (32 - c0) (unat a))) =
    drop_bit (32 - consumed - fields_total ws) (take_bit (32 - c0) (unat a))"
  using assms
proof (induction ws arbitrary: consumed)
  case (Cons w ws)
  show ?case
  proof (cases "w = 0")
    case False
    let ?w = "unat w" and ?x = "take_bit (32 - c0) (unat a)" and ?m = "32 - consumed - unat w"
    have le: "consumed + ?w \<le> 32" and le': "consumed + ?w + fields_total ws \<le> 32"
      and c: "c0 \<le> consumed + ?w" using Cons.prems False by simp_all
    have eq: "32 - consumed = ?m + ?w" using le by simp
    have "take_bit ?w (drop_bit ?m (unat a)) = take_bit ?w (drop_bit ?m ?x)"
    proof -
      have "?w \<le> 32 - c0 - ?m" using Cons.prems(2) le by linarith
      then show ?thesis by (simp add: drop_bit_take_bit min_absorb1)
    qed
    then have step: "drop_bit (32 - consumed) ?x * 2 ^ ?w +
        unat (drop_bit ?m a AND (push_bit ?w 1 - 1)) = drop_bit (32 - (consumed + ?w)) ?x"
      using take_bit_split_high [of ?m ?w ?x] unfolding unat_index eq [symmetric] by simp
    have "join_index (w # ws) (split_indices (w # ws) consumed a) (drop_bit (32 - consumed) ?x) =
        join_index ws (split_indices ws (consumed + ?w) a) (drop_bit (32 - (consumed + ?w)) ?x)"
      using False le step by (simp add: Let_def unat_eq_zero)
    also have "\<dots> = drop_bit (32 - (consumed + ?w) - fields_total ws) ?x"
      using le' c by (intro Cons.IH) simp_all
    finally show ?thesis using False by (simp add: add.assoc)
  qed simp
qed simp

text \<open>How many levels a consistent register gives: the fields before the first zero one.\<close>

lemma length_split_indices:
  "consumed + fields_total ws \<le> 32 \<Longrightarrow>
     length (split_indices ws consumed a) = length (takeWhile (\<lambda>w. w \<noteq> 0) ws)"
  by (induction ws arbitrary: consumed) (auto simp: Let_def unat_eq_zero split: if_splits)

lemma split_indices_same_page:
  assumes "consumed + fields_total ws + ps \<le> 32" and "drop_bit ps a = drop_bit ps b"
  shows "split_indices ws consumed a = split_indices ws consumed (b::u32)"
  using assms(1)
proof (induction ws arbitrary: consumed)
  case (Cons w ws)
  show ?case
  proof (cases "w = 0")
    case False
    let ?m = "32 - consumed - unat w"
    have "ps \<le> ?m" and rest: "consumed + unat w + fields_total ws + ps \<le> 32"
      using Cons.prems False by simp_all
    then have "drop_bit ?m x = drop_bit (?m - ps) (drop_bit ps x)" for x :: u32
      unfolding drop_bit_drop_bit by simp
    then have "drop_bit ?m a = drop_bit ?m b" using assms(2) by metis
    with Cons.IH [OF rest] show ?thesis by (simp add: Let_def)
  qed simp
qed simp

lemma tc_split_consistent:
  assumes "wf_tc tc" and "fst (tc_is_consistent tc)"
  shows "sp_index (tc_split tc a) = split_indices (tc_table_index tc) (unat (tc_initial_shift tc)) a @
      replicate (TC_LEVELS - sp_levels (tc_split tc a)) 0"
    and "sp_levels (tc_split tc a) = length (takeWhile (\<lambda>w. w \<noteq> 0) (tc_table_index tc))"
    and "sp_page_offset (tc_split tc a) = take_bit (unat (tc_page_size_bits tc)) a"
proof -
  note f = tc_consistent_facts [OF assms]
  have "tc_page_size tc \<noteq> 0" using assms(2) by (simp add: tc_is_consistent_def Let_def)
  moreover have "tc_page_size tc - 1 = mask (unat (tc_page_size_bits tc))"
    unfolding f(4) push_bit_of_1 mask_eq_exp_minus_1 ..
  ultimately show "sp_page_offset (tc_split tc a) = take_bit (unat (tc_page_size_bits tc)) a"
    by (simp add: tc_split_def Let_def take_bit_eq_mask)
  show "sp_levels (tc_split tc a) = length (takeWhile (\<lambda>w. w \<noteq> 0) (tc_table_index tc))"
    using length_split_indices [of "unat (tc_initial_shift tc)" "tc_table_index tc" a] f(3)
    by (simp add: tc_split_def Let_def)
qed (simp add: tc_split_def Let_def)

text \<open>The register image and its fields are two forms of one thing. Decoding what was encoded
  gives back any register whose fields fit their four bits, and encoding what was decoded gives
  back the word with its unused bits 30 to 26 cleared.\<close>

theorem tc_image_roundtrip:
  "(wf_tc tc \<longrightarrow> tc_decode (tc_encode tc) = tc) \<and> tc_encode (tc_decode v) = v AND 0x83FFFFFF"
  by (simp add: tc_decode_encode tc_encode_decode)

lemma tc_image_roundtrip_witness:
  "tc_decode (tc_encode (tc_decode 0x80C0AA00)) = tc_decode 0x80C0AA00"
  using tc_image_roundtrip [of "tc_decode 0x80C0AA00" 0] wf_tc_decode by blast

text \<open>Under a consistent register the split of a logical address loses nothing but the ignored
  high bits. Its indices, put back together in the order of the levels and followed by the page
  offset, are the address below the initial shift.\<close>

theorem tc_split_reassembles:
  assumes "wf_tc tc" and "fst (tc_is_consistent tc)"
  shows "join_index (tc_table_index tc) (take (sp_levels (tc_split tc a)) (sp_index (tc_split tc a))) 0 *
      2 ^ unat (tc_page_size_bits tc) + unat (sp_page_offset (tc_split tc a)) =
    unat a mod 2 ^ (32 - unat (tc_initial_shift tc))"
proof -
  let ?is = "unat (tc_initial_shift tc)" and ?ps = "unat (tc_page_size_bits tc)" and ?ws = "tc_table_index tc"
  note f = tc_consistent_facts [OF assms]
  let ?x = "take_bit (32 - ?is) (unat a)"
  have "drop_bit (32 - ?is) ?x = 0" by (simp add: drop_bit_take_bit)
  then have "join_index ?ws (split_indices ?ws ?is a) 0 = drop_bit (32 - ?is - fields_total ?ws) ?x"
    using split_indices_join [of ?is ?ws ?is a] f(3) by simp
  also have "32 - ?is - fields_total ?ws = ?ps" using f(3) by linarith
  finally have join: "join_index ?ws (take (sp_levels (tc_split tc a)) (sp_index (tc_split tc a))) 0 = drop_bit ?ps ?x"
    by (simp add: tc_split_def Let_def)
  have "?ps \<le> 32 - ?is" using f(3) by linarith
  then have off: "unat (sp_page_offset (tc_split tc a)) = take_bit ?ps ?x"
    by (simp add: tc_split_consistent(3) [OF assms] unsigned_take_bit_eq min_absorb1)
  show ?thesis
    unfolding join off drop_bit_eq_div take_bit_eq_mod by (rule div_mult_mod_eq)
qed

lemma tc_split_reassembles_witness:
  "(let tc = tc_decode 0x80C0AA00; a = 0x3C4008F4 in
    join_index (tc_table_index tc) (take (sp_levels (tc_split tc a)) (sp_index (tc_split tc a))) 0 *
      2 ^ unat (tc_page_size_bits tc) + unat (sp_page_offset (tc_split tc a)) = 0x3C4008F4)"
proof -
  have c: "fst (tc_is_consistent (tc_decode 0x80C0AA00))" by code_simp
  have i: "tc_initial_shift (tc_decode 0x80C0AA00) = 0" by code_simp
  show ?thesis
    using tc_split_reassembles [OF wf_tc_decode c, of "0x3C4008F4"] by (simp add: Let_def i)
qed

section \<open>Transparent translation\<close>

lemma bit_tt_pack:
  "bit (tt_pack tt) k \<longleftrightarrow> k < 32 \<and>
    (if k < 4 then k < 3 \<and> bit (tt_fc_mask tt) k
     else if k < 8 then k < 7 \<and> bit (tt_fc_base tt) (k - 4)
     else if k < 16 then k = 8 \<and> tt_ignore_read_write tt \<or> k = 9 \<and> tt_read_transparent tt \<or>
       k = 10 \<and> tt_cache_inhibit tt \<or> k = 15 \<and> tt_enabled tt
     else if k < 24 then bit (tt_logical_mask tt) (k - 16)
     else bit (tt_logical_base tt) (k - 24))"
proof -
  have high: "bit (w::u8) n \<Longrightarrow> n < 8" for w n using bit_imp_le_length [of w n] by simp
  have fc: "bit (w AND 7 :: u8) n \<longleftrightarrow> n < 3 \<and> bit w n" for w n
    by (simp add: and_mask_literals bit_take_bit_iff)
  show ?thesis
    unfolding tt_pack_def tt_layout bit_or_iff bit_flag bit_push_bit_iff bit_ucast_iff fc possible_bit_word
    by (auto dest: high)
qed

lemma tt_unpack_pack:
  assumes "tt_fc_base tt < 8" and "tt_fc_mask tt < 8"
  shows "tt_unpack (tt_pack tt) = tt"
proof -
  have fc: "bit (w::u8) k \<Longrightarrow> k < 3" if "w < 8" for w k
    using bits_below_iff [of w 3] that by (simp add: word_less_nat_alt)
  have "ucast (drop_bit 24 (tt_pack tt) AND 0xFF) = tt_logical_base tt"
    "ucast (drop_bit 16 (tt_pack tt) AND 0xFF) = tt_logical_mask tt"
    by (rule bit_word_eqI, simp add: and_mask_literals bit_ucast_iff bit_take_bit_iff bit_drop_bit_eq bit_tt_pack)+
  moreover have low: "ucast (drop_bit s (tt_pack tt)) AND 7 = w"
    if "\<And>k. k < 3 \<Longrightarrow> bit (tt_pack tt) (s + k) = bit w k" and "\<And>k. bit w k \<Longrightarrow> k < 3" for s and w :: u8
  proof (rule bit_word_eqI)
    fix k assume k: "k < LENGTH(8)"
    show "bit (ucast (drop_bit s (tt_pack tt)) AND 7 :: u8) k = bit w k"
      using that k
      by (cases "k < 3") (auto simp: and_mask_literals bit_ucast_iff bit_take_bit_iff bit_drop_bit_eq)
  qed
  moreover have "ucast (drop_bit 4 (tt_pack tt)) AND 7 = tt_fc_base tt"
    by (rule low) (simp_all add: bit_tt_pack fc [OF assms(1)])
  moreover have "ucast (drop_bit 0 (tt_pack tt)) AND 7 = tt_fc_mask tt"
    by (rule low) (simp_all add: bit_tt_pack fc [OF assms(2)])
  ultimately show ?thesis
    by (simp add: tt_unpack_def tt_layout bit_tt_pack)
qed

text \<open>The two forms of a transparent translation register: unpacking a packed register whose
  function code fields fit their three bits gives it back.\<close>

theorem tt_image_roundtrip:
  assumes "tt_fc_base tt < 8" and "tt_fc_mask tt < 8"
  shows "tt_unpack (tt_pack tt) = tt"
  by (rule tt_unpack_pack [OF assms])

definition tt_sample :: m68030_tt where
  "tt_sample = \<lparr>tt_logical_base = 0x80, tt_logical_mask = 0x7F, tt_fc_base = 4, tt_fc_mask = 3,
     tt_enabled = True, tt_cache_inhibit = True, tt_read_transparent = False, tt_ignore_read_write = True\<rparr>"

lemma tt_image_roundtrip_witness: "tt_unpack (tt_pack tt_sample) = tt_sample"
  by (rule tt_image_roundtrip) (simp_all add: tt_sample_def)

end
