(* ===== verification/Translation_Cache.thy ===== *)
theory Translation_Cache
  imports Apollo_Prelude
begin

text \<open>
  What every address translation cache of the machine promises the MMU that fills it: the
  contract \<open>translation_cache\<close>. A cache answers a key (a function code and a logical address; keys
  of one page are the \<open>same\<close>) with the cached data or not at all, a load replaces what it held
  for the page and at most evicts others, and a flush removes what it selects and nothing else.

  From the contract alone follows what the operating system relies on: if every load brings the
  translation the tables hold at that moment, and every change of the tables is followed by a
  flush that selects each page it changed, then no sequence of operations ever leaves a stale
  translation to hit (\<open>coherent_run\<close>).
\<close>

datatype ('k, 'v, 's) mmu_op = Load 'k | Flush 's | Remap "'k \<Rightarrow> 'v" 's

text \<open>One operation on the translation in force and the cache. A remap installs a new translation
  and flushes.\<close>

fun perform :: "('k \<Rightarrow> 'v \<Rightarrow> 'c \<Rightarrow> 'c) \<Rightarrow> ('s \<Rightarrow> 'c \<Rightarrow> 'c) \<Rightarrow>
    ('k, 'v, 's) mmu_op \<Rightarrow> ('k \<Rightarrow> 'v) \<times> 'c \<Rightarrow> ('k \<Rightarrow> 'v) \<times> 'c" where
  "perform load purge (Load k) (T, c) = (T, load k (T k) c)"
| "perform load purge (Flush s) (T, c) = (T, purge s c)"
| "perform load purge (Remap T' s) (T, c) = (T', purge s c)"

text \<open>The software's side of the bargain: a new translation maps the keys of one page alike, is
  made of data the cache can hold, and the flush that follows selects every page it changed.\<close>

fun disciplined :: "('k \<Rightarrow> 'k \<Rightarrow> bool) \<Rightarrow> ('v \<Rightarrow> 'v) \<Rightarrow> ('s \<Rightarrow> 'k \<Rightarrow> 'v \<Rightarrow> bool) \<Rightarrow>
    ('k, 'v, 's) mmu_op list \<Rightarrow> ('k \<Rightarrow> 'v) \<Rightarrow> bool" where
  "disciplined same stored selects [] T \<longleftrightarrow> True"
| "disciplined same stored selects (Remap T' s # os) T \<longleftrightarrow>
     (\<forall>k k'. same k k' \<longrightarrow> T' k = T' k') \<and> (\<forall>k. stored (T' k) = T' k) \<and>
     (\<forall>k. T k \<noteq> T' k \<longrightarrow> selects s k (T k)) \<and> disciplined same stored selects os T'"
| "disciplined same stored selects (_ # os) T \<longleftrightarrow> disciplined same stored selects os T"

locale translation_cache =
  fixes inv :: "'c \<Rightarrow> bool" and same :: "'k \<Rightarrow> 'k \<Rightarrow> bool" and probe :: "'k \<Rightarrow> 'c \<Rightarrow> 'v option"
    and load :: "'k \<Rightarrow> 'v \<Rightarrow> 'c \<Rightarrow> 'c" and purge :: "'s \<Rightarrow> 'c \<Rightarrow> 'c"
    and selects :: "'s \<Rightarrow> 'k \<Rightarrow> 'v \<Rightarrow> bool" and stored :: "'v \<Rightarrow> 'v"
  assumes inv_load: "inv c \<Longrightarrow> inv (load k v c)"
    and inv_purge: "inv c \<Longrightarrow> inv (purge s c)"
    and probe_load: "inv c \<Longrightarrow> same k k' \<Longrightarrow> probe k' (load k v c) = Some (stored v)"
    and probe_load_other: "inv c \<Longrightarrow> \<not> same k k' \<Longrightarrow>
      probe k' (load k v c) = None \<or> probe k' (load k v c) = probe k' c"
    and probe_purge: "inv c \<Longrightarrow> probe k (purge s c) =
      (case probe k c of None \<Rightarrow> None | Some v \<Rightarrow> if selects s k v then None else Some v)"
begin

definition coherent :: "('k \<Rightarrow> 'v) \<Rightarrow> 'c \<Rightarrow> bool" where
  "coherent T c \<longleftrightarrow> inv c \<and> (\<forall>k k'. same k k' \<longrightarrow> T k = T k') \<and> (\<forall>k. stored (T k) = T k) \<and>
     (\<forall>k v. probe k c = Some v \<longrightarrow> v = T k)"

lemma coherent_load: "coherent T c \<Longrightarrow> coherent T (load k (T k) c)"
  unfolding coherent_def
  by (metis inv_load option.distinct(1) option.inject probe_load probe_load_other)

lemma coherent_purge: "coherent T c \<Longrightarrow> coherent T (purge s c)"
  by (auto simp: coherent_def inv_purge probe_purge split: option.splits if_splits)

lemma coherent_remap:
  assumes "coherent T c" and "\<forall>k k'. same k k' \<longrightarrow> T' k = T' k'" and "\<forall>k. stored (T' k) = T' k"
    and "\<forall>k. T k \<noteq> T' k \<longrightarrow> selects s k (T k)"
  shows "coherent T' (purge s c)"
  using assms unfolding coherent_def by (fastforce simp: inv_purge probe_purge split: option.splits if_splits)

lemma coherent_run:
  assumes "coherent T c" and "disciplined same stored selects os T"
    and "fold (perform load purge) os (T, c) = (T', c')"
  shows "coherent T' c'"
  using assms
proof (induction os arbitrary: T c)
  case (Cons p os)
  show ?case
  proof (cases p)
    case (Load k)
    then show ?thesis using Cons.IH [OF coherent_load [OF Cons.prems(1)]] Cons.prems by simp
  next
    case (Flush s)
    then show ?thesis using Cons.IH [OF coherent_purge [OF Cons.prems(1)]] Cons.prems by simp
  next
    case (Remap T1 s)
    then have "coherent T1 (purge s c)" using coherent_remap [OF Cons.prems(1)] Cons.prems(2) by simp
    then show ?thesis using Cons.IH [of T1 "purge s c"] Cons.prems Remap by simp
  qed
qed simp

text \<open>From an empty cache on, every hit answers the translation in force.\<close>

lemma never_stale:
  assumes "inv c" and "\<forall>k. probe k c = None" and "\<forall>k k'. same k k' \<longrightarrow> T k = T k'"
    and "\<forall>k. stored (T k) = T k" and "disciplined same stored selects os T"
    and "fold (perform load purge) os (T, c) = (T', c')" and "probe k c' = Some v"
  shows "v = T' k"
proof -
  have "coherent T c" using assms by (simp add: coherent_def)
  from coherent_run [OF this assms(5,6)] assms(7) show ?thesis by (simp add: coherent_def)
qed

end

end
