(* ===== verification/M68030_Atc.thy ===== *)
theory M68030_Atc
  imports Translation_Cache
begin

text \<open>
  The MC68030's address translation cache, \<^verbatim>\<open>src/core/cpu/m68030/ap_m68030_atc.c\<close>: 22 entries,
  fully associative, as a list of records in the order the code's loops scan them. The comparison
  of tags under the page size, the lookup with its four answers, the three flushes, the choice of
  a victim, the insertion and the history mark.

  The interpretation \<open>atc30\<close> discharges the contract of a translation cache for it.
\<close>

record atc_entry =
  at_valid :: bool
  at_function_code :: u8
  at_logical :: u32
  at_bus_error :: bool
  at_cache_inhibit :: bool
  at_write_protect :: bool
  at_modified :: bool
  at_physical :: u32
  at_history :: bool

type_synonym m68030_atc = "atc_entry list"

definition ATC_ENTRIES :: nat where "ATC_ENTRIES = 22"
definition ATC_ADDRESS_SHIFT :: nat where "ATC_ADDRESS_SHIFT = 8"
definition ATC_ADDRESS_MASK :: u32 where "ATC_ADDRESS_MASK = 0x00FFFFFF"
definition ATC_FC_EXACT :: u8 where "ATC_FC_EXACT = 7"

lemmas atc_layout = ATC_ENTRIES_def ATC_ADDRESS_SHIFT_def ATC_ADDRESS_MASK_def ATC_FC_EXACT_def

definition tag_mask :: "u8 \<Rightarrow> u32" where
  "tag_mask page_size_bits =
     (if unat page_size_bits \<le> ATC_ADDRESS_SHIFT then ATC_ADDRESS_MASK
      else let ignored = unat page_size_bits - ATC_ADDRESS_SHIFT
           in if ignored \<ge> 24 then 0 else ATC_ADDRESS_MASK AND NOT (push_bit ignored 1 - 1))"

definition tag_of :: "u32 \<Rightarrow> u32" where
  "tag_of address = drop_bit ATC_ADDRESS_SHIFT address AND ATC_ADDRESS_MASK"

definition entry_matches :: "atc_entry \<Rightarrow> u8 \<Rightarrow> u32 \<Rightarrow> u32 \<Rightarrow> bool" where
  "entry_matches e function_code address tmask \<longleftrightarrow>
     at_valid e \<and> at_function_code e AND 7 = function_code AND 7 \<and>
     (at_logical e XOR tag_of address) AND tmask = 0"

definition entry_matches_masked :: "atc_entry \<Rightarrow> u8 \<Rightarrow> u8 \<Rightarrow> u32 \<Rightarrow> u32 \<Rightarrow> bool" where
  "entry_matches_masked e function_code function_code_mask address tmask \<longleftrightarrow>
     at_valid e \<and> (at_function_code e XOR function_code) AND function_code_mask AND 7 = 0 \<and>
     (at_logical e XOR tag_of address) AND tmask = 0"

definition atc_flush :: "m68030_atc \<Rightarrow> m68030_atc" where
  "atc_flush atc = map (\<lambda>e. e\<lparr>at_valid := False, at_history := False\<rparr>) atc"

definition atc_flush_entry :: "u8 \<Rightarrow> u8 \<Rightarrow> u32 \<Rightarrow> u8 \<Rightarrow> m68030_atc \<Rightarrow> m68030_atc" where
  "atc_flush_entry function_code function_code_mask address page_size_bits atc =
     map (\<lambda>e. if entry_matches_masked e function_code function_code_mask address (tag_mask page_size_bits)
              then e\<lparr>at_valid := False\<rparr> else e) atc"

datatype atc_status = ATC_MISS | ATC_HIT | ATC_FAULT | ATC_MODIFY

record atc_result =
  ar_status :: atc_status
  ar_physical :: u32
  ar_cache_inhibit :: bool
  ar_index :: int

definition atc_find :: "m68030_atc \<Rightarrow> u8 \<Rightarrow> u32 \<Rightarrow> u8 \<Rightarrow> nat option" where
  "atc_find atc function_code address page_size_bits =
     find (\<lambda>i. entry_matches (atc ! i) function_code address (tag_mask page_size_bits)) [0..<ATC_ENTRIES]"

definition atc_offset_mask :: "u8 \<Rightarrow> u32" where
  "atc_offset_mask page_size_bits =
     (let offset_bits = (if unat page_size_bits \<le> ATC_ADDRESS_SHIFT then ATC_ADDRESS_SHIFT
                         else unat page_size_bits)
      in if offset_bits \<ge> 32 then 0xFFFFFFFF else push_bit offset_bits 1 - 1)"

definition atc_lookup :: "m68030_atc \<Rightarrow> u8 \<Rightarrow> u32 \<Rightarrow> u8 \<Rightarrow> bool \<Rightarrow> bool \<Rightarrow> atc_result" where
  "atc_lookup atc function_code address page_size_bits is_write read_modify_write =
     (case atc_find atc function_code address page_size_bits of
        None \<Rightarrow> \<lparr>ar_status = ATC_MISS, ar_physical = 0, ar_cache_inhibit = False, ar_index = -1\<rparr>
      | Some i \<Rightarrow>
          let hit = atc ! i; offset_mask = atc_offset_mask page_size_bits;
              frame = push_bit ATC_ADDRESS_SHIFT (at_physical hit) AND NOT offset_mask;
              writing = (is_write \<or> read_modify_write)
          in \<lparr>ar_status = (if at_bus_error hit then ATC_FAULT
                           else if writing \<and> at_write_protect hit then ATC_FAULT
                           else if writing \<and> \<not> at_modified hit then ATC_MODIFY else ATC_HIT),
              ar_physical = frame OR (address AND offset_mask),
              ar_cache_inhibit = at_cache_inhibit hit, ar_index = int i\<rparr>)"

definition choose_victim :: "m68030_atc \<Rightarrow> nat \<times> m68030_atc" where
  "choose_victim atc =
     (case find (\<lambda>i. \<not> at_valid (atc ! i)) [0..<ATC_ENTRIES] of
        Some i \<Rightarrow> (i, atc)
      | None \<Rightarrow>
          (case find (\<lambda>i. \<not> at_history (atc ! i)) [0..<ATC_ENTRIES] of
             Some i \<Rightarrow> (i, atc)
           | None \<Rightarrow> (0, map (\<lambda>e. e\<lparr>at_history := False\<rparr>) atc)))"

definition atc_insert :: "u8 \<Rightarrow> u32 \<Rightarrow> u8 \<Rightarrow> u32 \<Rightarrow> bool \<Rightarrow> bool \<Rightarrow> bool \<Rightarrow> bool \<Rightarrow> m68030_atc \<Rightarrow>
    nat \<times> m68030_atc" where
  "atc_insert function_code address page_size_bits physical_page write_protect cache_inhibit modified
     bus_error atc =
     (let (victim, atc) = choose_victim
            (atc_flush_entry function_code ATC_FC_EXACT address page_size_bits atc)
      in (victim, atc[victim :=
            \<lparr>at_valid = True, at_function_code = function_code AND 7, at_logical = tag_of address,
             at_bus_error = bus_error, at_cache_inhibit = cache_inhibit,
             at_write_protect = write_protect, at_modified = modified,
             at_physical = physical_page AND ATC_ADDRESS_MASK, at_history = True\<rparr>]))"

definition atc_mark_used :: "int \<Rightarrow> m68030_atc \<Rightarrow> m68030_atc" where
  "atc_mark_used index atc =
     (if index < 0 \<or> index \<ge> int ATC_ENTRIES then atc
      else atc[nat index := (atc ! nat index)\<lparr>at_history := True\<rparr>])"

definition atc_flush_function_codes :: "u8 \<Rightarrow> u8 \<Rightarrow> m68030_atc \<Rightarrow> m68030_atc" where
  "atc_flush_function_codes base fc_mask atc =
     map (\<lambda>e. if \<not> at_valid e then e
              else if (at_function_code e XOR base) AND (fc_mask AND 7) = 0 then e\<lparr>at_valid := False\<rparr>
              else e) atc"

section \<open>Keys\<close>

text \<open>The part of a function code and an address the cache compares under a page size.\<close>

definition key_of :: "u8 \<Rightarrow> u8 \<times> u32 \<Rightarrow> u8 \<times> u32" where
  "key_of ps k = (fst k AND 7, tag_of (snd k) AND tag_mask ps)"

definition entry_key :: "u8 \<Rightarrow> atc_entry \<Rightarrow> u8 \<times> u32" where
  "entry_key ps e = (at_function_code e AND 7, at_logical e AND tag_mask ps)"

lemma xor_and_eq_0: "(a XOR b) AND m = 0 \<longleftrightarrow> a AND m = b AND (m::'a::len word)"
  by (auto simp: bit_eq_iff bit_and_iff bit_xor_iff)

lemma fc_masked_cong:
  "x AND 7 = y AND 7 \<Longrightarrow> (x XOR b) AND m AND 7 = (y XOR b) AND m AND (7::u8)"
proof -
  assume "x AND 7 = y AND 7"
  moreover have "(z XOR b) AND m AND 7 = ((z AND 7) XOR (b AND 7)) AND m" for z :: u8
    by (auto simp: bit_eq_iff bit_and_iff bit_xor_iff)
  ultimately show ?thesis by metis
qed

lemma entry_matches_key:
  "entry_matches e fc a (tag_mask ps) \<longleftrightarrow> at_valid e \<and> entry_key ps e = key_of ps (fc, a)"
  by (auto simp: entry_matches_def entry_key_def key_of_def xor_and_eq_0)

lemma entry_matches_exact:
  "entry_matches_masked e fc ATC_FC_EXACT a (tag_mask ps) \<longleftrightarrow> entry_matches e fc a (tag_mask ps)"
  by (simp add: entry_matches_masked_def entry_matches_def ATC_FC_EXACT_def and.assoc xor_and_eq_0)

text \<open>Entry \<open>i\<close> answers for the key.\<close>

definition answers :: "u8 \<Rightarrow> m68030_atc \<Rightarrow> nat \<Rightarrow> u8 \<times> u32 \<Rightarrow> bool" where
  "answers ps atc i k \<longleftrightarrow> i < ATC_ENTRIES \<and> at_valid (atc ! i) \<and> entry_key ps (atc ! i) = k"

text \<open>The invariant: twenty-two entries, and no two valid ones for one key. What a fully
  associative memory needs for its answer not to depend on the order of the scan.\<close>

definition atc_ok :: "u8 \<Rightarrow> m68030_atc \<Rightarrow> bool" where
  "atc_ok ps atc \<longleftrightarrow> length atc = ATC_ENTRIES \<and>
     (\<forall>i j k. answers ps atc i k \<longrightarrow> answers ps atc j k \<longrightarrow> i = j)"

lemma atc_ok_unique: "atc_ok ps atc \<Longrightarrow> answers ps atc i k \<Longrightarrow> answers ps atc j k \<Longrightarrow> i = j"
  unfolding atc_ok_def by blast

lemma atc_okI:
  "length atc = ATC_ENTRIES \<Longrightarrow> (\<And>i j k. answers ps atc i k \<Longrightarrow> answers ps atc j k \<Longrightarrow> i = j) \<Longrightarrow>
     atc_ok ps atc"
  unfolding atc_ok_def by blast

lemma find_upt: "find P [0..<n] = Some i \<Longrightarrow> P i \<and> i < n"
  and find_upt_None: "find P [0..<n] = None \<longleftrightarrow> (\<forall>i<n. \<not> P i)"
  by (auto simp: find_Some_iff find_None_iff)

lemma atc_find_Some: "atc_find atc fc a ps = Some i \<Longrightarrow> answers ps atc i (key_of ps (fc, a))"
  unfolding atc_find_def by (drule find_upt) (simp add: answers_def entry_matches_key)

lemma atc_find_None: "atc_find atc fc a ps = None \<longleftrightarrow> (\<forall>i. \<not> answers ps atc i (key_of ps (fc, a)))"
  unfolding atc_find_def find_upt_None by (auto simp: answers_def entry_matches_key)

lemma atc_find_iff:
  "atc_ok ps atc \<Longrightarrow> atc_find atc fc a ps = Some i \<longleftrightarrow> answers ps atc i (key_of ps (fc, a))"
  using atc_find_Some [of atc fc a ps] atc_find_None [of atc fc a ps]
  unfolding atc_ok_def by (cases "atc_find atc fc a ps") (auto simp del: split_paired_All split_paired_Ex)

section \<open>The contract of a translation cache\<close>

text \<open>The data of an entry: bus error, cache inhibit, write protect, modified, page frame.\<close>

type_synonym atc_data = "bool \<times> bool \<times> bool \<times> bool \<times> u32"

definition entry_data :: "atc_entry \<Rightarrow> atc_data" where
  "entry_data e = (at_bus_error e, at_cache_inhibit e, at_write_protect e, at_modified e, at_physical e)"

definition atc_probe :: "u8 \<Rightarrow> u8 \<times> u32 \<Rightarrow> m68030_atc \<Rightarrow> atc_data option" where
  "atc_probe ps k atc = map_option (\<lambda>i. entry_data (atc ! i)) (atc_find atc (fst k) (snd k) ps)"

definition atc_load :: "u8 \<Rightarrow> u8 \<times> u32 \<Rightarrow> atc_data \<Rightarrow> m68030_atc \<Rightarrow> m68030_atc" where
  "atc_load ps k = (\<lambda>(b, ci, wp, m, physical) atc.
     snd (atc_insert (fst k) (snd k) ps physical wp ci m b atc))"

datatype atc_flush_op = FlushAll | FlushEntry u8 u8 u32 | FlushCodes u8 u8

fun atc_purge :: "u8 \<Rightarrow> atc_flush_op \<Rightarrow> m68030_atc \<Rightarrow> m68030_atc" where
  "atc_purge ps FlushAll atc = atc_flush atc"
| "atc_purge ps (FlushEntry fc m a) atc = atc_flush_entry fc m a ps atc"
| "atc_purge ps (FlushCodes base m) atc = atc_flush_function_codes base m atc"

text \<open>The keys a flush selects, from the manual: a zero mask bit leaves the function code bit out
  of the comparison.\<close>

fun key_selects :: "u8 \<Rightarrow> atc_flush_op \<Rightarrow> u8 \<times> u32 \<Rightarrow> bool" where
  "key_selects ps FlushAll k \<longleftrightarrow> True"
| "key_selects ps (FlushEntry fc m a) k \<longleftrightarrow>
     (fst k XOR fc) AND m AND 7 = 0 \<and> snd k = tag_of a AND tag_mask ps"
| "key_selects ps (FlushCodes base m) k \<longleftrightarrow> (fst k XOR base) AND m AND 7 = 0"

lemma probe_iff:
  assumes "atc_ok ps atc"
  shows "atc_probe ps k atc = Some v \<longleftrightarrow> (\<exists>i. answers ps atc i (key_of ps k) \<and> entry_data (atc ! i) = v)"
  by (cases k) (auto simp: atc_probe_def atc_find_iff [OF assms])

text \<open>Every flush clears the valid bits of the entries of the keys it selects and touches no key.\<close>

definition purges :: "u8 \<Rightarrow> (u8 \<times> u32 \<Rightarrow> bool) \<Rightarrow> m68030_atc \<Rightarrow> m68030_atc \<Rightarrow> bool" where
  "purges ps sel atc atc' \<longleftrightarrow> length atc' = length atc \<and>
     (\<forall>i < length atc. (at_valid (atc' ! i) \<longleftrightarrow> at_valid (atc ! i) \<and> \<not> sel (entry_key ps (atc ! i))) \<and>
        entry_key ps (atc' ! i) = entry_key ps (atc ! i) \<and> entry_data (atc' ! i) = entry_data (atc ! i))"

lemma fc_masked_idem: "((x AND 7) XOR b) AND m AND 7 = (x XOR b) AND m AND (7::u8)"
  by (rule fc_masked_cong) (simp add: and.assoc)

lemma purge_purges: "purges ps (key_selects ps s) atc (atc_purge ps s atc)"
proof (cases s)
  case FlushAll
  then show ?thesis by (simp add: purges_def atc_flush_def entry_key_def entry_data_def)
next
  case (FlushEntry fc m a)
  then show ?thesis
    by (auto simp: purges_def atc_flush_entry_def entry_matches_masked_def entry_key_def entry_data_def
        fc_masked_idem xor_and_eq_0)
next
  case (FlushCodes base m)
  then show ?thesis
    by (auto simp: purges_def atc_flush_function_codes_def entry_key_def entry_data_def fc_masked_idem
        and.assoc)
qed

lemma purges_answers:
  assumes "purges ps sel atc atc'" and "length atc = ATC_ENTRIES"
  shows "answers ps atc' i k \<longleftrightarrow> answers ps atc i k \<and> \<not> sel k"
  using assms by (auto simp: purges_def answers_def)

lemma purges_ok: "purges ps sel atc atc' \<Longrightarrow> atc_ok ps atc \<Longrightarrow> atc_ok ps atc'"
  using purges_answers [of ps sel atc atc'] unfolding atc_ok_def by (simp add: purges_def) blast

lemma purges_probe:
  assumes "purges ps sel atc atc'" and "atc_ok ps atc"
  shows "atc_probe ps k atc' = (case atc_probe ps k atc of None \<Rightarrow> None
    | Some v \<Rightarrow> if sel (key_of ps k) then None else Some v)"
proof -
  have len: "length atc = ATC_ENTRIES" using assms(2) by (simp add: atc_ok_def)
  note ok' = purges_ok [OF assms]
  have data: "answers ps atc i q \<Longrightarrow> entry_data (atc' ! i) = entry_data (atc ! i)" for i q
    using assms(1) len by (auto simp: purges_def answers_def)
  have hit: "atc_probe ps k atc' = Some v \<longleftrightarrow> atc_probe ps k atc = Some v \<and> \<not> sel (key_of ps k)" for v
    unfolding probe_iff [OF ok'] probe_iff [OF assms(2)] purges_answers [OF assms(1) len]
    by (auto simp: data)
  show ?thesis
  proof (cases "atc_probe ps k atc'")
    case (Some w)
    then show ?thesis using hit [of w] by simp
  next
    case None
    then show ?thesis using hit by (cases "atc_probe ps k atc") auto
  qed
qed

text \<open>An insertion first flushes the key exactly, so that no other entry answers for it, then
  replaces one entry.\<close>

lemma insert_flushes_key:
  "purges ps ((=) (key_of ps (fc, a))) atc (atc_flush_entry fc ATC_FC_EXACT a ps atc)"
  by (auto simp: purges_def atc_flush_entry_def entry_matches_exact entry_matches_key entry_data_def
      entry_key_def)

lemma choose_victim_keeps:
  assumes "choose_victim atc = (v, atc')" and "length atc = ATC_ENTRIES"
  shows "v < ATC_ENTRIES" "length atc' = ATC_ENTRIES" "answers ps atc' i k \<longleftrightarrow> answers ps atc i k"
    "i < ATC_ENTRIES \<Longrightarrow> entry_data (atc' ! i) = entry_data (atc ! i)"
  using assms unfolding choose_victim_def
  by (auto split: option.splits dest: find_upt simp: answers_def entry_key_def entry_data_def atc_layout)

lemma tag_of_idem: "tag_of a AND ATC_ADDRESS_MASK = tag_of a"
  by (simp add: tag_of_def and.assoc)

lemma answers_update:
  assumes "length atc = ATC_ENTRIES" and "v < ATC_ENTRIES"
  shows "answers ps (atc[v := e]) i q \<longleftrightarrow> (if i = v then at_valid e \<and> entry_key ps e = q else answers ps atc i q)"
  using assms by (auto simp: answers_def)

definition loaded :: "u8 \<Rightarrow> u8 \<times> u32 \<Rightarrow> atc_data \<Rightarrow> m68030_atc \<Rightarrow> m68030_atc \<Rightarrow> nat \<Rightarrow> bool" where
  "loaded ps k d atc atc' v \<longleftrightarrow> v < ATC_ENTRIES \<and> length atc' = ATC_ENTRIES \<and>
     (\<forall>i q. answers ps atc' i q \<longleftrightarrow> (if i = v then q = key_of ps k else answers ps atc i q \<and> q \<noteq> key_of ps k)) \<and>
     (\<forall>i < ATC_ENTRIES. entry_data (atc' ! i) = (if i = v then d else entry_data (atc ! i)))"

lemma loadedD:
  assumes "loaded ps k d atc atc' v"
  shows "v < ATC_ENTRIES" "length atc' = ATC_ENTRIES"
    "answers ps atc' i q \<longleftrightarrow> (if i = v then q = key_of ps k else answers ps atc i q \<and> q \<noteq> key_of ps k)"
    "i < ATC_ENTRIES \<Longrightarrow> entry_data (atc' ! i) = (if i = v then d else entry_data (atc ! i))"
  using assms unfolding loaded_def by blast+

lemma load_answers:
  assumes "atc_ok ps atc"
  shows "\<exists>v. loaded ps k (b, ci, wp, m, p AND ATC_ADDRESS_MASK) atc (atc_load ps k (b, ci, wp, m, p) atc) v"
proof -
  obtain fc a where k: "k = (fc, a)" by (cases k)
  let ?atc1 = "atc_flush_entry fc ATC_FC_EXACT a ps atc"
  obtain v atc2 where cv: "choose_victim ?atc1 = (v, atc2)" by fastforce
  have len: "length atc = ATC_ENTRIES" using assms by (simp add: atc_ok_def)
  note fl = insert_flushes_key [of ps fc a atc]
  have len1: "length ?atc1 = ATC_ENTRIES" using fl len by (simp add: purges_def)
  note vi = choose_victim_keeps [OF cv len1]
  have data1: "i < ATC_ENTRIES \<Longrightarrow> entry_data (?atc1 ! i) = entry_data (atc ! i)" for i
    using fl len by (simp add: purges_def)
  define new where "new = \<lparr>at_valid = True, at_function_code = fc AND 7, at_logical = tag_of a,
    at_bus_error = b, at_cache_inhibit = ci, at_write_protect = wp, at_modified = m,
    at_physical = p AND ATC_ADDRESS_MASK, at_history = True\<rparr>"
  have new: "at_valid new" "entry_key ps new = key_of ps k" "entry_data new = (b, ci, wp, m, p AND ATC_ADDRESS_MASK)"
    by (simp_all add: new_def entry_key_def key_of_def entry_data_def k and.assoc)
  have load: "atc_load ps k (b, ci, wp, m, p) atc = atc2[v := new]"
    by (simp add: atc_load_def k atc_insert_def cv new_def)
  have "answers ps (atc2[v := new]) i q \<longleftrightarrow>
      (if i = v then q = key_of ps k else answers ps atc i q \<and> q \<noteq> key_of ps k)" for i q
    unfolding answers_update [OF vi(2,1)] vi(3) purges_answers [OF fl len] using new
    by (auto simp: k)
  moreover have "entry_data (atc2[v := new] ! i) =
      (if i = v then (b, ci, wp, m, p AND ATC_ADDRESS_MASK) else entry_data (atc ! i))" if "i < ATC_ENTRIES" for i
    using vi(2) vi(4) [OF that] data1 [OF that] new that by (simp add: nth_list_update)
  ultimately show ?thesis
    unfolding load loaded_def using vi(1,2) by (intro exI [of _ v]) simp
qed

lemma load_ok: "atc_ok ps atc \<Longrightarrow> atc_ok ps (atc_load ps k d atc)"
proof -
  assume ok: "atc_ok ps atc"
  obtain b ci wp m p where d: "d = (b, ci, wp, m, p)" by (cases d)
  obtain v where v: "loaded ps k (b, ci, wp, m, p AND ATC_ADDRESS_MASK) atc (atc_load ps k d atc) v"
    using load_answers [OF ok] unfolding d by blast
  have "i = j" if "answers ps (atc_load ps k d atc) i q" "answers ps (atc_load ps k d atc) j q" for i j q
    using that atc_ok_unique [OF ok, of i q j] unfolding loadedD(3) [OF v] by (auto split: if_splits)
  with loadedD(2) [OF v] show ?thesis by (rule atc_okI)
qed

lemma load_probe:
  assumes "atc_ok ps atc"
  shows "key_of ps k = key_of ps k' \<Longrightarrow>
      atc_probe ps k' (atc_load ps k (b, ci, wp, m, p) atc) = Some (b, ci, wp, m, p AND ATC_ADDRESS_MASK)"
    and "key_of ps k \<noteq> key_of ps k' \<Longrightarrow>
      atc_probe ps k' (atc_load ps k (b, ci, wp, m, p) atc) = None \<or>
      atc_probe ps k' (atc_load ps k (b, ci, wp, m, p) atc) = atc_probe ps k' atc"
proof -
  let ?atc' = "atc_load ps k (b, ci, wp, m, p) atc"
  obtain v where v: "loaded ps k (b, ci, wp, m, p AND ATC_ADDRESS_MASK) atc ?atc' v"
    using load_answers [OF assms] by blast
  note iff = probe_iff [OF load_ok [OF assms]] probe_iff [OF assms]
  show "atc_probe ps k' ?atc' = Some (b, ci, wp, m, p AND ATC_ADDRESS_MASK)" if "key_of ps k = key_of ps k'"
    unfolding iff loadedD(3) [OF v] using loadedD(4) [OF v loadedD(1) [OF v]] that
    by (intro exI [of _ v]) simp
  show "atc_probe ps k' ?atc' = None \<or> atc_probe ps k' ?atc' = atc_probe ps k' atc" if "key_of ps k \<noteq> key_of ps k'"
  proof (cases "atc_probe ps k' ?atc'")
    case (Some w)
    then obtain i where i: "answers ps ?atc' i (key_of ps k')" and w: "entry_data (?atc' ! i) = w"
      unfolding iff by blast
    have "i \<noteq> v" and ans: "answers ps atc i (key_of ps k')"
      using i that unfolding loadedD(3) [OF v] by (auto split: if_splits)
    moreover have "i < ATC_ENTRIES" using i by (simp add: answers_def)
    ultimately have "entry_data (atc ! i) = w" using loadedD(4) [OF v, of i] w by simp
    with ans have "atc_probe ps k' atc = Some w" unfolding iff by blast
    then show ?thesis using Some by simp
  qed simp
qed

interpretation atc30: translation_cache "atc_ok ps" "\<lambda>k k'. key_of ps k = key_of ps k'" "atc_probe ps"
  "atc_load ps" "atc_purge ps" "\<lambda>s k v. key_selects ps s (key_of ps k)"
  "\<lambda>(b, ci, wp, m, p). (b, ci, wp, m, p AND ATC_ADDRESS_MASK)" for ps
proof
  fix c :: m68030_atc and k k' :: "u8 \<times> u32" and v :: atc_data and s
  assume ok: "atc_ok ps c"
  show "atc_ok ps (atc_load ps k v c)" by (rule load_ok [OF ok])
  show "atc_ok ps (atc_purge ps s c)" by (rule purges_ok [OF purge_purges ok])
  show "key_of ps k = key_of ps k' \<Longrightarrow> atc_probe ps k' (atc_load ps k v c) =
      Some ((\<lambda>(b, ci, wp, m, p). (b, ci, wp, m, p AND ATC_ADDRESS_MASK)) v)"
    by (cases v) (simp add: load_probe(1) [OF ok])
  show "key_of ps k \<noteq> key_of ps k' \<Longrightarrow> atc_probe ps k' (atc_load ps k v c) = None \<or>
      atc_probe ps k' (atc_load ps k v c) = atc_probe ps k' c"
    by (cases v) (simp add: load_probe(2) [OF ok])
  show "atc_probe ps k (atc_purge ps s c) = (case atc_probe ps k c of None \<Rightarrow> None
      | Some v \<Rightarrow> if key_selects ps s (key_of ps k) then None else Some v)"
    by (rule purges_probe [OF purge_purges ok])
qed

section \<open>Properties\<close>

lemma answers_flushed: "\<not> answers ps (atc_flush (replicate ATC_ENTRIES e)) i k"
proof
  assume a: "answers ps (atc_flush (replicate ATC_ENTRIES e)) i k"
  then have "i < ATC_ENTRIES" by (simp add: answers_def)
  with a show False by (simp add: answers_def atc_flush_def)
qed

lemma atc_ok_empty: "atc_ok ps (atc_flush (replicate ATC_ENTRIES e))"
  by (rule atc_okI) (simp_all add: answers_flushed, simp add: atc_flush_def)

lemma atc_probe_flushed: "atc_probe ps k (atc_flush (replicate ATC_ENTRIES e)) = None"
  unfolding atc_probe_def by (simp add: atc_find_None answers_flushed)

text \<open>No stale translation. From a flushed cache, after any sequence of table searches that
  load what the tables then hold, of flushes (PFLUSHA, PFLUSH by address, PFLUSH by function code),
  and of changes to the tables each followed by a flush that selects every page it changed, a
  lookup that hits answers the translation now in force.\<close>

theorem atc_never_stale:
  assumes "\<forall>k k'. key_of ps k = key_of ps k' \<longrightarrow> T k = T k'"
    and "\<forall>k. case T k of (b, ci, wp, m, p) \<Rightarrow> p AND ATC_ADDRESS_MASK = p"
    and "disciplined (\<lambda>k k'. key_of ps k = key_of ps k')
      (\<lambda>(b, ci, wp, m, p). (b, ci, wp, m, p AND ATC_ADDRESS_MASK))
      (\<lambda>s k v. key_selects ps s (key_of ps k)) os T"
    and "fold (perform (atc_load ps) (atc_purge ps)) os (T, atc_flush (replicate ATC_ENTRIES e)) = (T', atc)"
    and "atc_probe ps k atc = Some v"
  shows "v = T' k"
proof (rule atc30.never_stale [OF atc_ok_empty _ assms(1) _ assms(3,4,5)])
  show "\<forall>k. atc_probe ps k (atc_flush (replicate ATC_ENTRIES e)) = None" by (simp add: atc_probe_flushed)
  show "\<forall>k. (\<lambda>(b, ci, wp, m, p). (b, ci, wp, m, p AND ATC_ADDRESS_MASK)) (T k) = T k"
    using assms(2) by (auto split: prod.splits)
qed

definition zero_entry :: atc_entry where
  "zero_entry = \<lparr>at_valid = False, at_function_code = 0, at_logical = 0, at_bus_error = False,
     at_cache_inhibit = False, at_write_protect = False, at_modified = False, at_physical = 0,
     at_history = False\<rparr>"

text \<open>A page remapped and flushed with a zero mask: the next search loads the new frame.\<close>

lemma atc_never_stale_witness:
  "the (atc_probe 12 (5, 0x3C004C00) (snd (fold (perform (atc_load 12) (atc_purge 12))
     [Load (5, 0x3C004C00),
      Remap (\<lambda>k. (False, False, False, True, 0x2220)) (FlushCodes 0 0), Load (5, 0x3C004ABC)]
     (\<lambda>k. (False, False, False, True, 0x1110), atc_flush (replicate ATC_ENTRIES zero_entry))))) =
   (False, False, False, True, 0x2220)"
proof -
  let ?ops = "[Load (5, 0x3C004C00), Remap (\<lambda>k::u8 \<times> u32. (False, False, False, True, 0x2220::u32)) (FlushCodes 0 0),
      Load (5, 0x3C004ABC)]" and ?T = "\<lambda>k::u8 \<times> u32. (False, False, False, True, 0x1110::u32)"
  have run: "fold (perform (atc_load 12) (atc_purge 12)) ?ops (?T, atc_flush (replicate ATC_ENTRIES zero_entry)) =
      ((\<lambda>k. (False, False, False, True, 0x2220)),
       snd (fold (perform (atc_load 12) (atc_purge 12)) ?ops (?T, atc_flush (replicate ATC_ENTRIES zero_entry))))"
    by simp
  have hit: "atc_probe 12 (5, 0x3C004C00) (snd (fold (perform (atc_load 12) (atc_purge 12)) ?ops
      (?T, atc_flush (replicate ATC_ENTRIES zero_entry)))) \<noteq> None"
    by code_simp
  then obtain v where v: "atc_probe 12 (5, 0x3C004C00) (snd (fold (perform (atc_load 12) (atc_purge 12)) ?ops
      (?T, atc_flush (replicate ATC_ENTRIES zero_entry)))) = Some v" by blast
  have "v = (False, False, False, True, 0x2220)"
    by (rule atc_never_stale [OF _ _ _ run v]) (simp_all add: ATC_ADDRESS_MASK_def)
  with v show ?thesis by simp
qed

end
