(* ===== verification/M68030_Walk.thy ===== *)
theory M68030_Walk
  imports M68030_Tc M68030_Atc
begin

text \<open>
  The MC68030's table search: what a descriptor is and what a search accumulates
  (\<^verbatim>\<open>src/core/cpu/m68030/ap_m68030_desc.c\<close>), the search itself and the decoding of descriptors from
  memory (\<^verbatim>\<open>ap_m68030_walk.c\<close>), the status register PTEST fills (\<^verbatim>\<open>ap_m68030_mmusr.c\<close>) and the two
  translation paths of an access that put cache and search together (\<^verbatim>\<open>ap_m68030_access.c\<close>).

  The callbacks \<^verbatim>\<open>ap_m68030_fetch_fn\<close> and \<^verbatim>\<open>ap_m68030_update_fn\<close> are arguments, functions on the
  state \<open>'m\<close> of their context: a fetch that returns false is \<open>None\<close>, an update \<open>NULL\<close> is \<open>None\<close>.
\<close>

section \<open>Descriptors\<close>

datatype desc_dt = DT_INVALID | DT_PAGE | DT_VALID_4BYTE | DT_VALID_8BYTE

datatype desc_role = ROLE_INVALID | ROLE_PAGE | ROLE_EARLY_PAGE | ROLE_TABLE | ROLE_INDIRECT

fun desc_role_of :: "desc_dt \<Rightarrow> bool \<Rightarrow> desc_role" where
  "desc_role_of DT_INVALID in_page_table = ROLE_INVALID"
| "desc_role_of DT_PAGE in_page_table = (if in_page_table then ROLE_PAGE else ROLE_EARLY_PAGE)"
| "desc_role_of _ in_page_table = (if in_page_table then ROLE_INDIRECT else ROLE_TABLE)"

fun desc_next_table_stride :: "desc_dt \<Rightarrow> u32" where
  "desc_next_table_stride DT_VALID_4BYTE = 4"
| "desc_next_table_stride DT_VALID_8BYTE = 8"
| "desc_next_table_stride _ = 0"

fun desc_terminates :: "desc_role \<Rightarrow> bool" where
  "desc_terminates ROLE_TABLE \<longleftrightarrow> False"
| "desc_terminates ROLE_INDIRECT \<longleftrightarrow> False"
| "desc_terminates _ \<longleftrightarrow> True"

definition desc_index_within_limit :: "u16 \<Rightarrow> bool \<Rightarrow> u32 \<Rightarrow> bool" where
  "desc_index_within_limit limit lower_limit index \<longleftrightarrow>
     (let bound = ucast (limit AND 0x7FFF) in if lower_limit then index \<ge> bound else index \<le> bound)"

definition PAGE_ADDRESS_SHIFT :: nat where "PAGE_ADDRESS_SHIFT = 8"

definition desc_page_address :: "u32 \<Rightarrow> u8 \<Rightarrow> u32" where
  "desc_page_address page_address_field page_size_bits =
     (let base = push_bit PAGE_ADDRESS_SHIFT (page_address_field AND 0x00FFFFFF)
      in if unat page_size_bits \<le> PAGE_ADDRESS_SHIFT then base
         else base AND NOT (push_bit (unat page_size_bits) 1 - 1))"

record m68030_search =
  se_write_protected :: bool
  se_supervisor_only :: bool
  se_cache_inhibited :: bool
  se_limit_violation :: bool
  se_invalid :: bool

definition search_reset :: m68030_search where
  "search_reset = \<lparr>se_write_protected = False, se_supervisor_only = False, se_cache_inhibited = False,
     se_limit_violation = False, se_invalid = False\<rparr>"

definition search_accumulate :: "bool \<Rightarrow> bool \<Rightarrow> bool \<Rightarrow> m68030_search \<Rightarrow> m68030_search" where
  "search_accumulate write_protect supervisor cache_inhibit s =
     s\<lparr>se_write_protected := se_write_protected s \<or> write_protect,
       se_supervisor_only := se_supervisor_only s \<or> supervisor,
       se_cache_inhibited := se_cache_inhibited s \<or> cache_inhibit\<rparr>"

definition search_fail_limit :: "m68030_search \<Rightarrow> m68030_search" where
  "search_fail_limit s = s\<lparr>se_limit_violation := True\<rparr>"

definition search_fail_invalid :: "m68030_search \<Rightarrow> m68030_search" where
  "search_fail_invalid s = s\<lparr>se_invalid := True\<rparr>"

definition search_permits_write :: "m68030_search \<Rightarrow> bool" where
  "search_permits_write s \<longleftrightarrow> \<not> se_write_protected s \<and> \<not> se_invalid s \<and> \<not> se_limit_violation s"

definition search_permits_access :: "m68030_search \<Rightarrow> bool \<Rightarrow> bool" where
  "search_permits_access s supervisor_access \<longleftrightarrow>
     (if se_invalid s \<or> se_limit_violation s then False
      else supervisor_access \<or> \<not> se_supervisor_only s)"

definition search_should_set_modified :: "m68030_search \<Rightarrow> bool \<Rightarrow> bool \<Rightarrow> bool \<Rightarrow> bool \<Rightarrow> bool" where
  "search_should_set_modified s is_write read_modify_write supervisor_access modified_already \<longleftrightarrow>
     (if \<not> is_write \<and> \<not> read_modify_write then False
      else if modified_already then False
      else if se_write_protected s then False
      else if se_supervisor_only s \<and> \<not> supervisor_access then False
      else \<not> se_invalid s \<and> \<not> se_limit_violation s)"

record m68030_descriptor =
  de_dt :: desc_dt
  de_address_field :: u32
  de_limit :: u16
  de_lower_limit :: bool
  de_has_limit :: bool
  de_write_protect :: bool
  de_supervisor :: bool
  de_cache_inhibit :: bool
  de_modified :: bool
  de_used :: bool

section \<open>The search\<close>

record search_access =
  sa_write :: bool
  sa_read_modify_write :: bool
  sa_supervisor :: bool

record m68030_root =
  rt_table_address :: u32
  rt_long_format :: bool
  rt_limit :: u16
  rt_lower_limit :: bool
  rt_has_limit :: bool
  rt_page_descriptor :: bool
  rt_dt :: desc_dt

record walk_result =
  wr_ok :: bool
  wr_physical :: u32
  wr_search :: m68030_search
  wr_descriptor_fetches :: nat
  wr_history_writes :: nat
  wr_levels_walked :: nat
  wr_last_descriptor_address :: u32
  wr_truncated :: bool
  wr_early_termination :: bool
  wr_used_indirect :: bool
  wr_page_modified :: bool
  wr_bus_error :: bool

type_synonym 'm fetch_fn = "u32 \<Rightarrow> bool \<Rightarrow> 'm \<Rightarrow> m68030_descriptor option \<times> 'm"
type_synonym 'm update_fn = "(u32 \<Rightarrow> bool \<Rightarrow> bool \<Rightarrow> 'm \<Rightarrow> bool \<times> 'm) option"

definition zero_result :: walk_result where
  "zero_result = \<lparr>wr_ok = False, wr_physical = 0, wr_search = search_reset, wr_descriptor_fetches = 0,
     wr_history_writes = 0, wr_levels_walked = 0, wr_last_descriptor_address = 0,
     wr_truncated = False, wr_early_termination = False, wr_used_indirect = False,
     wr_page_modified = False, wr_bus_error = False\<rparr>"

definition fail_invalid :: "walk_result \<Rightarrow> walk_result" where
  "fail_invalid r = r\<lparr>wr_search := search_fail_invalid (wr_search r)\<rparr>"

definition bits_consumed_before :: "m68030_tc \<Rightarrow> nat \<Rightarrow> nat" where
  "bits_consumed_before tc level =
     unat (tc_initial_shift tc) + sum_list (map unat (take level (tc_table_index tc)))"

definition remaining_offset :: "m68030_tc \<Rightarrow> nat \<Rightarrow> u32 \<Rightarrow> u32" where
  "remaining_offset tc levels_used address =
     (let consumed = bits_consumed_before tc levels_used
      in if consumed \<ge> 32 then 0
         else let width = 32 - consumed
              in address AND (if width \<ge> 32 then 0xFFFFFFFF else push_bit width 1 - 1))"

text \<open>The history bits of one descriptor; false for a bus error on the write half.\<close>

definition update_history :: "search_access \<Rightarrow> 'm update_fn \<Rightarrow> u32 \<Rightarrow> m68030_descriptor \<Rightarrow> bool \<Rightarrow>
    walk_result \<times> 'm \<Rightarrow> bool \<times> walk_result \<times> 'm" where
  "update_history access update descriptor_address descriptor is_page = (\<lambda>(r, m).
     let violated = \<not> search_permits_access (wr_search r) (sa_supervisor access);
         set_used = (\<not> de_used descriptor \<and> \<not> violated);
         set_modified = (is_page \<and> search_should_set_modified (wr_search r) (sa_write access)
           (sa_read_modify_write access) (sa_supervisor access) (de_modified descriptor))
     in case update of
          None \<Rightarrow> (True, if is_page then r\<lparr>wr_page_modified := de_modified descriptor\<rparr> else r, m)
        | Some up \<Rightarrow>
            let r = (if is_page then r\<lparr>wr_page_modified := de_modified descriptor \<or> set_modified\<rparr> else r)
            in if \<not> set_used \<and> \<not> set_modified then (True, r, m)
               else let r = r\<lparr>wr_history_writes := wr_history_writes r + 1\<rparr>;
                        (done, m) = up descriptor_address set_used set_modified m
                    in if \<not> done then (False, r\<lparr>wr_bus_error := True\<rparr>, m) else (True, r, m))"

text \<open>A fetch: counted whether or not it succeeds, its address recorded only when it does, and the
  protection bits folded into the search.\<close>

definition fetch_descriptor :: "'m fetch_fn \<Rightarrow> u32 \<Rightarrow> bool \<Rightarrow> walk_result \<times> 'm \<Rightarrow>
    m68030_descriptor option \<times> walk_result \<times> 'm" where
  "fetch_descriptor fetch address long_format = (\<lambda>(r, m).
     let r = r\<lparr>wr_descriptor_fetches := wr_descriptor_fetches r + 1\<rparr>
     in case fetch address long_format m of
          (None, m) \<Rightarrow> (None, fail_invalid (r\<lparr>wr_bus_error := True\<rparr>), m)
        | (Some d, m) \<Rightarrow> (Some d, r\<lparr>wr_last_descriptor_address := address\<rparr>, m))"

definition accumulate :: "m68030_descriptor \<Rightarrow> walk_result \<Rightarrow> walk_result" where
  "accumulate d r = r\<lparr>wr_search :=
     search_accumulate (de_write_protect d) (de_supervisor d) (de_cache_inhibit d) (wr_search r)\<rparr>"

definition page_physical :: "m68030_tc \<Rightarrow> u32 \<Rightarrow> m68030_descriptor \<Rightarrow> u32" where
  "page_physical tc address d =
     desc_page_address (de_address_field d) (tc_page_size_bits tc) OR (address AND (tc_page_size tc - 1))"

definition finish_page :: "u32 \<Rightarrow> bool \<Rightarrow> bool \<times> walk_result \<times> 'm \<Rightarrow> walk_result \<times> 'm" where
  "finish_page physical early = (\<lambda>(done, r, m).
     if \<not> done then (fail_invalid r, m)
     else (r\<lparr>wr_ok := True, wr_early_termination := early, wr_physical := physical\<rparr>, m))"

definition follow_indirect :: "m68030_tc \<Rightarrow> u32 \<Rightarrow> search_access \<Rightarrow> 'm fetch_fn \<Rightarrow> 'm update_fn \<Rightarrow> u32 \<Rightarrow>
    m68030_descriptor \<Rightarrow> walk_result \<times> 'm \<Rightarrow> walk_result \<times> 'm" where
  "follow_indirect tc address access fetch update descriptor_address descriptor rm =
     (case update_history access update descriptor_address descriptor False rm of
        (False, r, m) \<Rightarrow> (fail_invalid r, m)
      | (True, r, m) \<Rightarrow>
          (case fetch_descriptor fetch (de_address_field descriptor) (de_dt descriptor = DT_VALID_8BYTE)
                  (r\<lparr>wr_used_indirect := True\<rparr>, m) of
             (None, r, m) \<Rightarrow> (r, m)
           | (Some pointed, r, m) \<Rightarrow>
               let r = accumulate pointed r
               in if de_dt pointed \<noteq> DT_PAGE then (fail_invalid r, m)
                  else finish_page (page_physical tc address pointed) False
                    (update_history access update (de_address_field descriptor) pointed True (r, m))))"

record walk_table =
  wt_address :: u32
  wt_long_format :: bool
  wt_has_limit :: bool
  wt_limit :: u16
  wt_lower_limit :: bool

definition descriptor_address_of :: "walk_table \<Rightarrow> u32 \<Rightarrow> u32" where
  "descriptor_address_of t index = wt_address t + index * (if wt_long_format t then 8 else 4)"

text \<open>The loop over the levels, on the indices still to use; the last one indexes the page table.\<close>

fun walk_levels :: "m68030_tc \<Rightarrow> u32 \<Rightarrow> search_access \<Rightarrow> 'm fetch_fn \<Rightarrow> 'm update_fn \<Rightarrow> nat \<Rightarrow>
    u32 list \<Rightarrow> nat \<Rightarrow> walk_table \<Rightarrow> walk_result \<times> 'm \<Rightarrow> walk_result \<times> 'm" where
  "walk_levels tc address access fetch update max_levels [] level t (r, m) = (fail_invalid r, m)"
| "walk_levels tc address access fetch update max_levels (index # rest) level t (r, m) =
     (if max_levels \<noteq> 0 \<and> level \<ge> max_levels then (r\<lparr>wr_truncated := True\<rparr>, m)
      else if wt_has_limit t \<and> \<not> desc_index_within_limit (wt_limit t) (wt_lower_limit t) index
      then (r\<lparr>wr_search := search_fail_limit (wr_search r)\<rparr>, m)
      else
        let descriptor_address = descriptor_address_of t index
        in case fetch_descriptor fetch descriptor_address (wt_long_format t) (r, m) of
             (None, r, m) \<Rightarrow> (r, m)
           | (Some d, r, m) \<Rightarrow>
               let r = accumulate d (r\<lparr>wr_levels_walked := level + 1\<rparr>)
               in case desc_role_of (de_dt d) (rest = []) of
                    ROLE_INVALID \<Rightarrow> (fail_invalid r, m)
                  | ROLE_INDIRECT \<Rightarrow>
                      follow_indirect tc address access fetch update descriptor_address d (r, m)
                  | ROLE_PAGE \<Rightarrow>
                      finish_page (page_physical tc address d) False
                        (update_history access update descriptor_address d True (r, m))
                  | ROLE_EARLY_PAGE \<Rightarrow>
                      finish_page
                        (push_bit 8 (de_address_field d AND 0x00FFFFFF) OR remaining_offset tc (level + 1) address)
                        True (update_history access update descriptor_address d True (r, m))
                  | ROLE_TABLE \<Rightarrow>
                      (case update_history access update descriptor_address d False (r, m) of
                         (False, r, m) \<Rightarrow> (fail_invalid r, m)
                       | (True, r, m) \<Rightarrow>
                           walk_levels tc address access fetch update max_levels rest (level + 1)
                             \<lparr>wt_address = de_address_field d, wt_long_format = (de_dt d = DT_VALID_8BYTE),
                              wt_has_limit = de_has_limit d, wt_limit = de_limit d,
                              wt_lower_limit = de_lower_limit d\<rparr> (r, m)))"

definition walk_to_level :: "m68030_tc \<Rightarrow> m68030_root \<Rightarrow> u32 \<Rightarrow> search_access \<Rightarrow> 'm fetch_fn \<Rightarrow>
    'm update_fn \<Rightarrow> nat \<Rightarrow> 'm \<Rightarrow> walk_result \<times> 'm" where
  "walk_to_level tc root address access fetch update max_levels m =
     (let split = tc_split tc address
      in if rt_page_descriptor root
         then if rt_has_limit root \<and> sp_levels split > 0 \<and>
                 \<not> desc_index_within_limit (rt_limit root) (rt_lower_limit root) (sp_index split ! 0)
              then (zero_result\<lparr>wr_search := search_fail_limit search_reset\<rparr>, m)
              else (zero_result\<lparr>wr_ok := True, wr_physical := address + rt_table_address root\<rparr>, m)
         else walk_levels tc address access fetch update max_levels
                (take (sp_levels split) (sp_index split)) 0
                \<lparr>wt_address = rt_table_address root, wt_long_format = rt_long_format root,
                 wt_has_limit = rt_has_limit root, wt_limit = rt_limit root,
                 wt_lower_limit = rt_lower_limit root\<rparr> (zero_result, m))"

definition walk :: "m68030_tc \<Rightarrow> m68030_root \<Rightarrow> u32 \<Rightarrow> search_access \<Rightarrow> 'm fetch_fn \<Rightarrow> 'm update_fn \<Rightarrow>
    'm \<Rightarrow> walk_result \<times> 'm" where
  "walk tc root address access fetch update m = walk_to_level tc root address access fetch update 0 m"

definition walk_fill_atc :: "walk_result \<Rightarrow> search_access \<Rightarrow> u8 \<Rightarrow> u32 \<Rightarrow> u8 \<Rightarrow> m68030_atc \<Rightarrow>
    nat \<times> m68030_atc" where
  "walk_fill_atc r access function_code address page_size_bits atc =
     (let bus_error = (se_invalid (wr_search r) \<or> se_limit_violation (wr_search r) \<or>
            \<not> search_permits_access (wr_search r) (sa_supervisor access));
          physical_page = (if bus_error then 0 else drop_bit ATC_ADDRESS_SHIFT (wr_physical r))
      in atc_insert function_code address page_size_bits physical_page
           (se_write_protected (wr_search r)) (se_cache_inhibited (wr_search r)) (wr_page_modified r)
           bus_error atc)"

section \<open>Descriptors in memory\<close>

definition DESC_DT_MASK :: u32 where "DESC_DT_MASK = 3"
definition DESC_SHORT_WP_BIT :: nat where "DESC_SHORT_WP_BIT = 2"
definition DESC_SHORT_U_BIT :: nat where "DESC_SHORT_U_BIT = 3"
definition DESC_SHORT_M_BIT :: nat where "DESC_SHORT_M_BIT = 4"
definition DESC_SHORT_CI_BIT :: nat where "DESC_SHORT_CI_BIT = 6"
definition DESC_LONG_WP_BIT :: nat where "DESC_LONG_WP_BIT = 2"
definition DESC_LONG_U_BIT :: nat where "DESC_LONG_U_BIT = 3"
definition DESC_LONG_M_BIT :: nat where "DESC_LONG_M_BIT = 4"
definition DESC_LONG_CI_BIT :: nat where "DESC_LONG_CI_BIT = 6"
definition DESC_LONG_S_BIT :: nat where "DESC_LONG_S_BIT = 8"
definition DESC_LONG_LIMIT_SHIFT :: nat where "DESC_LONG_LIMIT_SHIFT = 16"
definition DESC_LONG_LU_BIT :: nat where "DESC_LONG_LU_BIT = 31"

lemmas desc_layout = DESC_DT_MASK_def DESC_SHORT_WP_BIT_def DESC_SHORT_U_BIT_def DESC_SHORT_M_BIT_def
  DESC_SHORT_CI_BIT_def DESC_LONG_WP_BIT_def DESC_LONG_U_BIT_def DESC_LONG_M_BIT_def
  DESC_LONG_CI_BIT_def DESC_LONG_S_BIT_def DESC_LONG_LIMIT_SHIFT_def DESC_LONG_LU_BIT_def

text \<open>The DT field as the enumeration, by the values the header gives them.\<close>

definition dt_of :: "u32 \<Rightarrow> desc_dt" where
  "dt_of v = (if v = 0 then DT_INVALID else if v = 1 then DT_PAGE
     else if v = 2 then DT_VALID_4BYTE else DT_VALID_8BYTE)"

fun dt_value :: "desc_dt \<Rightarrow> u32" where
  "dt_value DT_INVALID = 0" | "dt_value DT_PAGE = 1" | "dt_value DT_VALID_4BYTE = 2"
| "dt_value DT_VALID_8BYTE = 3"

definition zero_descriptor :: m68030_descriptor where
  "zero_descriptor = \<lparr>de_dt = DT_INVALID, de_address_field = 0, de_limit = 0, de_lower_limit = False,
     de_has_limit = False, de_write_protect = False, de_supervisor = False, de_cache_inhibit = False,
     de_modified = False, de_used = False\<rparr>"

definition descriptor_unpack_short :: "u32 \<Rightarrow> bool \<Rightarrow> m68030_descriptor" where
  "descriptor_unpack_short word in_page_table =
     (let d = zero_descriptor\<lparr>de_dt := dt_of (word AND DESC_DT_MASK)\<rparr>
      in case desc_role_of (de_dt d) in_page_table of
           ROLE_INVALID \<Rightarrow> d
         | ROLE_INDIRECT \<Rightarrow> d\<lparr>de_address_field := word AND 0xFFFFFFFC, de_used := True\<rparr>
         | ROLE_TABLE \<Rightarrow>
             d\<lparr>de_address_field := word AND 0xFFFFFFF0, de_used := testbit word DESC_SHORT_U_BIT,
               de_write_protect := testbit word DESC_SHORT_WP_BIT\<rparr>
         | _ \<Rightarrow>
             d\<lparr>de_address_field := drop_bit 8 word AND 0x00FFFFFF,
               de_cache_inhibit := testbit word DESC_SHORT_CI_BIT,
               de_modified := testbit word DESC_SHORT_M_BIT,
               de_used := testbit word DESC_SHORT_U_BIT,
               de_write_protect := testbit word DESC_SHORT_WP_BIT\<rparr>)"

definition descriptor_unpack_long :: "u32 \<Rightarrow> u32 \<Rightarrow> bool \<Rightarrow> m68030_descriptor" where
  "descriptor_unpack_long upper lower in_page_table =
     (let d = zero_descriptor\<lparr>de_dt := dt_of (upper AND DESC_DT_MASK)\<rparr>;
          role = desc_role_of (de_dt d) in_page_table
      in if role = ROLE_INVALID then d
         else let d = d\<lparr>de_has_limit := True,
                    de_limit := ucast (drop_bit DESC_LONG_LIMIT_SHIFT upper AND 0x7FFF),
                    de_lower_limit := testbit upper DESC_LONG_LU_BIT,
                    de_supervisor := testbit upper DESC_LONG_S_BIT,
                    de_used := testbit upper DESC_LONG_U_BIT,
                    de_write_protect := testbit upper DESC_LONG_WP_BIT\<rparr>
              in case role of
                   ROLE_INDIRECT \<Rightarrow> d\<lparr>de_address_field := lower AND 0xFFFFFFFC, de_has_limit := False\<rparr>
                 | ROLE_TABLE \<Rightarrow> d\<lparr>de_address_field := lower AND 0xFFFFFFF0\<rparr>
                 | ROLE_INVALID \<Rightarrow> d
                 | _ \<Rightarrow> d\<lparr>de_address_field := drop_bit 8 lower AND 0x00FFFFFF,
                          de_cache_inhibit := testbit upper DESC_LONG_CI_BIT,
                          de_modified := testbit upper DESC_LONG_M_BIT\<rparr>)"

definition root_pack_upper :: "m68030_root \<Rightarrow> u32" where
  "root_pack_upper root =
     (dt_value (rt_dt root) AND DESC_DT_MASK) OR
     (if rt_has_limit root
      then push_bit DESC_LONG_LIMIT_SHIFT (ucast (rt_limit root) AND 0x7FFF) OR
           (if rt_lower_limit root then push_bit DESC_LONG_LU_BIT 1 else 0)
      else 0)"

text \<open>The machine's callbacks, \<^verbatim>\<open>machine_table_fetch\<close> and \<^verbatim>\<open>machine_table_update\<close> of
  \<^verbatim>\<open>src/core/machine/ap_machine.c\<close>. Memory is a map from addresses to long words, undefined where the
  board answers with a bus error; the counters of the report are left out.\<close>

type_synonym table_memory = "u32 \<Rightarrow> u32 option"

definition machine_table_fetch :: "table_memory fetch_fn" where
  "machine_table_fetch physical long_format memory =
     ((case memory physical of
         None \<Rightarrow> None
       | Some upper \<Rightarrow>
           if \<not> long_format then Some (descriptor_unpack_short upper False)
           else (case memory (physical + 4) of
                   None \<Rightarrow> None
                 | Some lower \<Rightarrow> Some (descriptor_unpack_long upper lower False))), memory)"

definition machine_table_update :: "u32 \<Rightarrow> bool \<Rightarrow> bool \<Rightarrow> table_memory \<Rightarrow> bool \<times> table_memory" where
  "machine_table_update physical set_used set_modified memory =
     (case memory physical of
        None \<Rightarrow> (False, memory)
      | Some descriptor \<Rightarrow>
          let descriptor = (if set_used then descriptor OR push_bit 3 1 else descriptor);
              descriptor = (if set_modified then descriptor OR push_bit 4 1 else descriptor)
          in (True, memory(physical \<mapsto> descriptor)))"

section \<open>The status register\<close>

record mmusr =
  ms_bus_error :: bool
  ms_limit_violation :: bool
  ms_supervisor_violation :: bool
  ms_write_protected :: bool
  ms_invalid :: bool
  ms_modified :: bool
  ms_transparent :: bool
  ms_levels :: u8

definition MMUSR_B_BIT :: nat where "MMUSR_B_BIT = 15"
definition MMUSR_L_BIT :: nat where "MMUSR_L_BIT = 14"
definition MMUSR_S_BIT :: nat where "MMUSR_S_BIT = 13"
definition MMUSR_W_BIT :: nat where "MMUSR_W_BIT = 11"
definition MMUSR_I_BIT :: nat where "MMUSR_I_BIT = 10"
definition MMUSR_M_BIT :: nat where "MMUSR_M_BIT = 9"
definition MMUSR_T_BIT :: nat where "MMUSR_T_BIT = 6"
definition MMUSR_N_MASK :: nat where "MMUSR_N_MASK = 7"

lemmas mmusr_layout = MMUSR_B_BIT_def MMUSR_L_BIT_def MMUSR_S_BIT_def MMUSR_W_BIT_def MMUSR_I_BIT_def
  MMUSR_M_BIT_def MMUSR_T_BIT_def MMUSR_N_MASK_def

definition bit_at :: "bool \<Rightarrow> nat \<Rightarrow> u16" where
  "bit_at b position = (if b then push_bit position 1 else 0)"

definition mmusr_pack :: "mmusr \<Rightarrow> u16" where
  "mmusr_pack m =
     bit_at (ms_bus_error m) MMUSR_B_BIT OR bit_at (ms_limit_violation m) MMUSR_L_BIT OR
     bit_at (ms_supervisor_violation m) MMUSR_S_BIT OR bit_at (ms_write_protected m) MMUSR_W_BIT OR
     bit_at (ms_invalid m) MMUSR_I_BIT OR bit_at (ms_modified m) MMUSR_M_BIT OR
     bit_at (ms_transparent m) MMUSR_T_BIT OR ucast (ms_levels m AND of_nat MMUSR_N_MASK)"

definition mmusr_unpack :: "u16 \<Rightarrow> mmusr" where
  "mmusr_unpack word =
     \<lparr>ms_bus_error = testbit word MMUSR_B_BIT, ms_limit_violation = testbit word MMUSR_L_BIT,
      ms_supervisor_violation = testbit word MMUSR_S_BIT, ms_write_protected = testbit word MMUSR_W_BIT,
      ms_invalid = testbit word MMUSR_I_BIT, ms_modified = testbit word MMUSR_M_BIT,
      ms_transparent = testbit word MMUSR_T_BIT, ms_levels = ucast (word AND of_nat MMUSR_N_MASK)\<rparr>"

definition zero_mmusr :: mmusr where
  "zero_mmusr = \<lparr>ms_bus_error = False, ms_limit_violation = False, ms_supervisor_violation = False,
     ms_write_protected = False, ms_invalid = False, ms_modified = False, ms_transparent = False,
     ms_levels = 0\<rparr>"

definition mmusr_probe_atc :: "m68030_atc \<Rightarrow> u8 \<Rightarrow> u32 \<Rightarrow> u8 \<Rightarrow> bool \<Rightarrow> mmusr" where
  "mmusr_probe_atc atc function_code address page_size_bits transparent_match =
     (if transparent_match then zero_mmusr\<lparr>ms_transparent := True\<rparr>
      else let found = atc_lookup atc function_code address page_size_bits False False
           in if ar_index found < 0 then zero_mmusr\<lparr>ms_invalid := True\<rparr>
              else let entry = atc ! nat (ar_index found);
                       m = zero_mmusr\<lparr>ms_bus_error := at_bus_error entry, ms_invalid := at_bus_error entry\<rparr>
                   in if ms_invalid m then m
                      else m\<lparr>ms_write_protected := at_write_protect entry, ms_modified := at_modified entry\<rparr>)"

definition mmusr_from_search :: "walk_result \<Rightarrow> u8 \<Rightarrow> mmusr" where
  "mmusr_from_search r function_code =
     (let m = zero_mmusr\<lparr>ms_bus_error := wr_bus_error r,
                ms_limit_violation := se_limit_violation (wr_search r),
                ms_levels := of_nat (wr_levels_walked r) AND of_nat MMUSR_N_MASK\<rparr>;
          m = m\<lparr>ms_invalid := se_invalid (wr_search r) \<or> ms_bus_error m \<or> ms_limit_violation m\<rparr>
      in if ms_invalid m then m
         else m\<lparr>ms_supervisor_violation := se_supervisor_only (wr_search r) \<and> \<not> (function_code AND 4 \<noteq> 0),
                ms_write_protected := se_write_protected (wr_search r),
                ms_modified := wr_page_modified r\<rparr>)"

section \<open>What one search costs\<close>

lemma update_history_cost:
  assumes "update_history access update p d pg (r, m) = (done, r', m')"
  shows "wr_descriptor_fetches r' = wr_descriptor_fetches r" "wr_levels_walked r' = wr_levels_walked r"
    "wr_history_writes r' \<le> wr_history_writes r + 1" "wr_search r' = wr_search r" "wr_ok r' = wr_ok r"
    "wr_early_termination r' = wr_early_termination r" "wr_truncated r' = wr_truncated r"
    "update = None \<Longrightarrow> done \<and> m' = m \<and> wr_history_writes r' = wr_history_writes r"
  using assms by (auto simp: update_history_def Let_def split: option.splits prod.splits if_splits)

lemma fetch_descriptor_cost:
  assumes "fetch_descriptor fetch p l (r, m) = (d, r', m')"
  shows "wr_descriptor_fetches r' = wr_descriptor_fetches r + 1" "wr_levels_walked r' = wr_levels_walked r"
    "wr_history_writes r' = wr_history_writes r" "wr_ok r' = wr_ok r" "wr_truncated r' = wr_truncated r"
  using assms by (auto simp: fetch_descriptor_def fail_invalid_def Let_def split: option.splits prod.splits)

lemma accumulate_simps [simp]:
  "wr_descriptor_fetches (accumulate d r) = wr_descriptor_fetches r"
  "wr_levels_walked (accumulate d r) = wr_levels_walked r"
  "wr_history_writes (accumulate d r) = wr_history_writes r" "wr_ok (accumulate d r) = wr_ok r"
  "wr_truncated (accumulate d r) = wr_truncated r"
  "wr_early_termination (accumulate d r) = wr_early_termination r"
  by (simp_all add: accumulate_def)

lemma fail_invalid_simps [simp]:
  "wr_descriptor_fetches (fail_invalid r) = wr_descriptor_fetches r"
  "wr_levels_walked (fail_invalid r) = wr_levels_walked r"
  "wr_history_writes (fail_invalid r) = wr_history_writes r" "wr_ok (fail_invalid r) = wr_ok r"
  "wr_truncated (fail_invalid r) = wr_truncated r"
  by (simp_all add: fail_invalid_def)

lemma finish_page_cost:
  assumes "finish_page x early (done, r, m) = (r', m')"
  shows "wr_descriptor_fetches r' = wr_descriptor_fetches r" "wr_levels_walked r' = wr_levels_walked r"
    "wr_history_writes r' = wr_history_writes r" "wr_truncated r' = wr_truncated r" "m' = m"
  using assms by (auto simp: finish_page_def split: if_splits)

text \<open>\<open>costs n r r'\<close>: the step from \<open>r\<close> to \<open>r'\<close> fetched at most \<open>n\<close> descriptors and wrote history at
  most once for each of them.\<close>

definition costs :: "nat \<Rightarrow> bool \<Rightarrow> walk_result \<Rightarrow> walk_result \<Rightarrow> bool" where
  "costs n probing r r' \<longleftrightarrow> wr_descriptor_fetches r' \<le> wr_descriptor_fetches r + n \<and>
     wr_history_writes r' + wr_descriptor_fetches r \<le> wr_history_writes r + wr_descriptor_fetches r' \<and>
     (probing \<longrightarrow> wr_history_writes r' = wr_history_writes r)"

lemma finish_update_cost:
  assumes "finish_page x early (update_history access update p d True (r, m)) = (r', m')"
  shows "wr_descriptor_fetches r' = wr_descriptor_fetches r \<and> wr_history_writes r' \<le> wr_history_writes r + 1 \<and>
    (update = None \<longrightarrow> wr_history_writes r' = wr_history_writes r) \<and> wr_levels_walked r' = wr_levels_walked r"
proof -
  obtain b r1 m1 where u: "update_history access update p d True (r, m) = (b, r1, m1)" by (metis prod_cases3)
  show ?thesis
    using update_history_cost [OF u] finish_page_cost [of x early b r1 m1 r' m'] assms by (simp add: u)
qed

lemma follow_indirect_cost:
  assumes "follow_indirect tc address access fetch update p d (r, m) = (r', m')"
  shows "wr_descriptor_fetches r' \<le> wr_descriptor_fetches r + 1 \<and>
    wr_history_writes r' + wr_descriptor_fetches r \<le> wr_history_writes r + wr_descriptor_fetches r' + 1 \<and>
    (update = None \<longrightarrow> wr_history_writes r' = wr_history_writes r) \<and> wr_levels_walked r' = wr_levels_walked r"
proof -
  obtain b r1 m1 where u: "update_history access update p d False (r, m) = (b, r1, m1)" by (metis prod_cases3)
  note c1 = update_history_cost [OF u]
  show ?thesis
  proof (cases b)
    case False
    then show ?thesis using assms c1 by (auto simp: follow_indirect_def u)
  next
    case True
    obtain pointed r2 m2 where f: "fetch_descriptor fetch (de_address_field d) (de_dt d = DT_VALID_8BYTE)
        (r1\<lparr>wr_used_indirect := True\<rparr>, m1) = (pointed, r2, m2)" by (metis prod_cases3)
    note c2 = fetch_descriptor_cost [OF f]
    show ?thesis
    proof (cases pointed)
      case None
      then show ?thesis using assms c1 c2 True by (auto simp: follow_indirect_def u f)
    next
      case (Some q)
      show ?thesis
      proof (cases "de_dt q = DT_PAGE")
        case False
        then show ?thesis using assms c1 c2 True Some by (auto simp: follow_indirect_def u f Let_def)
      next
        case page: True
        then have "finish_page (page_physical tc address q) False
            (update_history access update (de_address_field d) q True (accumulate q r2, m2)) = (r', m')"
          using assms True Some by (simp add: follow_indirect_def u f Let_def)
        from finish_update_cost [OF this] show ?thesis using c1 c2 by auto
      qed
    qed
  qed
qed

lemma walk_levels_go:
  assumes "\<not> (max_levels \<noteq> 0 \<and> level \<ge> max_levels \<or>
      wt_has_limit t \<and> \<not> desc_index_within_limit (wt_limit t) (wt_lower_limit t) i)"
    and "fetch_descriptor fetch (descriptor_address_of t i) (wt_long_format t) (r, m) = (Some d, r1, m1)"
  shows "walk_levels tc address access fetch update max_levels (i # rest) level t (r, m) =
    (let r = accumulate d (r1\<lparr>wr_levels_walked := Suc level\<rparr>); p = descriptor_address_of t i
     in case desc_role_of (de_dt d) (rest = []) of
          ROLE_INVALID \<Rightarrow> (fail_invalid r, m1)
        | ROLE_INDIRECT \<Rightarrow> follow_indirect tc address access fetch update p d (r, m1)
        | ROLE_PAGE \<Rightarrow> finish_page (page_physical tc address d) False
            (update_history access update p d True (r, m1))
        | ROLE_EARLY_PAGE \<Rightarrow> finish_page
            (push_bit 8 (de_address_field d AND 0x00FFFFFF) OR remaining_offset tc (Suc level) address)
            True (update_history access update p d True (r, m1))
        | ROLE_TABLE \<Rightarrow>
            (case update_history access update p d False (r, m1) of
               (False, r, m) \<Rightarrow> (fail_invalid r, m)
             | (True, r, m) \<Rightarrow> walk_levels tc address access fetch update max_levels rest (Suc level)
                  \<lparr>wt_address = de_address_field d, wt_long_format = (de_dt d = DT_VALID_8BYTE),
                   wt_has_limit = de_has_limit d, wt_limit = de_limit d,
                   wt_lower_limit = de_lower_limit d\<rparr> (r, m)))"
  unfolding Suc_eq_plus1 using assms by (auto simp: Let_def)

lemma walk_levels_refused:
  assumes "\<not> (max_levels \<noteq> 0 \<and> level \<ge> max_levels \<or>
      wt_has_limit t \<and> \<not> desc_index_within_limit (wt_limit t) (wt_lower_limit t) i)"
    and "fetch_descriptor fetch (descriptor_address_of t i) (wt_long_format t) (r, m) = (None, r1, m1)"
  shows "walk_levels tc address access fetch update max_levels (i # rest) level t (r, m) = (r1, m1)"
  using assms by (auto simp: Let_def)

lemma walk_levels_stopped:
  assumes "max_levels \<noteq> 0 \<and> level \<ge> max_levels \<or>
      wt_has_limit t \<and> \<not> desc_index_within_limit (wt_limit t) (wt_lower_limit t) i"
  shows "walk_levels tc address access fetch update max_levels (i # rest) level t (r, m) =
    (if max_levels \<noteq> 0 \<and> level \<ge> max_levels then (r\<lparr>wr_truncated := True\<rparr>, m)
     else (r\<lparr>wr_search := search_fail_limit (wr_search r)\<rparr>, m))"
  using assms by auto

declare walk_levels.simps(2) [simp del]

lemma walk_levels_cost:
  assumes "walk_levels tc address access fetch update max_levels is level t (r, m) = (r', m')"
    and "wr_levels_walked r \<le> level"
  shows "costs (length is + 1) (update = None) r r' \<and> wr_levels_walked r' \<le> level + length is \<and>
    (max_levels \<noteq> 0 \<longrightarrow> wr_levels_walked r' \<le> max max_levels (wr_levels_walked r))"
  using assms
proof (induction "is" arbitrary: level t r m)
  case Nil
  then show ?case by (auto simp: costs_def)
next
  case (Cons i rest)
  note prem = Cons.prems(1)
  show ?case
  proof (cases "max_levels \<noteq> 0 \<and> level \<ge> max_levels \<or>
      wt_has_limit t \<and> \<not> desc_index_within_limit (wt_limit t) (wt_lower_limit t) i")
    case True
    then show ?thesis using prem Cons.prems(2)
      by (auto simp: walk_levels_stopped [OF True] costs_def split: if_splits)
  next
    case go: False
    let ?p = "descriptor_address_of t i"
    obtain d r1 m1 where f: "fetch_descriptor fetch ?p (wt_long_format t) (r, m) = (d, r1, m1)"
      by (metis prod_cases3)
    note c1 = fetch_descriptor_cost [OF f]
    show ?thesis
    proof (cases d)
      case None
      then have "r' = r1" using prem by (simp add: walk_levels_refused [OF go f [unfolded None]])
      then show ?thesis using c1 Cons.prems(2) by (auto simp: costs_def)
    next
      case (Some q)
      let ?r = "accumulate q (r1\<lparr>wr_levels_walked := Suc level\<rparr>)"
      show ?thesis
      proof (cases "desc_role_of (de_dt q) (rest = [])")
        case ROLE_INVALID
        then have "r' = fail_invalid ?r" using prem by (simp add: walk_levels_go [OF go f [unfolded Some]])
        then show ?thesis using c1 go by (auto simp: costs_def)
      next
        case ROLE_INDIRECT
        then have "follow_indirect tc address access fetch update ?p q (?r, m1) = (r', m')"
          using prem by (simp add: walk_levels_go [OF go f [unfolded Some]])
        from follow_indirect_cost [OF this] show ?thesis
          using c1 go by (auto simp: costs_def)
      next
        case ROLE_PAGE
        then have "finish_page (page_physical tc address q) False
            (update_history access update ?p q True (?r, m1)) = (r', m')"
          using prem by (simp add: walk_levels_go [OF go f [unfolded Some]])
        from finish_update_cost [OF this] show ?thesis using c1 go by (auto simp: costs_def)
      next
        case ROLE_EARLY_PAGE
        then have "finish_page (push_bit 8 (de_address_field q AND 0x00FFFFFF) OR remaining_offset tc (Suc level) address)
            True (update_history access update ?p q True (?r, m1)) = (r', m')"
          using prem by (simp add: walk_levels_go [OF go f [unfolded Some]])
        from finish_update_cost [OF this] show ?thesis using c1 go by (auto simp: costs_def)
      next
        case ROLE_TABLE
        obtain b r2 m2 where u: "update_history access update ?p q False (?r, m1) = (b, r2, m2)"
          by (metis prod_cases3)
        note c2 = update_history_cost [OF u]
        show ?thesis
        proof (cases b)
          case False
          then have "r' = fail_invalid r2"
            using prem ROLE_TABLE by (simp add: walk_levels_go [OF go f [unfolded Some]] u)
          then show ?thesis using c1 c2 go by (auto simp: costs_def)
        next
          case True
          then have rec: "walk_levels tc address access fetch update max_levels rest (Suc level)
             \<lparr>wt_address = de_address_field q, wt_long_format = (de_dt q = DT_VALID_8BYTE),
              wt_has_limit = de_has_limit q, wt_limit = de_limit q,
              wt_lower_limit = de_lower_limit q\<rparr> (r2, m2) = (r', m')"
            using prem ROLE_TABLE by (simp add: walk_levels_go [OF go f [unfolded Some]] u)
          have lev: "wr_levels_walked r2 = Suc level" using c2 by simp
          have "level < max_levels" if "max_levels \<noteq> 0" using go that by simp
          then show ?thesis using Cons.IH [OF rec] c1 c2 lev by (auto simp: costs_def)
        qed
      qed
    qed
  qed
qed

section \<open>Translation is by pages\<close>

text \<open>Two searches that differ in the page offset of the address alone: they run alike, and where
  they translate, the physical addresses have the same frame and each its own offset.\<close>

definition relocates :: "nat \<Rightarrow> u32 \<Rightarrow> u32 \<Rightarrow> walk_result \<times> 'm \<Rightarrow> walk_result \<times> 'm \<Rightarrow> bool" where
  "relocates n a a' rm rm' \<longleftrightarrow> snd rm' = snd rm \<and> fst rm' = (fst rm)\<lparr>wr_physical := wr_physical (fst rm')\<rparr> \<and>
     (wr_ok (fst rm) \<longrightarrow> drop_bit n (wr_physical (fst rm')) = drop_bit n (wr_physical (fst rm)) \<and>
        take_bit n (wr_physical (fst rm)) = take_bit n a \<and> take_bit n (wr_physical (fst rm')) = take_bit n a')"

lemma relocates_not_ok: "\<not> wr_ok (fst rm) \<Longrightarrow> relocates n a a' rm rm"
  by (simp add: relocates_def)

lemma relocates_finish:
  assumes "drop_bit n x' = drop_bit n x" and "take_bit n x = take_bit n a" and "take_bit n x' = take_bit n a'"
    and "\<not> wr_ok (fst (snd brm))"
  shows "relocates n a a' (finish_page x early brm) (finish_page x' early brm)"
  using assms by (cases brm) (auto simp: relocates_def finish_page_def split: if_splits)

text \<open>The operating system leaves the page address bits a page does not use at zero.\<close>

definition tables_aligned :: "nat \<Rightarrow> 'm fetch_fn \<Rightarrow> bool" where
  "tables_aligned n fetch \<longleftrightarrow> (\<forall>p l m d. fst (fetch p l m) = Some d \<longrightarrow> de_dt d = DT_PAGE \<longrightarrow>
     take_bit n (push_bit 8 (de_address_field d AND 0x00FFFFFF)) = 0)"

lemma bits_frame_offset:
  fixes frame a :: u32
  assumes "take_bit n frame = 0"
  shows "take_bit n (frame OR take_bit n a) = take_bit n a" "drop_bit n (frame OR take_bit n a) = drop_bit n frame"
  using assms by (simp_all add: take_bit_or drop_bit_or)
    (auto simp: bit_eq_iff bit_drop_bit_eq bit_or_iff bit_take_bit_iff)

lemma page_physical_bits:
  assumes "wf_tc tc" and "fst (tc_is_consistent tc)"
  shows "take_bit (unat (tc_page_size_bits tc)) (page_physical tc a d) = take_bit (unat (tc_page_size_bits tc)) a"
    and "drop_bit (unat (tc_page_size_bits tc)) (page_physical tc a d) =
      drop_bit (unat (tc_page_size_bits tc)) (desc_page_address (de_address_field d) (tc_page_size_bits tc))"
proof -
  note f = tc_consistent_facts [OF assms]
  let ?n = "unat (tc_page_size_bits tc)"
  have off: "a AND (tc_page_size tc - 1) = take_bit ?n a"
    unfolding f(4) push_bit_of_1 mask_eq_exp_minus_1 [symmetric] by (simp add: take_bit_eq_mask)
  have zero: "take_bit ?n (desc_page_address x (tc_page_size_bits tc)) = 0" for x
  proof (cases "?n = 8")
    case True
    then show ?thesis
      by (simp add: desc_page_address_def PAGE_ADDRESS_SHIFT_def Let_def take_bit_push_bit)
  next
    case False
    have m: "push_bit ?n 1 - 1 = (mask ?n :: u32)" unfolding push_bit_of_1 mask_eq_exp_minus_1 ..
    from False f(1) have "\<not> ?n \<le> PAGE_ADDRESS_SHIFT" by (simp add: PAGE_ADDRESS_SHIFT_def)
    then show ?thesis unfolding desc_page_address_def Let_def m
      by (auto simp: bit_eq_iff bit_take_bit_iff bit_and_iff bit_not_iff bit_mask_iff)
  qed
  show "take_bit ?n (page_physical tc a d) = take_bit ?n a"
    "drop_bit ?n (page_physical tc a d) = drop_bit ?n (desc_page_address (de_address_field d) (tc_page_size_bits tc))"
    unfolding page_physical_def off by (rule bits_frame_offset [OF zero])+
qed

lemma sum_fields_prefix:
  "n \<le> length (takeWhile (\<lambda>w. w \<noteq> 0) ws) \<Longrightarrow> sum_list (map unat (take n ws)) \<le> fields_total ws"
proof (induction ws arbitrary: n)
  case (Cons w ws)
  then show ?case by (cases n) (auto split: if_splits)
qed simp

lemma remaining_offset_bits:
  assumes "wf_tc tc" and "fst (tc_is_consistent tc)" and "l \<le> length (takeWhile (\<lambda>w. w \<noteq> 0) (tc_table_index tc))"
    and "take_bit (unat (tc_page_size_bits tc)) frame = 0"
    and "drop_bit (unat (tc_page_size_bits tc)) a' = drop_bit (unat (tc_page_size_bits tc)) a"
  shows "take_bit (unat (tc_page_size_bits tc)) (frame OR remaining_offset tc l a) =
      take_bit (unat (tc_page_size_bits tc)) a"
    and "drop_bit (unat (tc_page_size_bits tc)) (frame OR remaining_offset tc l a') =
      drop_bit (unat (tc_page_size_bits tc)) (frame OR remaining_offset tc l a)"
proof -
  let ?n = "unat (tc_page_size_bits tc)" and ?c = "bits_consumed_before tc l"
  note f = tc_consistent_facts [OF assms(1,2)]
  have c: "?c + ?n \<le> 32"
    using sum_fields_prefix [OF assms(3)] f(3) by (simp add: bits_consumed_before_def)
  have rem: "remaining_offset tc l x = take_bit (32 - ?c) x" for x
  proof -
    have "x AND 0xFFFFFFFF = take_bit 32 x"
      by (simp add: take_bit_eq_mask mask_eq_exp_minus_1)
    moreover have "push_bit (32 - ?c) 1 - 1 = (mask (32 - ?c) :: u32)" unfolding push_bit_of_1 mask_eq_exp_minus_1 ..
    moreover have "\<not> 32 \<le> 32 - ?c" if "?c \<noteq> 0" using that by linarith
    ultimately show ?thesis
      using c f(1) unfolding remaining_offset_def Let_def take_bit_eq_mask
      by (cases "?c = 0") simp_all
  qed
  show "take_bit ?n (frame OR remaining_offset tc l a) = take_bit ?n a"
    unfolding rem take_bit_or assms(4) using c by (simp add: min_absorb1)
  have "drop_bit ?n (take_bit (32 - ?c) x) = take_bit (32 - ?c - ?n) (drop_bit ?n x)" for x :: u32
    by (rule drop_bit_take_bit)
  then show "drop_bit ?n (frame OR remaining_offset tc l a') = drop_bit ?n (frame OR remaining_offset tc l a)"
    unfolding rem drop_bit_or by (simp add: assms(5))
qed

lemma relocates_page:
  assumes "wf_tc tc" and "fst (tc_is_consistent tc)" and "\<not> wr_ok (fst (snd brm))"
  shows "relocates (unat (tc_page_size_bits tc)) a a' (finish_page (page_physical tc a d) early brm)
    (finish_page (page_physical tc a' d) early brm)"
  by (rule relocates_finish) (simp_all add: page_physical_bits [OF assms(1,2)] assms(3))

lemma update_history_not_ok:
  "\<not> wr_ok r \<Longrightarrow> \<not> wr_ok (fst (snd (update_history access update p d pg (r, m))))"
  using update_history_cost(5) [of access update p d pg r m] by (metis prod.collapse)

lemma relocates_indirect:
  assumes "wf_tc tc" and "fst (tc_is_consistent tc)" and "\<not> wr_ok r"
  shows "relocates (unat (tc_page_size_bits tc)) a a' (follow_indirect tc a access fetch update p d (r, m))
    (follow_indirect tc a' access fetch update p d (r, m))"
proof -
  obtain b r1 m1 where u: "update_history access update p d False (r, m) = (b, r1, m1)" by (metis prod_cases3)
  have r1: "\<not> wr_ok r1" using update_history_cost(5) [OF u] assms(3) by simp
  show ?thesis
  proof (cases b)
    case True
    obtain q r2 m2 where f: "fetch_descriptor fetch (de_address_field d) (de_dt d = DT_VALID_8BYTE)
        (r1\<lparr>wr_used_indirect := True\<rparr>, m1) = (q, r2, m2)" by (metis prod_cases3)
    have r2: "\<not> wr_ok r2" using fetch_descriptor_cost(4) [OF f] r1 by simp
    then show ?thesis
      by (cases q) (auto simp: follow_indirect_def u f True Let_def relocates_not_ok update_history_not_ok
          intro!: relocates_page [OF assms(1,2)])
  next
    case False
    then show ?thesis by (simp add: follow_indirect_def u relocates_not_ok r1)
  qed
qed

lemma fetch_descriptor_Some:
  "fetch_descriptor fetch p l (r, m) = (Some d, r1, m1) \<Longrightarrow> fst (fetch p l m) = Some d"
  by (auto simp: fetch_descriptor_def Let_def split: option.splits prod.splits)

lemma walk_levels_same_page:
  assumes "wf_tc tc" and "fst (tc_is_consistent tc)" and "tables_aligned (unat (tc_page_size_bits tc)) fetch"
    and "drop_bit (unat (tc_page_size_bits tc)) a' = drop_bit (unat (tc_page_size_bits tc)) a"
    and "level + length is = length (takeWhile (\<lambda>w. w \<noteq> 0) (tc_table_index tc))" and "\<not> wr_ok r"
  shows "relocates (unat (tc_page_size_bits tc)) a a' (walk_levels tc a access fetch update max_levels is level t (r, m))
    (walk_levels tc a' access fetch update max_levels is level t (r, m))"
  using assms(5,6)
proof (induction "is" arbitrary: level t r m)
  case Nil
  then show ?case by (simp add: relocates_not_ok)
next
  case (Cons i rest)
  note page = relocates_page [OF assms(1,2)] and nok = update_history_not_ok
  show ?case
  proof (cases "max_levels \<noteq> 0 \<and> level \<ge> max_levels \<or>
      wt_has_limit t \<and> \<not> desc_index_within_limit (wt_limit t) (wt_lower_limit t) i")
    case True
    then show ?thesis using Cons.prems by (simp add: walk_levels_stopped [OF True] relocates_not_ok)
  next
    case go: False
    obtain d r1 m1 where f: "fetch_descriptor fetch (descriptor_address_of t i) (wt_long_format t) (r, m) = (d, r1, m1)"
      by (metis prod_cases3)
    have r1: "\<not> wr_ok r1" using fetch_descriptor_cost(4) [OF f] Cons.prems by simp
    show ?thesis
    proof (cases d)
      case None
      then show ?thesis using r1 by (simp add: walk_levels_refused [OF go f [unfolded None]] relocates_not_ok)
    next
      case (Some q)
      let ?r = "accumulate q (r1\<lparr>wr_levels_walked := Suc level\<rparr>)" and ?p = "descriptor_address_of t i"
      have nr: "\<not> wr_ok ?r" using r1 by simp
      note step = walk_levels_go [OF go f [unfolded Some]]
      show ?thesis
      proof (cases "desc_role_of (de_dt q) (rest = [])")
        case ROLE_INVALID
        then show ?thesis using nr by (simp add: step relocates_not_ok)
      next
        case ROLE_INDIRECT
        then show ?thesis using nr by (simp add: step relocates_indirect [OF assms(1,2)])
      next
        case ROLE_PAGE
        then show ?thesis by (simp add: step page nok [OF nr])
      next
        case ROLE_EARLY_PAGE
        then have "de_dt q = DT_PAGE" by (cases "de_dt q") (auto split: if_splits)
        then have al: "take_bit (unat (tc_page_size_bits tc)) (push_bit 8 (de_address_field q AND 0x00FFFFFF)) = 0"
          using assms(3) fetch_descriptor_Some [OF f [unfolded Some]] by (simp add: tables_aligned_def)
        have l: "Suc level \<le> length (takeWhile (\<lambda>w. w \<noteq> 0) (tc_table_index tc))" using Cons.prems(1) by simp
        note rem = remaining_offset_bits [OF assms(1,2) l al]
        show ?thesis using ROLE_EARLY_PAGE rem(1) [OF refl, of a] rem(1) [OF refl, of a'] rem(2) [OF assms(4)]
          by (simp add: step) (rule relocates_finish, simp_all add: nok [OF nr])
      next
        case ROLE_TABLE
        obtain b r2 m2 where u: "update_history access update ?p q False (?r, m1) = (b, r2, m2)"
          by (metis prod_cases3)
        have r2: "\<not> wr_ok r2" using update_history_cost(5) [OF u] nr by simp
        have rest: "Suc level + length rest = length (takeWhile (\<lambda>w. w \<noteq> 0) (tc_table_index tc))"
          using Cons.prems(1) by simp
        show ?thesis
          using ROLE_TABLE r2 Cons.IH [OF rest r2] by (cases b) (simp_all add: step u relocates_not_ok)
      qed
    qed
  qed
qed

lemma frame_plus:
  fixes a a' t :: u32
  assumes "take_bit n t = 0" and "drop_bit n a' = drop_bit n a" and "n \<le> 32"
  shows "take_bit n (a + t) = take_bit n a" "drop_bit n (a' + t) = drop_bit n (a + t)"
proof -
  have low: "take_bit n (x + t) = take_bit n x" for x
  proof -
    have tb: "unat (take_bit n y) = unat y mod 2 ^ n" for y :: u32
      by (subst unsigned_take_bit_eq) (rule take_bit_eq_mod)
    have t: "unat t mod 2 ^ n = 0" using arg_cong [OF assms(1), of unat] unfolding tb by simp
    have "unat (take_bit n (x + t)) = (unat x + unat t) mod 2 ^ 32 mod 2 ^ n"
      unfolding tb by (simp add: unat_word_ariths)
    also have "\<dots> = (unat x + unat t) mod 2 ^ n"
      by (rule mod_mod_cancel) (rule le_imp_power_dvd [OF assms(3)])
    also have "\<dots> = unat x mod 2 ^ n" using mod_add_eq [of "unat x" "2 ^ n" "unat t"] t by simp
    finally show ?thesis unfolding word_unat_eq_iff tb .
  qed
  show "take_bit n (a + t) = take_bit n a" by (rule low)
  have high: "push_bit n (drop_bit n (x + t)) = push_bit n (drop_bit n x) + t" for x
  proof -
    have "push_bit n (drop_bit n y) = y - take_bit n y" for y :: u32
      using bits_ident [of n y] by (simp only: eq_diff_eq)
    then show ?thesis by (simp only: low) simp
  qed
  have "drop_bit n (push_bit n (drop_bit n x)) = drop_bit n x" for x :: u32
    by (auto simp: bit_eq_iff bit_drop_bit_eq bit_push_bit_iff dest: bit_imp_le_length)
  then show "drop_bit n (a' + t) = drop_bit n (a + t)"
    using high [of a] high [of a'] assms(2) by metis
qed

lemma walk_same_page:
  assumes "wf_tc tc" and "fst (tc_is_consistent tc)" and "tables_aligned (unat (tc_page_size_bits tc)) fetch"
    and "rt_page_descriptor root \<longrightarrow> take_bit (unat (tc_page_size_bits tc)) (rt_table_address root) = 0"
    and "drop_bit (unat (tc_page_size_bits tc)) a' = drop_bit (unat (tc_page_size_bits tc)) a"
  shows "relocates (unat (tc_page_size_bits tc)) a a' (walk tc root a access fetch update m)
    (walk tc root a' access fetch update m)"
proof -
  let ?n = "unat (tc_page_size_bits tc)"
  note f = tc_consistent_facts [OF assms(1,2)] and sp = tc_split_consistent [OF assms(1,2)]
  have "split_indices (tc_table_index tc) (unat (tc_initial_shift tc)) a' =
      split_indices (tc_table_index tc) (unat (tc_initial_shift tc)) a"
    by (rule split_indices_same_page [of _ _ ?n]) (use f assms(5) in simp_all)
  then have index: "sp_index (tc_split tc a') = sp_index (tc_split tc a)"
    and levels: "sp_levels (tc_split tc a') = sp_levels (tc_split tc a)"
    by (simp_all add: tc_split_def Let_def)
  have len: "0 + length (take (sp_levels (tc_split tc a)) (sp_index (tc_split tc a))) =
      length (takeWhile (\<lambda>w. w \<noteq> 0) (tc_table_index tc))"
    unfolding sp(2) [of a, symmetric] by (simp add: tc_split_def Let_def)
  show ?thesis
  proof (cases "rt_page_descriptor root")
    case True
    then have t: "take_bit ?n (rt_table_address root) = 0" using assms(4) by simp
    have n: "?n \<le> 32" using f(2) by simp
    note fr = frame_plus(1) [OF t refl n, of a] frame_plus(1) [OF t refl n, of a'] frame_plus(2) [OF t assms(5) n]
    show ?thesis
      using True fr by (auto simp: walk_def walk_to_level_def Let_def index levels relocates_def zero_result_def)
  next
    case False
    have "relocates ?n a a' (walk_levels tc a access fetch update 0
        (take (sp_levels (tc_split tc a)) (sp_index (tc_split tc a))) 0 t (zero_result, m))
      (walk_levels tc a' access fetch update 0
        (take (sp_levels (tc_split tc a)) (sp_index (tc_split tc a))) 0 t (zero_result, m))" for t
      by (rule walk_levels_same_page [OF assms(1-3,5) len]) (simp add: zero_result_def)
    then show ?thesis using False by (simp add: walk_def walk_to_level_def Let_def index levels)
  qed
qed

section \<open>What a finished search says\<close>

text \<open>A search without a ceiling translates exactly when it met no invalid descriptor and no limit;
  a translated write that the path permits leaves the page modified.\<close>

definition concluded :: "search_access \<Rightarrow> bool \<Rightarrow> walk_result \<Rightarrow> bool" where
  "concluded access updating r \<longleftrightarrow>
     (wr_ok r \<longleftrightarrow> \<not> se_invalid (wr_search r) \<and> \<not> se_limit_violation (wr_search r)) \<and>
     (wr_ok r \<and> updating \<and> (sa_write access \<or> sa_read_modify_write access) \<and>
      \<not> se_write_protected (wr_search r) \<and> search_permits_access (wr_search r) (sa_supervisor access)
      \<longrightarrow> wr_page_modified r)"

definition clean :: "walk_result \<Rightarrow> bool" where
  "clean r \<longleftrightarrow> \<not> wr_ok r \<and> \<not> se_invalid (wr_search r) \<and> \<not> se_limit_violation (wr_search r)"

lemma clean_accumulate [simp]: "clean (accumulate d r) \<longleftrightarrow> clean r"
  by (simp add: clean_def accumulate_def search_accumulate_def)

lemma clean_updates [simp]:
  "clean (r\<lparr>wr_levels_walked := l\<rparr>) \<longleftrightarrow> clean r" "clean (r\<lparr>wr_used_indirect := b\<rparr>) \<longleftrightarrow> clean r"
  by (simp_all add: clean_def)

lemma concluded_fail [simp]: "clean r \<Longrightarrow> concluded access u (fail_invalid r)"
  by (simp add: clean_def concluded_def fail_invalid_def search_fail_invalid_def)

lemma clean_update: "update_history access update p d pg (r, m) = (b, r1, m1) \<Longrightarrow> clean r \<Longrightarrow> clean r1"
  using update_history_cost(4,5) [of access update p d pg r m b r1 m1] by (simp add: clean_def)

lemma clean_fetch:
  "fetch_descriptor fetch p l (r, m) = (Some d, r1, m1) \<Longrightarrow> clean r \<Longrightarrow> clean r1"
  "fetch_descriptor fetch p l (r, m) = (None, r1, m1) \<Longrightarrow> clean r \<Longrightarrow> concluded access u r1"
  by (auto simp: fetch_descriptor_def Let_def clean_def concluded_def fail_invalid_def search_fail_invalid_def
      split: option.splits prod.splits)

lemma concluded_page:
  assumes "clean r"
  shows "concluded access (update \<noteq> None) (fst (finish_page x early (update_history access update p d True (r, m))))"
proof -
  obtain b r1 m1 where u: "update_history access update p d True (r, m) = (b, r1, m1)" by (metis prod_cases3)
  note c = update_history_cost(4,5) [OF u]
  have "wr_page_modified r1" if "update \<noteq> None" "b" "sa_write access \<or> sa_read_modify_write access"
    "\<not> se_write_protected (wr_search r)" "search_permits_access (wr_search r) (sa_supervisor access)"
    using u that assms
    by (auto simp: update_history_def Let_def clean_def search_should_set_modified_def search_permits_access_def
        split: option.splits prod.splits if_splits)
  then show ?thesis
    using assms c by (cases b) (auto simp: u finish_page_def concluded_def clean_def fail_invalid_def
        search_fail_invalid_def)
qed

lemma concluded_indirect:
  assumes "clean r"
  shows "concluded access (update \<noteq> None) (fst (follow_indirect tc a access fetch update p d (r, m)))"
proof -
  obtain b r1 m1 where u: "update_history access update p d False (r, m) = (b, r1, m1)" by (metis prod_cases3)
  have r1: "clean (r1\<lparr>wr_used_indirect := True\<rparr>)" using clean_update [OF u assms] by simp
  obtain q r2 m2 where f: "fetch_descriptor fetch (de_address_field d) (de_dt d = DT_VALID_8BYTE)
        (r1\<lparr>wr_used_indirect := True\<rparr>, m1) = (q, r2, m2)" by (metis prod_cases3)
  show ?thesis
  proof (cases b)
    case True
    show ?thesis
    proof (cases q)
      case None
      then show ?thesis using clean_fetch(2) [OF f [unfolded None] r1] by (simp add: follow_indirect_def u f True)
    next
      case (Some e)
      then have "clean (accumulate e r2)" using clean_fetch(1) [OF f [unfolded Some] r1] by simp
      then show ?thesis
        by (simp add: follow_indirect_def u f True Some Let_def concluded_page del: not_None_eq)
    qed
  next
    case False
    then show ?thesis using r1 by (simp add: follow_indirect_def u)
  qed
qed

lemma walk_levels_concluded:
  assumes "clean r"
  shows "concluded access (update \<noteq> None) (fst (walk_levels tc a access fetch update 0 is level t (r, m)))"
  using assms
proof (induction "is" arbitrary: level t r m)
  case (Cons i rest)
  show ?case
  proof (cases "wt_has_limit t \<and> \<not> desc_index_within_limit (wt_limit t) (wt_lower_limit t) i")
    case True
    then show ?thesis using Cons.prems
      by (simp add: walk_levels_stopped concluded_def clean_def search_fail_limit_def)
  next
    case False
    then have go: "\<not> ((0::nat) \<noteq> 0 \<and> level \<ge> 0 \<or>
        wt_has_limit t \<and> \<not> desc_index_within_limit (wt_limit t) (wt_lower_limit t) i)" by simp
    obtain d r1 m1 where f: "fetch_descriptor fetch (descriptor_address_of t i) (wt_long_format t) (r, m) = (d, r1, m1)"
      by (metis prod_cases3)
    show ?thesis
    proof (cases d)
      case None
      then show ?thesis using clean_fetch(2) [OF f [unfolded None] Cons.prems]
        by (simp add: walk_levels_refused [OF go f [unfolded None]])
    next
      case (Some q)
      let ?r = "accumulate q (r1\<lparr>wr_levels_walked := Suc level\<rparr>)" and ?p = "descriptor_address_of t i"
      have cl: "clean ?r" using clean_fetch(1) [OF f [unfolded Some] Cons.prems] by simp
      obtain b r2 m2 where u: "update_history access update ?p q False (?r, m1) = (b, r2, m2)"
        by (metis prod_cases3)
      show ?thesis
        using cl concluded_page [OF cl] concluded_indirect [OF cl] Cons.IH [OF clean_update [OF u cl]]
          clean_update [OF u cl]
        by (cases "desc_role_of (de_dt q) (rest = [])"; cases b)
          (simp_all add: walk_levels_go [OF go f [unfolded Some]] u)
    qed
  qed
qed simp

lemma walk_concluded:
  "concluded access (update \<noteq> None \<and> \<not> rt_page_descriptor root)
     (fst (walk tc root a access fetch update m))"
proof (cases "rt_page_descriptor root")
  case True
  then show ?thesis
    by (simp add: walk_def walk_to_level_def Let_def concluded_def zero_result_def search_reset_def
        search_fail_limit_def)
next
  case False
  have "clean zero_result" by (simp add: clean_def zero_result_def search_reset_def)
  then show ?thesis using False
    by (simp add: walk_def walk_to_level_def Let_def walk_levels_concluded del: not_None_eq)
qed

section \<open>Cache and search together\<close>

record mmu_outcome =
  mo_fault :: bool
  mo_physical :: u32
  mo_cache_inhibit :: bool
  mo_fetches :: nat

text \<open>The translation of a read, between the transparent match and the bus cycle.\<close>

definition translate_read :: "m68030_tc \<Rightarrow> m68030_root \<Rightarrow> 'm fetch_fn \<Rightarrow> 'm update_fn \<Rightarrow> bool \<Rightarrow> u8 \<Rightarrow> u32 \<Rightarrow>
    m68030_atc \<times> 'm \<Rightarrow> mmu_outcome \<times> m68030_atc \<times> 'm" where
  "translate_read tc root fetch update rmc function_code logical = (\<lambda>(atc, m).
     let ps = tc_page_size_bits tc;
         lookup = atc_lookup atc function_code logical ps False False;
         atc = atc_mark_used (ar_index lookup) atc
     in if ar_status lookup = ATC_HIT
        then (\<lparr>mo_fault = False, mo_physical = ar_physical lookup,
               mo_cache_inhibit = ar_cache_inhibit lookup, mo_fetches = 0\<rparr>, atc, m)
        else if ar_status lookup = ATC_FAULT
        then (\<lparr>mo_fault = True, mo_physical = 0, mo_cache_inhibit = False, mo_fetches = 0\<rparr>, atc, m)
        else
          let access = \<lparr>sa_write = False, sa_read_modify_write = rmc,
                        sa_supervisor = (function_code AND 4 \<noteq> 0)\<rparr>;
              (r, m) = walk tc root logical access fetch update m;
              atc = snd (walk_fill_atc r access function_code logical ps atc)
          in if \<not> wr_ok r \<or> \<not> search_permits_access (wr_search r) (sa_supervisor access)
             then (\<lparr>mo_fault = True, mo_physical = 0, mo_cache_inhibit = False,
                    mo_fetches = wr_descriptor_fetches r\<rparr>, atc, m)
             else (\<lparr>mo_fault = False, mo_physical = wr_physical r,
                    mo_cache_inhibit = se_cache_inhibited (wr_search r),
                    mo_fetches = wr_descriptor_fetches r\<rparr>, atc, m))"

text \<open>The translation of a write: the first write through an entry whose page is not yet marked
  modified searches although the entry hits.\<close>

definition translate_write :: "m68030_tc \<Rightarrow> m68030_root \<Rightarrow> 'm fetch_fn \<Rightarrow> 'm update_fn \<Rightarrow> bool \<Rightarrow> u8 \<Rightarrow> u32 \<Rightarrow>
    m68030_atc \<times> 'm \<Rightarrow> mmu_outcome \<times> m68030_atc \<times> 'm" where
  "translate_write tc root fetch update rmc function_code logical = (\<lambda>(atc, m).
     let ps = tc_page_size_bits tc;
         lookup = atc_lookup atc function_code logical ps True False;
         atc = atc_mark_used (ar_index lookup) atc
     in if ar_status lookup = ATC_FAULT
        then (\<lparr>mo_fault = True, mo_physical = 0, mo_cache_inhibit = False, mo_fetches = 0\<rparr>, atc, m)
        else if ar_status lookup = ATC_MISS \<or> ar_status lookup = ATC_MODIFY
        then
          let access = \<lparr>sa_write = True, sa_read_modify_write = rmc,
                        sa_supervisor = (function_code AND 4 \<noteq> 0)\<rparr>;
              (r, m) = walk tc root logical access fetch update m;
              atc = snd (walk_fill_atc r access function_code logical ps atc)
          in if \<not> wr_ok r \<or> \<not> search_permits_write (wr_search r) \<or>
                \<not> search_permits_access (wr_search r) (sa_supervisor access)
             then (\<lparr>mo_fault = True, mo_physical = 0, mo_cache_inhibit = False,
                    mo_fetches = wr_descriptor_fetches r\<rparr>, atc, m)
             else (\<lparr>mo_fault = False, mo_physical = wr_physical r,
                    mo_cache_inhibit = se_cache_inhibited (wr_search r),
                    mo_fetches = wr_descriptor_fetches r\<rparr>, atc, m)
        else (\<lparr>mo_fault = False, mo_physical = ar_physical lookup,
               mo_cache_inhibit = ar_cache_inhibit lookup, mo_fetches = 0\<rparr>, atc, m))"

text \<open>The answer of a lookup in terms of the cached data.\<close>

definition cached_status :: "bool \<Rightarrow> atc_data option \<Rightarrow> atc_status" where
  "cached_status writing d = (case d of None \<Rightarrow> ATC_MISS
     | Some (b, ci, wp, m, p) \<Rightarrow> if b \<or> writing \<and> wp then ATC_FAULT
         else if writing \<and> \<not> m then ATC_MODIFY else ATC_HIT)"

lemma lookup_status:
  "ar_status (atc_lookup atc fc a ps w rw) = cached_status (w \<or> rw) (atc_probe ps (fc, a) atc)"
  by (auto simp: atc_lookup_def atc_probe_def cached_status_def entry_data_def Let_def split: option.split)

lemma lookup_physical:
  assumes "atc_probe ps (fc, a) atc = Some (b, ci, wp, m, p)" and "8 \<le> unat ps" and "unat ps < 32"
  shows "ar_physical (atc_lookup atc fc a ps w rw) =
      push_bit (unat ps) (drop_bit (unat ps) (push_bit 8 p)) OR take_bit (unat ps) a"
    "ar_cache_inhibit (atc_lookup atc fc a ps w rw) = ci"
proof -
  obtain i where f: "atc_find atc fc a ps = Some i" and d: "entry_data (atc ! i) = (b, ci, wp, m, p)"
    using assms(1) by (auto simp: atc_probe_def)
  have p: "at_physical (atc ! i) = p" and ci: "at_cache_inhibit (atc ! i) = ci"
    using d by (simp_all add: entry_data_def)
  have om: "atc_offset_mask ps = mask (unat ps)"
    unfolding atc_offset_mask_def Let_def mask_eq_exp_minus_1 push_bit_of_1
    using assms(2,3) by (auto simp: atc_layout)
  have "x AND NOT (mask n) = push_bit n (drop_bit n x)" for x :: u32 and n
    by (auto simp: bit_eq_iff bit_and_iff bit_not_iff bit_mask_iff bit_push_bit_iff bit_drop_bit_eq
        dest: bit_imp_le_length)
  then show "ar_physical (atc_lookup atc fc a ps w rw) =
      push_bit (unat ps) (drop_bit (unat ps) (push_bit 8 p)) OR take_bit (unat ps) a"
    by (simp add: atc_lookup_def f Let_def om p ATC_ADDRESS_SHIFT_def take_bit_eq_mask)
  show "ar_cache_inhibit (atc_lookup atc fc a ps w rw) = ci"
    by (simp add: atc_lookup_def f Let_def ci)
qed

lemma nth_update_if: "xs[i := x] ! j = (if j = i \<and> i < length xs then x else xs ! j)"
  by (cases "i < length xs") (auto simp: nth_list_update list_update_beyond)

lemma probe_mark_used: "atc_probe ps k (atc_mark_used i atc) = atc_probe ps k atc"
proof -
  have *: "entry_matches (atc_mark_used i atc ! j) fc a tm \<longleftrightarrow> entry_matches (atc ! j) fc a tm"
    "entry_data (atc_mark_used i atc ! j) = entry_data (atc ! j)" for j fc a tm
    by (auto simp: atc_mark_used_def entry_matches_def entry_data_def nth_update_if
        split: if_splits)
  then show ?thesis by (simp add: atc_probe_def atc_find_def)
qed

lemma atc_ok_mark_used: "atc_ok ps atc \<Longrightarrow> atc_ok ps (atc_mark_used i atc)"
proof -
  assume ok: "atc_ok ps atc"
  have len: "length atc = ATC_ENTRIES" using ok by (simp add: atc_ok_def)
  have *: "answers ps (atc_mark_used i atc) j k \<longleftrightarrow> answers ps atc j k" for j k
    by (auto simp: answers_def atc_mark_used_def entry_key_def nth_update_if)
  show ?thesis
    by (rule atc_okI) (use len in \<open>simp add: atc_mark_used_def\<close>, use atc_ok_unique [OF ok] * in blast)
qed

lemma same_page_key:
  assumes "8 \<le> unat ps" and "unat ps \<le> 15" and "drop_bit (unat ps) a' = drop_bit (unat ps) a"
  shows "key_of ps (fc, a') = key_of ps (fc, a)"
proof -
  have high: "bit a' k = bit a k" if "unat ps \<le> k" for k
    using arg_cong [OF assms(3), of "\<lambda>x. bit x (k - unat ps)"] that by (simp add: bit_drop_bit_eq)
  have "bit (tag_mask ps) k \<Longrightarrow> unat ps \<le> k + 8" for k
    unfolding tag_mask_def Let_def push_bit_of_1 mask_eq_exp_minus_1 [symmetric]
    using assms(1,2) by (auto simp: atc_layout bit_and_iff bit_not_iff bit_mask_iff split: if_splits)
  then show ?thesis
    unfolding key_of_def tag_of_def
    by (auto simp: bit_eq_iff bit_and_iff bit_drop_bit_eq ATC_ADDRESS_SHIFT_def high add.commute)
qed

lemma fill_is_load:
  "snd (walk_fill_atc r access fc a ps atc) =
   (let b = (se_invalid (wr_search r) \<or> se_limit_violation (wr_search r) \<or>
        \<not> search_permits_access (wr_search r) (sa_supervisor access))
    in atc_load ps (fc, a) (b, se_cache_inhibited (wr_search r), se_write_protected (wr_search r),
        wr_page_modified r, if b then 0 else drop_bit ATC_ADDRESS_SHIFT (wr_physical r)) atc)"
  by (simp add: walk_fill_atc_def atc_load_def Let_def)

text \<open>What the cache answers for any address of the page after a search has filled it.\<close>

lemma probe_after_fill:
  assumes "atc_ok ps atc" and "8 \<le> unat ps" and "unat ps \<le> 15" and "drop_bit (unat ps) a' = drop_bit (unat ps) a"
  shows "atc_probe ps (fc, a') (snd (walk_fill_atc r access fc a ps atc)) =
   (let b = (se_invalid (wr_search r) \<or> se_limit_violation (wr_search r) \<or>
        \<not> search_permits_access (wr_search r) (sa_supervisor access))
    in Some (b, se_cache_inhibited (wr_search r), se_write_protected (wr_search r), wr_page_modified r,
        if b then 0 else drop_bit 8 (wr_physical r)))"
proof -
  have "drop_bit 8 x AND ATC_ADDRESS_MASK = drop_bit 8 x" for x :: u32
    unfolding ATC_ADDRESS_MASK_def and_mask_literals
    by (auto simp: bit_eq_iff bit_take_bit_iff bit_drop_bit_eq dest: bit_imp_le_length)
  then show ?thesis
    unfolding fill_is_load Let_def load_probe(1) [OF assms(1) same_page_key [OF assms(2-4), symmetric]]
    by (simp add: ATC_ADDRESS_SHIFT_def)
qed

lemma frame_of_field:
  "8 \<le> n \<Longrightarrow> push_bit n (drop_bit n (push_bit 8 (drop_bit 8 (x::u32)))) = push_bit n (drop_bit n x)"
  by (auto simp: bit_eq_iff bit_push_bit_iff bit_drop_bit_eq dest: bit_imp_le_length)

lemma frame_offset_bits:
  fixes x a :: u32
  assumes "n \<le> 32"
  shows "drop_bit n (push_bit n (drop_bit n x) OR take_bit n a) = drop_bit n x"
    "take_bit n (push_bit n (drop_bit n x) OR take_bit n a) = take_bit n a"
  by (auto simp: bit_eq_iff bit_push_bit_iff bit_drop_bit_eq bit_or_iff bit_take_bit_iff
      dest: bit_imp_le_length)

lemma word_split_eq: "drop_bit n x = drop_bit n y \<Longrightarrow> take_bit n x = take_bit n y \<Longrightarrow> x = (y::'a::len word)"
  by (metis bits_ident)

lemma probe_same_page:
  "key_of ps k' = key_of ps k \<Longrightarrow> atc_probe ps k' atc = atc_probe ps k atc"
  by (cases k; cases k') (simp add: atc_probe_def atc_find_def entry_matches_key)

text \<open>An access the cache answers, and one it does not.\<close>

definition fault_outcome :: "nat \<Rightarrow> mmu_outcome" where
  "fault_outcome fetches = \<lparr>mo_fault = True, mo_physical = 0, mo_cache_inhibit = False, mo_fetches = fetches\<rparr>"

definition cached_outcome :: "u8 \<Rightarrow> bool \<Rightarrow> u32 \<Rightarrow> atc_data \<Rightarrow> mmu_outcome" where
  "cached_outcome ps writing a = (\<lambda>(b, ci, wp, m, p).
     if b \<or> writing \<and> wp then fault_outcome 0
     else \<lparr>mo_fault = False,
           mo_physical = push_bit (unat ps) (drop_bit (unat ps) (push_bit 8 p)) OR take_bit (unat ps) a,
           mo_cache_inhibit = ci, mo_fetches = 0\<rparr>)"

definition searched_outcome :: "bool \<Rightarrow> u8 \<Rightarrow> walk_result \<Rightarrow> mmu_outcome" where
  "searched_outcome writing fc r =
     (if \<not> wr_ok r \<or> writing \<and> \<not> search_permits_write (wr_search r) \<or>
         \<not> search_permits_access (wr_search r) (fc AND 4 \<noteq> 0)
      then fault_outcome (wr_descriptor_fetches r)
      else \<lparr>mo_fault = False, mo_physical = wr_physical r,
            mo_cache_inhibit = se_cache_inhibited (wr_search r), mo_fetches = wr_descriptor_fetches r\<rparr>)"

definition access_of :: "bool \<Rightarrow> bool \<Rightarrow> u8 \<Rightarrow> search_access" where
  "access_of writing rmc fc = \<lparr>sa_write = writing, sa_read_modify_write = rmc, sa_supervisor = (fc AND 4 \<noteq> 0)\<rparr>"

lemma translate_cached:
  assumes "atc_probe (tc_page_size_bits tc) (fc, a) atc = Some d" and "8 \<le> unat (tc_page_size_bits tc)"
    and "unat (tc_page_size_bits tc) < 32"
  shows "\<exists>i. translate_read tc root fetch update rmc fc a (atc, m) =
      (cached_outcome (tc_page_size_bits tc) False a d, atc_mark_used i atc, m)"
    and "cached_status True (Some d) \<noteq> ATC_MODIFY \<Longrightarrow> \<exists>i. translate_write tc root fetch update rmc fc a (atc, m) =
      (cached_outcome (tc_page_size_bits tc) True a d, atc_mark_used i atc, m)"
proof -
  obtain b ci wp md p where d: "d = (b, ci, wp, md, p)" by (cases d)
  note ph = lookup_physical [OF assms(1) [unfolded d] assms(2,3)]
  note st = lookup_status [of atc fc a "tc_page_size_bits tc"]
  show "\<exists>i. translate_read tc root fetch update rmc fc a (atc, m) =
      (cached_outcome (tc_page_size_bits tc) False a d, atc_mark_used i atc, m)"
    by (rule exI [of _ "ar_index (atc_lookup atc fc a (tc_page_size_bits tc) False False)"])
      (auto simp: translate_read_def Let_def st ph assms(1) d cached_status_def cached_outcome_def fault_outcome_def)
  show "\<exists>i. translate_write tc root fetch update rmc fc a (atc, m) =
      (cached_outcome (tc_page_size_bits tc) True a d, atc_mark_used i atc, m)"
    if "cached_status True (Some d) \<noteq> ATC_MODIFY"
    using that
    by (intro exI [of _ "ar_index (atc_lookup atc fc a (tc_page_size_bits tc) True False)"])
      (auto simp: translate_write_def Let_def st ph assms(1) d cached_status_def cached_outcome_def fault_outcome_def
        split: if_splits)
qed

lemma translate_searched:
  assumes "walk tc root a (access_of w rmc fc) fetch update m = (r, m1)"
    and "cached_status w (atc_probe (tc_page_size_bits tc) (fc, a) atc) \<in> {ATC_MISS, ATC_MODIFY}"
  shows "\<exists>i. (if w then translate_write else translate_read) tc root fetch update rmc fc a (atc, m) =
      (searched_outcome w fc r,
       snd (walk_fill_atc r (access_of w rmc fc) fc a (tc_page_size_bits tc) (atc_mark_used i atc)), m1)"
proof -
  have st: "ar_status (atc_lookup atc fc a (tc_page_size_bits tc) w False) \<in> {ATC_MISS, ATC_MODIFY}"
    using assms(2) by (simp add: lookup_status)
  then have st': "ar_status (atc_lookup atc fc a (tc_page_size_bits tc) w False) = ATC_MISS \<or>
      ar_status (atc_lookup atc fc a (tc_page_size_bits tc) w False) = ATC_MODIFY" by simp
  show ?thesis
    using assms(1) st'
    by (intro exI [of _ "ar_index (atc_lookup atc fc a (tc_page_size_bits tc) w False)"])
      (cases w; elim disjE; simp add: translate_read_def translate_write_def Let_def access_of_def
        searched_outcome_def fault_outcome_def)
qed

definition translate_access :: "bool \<Rightarrow> m68030_tc \<Rightarrow> m68030_root \<Rightarrow> 'm fetch_fn \<Rightarrow> 'm update_fn \<Rightarrow> bool \<Rightarrow>
    u8 \<Rightarrow> u32 \<Rightarrow> m68030_atc \<times> 'm \<Rightarrow> mmu_outcome \<times> m68030_atc \<times> 'm" where
  "translate_access w = (if w then translate_write else translate_read)"

text \<open>A finished search leaves in the cache what answers the next access as the search did.\<close>

lemma searched_then_cached:
  assumes "concluded (access_of w rmc fc) u r" and "w \<longrightarrow> u" and "relocates (unat ps) a a' (r, m1) (r', m1)"
    and "8 \<le> unat ps" and "unat ps \<le> 15"
    and "d = (let b = (se_invalid (wr_search r) \<or> se_limit_violation (wr_search r) \<or>
          \<not> search_permits_access (wr_search r) (fc AND 4 \<noteq> 0))
      in (b, se_cache_inhibited (wr_search r), se_write_protected (wr_search r), wr_page_modified r,
          if b then 0 else drop_bit 8 (wr_physical r)))"
  shows "cached_outcome ps w a' d = (searched_outcome w fc r')\<lparr>mo_fetches := 0\<rparr>"
    and "cached_status w (Some d) \<noteq> ATC_MODIFY"
proof -
  have eq: "r' = r\<lparr>wr_physical := wr_physical r'\<rparr>" using assms(3) by (simp add: relocates_def)
  have r': "wr_search r' = wr_search r" "wr_ok r' = wr_ok r" by (subst eq, simp)+
  have phys: "push_bit (unat ps) (drop_bit (unat ps) (push_bit 8 (drop_bit 8 (wr_physical r)))) OR take_bit (unat ps) a' =
      wr_physical r'" if "wr_ok r"
  proof (rule word_split_eq [of "unat ps"])
    have n: "unat ps \<le> 32" using assms(5) by simp
    show "drop_bit (unat ps) (push_bit (unat ps) (drop_bit (unat ps) (push_bit 8 (drop_bit 8 (wr_physical r)))) OR
        take_bit (unat ps) a') = drop_bit (unat ps) (wr_physical r')"
      unfolding frame_of_field [OF assms(4)] frame_offset_bits [OF n] using assms(3) that by (simp add: relocates_def)
    show "take_bit (unat ps) (push_bit (unat ps) (drop_bit (unat ps) (push_bit 8 (drop_bit 8 (wr_physical r)))) OR
        take_bit (unat ps) a') = take_bit (unat ps) (wr_physical r')"
      unfolding frame_of_field [OF assms(4)] frame_offset_bits [OF n] using assms(3) that by (simp add: relocates_def)
  qed
  have ok: "wr_ok r \<longleftrightarrow> \<not> se_invalid (wr_search r) \<and> \<not> se_limit_violation (wr_search r)"
    using assms(1) by (simp add: concluded_def)
  show "cached_outcome ps w a' d = (searched_outcome w fc r')\<lparr>mo_fetches := 0\<rparr>"
    using phys ok by (auto simp: cached_outcome_def searched_outcome_def assms(6) Let_def r' fault_outcome_def
        search_permits_write_def search_permits_access_def)
  show "cached_status w (Some d) \<noteq> ATC_MODIFY"
    using assms(1,2) ok by (auto simp: cached_status_def assms(6) Let_def concluded_def access_of_def)
qed

lemma translation_repeats:
  assumes "wf_tc tc" and "fst (tc_is_consistent tc)" and "tables_aligned (unat (tc_page_size_bits tc)) fetch"
    and "rt_page_descriptor root \<longrightarrow> take_bit (unat (tc_page_size_bits tc)) (rt_table_address root) = 0"
    and "w \<longrightarrow> update \<noteq> None \<and> \<not> rt_page_descriptor root" and "atc_ok (tc_page_size_bits tc) atc"
    and "drop_bit (unat (tc_page_size_bits tc)) a' = drop_bit (unat (tc_page_size_bits tc)) a"
    and "translate_access w tc root fetch update rmc fc a (atc, m) = (o1, atc1, m1)"
  shows "\<exists>atc2. translate_access w tc root fetch update rmc fc a' (atc1, m1) =
    ((fst (translate_access w tc root fetch update rmc fc a' (atc, m)))\<lparr>mo_fetches := 0\<rparr>, atc2, m1)"
proof -
  let ?ps = "tc_page_size_bits tc"
  note f = tc_consistent_facts [OF assms(1,2)]
  have n32: "unat ?ps < 32" using f(2) by simp
  have key: "key_of ?ps (fc, a') = key_of ?ps (fc, a)" by (rule same_page_key [OF f(1,2) assms(7)])
  note same = probe_same_page [OF key]
  have cached: "\<exists>i. translate_access w tc root fetch update rmc fc x (c, m') =
      (cached_outcome ?ps w x d, atc_mark_used i c, m')"
    if "atc_probe ?ps (fc, x) c = Some d" and "cached_status w (Some d) \<noteq> ATC_MODIFY" for x c d m'
    using translate_cached(1) [OF that(1) f(1) n32] translate_cached(2) [OF that(1) f(1) n32] that(2)
    by (cases w) (simp_all add: translate_access_def)
  have zero: "(cached_outcome ?ps w x d)\<lparr>mo_fetches := 0\<rparr> = cached_outcome ?ps w x d" for x d
    by (cases d) (simp add: cached_outcome_def fault_outcome_def)
  show ?thesis
  proof (cases "\<exists>d. atc_probe ?ps (fc, a) atc = Some d \<and> cached_status w (Some d) \<noteq> ATC_MODIFY")
    case True
    then obtain d where d: "atc_probe ?ps (fc, a) atc = Some d" and st: "cached_status w (Some d) \<noteq> ATC_MODIFY"
      by blast
    obtain i where i: "atc1 = atc_mark_used i atc" "m1 = m"
      using cached [OF d st, of m] assms(8) by auto
    have d': "atc_probe ?ps (fc, a') atc = Some d" using d by (simp add: same)
    then have "atc_probe ?ps (fc, a') atc1 = Some d" by (simp add: i probe_mark_used)
    from cached [OF this st, of m1] cached [OF d' st, of m] show ?thesis by (auto simp: zero [of a' d])
  next
    case False
    then have miss: "cached_status w (atc_probe ?ps (fc, a) atc) \<in> {ATC_MISS, ATC_MODIFY}"
      by (cases "atc_probe ?ps (fc, a) atc") (auto simp: cached_status_def)
    then have miss': "cached_status w (atc_probe ?ps (fc, a') atc) \<in> {ATC_MISS, ATC_MODIFY}"
      unfolding same .
    obtain r mr where w: "walk tc root a (access_of w rmc fc) fetch update m = (r, mr)" by fastforce
    obtain r' mr' where w': "walk tc root a' (access_of w rmc fc) fetch update m = (r', mr')" by fastforce
    have rel: "relocates (unat ?ps) a a' (r, mr) (r', mr')"
      using walk_same_page [OF assms(1-4,7), of "access_of w rmc fc" update m] by (simp add: w w')
    then have mr': "mr' = mr" by (simp add: relocates_def)
    have con: "concluded (access_of w rmc fc) (update \<noteq> None \<and> \<not> rt_page_descriptor root) r"
      using walk_concluded [of "access_of w rmc fc" update root tc a fetch m] by (simp add: w del: not_None_eq)
    obtain i where i: "o1 = searched_outcome w fc r"
      "atc1 = snd (walk_fill_atc r (access_of w rmc fc) fc a ?ps (atc_mark_used i atc))" "m1 = mr"
      using translate_searched [OF w miss] assms(8) by (auto simp: translate_access_def)
    define d where "d = (let b = (se_invalid (wr_search r) \<or> se_limit_violation (wr_search r) \<or>
          \<not> search_permits_access (wr_search r) (fc AND 4 \<noteq> 0))
      in (b, se_cache_inhibited (wr_search r), se_write_protected (wr_search r), wr_page_modified r,
          if b then 0 else drop_bit 8 (wr_physical r)))"
    note sc = searched_then_cached [OF con assms(5) rel [unfolded mr'] f(1,2) d_def]
    have "atc_probe ?ps (fc, a') atc1 = Some d"
      unfolding i(2) probe_after_fill [OF atc_ok_mark_used [OF assms(6)] f(1,2) assms(7)]
      by (simp add: d_def Let_def access_of_def)
    from cached [OF this sc(2), of m1] translate_searched [OF w' miss'] sc(1) show ?thesis
      by (auto simp: translate_access_def)
  qed
qed

section \<open>Properties\<close>

text \<open>C8: the translation cache is transparent. Once an access to a page has been translated, the
  same kind of access to any address of the page is answered from the cache, with no descriptor
  fetched and memory untouched, exactly as it would have been answered before: the same fault or
  none, the same physical address, the same cache inhibit. For a write this needs a search that
  updates the tables and a root that names a table.\<close>

theorem translation_cache_transparent:
  assumes "wf_tc tc" and "fst (tc_is_consistent tc)" and "tables_aligned (unat (tc_page_size_bits tc)) fetch"
    and "rt_page_descriptor root \<longrightarrow> take_bit (unat (tc_page_size_bits tc)) (rt_table_address root) = 0"
    and "w \<longrightarrow> update \<noteq> None \<and> \<not> rt_page_descriptor root" and "atc_ok (tc_page_size_bits tc) atc"
    and "drop_bit (unat (tc_page_size_bits tc)) a' = drop_bit (unat (tc_page_size_bits tc)) a"
    and "translate_access w tc root fetch update rmc fc a (atc, m) = (o1, atc1, m1)"
  shows "\<exists>atc2. translate_access w tc root fetch update rmc fc a' (atc1, m1) =
    ((fst (translate_access w tc root fetch update rmc fc a' (atc, m)))\<lparr>mo_fetches := 0\<rparr>, atc2, m1)"
  by (rule translation_repeats [OF assms])

definition sample_page :: m68030_descriptor where
  "sample_page = zero_descriptor\<lparr>de_dt := DT_PAGE, de_address_field := 0x12340\<rparr>"

definition sample_root :: m68030_root where
  "sample_root = \<lparr>rt_table_address = 0x1000, rt_long_format = False, rt_limit = 0, rt_lower_limit = False,
     rt_has_limit = False, rt_page_descriptor = False, rt_dt = DT_VALID_4BYTE\<rparr>"

lemma translation_cache_transparent_witness:
  "fst (translate_access True (tc_decode 0x80C0AA00) sample_root (\<lambda>p l m. (Some sample_page, m))
       (Some (\<lambda>p u md m. (True, m))) False 5 0x3C004ABC
       (snd (translate_access True (tc_decode 0x80C0AA00) sample_root (\<lambda>p l m. (Some sample_page, m))
         (Some (\<lambda>p u md m. (True, m))) False 5 0x3C004C00 (atc_flush (replicate ATC_ENTRIES zero_entry), ())))) =
   \<lparr>mo_fault = False, mo_physical = 0x01234000 OR 0x004ABC, mo_cache_inhibit = False, mo_fetches = 0\<rparr>"
proof -
  let ?tc = "tc_decode 0x80C0AA00" and ?f = "\<lambda>p l m. (Some sample_page, m)"
    and ?u = "Some (\<lambda>p u md m. (True, m))" and ?c = "atc_flush (replicate ATC_ENTRIES zero_entry)"
  have ps: "unat (tc_page_size_bits ?tc) = 12" by code_simp
  have c: "fst (tc_is_consistent ?tc)" by code_simp
  have al: "tables_aligned (unat (tc_page_size_bits ?tc)) ?f"
  proof -
    have "take_bit 12 (push_bit 8 (de_address_field sample_page AND 0x00FFFFFF)) = 0" by code_simp
    then show ?thesis by (simp add: tables_aligned_def ps)
  qed
  have ok: "atc_ok (tc_page_size_bits ?tc) ?c" by (rule atc_ok_empty)
  have page: "drop_bit (unat (tc_page_size_bits ?tc)) (0x3C004ABC::u32) =
      drop_bit (unat (tc_page_size_bits ?tc)) 0x3C004C00" unfolding ps by code_simp
  obtain o1 atc1 m1 where first: "translate_access True ?tc sample_root ?f ?u False 5 0x3C004C00 (?c, ()) = (o1, atc1, m1)"
    by (metis prod_cases3)
  have "fst (translate_access True ?tc sample_root ?f ?u False 5 0x3C004ABC (atc1, m1)) =
      (fst (translate_access True ?tc sample_root ?f ?u False 5 0x3C004ABC (?c, ())))\<lparr>mo_fetches := 0\<rparr>"
    using translation_cache_transparent [OF wf_tc_decode c al _ _ ok page first] by (auto simp: sample_root_def)
  moreover have "(fst (translate_access True ?tc sample_root ?f ?u False 5 0x3C004ABC (?c, ())))\<lparr>mo_fetches := 0\<rparr> =
      \<lparr>mo_fault = False, mo_physical = 0x01234000 OR 0x004ABC, mo_cache_inhibit = False, mo_fetches = 0\<rparr>"
    by code_simp
  ultimately show ?thesis unfolding first by simp
qed

text \<open>C10: what a search can cost. Under any value of the translation control register a search,
  PTEST's with its ceiling included, fetches at most five descriptors (four levels and one
  indirection), writes the history bits at most once for each, reports at most four levels and
  never more than the ceiling; PTEST, which passes no update, writes none.\<close>

theorem walk_cost_bounded:
  "wr_descriptor_fetches (fst (walk_to_level (tc_decode v) root a access fetch update ceiling m)) \<le> 5 \<and>
   wr_history_writes (fst (walk_to_level (tc_decode v) root a access fetch update ceiling m)) \<le>
     wr_descriptor_fetches (fst (walk_to_level (tc_decode v) root a access fetch update ceiling m)) \<and>
   wr_levels_walked (fst (walk_to_level (tc_decode v) root a access fetch update ceiling m)) \<le> 4 \<and>
   (ceiling = 0 \<or> wr_levels_walked (fst (walk_to_level (tc_decode v) root a access fetch update ceiling m)) \<le> ceiling) \<and>
   wr_history_writes (fst (walk_to_level (tc_decode v) root a access fetch None ceiling m)) = 0"
proof -
  let ?tc = "tc_decode v"
  let ?is = "take (sp_levels (tc_split ?tc a)) (sp_index (tc_split ?tc a))"
  have "length (split_indices ws c x) \<le> length ws" for ws c and x :: u32
    by (induction ws arbitrary: c) (simp_all add: Let_def)
  from this [of "tc_table_index ?tc" "unat (tc_initial_shift ?tc)" a]
  have len: "length ?is \<le> 4" by (simp add: tc_split_def Let_def tc_decode_def TC_LEVELS_def)
  have cost: "costs 5 (up = None) zero_result r \<and> wr_levels_walked r \<le> 4 \<and>
      (ceiling \<noteq> 0 \<longrightarrow> wr_levels_walked r \<le> ceiling)"
    if "walk_to_level ?tc root a access fetch up ceiling m = (r, m')" for up r m'
  proof (cases "rt_page_descriptor root")
    case True
    then show ?thesis
      using that by (auto simp: walk_to_level_def Let_def zero_result_def costs_def split: if_splits)
  next
    case False
    let ?t = "\<lparr>wt_address = rt_table_address root, wt_long_format = rt_long_format root,
      wt_has_limit = rt_has_limit root, wt_limit = rt_limit root, wt_lower_limit = rt_lower_limit root\<rparr>"
    from False have w: "walk_levels ?tc a access fetch up ceiling ?is 0 ?t (zero_result, m) = (r, m')"
      using that by (simp add: walk_to_level_def Let_def)
    have "wr_levels_walked zero_result \<le> 0" by (simp add: zero_result_def)
    from walk_levels_cost [OF w this] len show ?thesis
      by (auto simp: costs_def zero_result_def)
  qed
  obtain r1 m1 where r1: "walk_to_level ?tc root a access fetch update ceiling m = (r1, m1)" by fastforce
  obtain r2 m2 where r2: "walk_to_level ?tc root a access fetch None ceiling m = (r2, m2)" by fastforce
  have "wr_descriptor_fetches zero_result = 0" "wr_history_writes zero_result = 0"
    by (simp_all add: zero_result_def)
  then show ?thesis using cost [OF r1] cost [OF r2] by (auto simp: r1 r2 costs_def)
qed

text \<open>PTEST at level 0 predicts the access. When no transparent register matches, it reports
  invalid exactly when a read would not be answered by the cache, and its W and M bits say how a
  write would fare: refused when W is set, searched for when M is clear, answered otherwise.\<close>

theorem ptest_predicts_access:
  "(\<not> ms_invalid (mmusr_probe_atc atc fc a ps False) \<longleftrightarrow> ar_status (atc_lookup atc fc a ps False False) = ATC_HIT) \<and>
   (ms_invalid (mmusr_probe_atc atc fc a ps False) \<or>
    ar_status (atc_lookup atc fc a ps True False) =
      (if ms_write_protected (mmusr_probe_atc atc fc a ps False) then ATC_FAULT
       else if ms_modified (mmusr_probe_atc atc fc a ps False) then ATC_HIT else ATC_MODIFY))"
  by (auto simp: mmusr_probe_atc_def atc_lookup_def Let_def zero_mmusr_def split: option.split)

text \<open>C27: an indirect descriptor read from the machine's memory is misread. The machine decodes every
  descriptor as if it stood above the page table, so the indirect address loses its bits 3 and 2 and
  bit 2 of the address is taken for write protection and bit 3 for the used bit; decoded for the page table the descriptor
  keeps its address and carries no protection.\<close>

theorem indirect_descriptor_misread:
  assumes "memory p = Some (x OR 2)" and "take_bit 2 x = 0"
  shows "\<exists>d. fst (machine_table_fetch p False memory) = Some d \<and>
      desc_role_of (de_dt d) True = ROLE_INDIRECT \<and>
      de_address_field d = x AND 0xFFFFFFF0 \<and> (de_write_protect d \<longleftrightarrow> bit x 2) \<and> (de_used d \<longleftrightarrow> bit x 3) \<and>
      de_address_field (descriptor_unpack_short (x OR 2) True) = x \<and>
      \<not> de_write_protect (descriptor_unpack_short (x OR 2) True)"
proof -
  have low: "\<not> bit x k" if "k < 2" for k
    using arg_cong [OF assms(2), of "\<lambda>y. bit y k"] that by (simp add: bit_take_bit_iff)
  have high: "2 \<le> k" if "bit x k" for k using low [of k] that by (cases "k < 2") simp_all
  have two: "(2::u32) = bit_of 1" by (simp add: bit_of_def)
  have fc: "(0xFFFFFFFC::u32) = NOT (mask 2)" and f0: "(0xFFFFFFF0::u32) = NOT (mask 4)"
    by (simp_all add: mask_eq_exp_minus_1)
  have dt: "(x OR 2) AND DESC_DT_MASK = 2"
    unfolding DESC_DT_MASK_def and_mask_literals two
    by (rule bit_word_eqI) (auto simp: bit_take_bit_iff bit_or_iff low)
  have full: "(x OR 2) AND 0xFFFFFFFC = x"
    unfolding two fc by (rule bit_word_eqI) (auto simp: bit_or_iff bit_and_iff bit_not_iff bit_mask_iff not_less high)
  have trunc: "(x OR 2) AND 0xFFFFFFF0 = x AND 0xFFFFFFF0"
    unfolding two f0 by (rule bit_word_eqI) (auto simp: bit_or_iff bit_and_iff bit_not_iff bit_mask_iff)
  have wp: "bit (x OR 2) 2 \<longleftrightarrow> bit x 2" "bit (x OR 2) 3 \<longleftrightarrow> bit x 3" unfolding two by (simp_all add: bit_or_iff)
  show ?thesis
    by (simp add: machine_table_fetch_def assms(1) descriptor_unpack_short_def dt dt_of_def Let_def full trunc
        desc_layout wp zero_descriptor_def del: DESC_DT_MASK_def)
qed

lemma indirect_descriptor_misread_witness:
  "\<exists>d. fst (machine_table_fetch 0x8000 False [0x8000 \<mapsto> 0x00010004 OR 2]) = Some d \<and>
     de_address_field d = 0x00010000 \<and> de_write_protect d"
  using indirect_descriptor_misread [of "[0x8000 \<mapsto> 0x00010004 OR 2]" "0x8000" "0x00010004"]
  by auto

definition offset_root :: m68030_root where
  "offset_root = \<lparr>rt_table_address = 0x10, rt_long_format = False, rt_limit = 0, rt_lower_limit = False,
     rt_has_limit = False, rt_page_descriptor = True, rt_dt = DT_PAGE\<rparr>"

definition offset_read :: "m68030_atc \<times> unit \<Rightarrow> mmu_outcome \<times> m68030_atc \<times> unit" where
  "offset_read = translate_read (tc_decode 0x80C0AA00) offset_root (\<lambda>p l m. (None, m)) None False 5 0x00004000"


end
