(* ===== verification/Board_Arbiter.thy ===== *)
theory Board_Arbiter
  imports Apollo_Prelude
begin

unbundle bit_operations_syntax

text \<open>
  Who drives the bus: \<^verbatim>\<open>src/core/cpu/m68030/ap_m68030_arb.{h,c}\<close>, the processor's own
  arbitration state machine, and \<^verbatim>\<open>src/core/board/ap_arbiter.{h,c}\<close>, the board's priority
  encoder around it. Members keep their names behind \<open>arb_\<close> and \<open>ar_\<close>. A board's bus clocks,
  request lines and RMC changes in any order are the steps of \<open>bus_step\<close>.

  The lemmas show that the processor has let go of the bus whenever a device holds it, that a
  device only gets it from a processor that is not in a read-modify-write, that the machine's
  idle skip changes nothing, and that requests are served and the bus is given back within a
  bounded number of clocks.
\<close>

section \<open>The processor's arbitration machine\<close>

datatype arb_state = ARB_STATE_0 | ARB_STATE_1 | ARB_STATE_2 | ARB_STATE_3 | ARB_STATE_4

datatype rmc = RMC_NONE | RMC_FIRST_READ | RMC_LOCKED

record arb =
  arb_state :: arb_state
  arb_br :: bool
  arb_bgack :: bool
  arb_br_sync :: u8
  arb_bgack_sync :: u8
  arb_r :: bool
  arb_a :: bool
  arb_bg :: bool
  arb_three_state :: bool
  arb_rmc :: rmc
  arb_cycle_committed :: bool

definition arb_init :: arb where
  "arb_init = \<lparr>arb_state = ARB_STATE_0, arb_br = False, arb_bgack = False, arb_br_sync = 0,
     arb_bgack_sync = 0, arb_r = False, arb_a = False, arb_bg = False, arb_three_state = False,
     arb_rmc = RMC_NONE, arb_cycle_committed = False\<rparr>"

definition arb_set_request :: "bool \<Rightarrow> arb \<Rightarrow> arb" where
  "arb_set_request asserted arb = arb\<lparr>arb_br := asserted\<rparr>"

definition arb_set_acknowledge :: "bool \<Rightarrow> arb \<Rightarrow> arb" where
  "arb_set_acknowledge asserted arb = arb\<lparr>arb_bgack := asserted\<rparr>"

definition arb_set_rmc :: "rmc \<Rightarrow> arb \<Rightarrow> arb" where
  "arb_set_rmc rmc arb = arb\<lparr>arb_rmc := rmc\<rparr>"

definition arb_set_cycle_committed :: "bool \<Rightarrow> arb \<Rightarrow> arb" where
  "arb_set_cycle_committed committed arb = arb\<lparr>arb_cycle_committed := committed\<rparr>"

definition may_grant :: "arb \<Rightarrow> bool" where
  "may_grant arb \<longleftrightarrow> arb_rmc arb \<noteq> RMC_LOCKED \<and> \<not> arb_cycle_committed arb"

definition next_state :: "arb \<Rightarrow> arb_state" where
  "next_state arb =
     (case arb_state arb of
        ARB_STATE_0 \<Rightarrow> if arb_r arb \<and> may_grant arb then ARB_STATE_1
                        else if arb_a arb then ARB_STATE_4 else ARB_STATE_0
      | ARB_STATE_1 \<Rightarrow> ARB_STATE_2
      | ARB_STATE_2 \<Rightarrow> if arb_a arb \<or> \<not> arb_r arb then ARB_STATE_3 else ARB_STATE_2
      | ARB_STATE_3 \<Rightarrow> ARB_STATE_4
      | ARB_STATE_4 \<Rightarrow> if \<not> arb_a arb then ARB_STATE_0
                        else if arb_r arb \<and> may_grant arb then ARB_STATE_1 else ARB_STATE_4)"

definition drive_outputs :: "arb \<Rightarrow> arb" where
  "drive_outputs arb =
     (case arb_state arb of
        ARB_STATE_0 \<Rightarrow> arb\<lparr>arb_bg := False, arb_three_state := False\<rparr>
      | ARB_STATE_1 \<Rightarrow> arb\<lparr>arb_bg := True, arb_three_state := True\<rparr>
      | ARB_STATE_2 \<Rightarrow> arb\<lparr>arb_bg := True, arb_three_state := True\<rparr>
      | ARB_STATE_3 \<Rightarrow> arb\<lparr>arb_bg := False, arb_three_state := True\<rparr>
      | ARB_STATE_4 \<Rightarrow> arb\<lparr>arb_bg := False, arb_three_state := True\<rparr>)"

definition SYNC_DEPTH :: nat where "SYNC_DEPTH = 2"

definition SYNC_MASK :: u8 where "SYNC_MASK = push_bit SYNC_DEPTH 1 - 1"

definition sync_advance :: "u8 \<Rightarrow> bool \<Rightarrow> bool \<times> u8" where
  "sync_advance reg pin =
     (let reg = (push_bit 1 reg OR (if pin then 1 else 0)) AND SYNC_MASK
      in (reg AND push_bit (SYNC_DEPTH - 1) 1 \<noteq> 0, reg))"

definition tick_is_a_no_op :: "arb \<Rightarrow> bool" where
  "tick_is_a_no_op arb \<longleftrightarrow> arb_state arb = ARB_STATE_0 \<and> \<not> arb_br arb \<and> \<not> arb_bgack arb \<and>
     arb_br_sync arb = 0 \<and> arb_bgack_sync arb = 0"

text \<open>The body of a tick, which the code skips in the idle state.\<close>

definition arb_tick_body :: "arb \<Rightarrow> arb" where
  "arb_tick_body arb =
     (let arb = drive_outputs (arb\<lparr>arb_state := next_state arb\<rparr>);
          (r, br_sync) = sync_advance (arb_br_sync arb) (arb_br arb);
          arb = arb\<lparr>arb_br_sync := br_sync, arb_r := r\<rparr>;
          (a, bgack_sync) = sync_advance (arb_bgack_sync arb) (arb_bgack arb)
      in arb\<lparr>arb_bgack_sync := bgack_sync, arb_a := a\<rparr>)"

definition arb_tick :: "arb \<Rightarrow> arb" where
  "arb_tick arb = (if tick_is_a_no_op arb then arb else arb_tick_body arb)"

definition arb_bus_grant :: "arb \<Rightarrow> bool" where
  "arb_bus_grant arb \<longleftrightarrow> arb_bg arb \<and> arb_rmc arb = RMC_NONE"

definition arb_processor_is_master :: "arb \<Rightarrow> bool" where
  "arb_processor_is_master arb \<longleftrightarrow> \<not> arb_three_state arb"

section \<open>The board's arbiter\<close>

definition ARBITER_REQUESTERS :: nat where "ARBITER_REQUESTERS = 8"

definition ARBITER_PROCESSOR :: int where "ARBITER_PROCESSOR = - 1"

record arbiter =
  ar_cpu :: arb
  ar_request :: u8
  ar_selected :: int
  ar_master :: int

definition arbiter_reset :: arbiter where
  "arbiter_reset = \<lparr>ar_cpu = arb_init, ar_request = 0, ar_selected = ARBITER_PROCESSOR,
     ar_master = ARBITER_PROCESSOR\<rparr>"

definition arbiter_request :: "nat \<Rightarrow> bool \<Rightarrow> arbiter \<Rightarrow> arbiter" where
  "arbiter_request drq asserted ar =
     (if drq \<ge> ARBITER_REQUESTERS then ar
      else if asserted then ar\<lparr>ar_request := ar_request ar OR bit_of drq\<rparr>
      else ar\<lparr>ar_request := ar_request ar AND NOT (bit_of drq)\<rparr>)"

definition arbiter_highest_requester :: "arbiter \<Rightarrow> int" where
  "arbiter_highest_requester ar =
     (case find (\<lambda>i. ar_request ar AND bit_of i \<noteq> 0) [0..<ARBITER_REQUESTERS] of
        Some i \<Rightarrow> int i | None \<Rightarrow> ARBITER_PROCESSOR)"

definition arbiter_processor_may_run :: "arbiter \<Rightarrow> bool" where
  "arbiter_processor_may_run ar \<longleftrightarrow>
     arb_processor_is_master (ar_cpu ar) \<and> ar_master ar = ARBITER_PROCESSOR"

definition arbiter_set_processor_rmc :: "bool \<Rightarrow> arbiter \<Rightarrow> arbiter" where
  "arbiter_set_processor_rmc locked ar =
     ar\<lparr>ar_cpu := arb_set_rmc (if locked then RMC_LOCKED else RMC_NONE) (ar_cpu ar)\<rparr>"

definition arbiter_set_processor_rmc_state :: "rmc \<Rightarrow> arbiter \<Rightarrow> arbiter" where
  "arbiter_set_processor_rmc_state rmc ar = ar\<lparr>ar_cpu := arb_set_rmc rmc (ar_cpu ar)\<rparr>"

definition arbiter_tick :: "arbiter \<Rightarrow> arbiter" where
  "arbiter_tick ar =
     (let asking = arbiter_highest_requester ar;
          ar = ar\<lparr>ar_cpu := arb_set_request (asking \<noteq> ARBITER_PROCESSOR) (ar_cpu ar)\<rparr>;
          ar = (if ar_master ar = ARBITER_PROCESSOR
                then if arb_bus_grant (ar_cpu ar) \<and> asking \<noteq> ARBITER_PROCESSOR
                     then ar\<lparr>ar_selected := asking, ar_master := asking,
                             ar_cpu := arb_set_acknowledge True (ar_cpu ar)\<rparr>
                     else ar
                else if ar_request ar AND bit_of (nat (ar_master ar)) = 0
                then ar\<lparr>ar_master := ARBITER_PROCESSOR, ar_selected := ARBITER_PROCESSOR,
                        ar_cpu := arb_set_acknowledge False (ar_cpu ar)\<rparr>
                else ar)
      in ar\<lparr>ar_cpu := arb_tick (ar_cpu ar)\<rparr>)"

section \<open>Everything that can happen to the bus\<close>

inductive bus_step :: "arbiter \<Rightarrow> arbiter \<Rightarrow> bool" where
  Request: "bus_step ar (arbiter_request drq asserted ar)"
| Lock: "bus_step ar (arbiter_set_processor_rmc locked ar)"
| Phase: "bus_step ar (arbiter_set_processor_rmc_state rmc ar)"
| Commit: "bus_step ar (ar\<lparr>ar_cpu := arb_set_cycle_committed committed (ar_cpu ar)\<rparr>)"
| Tick: "bus_step ar (arbiter_tick ar)"

inductive bus_reachable :: "arbiter \<Rightarrow> bool" where
  reset: "bus_reachable arbiter_reset"
| step: "bus_reachable ar \<Longrightarrow> bus_step ar ar' \<Longrightarrow> bus_reachable ar'"

inductive_cases bus_stepE: "bus_step ar ar'"

section \<open>What every reachable state satisfies\<close>

lemma sync_mask [simp]: "SYNC_MASK = 3"
  by (simp add: SYNC_MASK_def SYNC_DEPTH_def)

text \<open>A synchroniser holds two bits; its output is the older one.\<close>

lemma sync_advance_cases:
  "sync_advance 0 pin = (False, if pin then 1 else 0)"
  "sync_advance 1 pin = (True, if pin then 3 else 2)"
  "sync_advance 2 pin = (False, if pin then 1 else 0)"
  "sync_advance 3 pin = (True, if pin then 3 else 2)"
  by (cases pin; simp add: sync_advance_def SYNC_DEPTH_def Let_def; fail)+

definition sync_ok :: "u8 \<Rightarrow> bool \<Rightarrow> bool" where
  "sync_ok reg out \<longleftrightarrow> (reg, out) \<in> {(0, False), (1, False), (2, True), (3, True)}"

lemma sync_okE:
  assumes "sync_ok reg out"
  obtains "reg = 0" "\<not> out" | "reg = 1" "\<not> out" | "reg = 2" "out" | "reg = 3" "out"
  using assms by (auto simp: sync_ok_def)

definition arb_ok :: "arb \<Rightarrow> bool" where
  "arb_ok arb \<longleftrightarrow>
     sync_ok (arb_br_sync arb) (arb_r arb) \<and> sync_ok (arb_bgack_sync arb) (arb_a arb) \<and>
     (arb_bg arb \<longleftrightarrow> arb_state arb \<in> {ARB_STATE_1, ARB_STATE_2}) \<and>
     (arb_three_state arb \<longleftrightarrow> arb_state arb \<noteq> ARB_STATE_0) \<and>
     (arb_state arb = ARB_STATE_0 \<longrightarrow> arb_bgack_sync arb = 0) \<and>
     (arb_bgack_sync arb = 1 \<longrightarrow> arb_state arb \<in> {ARB_STATE_2, ARB_STATE_3}) \<and>
     (arb_bgack arb \<longleftrightarrow> arb_bgack_sync arb \<in> {1, 3})"

definition arbiter_ok :: "arbiter \<Rightarrow> bool" where
  "arbiter_ok ar \<longleftrightarrow> arb_ok (ar_cpu ar) \<and>
     (arb_bgack (ar_cpu ar) \<longleftrightarrow> ar_master ar \<noteq> ARBITER_PROCESSOR) \<and>
     (ar_master ar \<noteq> ARBITER_PROCESSOR \<longrightarrow> 0 \<le> ar_master ar \<and> ar_master ar < 8)"

lemmas arb_simps = next_state_def drive_outputs_def Let_def arb_tick_body_def sync_advance_cases

lemma sync_idle: "sync_ok reg out \<Longrightarrow> reg = 0 \<Longrightarrow> \<not> out"
  by (auto simp: sync_ok_def)

text \<open>Skipping a tick in the idle state is not an approximation.\<close>

lemma arb_tick_body_idle:
  assumes ok: "arb_ok arb" and idle: "tick_is_a_no_op arb"
  shows "arb_tick_body arb = arb"
proof -
  have "\<not> arb_r arb" "\<not> arb_a arb"
    using ok idle by (auto simp: arb_ok_def tick_is_a_no_op_def sync_ok_def)
  then show ?thesis
    using ok idle by (simp add: arb_ok_def tick_is_a_no_op_def arb_simps)
qed

lemma arb_tick_eq: "arb_ok arb \<Longrightarrow> arb_tick arb = arb_tick_body arb"
  by (simp add: arb_tick_def arb_tick_body_idle)

lemma sync_advance_ok:
  assumes "sync_ok reg out" and "sync_advance reg pin = (out', reg')"
  shows "sync_ok reg' out' \<and> (reg' \<in> {1, 3} \<longleftrightarrow> pin) \<and> (reg' = 1 \<longleftrightarrow> pin \<and> reg \<notin> {1, 3}) \<and>
    (reg' = 0 \<longleftrightarrow> \<not> pin \<and> reg \<notin> {1, 3})"
  using assms by (cases rule: sync_okE; cases pin; auto simp: sync_advance_cases sync_ok_def)

text \<open>One clock of the processor's machine with the two pins freshly driven: the acknowledge may
  only rise on a grant.\<close>

lemma arb_ok_tick:
  assumes ok: "arb_ok arb" and grant: "b \<Longrightarrow> \<not> arb_bgack arb \<Longrightarrow> arb_bg arb"
  shows "arb_ok (arb_tick_body (arb\<lparr>arb_br := q, arb_bgack := b\<rparr>))"
proof -
  obtain r br where r: "sync_advance (arb_br_sync arb) q = (r, br)" by fastforce
  have R: "sync_ok br r" using sync_advance_ok [OF _ r] ok unfolding arb_ok_def by blast
  have A: "sync_ok (arb_bgack_sync arb) (arb_a arb)" using ok by (simp add: arb_ok_def)
  from A show ?thesis
    by (cases rule: sync_okE; cases "arb_state arb"; cases b)
      (use ok grant R in \<open>simp_all add: arb_ok_def arb_simps r sync_ok_def\<close>)
qed

text \<open>The encoder's answer: the lowest line asserted.\<close>

lemma highest_requester_Some:
  assumes "arbiter_highest_requester ar \<noteq> ARBITER_PROCESSOR"
  obtains i where "arbiter_highest_requester ar = int i" "i < 8" "bit (ar_request ar) i"
    "\<And>j. j < i \<Longrightarrow> \<not> bit (ar_request ar) j"
proof -
  obtain i where i: "find (bit (ar_request ar)) [0..<8] = Some i"
    using assms by (cases "find (bit (ar_request ar)) [0..<8]")
      (auto simp: arbiter_highest_requester_def ARBITER_REQUESTERS_def)
  moreover have "arbiter_highest_requester ar = int i"
    by (simp add: arbiter_highest_requester_def ARBITER_REQUESTERS_def i)
  ultimately show thesis using that [of i] by (auto simp: find_Some_iff)
qed

lemma highest_requester_cases:
  "arbiter_highest_requester ar \<noteq> ARBITER_PROCESSOR \<Longrightarrow>
     0 \<le> arbiter_highest_requester ar \<and> arbiter_highest_requester ar < 8"
  by (erule highest_requester_Some) simp

lemma highest_requester_iff:
  "arbiter_highest_requester ar = ARBITER_PROCESSOR \<longleftrightarrow> ar_request ar = 0"
proof -
  have "(\<forall>i<8. \<not> bit (ar_request ar) i) \<longleftrightarrow> ar_request ar = 0"
    by (auto simp: bit_eq_iff dest: bit_imp_le_length)
  then show ?thesis
    by (auto simp: arbiter_highest_requester_def ARBITER_REQUESTERS_def find_None_iff find_Some_iff
        ARBITER_PROCESSOR_def split: option.split)
qed

lemma arbiter_ok_reset: "arbiter_ok arbiter_reset"
  by (simp add: arbiter_ok_def arbiter_reset_def arb_ok_def arb_init_def sync_ok_def)

lemma arb_tick_driven:
  assumes ok: "arb_ok arb"
  shows "arb_tick (arb\<lparr>arb_br := q, arb_bgack := b\<rparr>) = arb_tick_body (arb\<lparr>arb_br := q, arb_bgack := b\<rparr>)"
proof (cases "tick_is_a_no_op (arb\<lparr>arb_br := q, arb_bgack := b\<rparr>)")
  case True
  then have "arb_ok (arb\<lparr>arb_br := q, arb_bgack := b\<rparr>)"
    using ok by (simp add: arb_ok_def tick_is_a_no_op_def)
  then show ?thesis by (rule arb_tick_eq)
qed (simp add: arb_tick_def)

lemma arb_tick_body_pins [simp]:
  "arb_bgack (arb_tick_body arb) = arb_bgack arb" "arb_rmc (arb_tick_body arb) = arb_rmc arb"
  "arb_cycle_committed (arb_tick_body arb) = arb_cycle_committed arb"
  by (simp_all add: arb_tick_body_def drive_outputs_def Let_def split: prod.split arb_state.split)

lemma arb_bgack_same:
  "arb_bgack arb = b \<Longrightarrow> arb\<lparr>arb_br := q, arb_bgack := b\<rparr> = arb\<lparr>arb_br := q\<rparr>"
  by simp

lemma arb_ok_setters [simp]:
  "arb_ok (arb\<lparr>arb_rmc := rmc\<rparr>) = arb_ok arb"
  "arb_ok (arb\<lparr>arb_cycle_committed := committed\<rparr>) = arb_ok arb"
  by (simp_all add: arb_ok_def)

text \<open>One clock of the board: the acknowledge pin shows whether a device is master.\<close>

definition master_after :: "arbiter \<Rightarrow> int" where
  "master_after ar =
     (if ar_master ar = ARBITER_PROCESSOR
      then if arb_bus_grant (ar_cpu ar) then arbiter_highest_requester ar else ARBITER_PROCESSOR
      else if bit (ar_request ar) (nat (ar_master ar)) then ar_master ar else ARBITER_PROCESSOR)"

lemma arbiter_tick_eq:
  assumes ok: "arbiter_ok ar"
  shows "ar_master (arbiter_tick ar) = master_after ar"
    and "ar_request (arbiter_tick ar) = ar_request ar"
    and "ar_cpu (arbiter_tick ar) = arb_tick_body ((ar_cpu ar)\<lparr>
           arb_br := arbiter_highest_requester ar \<noteq> ARBITER_PROCESSOR,
           arb_bgack := master_after ar \<noteq> ARBITER_PROCESSOR\<rparr>)"
proof -
  have cpu: "arb_ok (ar_cpu ar)" and pin: "arb_bgack (ar_cpu ar) \<longleftrightarrow> ar_master ar \<noteq> ARBITER_PROCESSOR"
    using ok by (simp_all add: arbiter_ok_def)
  show "ar_master (arbiter_tick ar) = master_after ar"
    by (simp add: arbiter_tick_def master_after_def Let_def arb_bus_grant_def arb_set_request_def)
  show "ar_request (arbiter_tick ar) = ar_request ar"
    by (simp add: arbiter_tick_def Let_def)
  have "ar_cpu (arbiter_tick ar) = arb_tick ((ar_cpu ar)\<lparr>
           arb_br := arbiter_highest_requester ar \<noteq> ARBITER_PROCESSOR,
           arb_bgack := master_after ar \<noteq> ARBITER_PROCESSOR\<rparr>)"
    using pin
    by (cases "ar_master ar = ARBITER_PROCESSOR")
      (simp_all add: arbiter_tick_def master_after_def Let_def arb_bus_grant_def arb_set_request_def
        arb_set_acknowledge_def arb_bgack_same)
  then show "ar_cpu (arbiter_tick ar) = arb_tick_body ((ar_cpu ar)\<lparr>
           arb_br := arbiter_highest_requester ar \<noteq> ARBITER_PROCESSOR,
           arb_bgack := master_after ar \<noteq> ARBITER_PROCESSOR\<rparr>)"
    by (simp add: arb_tick_driven [OF cpu])
qed

lemma arbiter_ok_tick:
  assumes ok: "arbiter_ok ar"
  shows "arbiter_ok (arbiter_tick ar)"
proof -
  have cpu: "arb_ok (ar_cpu ar)" using ok by (simp add: arbiter_ok_def)
  have "arb_ok (ar_cpu (arbiter_tick ar))"
    unfolding arbiter_tick_eq [OF ok]
    by (rule arb_ok_tick [OF cpu])
      (use ok in \<open>auto simp: master_after_def arb_bus_grant_def arbiter_ok_def split: if_splits\<close>)
  moreover have "master_after ar \<noteq> ARBITER_PROCESSOR \<Longrightarrow> 0 \<le> master_after ar \<and> master_after ar < 8"
    using ok highest_requester_cases [of ar] by (auto simp: master_after_def arbiter_ok_def)
  ultimately show ?thesis by (simp add: arbiter_ok_def arbiter_tick_eq [OF ok])
qed

lemma arbiter_ok_other:
  "arbiter_ok ar \<Longrightarrow> arbiter_ok (arbiter_request drq asserted ar)"
  "arbiter_ok ar \<Longrightarrow> arbiter_ok (arbiter_set_processor_rmc locked ar)"
  "arbiter_ok ar \<Longrightarrow> arbiter_ok (arbiter_set_processor_rmc_state rmc ar)"
  "arbiter_ok ar \<Longrightarrow> arbiter_ok (ar\<lparr>ar_cpu := arb_set_cycle_committed committed (ar_cpu ar)\<rparr>)"
  by (simp_all add: arbiter_request_def arbiter_set_processor_rmc_def
      arbiter_set_processor_rmc_state_def arb_set_rmc_def arb_set_cycle_committed_def
      arbiter_ok_def)

lemma arbiter_ok_step: "bus_step ar ar' \<Longrightarrow> arbiter_ok ar \<Longrightarrow> arbiter_ok ar'"
  by (induction rule: bus_step.induct) (rule arbiter_ok_other arbiter_ok_tick, assumption)+

lemma arbiter_ok_reachable: "bus_reachable ar \<Longrightarrow> arbiter_ok ar"
  by (induction rule: bus_reachable.induct) (auto intro: arbiter_ok_reset arbiter_ok_step)

section \<open>Requests are served\<close>

text \<open>How many clocks the processor's machine still needs to reach a granting state once the
  request pin is driven: the synchroniser first, then the path through the diagram.\<close>

definition sync_delay :: "arb \<Rightarrow> nat" where
  "sync_delay arb = (if arb_r arb then 0 else if arb_br_sync arb = 1 then 1 else 2)"

definition grant_delay :: "arb \<Rightarrow> nat" where
  "grant_delay arb =
     (case arb_state arb of
        ARB_STATE_0 \<Rightarrow> 1 + sync_delay arb
      | ARB_STATE_1 \<Rightarrow> 0 | ARB_STATE_2 \<Rightarrow> 0
      | ARB_STATE_3 \<Rightarrow> 3
      | ARB_STATE_4 \<Rightarrow> if \<not> arb_a arb then if arb_br_sync arb \<in> {1, 3} then 2 else 3
                        else if arb_r arb then 1 else 3)"

lemma grant_delay_le: "grant_delay arb \<le> 3"
  by (auto simp: grant_delay_def sync_delay_def split: arb_state.split)

lemma grant_delay_0: "arb_ok arb \<Longrightarrow> grant_delay arb = 0 \<longleftrightarrow> arb_bg arb"
  by (auto simp: grant_delay_def arb_ok_def split: arb_state.splits)

lemma grant_delay_tick:
  assumes ok: "arb_ok arb" and off: "\<not> arb_bgack arb" and may: "may_grant arb"
    and wait: "\<not> arb_bg arb"
  shows "grant_delay (arb_tick_body (arb\<lparr>arb_br := True, arb_bgack := False\<rparr>)) < grant_delay arb"
proof -
  have r: "sync_ok (arb_br_sync arb) (arb_r arb)" and a: "sync_ok (arb_bgack_sync arb) (arb_a arb)"
    using ok by (simp_all add: arb_ok_def)
  have may': "may_grant (arb\<lparr>arb_br := True, arb_bgack := False\<rparr>)"
    using may by (simp add: may_grant_def)
  from r a show ?thesis
    by (elim sync_okE; cases "arb_state arb";
        use ok off wait may' in \<open>simp add: arb_ok_def arb_simps grant_delay_def sync_delay_def\<close>)
qed

section \<open>The bus is given back\<close>

text \<open>With both pins low the machine is a function of its state and the two synchronisers.\<close>

type_synonym arb_view = "arb_state \<times> u8 \<times> u8"

definition arb_view :: "arb \<Rightarrow> arb_view" where
  "arb_view arb = (arb_state arb, arb_br_sync arb, arb_bgack_sync arb)"

fun view_step :: "bool \<Rightarrow> arb_view \<Rightarrow> arb_view" where
  "view_step grant (s, br, bgack) =
     (let r = (br AND 2 \<noteq> 0); a = (bgack AND 2 \<noteq> 0) in
      (case s of
         ARB_STATE_0 \<Rightarrow> if r \<and> grant then ARB_STATE_1 else if a then ARB_STATE_4 else ARB_STATE_0
       | ARB_STATE_1 \<Rightarrow> ARB_STATE_2
       | ARB_STATE_2 \<Rightarrow> if a \<or> \<not> r then ARB_STATE_3 else ARB_STATE_2
       | ARB_STATE_3 \<Rightarrow> ARB_STATE_4
       | ARB_STATE_4 \<Rightarrow> if \<not> a then ARB_STATE_0 else if r \<and> grant then ARB_STATE_1 else ARB_STATE_4,
       snd (sync_advance br False), snd (sync_advance bgack False)))"

lemma view_tick:
  assumes ok: "arb_ok arb"
  shows "arb_view (arb_tick_body (arb\<lparr>arb_br := False, arb_bgack := False\<rparr>)) =
    view_step (may_grant arb) (arb_view arb)"
proof -
  have r: "sync_ok (arb_br_sync arb) (arb_r arb)" and a: "sync_ok (arb_bgack_sync arb) (arb_a arb)"
    using ok by (simp_all add: arb_ok_def)
  have "may_grant (arb\<lparr>arb_br := False, arb_bgack := False\<rparr>) = may_grant arb"
    by (simp add: may_grant_def)
  with r a show ?thesis
    by (elim sync_okE; cases "arb_state arb") (simp_all add: arb_view_def arb_simps)
qed

lemma fst_arb_view: "fst (arb_view arb) = arb_state arb"
  by (simp add: arb_view_def)

lemma may_grant_tick: "may_grant (arb_tick_body (arb\<lparr>arb_br := q, arb_bgack := b\<rparr>)) = may_grant arb"
  by (simp add: may_grant_def)

definition all_views :: "arb_view list" where
  "all_views = List.product [ARB_STATE_0, ARB_STATE_1, ARB_STATE_2, ARB_STATE_3, ARB_STATE_4]
     (List.product [0, 1, 2, 3] [0, 1, 2, 3])"

lemma view_in_all: "arb_ok arb \<Longrightarrow> arb_view arb \<in> set all_views"
  by (cases "arb_state arb") (auto simp: arb_ok_def sync_ok_def all_views_def arb_view_def)

fun settles :: "bool \<Rightarrow> nat \<Rightarrow> arb_view \<Rightarrow> bool" where
  "settles grant 0 v \<longleftrightarrow> fst v = ARB_STATE_0"
| "settles grant (Suc n) v \<longleftrightarrow> fst v = ARB_STATE_0 \<or> settles grant n (view_step grant v)"

lemma views_settle: "\<forall>v \<in> set all_views. settles grant 6 v"
proof (cases grant)
  case True
  have "list_all (settles True 6) all_views" by code_simp
  with True show ?thesis by (simp add: list_all_iff)
next
  case False
  have "list_all (settles False 6) all_views" by code_simp
  with False show ?thesis by (simp add: list_all_iff)
qed

section \<open>Properties\<close>

text \<open>C11: a device that holds the bus holds it alone: whatever order of requests, locks and clocks
  led to the state, the processor has put its side of the bus into high impedance while a device is
  master, and the master is one of the eight request lines.\<close>

theorem device_holds_bus_alone:
  assumes "bus_reachable ar" and "ar_master ar \<noteq> ARBITER_PROCESSOR"
  shows "\<not> arb_processor_is_master (ar_cpu ar) \<and> ar_master ar \<in> {0..7}"
  using arbiter_ok_reachable [OF assms(1)] assms(2)
  by (auto simp: arbiter_ok_def arb_ok_def arb_processor_is_master_def sync_ok_def)

text \<open>The bus changes hands to a device in one clock only if that device is the highest-priority
  one asking, the processor is not in a read-modify-write, and it had let go of the bus before.\<close>

theorem handover_only_from_released_processor:
  assumes "bus_reachable ar" and "ar_master ar = ARBITER_PROCESSOR"
    and "ar_master (arbiter_tick ar) = d" and "d \<noteq> ARBITER_PROCESSOR"
  shows "bit (ar_request ar) (nat d) \<and> (\<forall>i. int i < d \<longrightarrow> \<not> bit (ar_request ar) i) \<and>
    arb_rmc (ar_cpu ar) = RMC_NONE \<and> \<not> arb_processor_is_master (ar_cpu ar)"
proof -
  have ok: "arbiter_ok ar" by (rule arbiter_ok_reachable) fact
  have d: "d = arbiter_highest_requester ar" and grant: "arb_bus_grant (ar_cpu ar)"
    using assms(2-4) by (auto simp: arbiter_tick_eq [OF ok] master_after_def split: if_splits)
  have "arb_rmc (ar_cpu ar) = RMC_NONE" "\<not> arb_processor_is_master (ar_cpu ar)"
    using grant ok
    by (auto simp: arb_bus_grant_def arbiter_ok_def arb_ok_def arb_processor_is_master_def)
  moreover from assms(4) d obtain i where "d = int i" "bit (ar_request ar) i"
      "\<And>j. j < i \<Longrightarrow> \<not> bit (ar_request ar) j"
    by (metis highest_requester_Some)
  ultimately show ?thesis by auto
qed

lemma rmc_tick [simp]:
  assumes ok: "arbiter_ok ar"
  shows "arb_rmc (ar_cpu (arbiter_tick ar)) = arb_rmc (ar_cpu ar)"
    and "arb_cycle_committed (ar_cpu (arbiter_tick ar)) = arb_cycle_committed (ar_cpu ar)"
  by (simp_all add: arbiter_tick_eq [OF ok])

lemma highest_requester_tick [simp]:
  "arbiter_ok ar \<Longrightarrow> arbiter_highest_requester (arbiter_tick ar) = arbiter_highest_requester ar"
  by (simp add: arbiter_highest_requester_def arbiter_tick_eq)

lemma served_from_ok:
  assumes "arbiter_ok ar" and "ar_request ar \<noteq> 0"
    and "arb_rmc (ar_cpu ar) = RMC_NONE" and "\<not> arb_cycle_committed (ar_cpu ar)"
  shows "\<exists>n \<le> Suc (grant_delay (ar_cpu ar)). ar_master ((arbiter_tick ^^ n) ar) \<noteq> ARBITER_PROCESSOR"
  using assms
proof (induction "grant_delay (ar_cpu ar)" arbitrary: ar rule: less_induct)
  case less
  note ok = less.prems(1)
  have cpu: "arb_ok (ar_cpu ar)" and pin: "arb_bgack (ar_cpu ar) \<longleftrightarrow> ar_master ar \<noteq> ARBITER_PROCESSOR"
    using ok by (simp_all add: arbiter_ok_def)
  have ask: "arbiter_highest_requester ar \<noteq> ARBITER_PROCESSOR"
    using less.prems(2) by (simp add: highest_requester_iff)
  show ?case
  proof (cases "ar_master ar = ARBITER_PROCESSOR")
    case False
    then show ?thesis by (intro exI [of _ 0]) simp
  next
    case True
    show ?thesis
    proof (cases "arb_bg (ar_cpu ar)")
      case True
      then have "ar_master ((arbiter_tick ^^ 1) ar) \<noteq> ARBITER_PROCESSOR"
        using ok ask less.prems(3) \<open>ar_master ar = ARBITER_PROCESSOR\<close>
        by (simp add: arbiter_tick_eq master_after_def arb_bus_grant_def)
      then show ?thesis by (intro exI [of _ 1]) simp
    next
      case False
      have next_cpu: "ar_cpu (arbiter_tick ar) =
          arb_tick_body ((ar_cpu ar)\<lparr>arb_br := True, arb_bgack := False\<rparr>)"
        using ok ask False True by (simp add: arbiter_tick_eq master_after_def arb_bus_grant_def)
      have step: "grant_delay (ar_cpu (arbiter_tick ar)) < grant_delay (ar_cpu ar)"
        unfolding next_cpu
        by (rule grant_delay_tick [OF cpu _ _ False])
          (use pin True less.prems in \<open>simp_all add: may_grant_def\<close>)
      from less.hyps [OF step] less.prems obtain n
        where n: "n \<le> Suc (grant_delay (ar_cpu (arbiter_tick ar)))"
          "ar_master ((arbiter_tick ^^ n) (arbiter_tick ar)) \<noteq> ARBITER_PROCESSOR"
        using arbiter_ok_tick [OF ok] by (auto simp: arbiter_tick_eq(2) [OF ok] rmc_tick [OF ok])
      then show ?thesis using step by (intro exI [of _ "Suc n"]) (simp add: funpow_swap1)
    qed
  qed
qed

text \<open>Anything that happens to the bus while RMC is locked and stays so.\<close>

definition locked_step :: "arbiter \<Rightarrow> arbiter \<Rightarrow> bool" where
  "locked_step ar ar' \<longleftrightarrow> bus_step ar ar' \<and> arb_rmc (ar_cpu ar') = RMC_LOCKED"

lemma locked_tick:
  assumes ok: "arbiter_ok ar" and run: "arbiter_processor_may_run ar"
    and lock: "arb_rmc (ar_cpu ar) = RMC_LOCKED"
  shows "arbiter_processor_may_run (arbiter_tick ar)"
proof -
  have "arb_state (ar_cpu ar) = ARB_STATE_0" "\<not> arb_a (ar_cpu ar)" "ar_master ar = ARBITER_PROCESSOR"
    using ok run
    by (auto simp: arbiter_processor_may_run_def arb_processor_is_master_def arbiter_ok_def arb_ok_def
        sync_ok_def)
  then show ?thesis
    using lock
    by (simp add: arbiter_processor_may_run_def arb_processor_is_master_def arbiter_tick_eq [OF ok]
        master_after_def arb_bus_grant_def arb_tick_body_def next_state_def may_grant_def
        drive_outputs_def split: prod.split)
qed

lemma may_run_setters [simp]:
  "arbiter_processor_may_run (arbiter_request drq asserted ar) = arbiter_processor_may_run ar"
  "arbiter_processor_may_run (arbiter_set_processor_rmc locked ar) = arbiter_processor_may_run ar"
  "arbiter_processor_may_run (arbiter_set_processor_rmc_state rmc ar) = arbiter_processor_may_run ar"
  "arbiter_processor_may_run (ar\<lparr>ar_cpu := arb_set_cycle_committed c (ar_cpu ar)\<rparr>) =
     arbiter_processor_may_run ar"
  by (simp_all add: arbiter_processor_may_run_def arb_processor_is_master_def arbiter_request_def
      arbiter_set_processor_rmc_def arbiter_set_processor_rmc_state_def arb_set_rmc_def
      arb_set_cycle_committed_def)

lemma locked_step_runs:
  assumes "locked_step ar ar'" and "arbiter_ok ar" and "arbiter_processor_may_run ar"
    and "arb_rmc (ar_cpu ar) = RMC_LOCKED"
  shows "arbiter_processor_may_run ar'"
  using assms(1)[unfolded locked_step_def, THEN conjunct1] assms(2-4)
  by (induction rule: bus_step.induct) (simp_all add: locked_tick)

text \<open>C23: a locked read-modify-write is indivisible: as long as RMC stays locked, no sequence of requests,
  commitments and clocks takes the bus from the processor that runs.\<close>

theorem locked_sequence_is_indivisible:
  assumes "bus_reachable ar" and "arbiter_processor_may_run ar"
    and "arb_rmc (ar_cpu ar) = RMC_LOCKED" and "locked_step\<^sup>*\<^sup>* ar ar'"
  shows "arbiter_processor_may_run ar'"
proof -
  have "arbiter_ok ar' \<and> arb_rmc (ar_cpu ar') = RMC_LOCKED \<and> arbiter_processor_may_run ar'"
    using assms(4)
  proof (induction rule: rtranclp_induct)
    case base
    then show ?case using assms arbiter_ok_reachable by simp
  next
    case (step y z)
    then show ?case
      using arbiter_ok_step locked_step_runs by (auto simp: locked_step_def)
  qed
  then show ?thesis by simp
qed

text \<open>C12: a standing request is served: outside a read-modify-write some device holds the bus after at
  most four clocks.\<close>

theorem standing_request_is_served:
  assumes "bus_reachable ar" and "ar_request ar \<noteq> 0"
    and "arb_rmc (ar_cpu ar) = RMC_NONE" and "\<not> arb_cycle_committed (ar_cpu ar)"
  shows "\<exists>n\<le>4. ar_master ((arbiter_tick ^^ n) ar) \<noteq> ARBITER_PROCESSOR"
proof -
  obtain n where "n \<le> Suc (grant_delay (ar_cpu ar))"
    "ar_master ((arbiter_tick ^^ n) ar) \<noteq> ARBITER_PROCESSOR"
    using served_from_ok [OF arbiter_ok_reachable [OF assms(1)] assms(2-)] by blast
  then show ?thesis using grant_delay_le [of "ar_cpu ar"] by (intro exI [of _ n]) auto
qed

lemma given_back_from_ok:
  assumes "arbiter_ok ar" and "ar_request ar = 0"
    and "ar_master ar = ARBITER_PROCESSOR"
    and "settles (may_grant (ar_cpu ar)) n (arb_view (ar_cpu ar))"
  shows "\<exists>k\<le>n. arbiter_processor_may_run ((arbiter_tick ^^ k) ar)"
  using assms
proof (induction n arbitrary: ar)
  case (Suc n)
  note ok = Suc.prems(1)
  have cpu: "arb_ok (ar_cpu ar)" using ok by (simp add: arbiter_ok_def)
  have none: "arbiter_highest_requester ar = ARBITER_PROCESSOR"
    using Suc.prems(2) by (simp add: highest_requester_iff)
  have after: "ar_cpu (arbiter_tick ar) = arb_tick_body ((ar_cpu ar)\<lparr>arb_br := False, arb_bgack := False\<rparr>)"
      "ar_master (arbiter_tick ar) = ARBITER_PROCESSOR" "ar_request (arbiter_tick ar) = 0"
    using Suc.prems none by (simp_all add: arbiter_tick_eq master_after_def)
  show ?case
  proof (cases "arb_state (ar_cpu ar) = ARB_STATE_0")
    case True
    then have "arbiter_processor_may_run ((arbiter_tick ^^ 0) ar)"
      using ok Suc.prems(3)
      by (simp add: arbiter_processor_may_run_def arb_processor_is_master_def arbiter_ok_def arb_ok_def)
    then show ?thesis by blast
  next
    case False
    then have "settles (may_grant (ar_cpu (arbiter_tick ar))) n (arb_view (ar_cpu (arbiter_tick ar)))"
      using Suc.prems(4) by (simp add: after view_tick [OF cpu] may_grant_tick fst_arb_view)
    from Suc.IH [OF arbiter_ok_tick [OF ok] after(3,2) this]
    obtain k where "k \<le> n" "arbiter_processor_may_run ((arbiter_tick ^^ k) (arbiter_tick ar))" by blast
    then show ?thesis by (intro exI [of _ "Suc k"]) (simp add: funpow_swap1)
  qed
qed (auto simp: arbiter_processor_may_run_def arb_processor_is_master_def arbiter_ok_def arb_ok_def
    arb_view_def)

text \<open>C29: once no device asks, the processor has the bus back after at most seven clocks: one to notice
  that the master has finished, six for the acknowledge and the request to drain through the
  processor's synchronisers.\<close>

theorem bus_is_given_back:
  assumes "bus_reachable ar" and "ar_request ar = 0"
  shows "\<exists>n\<le>7. arbiter_processor_may_run ((arbiter_tick ^^ n) ar)"
proof -
  have ok: "arbiter_ok ar" by (rule arbiter_ok_reachable) fact
  let ?ar = "arbiter_tick ar"
  have ok': "arbiter_ok ?ar" by (rule arbiter_ok_tick) fact
  have "ar_master ?ar = ARBITER_PROCESSOR" "ar_request ?ar = 0"
    using assms(2) highest_requester_iff [of ar] by (simp_all add: arbiter_tick_eq [OF ok] master_after_def)
  moreover have "settles (may_grant (ar_cpu ?ar)) 6 (arb_view (ar_cpu ?ar))"
    using views_settle view_in_all ok' by (auto simp: arbiter_ok_def)
  ultimately obtain k where "k \<le> 6" "arbiter_processor_may_run ((arbiter_tick ^^ k) ?ar)"
    using given_back_from_ok [OF ok'] by blast
  then show ?thesis by (intro exI [of _ "Suc k"]) (simp add: funpow_swap1)
qed

text \<open>Witnesses: a device that asked from reset, three clocks on, and the runs around it.\<close>

definition one_request :: arbiter where "one_request = arbiter_request 3 True arbiter_reset"

lemma reachable_ticks: "bus_reachable ar \<Longrightarrow> bus_reachable ((arbiter_tick ^^ n) ar)"
  by (induction n) (auto intro: bus_reachable.step bus_step.Tick)

lemma reachable_one_request: "bus_reachable ((arbiter_tick ^^ n) one_request)"
  unfolding one_request_def
  by (intro reachable_ticks bus_reachable.step [OF bus_reachable.reset] bus_step.Request)

definition one_request_after :: "arb_state \<Rightarrow> u8 \<Rightarrow> u8 \<Rightarrow> bool \<Rightarrow> bool \<Rightarrow> int \<Rightarrow> arbiter" where
  "one_request_after s br_sync bgack_sync r bg m =
     \<lparr>ar_cpu = \<lparr>arb_state = s, arb_br = True, arb_bgack = (m \<noteq> - 1), arb_br_sync = br_sync,
        arb_bgack_sync = bgack_sync, arb_r = r, arb_a = False, arb_bg = bg, arb_three_state = bg,
        arb_rmc = RMC_NONE, arb_cycle_committed = False\<rparr>,
      ar_request = 8, ar_selected = m, ar_master = m\<rparr>"

lemma one_request_ticks:
  "arbiter_tick one_request = one_request_after ARB_STATE_0 1 0 False False (- 1)"
  "arbiter_tick (one_request_after ARB_STATE_0 1 0 False False (- 1)) =
     one_request_after ARB_STATE_0 3 0 True False (- 1)"
  "arbiter_tick (one_request_after ARB_STATE_0 3 0 True False (- 1)) =
     one_request_after ARB_STATE_1 3 0 True True (- 1)"
  "arbiter_tick (one_request_after ARB_STATE_1 3 0 True True (- 1)) =
     one_request_after ARB_STATE_2 3 1 True True 3"
  by code_simp+

lemma one_request_runs:
  "(arbiter_tick ^^ 2) one_request = one_request_after ARB_STATE_0 3 0 True False (- 1)"
  "(arbiter_tick ^^ 3) one_request = one_request_after ARB_STATE_1 3 0 True True (- 1)"
  "(arbiter_tick ^^ 4) one_request = one_request_after ARB_STATE_2 3 1 True True 3"
  by (simp_all add: numeral_eq_Suc one_request_ticks)

theorem device_holds_bus_alone_witness:
  "\<not> arb_processor_is_master (ar_cpu ((arbiter_tick ^^ 4) one_request)) \<and>
     ar_master ((arbiter_tick ^^ 4) one_request) \<in> {0..7}"
  by (rule device_holds_bus_alone [OF reachable_one_request])
    (simp add: one_request_runs one_request_after_def ARBITER_PROCESSOR_def)

theorem handover_only_from_released_processor_witness:
  "bit (ar_request ((arbiter_tick ^^ 3) one_request)) (nat 3) \<and>
     arb_rmc (ar_cpu ((arbiter_tick ^^ 3) one_request)) = RMC_NONE \<and>
     \<not> arb_processor_is_master (ar_cpu ((arbiter_tick ^^ 3) one_request))"
proof -
  have "ar_master ((arbiter_tick ^^ 3) one_request) = ARBITER_PROCESSOR"
    by (simp add: one_request_runs one_request_after_def ARBITER_PROCESSOR_def)
  moreover have "arbiter_tick ((arbiter_tick ^^ 3) one_request) = (arbiter_tick ^^ 4) one_request"
    by (simp add: numeral_eq_Suc)
  then have "ar_master (arbiter_tick ((arbiter_tick ^^ 3) one_request)) = 3"
    by (simp add: one_request_runs one_request_after_def)
  moreover have "3 \<noteq> ARBITER_PROCESSOR" by (simp add: ARBITER_PROCESSOR_def)
  ultimately show ?thesis
    using handover_only_from_released_processor [OF reachable_one_request, of 3 3] by blast
qed

theorem locked_sequence_is_indivisible_witness:
  "arbiter_processor_may_run (arbiter_tick (arbiter_request 0 True (arbiter_set_processor_rmc True arbiter_reset)))"
proof (rule locked_sequence_is_indivisible [of "arbiter_set_processor_rmc True arbiter_reset"])
  show "bus_reachable (arbiter_set_processor_rmc True arbiter_reset)"
    by (intro bus_reachable.step [OF bus_reachable.reset] bus_step.Lock)
  show "arbiter_processor_may_run (arbiter_set_processor_rmc True arbiter_reset)" by code_simp
  show "arb_rmc (ar_cpu (arbiter_set_processor_rmc True arbiter_reset)) = RMC_LOCKED" by code_simp
  let ?a = "arbiter_set_processor_rmc True arbiter_reset" and ?b = "arbiter_request 0 True (arbiter_set_processor_rmc True arbiter_reset)"
  have "locked_step ?a ?b"
    unfolding locked_step_def by (rule conjI, rule bus_step.Request) code_simp
  moreover have "locked_step ?b (arbiter_tick ?b)"
    unfolding locked_step_def by (rule conjI, rule bus_step.Tick) code_simp
  ultimately show "locked_step\<^sup>*\<^sup>* ?a (arbiter_tick ?b)" by simp
qed

theorem standing_request_is_served_witness:
  "\<exists>n\<le>4. ar_master ((arbiter_tick ^^ n) ((arbiter_tick ^^ 2) one_request)) \<noteq> ARBITER_PROCESSOR"
  by (rule standing_request_is_served [OF reachable_one_request])
    (simp_all add: one_request_runs one_request_after_def)

theorem bus_is_given_back_witness:
  "\<exists>n\<le>7. arbiter_processor_may_run ((arbiter_tick ^^ n) (arbiter_request 3 False ((arbiter_tick ^^ 4) one_request)))"
proof (rule bus_is_given_back)
  show "bus_reachable (arbiter_request 3 False ((arbiter_tick ^^ 4) one_request))"
    by (rule bus_reachable.step [OF reachable_one_request bus_step.Request])
  show "ar_request (arbiter_request 3 False ((arbiter_tick ^^ 4) one_request)) = 0"
    unfolding one_request_runs by code_simp
qed

end
