(* ===== verification/Dev_I8237.thy ===== *)
theory Dev_I8237
  imports Apollo_Prelude
begin

unbundle bit_operations_syntax

text \<open>
  \<^verbatim>\<open>src/core/device/ap_i8237.{h,c}\<close>: the 8237A DMA controller. The members of \<open>ap_i8237_t\<close>
  keep their names behind \<open>dma_\<close>, those of a channel behind \<open>ch_\<close>; the four channels are a list.
  The callbacks of \<open>ap_i8237_bus_t\<close> are functions on the caller's context, \<open>None\<close> where the code
  tests for a null pointer; \<open>None\<close> is also the \<open>-1\<close> of \<open>service_pending\<close>.

  The lemmas show that a channel serves one more transfer than its count says, at consecutive
  addresses, and then disarms itself, that a memory-to-memory service moves a block through the
  temporary register, and that an address or a count written in two bytes reads back.
\<close>

definition I8237_CHANNELS :: nat where "I8237_CHANNELS = 4"

abbreviation (input) CMD_MEM_TO_MEM :: u8 where "CMD_MEM_TO_MEM \<equiv> 0x01"
abbreviation (input) CMD_CH0_ADDRESS_HOLD :: u8 where "CMD_CH0_ADDRESS_HOLD \<equiv> 0x02"
abbreviation (input) CMD_CONTROLLER_DISABLE :: u8 where "CMD_CONTROLLER_DISABLE \<equiv> 0x04"
abbreviation (input) CMD_DREQ_ACTIVE_LOW :: u8 where "CMD_DREQ_ACTIVE_LOW \<equiv> 0x40"
abbreviation (input) CMD_DACK_ACTIVE_HIGH :: u8 where "CMD_DACK_ACTIVE_HIGH \<equiv> 0x80"
abbreviation (input) MODE_TRANSFER :: u8 where "MODE_TRANSFER \<equiv> 0x0C"
abbreviation (input) MODE_AUTOINIT :: u8 where "MODE_AUTOINIT \<equiv> 0x10"
abbreviation (input) MODE_DECREMENT :: u8 where "MODE_DECREMENT \<equiv> 0x20"
abbreviation (input) MODE_SELECT :: u8 where "MODE_SELECT \<equiv> 0xC0"

datatype dma_transfer = TRANSFER_VERIFY | TRANSFER_WRITE | TRANSFER_READ | TRANSFER_ILLEGAL

datatype dma_mode = MODE_DEMAND | MODE_SINGLE | MODE_BLOCK | MODE_CASCADE

record dma_channel =
  ch_base_address :: u16
  ch_base_count :: u16
  ch_current_address :: u16
  ch_current_count :: u16
  ch_mode :: u8

record i8237 =
  dma_channel :: "dma_channel list"
  dma_command :: u8
  dma_status :: u8
  dma_request :: u8
  dma_mask :: u8
  dma_temporary :: u8
  dma_high_byte :: bool
  dma_dreq :: u8

definition i8237_reset :: i8237 where
  "i8237_reset = \<lparr>dma_channel = replicate I8237_CHANNELS
       \<lparr>ch_base_address = 0, ch_base_count = 0, ch_current_address = 0, ch_current_count = 0, ch_mode = 0\<rparr>,
     dma_command = 0, dma_status = 0, dma_request = 0, dma_mask = 0x0F, dma_temporary = 0,
     dma_high_byte = False, dma_dreq = 0\<rparr>"

definition upd_channel :: "nat \<Rightarrow> (dma_channel \<Rightarrow> dma_channel) \<Rightarrow> i8237 \<Rightarrow> i8237" where
  "upd_channel c f dma = dma\<lparr>dma_channel := (dma_channel dma)[c := f (dma_channel dma ! c)]\<rparr>"

definition mode_select :: "dma_channel \<Rightarrow> dma_mode" where
  "mode_select ch = [MODE_DEMAND, MODE_SINGLE, MODE_BLOCK, MODE_CASCADE] !
     unat (drop_bit 6 (ch_mode ch AND MODE_SELECT))"

definition i8237_mode_of :: "nat \<Rightarrow> i8237 \<Rightarrow> dma_mode" where
  "i8237_mode_of channel dma = mode_select (dma_channel dma ! channel)"

definition i8237_transfer_of :: "nat \<Rightarrow> i8237 \<Rightarrow> dma_transfer" where
  "i8237_transfer_of channel dma =
     [TRANSFER_VERIFY, TRANSFER_WRITE, TRANSFER_READ, TRANSFER_ILLEGAL] !
       unat (drop_bit 2 (ch_mode (dma_channel dma ! channel) AND MODE_TRANSFER))"

text \<open>The software requests that count: only those of a channel in block mode.\<close>

definition software_requests :: "i8237 \<Rightarrow> u8" where
  "software_requests dma = fold (\<lambda>channel software.
     if dma_request dma AND bit_of channel = 0 then software
     else if i8237_mode_of channel dma = MODE_BLOCK then software OR bit_of channel
     else software) [0..<I8237_CHANNELS] 0"

definition asking_channels :: "i8237 \<Rightarrow> u8" where
  "asking_channels dma =
     ((dma_dreq dma AND NOT (dma_mask dma)) OR software_requests dma) AND 0x0F"

definition i8237_service_pending :: "i8237 \<Rightarrow> nat option" where
  "i8237_service_pending dma =
     (if dma_command dma AND CMD_CONTROLLER_DISABLE \<noteq> 0 then None
      else
        let asking = asking_channels dma in
        if asking = 0 then None
        else find (\<lambda>i. asking AND bit_of i \<noteq> 0) [0..<I8237_CHANNELS])"

definition i8237_dreq_level :: "nat \<Rightarrow> i8237 \<Rightarrow> bool" where
  "i8237_dreq_level channel dma =
     (if channel \<ge> I8237_CHANNELS then False
      else
        let requesting = (dma_dreq dma AND bit_of channel \<noteq> 0) in
        if dma_command dma AND CMD_DREQ_ACTIVE_LOW \<noteq> 0 then \<not> requesting else requesting)"

definition i8237_dack_level :: "nat \<Rightarrow> i8237 \<Rightarrow> bool" where
  "i8237_dack_level channel dma =
     (if channel \<ge> I8237_CHANNELS then False
      else
        let acknowledging = (i8237_service_pending dma = Some channel) in
        if dma_command dma AND CMD_DACK_ACTIVE_HIGH \<noteq> 0 then acknowledging else \<not> acknowledging)"

definition i8237_set_request_pin :: "nat \<Rightarrow> bool \<Rightarrow> i8237 \<Rightarrow> i8237" where
  "i8237_set_request_pin channel asserted dma =
     (if channel \<ge> I8237_CHANNELS then dma
      else if asserted then dma\<lparr>dma_dreq := dma_dreq dma OR bit_of channel\<rparr>
      else dma\<lparr>dma_dreq := dma_dreq dma AND NOT (bit_of channel)\<rparr>)"

section \<open>Terminal count and transfers\<close>

definition i8237_terminal_count :: "nat \<Rightarrow> i8237 \<Rightarrow> i8237" where
  "i8237_terminal_count channel dma =
     (if channel \<ge> I8237_CHANNELS then dma
      else
        let dma = dma\<lparr>dma_status := dma_status dma OR bit_of channel\<rparr>;
            dma = dma\<lparr>dma_request := dma_request dma AND NOT (bit_of channel)\<rparr>;
            dma = (if ch_mode (dma_channel dma ! channel) AND MODE_AUTOINIT \<noteq> 0
                   then upd_channel channel (\<lambda>ch. ch\<lparr>ch_current_address := ch_base_address ch,
                                                      ch_current_count := ch_base_count ch\<rparr>) dma
                   else dma\<lparr>dma_mask := dma_mask dma OR bit_of channel\<rparr>)
        in dma\<lparr>dma_request := dma_request dma AND NOT (bit_of channel)\<rparr>)"

record 'c i8237_bus =
  memory_read :: "(u16 \<Rightarrow> 'c \<Rightarrow> u8 \<times> 'c) option"
  memory_write :: "(u16 \<Rightarrow> u8 \<Rightarrow> 'c \<Rightarrow> 'c) option"
  device_read :: "(nat \<Rightarrow> 'c \<Rightarrow> u8 \<times> 'c) option"
  device_write :: "(nat \<Rightarrow> u8 \<Rightarrow> 'c \<Rightarrow> 'c) option"

record i8237_cycle =
  cyc_ran :: bool
  cyc_channel :: nat
  cyc_address :: u16
  cyc_wrote_memory :: bool
  cyc_terminal_count :: bool

definition no_cycle :: i8237_cycle where
  "no_cycle = \<lparr>cyc_ran = False, cyc_channel = 0, cyc_address = 0, cyc_wrote_memory = False,
     cyc_terminal_count = False\<rparr>"

definition next_address :: "dma_channel \<Rightarrow> u16 \<Rightarrow> u16" where
  "next_address ch a = (if ch_mode ch AND MODE_DECREMENT \<noteq> 0 then a - 1 else a + 1)"

definition memory_to_memory :: "'c i8237_bus \<Rightarrow> i8237 \<Rightarrow> 'c \<Rightarrow> i8237_cycle \<times> i8237 \<times> 'c" where
  "memory_to_memory bus dma c =
     (if dma_command dma AND CMD_CONTROLLER_DISABLE \<noteq> 0 then (no_cycle, dma, c)
      else if asking_channels dma AND 0x01 = 0 then (no_cycle, dma, c)
      else
        let from_address = ch_current_address (dma_channel dma ! 0);
            to_address = ch_current_address (dma_channel dma ! 1);
            (dma, c) = (case memory_read bus of None \<Rightarrow> (dma, c)
                        | Some f \<Rightarrow> let (v, c) = f from_address c in (dma\<lparr>dma_temporary := v\<rparr>, c));
            c = (case memory_write bus of None \<Rightarrow> c | Some f \<Rightarrow> f to_address (dma_temporary dma) c);
            dma = (if dma_command dma AND CMD_CH0_ADDRESS_HOLD = 0
                   then upd_channel 0 (\<lambda>ch. ch\<lparr>ch_current_address := next_address ch from_address\<rparr>) dma
                   else dma);
            dma = upd_channel 1 (\<lambda>ch. ch\<lparr>ch_current_address := next_address ch to_address\<rparr>) dma;
            expired = (ch_current_count (dma_channel dma ! 1) = 0);
            dma = upd_channel 1 (\<lambda>ch. ch\<lparr>ch_current_count := ch_current_count ch - 1\<rparr>) dma;
            dma = (if expired
                   then let dma = i8237_terminal_count 1 dma
                        in dma\<lparr>dma_request := dma_request dma AND NOT 0x01\<rparr>
                   else dma)
        in (\<lparr>cyc_ran = True, cyc_channel = 1, cyc_address = to_address, cyc_wrote_memory = True,
              cyc_terminal_count = expired\<rparr>, dma, c))"

text \<open>The byte of an ordinary transfer, in the direction the mode names.\<close>

definition move_byte :: "'c i8237_bus \<Rightarrow> dma_transfer \<Rightarrow> nat \<Rightarrow> u16 \<Rightarrow> 'c \<Rightarrow> 'c" where
  "move_byte bus direction channel address c =
     (case direction of
        TRANSFER_WRITE \<Rightarrow>
          (case (device_read bus, memory_write bus) of
             (Some f, Some g) \<Rightarrow> let (v, c) = f channel c in g address v c
           | _ \<Rightarrow> c)
      | TRANSFER_READ \<Rightarrow>
          (case (memory_read bus, device_write bus) of
             (Some f, Some g) \<Rightarrow> let (v, c) = f address c in g channel v c
           | _ \<Rightarrow> c)
      | TRANSFER_VERIFY \<Rightarrow> c
      | TRANSFER_ILLEGAL \<Rightarrow> c)"

definition i8237_transfer :: "'c i8237_bus \<Rightarrow> i8237 \<Rightarrow> 'c \<Rightarrow> i8237_cycle \<times> i8237 \<times> 'c" where
  "i8237_transfer bus dma c =
     (if dma_command dma AND CMD_MEM_TO_MEM \<noteq> 0 then memory_to_memory bus dma c
      else
        case i8237_service_pending dma of
          None \<Rightarrow> (no_cycle, dma, c)
        | Some channel \<Rightarrow>
            if i8237_mode_of channel dma = MODE_CASCADE then (no_cycle, dma, c)
            else
              let direction = i8237_transfer_of channel dma in
              if direction = TRANSFER_ILLEGAL then (no_cycle, dma, c)
              else
                let address = ch_current_address (dma_channel dma ! channel);
                    c = move_byte bus direction channel address c;
                    dma = upd_channel channel
                            (\<lambda>ch. ch\<lparr>ch_current_address := next_address ch (ch_current_address ch)\<rparr>) dma;
                    expired = (ch_current_count (dma_channel dma ! channel) = 0);
                    dma = upd_channel channel
                            (\<lambda>ch. ch\<lparr>ch_current_count := ch_current_count ch - 1\<rparr>) dma;
                    dma = (if expired then i8237_terminal_count channel dma else dma)
                in (\<lparr>cyc_ran = True, cyc_channel = channel, cyc_address = address,
                      cyc_wrote_memory = (direction = TRANSFER_WRITE),
                      cyc_terminal_count = expired\<rparr>, dma, c))"

section \<open>The registers\<close>

definition register_byte :: "bool \<Rightarrow> u16 \<Rightarrow> u8" where
  "register_byte high value = (if high then ucast (drop_bit 8 value) else ucast (value AND 0xFF))"

definition i8237_read :: "nat \<Rightarrow> i8237 \<Rightarrow> u8 \<times> i8237" where
  "i8237_read address dma =
     (let reg = address mod 16 in
      if reg < 8
      then
        let ch = dma_channel dma ! (reg div 2);
            value = (if odd reg then ch_current_count ch else ch_current_address ch)
        in (register_byte (dma_high_byte dma) value, dma\<lparr>dma_high_byte := \<not> dma_high_byte dma\<rparr>)
      else if reg = 8
      then ((dma_status dma AND 0x0F) OR push_bit 4 (asking_channels dma), dma\<lparr>dma_status := 0\<rparr>)
      else if reg = 13 then (dma_temporary dma, dma)
      else (0, dma))"

definition merge_byte :: "bool \<Rightarrow> u16 \<Rightarrow> u8 \<Rightarrow> u16" where
  "merge_byte high base value =
     (if high then (base AND 0x00FF) OR push_bit 8 (ucast value) else (base AND 0xFF00) OR ucast value)"

definition i8237_write :: "nat \<Rightarrow> u8 \<Rightarrow> i8237 \<Rightarrow> i8237" where
  "i8237_write address value dma =
     (let reg = address mod 16 in
      if reg < 8
      then
        let dma = upd_channel (reg div 2) (\<lambda>ch.
               if odd reg
               then let base = merge_byte (dma_high_byte dma) (ch_base_count ch) value
                    in ch\<lparr>ch_base_count := base, ch_current_count := base\<rparr>
               else let base = merge_byte (dma_high_byte dma) (ch_base_address ch) value
                    in ch\<lparr>ch_base_address := base, ch_current_address := base\<rparr>) dma
        in dma\<lparr>dma_high_byte := \<not> dma_high_byte dma\<rparr>
      else if reg = 8 then dma\<lparr>dma_command := value\<rparr>
      else if reg = 9
      then dma\<lparr>dma_request := (if value AND 0x04 \<noteq> 0 then dma_request dma OR bit_of (unat (value AND 3))
                               else dma_request dma AND NOT (bit_of (unat (value AND 3))))\<rparr>
      else if reg = 10
      then dma\<lparr>dma_mask := (if value AND 0x04 \<noteq> 0 then dma_mask dma OR bit_of (unat (value AND 3))
                            else dma_mask dma AND NOT (bit_of (unat (value AND 3))))\<rparr>
      else if reg = 11 then upd_channel (unat (value AND 3)) (\<lambda>ch. ch\<lparr>ch_mode := value\<rparr>) dma
      else if reg = 12 then dma\<lparr>dma_high_byte := False\<rparr>
      else if reg = 13 then i8237_reset
      else if reg = 14 then dma\<lparr>dma_mask := 0\<rparr>
      else dma\<lparr>dma_mask := value AND 0x0F\<rparr>)"

section \<open>A run of services\<close>

primrec dma_serve :: "'c i8237_bus \<Rightarrow> nat \<Rightarrow> i8237 \<Rightarrow> 'c \<Rightarrow> i8237 \<times> 'c" where
  "dma_serve bus 0 dma c = (dma, c)"
| "dma_serve bus (Suc n) dma c = snd (i8237_transfer bus (fst (dma_serve bus n dma c)) (snd (dma_serve bus n dma c)))"

definition address_of :: "dma_channel \<Rightarrow> nat \<Rightarrow> u16" where
  "address_of ch k = (if ch_mode ch AND MODE_DECREMENT \<noteq> 0 then ch_current_address ch - of_nat k
                      else ch_current_address ch + of_nat k)"

text \<open>A channel ready to serve: selected by the encoder, in an ordinary mode and direction.\<close>

definition ready :: "nat \<Rightarrow> i8237 \<Rightarrow> bool" where
  "ready c dma \<longleftrightarrow> length (dma_channel dma) = 4 \<and> dma_command dma AND CMD_MEM_TO_MEM = 0 \<and>
     i8237_service_pending dma = Some c \<and> i8237_mode_of c dma \<noteq> MODE_CASCADE \<and>
     i8237_transfer_of c dma \<noteq> TRANSFER_ILLEGAL"

definition advanced :: "nat \<Rightarrow> nat \<Rightarrow> i8237 \<Rightarrow> i8237" where
  "advanced c k dma = upd_channel c (\<lambda>ch. ch\<lparr>ch_current_address := address_of ch k,
     ch_current_count := ch_current_count ch - of_nat k\<rparr>) dma"

lemma pending_less: "i8237_service_pending dma = Some c \<Longrightarrow> c < 4"
  by (auto simp: i8237_service_pending_def I8237_CHANNELS_def Let_def find_Some_iff split: if_splits)

lemma upd_channel_simps [simp]:
  "dma_command (upd_channel c f dma) = dma_command dma"
  "dma_status (upd_channel c f dma) = dma_status dma"
  "dma_request (upd_channel c f dma) = dma_request dma"
  "dma_mask (upd_channel c f dma) = dma_mask dma"
  "dma_dreq (upd_channel c f dma) = dma_dreq dma"
  "dma_high_byte (upd_channel c f dma) = dma_high_byte dma"
  "length (dma_channel (upd_channel c f dma)) = length (dma_channel dma)"
  "c < length (dma_channel dma) \<Longrightarrow> dma_channel (upd_channel c f dma) ! d =
     (if d = c then f (dma_channel dma ! c) else dma_channel dma ! d)"
  by (simp_all add: upd_channel_def nth_list_update)

lemma upd_channel_upd [simp]:
  "c < length (dma_channel dma) \<Longrightarrow>
     upd_channel c g (upd_channel c f dma) = upd_channel c (\<lambda>ch. g (f ch)) dma"
  by (simp add: upd_channel_def)

text \<open>Which channel is selected does not depend on the addresses and counts.\<close>

lemma service_pending_cong:
  assumes "dma_command dma' = dma_command dma" "dma_request dma' = dma_request dma"
    "dma_mask dma' = dma_mask dma" "dma_dreq dma' = dma_dreq dma"
    and "\<And>i. i < 4 \<Longrightarrow> ch_mode (dma_channel dma' ! i) = ch_mode (dma_channel dma ! i)"
  shows "i8237_service_pending dma' = i8237_service_pending dma"
proof -
  have "i8237_mode_of i dma' = i8237_mode_of i dma" if "i < 4" for i
    using assms(5) [OF that] by (simp add: i8237_mode_of_def mode_select_def)
  then have "software_requests dma' = software_requests dma"
    unfolding software_requests_def I8237_CHANNELS_def using assms(2)
    by (intro fold_cong) auto
  with assms show ?thesis by (simp add: i8237_service_pending_def asking_channels_def)
qed

lemma ready_advanced:
  assumes "ready c dma"
  shows "ready c (advanced c k dma)" "i8237_transfer_of c (advanced c k dma) = i8237_transfer_of c dma"
proof -
  have c: "c < length (dma_channel dma)" using assms pending_less by (auto simp: ready_def)
  have "i8237_service_pending (advanced c k dma) = i8237_service_pending dma"
    by (rule service_pending_cong) (use c in \<open>auto simp: advanced_def\<close>)
  then show "ready c (advanced c k dma)"
    "i8237_transfer_of c (advanced c k dma) = i8237_transfer_of c dma"
    using assms c by (auto simp: ready_def advanced_def i8237_mode_of_def mode_select_def
        i8237_transfer_of_def)
qed

lemma transfer_ready:
  assumes ready: "ready c dma"
  shows "snd (i8237_transfer bus dma ctx) =
    (if ch_current_count (dma_channel dma ! c) = 0
     then i8237_terminal_count c (advanced c 1 dma) else advanced c 1 dma,
     move_byte bus (i8237_transfer_of c dma) c (ch_current_address (dma_channel dma ! c)) ctx)"
proof -
  have c: "c < length (dma_channel dma)" using ready pending_less by (auto simp: ready_def)
  have "(\<lambda>ch. ch\<lparr>ch_current_address := next_address ch (ch_current_address ch),
      ch_current_count := ch_current_count ch - 1\<rparr>) =
    (\<lambda>ch. ch\<lparr>ch_current_address := address_of ch 1, ch_current_count := ch_current_count ch - of_nat 1\<rparr>)"
    by (simp add: fun_eq_iff address_of_def next_address_def)
  then show ?thesis
    using ready c by (simp add: ready_def i8237_transfer_def Let_def advanced_def del: One_nat_def)
qed

lemma advanced_0 [simp]: "advanced c 0 dma = dma"
  by (cases dma) (simp add: advanced_def upd_channel_def address_of_def)

lemma advanced_1_advanced:
  assumes "c < length (dma_channel dma)"
  shows "advanced c 1 (advanced c k dma) = advanced c (Suc k) dma"
  using assms by (simp add: advanced_def address_of_def algebra_simps cong: if_cong)

lemma advanced_channel:
  assumes "c < length (dma_channel dma)"
  shows "ch_current_address (dma_channel (advanced c k dma) ! c) = address_of (dma_channel dma ! c) k"
    and "ch_current_count (dma_channel (advanced c k dma) ! c) =
      ch_current_count (dma_channel dma ! c) - of_nat k"
  using assms by (simp_all add: advanced_def)

lemma transfer_advanced:
  assumes ready: "ready c dma"
  shows "snd (i8237_transfer bus (advanced c k dma) ctx) =
    (if ch_current_count (dma_channel dma ! c) = of_nat k
     then i8237_terminal_count c (advanced c (Suc k) dma) else advanced c (Suc k) dma,
     move_byte bus (i8237_transfer_of c dma) c (address_of (dma_channel dma ! c) k) ctx)"
proof -
  have c: "c < length (dma_channel dma)" using ready pending_less by (auto simp: ready_def)
  show ?thesis
    unfolding transfer_ready [OF ready_advanced(1) [OF ready]] advanced_1_advanced [OF c]
      advanced_channel [OF c] ready_advanced(2) [OF ready] by simp
qed

lemma serve_before_terminal:
  assumes ready: "ready c dma" and k: "k \<le> unat (ch_current_count (dma_channel dma ! c))"
  shows "dma_serve bus k dma ctx = (advanced c k dma,
    fold (\<lambda>i. move_byte bus (i8237_transfer_of c dma) c (address_of (dma_channel dma ! c) i)) [0..<k] ctx)"
  using k
proof (induction k)
  case (Suc k)
  have "unat (ch_current_count (dma_channel dma ! c)) < 2 ^ 16"
    using unsigned_less [of "ch_current_count (dma_channel dma ! c)"] by simp
  then have "k < 2 ^ 16" using Suc.prems by linarith
  then have "ch_current_count (dma_channel dma ! c) \<noteq> of_nat k"
    using Suc.prems by (auto simp: unat_of_nat)
  then show ?case using Suc by (simp add: transfer_advanced [OF ready])
qed simp

text \<open>The whole service: one more byte than the count, then the terminal count.\<close>

lemma serve_to_terminal:
  assumes ready: "ready c dma" and n: "n = unat (ch_current_count (dma_channel dma ! c))"
  shows "dma_serve bus (Suc n) dma ctx = (i8237_terminal_count c (advanced c (Suc n) dma),
    fold (\<lambda>i. move_byte bus (i8237_transfer_of c dma) c (address_of (dma_channel dma ! c) i)) [0..<Suc n] ctx)"
  using serve_before_terminal [OF ready, of n bus ctx] n by (simp add: transfer_advanced [OF ready])

section \<open>Memory and a peripheral\<close>

text \<open>The simplest board behind the callbacks: a memory of bytes and a peripheral that hands over
  a list of bytes and collects what it is given.\<close>

type_synonym byte_board = "(u16 \<Rightarrow> u8) \<times> u8 list"

definition byte_bus :: "byte_board i8237_bus" where
  "byte_bus = \<lparr>memory_read = Some (\<lambda>a (m, ds). (m a, (m, ds))),
     memory_write = Some (\<lambda>a v (m, ds). (m(a := v), ds)),
     device_read = Some (\<lambda>c (m, ds). case ds of [] \<Rightarrow> (0xFF, (m, ds)) | d # ds' \<Rightarrow> (d, (m, ds'))),
     device_write = Some (\<lambda>c v (m, ds). (m, ds @ [v]))\<rparr>"

lemma unat_diff_of_nat: "k < 2 ^ 16 \<Longrightarrow> unat ((a::u16) - b) = k \<longleftrightarrow> a = b + of_nat k"
proof -
  assume k: "k < 2 ^ 16"
  have "unat (a - b) = k \<longleftrightarrow> a - b = of_nat k"
    using k by (auto simp: unat_of_nat)
  then show ?thesis by (auto simp: algebra_simps)
qed

lemma move_block:
  assumes up: "ch_mode ch AND MODE_DECREMENT = 0" and k: "k \<le> length ds" "k \<le> 2 ^ 16"
  shows "fold (\<lambda>i. move_byte byte_bus TRANSFER_WRITE c (address_of ch i)) [0..<k] (m, ds) =
    (\<lambda>a. if unat (a - ch_current_address ch) < k then ds ! unat (a - ch_current_address ch) else m a,
     drop k ds)"
  using k
proof (induction k)
  case (Suc k)
  let ?a = "ch_current_address ch + of_nat k"
  have "drop k ds = ds ! k # drop (Suc k) ds" using Suc.prems by (simp add: Cons_nth_drop_Suc)
  moreover have "(unat (a - ch_current_address ch) < Suc k) \<longleftrightarrow>
      unat (a - ch_current_address ch) < k \<or> a = ?a" for a
    using unat_diff_of_nat [of k a "ch_current_address ch"] Suc.prems by (auto simp: less_Suc_eq)
  moreover have "unat (?a - ch_current_address ch) = k"
    using Suc.prems unat_diff_of_nat [of k ?a "ch_current_address ch"] by simp
  ultimately show ?case
    using Suc up by (auto simp: move_byte_def byte_bus_def address_of_def fun_eq_iff)
qed simp

lemma terminal_count_fields:
  assumes "c < 4"
  shows "dma_status (i8237_terminal_count c dma) = dma_status dma OR bit_of c"
    and "dma_mask (i8237_terminal_count c dma) =
      (if ch_mode (dma_channel dma ! c) AND MODE_AUTOINIT = 0 then dma_mask dma OR bit_of c else dma_mask dma)"
    and "dma_request (i8237_terminal_count c dma) = dma_request dma AND NOT (bit_of c) AND NOT (bit_of c)"
  using assms unfolding i8237_terminal_count_def I8237_CHANNELS_def Let_def
  by (simp_all split: if_split)

lemma bit_software_requests:
  "bit (software_requests dma) i \<Longrightarrow> bit (dma_request dma) i"
proof -
  let ?f = "\<lambda>channel software. if dma_request dma AND bit_of channel = 0 then software
     else if i8237_mode_of channel dma = MODE_BLOCK then software OR bit_of channel else software"
  have "bit (fold ?f cs s) i \<Longrightarrow> bit (s::u8) i \<or> bit (dma_request dma) i" for cs s
  proof (induction cs arbitrary: s)
    case (Cons c cs)
    from Cons.prems have "bit (?f c s) i \<or> bit (dma_request dma) i" by (intro Cons.IH) simp
    then show ?case by (auto split: if_splits)
  qed simp
  from this [of "[0..<I8237_CHANNELS]" 0] show "bit (software_requests dma) i \<Longrightarrow> bit (dma_request dma) i"
    unfolding software_requests_def by simp
qed

lemma masked_not_pending:
  assumes "bit (dma_mask dma) c" and "\<not> bit (dma_request dma) c"
  shows "i8237_service_pending dma \<noteq> Some c"
  using assms bit_software_requests [of dma c]
  by (auto simp: i8237_service_pending_def Let_def find_Some_iff asking_channels_def bit_and_iff
      bit_or_iff bit_not_iff split: if_splits)

section \<open>Memory to memory\<close>

definition block_move_ready :: "i8237 \<Rightarrow> bool" where
  "block_move_ready dma \<longleftrightarrow> length (dma_channel dma) = 4 \<and> dma_command dma AND CMD_MEM_TO_MEM \<noteq> 0 \<and>
     dma_command dma AND CMD_CONTROLLER_DISABLE = 0 \<and> dma_command dma AND CMD_CH0_ADDRESS_HOLD = 0 \<and>
     bit (asking_channels dma) 0"

definition block_moved :: "nat \<Rightarrow> u8 \<Rightarrow> i8237 \<Rightarrow> i8237" where
  "block_moved k t dma =
     upd_channel 1 (\<lambda>ch. ch\<lparr>ch_current_address := address_of ch k,
                            ch_current_count := ch_current_count ch - of_nat k\<rparr>)
       (upd_channel 0 (\<lambda>ch. ch\<lparr>ch_current_address := address_of ch k\<rparr>) (dma\<lparr>dma_temporary := t\<rparr>))"

lemma asking_cong:
  assumes "dma_request dma' = dma_request dma"
    "dma_mask dma' = dma_mask dma" "dma_dreq dma' = dma_dreq dma"
    and "\<And>i. i < 4 \<Longrightarrow> ch_mode (dma_channel dma' ! i) = ch_mode (dma_channel dma ! i)"
  shows "asking_channels dma' = asking_channels dma"
proof -
  have "i8237_mode_of i dma' = i8237_mode_of i dma" if "i < 4" for i
    using assms(4) [OF that] by (simp add: i8237_mode_of_def mode_select_def)
  then have "software_requests dma' = software_requests dma"
    unfolding software_requests_def I8237_CHANNELS_def using assms(1)
    by (intro fold_cong) auto
  with assms show ?thesis by (simp add: asking_channels_def)
qed

lemma block_moved_simps:
  assumes "length (dma_channel dma) = 4"
  shows "dma_command (block_moved k t dma) = dma_command dma"
    "length (dma_channel (block_moved k t dma)) = 4"
    "ch_current_address (dma_channel (block_moved k t dma) ! 0) = address_of (dma_channel dma ! 0) k"
    "ch_current_address (dma_channel (block_moved k t dma) ! Suc 0) = address_of (dma_channel dma ! 1) k"
    "ch_current_count (dma_channel (block_moved k t dma) ! Suc 0) = ch_current_count (dma_channel dma ! 1) - of_nat k"
    "asking_channels (block_moved k t dma) = asking_channels dma"
proof -
  show "asking_channels (block_moved k t dma) = asking_channels dma"
    by (rule asking_cong) (use assms in \<open>auto simp: block_moved_def\<close>)
qed (use assms in \<open>simp_all add: block_moved_def\<close>)

text \<open>One service of the part in this mode, the terminal count aside.\<close>

definition block_move_end :: "i8237 \<Rightarrow> i8237" where
  "block_move_end dma = (let dma = i8237_terminal_count 1 dma
                         in dma\<lparr>dma_request := dma_request dma AND NOT 0x01\<rparr>)"

lemma block_move_step:
  assumes ready: "block_move_ready dma"
    and from_a: "a = address_of (dma_channel dma ! 0) k" and to_a: "b = address_of (dma_channel dma ! 1) k"
  shows "snd (i8237_transfer byte_bus (block_moved k t dma) (m, ds)) =
    ((if ch_current_count (dma_channel dma ! 1) = of_nat k then block_move_end else id)
       (block_moved (Suc k) (m a) dma), (m(b := m a), ds))"
proof -
  have four: "length (dma_channel dma) = 4" using ready by (simp add: block_move_ready_def)
  have step: "upd_channel 1 (\<lambda>ch. ch\<lparr>ch_current_count := ch_current_count ch - 1\<rparr>)
      (upd_channel 1 (\<lambda>ch. ch\<lparr>ch_current_address := next_address ch b\<rparr>)
        (upd_channel 0 (\<lambda>ch. ch\<lparr>ch_current_address := next_address ch a\<rparr>)
          ((block_moved k t dma)\<lparr>dma_temporary := m a\<rparr>))) = block_moved (Suc k) (m a) dma"
    using four from_a to_a
    by (simp add: block_moved_def upd_channel_def next_address_def address_of_def list_update_swap
        cong: if_cong) (simp add: algebra_simps)
  have "asking_channels dma AND 1 \<noteq> 0"
    using ready by (simp add: block_move_ready_def and_one_eq bit_0 odd_iff_mod_2_eq_one)
  then show ?thesis
    using ready from_a to_a step
    by (simp add: i8237_transfer_def memory_to_memory_def block_move_ready_def byte_bus_def
        block_moved_simps block_move_end_def Let_def del: upd_channel_upd cong: if_cong)
qed

section \<open>Properties\<close>

text \<open>C13: a channel programmed for writes to memory with an ascending address and count \<open>n\<close> brings
  \<open>n + 1\<close> bytes from the peripheral to consecutive addresses, touches no other byte, sets its
  terminal count status and, unless it autoinitializes, is no longer selected afterwards.\<close>

theorem dma_delivers_block:
  assumes "ready c dma" and "i8237_transfer_of c dma = TRANSFER_WRITE"
    and "ch_mode (dma_channel dma ! c) AND MODE_DECREMENT = 0"
    and "ch_mode (dma_channel dma ! c) AND MODE_AUTOINIT = 0"
    and "n = unat (ch_current_count (dma_channel dma ! c))" and "length ds = Suc n"
    and "base = ch_current_address (dma_channel dma ! c)"
  shows "\<exists>dma'. dma_serve byte_bus (Suc n) dma (m, ds) =
      (dma', (\<lambda>a. if unat (a - base) \<le> n then ds ! unat (a - base) else m a), []) \<and>
    bit (dma_status dma') c \<and> i8237_service_pending dma' \<noteq> Some c"
proof -
  have c: "c < 4" "c < length (dma_channel dma)"
    using assms(1) pending_less by (auto simp: ready_def)
  let ?dma' = "i8237_terminal_count c (advanced c (Suc n) dma)"
  have "unat (ch_current_count (dma_channel dma ! c)) < 2 ^ 16"
    using unsigned_less [of "ch_current_count (dma_channel dma ! c)"] by simp
  then have "dma_serve byte_bus (Suc n) dma (m, ds) =
      (?dma', (\<lambda>a. if unat (a - base) \<le> n then ds ! unat (a - base) else m a), [])"
    using move_block [OF assms(3), of "Suc n" ds c m] assms(2,5,6)
    unfolding serve_to_terminal [OF assms(1,5)] assms(7) by (simp add: less_Suc_eq_le)
  moreover have "ch_mode (dma_channel (advanced c (Suc n) dma) ! c) AND MODE_AUTOINIT = 0"
    using c assms(4) by (simp add: advanced_def)
  ultimately show ?thesis
    using masked_not_pending [of ?dma' c] c(1)
    by (intro exI [of _ ?dma'] conjI) (simp_all add: terminal_count_fields)
qed

text \<open>A memory-to-memory service with count \<open>n\<close> copies \<open>n + 1\<close> bytes from a block to one that does not
  overlap it, leaves the rest of memory alone, and ends channel 0's request.\<close>

theorem memory_block_copied:
  assumes ready: "block_move_ready dma" and up: "ch_mode (dma_channel dma ! 0) AND MODE_DECREMENT = 0"
      "ch_mode (dma_channel dma ! 1) AND MODE_DECREMENT = 0"
    and n: "n = unat (ch_current_count (dma_channel dma ! 1))"
    and "source = ch_current_address (dma_channel dma ! 0)"
    and "destination = ch_current_address (dma_channel dma ! 1)"
    and disjoint: "\<And>i j. i \<le> n \<Longrightarrow> j \<le> n \<Longrightarrow> source + of_nat i \<noteq> destination + of_nat j"
  shows "\<exists>dma'. dma_serve byte_bus (Suc n) dma (m, ds) =
      (dma', (\<lambda>a. if unat (a - destination) \<le> n then m (source + (a - destination)) else m a), ds) \<and>
    bit (dma_status dma') 1 \<and> \<not> bit (dma_request dma') 0"
proof -
  let ?mem = "\<lambda>k a. if unat (a - destination) < k then m (source + (a - destination)) else m a"
  have n16: "n < 2 ^ 16" using n unsigned_less [of "ch_current_count (dma_channel dma ! 1)"] by simp
  have src: "address_of (dma_channel dma ! 0) k = source + of_nat k"
    and dst: "address_of (dma_channel dma ! 1) k = destination + of_nat k" for k
    using up assms(5,6) by (simp_all add: address_of_def)
  have here: "unat (a - destination) = k \<longleftrightarrow> a = destination + of_nat k" if "k \<le> n" for a k
    using unat_diff_of_nat [of k] that n16 by simp
  have clear: "?mem k (source + of_nat k) = m (source + of_nat k)" if "k \<le> n" for k
  proof -
    have "unat (source + of_nat k - destination) \<noteq> i" if "i \<le> n" for i
      using here [OF that] disjoint [OF \<open>k \<le> n\<close> that] by simp
    then show ?thesis using that by (metis (no_types, lifting) less_or_eq_imp_le order.trans)
  qed
  have step: "(?mem k)(destination + of_nat k := m (source + of_nat k)) = ?mem (Suc k)" if "k \<le> n" for k
    using here [OF that] by (auto simp: fun_eq_iff less_Suc_eq)
  have run: "\<exists>t. dma_serve byte_bus k dma (m, ds) = (block_moved k t dma, ?mem k, ds)" if "k \<le> n" for k
    using that
  proof (induction k)
    case 0
    have "block_moved 0 (dma_temporary dma) dma = dma"
      by (cases dma) (simp add: block_moved_def upd_channel_def address_of_def)
    then show ?case by (intro exI [of _ "dma_temporary dma"]) simp
  next
    case (Suc k)
    then obtain t where t: "dma_serve byte_bus k dma (m, ds) = (block_moved k t dma, ?mem k, ds)" by auto
    have "ch_current_count (dma_channel dma ! 1) \<noteq> of_nat k"
      using Suc.prems n n16 by (auto simp: unat_of_nat)
    then have "dma_serve byte_bus (Suc k) dma (m, ds) =
        (block_moved (Suc k) (?mem k (source + of_nat k)) dma, ?mem (Suc k), ds)"
      using block_move_step [OF ready src [symmetric] dst [symmetric], of k t "?mem k" ds]
        clear [of k] step [of k] Suc.prems t by simp
    then show ?case by blast
  qed
  then obtain t where t: "dma_serve byte_bus n dma (m, ds) = (block_moved n t dma, ?mem n, ds)" by auto
  have last: "dma_serve byte_bus (Suc n) dma (m, ds) =
      (block_move_end (block_moved (Suc n) (m (source + of_nat n)) dma), ?mem (Suc n), ds)"
    using block_move_step [OF ready src [symmetric] dst [symmetric], of n t "?mem n" ds]
      clear [of n] step [of n] t n by simp
  then show ?thesis
    by (intro exI [of _ "block_move_end (block_moved (Suc n) (m (source + of_nat n)) dma)"])
      (simp add: less_Suc_eq_le block_move_end_def terminal_count_fields Let_def bit_0 even_and_iff)
qed

lemma merge_bytes:
  "merge_byte True (merge_byte False w lo) hi = push_bit 8 (ucast (hi::u8)) OR (ucast (lo::u8) :: u16)"
proof -
  have high: "(0xFF00::u16) = push_bit 8 (mask 8)" by (simp add: mask_eq_exp_minus_1)
  show ?thesis
    unfolding merge_byte_def high and_mask_literals
    by (rule bit_word_eqI)
      (auto simp: bit_or_iff bit_and_iff bit_push_bit_iff bit_take_bit_iff bit_ucast_iff bit_mask_iff
        simp del: take_bit_push_bit dest: bit_imp_le_length)
qed

lemma register_bytes:
  "register_byte False (push_bit 8 (ucast (hi::u8)) OR ucast (lo::u8)) = lo"
  "register_byte True (push_bit 8 (ucast (hi::u8)) OR ucast (lo::u8)) = hi"
  unfolding register_byte_def and_mask_literals if_True if_False
  by (rule bit_word_eqI; auto simp: bit_or_iff bit_take_bit_iff bit_push_bit_iff bit_ucast_iff
      bit_drop_bit_eq dest: bit_imp_le_length)+

text \<open>With the byte pointer cleared, an address or count register written low byte first reads back
  the same two bytes, low byte first, and the pointer is clear again.\<close>

theorem register_pair_roundtrip:
  assumes "length (dma_channel dma) = 4" and "reg < 8"
  shows "(let dma = i8237_write reg hi (i8237_write reg lo (i8237_write 12 v dma));
              (a, dma) = i8237_read reg dma; (b, dma) = i8237_read reg dma
          in (a, b, dma_high_byte dma)) = (lo, hi, False)"
proof -
  have "reg div 2 < length (dma_channel dma)" using assms by linarith
  then show ?thesis
    using assms(2)
    by (cases "odd reg")
      (simp_all add: i8237_write_def i8237_read_def Let_def merge_bytes register_bytes)
qed

text \<open>Witnesses: the controller programmed through its registers.\<close>

definition tape_read :: i8237 where
  "tape_read = i8237_set_request_pin 1 True (i8237_write 10 0x01 (i8237_write 11 0x45
     (i8237_write 3 0x00 (i8237_write 3 0x02 (i8237_write 2 0x10 (i8237_write 2 0x00
     (i8237_write 12 0 i8237_reset)))))))"

definition block_copy :: i8237 where
  "block_copy = i8237_write 9 0x04 (i8237_write 8 0x01 (i8237_write 11 0x85 (i8237_write 11 0x88
     (i8237_write 3 0x00 (i8237_write 3 0x02 (i8237_write 2 0x20 (i8237_write 2 0x00
     (i8237_write 0 0x10 (i8237_write 0 0x00 (i8237_write 12 0 i8237_reset))))))))))"

theorem dma_delivers_block_witness:
  "\<exists>dma'. dma_serve byte_bus 3 tape_read (\<lambda>_. 0, [0xDE, 0xAD, 0x42]) =
      (dma', (\<lambda>a. if unat (a - 0x1000) \<le> 2 then [0xDE, 0xAD, 0x42] ! unat (a - 0x1000) else 0), []) \<and>
    bit (dma_status dma') 1 \<and> i8237_service_pending dma' \<noteq> Some 1"
proof -
  have "ready 1 tape_read" "i8237_transfer_of 1 tape_read = TRANSFER_WRITE"
    "ch_mode (dma_channel tape_read ! 1) AND MODE_DECREMENT = 0"
    "ch_mode (dma_channel tape_read ! 1) AND MODE_AUTOINIT = 0"
    "2 = unat (ch_current_count (dma_channel tape_read ! 1))"
    "0x1000 = ch_current_address (dma_channel tape_read ! 1)"
    by code_simp+
  from dma_delivers_block [OF this(1-5) _ this(6), of "[0xDE, 0xAD, 0x42]" "\<lambda>_. 0"] show ?thesis
    by (simp add: numeral_eq_Suc)
qed

theorem memory_block_copied_witness:
  "\<exists>dma'. dma_serve byte_bus 3 block_copy (\<lambda>a. ucast a, []) =
      (dma', (\<lambda>a. if unat (a - 0x2000) \<le> 2 then ucast ((0x1000::u16) + (a - 0x2000)) else ucast a), []) \<and>
    bit (dma_status dma') 1 \<and> \<not> bit (dma_request dma') 0"
proof -
  have "block_move_ready block_copy" "ch_mode (dma_channel block_copy ! 0) AND MODE_DECREMENT = 0"
    "ch_mode (dma_channel block_copy ! 1) AND MODE_DECREMENT = 0"
    "2 = unat (ch_current_count (dma_channel block_copy ! 1))"
    "0x1000 = ch_current_address (dma_channel block_copy ! 0)"
    "0x2000 = ch_current_address (dma_channel block_copy ! 1)"
    by code_simp+
  moreover have "(0x1000::u16) + of_nat i \<noteq> 0x2000 + of_nat j" if "i \<le> 2" "j \<le> 2" for i j
  proof -
    have "i \<in> {0, 1, 2}" "j \<in> {0, 1, 2}" using that by auto
    then show ?thesis by (elim insertE emptyE) simp_all
  qed
  ultimately show ?thesis
    using memory_block_copied [of block_copy 2 "0x1000" "0x2000" "\<lambda>a. ucast a" "[]"]
    by (simp add: numeral_3_eq_3)
qed

theorem register_pair_roundtrip_witness:
  "(let dma = i8237_write 5 0x12 (i8237_write 5 0x34 (i8237_write 12 0 i8237_reset));
        (a, dma) = i8237_read 5 dma; (b, dma) = i8237_read 5 dma
    in (a, b, dma_high_byte dma)) = (0x34, 0x12, False)"
  by (rule register_pair_roundtrip) (simp_all add: i8237_reset_def I8237_CHANNELS_def)

end
