(* ===== verification/Board_Dma.thy ===== *)
theory Board_Dma
  imports Board_Arbiter Dev_I8237
begin

unbundle bit_operations_syntax

text \<open>
  The board's DMA: the address translation map (\<^verbatim>\<open>src/core/board/ap_atmap.c\<close>), the decoding of
  the two controllers (\<^verbatim>\<open>ap_dma.c\<close>), the bus master port (\<^verbatim>\<open>ap_master.c\<close>), one bus clock of the
  board (\<open>ap_board_bus_tick\<close> in \<^verbatim>\<open>ap_board.c\<close>) and the processor's wait for the bus
  (\<open>machine_bus_acquire\<close> in \<^verbatim>\<open>src/core/machine/ap_machine.c\<close>).

  The peripherals with a request line and the memory behind the controllers are the parameter
  \<open>devices\<close> on a state \<open>'d\<close>; everything that decides who has the bus is modelled. The lemmas show
  where a translated address may fall, that a DMA transfer only runs in a clock in which the
  processor may not, and that a request granted too late for an indivisible sequence blocks the
  processor until its wait gives up.
\<close>

section \<open>The address translation map\<close>

definition ATMAP_ENTRIES :: nat where "ATMAP_ENTRIES = 1024"
definition ATMAP_ENTRIES_MAX :: nat where "ATMAP_ENTRIES_MAX = 2048"
definition ATMAP_WINDOW_FIRST_ENTRY :: nat where "ATMAP_WINDOW_FIRST_ENTRY = 512"
definition ATMAP_PAGE_SHIFT :: nat where "ATMAP_PAGE_SHIFT = 10"
definition ATMAP_PAGE_SIZE :: u32 where "ATMAP_PAGE_SIZE = push_bit ATMAP_PAGE_SHIFT 1"
definition ATMAP_BASE :: u32 where "ATMAP_BASE = 0x017000"
definition PHYSICAL_MASK :: u32 where "PHYSICAL_MASK = push_bit 26 1 - 1"

datatype atmap_transfer = TRANSFER_8BIT | TRANSFER_16BIT | TRANSFER_BUS_MASTER

record atmap =
  atmap_entry :: "u16 list"
  atmap_entries :: nat

definition atmap_init_entries :: "nat \<Rightarrow> atmap" where
  "atmap_init_entries entries =
     \<lparr>atmap_entry = replicate ATMAP_ENTRIES_MAX 0,
      atmap_entries = (if entries > ATMAP_ENTRIES_MAX then ATMAP_ENTRIES_MAX else entries)\<rparr>"

definition atmap_init :: atmap where
  "atmap_init = atmap_init_entries ATMAP_ENTRIES"

definition atmap_reachable_entries :: "atmap_transfer \<Rightarrow> u32" where
  "atmap_reachable_entries t =
     (case t of TRANSFER_8BIT \<Rightarrow> 64 | TRANSFER_16BIT \<Rightarrow> 128 | TRANSFER_BUS_MASTER \<Rightarrow> 512)"

definition atmap_index :: "u32 \<Rightarrow> atmap_transfer \<Rightarrow> u32" where
  "atmap_index dma_address t =
     (let raw = drop_bit ATMAP_PAGE_SHIFT dma_address;
          reachable = atmap_reachable_entries t
      in if reachable = 0 then 0
         else if t = TRANSFER_BUS_MASTER then raw AND (reachable - 1)
         else (of_nat ATMAP_WINDOW_FIRST_ENTRY + (raw AND (reachable - 1))) AND (of_nat ATMAP_ENTRIES - 1))"

definition atmap_offset :: "u32 \<Rightarrow> atmap_transfer \<Rightarrow> u32" where
  "atmap_offset dma_address t =
     (case t of TRANSFER_8BIT \<Rightarrow> dma_address AND (ATMAP_PAGE_SIZE - 1)
      | TRANSFER_16BIT \<Rightarrow> dma_address AND (ATMAP_PAGE_SIZE - 2)
      | TRANSFER_BUS_MASTER \<Rightarrow> dma_address AND (ATMAP_PAGE_SIZE - 1))"

definition atmap_translate :: "atmap \<Rightarrow> u32 \<Rightarrow> atmap_transfer \<Rightarrow> u32" where
  "atmap_translate m dma_address t =
     (let page = push_bit ATMAP_PAGE_SHIFT (ucast (atmap_entry m ! unat (atmap_index dma_address t)))
      in (page OR atmap_offset dma_address t) AND PHYSICAL_MASK)"

definition atmap_decodes_to_entry :: "atmap \<Rightarrow> u32 \<Rightarrow> bool" where
  "atmap_decodes_to_entry m address =
     (if address < ATMAP_BASE then False else unat (address - ATMAP_BASE) < atmap_entries m * 2)"

definition entry_of :: "atmap \<Rightarrow> u32 \<Rightarrow> u32" where
  "entry_of m address =
     (let entries = (if atmap_entries m = 0 then ATMAP_ENTRIES else atmap_entries m)
      in ((address - ATMAP_BASE) div 2) AND (of_nat entries - 1))"

definition atmap_read :: "atmap \<Rightarrow> u32 \<Rightarrow> u16" where
  "atmap_read m address = atmap_entry m ! unat (entry_of m address)"

definition atmap_write :: "u32 \<Rightarrow> u16 \<Rightarrow> atmap \<Rightarrow> atmap" where
  "atmap_write address value m =
     m\<lparr>atmap_entry := (atmap_entry m)[unat (entry_of m address) := value]\<rparr>"

text \<open>The memory side of a DMA cycle: the second controller counts words.\<close>

definition dma_physical :: "atmap \<Rightarrow> nat \<Rightarrow> u16 \<Rightarrow> u32" where
  "dma_physical m transfer_unit dma_address =
     (let wide = (transfer_unit = 1);
          bus_address = (if wide then push_bit 1 (ucast dma_address) else ucast dma_address)
      in atmap_translate m bus_address (if wide then TRANSFER_16BIT else TRANSFER_8BIT))"

section \<open>The two controllers\<close>

definition DMA1_ADDR :: u32 where "DMA1_ADDR = 0x010C00"
definition DMA2_ADDR :: u32 where "DMA2_ADDR = 0x010D00"
definition DMA_RANGE :: u32 where "DMA_RANGE = 0x100"
definition DMA_CASCADE_UNIT :: nat where "DMA_CASCADE_UNIT = 1"
definition DMA_CASCADE_CHANNEL :: nat where "DMA_CASCADE_CHANNEL = 0"

definition dma_decode :: "u32 \<Rightarrow> (nat \<times> nat) option" where
  "dma_decode address =
     (let base = address AND NOT (DMA_RANGE - 1); offset = address - base in
      if base = DMA1_ADDR then Some (0, unat (offset AND 15))
      else if base = DMA2_ADDR then Some (1, unat (drop_bit 1 offset AND 15))
      else None)"

definition dma_reset :: "i8237 list" where
  "dma_reset = [i8237_reset, i8237_reset]"

definition dma_read :: "u32 \<Rightarrow> i8237 list \<Rightarrow> u8 \<times> i8237 list" where
  "dma_read address dma =
     (case dma_decode address of
        None \<Rightarrow> (0, dma)
      | Some (unit, reg) \<Rightarrow>
          let (v, c) = i8237_read reg (dma ! unit) in (v, dma[unit := c]))"

definition dma_write :: "u32 \<Rightarrow> u8 \<Rightarrow> i8237 list \<Rightarrow> i8237 list" where
  "dma_write address value dma =
     (case dma_decode address of
        None \<Rightarrow> dma
      | Some (unit, reg) \<Rightarrow> dma[unit := i8237_write reg value (dma ! unit)])"

section \<open>The bus master port\<close>

datatype master_state = MASTER_IDLE | MASTER_REQUESTING | MASTER_ACKNOWLEDGED | MASTER_OWNS

record master_port =
  mp_unit :: nat
  mp_channel :: nat
  mp_drq :: nat
  mp_request :: bool
  mp_master_l :: bool
  mp_state :: master_state

definition master_init :: "nat \<Rightarrow> nat \<Rightarrow> nat \<Rightarrow> master_port" where
  "master_init unit channel drq = \<lparr>mp_unit = unit, mp_channel = channel, mp_drq = drq,
     mp_request = False, mp_master_l = False, mp_state = MASTER_IDLE\<rparr>"

definition in_cascade :: "master_port \<Rightarrow> i8237 \<Rightarrow> bool" where
  "in_cascade port dma \<longleftrightarrow> i8237_mode_of (mp_channel port) dma = MODE_CASCADE"

definition master_next :: "master_port \<Rightarrow> i8237 \<Rightarrow> arbiter \<Rightarrow> bool \<Rightarrow> master_state" where
  "master_next port dma ar selected =
     (case mp_state port of
        MASTER_IDLE \<Rightarrow> if mp_request port then MASTER_REQUESTING else MASTER_IDLE
      | MASTER_REQUESTING \<Rightarrow>
          if \<not> mp_request port then MASTER_IDLE
          else if ar_master ar = int (mp_drq port) \<and> selected then MASTER_ACKNOWLEDGED
          else MASTER_REQUESTING
      | MASTER_ACKNOWLEDGED \<Rightarrow>
          if mp_master_l port \<and> in_cascade port dma then MASTER_OWNS
          else if \<not> mp_request port \<and> \<not> mp_master_l port then MASTER_IDLE
          else MASTER_ACKNOWLEDGED
      | MASTER_OWNS \<Rightarrow> if \<not> mp_request port \<and> \<not> mp_master_l port then MASTER_IDLE else MASTER_OWNS)"

definition master_tick :: "master_port \<Rightarrow> i8237 \<Rightarrow> arbiter \<Rightarrow> master_port \<times> i8237 \<times> arbiter" where
  "master_tick port dma ar =
     (let dma = i8237_set_request_pin (mp_channel port) (mp_request port) dma;
          holding = (mp_state port = MASTER_ACKNOWLEDGED \<or> mp_state port = MASTER_OWNS);
          claiming = (if holding then mp_request port \<or> mp_master_l port else False);
          selected = (i8237_service_pending dma = Some (mp_channel port));
          ar = arbiter_request (mp_drq port) (claiming \<or> mp_request port \<and> selected) ar
      in (port\<lparr>mp_state := master_next port dma ar selected\<rparr>, dma, ar))"

section \<open>One bus clock of the board\<close>

text \<open>What the clock uses of the peripherals: their request lines (the ethernet's advances when it
  is sampled), whether the tape is reading, the callbacks a transfer on a controller runs, and the
  terminal count a peripheral sees, and being carried to the clock's instant.\<close>

record 'd devices =
  dev_tape_request :: "'d \<Rightarrow> bool"
  dev_winchester_request :: "'d \<Rightarrow> bool"
  dev_floppy_request :: "'d \<Rightarrow> bool"
  dev_ethernet_request :: "'d \<Rightarrow> bool \<times> 'd"
  dev_tape_reading :: "'d \<Rightarrow> bool"
  dev_bus :: "nat \<Rightarrow> 'd i8237_bus"
  dev_terminal_count :: "nat \<Rightarrow> nat \<Rightarrow> 'd \<Rightarrow> 'd"
  dev_advance :: "'d \<Rightarrow> 'd"

record 'd board_bus =
  bb_bus_ticks :: u32
  bb_refresh_interval :: u32
  bb_refresh_left :: u32
  bb_refresh_holding :: bool
  bb_refresh_cycles :: u32
  bb_dma_possible :: bool
  bb_interrupt_valid_until :: u64
  bb_controller :: "i8237 list"
  bb_arbiter :: arbiter
  bb_master :: master_port
  bb_dma_bus_requests :: u32
  bb_dma_bus_held :: u32
  bb_dma_transfers :: u32
  bb_transfer_unit :: nat
  bb_transfer_ticks :: u32
  bb_transfer_ticks_left :: u32
  bb_devices :: 'd

definition DMA_ARBITER_LINE :: nat where "DMA_ARBITER_LINE = 0"

definition refresh_tick :: "'d board_bus \<Rightarrow> 'd board_bus" where
  "refresh_tick b =
     (let b = b\<lparr>bb_refresh_holding := False\<rparr> in
      if bb_refresh_interval b \<noteq> 0
      then
        let b = b\<lparr>bb_refresh_left := bb_refresh_left b - 1\<rparr> in
        if bb_refresh_left b = 0
        then b\<lparr>bb_refresh_holding := True, bb_refresh_cycles := bb_refresh_cycles b + 1,
               bb_refresh_left := bb_refresh_interval b\<rparr>
        else b
      else b)"

text \<open>The arbiter and, on the same clock, the master port.\<close>

definition arbitrate :: "'d board_bus \<Rightarrow> 'd board_bus" where
  "arbitrate b =
     (let (port, dma, ar) = master_tick (bb_master b) (bb_controller b ! 0) (arbiter_tick (bb_arbiter b))
      in b\<lparr>bb_master := port, bb_controller := (bb_controller b)[0 := dma], bb_arbiter := ar\<rparr>)"

definition set_pin :: "nat \<Rightarrow> nat \<Rightarrow> bool \<Rightarrow> 'd board_bus \<Rightarrow> 'd board_bus" where
  "set_pin unit channel asserted b = b\<lparr>bb_controller :=
     (bb_controller b)[unit := i8237_set_request_pin channel asserted (bb_controller b ! unit)]\<rparr>"

definition poll_requests :: "'d devices \<Rightarrow> 'd board_bus \<Rightarrow> 'd board_bus" where
  "poll_requests dev b =
     (let b = set_pin 0 1 (dev_tape_request dev (bb_devices b)) b;
          b = set_pin 1 3 (dev_winchester_request dev (bb_devices b)) b;
          b = set_pin 0 2 (dev_floppy_request dev (bb_devices b)) b;
          (asked, d) = dev_ethernet_request dev (bb_devices b);
          b = set_pin 1 2 asked (b\<lparr>bb_devices := d\<rparr>)
      in set_pin DMA_CASCADE_UNIT DMA_CASCADE_CHANNEL
           (i8237_service_pending (bb_controller b ! 0) \<noteq> None) b)"

text \<open>The DMA transfer of a clock in which the controllers hold the bus.\<close>

definition dma_cycle :: "'d devices \<Rightarrow> nat option \<Rightarrow> 'd board_bus \<Rightarrow> 'd board_bus" where
  "dma_cycle dev selected b =
     (let unit = (if selected = Some DMA_CASCADE_CHANNEL \<and>
                     i8237_mode_of DMA_CASCADE_CHANNEL (bb_controller b ! DMA_CASCADE_UNIT) = MODE_CASCADE
                  then 0 else DMA_CASCADE_UNIT);
          (cycle, dma, d) = i8237_transfer (dev_bus dev unit) (bb_controller b ! unit) (bb_devices b);
          b = b\<lparr>bb_transfer_unit := unit, bb_controller := (bb_controller b)[unit := dma], bb_devices := d\<rparr>
      in if cyc_ran cycle
         then
           let b = b\<lparr>bb_dma_transfers := bb_dma_transfers b + 1\<rparr>;
               b = (if bb_transfer_ticks b > 1
                    then b\<lparr>bb_transfer_ticks_left := bb_transfer_ticks b - 1\<rparr> else b)
           in if cyc_terminal_count cycle
              then b\<lparr>bb_devices := dev_terminal_count dev unit (cyc_channel cycle) (bb_devices b)\<rparr>
              else b
         else b)"

text \<open>The poll, the request it puts to the arbiter, and whether the next clock polls again.\<close>

definition request_bus :: "'d devices \<Rightarrow> 'd board_bus \<Rightarrow> nat option \<times> 'd board_bus" where
  "request_bus dev b =
     (let b = poll_requests dev (b\<lparr>bb_interrupt_valid_until := 0\<rparr>);
          selected = i8237_service_pending (bb_controller b ! DMA_CASCADE_UNIT);
          b = b\<lparr>bb_arbiter := arbiter_request DMA_ARBITER_LINE (selected \<noteq> None) (bb_arbiter b)\<rparr>;
          asking = (selected \<noteq> None \<or>
            list_ex (\<lambda>c. dma_dreq c \<noteq> 0 \<or> dma_request c \<noteq> 0) (bb_controller b));
          b = b\<lparr>bb_dma_possible := (asking \<or> dev_tape_reading dev (bb_devices b))\<rparr>
      in (selected,
          if selected \<noteq> None then b\<lparr>bb_dma_bus_requests := bb_dma_bus_requests b + 1\<rparr> else b))"

definition hold_bus :: "'d devices \<Rightarrow> nat option \<Rightarrow> 'd board_bus \<Rightarrow> 'd board_bus" where
  "hold_bus dev selected b =
     (if ar_master (bb_arbiter b) \<noteq> int DMA_ARBITER_LINE then b
      else
        let b = b\<lparr>bb_dma_bus_held := bb_dma_bus_held b + 1\<rparr> in
        if bb_transfer_ticks_left b > 0
        then b\<lparr>bb_transfer_ticks_left := bb_transfer_ticks_left b - 1\<rparr>
        else dma_cycle dev selected b)"

definition board_bus_tick :: "'d devices \<Rightarrow> 'd board_bus \<Rightarrow> 'd board_bus" where
  "board_bus_tick dev b =
     (let b = refresh_tick (b\<lparr>bb_bus_ticks := bb_bus_ticks b + 1\<rparr>) in
      if \<not> bb_dma_possible b then arbitrate b
      else let (selected, b) = request_bus dev b in hold_bus dev selected (arbitrate b))"

definition board_processor_may_run :: "'d board_bus \<Rightarrow> bool" where
  "board_processor_may_run b \<longleftrightarrow>
     \<not> bb_refresh_holding b \<and> arbiter_processor_may_run (bb_arbiter b)"

definition board_set_processor_rmc_state :: "rmc \<Rightarrow> 'd board_bus \<Rightarrow> 'd board_bus" where
  "board_set_processor_rmc_state rmc b =
     b\<lparr>bb_arbiter := arbiter_set_processor_rmc_state rmc (bb_arbiter b)\<rparr>"

section \<open>The processor's wait for the bus\<close>

definition machine_cycle_clock :: "'d devices \<Rightarrow> 'd board_bus \<Rightarrow> 'd board_bus" where
  "machine_cycle_clock dev b =
     (let b = board_bus_tick dev b in b\<lparr>bb_devices := dev_advance dev (bb_devices b)\<rparr>)"

definition MACHINE_STALL_LIMIT :: nat where "MACHINE_STALL_LIMIT = 4096"

text \<open>The loop of \<open>machine_bus_acquire\<close>, counting up to the limit; \<open>limit\<close> is what is left of it.\<close>

fun stall_loop :: "'d devices \<Rightarrow> nat \<Rightarrow> 'd board_bus \<Rightarrow> nat \<times> 'd board_bus" where
  "stall_loop dev 0 b = (0, b)"
| "stall_loop dev (Suc limit) b =
     (if board_processor_may_run b then (0, b)
      else let (stalled, b) = stall_loop dev limit (machine_cycle_clock dev b) in (Suc stalled, b))"

definition machine_bus_acquire :: "'d devices \<Rightarrow> rmc \<Rightarrow> rmc \<Rightarrow> 'd board_bus \<Rightarrow> nat \<times> 'd board_bus" where
  "machine_bus_acquire dev asserted rmc b =
     stall_loop dev MACHINE_STALL_LIMIT
       (if rmc \<noteq> asserted then board_set_processor_rmc_state rmc b else b)"

section \<open>Translated addresses\<close>

lemma atmap_literals:
  "ATMAP_PAGE_SIZE - 1 = mask 10" "ATMAP_PAGE_SIZE - 2 = 0x3FE" "PHYSICAL_MASK = mask 26"
  "of_nat ATMAP_ENTRIES - 1 = (mask 10 :: u32)" "of_nat ATMAP_WINDOW_FIRST_ENTRY = (512 :: u32)"
  by (simp_all add: ATMAP_PAGE_SIZE_def ATMAP_PAGE_SHIFT_def PHYSICAL_MASK_def ATMAP_ENTRIES_def
      ATMAP_WINDOW_FIRST_ENTRY_def mask_eq_exp_minus_1)

lemma reachable_mask:
  "atmap_reachable_entries t - 1 = (case t of TRANSFER_8BIT \<Rightarrow> mask 6 | TRANSFER_16BIT \<Rightarrow> mask 7
     | TRANSFER_BUS_MASTER \<Rightarrow> mask 9)" "atmap_reachable_entries t \<noteq> 0"
  by (cases t; simp add: atmap_reachable_entries_def mask_eq_exp_minus_1)+

lemma unat_take_bit_less: "n \<le> LENGTH('a) \<Longrightarrow> unat (take_bit n (w::'a::len word)) < 2 ^ n"
  by (simp add: unsigned_take_bit_eq)

text \<open>A DMA channel indexes the upper half of the map, a bus master the lower; the index is that of
  the page in the window and never wraps.\<close>

lemma atmap_index_unat:
  "unat (atmap_index a t) =
     (case t of TRANSFER_8BIT \<Rightarrow> 512 + unat (take_bit 6 (drop_bit 10 a))
      | TRANSFER_16BIT \<Rightarrow> 512 + unat (take_bit 7 (drop_bit 10 a))
      | TRANSFER_BUS_MASTER \<Rightarrow> unat (take_bit 9 (drop_bit 10 a)))"
proof -
  have window: "unat ((512 + take_bit n (drop_bit 10 a)) AND mask 10) = 512 + unat (take_bit n (drop_bit 10 a))"
    if "n \<le> 9" for n
  proof -
    have "unat (take_bit n (drop_bit 10 a)) < 2 ^ n"
      using that by (intro unat_take_bit_less) simp
    also have "(2::nat) ^ n \<le> 2 ^ 9" using that by (intro power_increasing) auto
    finally have less: "unat (take_bit n (drop_bit 10 a)) < 512" by simp
    then have "unat (512 + take_bit n (drop_bit 10 a)) = 512 + unat (take_bit n (drop_bit 10 a))"
      by (subst unat_add_lem [THEN iffD1]) simp_all
    with less have "take_bit 10 (512 + take_bit n (drop_bit 10 a)) = 512 + take_bit n (drop_bit 10 a)"
      by (simp add: take_bit_self_iff)
    with \<open>unat (512 + _) = _\<close> show ?thesis by (simp flip: take_bit_eq_mask)
  qed
  show ?thesis
    using window [of 6] window [of 7]
    by (cases t) (simp_all add: atmap_index_def Let_def reachable_mask atmap_literals
        ATMAP_PAGE_SHIFT_def flip: take_bit_eq_mask)
qed

lemma unat_page_offset:
  "unat (push_bit 10 (ucast (e::u16) :: u32) OR take_bit 10 a) = unat e * 1024 + unat a mod 1024"
proof -
  have "push_bit 10 (ucast e :: u32) OR take_bit 10 a = push_bit 10 (ucast e) + take_bit 10 a"
    by (rule disjunctive_add [symmetric]) (auto simp: bit_push_bit_iff bit_take_bit_iff)
  moreover have "unat (push_bit 10 (ucast e :: u32)) = unat e * 1024"
  proof -
    have "unat e < 2 ^ 16" using unsigned_less [of e] by simp
    then have "unat e * 1024 < 2 ^ 32" by simp
    then show ?thesis
      by (simp add: push_bit_eq_mult unat_ucast_up unat_word_ariths)
  qed
  moreover have "unat (take_bit 10 a) = unat a mod 1024"
    by (subst unsigned_take_bit_eq) (simp add: take_bit_eq_mod)
  moreover have "unat e * 1024 + unat a mod 1024 < 2 ^ 32"
  proof -
    have "unat e < 2 ^ 16" "unat a mod 1024 < 1024" using unsigned_less [of e] by simp_all
    then show ?thesis by simp
  qed
  ultimately show ?thesis by (simp add: unat_word_ariths)
qed

lemma unat_wide_address: "unat (push_bit 1 (ucast (a::u16)) :: u32) = 2 * unat a"
proof -
  have "unat a < 2 ^ 16" using unsigned_less [of a] by simp
  then show ?thesis
    by (simp add: push_bit_eq_mult unat_ucast_up unat_word_ariths del: push_bit_Suc)
qed

lemma translate_unat:
  assumes "atmap_offset a t = take_bit 10 a"
  shows "unat (atmap_translate m a t) =
    unat (atmap_entry m ! unat (atmap_index a t)) * 1024 + unat a mod 1024"
proof -
  let ?e = "atmap_entry m ! unat (atmap_index a t)"
  have "unat (push_bit 10 (ucast ?e) OR take_bit 10 a :: u32) < 2 ^ 26"
  proof -
    have "unat ?e < 2 ^ 16" "unat a mod 1024 < 1024" using unsigned_less [of ?e] by simp_all
    then show ?thesis unfolding unat_page_offset by simp
  qed
  then have "take_bit 26 (push_bit 10 (ucast ?e) OR take_bit 10 a :: u32) = push_bit 10 (ucast ?e) OR take_bit 10 a"
    by (simp only: take_bit_self_iff)
  then show ?thesis
    by (simp add: atmap_translate_def assms atmap_literals ATMAP_PAGE_SHIFT_def unat_page_offset
        Let_def del: take_bit_or push_bit_or flip: take_bit_eq_mask)
qed

lemma window_index:
  "unat a < 65536 \<Longrightarrow> unat (atmap_index a TRANSFER_8BIT) = 512 + unat a div 1024"
  "unat a < 131072 \<Longrightarrow> unat (atmap_index a TRANSFER_16BIT) = 512 + unat a div 1024"
proof -
  have drop: "unat (drop_bit 10 a) = unat a div 1024"
    unfolding unat_drop_bit_eq by (simp add: drop_bit_eq_div)
  have field: "unat (take_bit n (drop_bit 10 a)) = unat a div 1024" if "unat a div 1024 < 2 ^ n" for n
    using that by (subst unsigned_take_bit_eq) (simp add: drop take_bit_nat_eq_self_iff)
  show "unat a < 65536 \<Longrightarrow> unat (atmap_index a TRANSFER_8BIT) = 512 + unat a div 1024"
    by (simp add: atmap_index_unat field less_mult_imp_div_less)
  show "unat a < 131072 \<Longrightarrow> unat (atmap_index a TRANSFER_16BIT) = 512 + unat a div 1024"
    by (simp add: atmap_index_unat field less_mult_imp_div_less)
qed

lemma even_offset:
  "atmap_offset (push_bit 1 (ucast (a::u16))) TRANSFER_16BIT = take_bit 10 (push_bit 1 (ucast a))"
proof (rule bit_word_eqI)
  fix n :: nat assume "n < LENGTH(32)"
  have mask: "(0x3FE::u32) = push_bit 1 (mask 9)" by (simp add: mask_eq_exp_minus_1)
  show "bit (atmap_offset (push_bit 1 (ucast a)) TRANSFER_16BIT) n =
      bit (take_bit 10 (push_bit 1 (ucast a) :: u32)) n"
    unfolding atmap_offset_def atmap_literals mask atmap_transfer.case
    by (auto simp: bit_and_iff bit_take_bit_iff bit_push_bit_iff bit_mask_iff
        simp del: take_bit_push_bit push_bit_Suc push_bit_mask_eq)
qed

section \<open>The bus clock refines the arbiter's steps\<close>

lemma refresh_tick_fields [simp]:
  "bb_arbiter (refresh_tick b) = bb_arbiter b" "bb_controller (refresh_tick b) = bb_controller b"
  "bb_devices (refresh_tick b) = bb_devices b" "bb_dma_possible (refresh_tick b) = bb_dma_possible b"
  "bb_dma_transfers (refresh_tick b) = bb_dma_transfers b" "bb_master (refresh_tick b) = bb_master b"
  by (simp_all add: refresh_tick_def Let_def)

lemma set_pin_fields [simp]:
  "bb_arbiter (set_pin u c p b) = bb_arbiter b" "bb_devices (set_pin u c p b) = bb_devices b"
  "bb_dma_possible (set_pin u c p b) = bb_dma_possible b"
  "bb_dma_transfers (set_pin u c p b) = bb_dma_transfers b"
  "bb_master (set_pin u c p b) = bb_master b"
  "length (bb_controller (set_pin u c p b)) = length (bb_controller b)"
  by (simp_all add: set_pin_def)

lemma poll_fields [simp]:
  "bb_arbiter (poll_requests dev b) = bb_arbiter b"
  "bb_dma_transfers (poll_requests dev b) = bb_dma_transfers b"
  "bb_master (poll_requests dev b) = bb_master b"
  "length (bb_controller (poll_requests dev b)) = length (bb_controller b)"
  by (simp_all add: poll_requests_def Let_def split: prod.split)

text \<open>What arbitration leaves: the arbiter one tick on, and one line possibly driven.\<close>

lemma arbitrate_arbiter:
  obtains p where "bb_arbiter (arbitrate b) =
    arbiter_request (mp_drq (bb_master b)) p (arbiter_tick (bb_arbiter b))"
  by (cases "master_tick (bb_master b) (bb_controller b ! 0) (arbiter_tick (bb_arbiter b))")
    (auto simp: arbitrate_def master_tick_def Let_def)

lemma arbitrate_fields [simp]:
  "bb_devices (arbitrate b) = bb_devices b"
  "bb_dma_transfers (arbitrate b) = bb_dma_transfers b"
  "mp_drq (bb_master (arbitrate b)) = mp_drq (bb_master b)"
  "bb_dma_possible (arbitrate b) = bb_dma_possible b"
  "length (bb_controller (arbitrate b)) = length (bb_controller b)"
  by (simp_all add: arbitrate_def master_tick_def Let_def)

lemma dma_cycle_arbiter [simp]: "bb_arbiter (dma_cycle dev selected b) = bb_arbiter b"
  by (simp add: dma_cycle_def Let_def split: prod.split)

lemma ar_master_request [simp]: "ar_master (arbiter_request drq p ar) = ar_master ar"
  by (simp add: arbiter_request_def)

lemma hold_bus_arbiter [simp]: "bb_arbiter (hold_bus dev selected b) = bb_arbiter b"
  by (simp add: hold_bus_def Let_def)

lemma request_bus_fields:
  assumes "request_bus dev b = (selected, b')"
  shows "bb_arbiter b' = arbiter_request DMA_ARBITER_LINE (selected \<noteq> None) (bb_arbiter b)"
    and "bb_dma_transfers b' = bb_dma_transfers b" and "bb_master b' = bb_master b"
  using assms by (auto simp: request_bus_def Let_def)

text \<open>The bus clock seen by the arbiter: the controllers' line, one tick, the master port's line.\<close>

lemma bus_tick_arbiter:
  obtains ar p where "ar = bb_arbiter b \<or> (\<exists>q. ar = arbiter_request DMA_ARBITER_LINE q (bb_arbiter b))"
    and "bb_arbiter (board_bus_tick dev b) = arbiter_request (mp_drq (bb_master b)) p (arbiter_tick ar)"
proof (cases "bb_dma_possible b")
  case False
  then show thesis
    using arbitrate_arbiter [of "refresh_tick (b\<lparr>bb_bus_ticks := bb_bus_ticks b + 1\<rparr>)"] that
    by (auto simp: board_bus_tick_def Let_def)
next
  case True
  obtain selected c where c: "request_bus dev (refresh_tick (b\<lparr>bb_bus_ticks := bb_bus_ticks b + 1\<rparr>)) =
      (selected, c)" by fastforce
  obtain p where "bb_arbiter (arbitrate c) = arbiter_request (mp_drq (bb_master c)) p (arbiter_tick (bb_arbiter c))"
    by (rule arbitrate_arbiter)
  then show thesis
    using True request_bus_fields [OF c] that
    by (simp add: board_bus_tick_def Let_def c) blast
qed

lemma reachable_bus_tick:
  assumes "bus_reachable (bb_arbiter b)"
  shows "bus_reachable (bb_arbiter (board_bus_tick dev b))"
proof -
  obtain ar p where ar: "ar = bb_arbiter b \<or> (\<exists>q. ar = arbiter_request DMA_ARBITER_LINE q (bb_arbiter b))"
    and tick: "bb_arbiter (board_bus_tick dev b) = arbiter_request (mp_drq (bb_master b)) p (arbiter_tick ar)"
    by (rule bus_tick_arbiter)
  from ar assms have "bus_reachable ar" by (auto intro: bus_reachable.step bus_step.Request)
  then show ?thesis
    unfolding tick by (intro bus_reachable.step [OF _ bus_step.Request] bus_reachable.step [OF _ bus_step.Tick])
qed

lemma transfers_only_held:
  assumes "bb_dma_transfers (board_bus_tick dev b) \<noteq> bb_dma_transfers b"
  shows "ar_master (bb_arbiter (board_bus_tick dev b)) = int DMA_ARBITER_LINE"
proof -
  obtain selected c where c: "request_bus dev (refresh_tick (b\<lparr>bb_bus_ticks := bb_bus_ticks b + 1\<rparr>)) =
      (selected, c)" by fastforce
  then have "bb_dma_transfers c = bb_dma_transfers b" using request_bus_fields(2) by fastforce
  with assms c have "bb_dma_possible b" "bb_dma_transfers (hold_bus dev selected (arbitrate c)) \<noteq> bb_dma_transfers c"
    by (auto simp: board_bus_tick_def Let_def split: if_splits)
  then have "ar_master (bb_arbiter (arbitrate c)) = int DMA_ARBITER_LINE"
    by (auto simp: hold_bus_def split: if_splits)
  with \<open>bb_dma_possible b\<close> c show ?thesis by (simp add: board_bus_tick_def Let_def)
qed

section \<open>A request that comes too late\<close>

text \<open>The arbiter has answered a request internally while the processor holds the RMC pin: the pin
  keeps the grant from the device, the standing request keeps the arbiter from going back.\<close>

definition jammed :: "arbiter \<Rightarrow> bool" where
  "jammed ar \<longleftrightarrow> ar_master ar = ARBITER_PROCESSOR \<and>
     arb_state (ar_cpu ar) \<in> {ARB_STATE_1, ARB_STATE_2} \<and> arb_three_state (ar_cpu ar) \<and>
     arb_r (ar_cpu ar) \<and> arb_br_sync (ar_cpu ar) = 3 \<and> \<not> arb_a (ar_cpu ar) \<and>
     arb_bgack_sync (ar_cpu ar) = 0 \<and> \<not> arb_bgack (ar_cpu ar) \<and> arb_rmc (ar_cpu ar) \<noteq> RMC_NONE"

lemma jammed_tick:
  assumes "jammed ar" and "ar_request ar \<noteq> 0"
  shows "jammed (arbiter_tick ar)"
proof -
  have ask: "arbiter_highest_requester ar \<noteq> ARBITER_PROCESSOR"
    using assms(2) by (simp add: highest_requester_iff)
  have "arb_state (ar_cpu ar) = ARB_STATE_1 \<or> arb_state (ar_cpu ar) = ARB_STATE_2"
    using assms(1) by (simp add: jammed_def)
  then show ?thesis
    using assms(1) ask
    by (elim disjE) (simp_all add: jammed_def arbiter_tick_def Let_def arb_bus_grant_def
      arb_set_request_def arb_tick_def tick_is_a_no_op_def arb_tick_body_def next_state_def
      drive_outputs_def sync_advance_cases)
qed

lemma jammed_request [simp]: "jammed (arbiter_request drq p ar) = jammed ar"
  by (simp add: jammed_def arbiter_request_def)

lemma jammed_not_running: "jammed (bb_arbiter b) \<Longrightarrow> \<not> board_processor_may_run b"
  by (simp add: jammed_def board_processor_may_run_def arbiter_processor_may_run_def
      arb_processor_is_master_def)

text \<open>The peripheral keeps asking through a cascade that passes its request on.\<close>

definition tape_passes :: "'d board_bus \<Rightarrow> bool" where
  "tape_passes b \<longleftrightarrow> bb_dma_possible b \<and> length (bb_controller b) = 2 \<and>
     dma_command (bb_controller b ! 0) AND CMD_CONTROLLER_DISABLE = 0 \<and>
     \<not> bit (dma_mask (bb_controller b ! 0)) 1 \<and>
     dma_command (bb_controller b ! 1) AND CMD_CONTROLLER_DISABLE = 0 \<and>
     \<not> bit (dma_mask (bb_controller b ! 1)) 0"

lemma pending_if_dreq:
  assumes "bit (dma_dreq c) i" "\<not> bit (dma_mask c) i" "i < 4"
    and "dma_command c AND CMD_CONTROLLER_DISABLE = 0"
  shows "i8237_service_pending c \<noteq> None"
proof -
  have "bit (15::u8) i" using assms(3) by (auto simp: numeral_eq_Suc less_Suc_eq)
  then have asking: "bit (asking_channels c) i"
    using assms by (simp add: asking_channels_def bit_and_iff bit_or_iff bit_not_iff)
  then have "asking_channels c \<noteq> 0" by auto
  moreover have "find (bit (asking_channels c)) [0..<4] \<noteq> None"
    using asking assms(3) by (auto simp: find_None_iff)
  ultimately show ?thesis
    using assms(4) by (simp add: i8237_service_pending_def I8237_CHANNELS_def)
qed

lemma request_pin_fields [simp]:
  "dma_mask (i8237_set_request_pin c p dma) = dma_mask dma"
  "dma_command (i8237_set_request_pin c p dma) = dma_command dma"
  by (simp_all add: i8237_set_request_pin_def)

lemma bit_request_pin:
  "c < 4 \<Longrightarrow> bit (dma_dreq (i8237_set_request_pin c p dma)) i = (if i = c then p else bit (dma_dreq dma) i)"
  by (auto simp: i8237_set_request_pin_def I8237_CHANNELS_def)

lemma set_pin_nth:
  "length (bb_controller b) = 2 \<Longrightarrow> u < 2 \<Longrightarrow> v < 2 \<Longrightarrow> bb_controller (set_pin u c p b) ! v =
     (if u = v then i8237_set_request_pin c p (bb_controller b ! v) else bb_controller b ! v)"
  by (simp add: set_pin_def)

lemma poll_controllers:
  assumes "length (bb_controller b) = 2" and "v < 2"
  shows "dma_mask (bb_controller (poll_requests dev b) ! v) = dma_mask (bb_controller b ! v)"
    and "dma_command (bb_controller (poll_requests dev b) ! v) = dma_command (bb_controller b ! v)"
  using assms
  by (simp_all add: poll_requests_def Let_def set_pin_nth DMA_CASCADE_UNIT_def split: prod.split)

lemma poll_selects:
  assumes "tape_passes b" and "dev_tape_request dev (bb_devices b)"
  shows "i8237_service_pending (bb_controller (poll_requests dev b) ! DMA_CASCADE_UNIT) \<noteq> None"
proof -
  have len: "length (bb_controller b) = 2" using assms(1) by (simp add: tape_passes_def)
  obtain asked d where e: "dev_ethernet_request dev (bb_devices b) = (asked, d)" by fastforce
  let ?c = "set_pin 1 2 asked ((set_pin 0 2 (dev_floppy_request dev (bb_devices b))
      (set_pin 1 3 (dev_winchester_request dev (bb_devices b))
        (set_pin 0 1 True b)))\<lparr>bb_devices := d\<rparr>)"
  have poll: "poll_requests dev b = set_pin 1 0 (i8237_service_pending (bb_controller ?c ! 0) \<noteq> None) ?c"
    using assms(2) e
    by (simp add: poll_requests_def Let_def DMA_CASCADE_UNIT_def DMA_CASCADE_CHANNEL_def)
  have "i8237_service_pending (bb_controller ?c ! 0) \<noteq> None"
    by (rule pending_if_dreq [of _ 1]) (use assms(1) len in \<open>simp_all add: set_pin_nth bit_request_pin tape_passes_def\<close>)
  then have "bit (dma_dreq (bb_controller (poll_requests dev b) ! 1)) 0"
    using len by (simp add: poll set_pin_nth bit_request_pin)
  then show ?thesis
    unfolding DMA_CASCADE_UNIT_def
    by (rule pending_if_dreq) (use assms(1) len in \<open>simp_all add: poll_controllers tape_passes_def\<close>)
qed

lemma arbitrate_controllers:
  assumes "length (bb_controller b) = 2" and "v < 2"
  shows "dma_mask (bb_controller (arbitrate b) ! v) = dma_mask (bb_controller b ! v)"
    and "dma_command (bb_controller (arbitrate b) ! v) = dma_command (bb_controller b ! v)"
  using assms by (simp_all add: arbitrate_def master_tick_def Let_def nth_list_update)

lemma bit_arbiter_request:
  "drq < 8 \<Longrightarrow> bit (ar_request (arbiter_request drq True ar)) drq"
  by (simp add: arbiter_request_def ARBITER_REQUESTERS_def)

lemma jammed_bus_tick:
  assumes tape: "tape_passes b" "dev_tape_request dev (bb_devices b)" and jam: "jammed (bb_arbiter b)"
  shows "tape_passes (board_bus_tick dev b) \<and> jammed (bb_arbiter (board_bus_tick dev b))"
proof -
  define c where "c = refresh_tick (b\<lparr>bb_bus_ticks := bb_bus_ticks b + 1\<rparr>)"
  define p where "p = poll_requests dev (c\<lparr>bb_interrupt_valid_until := 0\<rparr>)"
  have c: "tape_passes c" "dev_tape_request dev (bb_devices c)" "bb_arbiter c = bb_arbiter b"
    using tape by (simp_all add: c_def tape_passes_def)
  have len: "length (bb_controller (c\<lparr>bb_interrupt_valid_until := 0\<rparr>)) = 2"
    using c by (simp add: tape_passes_def)
  have sel: "i8237_service_pending (bb_controller p ! DMA_CASCADE_UNIT) \<noteq> None"
    unfolding p_def by (rule poll_selects) (use c in \<open>simp_all add: tape_passes_def\<close>)
  obtain selected d where d: "request_bus dev c = (selected, d)" by fastforce
  then have "bb_controller d = bb_controller p" "bb_dma_possible d"
      "bb_arbiter d = arbiter_request DMA_ARBITER_LINE True (bb_arbiter b)"
    using sel c by (auto simp: request_bus_def Let_def p_def [symmetric]) (simp add: p_def)
  moreover have "tape_passes d"
    using calculation c len
    by (simp add: tape_passes_def p_def poll_controllers [OF len])
  moreover have jam': "jammed (arbiter_tick (bb_arbiter d))"
    using jam calculation(3) bit_arbiter_request [of DMA_ARBITER_LINE "bb_arbiter b"]
    by (intro jammed_tick) (auto simp: DMA_ARBITER_LINE_def)
  moreover obtain q where q: "bb_arbiter (arbitrate d) = arbiter_request (mp_drq (bb_master d)) q (arbiter_tick (bb_arbiter d))"
    by (rule arbitrate_arbiter)
  moreover have "board_bus_tick dev b = hold_bus dev selected (arbitrate d)"
    using tape d by (simp add: board_bus_tick_def Let_def c_def tape_passes_def)
  moreover have "ar_master (bb_arbiter (arbitrate d)) = ARBITER_PROCESSOR"
    using jam' by (simp add: q jammed_def)
  ultimately show ?thesis
    by (simp add: hold_bus_def tape_passes_def arbitrate_controllers ARBITER_PROCESSOR_def)
qed

lemma stall_jammed:
  assumes "tape_passes b" and "jammed (bb_arbiter b)" and "\<And>d. dev_tape_request dev d"
  shows "fst (stall_loop dev n b) = n \<and> jammed (bb_arbiter (snd (stall_loop dev n b)))"
  using assms(1,2)
proof (induction n arbitrary: b)
  case (Suc n)
  let ?b = "machine_cycle_clock dev b"
  have "tape_passes ?b" "jammed (bb_arbiter ?b)"
    using jammed_bus_tick [OF Suc.prems(1) assms(3) Suc.prems(2)]
    by (simp_all add: machine_cycle_clock_def Let_def tape_passes_def)
  from Suc.IH [OF this] jammed_not_running [OF Suc.prems(2)] show ?case
    by (simp add: case_prod_beta Let_def)
qed simp

section \<open>Properties\<close>

text \<open>C30: where a DMA cycle lands: the page the translation map gives for the kilobyte of the transfer
  window, the upper half of the map, and the offset inside it; the second controller's register
  counts words.\<close>

theorem dma_address_translation:
  "unat (dma_physical m 0 a) = unat (atmap_entry m ! (512 + unat a div 1024)) * 1024 + unat a mod 1024 \<and>
   unat (dma_physical m 1 a) =
     unat (atmap_entry m ! (512 + 2 * unat a div 1024)) * 1024 + 2 * unat a mod 1024"
proof
  have a: "unat a < 65536" using unsigned_less [of a] by simp
  have narrow: "unat (ucast a :: u32) = unat a" by (simp add: unat_ucast_up)
  have "atmap_offset (ucast a) TRANSFER_8BIT = take_bit 10 (ucast a)"
    by (simp only: atmap_offset_def atmap_literals atmap_transfer.case take_bit_eq_mask)
  from translate_unat [OF this, of m] show "unat (dma_physical m 0 a) =
      unat (atmap_entry m ! (512 + unat a div 1024)) * 1024 + unat a mod 1024"
    using window_index(1) [of "ucast a"] a by (simp add: dma_physical_def Let_def narrow)
  show "unat (dma_physical m 1 a) =
     unat (atmap_entry m ! (512 + 2 * unat a div 1024)) * 1024 + 2 * unat a mod 1024"
    using translate_unat [OF even_offset [of a], of m] window_index(2) [of "push_bit 1 (ucast a)"] a
    unfolding unat_wide_address by (simp add: dma_physical_def Let_def del: push_bit_Suc)
qed


text \<open>C32: a request the arbiter has answered internally just before an indivisible sequence starts
  blocks that sequence: the first read waits the whole stall limit for the bus and ends without it,
  because the pin that announces the sequence keeps the grant from the device and the device keeps
  its request up.\<close>

theorem late_request_blocks_locked_sequence:
  assumes "jammed (arbiter_set_processor_rmc_state rmc (bb_arbiter b))" and "rmc \<noteq> asserted"
    and "tape_passes b" and "\<And>d. dev_tape_request dev d"
  shows "fst (machine_bus_acquire dev asserted rmc b) = 4096 \<and>
    \<not> board_processor_may_run (snd (machine_bus_acquire dev asserted rmc b))"
proof -
  let ?b = "board_set_processor_rmc_state rmc b"
  have "tape_passes ?b" "jammed (bb_arbiter ?b)"
    using assms(1,3) by (simp_all add: tape_passes_def board_set_processor_rmc_state_def)
  from stall_jammed [OF this assms(4), of 4096] assms(2) show ?thesis
    by (simp add: machine_bus_acquire_def MACHINE_STALL_LIMIT_def jammed_not_running)
qed

text \<open>Witnesses: a tape that always asks, on a board whose arbiter has run for three and for four
  clocks since a request, with channel 1 of the first controller programmed to write to memory.\<close>

definition eager_tape :: "byte_board devices" where
  "eager_tape = \<lparr>dev_tape_request = \<lambda>_. True, dev_winchester_request = \<lambda>_. False,
     dev_floppy_request = \<lambda>_. False, dev_ethernet_request = \<lambda>d. (False, d), dev_tape_reading = \<lambda>_. True,
     dev_bus = \<lambda>_. byte_bus, dev_terminal_count = \<lambda>_ _ d. d, dev_advance = \<lambda>d. d\<rparr>"

definition tape_board :: "arbiter \<Rightarrow> byte_board board_bus" where
  "tape_board ar = \<lparr>bb_bus_ticks = 0, bb_refresh_interval = 0, bb_refresh_left = 0,
     bb_refresh_holding = False, bb_refresh_cycles = 0, bb_dma_possible = True,
     bb_interrupt_valid_until = 0,
     bb_controller = [tape_read, i8237_write 10 0x00 (i8237_write 11 0xC0 i8237_reset)],
     bb_arbiter = ar, bb_master = master_init 0 3 3, bb_dma_bus_requests = 0, bb_dma_bus_held = 0,
     bb_dma_transfers = 0, bb_transfer_unit = 0, bb_transfer_ticks = 0, bb_transfer_ticks_left = 0,
     bb_devices = (\<lambda>_. 0, [1, 2, 3])\<rparr>"

theorem late_request_blocks_locked_sequence_witness:
  "fst (machine_bus_acquire eager_tape RMC_NONE RMC_FIRST_READ (tape_board ((arbiter_tick ^^ 3) one_request))) = 4096 \<and>
    \<not> board_processor_may_run
      (snd (machine_bus_acquire eager_tape RMC_NONE RMC_FIRST_READ (tape_board ((arbiter_tick ^^ 3) one_request))))"
proof (rule late_request_blocks_locked_sequence)
  show "jammed (arbiter_set_processor_rmc_state RMC_FIRST_READ
      (bb_arbiter (tape_board ((arbiter_tick ^^ 3) one_request))))"
    by (simp add: tape_board_def one_request_runs one_request_after_def jammed_def ARBITER_PROCESSOR_def
        arbiter_set_processor_rmc_state_def arb_set_rmc_def)
  have "dma_command tape_read AND CMD_CONTROLLER_DISABLE = 0" "\<not> bit (dma_mask tape_read) 1"
    by code_simp+
  then show "tape_passes (tape_board ((arbiter_tick ^^ 3) one_request))"
    by (simp add: tape_passes_def tape_board_def i8237_write_def i8237_reset_def Let_def upd_channel_def)
qed (simp_all add: eager_tape_def)


end
