(* ===== verification/M68030_Alu.thy ===== *)
theory M68030_Alu
  imports Apollo_Prelude
begin

unbundle bit_operations_syntax

text \<open>
  The MC68030's integer arithmetic, \<^verbatim>\<open>src/core/cpu/m68030/ap_m68030_alu.{h,c}\<close>, and the
  conditions that read its flags, \<^verbatim>\<open>ap_m68030_cond.{h,c}\<close>. Operands are 32-bit words of which
  \<open>sz\<close> bytes count, results carry the five condition codes, and a condition code register is the
  16-bit word the code folds them into.

  The lemmas state the flags as integer arithmetic: carry as the unsigned sum or difference
  leaving the operand's range, overflow as the signed one leaving it, a shift as multiplication or
  division by a power of two, and the decimal operations as arithmetic modulo one hundred.
\<close>

section \<open>Results\<close>

datatype shift_type = SHIFT_ARITHMETIC | SHIFT_LOGICAL | SHIFT_ROTATE_EXTEND | SHIFT_ROTATE

record alu_result =
  alu_result :: u32
  alu_n :: bool
  alu_z :: bool
  alu_v :: bool
  alu_c :: bool
  alu_x :: bool
  alu_sets_x :: bool

definition zero_alu :: alu_result where
  "zero_alu = \<lparr>alu_result = 0, alu_n = False, alu_z = False, alu_v = False, alu_c = False,
     alu_x = False, alu_sets_x = False\<rparr>"

definition width_mask :: "nat \<Rightarrow> u32" where
  "width_mask sz = (if sz = 1 then 0xFF else if sz = 2 then 0xFFFF else 0xFFFFFFFF)"

definition sign_bit :: "nat \<Rightarrow> u32" where
  "sign_bit sz = (if sz = 1 then 0x80 else if sz = 2 then 0x8000 else 0x80000000)"

definition set_nz :: "nat \<Rightarrow> alu_result \<Rightarrow> alu_result" where
  "set_nz sz out = out\<lparr>alu_n := alu_result out AND sign_bit sz \<noteq> 0, alu_z := (alu_result out = 0)\<rparr>"

section \<open>Addition and subtraction\<close>

definition alu_add :: "u32 \<Rightarrow> u32 \<Rightarrow> nat \<Rightarrow> alu_result" where
  "alu_add destination source sz =
     (let m = width_mask sz; d = destination AND m; s = source AND m;
          wide = (ucast d + ucast s :: u64);
          out = set_nz sz (zero_alu\<lparr>alu_result := ucast (wide AND ucast m)\<rparr>);
          carry = (wide AND NOT (ucast m) \<noteq> 0)
      in out\<lparr>alu_c := carry,
             alu_v := (NOT (d XOR s) AND (d XOR alu_result out)) AND sign_bit sz \<noteq> 0,
             alu_x := carry, alu_sets_x := True\<rparr>)"

definition alu_sub :: "u32 \<Rightarrow> u32 \<Rightarrow> nat \<Rightarrow> alu_result" where
  "alu_sub destination source sz =
     (let m = width_mask sz; d = destination AND m; s = source AND m;
          out = set_nz sz (zero_alu\<lparr>alu_result := (d - s) AND m\<rparr>);
          borrow = (d < s)
      in out\<lparr>alu_c := borrow,
             alu_v := ((d XOR s) AND (d XOR alu_result out)) AND sign_bit sz \<noteq> 0,
             alu_x := borrow, alu_sets_x := True\<rparr>)"

definition alu_cmp :: "u32 \<Rightarrow> u32 \<Rightarrow> nat \<Rightarrow> alu_result" where
  "alu_cmp destination source sz = (alu_sub destination source sz)\<lparr>alu_sets_x := False\<rparr>"

definition alu_neg :: "u32 \<Rightarrow> nat \<Rightarrow> alu_result" where
  "alu_neg destination sz = alu_sub 0 destination sz"

definition alu_addx :: "u32 \<Rightarrow> u32 \<Rightarrow> nat \<Rightarrow> bool \<Rightarrow> bool \<Rightarrow> alu_result" where
  "alu_addx destination source sz x_in z_in =
     (let m = width_mask sz; d = destination AND m; s = source AND m;
          wide = (ucast d + ucast s + (if x_in then 1 else 0) :: u64);
          r = ucast (wide AND ucast m);
          carry = (wide AND NOT (ucast m) \<noteq> 0)
      in zero_alu\<lparr>alu_result := r, alu_n := r AND sign_bit sz \<noteq> 0, alu_z := z_in \<and> r = 0,
             alu_v := (NOT (d XOR s) AND (d XOR r)) AND sign_bit sz \<noteq> 0,
             alu_c := carry, alu_x := carry, alu_sets_x := True\<rparr>)"

definition alu_subx :: "u32 \<Rightarrow> u32 \<Rightarrow> nat \<Rightarrow> bool \<Rightarrow> bool \<Rightarrow> alu_result" where
  "alu_subx destination source sz x_in z_in =
     (let m = width_mask sz; d = destination AND m; s = source AND m;
          borrow = (ucast s + (if x_in then 1 else 0) :: u64);
          r = (d - ucast borrow) AND m;
          carry = (ucast d < borrow)
      in zero_alu\<lparr>alu_result := r, alu_n := r AND sign_bit sz \<noteq> 0, alu_z := z_in \<and> r = 0,
             alu_v := ((d XOR s) AND (d XOR r)) AND sign_bit sz \<noteq> 0,
             alu_c := carry, alu_x := carry, alu_sets_x := True\<rparr>)"

section \<open>Logic\<close>

definition logic :: "u32 \<Rightarrow> nat \<Rightarrow> alu_result" where
  "logic value sz =
     (set_nz sz (zero_alu\<lparr>alu_result := value AND width_mask sz\<rparr>))
       \<lparr>alu_v := False, alu_c := False, alu_sets_x := False\<rparr>"

definition alu_and :: "u32 \<Rightarrow> u32 \<Rightarrow> nat \<Rightarrow> alu_result" where
  "alu_and destination source sz = logic (destination AND source) sz"

definition alu_or :: "u32 \<Rightarrow> u32 \<Rightarrow> nat \<Rightarrow> alu_result" where
  "alu_or destination source sz = logic (destination OR source) sz"

definition alu_eor :: "u32 \<Rightarrow> u32 \<Rightarrow> nat \<Rightarrow> alu_result" where
  "alu_eor destination source sz = logic (destination XOR source) sz"

definition alu_not :: "u32 \<Rightarrow> nat \<Rightarrow> alu_result" where
  "alu_not destination sz = logic (NOT destination) sz"

definition alu_test :: "u32 \<Rightarrow> nat \<Rightarrow> alu_result" where
  "alu_test value sz = logic value sz"

section \<open>Shifts and rotates\<close>

text \<open>One pass of the loop: the value, the carry, the extend bit and whether the most significant
  bit has left its first value.\<close>

type_synonym shift_state = "u32 \<times> bool \<times> bool \<times> bool"

definition shift_left_step :: "shift_type \<Rightarrow> nat \<Rightarrow> bool \<Rightarrow> shift_state \<Rightarrow> shift_state" where
  "shift_left_step type sz original_sign st =
     (case st of (v, _, x, msb_changed) \<Rightarrow>
       let carry = (v AND sign_bit sz \<noteq> 0);
           v = push_bit 1 v AND width_mask sz;
           (v, x) = (case type of
               SHIFT_ROTATE \<Rightarrow> (v OR (if carry then 1 else 0), x)
             | SHIFT_ROTATE_EXTEND \<Rightarrow> (v OR (if x then 1 else 0), carry)
             | SHIFT_ARITHMETIC \<Rightarrow> (v, carry)
             | SHIFT_LOGICAL \<Rightarrow> (v, carry))
       in (v, carry, x, msb_changed \<or> (v AND sign_bit sz \<noteq> 0) \<noteq> original_sign))"

definition shift_right_step :: "shift_type \<Rightarrow> nat \<Rightarrow> shift_state \<Rightarrow> shift_state" where
  "shift_right_step type sz st =
     (case st of (v, _, x, msb_changed) \<Rightarrow>
       let carry = (v AND 1 \<noteq> 0);
           keep_sign = (v AND sign_bit sz \<noteq> 0);
           v = drop_bit 1 v AND width_mask sz;
           (v, x) = (case type of
               SHIFT_ARITHMETIC \<Rightarrow> (if keep_sign then v OR sign_bit sz else v, carry)
             | SHIFT_LOGICAL \<Rightarrow> (v, carry)
             | SHIFT_ROTATE \<Rightarrow> (v OR (if carry then sign_bit sz else 0), x)
             | SHIFT_ROTATE_EXTEND \<Rightarrow> (v OR (if x then sign_bit sz else 0), carry))
       in (v, carry, x, msb_changed))"

definition shift_loop :: "shift_type \<Rightarrow> bool \<Rightarrow> nat \<Rightarrow> bool \<Rightarrow> nat \<Rightarrow> shift_state \<Rightarrow> shift_state" where
  "shift_loop type left sz original_sign count st =
     ((if left then shift_left_step type sz original_sign else shift_right_step type sz) ^^ count) st"

definition alu_shift :: "shift_type \<Rightarrow> bool \<Rightarrow> u32 \<Rightarrow> nat \<Rightarrow> nat \<Rightarrow> bool \<Rightarrow> alu_result" where
  "alu_shift type left value count sz x_in =
     (let v = value AND width_mask sz in
      if count = 0
      then (set_nz sz (zero_alu\<lparr>alu_result := v\<rparr>))
             \<lparr>alu_v := False, alu_c := (if type = SHIFT_ROTATE_EXTEND then x_in else False)\<rparr>
      else
        let original_sign = (v AND sign_bit sz \<noteq> 0);
            (v, carry, x, msb_changed) =
              shift_loop type left sz original_sign count (v, False, x_in, False);
            out = (set_nz sz (zero_alu\<lparr>alu_result := v\<rparr>))
                    \<lparr>alu_c := carry,
                     alu_v := (if type = SHIFT_ARITHMETIC \<and> left then msb_changed else False)\<rparr>
        in if type \<noteq> SHIFT_ROTATE then out\<lparr>alu_sets_x := True, alu_x := x\<rparr> else out)"

section \<open>Decimal arithmetic\<close>

definition alu_abcd :: "u32 \<Rightarrow> u32 \<Rightarrow> bool \<Rightarrow> bool \<Rightarrow> alu_result" where
  "alu_abcd destination source x_in z_in =
     (let d = destination AND 0xFF; s = source AND 0xFF; x = (if x_in then 1 else 0);
          low = (d AND 0x0F) + (s AND 0x0F) + x;
          high = (drop_bit 4 d AND 0x0F) + (drop_bit 4 s AND 0x0F);
          (low, high) = (if low > 9 then (low - 10, high + 1) else (low, high));
          carry = (high > 9);
          high = (if carry then high - 10 else high);
          r = push_bit 4 (high AND 0x0F) OR (low AND 0x0F);
          uncorrected = (d + s + x) AND 0xFF
      in zero_alu\<lparr>alu_result := r, alu_n := r AND 0x80 \<noteq> 0, alu_z := z_in \<and> r = 0,
           alu_v := (NOT uncorrected AND r) AND 0x80 \<noteq> 0, alu_c := carry, alu_x := carry,
           alu_sets_x := True\<rparr>)"

text \<open>The code subtracts the digits as signed integers.\<close>

definition alu_sbcd :: "u32 \<Rightarrow> u32 \<Rightarrow> bool \<Rightarrow> bool \<Rightarrow> alu_result" where
  "alu_sbcd destination source x_in z_in =
     (let d = uint (destination AND 0xFF); s = uint (source AND 0xFF); x = (if x_in then 1 else 0);
          low = (d AND 0x0F) - (s AND 0x0F) - x;
          high = (drop_bit 4 d AND 0x0F) - (drop_bit 4 s AND 0x0F);
          (low, high) = (if low < 0 then (low + 10, high - 1) else (low, high));
          borrow = (high < 0);
          high = (if borrow then high + 10 else high);
          r = word_of_int (push_bit 4 (high AND 0x0F) OR (low AND 0x0F)) :: u32;
          uncorrected = word_of_int ((d - s - x) AND 0xFF) :: u32
      in zero_alu\<lparr>alu_result := r, alu_n := r AND 0x80 \<noteq> 0, alu_z := z_in \<and> r = 0,
           alu_v := (uncorrected AND NOT r) AND 0x80 \<noteq> 0, alu_c := borrow, alu_x := borrow,
           alu_sets_x := True\<rparr>)"

section \<open>The condition code register\<close>

abbreviation (input) SR_C_BIT :: nat where "SR_C_BIT \<equiv> 0"
abbreviation (input) SR_V_BIT :: nat where "SR_V_BIT \<equiv> 1"
abbreviation (input) SR_Z_BIT :: nat where "SR_Z_BIT \<equiv> 2"
abbreviation (input) SR_N_BIT :: nat where "SR_N_BIT \<equiv> 3"
abbreviation (input) SR_X_BIT :: nat where "SR_X_BIT \<equiv> 4"

definition alu_apply :: "u16 \<Rightarrow> alu_result \<Rightarrow> u16" where
  "alu_apply ccr r =
     (if (if alu_sets_x r then alu_x r else testbit ccr SR_X_BIT) then bit_of SR_X_BIT else 0) OR
     (if alu_n r then bit_of SR_N_BIT else 0) OR
     (if alu_z r then bit_of SR_Z_BIT else 0) OR
     (if alu_v r then bit_of SR_V_BIT else 0) OR
     (if alu_c r then bit_of SR_C_BIT else 0)"

datatype cond = COND_T | COND_F | COND_HI | COND_LS | COND_CC | COND_CS | COND_NE | COND_EQ
  | COND_VC | COND_VS | COND_PL | COND_MI | COND_GE | COND_LT | COND_GT | COND_LE

definition condition :: "cond \<Rightarrow> u16 \<Rightarrow> bool" where
  "condition cc ccr =
     (let n = testbit ccr SR_N_BIT; z = testbit ccr SR_Z_BIT;
          v = testbit ccr SR_V_BIT; c = testbit ccr SR_C_BIT
      in case cc of
           COND_T \<Rightarrow> True | COND_F \<Rightarrow> False
         | COND_HI \<Rightarrow> \<not> c \<and> \<not> z | COND_LS \<Rightarrow> c \<or> z
         | COND_CC \<Rightarrow> \<not> c | COND_CS \<Rightarrow> c
         | COND_NE \<Rightarrow> \<not> z | COND_EQ \<Rightarrow> z
         | COND_VC \<Rightarrow> \<not> v | COND_VS \<Rightarrow> v
         | COND_PL \<Rightarrow> \<not> n | COND_MI \<Rightarrow> n
         | COND_GE \<Rightarrow> n = v | COND_LT \<Rightarrow> n \<noteq> v
         | COND_GT \<Rightarrow> n = v \<and> \<not> z | COND_LE \<Rightarrow> z \<or> n \<noteq> v)"

definition condition_available_to_bcc :: "cond \<Rightarrow> bool" where
  "condition_available_to_bcc cc \<longleftrightarrow> cc \<noteq> COND_T \<and> cc \<noteq> COND_F"

section \<open>Operands as integers\<close>

definition valid_size :: "nat \<Rightarrow> bool" where
  "valid_size sz \<longleftrightarrow> sz \<in> {1, 2, 4}"

definition unsigned_operand :: "nat \<Rightarrow> u32 \<Rightarrow> int" where
  "unsigned_operand sz v = uint v mod 2 ^ (8 * sz)"

definition signed_operand :: "nat \<Rightarrow> u32 \<Rightarrow> int" where
  "signed_operand sz v =
     (let u = unsigned_operand sz v in if 2 * u < 2 ^ (8 * sz) then u else u - 2 ^ (8 * sz))"

definition fits_signed :: "nat \<Rightarrow> int \<Rightarrow> bool" where
  "fits_signed sz i \<longleftrightarrow> - (2 ^ (8 * sz - 1)) \<le> i \<and> i < 2 ^ (8 * sz - 1)"

lemma valid_sizeE:
  assumes "valid_size sz"
  obtains "sz = 1" | "sz = 2" | "sz = 4"
  using assms by (auto simp: valid_size_def)

lemma valid_width: "valid_size sz \<Longrightarrow> 8 * sz \<le> 32 \<and> 8 \<le> 8 * sz"
  by (auto simp: valid_size_def)

lemma width_mask_eq: "valid_size sz \<Longrightarrow> width_mask sz = mask (8 * sz)"
  by (erule valid_sizeE) (simp_all add: width_mask_def mask_eq_exp_minus_1)

lemma sign_bit_eq: "valid_size sz \<Longrightarrow> sign_bit sz = bit_of (8 * sz - 1)"
  by (erule valid_sizeE) (simp_all add: sign_bit_def bit_of_def)

lemma ucast_mask: "n \<le> LENGTH('a) \<Longrightarrow> n \<le> LENGTH('b) \<Longrightarrow> (ucast (mask n :: 'a::len word) :: 'b::len word) = mask n"
  by (rule bit_word_eqI) (auto simp: bit_ucast_iff bit_mask_iff)

text \<open>An operand cut to its width, and its most significant bit.\<close>

lemma uint_take_bit: "uint (take_bit n (v::'a::len word)) = uint v mod 2 ^ n"
  by (subst unsigned_take_bit_eq) (simp add: take_bit_eq_mod)

lemma bit_top_iff:
  assumes n: "0 < n" and v: "uint (v::'a::len word) < 2 ^ n"
  shows "bit v (n - 1) \<longleftrightarrow> 2 ^ (n - 1) \<le> uint v"
proof -
  have p: "(2::int) ^ n = 2 * 2 ^ (n - 1)" using n by (cases n) simp_all
  have "bit v (n - 1) \<longleftrightarrow> odd (uint v div 2 ^ (n - 1))"
  proof -
    have "bit v (n - 1) \<longleftrightarrow> bit (uint v) (n - 1)"
      using bit_imp_le_length [of v "n - 1"] by (auto simp: bit_uint_iff)
    then show ?thesis by (simp only: bit_iff_odd)
  qed
  moreover have "uint v div 2 ^ (n - 1) = (if 2 ^ (n - 1) \<le> uint v then 1 else 0)"
    using v p by (auto simp: div_pos_pos_trivial intro!: int_div_pos_eq [of _ _ _ "uint v - 2 ^ (n - 1)"])
  ultimately show ?thesis by simp
qed

lemma signed_by_top:
  assumes sz: "valid_size sz" and v: "uint v < 2 ^ (8 * sz)"
  shows "signed_operand sz v = (if bit v (8 * sz - 1) then uint v - 2 ^ (8 * sz) else uint v)"
proof -
  have p: "(2::int) ^ (8 * sz) = 2 * 2 ^ (8 * sz - 1)" using sz by (cases sz) (auto simp: valid_size_def)
  have "bit v (8 * sz - 1) \<longleftrightarrow> 2 ^ (8 * sz - 1) \<le> uint v"
    by (rule bit_top_iff) (use sz v in \<open>auto simp: valid_size_def\<close>)
  then show ?thesis using v p by (auto simp: signed_operand_def unsigned_operand_def Let_def)
qed

lemma unsigned_masked:
  assumes "valid_size sz"
  shows "uint (v AND width_mask sz) = unsigned_operand sz v"
  using assms by (simp add: width_mask_eq unsigned_operand_def uint_take_bit flip: take_bit_eq_mask)

lemma operand_masked:
  assumes "valid_size sz"
  shows "unsigned_operand sz (v AND width_mask sz) = unsigned_operand sz v"
    and "signed_operand sz (v AND width_mask sz) = signed_operand sz v"
  using unsigned_masked [OF assms, of v] by (simp_all add: signed_operand_def unsigned_operand_def Let_def)

lemma masked_bounds:
  assumes "valid_size sz"
  shows "0 \<le> uint (v AND width_mask sz)" "uint (v AND width_mask sz) < 2 ^ (8 * sz)"
  by (simp_all add: unsigned_masked [OF assms] unsigned_operand_def)

text \<open>The overflow formulas look at the three most significant bits.\<close>

lemma and_sign_bit: "valid_size sz \<Longrightarrow> v AND sign_bit sz \<noteq> 0 \<longleftrightarrow> bit v (8 * sz - 1)"
  by (simp add: sign_bit_eq)

lemma overflow_bits:
  assumes sz: "valid_size sz"
  shows "(NOT (d XOR s) AND (d XOR r)) AND sign_bit sz \<noteq> 0 \<longleftrightarrow>
      bit d (8 * sz - 1) = bit s (8 * sz - 1) \<and> bit d (8 * sz - 1) \<noteq> bit r (8 * sz - 1)"
    and "((d XOR s) AND (d XOR r)) AND sign_bit sz \<noteq> 0 \<longleftrightarrow>
      bit d (8 * sz - 1) \<noteq> bit s (8 * sz - 1) \<and> bit d (8 * sz - 1) \<noteq> bit r (8 * sz - 1)"
proof -
  have "8 * sz - 1 < LENGTH(32)" using sz by (auto simp: valid_size_def)
  then show "(NOT (d XOR s) AND (d XOR r)) AND sign_bit sz \<noteq> 0 \<longleftrightarrow>
      bit d (8 * sz - 1) = bit s (8 * sz - 1) \<and> bit d (8 * sz - 1) \<noteq> bit r (8 * sz - 1)"
    and "((d XOR s) AND (d XOR r)) AND sign_bit sz \<noteq> 0 \<longleftrightarrow>
      bit d (8 * sz - 1) \<noteq> bit s (8 * sz - 1) \<and> bit d (8 * sz - 1) \<noteq> bit r (8 * sz - 1)"
    by (auto simp: and_sign_bit [OF sz] bit_and_iff bit_not_iff bit_xor_iff)
qed

text \<open>Sums and differences of operands, seen through their most significant bits.\<close>

lemma signed_sum:
  fixes d s r H :: int
  assumes "0 \<le> d" "d < 2 * H" "0 \<le> s" "s < 2 * H" "x = 0 \<or> x = 1"
    and "r = (d + s + x) mod (2 * H)"
  shows "(let sd = if H \<le> d then d - 2 * H else d; ss = if H \<le> s then s - 2 * H else s;
           sr = if H \<le> r then r - 2 * H else r
      in ((H \<le> d) = (H \<le> s) \<and> (H \<le> d) \<noteq> (H \<le> r)) = (\<not> (- H \<le> sd + ss + x \<and> sd + ss + x < H)))"
proof -
  have "r = (if d + s + x < 2 * H then d + s + x else d + s + x - 2 * H)"
  proof (cases "d + s + x < 2 * H")
    case False
    have "(d + s + x) mod (2 * H) = (d + s + x - 2 * H) mod (2 * H)" by simp
    also have "\<dots> = d + s + x - 2 * H"
      by (rule mod_pos_pos_trivial) (use assms False in auto)
    finally show ?thesis using assms(6) False by simp
  qed (use assms in \<open>auto simp: mod_pos_pos_trivial\<close>)
  then show ?thesis using assms(1-5) by (auto simp: Let_def)
qed

lemma signed_difference:
  fixes d s r H :: int
  assumes "0 \<le> d" "d < 2 * H" "0 \<le> s" "s < 2 * H" "x = 0 \<or> x = 1"
    and "r = (d - s - x) mod (2 * H)"
  shows "(let sd = if H \<le> d then d - 2 * H else d; ss = if H \<le> s then s - 2 * H else s
      in ((H \<le> d) \<noteq> (H \<le> s) \<and> (H \<le> d) \<noteq> (H \<le> r)) = (\<not> (- H \<le> sd - ss - x \<and> sd - ss - x < H)))"
proof -
  have "r = (if 0 \<le> d - s - x then d - s - x else d - s - x + 2 * H)"
  proof (cases "0 \<le> d - s - x")
    case False
    have "(d - s - x) mod (2 * H) = (d - s - x + 2 * H) mod (2 * H)" by simp
    also have "\<dots> = d - s - x + 2 * H"
      by (rule mod_pos_pos_trivial) (use assms False in auto)
    finally show ?thesis using assms(6) False by simp
  qed (use assms in \<open>auto simp: mod_pos_pos_trivial\<close>)
  then show ?thesis using assms(1-5) by (auto simp: Let_def)
qed

section \<open>Addition and subtraction as integer arithmetic\<close>

lemma take_bit_zero_iff: "w AND NOT (mask n) = 0 \<longleftrightarrow> uint (w::'a::len word) < 2 ^ n"
proof -
  have "w AND NOT (mask n) = 0 \<longleftrightarrow> take_bit n w = w"
    by (auto simp: bit_eq_iff bit_and_iff bit_not_iff bit_mask_iff bit_take_bit_iff dest: bit_imp_le_length)
  also have "\<dots> \<longleftrightarrow> uint w mod 2 ^ n = uint w"
    by (simp add: word_uint_eq_iff uint_take_bit)
  also have "\<dots> \<longleftrightarrow> uint w < 2 ^ n"
    using uint_ge_0 [of w] by (metis mod_pos_pos_trivial pos_mod_bound zero_less_numeral zero_less_power)
  finally show ?thesis .
qed

lemma uint_ucast_up: "uint (ucast (v::u32) :: u64) = uint v"
  by (simp add: unsigned_ucast_eq take_bit_int_eq_self_iff order.strict_trans [OF uint_lt2p])

lemma wide_sum:
  fixes wide :: u64
  assumes sz: "valid_size sz"
    and wide: "wide = ucast (d AND width_mask sz) + ucast (s AND width_mask sz) + (if x then 1 else 0)"
  shows "uint (ucast (wide AND ucast (width_mask sz)) :: u32) =
      (unsigned_operand sz d + unsigned_operand sz s + of_bool x) mod 2 ^ (8 * sz)"
    and "wide AND NOT (ucast (width_mask sz)) \<noteq> 0 \<longleftrightarrow>
      2 ^ (8 * sz) \<le> unsigned_operand sz d + unsigned_operand sz s + of_bool x"
proof -
  have w: "8 * sz \<le> 32" using sz by (auto simp: valid_size_def)
  have m: "(ucast (width_mask sz) :: u64) = mask (8 * sz)"
    using sz w by (simp add: width_mask_eq ucast_mask)
  have "(2::int) ^ (8 * sz) \<le> 2 ^ 32" using w by (intro power_increasing) auto
  then have small: "uint (d AND width_mask sz) < 2 ^ 32" "uint (s AND width_mask sz) < 2 ^ 32"
    using masked_bounds [OF sz, of d] masked_bounds [OF sz, of s] by auto
  have W: "uint wide = unsigned_operand sz d + unsigned_operand sz s + of_bool x"
    using small unfolding wide
    by (simp add: uint_word_ariths uint_ucast_up unsigned_masked [OF sz, symmetric] mod_pos_pos_trivial)
  show "wide AND NOT (ucast (width_mask sz)) \<noteq> 0 \<longleftrightarrow>
      2 ^ (8 * sz) \<le> unsigned_operand sz d + unsigned_operand sz s + of_bool x"
    unfolding m take_bit_zero_iff W by auto
  have "wide AND ucast (width_mask sz) = take_bit (8 * sz) wide" by (simp add: m take_bit_eq_mask)
  then have "uint (ucast (wide AND ucast (width_mask sz)) :: u32) = take_bit 32 (uint wide mod 2 ^ (8 * sz))"
    by (simp add: unsigned_ucast_eq uint_take_bit)
  also have "\<dots> = uint wide mod 2 ^ (8 * sz)"
    using \<open>(2::int) ^ (8 * sz) \<le> 2 ^ 32\<close>
    by (intro take_bit_int_eq_self) (auto intro: order.strict_trans2 [OF pos_mod_bound])
  finally show "uint (ucast (wide AND ucast (width_mask sz)) :: u32) =
      (unsigned_operand sz d + unsigned_operand sz s + of_bool x) mod 2 ^ (8 * sz)"
    by (simp add: W)
qed

lemma narrow_difference:
  fixes borrow :: u64
  assumes sz: "valid_size sz" and borrow: "borrow = ucast (s AND width_mask sz) + (if x then 1 else 0)"
  shows "uint (((d AND width_mask sz) - ucast borrow) AND width_mask sz) =
      (unsigned_operand sz d - unsigned_operand sz s - of_bool x) mod 2 ^ (8 * sz)"
    and "ucast (d AND width_mask sz) < borrow \<longleftrightarrow>
      unsigned_operand sz d < unsigned_operand sz s + of_bool x"
proof -
  have w: "8 * sz \<le> 32" using sz by (auto simp: valid_size_def)
  have "(2::int) ^ (8 * sz) \<le> 2 ^ 32" using w by (intro power_increasing) auto
  then have small: "uint (d AND width_mask sz) < 2 ^ 32" "uint (s AND width_mask sz) < 2 ^ 32"
    using masked_bounds [OF sz, of d] masked_bounds [OF sz, of s] by auto
  have B: "uint borrow = unsigned_operand sz s + of_bool x"
    using small unfolding borrow
    by (simp add: uint_word_ariths uint_ucast_up unsigned_masked [OF sz, symmetric] mod_pos_pos_trivial)
  show "ucast (d AND width_mask sz) < borrow \<longleftrightarrow>
      unsigned_operand sz d < unsigned_operand sz s + of_bool x"
    by (simp add: word_less_def uint_ucast_up unsigned_masked [OF sz] B)
  have low: "uint (ucast borrow :: u32) = uint borrow mod 2 ^ 32"
    by (simp add: unsigned_ucast_eq take_bit_eq_mod)
  have "(2::int) ^ (8 * sz) dvd 2 ^ 32" using w by (rule le_imp_power_dvd)
  then have "uint (((d AND width_mask sz) - ucast borrow) AND width_mask sz) =
      (uint (d AND width_mask sz) - uint borrow mod 2 ^ 32) mod 2 ^ (8 * sz)"
    by (simp add: unsigned_masked [OF sz] unsigned_operand_def uint_word_ariths mod_mod_cancel low)
  also have "\<dots> = (uint (d AND width_mask sz) - uint borrow mod 2 ^ 32 mod 2 ^ (8 * sz)) mod 2 ^ (8 * sz)"
    by (simp only: mod_diff_right_eq)
  also have "\<dots> = (uint (d AND width_mask sz) - uint borrow) mod 2 ^ (8 * sz)"
    by (simp only: mod_mod_cancel [OF \<open>(2::int) ^ (8 * sz) dvd 2 ^ 32\<close>] mod_diff_right_eq)
  finally show "uint (((d AND width_mask sz) - ucast borrow) AND width_mask sz) =
      (unsigned_operand sz d - unsigned_operand sz s - of_bool x) mod 2 ^ (8 * sz)"
    by (simp add: unsigned_masked [OF sz] B algebra_simps)
qed

lemma half_range: "valid_size sz \<Longrightarrow> (2::int) ^ (8 * sz) = 2 * 2 ^ (8 * sz - 1)"
  by (cases sz) (auto simp: valid_size_def)

lemma top_bit:
  "valid_size sz \<Longrightarrow> uint (v::u32) < 2 ^ (8 * sz) \<Longrightarrow> bit v (8 * sz - 1) \<longleftrightarrow> 2 ^ (8 * sz - 1) \<le> uint v"
  by (rule bit_top_iff) (auto simp: valid_size_def)

lemma signed_masked:
  assumes sz: "valid_size sz"
  shows "signed_operand sz v =
    (if 2 ^ (8 * sz - 1) \<le> uint (v AND width_mask sz) then uint (v AND width_mask sz) - 2 * 2 ^ (8 * sz - 1)
     else uint (v AND width_mask sz))"
  using signed_by_top [OF sz masked_bounds(2) [OF sz], of v] top_bit [OF sz masked_bounds(2) [OF sz], of v]
  by (simp add: operand_masked [OF sz] half_range [OF sz])

lemma sign_flag:
  "valid_size sz \<Longrightarrow> uint r < 2 ^ (8 * sz) \<Longrightarrow> (r AND sign_bit sz \<noteq> 0) = (signed_operand sz r < 0)"
  by (simp add: and_sign_bit signed_by_top)

lemma sum_overflow:
  assumes sz: "valid_size sz"
    and r: "uint r = (unsigned_operand sz d + unsigned_operand sz s + of_bool x) mod 2 ^ (8 * sz)"
  shows "((NOT ((d AND width_mask sz) XOR (s AND width_mask sz)) AND ((d AND width_mask sz) XOR r))
      AND sign_bit sz \<noteq> 0) =
    (\<not> fits_signed sz (signed_operand sz d + signed_operand sz s + of_bool x))"
proof -
  let ?m = "width_mask sz"
  note D = masked_bounds [OF sz, of d] and S = masked_bounds [OF sz, of s]
  have rm: "uint r < 2 ^ (8 * sz)" using r by simp
  show ?thesis
    unfolding overflow_bits [OF sz] top_bit [OF sz D(2)] top_bit [OF sz S(2)] top_bit [OF sz rm]
      fits_signed_def signed_masked [OF sz, of d] signed_masked [OF sz, of s]
    using signed_sum [of "uint (d AND ?m)" "2 ^ (8 * sz - 1)" "uint (s AND ?m)" "of_bool x" "uint r"] D S r
    by (simp add: Let_def half_range [OF sz] unsigned_masked [OF sz])
qed

lemma difference_overflow:
  assumes sz: "valid_size sz"
    and r: "uint r = (unsigned_operand sz d - unsigned_operand sz s - of_bool x) mod 2 ^ (8 * sz)"
  shows "((((d AND width_mask sz) XOR (s AND width_mask sz)) AND ((d AND width_mask sz) XOR r))
      AND sign_bit sz \<noteq> 0) =
    (\<not> fits_signed sz (signed_operand sz d - signed_operand sz s - of_bool x))"
proof -
  let ?m = "width_mask sz"
  note D = masked_bounds [OF sz, of d] and S = masked_bounds [OF sz, of s]
  have rm: "uint r < 2 ^ (8 * sz)" using r by simp
  show ?thesis
    unfolding overflow_bits [OF sz] top_bit [OF sz D(2)] top_bit [OF sz S(2)] top_bit [OF sz rm]
      fits_signed_def signed_masked [OF sz, of d] signed_masked [OF sz, of s]
    using signed_difference [of "uint (d AND ?m)" "2 ^ (8 * sz - 1)" "uint (s AND ?m)" "of_bool x" "uint r"] D S r
    by (simp add: Let_def half_range [OF sz] unsigned_masked [OF sz])
qed

text \<open>The flags a result must have, given the exact sum or difference of the operands.\<close>

definition arithmetic_flags :: "nat \<Rightarrow> int \<Rightarrow> int \<Rightarrow> bool \<Rightarrow> alu_result \<Rightarrow> bool" where
  "arithmetic_flags sz exact signed_exact carry r \<longleftrightarrow>
     uint (alu_result r) = exact mod 2 ^ (8 * sz) \<and>
     alu_n r = (signed_operand sz (alu_result r) < 0) \<and>
     alu_v r = (\<not> fits_signed sz signed_exact) \<and> alu_c r = carry \<and> alu_x r = carry"

lemma alu_addx_flags:
  assumes sz: "valid_size sz"
  shows "arithmetic_flags sz (unsigned_operand sz d + unsigned_operand sz s + of_bool x)
      (signed_operand sz d + signed_operand sz s + of_bool x)
      (2 ^ (8 * sz) \<le> unsigned_operand sz d + unsigned_operand sz s + of_bool x)
      (alu_addx d s sz x z)"
    and "alu_z (alu_addx d s sz x z) = (z \<and> alu_result (alu_addx d s sz x z) = 0)"
    and "alu_sets_x (alu_addx d s sz x z)"
proof -
  let ?m = "width_mask sz"
  define wide :: u64 where "wide = ucast (d AND ?m) + ucast (s AND ?m) + (if x then 1 else 0)"
  define r :: u32 where "r = ucast (wide AND ucast ?m)"
  note sums = wide_sum [OF sz wide_def]
  have r: "uint r = (unsigned_operand sz d + unsigned_operand sz s + of_bool x) mod 2 ^ (8 * sz)"
    using sums(1) by (simp add: r_def)
  have n: "(r AND sign_bit sz \<noteq> 0) = (signed_operand sz r < 0)" by (rule sign_flag [OF sz]) (simp add: r)
  show "arithmetic_flags sz (unsigned_operand sz d + unsigned_operand sz s + of_bool x)
      (signed_operand sz d + signed_operand sz s + of_bool x)
      (2 ^ (8 * sz) \<le> unsigned_operand sz d + unsigned_operand sz s + of_bool x)
      (alu_addx d s sz x z)"
    unfolding arithmetic_flags_def
    using sums sum_overflow [OF sz r] n
    by (simp add: alu_addx_def Let_def wide_def [symmetric] r_def [symmetric] zero_alu_def)
qed (simp_all add: alu_addx_def Let_def zero_alu_def)

lemma alu_subx_flags:
  assumes sz: "valid_size sz"
  shows "arithmetic_flags sz (unsigned_operand sz d - unsigned_operand sz s - of_bool x)
      (signed_operand sz d - signed_operand sz s - of_bool x)
      (unsigned_operand sz d < unsigned_operand sz s + of_bool x)
      (alu_subx d s sz x z)"
    and "alu_z (alu_subx d s sz x z) = (z \<and> alu_result (alu_subx d s sz x z) = 0)"
    and "alu_sets_x (alu_subx d s sz x z)"
proof -
  let ?m = "width_mask sz"
  define borrow :: u64 where "borrow = ucast (s AND ?m) + (if x then 1 else 0)"
  define r :: u32 where "r = ((d AND ?m) - ucast borrow) AND ?m"
  note diff = narrow_difference [OF sz borrow_def, of d]
  have r: "uint r = (unsigned_operand sz d - unsigned_operand sz s - of_bool x) mod 2 ^ (8 * sz)"
    using diff(1) by (simp add: r_def)
  have n: "(r AND sign_bit sz \<noteq> 0) = (signed_operand sz r < 0)" by (rule sign_flag [OF sz]) (simp add: r)
  show "arithmetic_flags sz (unsigned_operand sz d - unsigned_operand sz s - of_bool x)
      (signed_operand sz d - signed_operand sz s - of_bool x)
      (unsigned_operand sz d < unsigned_operand sz s + of_bool x)
      (alu_subx d s sz x z)"
    unfolding arithmetic_flags_def
    using diff difference_overflow [OF sz r] n
    by (simp add: alu_subx_def Let_def borrow_def [symmetric] r_def [symmetric] zero_alu_def)
qed (simp_all add: alu_subx_def Let_def zero_alu_def)

text \<open>The plain operations are the extended ones without an incoming extend bit.\<close>

lemma alu_add_addx: "alu_add d s sz = alu_addx d s sz False True"
  by (simp add: alu_add_def alu_addx_def set_nz_def Let_def zero_alu_def)

lemma ucast_up_down: "ucast (ucast (v::u32) :: u64) = v"
  by (rule bit_word_eqI) (simp add: bit_ucast_iff)

lemma alu_sub_subx: "alu_sub d s sz = alu_subx d s sz False True"
  by (simp add: alu_sub_def alu_subx_def set_nz_def Let_def zero_alu_def word_less_def uint_ucast_up
      ucast_up_down)

lemma bit_alu_apply:
  "bit (alu_apply ccr r) 0 = alu_c r" "bit (alu_apply ccr r) (Suc 0) = alu_v r"
  "bit (alu_apply ccr r) 2 = alu_z r" "bit (alu_apply ccr r) 3 = alu_n r"
  "bit (alu_apply ccr r) 4 = (if alu_sets_x r then alu_x r else bit ccr 4)"
  by (auto simp: alu_apply_def bit_or_iff)

lemma signed_diff_zero:
  assumes sz: "valid_size sz"
  shows "signed_operand sz d = signed_operand sz s \<longleftrightarrow> unsigned_operand sz d = unsigned_operand sz s"
proof
  assume eq: "signed_operand sz d = signed_operand sz s"
  have "signed_operand sz v mod 2 ^ (8 * sz) = unsigned_operand sz v" for v
    by (simp add: signed_operand_def unsigned_operand_def Let_def)
  from this [of d] this [of s] eq show "unsigned_operand sz d = unsigned_operand sz s" by simp
qed (simp add: signed_operand_def)

lemma signed_range:
  assumes sz: "valid_size sz"
  shows "- (2 ^ (8 * sz - 1)) \<le> signed_operand sz v" "signed_operand sz v < 2 ^ (8 * sz - 1)"
proof -
  have "0 \<le> (2::int) ^ (8 * sz - 1)" by simp
  with masked_bounds [OF sz, of v] half_range [OF sz]
  show "- (2 ^ (8 * sz - 1)) \<le> signed_operand sz v" "signed_operand sz v < 2 ^ (8 * sz - 1)"
    unfolding signed_masked [OF sz] by (simp_all only: split: if_split) linarith+
qed

text \<open>The comparison a conditional branch after CMP takes, signed or unsigned as its name says.\<close>

definition compares :: "nat \<Rightarrow> cond \<Rightarrow> u32 \<Rightarrow> u32 \<Rightarrow> bool" where
  "compares sz cc d s =
     (let ud = unsigned_operand sz d; us = unsigned_operand sz s;
          sd = signed_operand sz d; ss = signed_operand sz s
      in case cc of COND_T \<Rightarrow> True | COND_F \<Rightarrow> False
         | COND_HI \<Rightarrow> us < ud | COND_LS \<Rightarrow> ud \<le> us | COND_CC \<Rightarrow> us \<le> ud | COND_CS \<Rightarrow> ud < us
         | COND_NE \<Rightarrow> ud \<noteq> us | COND_EQ \<Rightarrow> ud = us
         | COND_VC \<Rightarrow> fits_signed sz (sd - ss) | COND_VS \<Rightarrow> \<not> fits_signed sz (sd - ss)
         | COND_PL \<Rightarrow> \<not> bit (d - s) (8 * sz - 1) | COND_MI \<Rightarrow> bit (d - s) (8 * sz - 1)
         | COND_GE \<Rightarrow> ss \<le> sd | COND_LT \<Rightarrow> sd < ss | COND_GT \<Rightarrow> ss < sd | COND_LE \<Rightarrow> sd \<le> ss)"

lemma negative_iff:
  assumes sz: "valid_size sz" and v: "uint v < 2 ^ (8 * sz)"
  shows "signed_operand sz v < 0 \<longleftrightarrow> 2 ^ (8 * sz - 1) \<le> uint v"
  using v unfolding signed_by_top [OF sz v] top_bit [OF sz v] by simp

lemma difference_mod:
  fixes e N :: int
  assumes "- N < e" "e < N"
  shows "e mod N = (if 0 \<le> e then e else e + N)"
proof (cases "0 \<le> e")
  case False
  have "e mod N = (e + N) mod N" by simp
  also have "\<dots> = e + N" by (rule mod_pos_pos_trivial) (use assms False in auto)
  finally show ?thesis using False by simp
qed (use assms in \<open>simp add: mod_pos_pos_trivial\<close>)

lemma cmp_flags:
  assumes sz: "valid_size sz"
    and r_def: "r = alu_cmp d s sz"
  shows "alu_c r = (unsigned_operand sz d < unsigned_operand sz s)"
    and "alu_z r = (unsigned_operand sz d = unsigned_operand sz s)"
    and "alu_v r = (\<not> fits_signed sz (signed_operand sz d - signed_operand sz s))"
    and "(alu_n r \<noteq> alu_v r) = (signed_operand sz d < signed_operand sz s)"
proof -
  note sub = alu_subx_flags [OF sz, of d s False True, unfolded arithmetic_flags_def]
  have r: "alu_n r = alu_n (alu_sub d s sz)" "alu_z r = alu_z (alu_sub d s sz)"
    "alu_v r = alu_v (alu_sub d s sz)" "alu_c r = alu_c (alu_sub d s sz)"
    by (simp_all add: r_def alu_cmp_def)
  show "alu_c r = (unsigned_operand sz d < unsigned_operand sz s)"
    and V: "alu_v r = (\<not> fits_signed sz (signed_operand sz d - signed_operand sz s))"
    using sub by (simp_all add: r alu_sub_subx)
  have "(unsigned_operand sz d - unsigned_operand sz s) mod 2 ^ (8 * sz) = 0 \<longleftrightarrow>
      unsigned_operand sz d mod 2 ^ (8 * sz) = unsigned_operand sz s mod 2 ^ (8 * sz)"
    unfolding mod_eq_dvd_iff dvd_eq_mod_eq_0 by (rule refl)
  also have "\<dots> \<longleftrightarrow> unsigned_operand sz d = unsigned_operand sz s"
    by (simp add: unsigned_operand_def)
  finally have "(unsigned_operand sz d - unsigned_operand sz s) mod 2 ^ (8 * sz) = 0 \<longleftrightarrow>
      unsigned_operand sz d = unsigned_operand sz s" .
  then show "alu_z r = (unsigned_operand sz d = unsigned_operand sz s)"
    using sub by (simp add: r alu_sub_subx word_uint_eq_iff)
  let ?e = "signed_operand sz d - signed_operand sz s"
  have "signed_operand sz v mod 2 ^ (8 * sz) = unsigned_operand sz v mod 2 ^ (8 * sz)" for v
    by (simp add: signed_operand_def unsigned_operand_def Let_def)
  then have R: "uint (alu_result (alu_subx d s sz False True)) = ?e mod 2 ^ (8 * sz)"
    using sub mod_diff_cong [of "signed_operand sz d" "2 ^ (8 * sz)" "unsigned_operand sz d"
        "signed_operand sz s" "unsigned_operand sz s"] by simp
  have "alu_n r = (signed_operand sz (alu_result (alu_subx d s sz False True)) < 0)"
    using sub by (simp add: r alu_sub_subx)
  also have "\<dots> = (2 ^ (8 * sz - 1) \<le> uint (alu_result (alu_subx d s sz False True)))"
    by (rule negative_iff [OF sz]) (simp add: R)
  finally have N: "alu_n r = (2 ^ (8 * sz - 1) \<le> ?e mod 2 ^ (8 * sz))" by (simp only: R)
  have "?e mod 2 ^ (8 * sz) = (if 0 \<le> ?e then ?e else ?e + 2 ^ (8 * sz))"
    using signed_range [OF sz, of d] signed_range [OF sz, of s] half_range [OF sz]
    by (intro difference_mod) linarith+
  then show "(alu_n r \<noteq> alu_v r) = (signed_operand sz d < signed_operand sz s)"
    using signed_range [OF sz, of d] signed_range [OF sz, of s] half_range [OF sz]
    unfolding N V fits_signed_def by (simp only: split: if_split) linarith
qed

lemma take_bit_word_diff:
  fixes d s :: "32 word"
  shows "take_bit n (take_bit n d - take_bit n s) = take_bit n (d - s)"
  by transfer (simp add: take_bit_diff)

lemma cmp_negative:
  assumes sz: "valid_size sz"
  shows "alu_n (alu_cmp d s sz) = bit (d - s) (8 * sz - 1)"
proof -
  have "((d AND width_mask sz) - (s AND width_mask sz)) AND width_mask sz = take_bit (8 * sz) (d - s)"
    unfolding width_mask_eq [OF sz] take_bit_eq_mask [symmetric] by (rule take_bit_word_diff)
  then show ?thesis
    using sz by (auto simp: alu_cmp_def alu_sub_def set_nz_def Let_def zero_alu_def and_sign_bit
        bit_take_bit_iff valid_size_def)
qed

section \<open>Properties of the arithmetic\<close>

text \<open>C14: additions and subtractions, with or without the extend bit, at every operand size: the result
  is the exact sum or difference modulo the size, N its sign, C and X the carry or borrow out of the
  unsigned operands, V whether the signed result does not fit, and Z the extended operations' rule
  that only ever clears it.\<close>

theorem arithmetic_flags_exact:
  assumes "valid_size sz"
  shows "arithmetic_flags sz (unsigned_operand sz d + unsigned_operand sz s + of_bool x)
      (signed_operand sz d + signed_operand sz s + of_bool x)
      (2 ^ (8 * sz) \<le> unsigned_operand sz d + unsigned_operand sz s + of_bool x) (alu_addx d s sz x z) \<and>
    alu_z (alu_addx d s sz x z) = (z \<and> alu_result (alu_addx d s sz x z) = 0) \<and>
    arithmetic_flags sz (unsigned_operand sz d - unsigned_operand sz s - of_bool x)
      (signed_operand sz d - signed_operand sz s - of_bool x)
      (unsigned_operand sz d < unsigned_operand sz s + of_bool x) (alu_subx d s sz x z) \<and>
    alu_z (alu_subx d s sz x z) = (z \<and> alu_result (alu_subx d s sz x z) = 0) \<and>
    alu_add d s sz = alu_addx d s sz False True \<and> alu_sub d s sz = alu_subx d s sz False True"
  by (intro conjI alu_addx_flags alu_subx_flags assms alu_add_addx alu_sub_subx)

theorem arithmetic_flags_exact_witness:
  "arithmetic_flags 1 (unsigned_operand 1 0x7F + unsigned_operand 1 0x01 + of_bool False)
      (signed_operand 1 0x7F + signed_operand 1 0x01 + of_bool False)
      (2 ^ (8 * 1) \<le> unsigned_operand 1 0x7F + unsigned_operand 1 0x01 + of_bool False)
      (alu_addx 0x7F 0x01 1 False True)"
  using arithmetic_flags_exact [of 1 "0x7F" "0x01" False True] by (simp add: valid_size_def)

text \<open>C15: every conditional branch after a comparison takes the comparison its name says, of the signed
  or the unsigned operands.\<close>

theorem branch_after_compare:
  assumes "valid_size sz"
  shows "condition cc (alu_apply ccr (alu_cmp d s sz)) = compares sz cc d s"
proof -
  note flags = cmp_flags [OF assms refl, of d s]
  have less: "unsigned_operand sz d < unsigned_operand sz s \<or> unsigned_operand sz d = unsigned_operand sz s
      \<longleftrightarrow> unsigned_operand sz d \<le> unsigned_operand sz s" by auto
  have signed_less: "signed_operand sz d < signed_operand sz s \<or> unsigned_operand sz d = unsigned_operand sz s
      \<longleftrightarrow> signed_operand sz d \<le> signed_operand sz s"
    using signed_diff_zero [OF assms, of d s] by auto
  show ?thesis
    using flags less signed_less cmp_negative [OF assms, of d s]
    by (cases cc) (auto simp: condition_def compares_def bit_alu_apply Let_def)
qed

theorem branch_after_compare_witness:
  "condition COND_LT (alu_apply 0 (alu_cmp 0x80 0x7F 1)) = compares 1 COND_LT 0x80 0x7F"
  by (rule branch_after_compare) (simp add: valid_size_def)

end
