(* ===== verification/M68030_Shift.thy ===== *)
theory M68030_Shift
  imports M68030_Alu
begin

text \<open>
  What the MC68030's shifts and its decimal operations compute
  (\<^verbatim>\<open>src/core/cpu/m68030/ap_m68030_alu.c\<close>, whose model is in \<open>M68030_Alu\<close>). The code steps one
  bit at a time; the lemmas carry an invariant along those steps and read the closed forms off it:
  a shift is multiplication or division by a power of two, a rotation is undone by the opposite
  one, and decimal addition and subtraction on valid digits are arithmetic modulo one hundred.
\<close>

section \<open>One step on integers\<close>

lemma uint_left:
  assumes "valid_size sz"
  shows "uint (push_bit 1 v AND width_mask sz) = (2 * uint v) mod 2 ^ (8 * sz)"
proof -
  have "uint (push_bit 1 v AND width_mask sz) = take_bit (8 * sz) (push_bit 1 (uint v))"
    unfolding width_mask_eq [OF assms] take_bit_eq_mask [symmetric] unsigned_take_bit_eq
      unsigned_push_bit_eq using assms by (auto simp: valid_size_def take_bit_take_bit min_def)
  then show ?thesis by (simp add: take_bit_eq_mod push_bit_eq_mult mult.commute)
qed

lemma uint_right:
  assumes "valid_size sz" "uint (v::u32) < 2 ^ (8 * sz)"
  shows "uint (drop_bit 1 v AND width_mask sz) = uint v div 2"
proof -
  have d: "uint (drop_bit 1 v) = uint v div 2"
    by (simp add: drop_bit_eq_div uint_div_distrib)
  have "0 \<le> uint v div 2" by simp
  moreover have "uint v div 2 < 2 ^ (8 * sz)" using assms(2) uint_ge_0 [of v] by linarith
  ultimately have "0 \<le> uint v div 2" "uint v div 2 < 2 ^ (8 * sz)" by auto
  then show ?thesis
    using unsigned_masked [OF assms(1), of "drop_bit 1 v"] unfolding unsigned_operand_def d
    by (simp add: mod_pos_pos_trivial)
qed

lemma top_value:
  assumes "valid_size sz" "uint (v::u32) < 2 ^ (8 * sz)"
  shows "v AND sign_bit sz \<noteq> 0 \<longleftrightarrow> 2 ^ (8 * sz - 1) \<le> uint v"
  using assms bit_top_iff [of "8 * sz" v] by (auto simp: and_sign_bit [OF assms(1)] valid_size_def)

lemma low_bit: "(v::u32) AND 1 \<noteq> 0 \<longleftrightarrow> odd (uint v)"
proof -
  have "v AND 1 \<noteq> 0 \<longleftrightarrow> bit v 0" using and_bit_of [of v 0] by (simp add: bit_of_def)
  also have "\<dots> \<longleftrightarrow> bit (uint v) 0" by (simp add: bit_uint_iff)
  finally show ?thesis by (simp add: bit_0)
qed

lemma double_div_mod:
  assumes "0 \<le> a" "a < 2 * (h::int)"
  shows "(2 * a) div (2 * h) = (if h \<le> a then 1 else 0)"
    and "(2 * a) mod (2 * h) = (if h \<le> a then 2 * a - 2 * h else 2 * a)"
proof -
  show d: "(2 * a) div (2 * h) = (if h \<le> a then 1 else 0)"
    using assms by (auto simp: div_pos_pos_trivial intro!: int_div_pos_eq [of _ _ _ "a - h"])
  show "(2 * a) mod (2 * h) = (if h \<le> a then 2 * a - 2 * h else 2 * a)"
    using div_mult_mod_eq [of "2 * a" "2 * h"] unfolding d by (auto split: if_splits)
qed

section \<open>Left shifts\<close>

lemma fits_signed_shrinks:
  assumes "fits_signed sz (i * 2 ^ Suc k)"
  shows "fits_signed sz (i * 2 ^ k)"
proof -
  have "i * 2 ^ Suc k = 2 * (i * 2 ^ k)" by simp
  moreover have "(0::int) < 2 ^ (8 * sz - 1)" by simp
  ultimately show ?thesis using assms unfolding fits_signed_def by linarith
qed

lemma left_loop:
  assumes sz: "valid_size sz" and v: "uint v < 2 ^ (8 * sz)"
    and type: "type = SHIFT_ARITHMETIC \<or> type = SHIFT_LOGICAL"
  shows "case shift_loop type True sz (v AND sign_bit sz \<noteq> 0) k (v, c, x, False) of (r, carry, x', changed) \<Rightarrow>
    uint r = (uint v * 2 ^ k) mod 2 ^ (8 * sz) \<and>
    (0 < k \<longrightarrow> carry = odd (uint v * 2 ^ k div 2 ^ (8 * sz)) \<and> x' = carry) \<and>
    changed = (\<not> fits_signed sz (signed_operand sz v * 2 ^ k))"
proof (induction k)
  case 0
  have "fits_signed sz (signed_operand sz v)"
    using signed_range [OF sz, of v] by (simp add: fits_signed_def)
  then show ?case using v by (simp add: shift_loop_def)
next
  case (Suc k)
  let ?w = "2 ^ (8 * sz) :: int" and ?h = "2 ^ (8 * sz - 1) :: int"
  let ?sign = "v AND sign_bit sz \<noteq> 0" and ?i = "signed_operand sz v"
  obtain r carry x' changed where st: "shift_loop type True sz ?sign k (v, c, x, False) = (r, carry, x', changed)"
    by (metis prod_cases4)
  have w: "?w = 2 * ?h" by (rule half_range [OF sz])
  have r: "uint r = (uint v * 2 ^ k) mod ?w"
    and ch: "changed = (\<not> fits_signed sz (?i * 2 ^ k))" using Suc st by simp_all
  have r_lt: "uint r < ?w" by (simp add: r)
  let ?r = "push_bit 1 r AND width_mask sz"
  have r': "uint ?r = (2 * uint r) mod ?w" by (rule uint_left [OF sz])
  have r'_lt: "uint ?r < ?w" unfolding r' by simp
  have val: "uint ?r = (uint v * 2 ^ Suc k) mod ?w"
    unfolding r' r by (simp add: mod_mult_right_eq mult.left_commute mult.commute)
  have top: "r AND sign_bit sz \<noteq> 0 \<longleftrightarrow> ?h \<le> uint r" by (rule top_value [OF sz r_lt])
  have top': "?r AND sign_bit sz \<noteq> 0 \<longleftrightarrow> ?h \<le> uint ?r" by (rule top_value [OF sz r'_lt])
  have sign: "?sign \<longleftrightarrow> ?h \<le> uint v" by (rule top_value [OF sz v])
  have carry: "?h \<le> uint r \<longleftrightarrow> odd (uint v * 2 ^ Suc k div ?w)"
  proof -
    have "uint v * 2 ^ Suc k = 2 * (uint v * 2 ^ k)" by simp
    also have "uint v * 2 ^ k = (uint v * 2 ^ k div ?w) * ?w + uint r"
      unfolding r by (rule div_mult_mod_eq [symmetric])
    finally have "uint v * 2 ^ Suc k = 2 * uint r + 2 * (uint v * 2 ^ k div ?w) * ?w"
      by (simp only: distrib_left mult.assoc add.commute)
    then have "uint v * 2 ^ Suc k div ?w = 2 * uint r div ?w + 2 * (uint v * 2 ^ k div ?w)"
      by (simp add: div_mult_self1)
    moreover have "2 * uint r div ?w = (if ?h \<le> uint r then 1 else 0)"
      unfolding w by (rule double_div_mod(1)) (use r_lt w in auto)
    ultimately show ?thesis by auto
  qed
  have cong: "uint r mod ?w = (?i * 2 ^ k) mod ?w"
  proof -
    have "?i mod ?w = uint v mod ?w"
      using v by (simp add: signed_operand_def unsigned_operand_def Let_def minus_mod_self2)
    then show ?thesis unfolding r mod_mod_trivial by (metis mod_mult_left_eq)
  qed
  have changed': "changed \<or> (?r AND sign_bit sz \<noteq> 0) \<noteq> ?sign \<longleftrightarrow> \<not> fits_signed sz (?i * 2 ^ Suc k)"
  proof (cases "fits_signed sz (?i * 2 ^ k)")
    case False
    then show ?thesis using ch fits_signed_shrinks by blast
  next
    case True
    have i: "?i = (if ?h \<le> uint v then uint v - ?w else uint v)"
      using v w by (auto simp: signed_operand_def unsigned_operand_def Let_def)
    have rk: "uint r = (if ?i * 2 ^ k < 0 then ?i * 2 ^ k + ?w else ?i * 2 ^ k)"
    proof -
      have range: "- ?h \<le> ?i * 2 ^ k \<and> ?i * 2 ^ k < ?h" using True by (simp add: fits_signed_def)
      have "uint r = (?i * 2 ^ k) mod ?w" using cong r_lt by simp
      also have "\<dots> = (if ?i * 2 ^ k < 0 then ?i * 2 ^ k + ?w else ?i * 2 ^ k)"
        using range w by (auto simp: mod_pos_pos_trivial intro!: int_mod_pos_eq [of _ _ "-1"])
      finally show ?thesis .
    qed
    have neg: "?i * 2 ^ k < 0 \<longleftrightarrow> ?h \<le> uint v"
      using i v by (auto simp: mult_less_0_iff)
    have step: "?i * 2 ^ Suc k = 2 * (?i * 2 ^ k)" by simp
    have dbl: "(2 * uint r) mod ?w = (if ?h \<le> uint r then 2 * uint r - ?w else 2 * uint r)"
      unfolding w by (rule double_div_mod(2)) (use r_lt w in auto)
    show ?thesis
      using True ch neg rk dbl r_lt w unfolding top' sign r' step fits_signed_def
      by (auto split: if_splits)
  qed
  have next_state: "shift_loop type True sz ?sign (Suc k) (v, c, x, False) =
      (?r, r AND sign_bit sz \<noteq> 0, r AND sign_bit sz \<noteq> 0, changed \<or> (?r AND sign_bit sz \<noteq> 0) \<noteq> ?sign)"
    using st type by (auto simp: shift_loop_def shift_left_step_def Let_def)
  show ?case unfolding next_state prod.case changed' top using val carry by simp
qed

section \<open>Right shifts\<close>

lemma uint_or_disjoint:
  assumes "(a::u32) AND b = 0" "uint a + uint b < 2 ^ 32"
  shows "uint (a OR b) = uint a + uint b"
  unfolding disjunctive_add_eq_or [OF assms(1), symmetric] uint_word_ariths(1) using assms(2)
  by (simp add: mod_pos_pos_trivial)

lemma uint_or_sign:
  assumes sz: "valid_size sz" and a: "uint (a::u32) < 2 ^ (8 * sz - 1)"
  shows "uint (a OR sign_bit sz) = uint a + 2 ^ (8 * sz - 1)"
proof -
  have "\<not> bit a (8 * sz - 1)"
  proof -
    have "uint a < 2 ^ (8 * sz)" using a half_range [OF sz] uint_ge_0 [of a] by linarith
    then show ?thesis using top_value [OF sz, of a] a and_sign_bit [OF sz, of a] by auto
  qed
  then have "a AND sign_bit sz = 0" by (simp add: sign_bit_eq [OF sz])
  moreover have s: "uint (sign_bit sz) = 2 ^ (8 * sz - 1)"
    using sz by (auto simp: sign_bit_def valid_size_def)
  moreover have "uint a + 2 ^ (8 * sz - 1) < 2 ^ 32"
    using a sz by (auto simp: valid_size_def)
  ultimately show ?thesis using uint_or_disjoint [of a "sign_bit sz"] by simp
qed

lemma uint_or_one:
  assumes "even (uint (a::u32))"
  shows "uint (a OR 1) = uint a + 1"
proof -
  have "uint a \<noteq> 2 ^ 32 - 1" using assms by auto
  then have "uint a + 1 < 2 ^ 32" using uint_lt2p [of a] by simp
  moreover have "a AND 1 = 0" using assms low_bit by blast
  ultimately show ?thesis using uint_or_disjoint [of a 1] by simp
qed

lemma right_shift_value:
  assumes sz: "valid_size sz" and r: "uint (r::u32) < 2 ^ (8 * sz)"
  shows "signed_operand sz (if r AND sign_bit sz \<noteq> 0 then (drop_bit 1 r AND width_mask sz) OR sign_bit sz
      else drop_bit 1 r AND width_mask sz) = signed_operand sz r div 2"
    and "uint (if r AND sign_bit sz \<noteq> 0 then (drop_bit 1 r AND width_mask sz) OR sign_bit sz
      else drop_bit 1 r AND width_mask sz) < 2 ^ (8 * sz)"
proof -
  let ?w = "2 ^ (8 * sz) :: int" and ?h = "2 ^ (8 * sz - 1) :: int"
  let ?r = "drop_bit 1 r AND width_mask sz"
  have w: "?w = 2 * ?h" by (rule half_range [OF sz])
  have d: "uint ?r = uint r div 2" by (rule uint_right [OF sz r])
  have top: "r AND sign_bit sz \<noteq> 0 \<longleftrightarrow> ?h \<le> uint r" by (rule top_value [OF sz r])
  have h: "even ?h" "0 < ?h" using sz by (auto simp: valid_size_def)
  have "uint ?r < ?h" using d r w by linarith
  then have o: "uint (?r OR sign_bit sz) = uint r div 2 + ?h" using uint_or_sign [OF sz, of ?r] d by simp
  show lt: "uint (if r AND sign_bit sz \<noteq> 0 then ?r OR sign_bit sz else ?r) < ?w"
    using d o w r top uint_ge_0 [of r] by (simp only: split: if_split) linarith
  have signed: "signed_operand sz a = (if uint a < ?h then uint a else uint a - 2 * ?h)"
    if "uint a < ?w" for a :: u32
    using that w by (simp add: signed_operand_def unsigned_operand_def Let_def mod_pos_pos_trivial)
  have "(uint r - 2 * ?h) div 2 = uint r div 2 - ?h" by presburger
  then show "signed_operand sz (if r AND sign_bit sz \<noteq> 0 then ?r OR sign_bit sz else ?r) = signed_operand sz r div 2"
    unfolding signed [OF lt] signed [OF r] using d o w r uint_ge_0 [of r] unfolding top
    by (simp only: split: if_split) linarith
qed

lemma right_loop:
  assumes sz: "valid_size sz" and v: "uint v < 2 ^ (8 * sz)"
  shows "case shift_loop SHIFT_LOGICAL False sz s k (v, c, x, m) of (r, carry, x', changed) \<Rightarrow>
      uint r = uint v div 2 ^ k \<and> (0 < k \<longrightarrow> carry = odd (uint v div 2 ^ (k - 1)) \<and> x' = carry)"
    and "case shift_loop SHIFT_ARITHMETIC False sz s k (v, c, x, m) of (r, carry, x', changed) \<Rightarrow>
      uint r < 2 ^ (8 * sz) \<and> signed_operand sz r = signed_operand sz v div 2 ^ k \<and>
      (0 < k \<longrightarrow> carry = odd (signed_operand sz v div 2 ^ (k - 1)) \<and> x' = carry)"
proof -
  have div_Suc: "i div 2 ^ k div 2 = (i::int) div 2 ^ Suc k" for i k
    by (simp only: power_Suc2 zdiv_zmult2_eq zero_le_numeral)
  show "case shift_loop SHIFT_LOGICAL False sz s k (v, c, x, m) of (r, carry, x', changed) \<Rightarrow>
      uint r = uint v div 2 ^ k \<and> (0 < k \<longrightarrow> carry = odd (uint v div 2 ^ (k - 1)) \<and> x' = carry)"
  proof (induction k)
    case 0
    then show ?case by (simp add: shift_loop_def)
  next
    case (Suc k)
    obtain r carry x' changed where st: "shift_loop SHIFT_LOGICAL False sz s k (v, c, x, m) = (r, carry, x', changed)"
      by (metis prod_cases4)
    have r: "uint r = uint v div 2 ^ k" using Suc st by simp
    have "uint r \<le> uint v" unfolding r using pos_imp_zdiv_nonneg_iff [of "2 ^ k" "uint v"]
      by (metis div_by_1 uint_ge_0 zdiv_mono2 zero_less_one one_le_numeral one_le_power)
    then have "uint r < 2 ^ (8 * sz)" using v by linarith
    note half = uint_right [OF sz this]
    have "shift_loop SHIFT_LOGICAL False sz s (Suc k) (v, c, x, m) =
        (drop_bit 1 r AND width_mask sz, r AND 1 \<noteq> 0, r AND 1 \<noteq> 0, changed)"
      using st by (auto simp: shift_loop_def shift_right_step_def Let_def)
    then show ?case unfolding prod.case using half r div_Suc [of "uint v" k] low_bit [of r] by auto
  qed
  show "case shift_loop SHIFT_ARITHMETIC False sz s k (v, c, x, m) of (r, carry, x', changed) \<Rightarrow>
      uint r < 2 ^ (8 * sz) \<and> signed_operand sz r = signed_operand sz v div 2 ^ k \<and>
      (0 < k \<longrightarrow> carry = odd (signed_operand sz v div 2 ^ (k - 1)) \<and> x' = carry)"
  proof (induction k)
    case 0
    then show ?case using v by (simp add: shift_loop_def)
  next
    case (Suc k)
    obtain r carry x' changed where st: "shift_loop SHIFT_ARITHMETIC False sz s k (v, c, x, m) = (r, carry, x', changed)"
      by (metis prod_cases4)
    have r: "uint r < 2 ^ (8 * sz)" "signed_operand sz r = signed_operand sz v div 2 ^ k" using Suc st by simp_all
    have "odd (uint r) = odd (signed_operand sz r)"
      using r(1) sz by (auto simp: signed_operand_def unsigned_operand_def Let_def valid_size_def)
    then have low: "r AND 1 \<noteq> 0 \<longleftrightarrow> odd (signed_operand sz v div 2 ^ k)" unfolding low_bit r(2) .
    have "shift_loop SHIFT_ARITHMETIC False sz s (Suc k) (v, c, x, m) =
        (if r AND sign_bit sz \<noteq> 0 then (drop_bit 1 r AND width_mask sz) OR sign_bit sz
         else drop_bit 1 r AND width_mask sz, r AND 1 \<noteq> 0, r AND 1 \<noteq> 0, changed)"
      using st by (auto simp: shift_loop_def shift_right_step_def Let_def)
    then show ?case unfolding prod.case
      using right_shift_value [OF sz r(1)] r(2) low div_Suc [of "signed_operand sz v" k] by simp
  qed
qed

section \<open>Rotations\<close>

text \<open>A step of a rotation reads the value and the extend bit only.\<close>

definition is_rotate :: "shift_type \<Rightarrow> bool" where
  "is_rotate type \<longleftrightarrow> type = SHIFT_ROTATE \<or> type = SHIFT_ROTATE_EXTEND"

definition rotated :: "shift_state \<Rightarrow> u32 \<times> bool" where
  "rotated st = (case st of (v, _, x, _) \<Rightarrow> (v, x))"

lemma rotated_right_cong:
  "is_rotate type \<Longrightarrow> rotated a = rotated b \<Longrightarrow>
    rotated (shift_right_step type sz a) = rotated (shift_right_step type sz b)"
  by (auto simp: is_rotate_def rotated_def shift_right_step_def Let_def split: prod.splits)

lemma rotate_left_value:
  assumes sz: "valid_size sz" and v: "uint (v::u32) < 2 ^ (8 * sz)"
  shows "uint ((push_bit 1 v AND width_mask sz) OR (if low then 1 else 0)) =
      (2 * uint v) mod 2 ^ (8 * sz) + of_bool low"
    and "(2 * uint v) mod 2 ^ (8 * sz) + of_bool low < 2 ^ (8 * sz)"
proof -
  let ?w = "2 ^ (8 * sz) :: int" and ?h = "2 ^ (8 * sz - 1) :: int"
  have w: "?w = 2 * ?h" by (rule half_range [OF sz])
  have dbl: "(2 * uint v) mod ?w = (if ?h \<le> uint v then 2 * uint v - ?w else 2 * uint v)"
    unfolding w by (rule double_div_mod(2)) (use v w in auto)
  have "even (uint (push_bit 1 v AND width_mask sz))" unfolding uint_left [OF sz] dbl w by simp
  note one = uint_or_one [OF this]
  show "uint ((push_bit 1 v AND width_mask sz) OR (if low then 1 else 0)) =
      (2 * uint v) mod ?w + of_bool low"
    using one uint_left [OF sz, of v] by (cases low) simp_all
  show "(2 * uint v) mod ?w + of_bool low < ?w"
    unfolding dbl using v w by (cases low) (simp_all split: if_splits)
qed

lemma rotate_step_undone:
  assumes sz: "valid_size sz" and type: "is_rotate type" and v: "uint v < 2 ^ (8 * sz)"
  shows "rotated (shift_right_step type sz (shift_left_step type sz s (v, c, x, m))) = (v, x)"
    and "uint (fst (rotated (shift_left_step type sz s (v, c, x, m)))) < 2 ^ (8 * sz)"
proof -
  let ?w = "2 ^ (8 * sz) :: int" and ?h = "2 ^ (8 * sz - 1) :: int"
  let ?carry = "v AND sign_bit sz \<noteq> 0"
  let ?low = "if type = SHIFT_ROTATE then ?carry else x"
  let ?l = "(push_bit 1 v AND width_mask sz) OR (if ?low then 1 else 0)"
  let ?d = "drop_bit 1 ?l AND width_mask sz"
  have w: "?w = 2 * ?h" by (rule half_range [OF sz])
  have carry: "?carry \<longleftrightarrow> ?h \<le> uint v" by (rule top_value [OF sz v])
  have dbl: "(2 * uint v) mod ?w = (if ?h \<le> uint v then 2 * uint v - ?w else 2 * uint v)"
    unfolding w by (rule double_div_mod(2)) (use v w in auto)
  note l = rotate_left_value [OF sz v, of ?low]
  have left: "rotated (shift_left_step type sz s (v, c, x, m)) = (?l, if type = SHIFT_ROTATE then x else ?carry)"
    using type by (auto simp: is_rotate_def rotated_def shift_left_step_def Let_def)
  show "uint (fst (rotated (shift_left_step type sz s (v, c, x, m)))) < ?w"
    unfolding left fst_conv l(1) by (rule l(2))
  have l_lt: "uint ?l < ?w" unfolding l(1) by (rule l(2))
  have odd_l: "?l AND 1 \<noteq> 0 \<longleftrightarrow> ?low"
    unfolding low_bit l(1) dbl w by (cases ?low) simp_all
  have d: "uint ?d = (if ?h \<le> uint v then uint v - ?h else uint v)"
  proof -
    have half: "(2 * i + of_bool b) div 2 = i" for i :: int and b by simp
    have "uint ?l = 2 * (if ?h \<le> uint v then uint v - ?h else uint v) + of_bool ?low"
      unfolding l(1) dbl by (simp only: w right_diff_distrib if_distrib [of "(*) 2"])
    then show ?thesis unfolding uint_right [OF sz l_lt] by (simp only: half)
  qed
  then have d_lt: "uint ?d < ?h" using v w by (auto split: if_splits)
  have rejoined: "?d OR (if ?carry then sign_bit sz else 0) = v"
  proof (cases ?carry)
    case True
    then have "?h \<le> uint v" using carry by blast
    then have "uint (?d OR sign_bit sz) = uint v" unfolding uint_or_sign [OF sz d_lt] d by simp
    then have "?d OR sign_bit sz = v" by (rule word_uint_eqI)
    then show ?thesis unfolding if_P [OF True] .
  next
    case False
    then have "\<not> ?h \<le> uint v" using carry by blast
    then have "uint ?d = uint v" unfolding d by simp
    then have "?d = v" by (rule word_uint_eqI)
    then show ?thesis unfolding if_not_P [OF False] or.right_neutral .
  qed
  have right: "rotated (shift_right_step type sz (l, c', x', m')) =
      ((drop_bit 1 l AND width_mask sz) OR
        (if (if type = SHIFT_ROTATE then l AND 1 \<noteq> 0 else x') then sign_bit sz else 0),
       if type = SHIFT_ROTATE then x' else l AND 1 \<noteq> 0)" for l c' x' m'
    using type by (auto simp: is_rotate_def rotated_def shift_right_step_def Let_def)
  obtain l0 c' x' m' where st: "shift_left_step type sz s (v, c, x, m) = (l0, c', x', m')"
    by (metis prod_cases4)
  have "l0 = ?l" "x' = (if type = SHIFT_ROTATE then x else ?carry)"
    using left unfolding st rotated_def by simp_all
  then show "rotated (shift_right_step type sz (shift_left_step type sz s (v, c, x, m))) = (v, x)"
    unfolding st right using odd_l rejoined type by (auto simp: is_rotate_def)
qed

lemma rotate_loops_undone:
  assumes sz: "valid_size sz" and type: "is_rotate type" and v: "uint v < 2 ^ (8 * sz)"
    and mid: "rotated st = rotated (shift_loop type True sz s k (v, c, x, m))"
  shows "rotated (shift_loop type False sz s' k st) = (v, x)"
    "uint (fst (rotated (shift_loop type True sz s k (v, c, x, m)))) < 2 ^ (8 * sz)"
  using mid
proof (induction k arbitrary: st)
  case 0
  { case 1 then show ?case by (simp add: shift_loop_def rotated_def)
  next case 2 show ?case using v by (simp add: shift_loop_def rotated_def) }
next
  case (Suc k)
  obtain v' c' x' m' where st': "shift_loop type True sz s k (v, c, x, m) = (v', c', x', m')"
    by (metis prod_cases4)
  have next_left: "shift_loop type True sz s (Suc k) (v, c, x, m) = shift_left_step type sz s (v', c', x', m')"
    using st' by (simp add: shift_loop_def)
  have v': "uint v' < 2 ^ (8 * sz)" using Suc.IH(2) [OF refl] unfolding st' rotated_def by simp
  note step = rotate_step_undone [OF sz type v', of s c' x' m']
  { case 1
    have "rotated (shift_right_step type sz st) = (v', x')"
      using rotated_right_cong [OF type 1 [unfolded next_left], of sz] step(1) by simp
    then have "rotated (shift_right_step type sz st) = rotated (shift_loop type True sz s k (v, c, x, m))"
      unfolding st' by (simp add: rotated_def)
    note Suc.IH(1) [OF this]
    moreover have "shift_loop type False sz s' (Suc k) st =
        shift_loop type False sz s' k (shift_right_step type sz st)"
      by (simp add: shift_loop_def funpow_swap1)
    ultimately show ?case by simp
  next
    case 2
    show ?case unfolding next_left by (rule step(2)) }
qed

section \<open>Decimal digits\<close>

definition bcd :: "nat \<Rightarrow> u32" where
  "bcd n = of_nat (16 * (n div 10) + n mod 10)"

lemma bcd_digits:
  assumes "n < 100"
  shows "bcd n AND 0xFF = bcd n" "bcd n AND 0x0F = of_nat (n mod 10)"
    "drop_bit 4 (bcd n) AND 0x0F = of_nat (n div 10)"
proof -
  have "list_all (\<lambda>n. bcd n AND 0xFF = bcd n \<and> bcd n AND 0x0F = of_nat (n mod 10) \<and>
      drop_bit 4 (bcd n) AND 0x0F = of_nat (n div 10)) [0..<100]" by code_simp
  then show "bcd n AND 0xFF = bcd n" "bcd n AND 0x0F = of_nat (n mod 10)"
    "drop_bit 4 (bcd n) AND 0x0F = of_nat (n div 10)"
    using assms by (simp_all add: list_all_iff)
qed

lemma bcd_pack:
  assumes "h < 10" "l < 10"
  shows "push_bit 4 (of_nat h AND 0x0F) OR (of_nat l AND 0x0F) = bcd (10 * h + l)"
    "word_of_int (push_bit 4 (int h AND 0x0F) OR (int l AND 0x0F)) = bcd (10 * h + l)"
proof -
  have "list_all (\<lambda>h. list_all (\<lambda>l.
      push_bit 4 (of_nat h AND 0x0F) OR (of_nat l AND 0x0F) = bcd (10 * h + l) \<and>
      word_of_int (push_bit 4 (int h AND 0x0F) OR (int l AND 0x0F)) = bcd (10 * h + l))
      [0..<10]) [0..<10]" by code_simp
  then show "push_bit 4 (of_nat h AND 0x0F) OR (of_nat l AND 0x0F) = bcd (10 * h + l)"
    "word_of_int (push_bit 4 (int h AND 0x0F) OR (int l AND 0x0F)) = bcd (10 * h + l)"
    using assms by (simp_all add: list_all_iff)
qed

lemma bcd_zero: "n < 100 \<Longrightarrow> bcd n = 0 \<longleftrightarrow> n = 0"
proof -
  have "list_all (\<lambda>n. (bcd n = 0) = (n = 0)) [0..<100]" by code_simp
  then show "n < 100 \<Longrightarrow> bcd n = 0 \<longleftrightarrow> n = 0" by (simp add: list_all_iff)
qed

lemma exceeds_nine: "n < 100 \<Longrightarrow> (of_nat n :: u32) > 9 \<longleftrightarrow> n > 9"
  by (simp add: word_less_nat_alt unat_of_nat take_bit_nat_eq_self)

lemma digit_sum:
  fixes a b m n :: nat
  assumes a: "a < 100" and b: "b < 100" and n: "n = a mod 10 + b mod 10 + of_bool x"
    and m: "m = a div 10 + b div 10 + of_bool (n > 9)"
  shows "n < 100" "m < 100" "(if n > 9 then n - 10 else n) < 10" "(if m > 9 then m - 10 else m) < 10"
    and "(a + b + of_bool x) mod 100 = 10 * (if m > 9 then m - 10 else m) + (if n > 9 then n - 10 else n)"
    and "100 \<le> a + b + of_bool x \<longleftrightarrow> m > 9"
proof -
  define t where "t = a div 10 + b div 10"
  have "a mod 10 < 10" "b mod 10 < 10" "a div 10 < 10" "b div 10 < 10" using a b by auto
  then have n20: "n < 20" and t: "t < 19" unfolding n t_def by (cases x; simp)+
  have m20: "m < 20" using t unfolding m t_def [symmetric] by simp
  show "n < 100" "m < 100" using n20 m20 by simp_all
  show l: "(if n > 9 then n - 10 else n) < 10" and h: "(if m > 9 then m - 10 else m) < 10"
    using n20 m20 by auto
  have "a + b + of_bool x = 10 * t + n"
    using div_mult_mod_eq [of a 10] div_mult_mod_eq [of b 10] unfolding n t_def by (cases x) simp_all
  also have "10 * t + n = 10 * m + (if n > 9 then n - 10 else n)"
    unfolding m t_def [symmetric] using n20 by simp
  also have "10 * m = 100 * of_bool (m > 9) + 10 * (if m > 9 then m - 10 else m)"
    by (simp add: diff_mult_distrib2)
  finally have sum: "a + b + of_bool x = 100 * of_bool (m > 9) +
      (10 * (if m > 9 then m - 10 else m) + (if n > 9 then n - 10 else n))" by simp
  have small: "10 * (if m > 9 then m - 10 else m) + (if n > 9 then n - 10 else n) < 100"
    using l h by linarith
  show "(a + b + of_bool x) mod 100 = 10 * (if m > 9 then m - 10 else m) + (if n > 9 then n - 10 else n)"
    unfolding sum using small by (simp only: mod_mult_self4 mod_less)
  show "100 \<le> a + b + of_bool x \<longleftrightarrow> m > 9"
    unfolding sum using small by (cases "m > 9") (simp_all del: if_split)
qed

lemma abcd_digits:
  assumes "a < 100" "b < 100"
  shows "alu_result (alu_abcd (bcd a) (bcd b) x z) = bcd ((a + b + of_bool x) mod 100)"
    and "alu_c (alu_abcd (bcd a) (bcd b) x z) = (100 \<le> a + b + of_bool x)"
proof -
  define n where "n = a mod 10 + b mod 10 + of_bool x"
  define m where "m = a div 10 + b div 10 + of_bool (n > 9)"
  note sum = digit_sum [OF assms n_def m_def]
  have low: "of_nat (a mod 10) + of_nat (b mod 10) + (if x then 1 else 0) = (of_nat n :: u32)"
    unfolding n_def by (cases x) simp_all
  have high: "(if n > 9 then of_nat (a div 10) + of_nat (b div 10) + 1 else of_nat (a div 10) + of_nat (b div 10))
      = (of_nat m :: u32)"
    unfolding m_def by simp
  have cut: "(if k > 9 then of_nat k - 10 else of_nat k) = (of_nat (if k > 9 then k - 10 else k) :: u32)" for k
    by (simp add: of_nat_diff)
  have split_pair: "(if n > 9 then (u, v) else (u', v')) = (if n > 9 then u else u', if n > 9 then v else v')"
    for u v u' v' :: u32 by simp
  have "alu_result (alu_abcd (bcd a) (bcd b) x z) =
      bcd (10 * (if m > 9 then m - 10 else m) + (if n > 9 then n - 10 else n)) \<and>
      alu_c (alu_abcd (bcd a) (bcd b) x z) = (m > 9)"
    unfolding alu_abcd_def Let_def bcd_digits [OF assms(1)] bcd_digits [OF assms(2)] low
      exceeds_nine [OF sum(1)] split_pair prod.case high exceeds_nine [OF sum(2)] cut
    using bcd_pack(1) [OF sum(4,3)] by simp
  then show "alu_result (alu_abcd (bcd a) (bcd b) x z) = bcd ((a + b + of_bool x) mod 100)"
    and "alu_c (alu_abcd (bcd a) (bcd b) x z) = (100 \<le> a + b + of_bool x)"
    unfolding sum(5,6) by simp_all
qed

lemma digit_difference:
  fixes a b :: nat and m n :: int
  assumes a: "a < 100" and b: "b < 100" and n: "n = int (a mod 10) - int (b mod 10) - of_bool x"
    and m: "m = int (a div 10) - int (b div 10) - of_bool (n < 0)"
  shows "0 \<le> (if n < 0 then n + 10 else n)" "(if n < 0 then n + 10 else n) < 10"
    and "0 \<le> (if m < 0 then m + 10 else m)" "(if m < 0 then m + 10 else m) < 10"
    and "(int a - int b - of_bool x) mod 100 = 10 * (if m < 0 then m + 10 else m) + (if n < 0 then n + 10 else n)"
    and "int a - int b - of_bool x < 0 \<longleftrightarrow> m < 0"
proof -
  define t where "t = int (a div 10) - int (b div 10)"
  have units: "0 \<le> int (k mod 10) \<and> int (k mod 10) < 10" for k
    using mod_less_divisor [of 10 k] by linarith
  have tens: "0 \<le> int (k div 10) \<and> int (k div 10) < 10" if "k < 100" for k
    using less_mult_imp_div_less [of k 10 10] that by linarith
  have extend: "0 \<le> (of_bool y :: int) \<and> (of_bool y :: int) \<le> 1" for y by (cases y) simp_all
  have n10: "- 10 \<le> n \<and> n < 10" unfolding n using units [of a] units [of b] extend [of x] by linarith
  have t: "- 10 < t \<and> t < 10" unfolding t_def using tens [OF a] tens [OF b] by linarith
  have m10: "- 10 \<le> m \<and> m < 10" using t extend [of "n < 0"] unfolding m t_def [symmetric] by linarith
  show l: "0 \<le> (if n < 0 then n + 10 else n)" "(if n < 0 then n + 10 else n) < 10"
    and h: "0 \<le> (if m < 0 then m + 10 else m)" "(if m < 0 then m + 10 else m) < 10"
    using n10 m10 by auto
  have "int a - int b - of_bool x = 10 * t + n"
    using arg_cong [OF div_mult_mod_eq [of a 10], of int] arg_cong [OF div_mult_mod_eq [of b 10], of int]
    unfolding n t_def of_nat_add of_nat_mult by simp
  also have "10 * t + n = 10 * m + (if n < 0 then n + 10 else n)"
    unfolding m t_def [symmetric] by simp
  also have "10 * m = - 100 * of_bool (m < 0) + 10 * (if m < 0 then m + 10 else m)"
    by simp
  finally have sum: "int a - int b - of_bool x = - 100 * of_bool (m < 0) +
      (10 * (if m < 0 then m + 10 else m) + (if n < 0 then n + 10 else n))" by simp
  define r where "r = 10 * (if m < 0 then m + 10 else m) + (if n < 0 then n + 10 else n)"
  have small: "0 \<le> r \<and> r < 100" unfolding r_def using l h by linarith
  note sum = sum [folded r_def]
  show "(int a - int b - of_bool x) mod 100 = 10 * (if m < 0 then m + 10 else m) + (if n < 0 then n + 10 else n)"
    unfolding sum r_def [symmetric] using small
    by (cases "m < 0") (simp_all add: mod_pos_pos_trivial int_mod_pos_eq [of _ _ "-1"])
  show "int a - int b - of_bool x < 0 \<longleftrightarrow> m < 0"
    unfolding sum using small by (cases "m < 0") simp_all
qed

lemma bcd_digits_int:
  assumes "n < 100"
  shows "uint (bcd n AND 0xFF) AND 0x0F = int (n mod 10)"
    "drop_bit 4 (uint (bcd n AND 0xFF)) AND 0x0F = int (n div 10)"
proof -
  have "list_all (\<lambda>n. uint (bcd n AND 0xFF) AND 0x0F = int (n mod 10) \<and>
      drop_bit 4 (uint (bcd n AND 0xFF)) AND 0x0F = int (n div 10)) [0..<100]" by code_simp
  then show "uint (bcd n AND 0xFF) AND 0x0F = int (n mod 10)"
    "drop_bit 4 (uint (bcd n AND 0xFF)) AND 0x0F = int (n div 10)"
    using assms by (simp_all add: list_all_iff)
qed

lemma sbcd_digits:
  assumes "a < 100" "b < 100"
  shows "alu_result (alu_sbcd (bcd a) (bcd b) x z) = bcd (nat ((int a - int b - of_bool x) mod 100))"
    and "alu_c (alu_sbcd (bcd a) (bcd b) x z) = (int a - int b - of_bool x < 0)"
proof -
  define n where "n = int (a mod 10) - int (b mod 10) - of_bool x"
  define m where "m = int (a div 10) - int (b div 10) - of_bool (n < 0)"
  note diff = digit_difference [OF assms n_def m_def]
  have low: "int (a mod 10) - int (b mod 10) - (if x then 1 else 0) = n" unfolding n_def by (cases x) simp_all
  have high: "(if n < 0 then int (a div 10) - int (b div 10) - 1 else int (a div 10) - int (b div 10)) = m"
    unfolding m_def by simp
  have split_pair: "(if n < 0 then (u, v) else (u', v')) = (if n < 0 then u else u', if n < 0 then v else v')"
    for u v u' v' :: int by simp
  define l h where "l = nat (if n < 0 then n + 10 else n)" and "h = nat (if m < 0 then m + 10 else m)"
  have lh: "(if n < 0 then n + 10 else n) = int l" "(if m < 0 then m + 10 else m) = int h" "h < 10" "l < 10"
    unfolding l_def h_def using diff(1-4) by simp_all
  have "alu_result (alu_sbcd (bcd a) (bcd b) x z) = bcd (10 * h + l) \<and>
      alu_c (alu_sbcd (bcd a) (bcd b) x z) = (m < 0)"
    unfolding alu_sbcd_def Let_def bcd_digits_int [OF assms(1)] bcd_digits_int [OF assms(2)] low
      split_pair prod.case high lh(1,2)
    using bcd_pack(2) [OF lh(3,4)] by simp
  moreover have "(int a - int b - of_bool x) mod 100 = int (10 * h + l)"
    unfolding diff(5) lh(1,2) by simp
  then have "nat ((int a - int b - of_bool x) mod 100) = 10 * h + l" by (simp only: nat_int)
  ultimately show "alu_result (alu_sbcd (bcd a) (bcd b) x z) = bcd (nat ((int a - int b - of_bool x) mod 100))"
    and "alu_c (alu_sbcd (bcd a) (bcd b) x z) = (int a - int b - of_bool x < 0)"
    unfolding diff(6) by simp_all
qed

section \<open>Properties of shifts, rotations and decimal arithmetic\<close>

lemma alu_shift_fields:
  assumes "shift_loop type left sz ((v AND width_mask sz) AND sign_bit sz \<noteq> 0) count
      (v AND width_mask sz, False, x, False) = (r, carry, x', changed)" and "0 < count"
  shows "alu_result (alu_shift type left v count sz x) = r"
    and "alu_c (alu_shift type left v count sz x) = carry"
    and "alu_v (alu_shift type left v count sz x) = (type = SHIFT_ARITHMETIC \<and> left \<and> changed)"
    and "alu_sets_x (alu_shift type left v count sz x) = (type \<noteq> SHIFT_ROTATE)"
    and "type \<noteq> SHIFT_ROTATE \<Longrightarrow> alu_x (alu_shift type left v count sz x) = x'"
  using assms by (auto simp: alu_shift_def set_nz_def zero_alu_def Let_def)

lemma left_shift_exact:
  assumes sz: "valid_size sz" and type: "type = SHIFT_ARITHMETIC \<or> type = SHIFT_LOGICAL" and n: "0 < count"
  shows "uint (alu_result (alu_shift type True v count sz x)) = (unsigned_operand sz v * 2 ^ count) mod 2 ^ (8 * sz)"
    and "alu_c (alu_shift type True v count sz x) = odd (unsigned_operand sz v * 2 ^ count div 2 ^ (8 * sz))"
    and "alu_v (alu_shift type True v count sz x) =
      (type = SHIFT_ARITHMETIC \<and> \<not> fits_signed sz (signed_operand sz v * 2 ^ count))"
proof -
  let ?m = "v AND width_mask sz"
  obtain r carry x' changed where st: "shift_loop type True sz (?m AND sign_bit sz \<noteq> 0) count (?m, False, x, False)
      = (r, carry, x', changed)" by (metis prod_cases4)
  note loop = left_loop [OF sz masked_bounds(2) [OF sz] type, of v count False x, unfolded st prod.case
      operand_masked [OF sz] unsigned_masked [OF sz]]
  note f = alu_shift_fields [OF st n]
  show "uint (alu_result (alu_shift type True v count sz x)) = (unsigned_operand sz v * 2 ^ count) mod 2 ^ (8 * sz)"
    and "alu_c (alu_shift type True v count sz x) = odd (unsigned_operand sz v * 2 ^ count div 2 ^ (8 * sz))"
    and "alu_v (alu_shift type True v count sz x) =
      (type = SHIFT_ARITHMETIC \<and> \<not> fits_signed sz (signed_operand sz v * 2 ^ count))"
    unfolding f(1-3) using loop n by simp_all
qed

lemma right_shift_exact:
  assumes sz: "valid_size sz" and n: "0 < count"
  shows "uint (alu_result (alu_shift SHIFT_LOGICAL False v count sz x)) = unsigned_operand sz v div 2 ^ count"
    and "alu_c (alu_shift SHIFT_LOGICAL False v count sz x) = odd (unsigned_operand sz v div 2 ^ (count - 1))"
    and "signed_operand sz (alu_result (alu_shift SHIFT_ARITHMETIC False v count sz x)) =
      signed_operand sz v div 2 ^ count"
    and "alu_c (alu_shift SHIFT_ARITHMETIC False v count sz x) = odd (signed_operand sz v div 2 ^ (count - 1))"
    and "\<not> alu_v (alu_shift type False v count sz x)"
proof -
  let ?m = "v AND width_mask sz" and ?s = "(v AND width_mask sz) AND sign_bit sz \<noteq> 0"
  obtain r carry x' changed where st: "shift_loop SHIFT_LOGICAL False sz ?s count (?m, False, x, False)
      = (r, carry, x', changed)" by (metis prod_cases4)
  obtain r1 carry1 x1 changed1 where st1: "shift_loop SHIFT_ARITHMETIC False sz ?s count (?m, False, x, False)
      = (r1, carry1, x1, changed1)" by (metis prod_cases4)
  obtain r2 carry2 x2 changed2 where st2: "shift_loop type False sz ?s count (?m, False, x, False)
      = (r2, carry2, x2, changed2)" by (metis prod_cases4)
  note loop = right_loop(1) [OF sz masked_bounds(2) [OF sz], where s = ?s and k = count and c = False and x = x
      and m = False, of v, unfolded st prod.case unsigned_masked [OF sz]]
  note loop1 = right_loop(2) [OF sz masked_bounds(2) [OF sz], where s = ?s and k = count and c = False and x = x
      and m = False, of v, unfolded st1 prod.case operand_masked [OF sz]]
  show "uint (alu_result (alu_shift SHIFT_LOGICAL False v count sz x)) = unsigned_operand sz v div 2 ^ count"
    and "alu_c (alu_shift SHIFT_LOGICAL False v count sz x) = odd (unsigned_operand sz v div 2 ^ (count - 1))"
    unfolding alu_shift_fields(1,2) [OF st n] using loop n by simp_all
  show "signed_operand sz (alu_result (alu_shift SHIFT_ARITHMETIC False v count sz x)) =
      signed_operand sz v div 2 ^ count"
    and "alu_c (alu_shift SHIFT_ARITHMETIC False v count sz x) = odd (signed_operand sz v div 2 ^ (count - 1))"
    unfolding alu_shift_fields(1,2) [OF st1 n] using loop1 n by simp_all
  show "\<not> alu_v (alu_shift type False v count sz x)" unfolding alu_shift_fields(3) [OF st2 n] by simp
qed

text \<open>C22: a shift by a positive count is multiplication or division by a power of two: the left shifts
  keep the product modulo the size, carry the last bit that left, and the arithmetic one sets V
  exactly when the signed product does not fit, even where it fits again; the right shifts divide,
  the logical one the unsigned and the arithmetic one the signed operand, rounding down.\<close>

theorem shifts_are_powers_of_two:
  assumes "valid_size sz" and "0 < count"
  shows "uint (alu_result (alu_shift SHIFT_ARITHMETIC True v count sz x)) =
      (unsigned_operand sz v * 2 ^ count) mod 2 ^ (8 * sz) \<and>
    alu_c (alu_shift SHIFT_ARITHMETIC True v count sz x) = odd (unsigned_operand sz v * 2 ^ count div 2 ^ (8 * sz)) \<and>
    alu_v (alu_shift SHIFT_ARITHMETIC True v count sz x) = (\<not> fits_signed sz (signed_operand sz v * 2 ^ count)) \<and>
    uint (alu_result (alu_shift SHIFT_LOGICAL True v count sz x)) =
      (unsigned_operand sz v * 2 ^ count) mod 2 ^ (8 * sz) \<and>
    uint (alu_result (alu_shift SHIFT_LOGICAL False v count sz x)) = unsigned_operand sz v div 2 ^ count \<and>
    alu_c (alu_shift SHIFT_LOGICAL False v count sz x) = odd (unsigned_operand sz v div 2 ^ (count - 1)) \<and>
    signed_operand sz (alu_result (alu_shift SHIFT_ARITHMETIC False v count sz x)) =
      signed_operand sz v div 2 ^ count \<and>
    alu_c (alu_shift SHIFT_ARITHMETIC False v count sz x) = odd (signed_operand sz v div 2 ^ (count - 1)) \<and>
    \<not> alu_v (alu_shift SHIFT_ARITHMETIC False v count sz x)"
  using left_shift_exact [OF assms(1) _ assms(2), of SHIFT_ARITHMETIC v x]
    left_shift_exact [OF assms(1) _ assms(2), of SHIFT_LOGICAL v x] right_shift_exact [OF assms, where v = v and x = x]
  by simp

theorem shifts_are_powers_of_two_witness:
  "alu_v (alu_shift SHIFT_ARITHMETIC True 0x40 3 1 False) =
    (\<not> fits_signed 1 (signed_operand 1 0x40 * 2 ^ 3))"
  using shifts_are_powers_of_two [of 1 3 "0x40" False] by (simp add: valid_size_def)

lemma rotate_keeps_extend:
  "fst (snd (snd (shift_loop SHIFT_ROTATE True sz s k (v, c, x, m)))) = x"
  by (induction k) (auto simp: shift_loop_def shift_left_step_def Let_def split: prod.splits)

text \<open>The X flag after an operation, as \<open>alu_apply\<close> leaves it.\<close>

definition extend_after :: "bool \<Rightarrow> alu_result \<Rightarrow> bool" where
  "extend_after x r = (if alu_sets_x r then alu_x r else x)"

text \<open>C33: rotating right undoes rotating left by the same count, at every size and count, with or without
  the extend bit taking part: the operand and the X flag are both restored.\<close>

theorem rotate_right_undoes_left:
  assumes "valid_size sz" and "is_rotate type"
    and l_def: "l = alu_shift type True v count sz x"
    and r_def: "r = alu_shift type False (alu_result l) count sz (extend_after x l)"
  shows "alu_result r = v AND width_mask sz \<and> extend_after (extend_after x l) r = x"
proof (cases "count = 0")
  case True
  then show ?thesis by (simp add: l_def r_def alu_shift_def set_nz_def zero_alu_def extend_after_def Let_def)
next
  case False
  then have n: "0 < count" by simp
  let ?m = "v AND width_mask sz"
  obtain v1 c1 x1 m1 where st: "shift_loop type True sz (?m AND sign_bit sz \<noteq> 0) count (?m, False, x, False)
      = (v1, c1, x1, m1)" by (metis prod_cases4)
  have l: "alu_result l = v1" "extend_after x l = (if type = SHIFT_ROTATE then x else x1)"
    using alu_shift_fields [OF st n] by (simp_all add: l_def extend_after_def)
  note undone = rotate_loops_undone [OF assms(1,2) masked_bounds(2) [OF assms(1), of v]]
  have v1: "uint v1 < 2 ^ (8 * sz)" using undone(2) [OF refl, where s = "?m AND sign_bit sz \<noteq> 0" and k = count and c = False and x = x and m = False]
    unfolding st rotated_def by simp
  then have m1: "v1 AND width_mask sz = v1"
    using unsigned_masked [OF assms(1), of v1]
    by (intro word_uint_eqI) (simp add: unsigned_operand_def mod_pos_pos_trivial)
  have x1: "x1 = x" if type: "type = SHIFT_ROTATE"
    using rotate_keeps_extend [of sz "?m AND sign_bit sz \<noteq> 0" count ?m False x False]
    unfolding st [unfolded type] by simp
  obtain v2 c2 x2 m2 where st2: "shift_loop type False sz ((v1 AND width_mask sz) AND sign_bit sz \<noteq> 0) count
      (v1 AND width_mask sz, False, extend_after x l, False) = (v2, c2, x2, m2)" by (metis prod_cases4)
  have "rotated (v1 AND width_mask sz, False, extend_after x l, False) = rotated (v1, c1, x1, m1)"
    using x1 by (simp add: l m1 rotated_def)
  then have "rotated (v2, c2, x2, m2) = (?m, x)"
    unfolding st [symmetric] st2 [symmetric] by (rule undone(1))
  then have "v2 = ?m" "x2 = x" by (simp_all add: rotated_def)
  moreover have "alu_result r = v2"
    unfolding r_def l(1) by (rule alu_shift_fields(1) [OF st2 n])
  moreover have "extend_after y r = (if type = SHIFT_ROTATE then y else x2)" for y
    using alu_shift_fields(4,5) [OF st2 n] unfolding r_def l(1) by (simp add: extend_after_def [of y])
  ultimately show ?thesis using l(2) by simp
qed

theorem rotate_right_undoes_left_witness:
  "alu_result (alu_shift SHIFT_ROTATE_EXTEND False (alu_result (alu_shift SHIFT_ROTATE_EXTEND True 0x81 3 1 True))
      3 1 (extend_after True (alu_shift SHIFT_ROTATE_EXTEND True 0x81 3 1 True))) = 0x81"
  using rotate_right_undoes_left [of 1 SHIFT_ROTATE_EXTEND _ "0x81" 3 True, OF _ _ refl refl]
  by (simp add: valid_size_def is_rotate_def width_mask_def)

text \<open>C34: decimal addition and subtraction of two-digit operands, with the extend bit: the result is the
  sum or difference modulo one hundred, carry and X say whether it left that range, and Z only ever
  clears.\<close>

theorem decimal_arithmetic_exact:
  assumes "a < 100" and "b < 100"
  shows "alu_result (alu_abcd (bcd a) (bcd b) x z) = bcd ((a + b + of_bool x) mod 100) \<and>
    alu_c (alu_abcd (bcd a) (bcd b) x z) = (100 \<le> a + b + of_bool x) \<and>
    alu_z (alu_abcd (bcd a) (bcd b) x z) = (z \<and> (a + b + of_bool x) mod 100 = 0) \<and>
    alu_result (alu_sbcd (bcd a) (bcd b) x z) = bcd (nat ((int a - int b - of_bool x) mod 100)) \<and>
    alu_c (alu_sbcd (bcd a) (bcd b) x z) = (a < b + of_bool x) \<and>
    alu_z (alu_sbcd (bcd a) (bcd b) x z) = (z \<and> (int a - int b - of_bool x) mod 100 = 0)"
proof -
  have z_flag: "alu_z (alu_abcd d s x z) = (z \<and> alu_result (alu_abcd d s x z) = 0)"
    "alu_z (alu_sbcd d s x z) = (z \<and> alu_result (alu_sbcd d s x z) = 0)" for d s
    by (simp_all add: alu_abcd_def alu_sbcd_def Let_def zero_alu_def split: prod.split)
  have "nat ((int a - int b - of_bool x) mod 100) < 100" by (simp add: nat_less_iff)
  then show ?thesis
    unfolding z_flag abcd_digits [OF assms] sbcd_digits [OF assms] using bcd_zero
    by (cases x) (auto simp: nat_eq_iff2)
qed

theorem decimal_arithmetic_exact_witness:
  "alu_result (alu_abcd (bcd 57) (bcd 68) True True) = bcd 26"
  using decimal_arithmetic_exact [of 57 68 True True] by simp

end
