(* ===== verification/M68030_Bus.thy ===== *)
theory M68030_Bus
  imports Board_Arbiter
begin

text \<open>
  The MC68030's bus cycle, \<^verbatim>\<open>src/core/cpu/m68030/ap_m68030_bus.{h,c}\<close>: the half-clock states of
  a cycle, the strobes each state drives, the asynchronous, synchronous and burst terminations, and
  the loop in which the cache's read (\<^verbatim>\<open>ap_m68030_cache.c\<close>) and the write of an access
  (\<^verbatim>\<open>ap_m68030_access.c\<close>) run a cycle against a device that answers after a number of wait states
  while the rest of the machine is called once per clock.

  The lemmas give the length of every kind of cycle, the strobes a device sees in it, and what the
  loop's limit of 64 clocks does to a cycle that had to wait for the bus.
\<close>

section \<open>The cycle\<close>

datatype bus_state = S_IDLE | S0 | S1 | S2 | S3 | S4 | S5

datatype bus_size = SIZE_BYTE | SIZE_WORD | SIZE_LONG | SIZE_THREE

datatype bus_term = TERM_NONE | TERM_DSACK | TERM_STERM | TERM_BERR

definition MIN_BUS_CLOCKS :: nat where "MIN_BUS_CLOCKS = 2"

definition BURST_BEATS :: nat where "BURST_BEATS = 4"

text \<open>The counters restart with every cycle and are far below the width of the code's integers.\<close>

record bus =
  bus_address :: u32
  bus_function_code :: u8
  bus_size :: bus_size
  bus_read :: bool
  bus_state :: bus_state
  bus_termination :: bus_term
  bus_clocks :: nat
  bus_wait_states :: nat
  bus_active :: bool
  bus_complete :: bool
  bus_advancing_to_s4 :: bool
  bus_cbreq :: bool
  bus_cback :: bool
  bus_bursting :: bool
  bus_burst_beats :: nat
  bus_rmc :: bool
  bus_ecs :: bool
  bus_ocs :: bool
  bus_as :: bool
  bus_ds :: bool
  bus_dben :: bool

definition apply_signals :: "bus \<Rightarrow> bus" where
  "apply_signals bus =
     (let read = bus_read bus in
      case bus_state bus of
        S_IDLE \<Rightarrow> bus\<lparr>bus_ecs := False, bus_ocs := False, bus_as := False, bus_ds := False, bus_dben := False\<rparr>
      | S0 \<Rightarrow> bus\<lparr>bus_ecs := True, bus_as := False, bus_ds := False, bus_dben := False\<rparr>
      | S1 \<Rightarrow> bus\<lparr>bus_ecs := False, bus_ocs := False, bus_as := True, bus_ds := read, bus_dben := \<not> read\<rparr>
      | S2 \<Rightarrow> bus\<lparr>bus_as := True, bus_ds := read, bus_dben := True\<rparr>
      | S3 \<Rightarrow> bus\<lparr>bus_as := True, bus_ds := True, bus_dben := True\<rparr>
      | S4 \<Rightarrow> bus\<lparr>bus_as := True, bus_ds := True, bus_dben := True\<rparr>
      | S5 \<Rightarrow> bus\<lparr>bus_as := False, bus_ds := False, bus_dben := \<not> read\<rparr>)"

definition bus_set_rmc :: "bool \<Rightarrow> bus \<Rightarrow> bus" where
  "bus_set_rmc asserted bus = bus\<lparr>bus_rmc := asserted\<rparr>"

definition bus_begin :: "u32 \<Rightarrow> u8 \<Rightarrow> bus_size \<Rightarrow> bool \<Rightarrow> bool \<Rightarrow> bus \<Rightarrow> bus" where
  "bus_begin address function_code sz read first_operand bus = bus
     \<lparr>bus_address := address, bus_function_code := function_code, bus_size := sz, bus_read := read,
      bus_state := S_IDLE, bus_termination := TERM_NONE, bus_clocks := 0, bus_wait_states := 0,
      bus_active := True, bus_complete := False, bus_advancing_to_s4 := False,
      bus_cbreq := False, bus_cback := False, bus_bursting := False, bus_burst_beats := 0,
      bus_ocs := first_operand, bus_ecs := False, bus_as := False, bus_ds := False, bus_dben := False\<rparr>"

definition bus_request_burst :: "bus \<Rightarrow> bus" where
  "bus_request_burst bus = (if bus_rmc bus then bus else bus\<lparr>bus_cbreq := True\<rparr>)"

definition bus_acknowledge_burst :: "bool \<Rightarrow> bus \<Rightarrow> bus" where
  "bus_acknowledge_burst acknowledged bus = bus\<lparr>bus_cback := acknowledged\<rparr>"

definition bus_terminate :: "bus_term \<Rightarrow> bus \<Rightarrow> bus" where
  "bus_terminate t bus = (if bus_active bus then bus\<lparr>bus_termination := t\<rparr> else bus)"

definition enter :: "bus_state \<Rightarrow> bus \<Rightarrow> bus" where
  "enter s bus = apply_signals (bus\<lparr>bus_state := s\<rparr>)"

definition finish :: "bus \<Rightarrow> bus" where
  "finish bus = (enter S5 bus)\<lparr>bus_active := False, bus_complete := True\<rparr>"

text \<open>A clock of a burst under way.\<close>

definition burst_tick :: "bus \<Rightarrow> bool \<times> bus" where
  "burst_tick bus =
     (if bus_termination bus = TERM_BERR then (True, (finish bus)\<lparr>bus_bursting := False\<rparr>)
      else if bus_termination bus \<noteq> TERM_STERM
      then (False, bus\<lparr>bus_wait_states := bus_wait_states bus + 1\<rparr>)
      else
        let bus = bus\<lparr>bus_burst_beats := bus_burst_beats bus + 1\<rparr>;
            bus = (if bus_burst_beats bus + 1 \<ge> BURST_BEATS then bus\<lparr>bus_cbreq := False\<rparr> else bus)
        in if bus_burst_beats bus \<ge> BURST_BEATS
           then (True, (finish bus)\<lparr>bus_bursting := False\<rparr>)
           else (False, bus))"

text \<open>The clock in which the termination is sampled, and every wait clock.\<close>

definition sample_tick :: "bus \<Rightarrow> bool \<times> bus" where
  "sample_tick bus =
     (let bus = enter S2 bus in
      if bus_termination bus = TERM_NONE
      then (False, enter S3 (bus\<lparr>bus_wait_states := bus_wait_states bus + 1\<rparr>))
      else
        let bus = enter S3 bus in
        if bus_termination bus = TERM_STERM \<and> bus_cbreq bus \<and> bus_cback bus
        then (False, bus\<lparr>bus_burst_beats := 1, bus_bursting := True\<rparr>)
        else if bus_termination bus = TERM_STERM \<or> bus_termination bus = TERM_BERR
        then (True, finish bus)
        else (False, bus\<lparr>bus_advancing_to_s4 := True\<rparr>))"

definition bus_tick :: "bus \<Rightarrow> bool \<times> bus" where
  "bus_tick bus =
     (if \<not> bus_active bus then (False, bus)
      else
        let bus = bus\<lparr>bus_clocks := bus_clocks bus + 1\<rparr> in
        if bus_state bus = S_IDLE then (False, enter S1 (enter S0 bus))
        else if bus_advancing_to_s4 bus then (True, finish (enter S4 bus))
        else if bus_bursting bus then burst_tick bus
        else sample_tick bus)"

section \<open>A cycle against a device\<close>

text \<open>The loop of the cache's read and of the access's write: the device's termination is offered from
  the clock on which \<open>waits\<close> wait states have passed, the machine's clock callback runs after every
  clock, and the loop gives up when more than 64 clocks have been charged to the access, the clocks
  it waited for the bus included.\<close>

function drive_cycle :: "bus_term \<Rightarrow> nat \<Rightarrow> ('m \<Rightarrow> 'm) \<Rightarrow> nat \<Rightarrow> bus \<Rightarrow> 'm \<Rightarrow> nat \<times> bus \<times> 'm" where
  "drive_cycle answer waits clk clocks bus m =
     (if \<not> bus_active bus then (clocks, bus, m)
      else
        let bus = bus_terminate (if bus_wait_states bus \<ge> waits then answer else TERM_NONE) bus;
            bus = snd (bus_tick bus);
            clocks = clocks + 1;
            m = clk m
        in if clocks > 64 then (clocks, bus, m) else drive_cycle answer waits clk clocks bus m)"
  by pat_completeness auto
termination
  by (relation "measure (\<lambda>(_, _, _, clocks, _, _). 65 - clocks)") auto

declare drive_cycle.simps [simp del]

section \<open>The phases of a cycle\<close>

text \<open>A cycle begun and not yet clocked, one that samples its termination after \<open>k\<close> wait states, and
  one that is over.\<close>

definition bus_begun :: "bus \<Rightarrow> bool" where
  "bus_begun b \<longleftrightarrow> bus_active b \<and> bus_state b = S_IDLE \<and> bus_wait_states b = 0 \<and>
     \<not> bus_advancing_to_s4 b \<and> \<not> bus_bursting b \<and> bus_burst_beats b = 0"

definition sampling :: "bool \<Rightarrow> nat \<Rightarrow> bus \<Rightarrow> bool" where
  "sampling burst k b \<longleftrightarrow> bus_active b \<and> bus_state b \<noteq> S_IDLE \<and> bus_wait_states b = k \<and>
     \<not> bus_advancing_to_s4 b \<and> \<not> bus_bursting b \<and> bus_burst_beats b = 0 \<and>
     (bus_cbreq b \<and> bus_cback b) = burst \<and> bus_as b"

definition bursting :: "nat \<Rightarrow> nat \<Rightarrow> bus \<Rightarrow> bool" where
  "bursting k n b \<longleftrightarrow> bus_active b \<and> bus_state b \<noteq> S_IDLE \<and> bus_wait_states b = k \<and>
     \<not> bus_advancing_to_s4 b \<and> bus_bursting b \<and> bus_burst_beats b = n \<and> bus_as b"

definition cycle_over :: "nat \<Rightarrow> nat \<Rightarrow> bus \<Rightarrow> bool" where
  "cycle_over k n b \<longleftrightarrow> \<not> bus_active b \<and> bus_complete b \<and> bus_wait_states b = k \<and> bus_burst_beats b = n \<and>
     \<not> bus_as b \<and> \<not> bus_ds b \<and> bus_dben b = (\<not> bus_read b)"

lemmas bus_phases = bus_begun_def sampling_def bursting_def cycle_over_def

lemmas bus_ticks = bus_tick_def sample_tick_def burst_tick_def enter_def finish_def apply_signals_def
  bus_terminate_def Let_def

lemma begin_begun: "bus_begun (bus_begin a fc sz rd fo b)"
  by (simp add: bus_begun_def bus_begin_def)

lemma begun_tick:
  "bus_begun b \<Longrightarrow> sampling (bus_cbreq b \<and> bus_cback b) 0 (snd (bus_tick (bus_terminate t b)))"
  by (simp add: bus_phases bus_ticks)

lemma sampling_waits:
  "sampling burst k b \<Longrightarrow> sampling burst (Suc k) (snd (bus_tick (bus_terminate TERM_NONE b)))"
  by (simp add: bus_phases bus_ticks)

lemma sampling_ends:
  assumes "sampling burst k b" and "t = TERM_BERR \<or> t = TERM_STERM \<and> \<not> burst"
  shows "cycle_over k 0 (snd (bus_tick (bus_terminate t b)))"
  using assms by (auto simp: bus_phases bus_ticks)

lemma sampling_bursts:
  "sampling True k b \<Longrightarrow> bursting k 1 (snd (bus_tick (bus_terminate TERM_STERM b)))"
  by (simp add: bus_phases bus_ticks)

lemma bursting_beats:
  "bursting k n b \<Longrightarrow> n + 1 < BURST_BEATS \<Longrightarrow> bursting k (Suc n) (snd (bus_tick (bus_terminate TERM_STERM b)))"
  by (simp add: bus_phases bus_ticks BURST_BEATS_def)

lemma bursting_ends:
  "bursting k n b \<Longrightarrow> n + 1 = BURST_BEATS \<Longrightarrow> cycle_over k BURST_BEATS (snd (bus_tick (bus_terminate TERM_STERM b)))"
  by (simp add: bus_phases bus_ticks BURST_BEATS_def)

lemma sampling_acknowledged:
  assumes "sampling burst k b"
  shows "cycle_over k 0 (snd (bus_tick (bus_terminate TERM_DSACK
      (snd (bus_tick (bus_terminate TERM_DSACK b))))))"
    and "bus_active (snd (bus_tick (bus_terminate TERM_DSACK b)))"
    and "bus_wait_states (snd (bus_tick (bus_terminate TERM_DSACK b))) = k"
  using assms by (simp_all add: bus_phases bus_ticks)

section \<open>The loop\<close>

lemma drive_over: "\<not> bus_active b \<Longrightarrow> drive_cycle t w clk c b m = (c, b, m)"
  by (subst drive_cycle.simps) simp

lemma drive_step:
  assumes "bus_active b" "c < 64"
  shows "drive_cycle t w clk c b m = drive_cycle t w clk (Suc c)
    (snd (bus_tick (bus_terminate (if bus_wait_states b \<ge> w then t else TERM_NONE) b))) (clk m)"
  using assms by (subst drive_cycle.simps) (simp add: Let_def)

lemma drive_last:
  assumes "bus_active b" "c \<le> 64"
    and "\<not> bus_active (snd (bus_tick (bus_terminate (if bus_wait_states b \<ge> w then t else TERM_NONE) b)))"
  shows "drive_cycle t w clk c b m =
    (Suc c, snd (bus_tick (bus_terminate (if bus_wait_states b \<ge> w then t else TERM_NONE) b)), clk m)"
  using assms by (subst drive_cycle.simps) (simp add: Let_def drive_over)

text \<open>The clocks from the first sample of the termination to the end.\<close>

definition tail_clocks :: "bus_term \<Rightarrow> bool \<Rightarrow> nat" where
  "tail_clocks t burst = (if t = TERM_DSACK then 2 else if t = TERM_STERM \<and> burst then 4 else 1)"

lemma drive_burst:
  assumes "bursting w n b" "1 \<le> n" "n < BURST_BEATS" "w0 \<le> w" "c + (BURST_BEATS - n) \<le> 65"
  shows "\<exists>b'. drive_cycle TERM_STERM w0 clk c b m =
      (c + (BURST_BEATS - n), b', (clk ^^ (BURST_BEATS - n)) m) \<and> cycle_over w BURST_BEATS b'"
  using assms
proof (induction "BURST_BEATS - n" arbitrary: n b c m)
  case (Suc d)
  have b: "bus_active b" "bus_wait_states b = w" using Suc.prems(1) by (simp_all add: bus_phases)
  let ?b = "snd (bus_tick (bus_terminate TERM_STERM b))"
  show ?case
  proof (cases "n + 1 = BURST_BEATS")
    case True
    have "cycle_over w BURST_BEATS ?b" by (rule bursting_ends [OF Suc.prems(1) True])
    moreover have "drive_cycle TERM_STERM w0 clk c b m = (Suc c, ?b, clk m)"
      using drive_last [OF b(1), of c w0 TERM_STERM clk m] calculation b(2) Suc.prems(4,5) Suc.hyps(2)
      by (simp add: cycle_over_def)
    moreover have "BURST_BEATS - n = 1" using True by simp
    ultimately show ?thesis by simp
  next
    case False
    then have n: "n + 1 < BURST_BEATS" using Suc.prems(3) by simp
    have step: "drive_cycle TERM_STERM w0 clk c b m = drive_cycle TERM_STERM w0 clk (Suc c) ?b (clk m)"
      using drive_step [OF b(1), of c TERM_STERM w0 clk m] b(2) Suc.prems(4,5) n by simp
    obtain b' where "drive_cycle TERM_STERM w0 clk (Suc c) ?b (clk m) =
        (Suc c + (BURST_BEATS - Suc n), b', (clk ^^ (BURST_BEATS - Suc n)) (clk m)) \<and> cycle_over w BURST_BEATS b'"
    proof -
      have "d = BURST_BEATS - Suc n" "1 \<le> Suc n" "Suc n < BURST_BEATS" "Suc c + (BURST_BEATS - Suc n) \<le> 65"
        using Suc.hyps(2) Suc.prems(5) n by simp_all
      then show thesis
        using Suc.hyps(1) [OF _ bursting_beats [OF Suc.prems(1) n] _ _ Suc.prems(4), of "Suc c" "clk m"] that
        by blast
    qed
    moreover have "BURST_BEATS - n = Suc (BURST_BEATS - Suc n)" using n by simp
    ultimately show ?thesis unfolding step by (simp add: funpow_swap1)
  qed
qed simp

lemma drive_sampling:
  assumes "sampling burst k b" "k \<le> w" "t \<noteq> TERM_NONE" "c + (w - k) + tail_clocks t burst \<le> 65"
  shows "\<exists>b'. drive_cycle t w clk c b m =
      (c + (w - k) + tail_clocks t burst, b', (clk ^^ (w - k + tail_clocks t burst)) m) \<and>
    cycle_over w (if t = TERM_STERM \<and> burst then BURST_BEATS else 0) b'"
  using assms
proof (induction "w - k" arbitrary: k b c m)
  case (Suc d)
  have b: "bus_active b" "bus_wait_states b = k" using Suc.prems(1) by (simp_all add: bus_phases)
  let ?b = "snd (bus_tick (bus_terminate TERM_NONE b))"
  have k: "k < w" using Suc.hyps(2) by simp
  have "0 < tail_clocks t burst" by (simp add: tail_clocks_def)
  then have step: "drive_cycle t w clk c b m = drive_cycle t w clk (Suc c) ?b (clk m)"
    using drive_step [OF b(1), of c t w clk m] b(2) k Suc.prems(4) by simp
  obtain b' where "drive_cycle t w clk (Suc c) ?b (clk m) =
      (Suc c + (w - Suc k) + tail_clocks t burst, b', (clk ^^ (w - Suc k + tail_clocks t burst)) (clk m)) \<and>
    cycle_over w (if t = TERM_STERM \<and> burst then BURST_BEATS else 0) b'"
  proof -
    have "d = w - Suc k" "Suc k \<le> w" "Suc c + (w - Suc k) + tail_clocks t burst \<le> 65"
      using Suc.hyps(2) Suc.prems(4) k by simp_all
    then show thesis
      using Suc.hyps(1) [OF _ sampling_waits [OF Suc.prems(1)] _ Suc.prems(3), of "Suc c" "clk m"] that by blast
  qed
  moreover have "w - k = Suc (w - Suc k)" using k by simp
  ultimately show ?case unfolding step by (simp add: funpow_swap1)
next
  case 0
  have b: "bus_active b" "bus_wait_states b = k" using 0(2) by (simp_all add: bus_phases)
  have k: "k = w" using 0 by simp
  let ?b = "snd (bus_tick (bus_terminate t b))"
  consider (ends) "t = TERM_BERR \<or> t = TERM_STERM \<and> \<not> burst" | (dsack) "t = TERM_DSACK"
    | (burst) "t = TERM_STERM" burst using 0(4) by (cases t) auto
  then show ?case
  proof cases
    case ends
    have "cycle_over w 0 ?b" using sampling_ends [OF 0(2) ends] k by simp
    moreover have "drive_cycle t w clk c b m = (Suc c, ?b, clk m)"
      using drive_last [OF b(1), of c w t clk m] calculation b(2) k 0(5) ends
      by (auto simp: cycle_over_def tail_clocks_def)
    ultimately show ?thesis using ends k by (auto simp: tail_clocks_def)
  next
    case dsack
    let ?b' = "snd (bus_tick (bus_terminate t ?b))"
    note ack = sampling_acknowledged [OF 0(2), folded dsack]
    have "drive_cycle t w clk c b m = drive_cycle t w clk (Suc c) ?b (clk m)"
      using drive_step [OF b(1), of c t w clk m] b(2) k 0(5) dsack by (simp add: tail_clocks_def)
    also have "\<dots> = (Suc (Suc c), ?b', clk (clk m))"
      using drive_last [OF ack(2), of "Suc c" w t clk "clk m"] ack(1,3) k 0(5) dsack
      by (simp add: cycle_over_def tail_clocks_def)
    finally show ?thesis using ack(1) k dsack by (simp add: tail_clocks_def)
  next
    case burst
    have s: "sampling True k b" using 0(2) burst(2) by simp
    have "drive_cycle t w clk c b m = drive_cycle t w clk (Suc c) ?b (clk m)"
      using drive_step [OF b(1), of c t w clk m] b(2) k 0(5) burst by (simp add: tail_clocks_def)
    moreover obtain b' where "drive_cycle TERM_STERM w clk (Suc c) ?b (clk m) =
        (Suc c + (BURST_BEATS - 1), b', (clk ^^ (BURST_BEATS - 1)) (clk m)) \<and> cycle_over k BURST_BEATS b'"
      using drive_burst [OF sampling_bursts [OF s], of w "Suc c" clk "clk m"] burst k 0(5)
      by (auto simp: BURST_BEATS_def tail_clocks_def)
    ultimately show ?thesis using burst k by (simp add: tail_clocks_def BURST_BEATS_def numeral_eq_Suc funpow_swap1)
  qed
qed

section \<open>Properties\<close>

definition cycle_length :: "bus_term \<Rightarrow> bool \<Rightarrow> nat" where
  "cycle_length t burst = (if t = TERM_DSACK then 3 else if t = TERM_STERM \<and> burst then 5 else 2)"

lemma drive_begun:
  assumes b: "bus_begun b" and t: "t \<noteq> TERM_NONE" and c: "c + w + cycle_length t (bus_cbreq b \<and> bus_cback b) \<le> 65"
  shows "\<exists>b'. drive_cycle t w clk c b m =
      (c + w + cycle_length t (bus_cbreq b \<and> bus_cback b), b',
       (clk ^^ (w + cycle_length t (bus_cbreq b \<and> bus_cback b))) m) \<and>
    cycle_over w (if t = TERM_STERM \<and> bus_cbreq b \<and> bus_cback b then BURST_BEATS else 0) b'"
proof -
  let ?burst = "bus_cbreq b \<and> bus_cback b" and ?t = "if bus_wait_states b \<ge> w then t else TERM_NONE"
  let ?b = "snd (bus_tick (bus_terminate ?t b))"
  have len: "cycle_length t ?burst = Suc (tail_clocks t ?burst)" "0 < tail_clocks t ?burst"
    by (simp_all add: cycle_length_def tail_clocks_def)
  have act: "bus_active b" using b by (simp add: bus_begun_def)
  have step: "drive_cycle t w clk c b m = drive_cycle t w clk (Suc c) ?b (clk m)"
    using drive_step [OF act, of c t w clk m] c len by simp
  have "Suc c + (w - 0) + tail_clocks t ?burst \<le> 65" using c len by simp
  from drive_sampling [OF begun_tick [OF b, of ?t] le0 t this, of clk "clk m"] show ?thesis
    unfolding step using len(1) by (simp add: funpow_swap1)
qed

text \<open>C39: the length of a cycle: two clocks when the device answers synchronously or with a bus error, three
  asynchronously, five for a burst of four long words, one more for every wait state; it ends with
  the strobes negated (the data buffers of a write apart), and the machine has been called once per
  clock. This holds while the clocks already charged to the access leave room below the limit.\<close>

theorem cycle_takes_documented_clocks:
  assumes "bus_begun b" and "t \<noteq> TERM_NONE"
    and "c + w + cycle_length t (bus_cbreq b \<and> bus_cback b) \<le> 65"
  shows "\<exists>b'. drive_cycle t w clk c b m =
      (c + w + cycle_length t (bus_cbreq b \<and> bus_cback b), b',
       (clk ^^ (w + cycle_length t (bus_cbreq b \<and> bus_cback b))) m) \<and>
    cycle_over w (if t = TERM_STERM \<and> bus_cbreq b \<and> bus_cback b then BURST_BEATS else 0) b'"
  by (rule drive_begun [OF assms])

text \<open>C40: a cycle that follows a long wait for the bus is cut short: once the wait has charged 64 clocks to
  the access the loop leaves after a single clock, with the address strobe asserted, no termination
  sampled and the cycle still open.\<close>

theorem stalled_cycle_is_cut:
  assumes "bus_begun b" and "64 \<le> c"
  shows "\<exists>b'. drive_cycle t w clk c b m = (Suc c, b', clk m) \<and>
    bus_active b' \<and> bus_complete b' = bus_complete b \<and> bus_as b' \<and> bus_state b' = S1"
proof -
  let ?b = "snd (bus_tick (bus_terminate (if bus_wait_states b \<ge> w then t else TERM_NONE) b))"
  have "bus_active b" "bus_active ?b" "bus_complete ?b = bus_complete b" "bus_as ?b" "bus_state ?b = S1"
    using assms(1) by (simp_all add: bus_phases bus_ticks)
  moreover have "drive_cycle t w clk c b m = (Suc c, ?b, clk m)"
    using calculation(1) assms(2) by (subst drive_cycle.simps) (simp add: Let_def)
  ultimately show ?thesis by simp
qed

definition idle_bus :: bus where
  "idle_bus = bus_begin 0 5 SIZE_LONG True True
     \<lparr>bus_address = 0, bus_function_code = 0, bus_size = SIZE_LONG, bus_read = True, bus_state = S_IDLE,
      bus_termination = TERM_NONE, bus_clocks = 0, bus_wait_states = 0, bus_active = False,
      bus_complete = False, bus_advancing_to_s4 = False, bus_cbreq = False, bus_cback = False,
      bus_bursting = False, bus_burst_beats = 0, bus_rmc = False, bus_ecs = False, bus_ocs = False,
      bus_as = False, bus_ds = False, bus_dben = False\<rparr>"

theorem cycle_takes_documented_clocks_witness:
  "fst (drive_cycle TERM_DSACK 4 Suc 0 idle_bus 0) = 7 \<and> snd (snd (drive_cycle TERM_DSACK 4 Suc 0 idle_bus 0)) = 7"
  using cycle_takes_documented_clocks [of idle_bus TERM_DSACK 0 4 Suc 0]
  by (auto simp: idle_bus_def begin_begun cycle_length_def funpow_swap1 numeral_eq_Suc)

theorem stalled_cycle_is_cut_witness:
  "fst (drive_cycle TERM_STERM 0 Suc 70 idle_bus 0) = 71 \<and>
    bus_active (fst (snd (drive_cycle TERM_STERM 0 Suc 70 idle_bus 0)))"
  using stalled_cycle_is_cut [of idle_bus 70 TERM_STERM 0 Suc 0] by (auto simp: idle_bus_def begin_begun)

end
