(* ===== verification/M68030_Cache.thy ===== *)
theory M68030_Cache
  imports M68030_Bus
begin

unbundle bit_operations_syntax

text \<open>
  The MC68030's on-chip instruction and data caches and their control register,
  \<^verbatim>\<open>src/core/cpu/m68030/ap_m68030_cache.{h,c}\<close>: sixteen lines of four long words with a validity
  bit each, the lookup, the entry and line fills, the write policy, the register's clears, and the
  read of a long word through a cache, which runs the bus cycle of a miss.

  Memory is seen as a function of the place a long word has in a cache (tag, line, entry). A cache is
  \<open>coherent\<close> with it when every valid entry holds what memory holds there; the lemmas show that every
  operation keeps that, and that a read then returns what memory holds whether it hits or misses.
\<close>

section \<open>Lines and entries\<close>

definition CACHE_LINES :: nat where "CACHE_LINES = 16"
definition CACHE_ENTRIES :: nat where "CACHE_ENTRIES = 4"

record cache_line =
  cl_tag :: u32
  cl_valid :: "bool list"
  cl_entry :: "u32 list"

type_synonym cache = "cache_line list"

definition cache_line_index :: "u32 \<Rightarrow> nat" where
  "cache_line_index address = unat (drop_bit 4 address AND of_nat (CACHE_LINES - 1))"

definition cache_entry_index :: "u32 \<Rightarrow> nat" where
  "cache_entry_index address = unat (drop_bit 2 address AND of_nat (CACHE_ENTRIES - 1))"

definition cache_tag :: "u32 \<Rightarrow> u8 \<Rightarrow> u32" where
  "cache_tag address function_code =
     (drop_bit 8 address AND 0x00FFFFFF) OR push_bit 24 (ucast (function_code AND 7))"

definition cache_clear :: "cache \<Rightarrow> cache" where
  "cache_clear cache = map (\<lambda>l. l\<lparr>cl_valid := replicate CACHE_ENTRIES False\<rparr>) cache"

definition upd_line :: "u32 \<Rightarrow> (cache_line \<Rightarrow> cache_line) \<Rightarrow> cache \<Rightarrow> cache" where
  "upd_line address f cache =
     cache[cache_line_index address := f (cache ! cache_line_index address)]"

definition cache_clear_entry :: "u32 \<Rightarrow> cache \<Rightarrow> cache" where
  "cache_clear_entry address =
     upd_line address (\<lambda>l. l\<lparr>cl_valid := (cl_valid l)[cache_entry_index address := False]\<rparr>)"

definition cache_lookup :: "cache \<Rightarrow> u32 \<Rightarrow> u8 \<Rightarrow> u32 option" where
  "cache_lookup cache address function_code =
     (let line = cache ! cache_line_index address; entry = cache_entry_index address in
      if cl_tag line \<noteq> cache_tag address function_code then None
      else if \<not> cl_valid line ! entry then None
      else Some (cl_entry line ! entry))"

definition cache_fill_entry :: "u32 \<Rightarrow> u8 \<Rightarrow> u32 \<Rightarrow> cache \<Rightarrow> cache" where
  "cache_fill_entry address function_code value =
     upd_line address (\<lambda>line.
       let t = cache_tag address function_code;
           line = (if cl_tag line \<noteq> t
                   then line\<lparr>cl_valid := replicate CACHE_ENTRIES False, cl_tag := t\<rparr> else line);
           entry = cache_entry_index address
       in line\<lparr>cl_entry := (cl_entry line)[entry := value], cl_valid := (cl_valid line)[entry := True]\<rparr>)"

definition cache_fill_line :: "u32 \<Rightarrow> u8 \<Rightarrow> u32 list \<Rightarrow> cache \<Rightarrow> cache" where
  "cache_fill_line address function_code values =
     upd_line address (\<lambda>line. line\<lparr>cl_tag := cache_tag address function_code,
       cl_entry := take CACHE_ENTRIES values, cl_valid := replicate CACHE_ENTRIES True\<rparr>)"

section \<open>Writes\<close>

datatype cache_write = CACHE_WRITE_HIT | CACHE_WRITE_ALLOCATED | CACHE_WRITE_INVALIDATED
  | CACHE_WRITE_UNTOUCHED

text \<open>The written bytes merged into their lanes of a long word.\<close>

definition merge_lanes :: "u32 \<Rightarrow> nat \<Rightarrow> u32 \<Rightarrow> u32 \<Rightarrow> u32" where
  "merge_lanes address sz value old =
     (let offset = unat (address AND 3);
          bytes = (if sz > 4 - offset then 4 - offset else sz)
      in if bytes \<ge> 4 then value
         else let shift = (4 - offset - bytes) * 8;
                  m = push_bit shift (push_bit (bytes * 8) 1 - 1)
              in (old AND NOT m) OR (push_bit shift value AND m))"

definition cache_write :: "u32 \<Rightarrow> u8 \<Rightarrow> u32 \<Rightarrow> bool \<Rightarrow> bool \<Rightarrow> bool \<Rightarrow> nat \<Rightarrow> cache \<Rightarrow>
    cache_write \<times> cache" where
  "cache_write address function_code value aligned_long_word write_allocate frozen sz cache =
     (let line = cache ! cache_line_index address; entry = cache_entry_index address;
          t = cache_tag address function_code
      in if cl_tag line = t \<and> cl_valid line ! entry
         then (CACHE_WRITE_HIT, upd_line address (\<lambda>line. line\<lparr>cl_entry :=
                 (cl_entry line)[entry := merge_lanes address sz value (cl_entry line ! entry)]\<rparr>) cache)
         else if frozen \<or> \<not> write_allocate then (CACHE_WRITE_UNTOUCHED, cache)
         else if aligned_long_word
         then (CACHE_WRITE_ALLOCATED, upd_line address (\<lambda>line. line
                 \<lparr>cl_valid := (replicate CACHE_ENTRIES False)[entry := True], cl_tag := t,
                  cl_entry := (cl_entry line)[entry := value]\<rparr>) cache)
         else (CACHE_WRITE_INVALIDATED,
               upd_line address (\<lambda>line. line\<lparr>cl_valid := (cl_valid line)[entry := False]\<rparr>) cache))"

section \<open>The cache control register\<close>

abbreviation (input) CACR_WA_BIT :: nat where "CACR_WA_BIT \<equiv> 13"
abbreviation (input) CACR_DBE_BIT :: nat where "CACR_DBE_BIT \<equiv> 12"
abbreviation (input) CACR_CD_BIT :: nat where "CACR_CD_BIT \<equiv> 11"
abbreviation (input) CACR_CED_BIT :: nat where "CACR_CED_BIT \<equiv> 10"
abbreviation (input) CACR_FD_BIT :: nat where "CACR_FD_BIT \<equiv> 9"
abbreviation (input) CACR_ED_BIT :: nat where "CACR_ED_BIT \<equiv> 8"
abbreviation (input) CACR_IBE_BIT :: nat where "CACR_IBE_BIT \<equiv> 4"
abbreviation (input) CACR_CI_BIT :: nat where "CACR_CI_BIT \<equiv> 3"
abbreviation (input) CACR_CEI_BIT :: nat where "CACR_CEI_BIT \<equiv> 2"
abbreviation (input) CACR_FI_BIT :: nat where "CACR_FI_BIT \<equiv> 1"
abbreviation (input) CACR_EI_BIT :: nat where "CACR_EI_BIT \<equiv> 0"
abbreviation (input) CACR_040_DE_BIT :: nat where "CACR_040_DE_BIT \<equiv> 31"
abbreviation (input) CACR_040_IE_BIT :: nat where "CACR_040_IE_BIT \<equiv> 15"

record cacr =
  cacr_write_allocate :: bool
  cacr_data_burst_enable :: bool
  cacr_freeze_data :: bool
  cacr_enable_data :: bool
  cacr_instruction_burst_enable :: bool
  cacr_freeze_instruction :: bool
  cacr_enable_instruction :: bool

datatype cacr_variant = CACR_VARIANT_68030 | CACR_VARIANT_68020 | CACR_VARIANT_68040

definition cacr_variant_mask :: "cacr_variant \<Rightarrow> u32" where
  "cacr_variant_mask v =
     (case v of CACR_VARIANT_68020 \<Rightarrow> 0x0000000F | CACR_VARIANT_68040 \<Rightarrow> 0x80008000
      | CACR_VARIANT_68030 \<Rightarrow> 0x00003F1F)"

definition cacr_bit_at :: "bool \<Rightarrow> nat \<Rightarrow> u32" where
  "cacr_bit_at present position = (if present then push_bit position 1 else 0)"

definition cacr_pack :: "cacr \<Rightarrow> u32" where
  "cacr_pack c =
     cacr_bit_at (cacr_write_allocate c) CACR_WA_BIT OR
     cacr_bit_at (cacr_data_burst_enable c) CACR_DBE_BIT OR
     cacr_bit_at (cacr_freeze_data c) CACR_FD_BIT OR
     cacr_bit_at (cacr_enable_data c) CACR_ED_BIT OR
     cacr_bit_at (cacr_instruction_burst_enable c) CACR_IBE_BIT OR
     cacr_bit_at (cacr_freeze_instruction c) CACR_FI_BIT OR
     cacr_bit_at (cacr_enable_instruction c) CACR_EI_BIT"

definition cacr_pack_variant :: "cacr_variant \<Rightarrow> cacr \<Rightarrow> u32" where
  "cacr_pack_variant v c =
     (if v = CACR_VARIANT_68040
      then (if cacr_enable_data c then push_bit CACR_040_DE_BIT 1 else 0) OR
           (if cacr_enable_instruction c then push_bit CACR_040_IE_BIT 1 else 0)
      else cacr_pack c AND cacr_variant_mask v)"

text \<open>A write of the register, with the clears it performs on the two caches.\<close>

definition cacr_write :: "u32 \<Rightarrow> u32 \<Rightarrow> cacr \<times> cache \<times> cache \<Rightarrow> cacr \<times> cache \<times> cache" where
  "cacr_write word caar = (\<lambda>(c, instruction, data).
     let c = \<lparr>cacr_write_allocate = testbit word CACR_WA_BIT,
              cacr_data_burst_enable = testbit word CACR_DBE_BIT,
              cacr_freeze_data = testbit word CACR_FD_BIT,
              cacr_enable_data = testbit word CACR_ED_BIT,
              cacr_instruction_burst_enable = testbit word CACR_IBE_BIT,
              cacr_freeze_instruction = testbit word CACR_FI_BIT,
              cacr_enable_instruction = testbit word CACR_EI_BIT\<rparr>;
         data = (if testbit word CACR_CD_BIT then cache_clear data else data);
         data = (if testbit word CACR_CED_BIT then cache_clear_entry caar data else data);
         instruction = (if testbit word CACR_CI_BIT then cache_clear instruction else instruction);
         instruction = (if testbit word CACR_CEI_BIT then cache_clear_entry caar instruction else instruction)
     in (c, instruction, data))"

definition cacr_write_variant :: "cacr_variant \<Rightarrow> u32 \<Rightarrow> u32 \<Rightarrow> cacr \<times> cache \<times> cache \<Rightarrow> cacr \<times> cache \<times> cache" where
  "cacr_write_variant v word caar = (\<lambda>(c, instruction, data).
     if v = CACR_VARIANT_68040
     then (c\<lparr>cacr_enable_data := testbit word CACR_040_DE_BIT,
             cacr_enable_instruction := testbit word CACR_040_IE_BIT\<rparr>, instruction, data)
     else cacr_write (word AND cacr_variant_mask v) caar (c, instruction, data))"

definition cache_enabled :: "bool \<Rightarrow> bool \<Rightarrow> bool \<Rightarrow> bool" where
  "cache_enabled enable_bit cache_disable cache_inhibit =
     (if cache_disable \<or> cache_inhibit then False else enable_bit)"

definition cache_burst_request :: "cache \<Rightarrow> u32 \<Rightarrow> u8 \<Rightarrow> bool \<Rightarrow> bool \<Rightarrow> bool \<Rightarrow> bool \<Rightarrow> bool" where
  "cache_burst_request cache address function_code burst_enable enabled frozen read_modify_write =
     (if \<not> burst_enable \<or> \<not> enabled \<or> frozen \<or> read_modify_write then False
      else let line = cache ! cache_line_index address in
        if cl_tag line \<noteq> cache_tag address function_code then True
        else \<not> list_ex (\<lambda>v. v) (cl_valid line))"

section \<open>A read through the cache\<close>

record fill_answer =
  fa_termination :: bus_term
  fa_burst_acknowledge :: bool
  fa_data :: "u32 list"

record cache_access =
  ca_hit :: bool
  ca_value :: u32
  ca_clocks :: nat
  ca_burst :: bool
  ca_long_words :: nat
  ca_bus_error :: bool

definition no_access :: cache_access where
  "no_access = \<lparr>ca_hit = False, ca_value = 0, ca_clocks = 0, ca_burst = False, ca_long_words = 0,
     ca_bus_error = False\<rparr>"

text \<open>What a read needs beyond the cache and the bus; the callbacks work on the machine's state, and
  all but the fill may be absent.\<close>

record 'm cache_request =
  rq_address :: u32
  rq_physical :: u32
  rq_function_code :: u8
  rq_cache_enabled :: bool
  rq_burst_enable :: bool
  rq_frozen :: bool
  rq_read_modify_write :: bool
  rq_fill :: "u32 \<Rightarrow> u8 \<Rightarrow> 'm \<Rightarrow> fill_answer \<times> 'm"
  rq_wait_states :: "(u32 \<Rightarrow> bool \<Rightarrow> 'm \<Rightarrow> nat \<times> 'm) option"
  rq_bus_acquire :: "(rmc \<Rightarrow> 'm \<Rightarrow> nat \<times> 'm) option"
  rq_bus_clock :: "(rmc \<Rightarrow> 'm \<Rightarrow> 'm) option"
  rq_rmc_phase :: rmc

text \<open>The bus cycle of a miss: the clocks it took, the bus it left and the machine.\<close>

definition run_read_cycle :: "'m cache_request \<Rightarrow> u32 \<Rightarrow> bool \<Rightarrow> fill_answer \<Rightarrow> bus \<Rightarrow> 'm \<Rightarrow> nat \<times> bus \<times> 'm" where
  "run_read_cycle rq physical_cycle burst answer bus m =
     (let bus = bus_begin physical_cycle (rq_function_code rq) SIZE_LONG True True
                  (bus\<lparr>bus_rmc := rq_read_modify_write rq\<rparr>);
          bus = (if burst then bus_acknowledge_burst (fa_burst_acknowledge answer) (bus_request_burst bus)
                 else bus);
          (waits, m) = (case rq_wait_states rq of
             None \<Rightarrow> (0, m)
           | Some f \<Rightarrow> if fa_termination answer \<noteq> TERM_BERR then f physical_cycle True m else (0, m));
          (clocks, m) = (case rq_bus_acquire rq of None \<Rightarrow> (0, m) | Some f \<Rightarrow> f (rq_rmc_phase rq) m)
      in drive_cycle (fa_termination answer) waits
           (case rq_bus_clock rq of None \<Rightarrow> (\<lambda>m. m) | Some f \<Rightarrow> f (rq_rmc_phase rq)) clocks bus m)"

definition cache_read_miss :: "'m cache_request \<Rightarrow> cache \<Rightarrow> bus \<Rightarrow> 'm \<Rightarrow> cache_access \<times> cache \<times> bus \<times> 'm" where
  "cache_read_miss rq cache bus m =
     (let address = rq_address rq; fc = rq_function_code rq;
          burst = (rq_cache_enabled rq \<and>
            cache_burst_request cache address fc (rq_burst_enable rq) (rq_cache_enabled rq) (rq_frozen rq)
              (rq_read_modify_write rq));
          physical_cycle = (if burst then rq_physical rq AND NOT 0xF else rq_physical rq AND NOT 3);
          (answer, m) = rq_fill rq physical_cycle fc m;
          (clocks, bus, m) = run_read_cycle rq physical_cycle burst answer bus m;
          burst_done = (bus_burst_beats bus \<ge> BURST_BEATS);
          result = no_access\<lparr>ca_clocks := clocks, ca_burst := burst_done,
                     ca_long_words := (if burst_done then BURST_BEATS else 1)\<rparr>
      in if fa_termination answer = TERM_BERR
         then (result\<lparr>ca_bus_error := True, ca_long_words := 0\<rparr>, cache, bus, m)
         else
           let result = result\<lparr>ca_value := (if burst_done then fa_data answer ! cache_entry_index address
                                            else fa_data answer ! 0)\<rparr>
           in if \<not> rq_cache_enabled rq \<or> rq_frozen rq then (result, cache, bus, m)
              else if burst_done
              then (result, cache_fill_line (address AND NOT 0xF) fc (fa_data answer) cache, bus, m)
              else (result, cache_fill_entry address fc (fa_data answer ! 0) cache, bus, m))"

definition cache_read :: "'m cache_request \<Rightarrow> cache \<Rightarrow> bus \<Rightarrow> 'm \<Rightarrow> cache_access \<times> cache \<times> bus \<times> 'm" where
  "cache_read rq cache bus m =
     (if rq_cache_enabled rq \<and> \<not> rq_read_modify_write rq
      then case cache_lookup cache (rq_address rq) (rq_function_code rq) of
             Some v \<Rightarrow> (no_access\<lparr>ca_hit := True, ca_value := v\<rparr>, cache, bus, m)
           | None \<Rightarrow> cache_read_miss rq cache bus m
      else cache_read_miss rq cache bus m)"

section \<open>Coherence with memory\<close>

text \<open>The place of a long word: its tag, its line and its entry.\<close>

type_synonym cache_slot = "u32 \<times> nat \<times> nat"

definition slot_of :: "u32 \<Rightarrow> u8 \<Rightarrow> cache_slot" where
  "slot_of address fc = (cache_tag address fc, cache_line_index address, cache_entry_index address)"

definition line_wf :: "cache_line \<Rightarrow> bool" where
  "line_wf l \<longleftrightarrow> length (cl_valid l) = 4 \<and> length (cl_entry l) = 4"

definition line_coherent :: "(cache_slot \<Rightarrow> u32) \<Rightarrow> nat \<Rightarrow> cache_line \<Rightarrow> bool" where
  "line_coherent mem i l \<longleftrightarrow> (\<forall>e < 4. cl_valid l ! e \<longrightarrow> cl_entry l ! e = mem (cl_tag l, i, e))"

definition coherent :: "(cache_slot \<Rightarrow> u32) \<Rightarrow> cache \<Rightarrow> bool" where
  "coherent mem c \<longleftrightarrow> length c = 16 \<and> (\<forall>i < 16. line_wf (c ! i) \<and> line_coherent mem i (c ! i))"

lemma line_index_less [simp]: "cache_line_index a < 16"
proof -
  have "drop_bit 4 a AND of_nat (CACHE_LINES - 1) = take_bit 4 (drop_bit 4 a)"
    by (simp add: take_bit_eq_mask CACHE_LINES_def mask_eq_exp_minus_1)
  then show ?thesis
    using take_bit_self_iff [of 4 "take_bit 4 (drop_bit 4 a)"] by (simp add: cache_line_index_def)
qed

lemma entry_index_less [simp]: "cache_entry_index a < 4"
proof -
  have "drop_bit 2 a AND of_nat (CACHE_ENTRIES - 1) = take_bit 2 (drop_bit 2 a)"
    by (simp add: take_bit_eq_mask CACHE_ENTRIES_def mask_eq_exp_minus_1)
  then show ?thesis
    using take_bit_self_iff [of 2 "take_bit 2 (drop_bit 2 a)"] by (simp add: cache_entry_index_def)
qed

text \<open>An operation on one line keeps the cache coherent if it keeps that line so; the other lines hold
  other long words.\<close>

lemma coherent_upd_line:
  assumes c: "coherent mem c"
    and f: "\<And>l. line_wf l \<Longrightarrow> line_coherent mem (cache_line_index a) l \<Longrightarrow>
      line_wf (f l) \<and> line_coherent mem' (cache_line_index a) (f l)"
    and same: "\<And>t i e. i < 16 \<Longrightarrow> e < 4 \<Longrightarrow> i \<noteq> cache_line_index a \<Longrightarrow> mem' (t, i, e) = mem (t, i, e)"
  shows "coherent mem' (upd_line a f c)"
  unfolding coherent_def
proof (intro conjI allI impI)
  show "length (upd_line a f c) = 16" using c by (simp add: coherent_def upd_line_def)
  fix i :: nat
  assume i: "i < 16"
  have l: "line_wf (c ! i)" "line_coherent mem i (c ! i)" "length c = 16" using c i by (simp_all add: coherent_def)
  show "line_wf (upd_line a f c ! i)" and "line_coherent mem' i (upd_line a f c ! i)"
    using f [of "c ! i"] l i same by (cases "i = cache_line_index a"; simp add: upd_line_def line_coherent_def)+
qed

lemmas coherence = line_wf_def line_coherent_def CACHE_ENTRIES_def nth_list_update

lemma clear_coherent: "coherent mem c \<Longrightarrow> coherent mem (cache_clear c)"
  by (auto simp: coherent_def cache_clear_def coherence)

lemma clear_entry_coherent: "coherent mem c \<Longrightarrow> coherent mem (cache_clear_entry a c)"
  unfolding cache_clear_entry_def by (rule coherent_upd_line) (auto simp: coherence)

lemma fill_entry_coherent:
  assumes "coherent mem c" and "v = mem (slot_of a fc)"
  shows "coherent mem (cache_fill_entry a fc v c)"
  unfolding cache_fill_entry_def Let_def
  by (rule coherent_upd_line [OF assms(1)]) (auto simp: coherence assms(2) slot_of_def)

lemma fill_line_coherent:
  assumes "coherent mem c" and "4 \<le> length vs"
    and "\<And>e. e < 4 \<Longrightarrow> vs ! e = mem (cache_tag a fc, cache_line_index a, e)"
  shows "coherent mem (cache_fill_line a fc vs c)"
  unfolding cache_fill_line_def
  by (rule coherent_upd_line [OF assms(1)]) (use assms(2,3) in \<open>auto simp: coherence\<close>)

lemma lookup_coherent:
  assumes "coherent mem c" and "cache_lookup c a fc = Some v"
  shows "v = mem (slot_of a fc)"
proof -
  have "line_coherent mem (cache_line_index a) (c ! cache_line_index a)" using assms(1) by (simp add: coherent_def)
  then show ?thesis
    using assms(2) by (auto simp: cache_lookup_def line_coherent_def slot_of_def Let_def split: if_splits)
qed

text \<open>A write leaves the cache coherent with the memory it wrote to. Other places may show the same long
  word of memory, but then in the same line and entry (translation leaves those address bits alone);
  with write allocation on and the cache not frozen none of them survives, otherwise there must be
  none.\<close>

definition write_effect :: "u32 \<Rightarrow> u8 \<Rightarrow> nat \<Rightarrow> u32 \<Rightarrow> bool \<Rightarrow> (cache_slot \<Rightarrow> u32) \<Rightarrow> (cache_slot \<Rightarrow> u32) \<Rightarrow> bool" where
  "write_effect a fc sz v alone mem mem' \<longleftrightarrow>
     mem' (slot_of a fc) = merge_lanes a sz v (mem (slot_of a fc)) \<and>
     (\<forall>t. \<forall>i < 16. \<forall>e < 4. (t, i, e) \<noteq> slot_of a fc \<longrightarrow> mem' (t, i, e) = mem (t, i, e) \<or>
        \<not> alone \<and> i = cache_line_index a \<and> e = cache_entry_index a)"

lemma write_coherent:
  assumes c: "coherent mem c" and aligned: "al \<Longrightarrow> sz = 4 \<and> a AND 3 = 0"
    and effect: "write_effect a fc sz v (frozen \<or> \<not> wa) mem mem'"
  shows "coherent mem' (snd (cache_write a fc v al wa frozen sz c))"
proof -
  let ?i = "cache_line_index a" and ?e = "cache_entry_index a" and ?t = "cache_tag a fc"
  have i: "?i < length c" "line_wf (c ! ?i)" "line_coherent mem ?i (c ! ?i)" using c by (simp_all add: coherent_def)
  have here: "mem' (?t, ?i, ?e) = merge_lanes a sz v (mem (?t, ?i, ?e))"
    using effect by (simp add: write_effect_def slot_of_def)
  have other: "mem' (t, i, e) = mem (t, i, e) \<or> \<not> (frozen \<or> \<not> wa) \<and> i = ?i \<and> e = ?e"
    if "i < 16" "e < 4" "(t, i, e) \<noteq> (?t, ?i, ?e)" for t i e
    using effect that unfolding write_effect_def slot_of_def by blast
  have entry: "\<And>t e. e < 4 \<Longrightarrow> e \<noteq> ?e \<Longrightarrow> mem' (t, ?i, e) = mem (t, ?i, e)"
    and line: "\<And>t i e. i < 16 \<Longrightarrow> e < 4 \<Longrightarrow> i \<noteq> ?i \<Longrightarrow> mem' (t, i, e) = mem (t, i, e)"
    and alone: "\<And>t e. frozen \<or> \<not> wa \<Longrightarrow> e < 4 \<Longrightarrow> (t, e) \<noteq> (?t, ?e) \<Longrightarrow> mem' (t, ?i, e) = mem (t, ?i, e)"
    using other line_index_less [of a] by blast+
  have upd: "coherent mem' (upd_line a f c)"
    if "\<And>l. line_wf l \<Longrightarrow> line_coherent mem ?i l \<Longrightarrow> l = c ! ?i \<Longrightarrow> line_wf (f l) \<and> line_coherent mem' ?i (f l)" for f
  proof -
    have "upd_line a f c = upd_line a (\<lambda>_. f (c ! ?i)) c" by (simp add: upd_line_def)
    moreover have "coherent mem' (upd_line a (\<lambda>_. f (c ! ?i)) c)"
      by (rule coherent_upd_line [OF c]) (use that i(2,3) line in auto)
    ultimately show ?thesis by simp
  qed
  consider (hit) "cl_tag (c ! ?i) = ?t" "cl_valid (c ! ?i) ! ?e"
    | (untouched) "\<not> (cl_tag (c ! ?i) = ?t \<and> cl_valid (c ! ?i) ! ?e)" "frozen \<or> \<not> wa"
    | (allocate) "\<not> (cl_tag (c ! ?i) = ?t \<and> cl_valid (c ! ?i) ! ?e)" "\<not> (frozen \<or> \<not> wa)" al
    | (invalidate) "\<not> (cl_tag (c ! ?i) = ?t \<and> cl_valid (c ! ?i) ! ?e)" "\<not> (frozen \<or> \<not> wa)" "\<not> al" by blast
  then show ?thesis
  proof cases
    case hit
    have "coherent mem' (upd_line a (\<lambda>l. l\<lparr>cl_entry :=
        (cl_entry l)[?e := merge_lanes a sz v (cl_entry l ! ?e)]\<rparr>) c)"
      by (rule upd) (use hit here entry in \<open>auto simp: coherence\<close>)
    then show ?thesis using hit by (simp add: cache_write_def Let_def)
  next
    case untouched
    have "coherent mem' (upd_line a (\<lambda>l. l) c)"
    proof (rule upd)
      have "mem' (cl_tag (c ! ?i), ?i, e) = mem (cl_tag (c ! ?i), ?i, e)" if "cl_valid (c ! ?i) ! e" "e < 4" for e
        by (rule alone [OF untouched(2) that(2)]) (use untouched(1) that in auto)
      then show "line_wf l \<and> line_coherent mem' ?i l"
        if "line_wf l" "line_coherent mem ?i l" "l = c ! ?i" for l
        using that by (simp add: line_coherent_def)
    qed
    then show ?thesis using untouched by (auto simp: cache_write_def upd_line_def Let_def)
  next
    case allocate
    have "merge_lanes a sz v old = v" for old using aligned [OF allocate(3)] by (simp add: merge_lanes_def Let_def)
    then have "coherent mem' (upd_line a (\<lambda>line. line\<lparr>cl_valid := (replicate CACHE_ENTRIES False)[?e := True],
        cl_tag := ?t, cl_entry := (cl_entry line)[?e := v]\<rparr>) c)"
      by (intro upd) (auto simp: coherence here)
    then show ?thesis using allocate by (auto simp: cache_write_def Let_def)
  next
    case invalidate
    have "coherent mem' (upd_line a (\<lambda>l. l\<lparr>cl_valid := (cl_valid l)[?e := False]\<rparr>) c)"
      by (rule upd) (use entry in \<open>auto simp: coherence\<close>)
    then show ?thesis using invalidate by (auto simp: cache_write_def Let_def)
  qed
qed

section \<open>Reads\<close>

lemma tick_no_burst:
  assumes "\<not> (bus_cbreq b \<and> bus_cback b)" "\<not> bus_bursting b" "bus_burst_beats b = 0"
  shows "\<not> (bus_cbreq (snd (bus_tick (bus_terminate t b))) \<and> bus_cback (snd (bus_tick (bus_terminate t b))))" "\<not> bus_bursting (snd (bus_tick (bus_terminate t b)))"
    "bus_burst_beats (snd (bus_tick (bus_terminate t b))) = 0"
  using assms by (auto simp: bus_ticks split: bus_state.split)

lemma drive_no_burst:
  "\<not> (bus_cbreq b \<and> bus_cback b) \<Longrightarrow> \<not> bus_bursting b \<Longrightarrow> bus_burst_beats b = 0 \<Longrightarrow>
    bus_burst_beats (fst (snd (drive_cycle t w clk c b m))) = 0"
proof (induction t w clk c b m rule: drive_cycle.induct)
  case (1 t w clk c b m)
  show ?case
  proof (cases "bus_active b")
    case True
    note next_bus = tick_no_burst [OF 1(2-4)]
    show ?thesis
    proof (cases "c + 1 > 64")
      case True
      then show ?thesis using \<open>bus_active b\<close> next_bus by (subst drive_cycle.simps) (simp add: Let_def)
    next
      case False
      then show ?thesis
        using 1(1) [OF _ refl refl refl refl] \<open>bus_active b\<close> next_bus
        by (subst drive_cycle.simps) (simp add: Let_def)
    qed
  qed (use 1(4) in \<open>simp add: drive_over\<close>)
qed

text \<open>Callbacks that leave the loop's limit room for a burst.\<close>

definition prompt :: "'m cache_request \<Rightarrow> bool" where
  "prompt rq \<longleftrightarrow>
     (case rq_wait_states rq of None \<Rightarrow> True | Some f \<Rightarrow> \<forall>p r m. fst (f p r m) \<le> 30) \<and>
     (case rq_bus_acquire rq of None \<Rightarrow> True | Some f \<Rightarrow> \<forall>ph m. fst (f ph m) \<le> 30)"

lemma read_cycle_single:
  "\<not> (burst \<and> fa_burst_acknowledge answer) \<Longrightarrow>
    bus_burst_beats (fst (snd (run_read_cycle rq p burst answer b m))) = 0"
  unfolding run_read_cycle_def Let_def
  by (auto simp: bus_begin_def bus_request_burst_def bus_acknowledge_burst_def intro!: drive_no_burst split: prod.split)

lemma read_cycle_burst:
  assumes "prompt rq" and "\<not> rq_read_modify_write rq" and "fa_termination answer = TERM_STERM"
    and "fa_burst_acknowledge answer"
  shows "bus_burst_beats (fst (snd (run_read_cycle rq p True answer b m))) = BURST_BEATS"
proof -
  let ?b = "bus_acknowledge_burst (fa_burst_acknowledge answer) (bus_request_burst
      (bus_begin p (rq_function_code rq) SIZE_LONG True True (b\<lparr>bus_rmc := rq_read_modify_write rq\<rparr>)))"
  have b: "bus_begun ?b" "bus_cbreq ?b" "bus_cback ?b"
    using assms(2,4) by (simp_all add: bus_begun_def bus_begin_def bus_request_burst_def bus_acknowledge_burst_def)
  have finished: "bus_burst_beats (fst (snd (drive_cycle TERM_STERM w clk c ?b m))) = BURST_BEATS"
    if "w \<le> 30" "c \<le> 30" for w clk c m
  proof -
    have "c + w + cycle_length TERM_STERM (bus_cbreq ?b \<and> bus_cback ?b) \<le> 65"
      using that by (simp add: cycle_length_def)
    from drive_begun [OF b(1) _ this, of clk m] show ?thesis using b(2,3) by (auto simp: cycle_over_def)
  qed
  obtain w m1 where w: "(case rq_wait_states rq of None \<Rightarrow> (0, m) | Some f \<Rightarrow>
      if fa_termination answer \<noteq> TERM_BERR then f p True m else (0, m)) = (w, m1)" by fastforce
  obtain c m2 where c: "(case rq_bus_acquire rq of None \<Rightarrow> (0, m1) | Some f \<Rightarrow> f (rq_rmc_phase rq) m1) = (c, m2)"
    by fastforce
  have "w \<le> 30"
  proof (cases "rq_wait_states rq")
    case (Some f)
    have "fst (f p True m) \<le> 30" using assms(1) Some by (simp add: prompt_def)
    then show ?thesis using w Some assms(3) by simp
  qed (use w in simp)
  moreover have "c \<le> 30"
  proof (cases "rq_bus_acquire rq")
    case (Some f)
    have "fst (f (rq_rmc_phase rq) m1) \<le> 30" using assms(1) Some by (simp add: prompt_def)
    then show ?thesis using c Some by simp
  qed (use c in simp)
  ultimately show ?thesis
    unfolding run_read_cycle_def Let_def w prod.case c if_True using finished assms(3) by simp
qed

text \<open>Whether a miss asks for a burst, and a memory system that answers a fill with what memory holds: a
  requested burst is acknowledged and supplies the line, anything else the addressed long word.\<close>

definition asks_burst :: "'m cache_request \<Rightarrow> cache \<Rightarrow> bool" where
  "asks_burst rq c \<longleftrightarrow> rq_cache_enabled rq \<and>
     cache_burst_request c (rq_address rq) (rq_function_code rq) (rq_burst_enable rq) (rq_cache_enabled rq)
       (rq_frozen rq) (rq_read_modify_write rq)"

definition answers_memory :: "(cache_slot \<Rightarrow> u32) \<Rightarrow> 'm cache_request \<Rightarrow> cache \<Rightarrow> 'm \<Rightarrow> bool" where
  "answers_memory mem rq c m \<longleftrightarrow>
     (let answer = fst (rq_fill rq (if asks_burst rq c then rq_physical rq AND NOT 0xF
                                    else rq_physical rq AND NOT 3) (rq_function_code rq) m);
          a = rq_address rq; fc = rq_function_code rq
      in fa_termination answer = TERM_BERR \<or>
         (if asks_burst rq c
          then fa_termination answer = TERM_STERM \<and> fa_burst_acknowledge answer \<and> length (fa_data answer) = 4 \<and>
               list_all (\<lambda>e. fa_data answer ! e = mem (cache_tag a fc, cache_line_index a, e)) [0..<4]
          else fa_data answer ! 0 = mem (slot_of a fc)))"

lemma line_base_slot:
  "cache_tag (a AND NOT 0xF) fc = cache_tag a fc" "cache_line_index (a AND NOT 0xF) = cache_line_index a"
proof -
  have n: "NOT (0xF :: u32) = NOT (mask 4)" by (simp add: mask_eq_exp_minus_1)
  have d: "drop_bit k (a AND NOT 0xF) = drop_bit k a" if "4 \<le> k" for k
    unfolding n using that bit_imp_le_length [of a]
    by (intro bit_word_eqI) (fastforce simp: bit_drop_bit_eq bit_and_iff bit_not_iff bit_mask_iff)
  show "cache_tag (a AND NOT 0xF) fc = cache_tag a fc"
    unfolding cache_tag_def by (subst d) simp_all
  show "cache_line_index (a AND NOT 0xF) = cache_line_index a"
    unfolding cache_line_index_def by (subst d) simp_all
qed

lemma read_miss_coherent:
  assumes c: "coherent mem c" and mem: "answers_memory mem rq c m" and quick: "asks_burst rq c \<longrightarrow> prompt rq"
    and r: "cache_read_miss rq c b m = (r, c', b', m')"
  shows "coherent mem c'" and "\<not> ca_bus_error r \<Longrightarrow> ca_value r = mem (slot_of (rq_address rq) (rq_function_code rq))"
proof -
  let ?a = "rq_address rq" and ?fc = "rq_function_code rq"
  let ?burst = "asks_burst rq c"
  let ?cycle = "if ?burst then rq_physical rq AND NOT 0xF else rq_physical rq AND NOT 3"
  obtain answer m1 where fill: "rq_fill rq ?cycle ?fc m = (answer, m1)" by fastforce
  obtain clocks b1 m2 where cycle: "run_read_cycle rq ?cycle ?burst answer b m1 = (clocks, b1, m2)"
    by (metis prod_cases3)
  note miss = r [unfolded cache_read_miss_def Let_def asks_burst_def [symmetric] fill prod.case cycle]
  note ans = mem [unfolded answers_memory_def Let_def fill fst_conv]
  have beats: "bus_burst_beats b1 = (if ?burst then BURST_BEATS else 0)" if "fa_termination answer \<noteq> TERM_BERR"
  proof (cases ?burst)
    case True
    then have "\<not> rq_read_modify_write rq" by (simp add: asks_burst_def cache_burst_request_def split: if_splits)
    then show ?thesis
      using read_cycle_burst [of rq answer ?cycle b m1] True quick ans that cycle by simp
  next
    case False
    then show ?thesis using read_cycle_single [of ?burst answer rq ?cycle b m1] cycle by simp
  qed
  have data: "fa_data answer ! (if ?burst then cache_entry_index ?a else 0) = mem (slot_of ?a ?fc)"
    if "fa_termination answer \<noteq> TERM_BERR"
    using ans that entry_index_less [of ?a] by (auto simp: list_all_iff slot_of_def split: if_splits)
  have line: "coherent mem (cache_fill_line (?a AND NOT 0xF) ?fc (fa_data answer) c)"
    if "fa_termination answer \<noteq> TERM_BERR" ?burst
  proof (rule fill_line_coherent [OF c], unfold line_base_slot)
    show "4 \<le> length (fa_data answer)" using ans that by simp
    show "fa_data answer ! e = mem (cache_tag ?a ?fc, cache_line_index ?a, e)" if "e < 4" for e
      using ans that \<open>fa_termination answer \<noteq> TERM_BERR\<close> \<open>?burst\<close> by (simp add: list_all_iff)
  qed
  show "coherent mem c'"
    using miss beats data line c fill_entry_coherent [OF c, of "fa_data answer ! 0" ?a ?fc]
    by (auto simp: BURST_BEATS_def split: if_splits)
  show "ca_value r = mem (slot_of ?a ?fc)" if "\<not> ca_bus_error r"
    using miss beats data that by (auto simp: BURST_BEATS_def no_access_def split: if_splits)
qed

lemma read_coherent:
  assumes "coherent mem c" and "answers_memory mem rq c m" and "asks_burst rq c \<longrightarrow> prompt rq"
    and r: "cache_read rq c b m = (r, c', b', m')"
  shows "coherent mem c'" and "\<not> ca_bus_error r \<Longrightarrow> ca_value r = mem (slot_of (rq_address rq) (rq_function_code rq))"
proof -
  show "coherent mem c'"
    using r assms(1) read_miss_coherent(1) [OF assms(1-3)]
    by (auto simp: cache_read_def split: if_splits option.splits)
  show "\<not> ca_bus_error r \<Longrightarrow> ca_value r = mem (slot_of (rq_address rq) (rq_function_code rq))"
    using r read_miss_coherent(2) [OF assms(1-3)] lookup_coherent [OF assms(1), of "rq_address rq" "rq_function_code rq"]
    by (auto simp: cache_read_def no_access_def split: if_splits option.splits)
qed

end
