(* ===== verification/Memory_View.thy ===== *)
theory Memory_View
  imports M68030_Access
begin

unbundle bit_operations_syntax

text \<open>
  What the processor's access path sees of a memory system. A memory is a function from byte addresses;
  a cached long word is the big-endian value of four of its bytes, found from the place it has in the
  cache. The interface \<open>backing_memory\<close> states what the path needs of a machine behind it (fills that
  answer with the bytes, stores that write them, callbacks that leave them alone); inside it, every read
  returns the bytes of memory and every write stores its own, through whatever the cache holds.
\<close>

section \<open>Bytes and long words\<close>

definition be_long :: "(u32 \<Rightarrow> u8) \<Rightarrow> u32 \<Rightarrow> u32" where
  "be_long f p = push_bit 24 (ucast (f p)) OR push_bit 16 (ucast (f (p + 1))) OR
     push_bit 8 (ucast (f (p + 2))) OR ucast (f (p + 3))"

definition stored_byte :: "u32 \<Rightarrow> u32 \<Rightarrow> nat \<Rightarrow> u32 \<Rightarrow> u8" where
  "stored_byte p v sz q = ucast (drop_bit (8 * (sz - 1 - unat (q - p))) v)"

lemma bit_be_long:
  assumes "n < 32"
  shows "bit (be_long f p) n = bit (f (p + of_nat (3 - n div 8))) (n mod 8)"
proof -
  consider (a) "n < 8" | (b) "8 \<le> n" "n < 16" | (c) "16 \<le> n" "n < 24" | (d) "24 \<le> n" using assms by linarith
  then show ?thesis
  proof cases
    case a
    then show ?thesis by (auto simp: be_long_def bit_or_iff bit_push_bit_iff bit_ucast_iff)
  next
    case b
    then have "n div 8 = 1" "n mod 8 = n - 8" by presburger+
    then show ?thesis using b
      by (auto simp: be_long_def bit_or_iff bit_push_bit_iff bit_ucast_iff dest: bit_imp_le_length)
  next
    case c
    then have "n div 8 = 2" "n mod 8 = n - 16" by presburger+
    then show ?thesis using c
      by (auto simp: be_long_def bit_or_iff bit_push_bit_iff bit_ucast_iff dest: bit_imp_le_length)
  next
    case d
    then have "n div 8 = 3" "n mod 8 = n - 24" using assms by presburger+
    then show ?thesis using d assms
      by (auto simp: be_long_def bit_or_iff bit_push_bit_iff bit_ucast_iff dest: bit_imp_le_length)
  qed
qed

lemma bit_merge_lanes:
  assumes "n < 32" "0 < sz" "unat (a AND 3) + sz \<le> 4"
  shows "bit (merge_lanes a sz v old) n =
    (if 8 * (4 - unat (a AND 3) - sz) \<le> n \<and> n < 8 * (4 - unat (a AND 3))
     then bit v (n - 8 * (4 - unat (a AND 3) - sz)) else bit old n)"
proof -
  let ?off = "unat (a AND 3)" and ?sh = "8 * (4 - unat (a AND 3) - sz)"
  have ones: "push_bit k 1 - 1 = (mask k :: u32)" for k by (simp add: mask_eq_exp_minus_1 push_bit_of_1)
  have "(4 - ?off - sz) * 8 = ?sh" "?sh + 8 * sz = 8 * (4 - ?off)" using assms(3) by linarith+
  then show ?thesis
    using assms unfolding merge_lanes_def Let_def ones
    by (auto simp: bit_or_iff bit_and_iff bit_not_iff bit_push_bit_iff bit_mask_iff mult.commute)
qed

text \<open>The bytes of a long word.\<close>

lemma long_place:
  assumes "P AND 3 = (0::u32)" "j < 4"
  shows "(P + of_nat j) AND NOT 3 = P" "unat ((P + of_nat j) AND 3) = j"
proof -
  have "unat (of_nat j :: u32) = j" using assms(2) by (simp add: unat_of_nat take_bit_nat_eq_self)
  then have j: "of_nat j = (take_bit 2 (of_nat j) :: u32)" "unat (of_nat j :: u32) = j"
    using assms(2) take_bit_self_iff [of 2 "of_nat j :: u32"] by simp_all
  have three: "(3::u32) = mask 2" by (simp add: mask_eq_exp_minus_1)
  have low: "\<not> bit P k" if "k < 2" for k
    using assms(1) that unfolding three by (metis bit_0_eq bit_and_iff bit_mask_iff bot_apply bot_bool_def
      bit_imp_le_length possible_bit_word)
  have low': "2 \<le> k" if "bit P k" for k using low that not_less by blast
  have high: "\<not> bit (of_nat j :: u32) k" if "2 \<le> k" for k
    using arg_cong [OF j(1), of "\<lambda>w. bit w k"] that by (simp add: bit_take_bit_iff)
  have disj: "P AND (of_nat j :: u32) = 0"
    by (rule bit_word_eqI) (metis bit_0_eq bit_and_iff bot_apply bot_bool_def low high not_less)
  have sum: "P + of_nat j = P OR of_nat j" by (rule disjunctive_add_eq_or [OF disj])
  show "(P + of_nat j) AND NOT 3 = P"
    unfolding sum three by (rule bit_word_eqI) (use low' high in \<open>auto simp: bit_and_iff bit_or_iff bit_not_iff bit_mask_iff not_less\<close>)
  have "(P + of_nat j) AND 3 = of_nat j"
    using assms(1) j(1) unfolding sum by (simp add: bit.conj_disj_distrib2 three flip: take_bit_eq_mask)
  then show "unat ((P + of_nat j) AND 3) = j" using j(2) by simp
qed

text \<open>A store of \<open>sz\<close> big-endian bytes, and what it makes of the long words of memory.\<close>

definition store_bytes :: "u32 \<Rightarrow> nat \<Rightarrow> u32 \<Rightarrow> (u32 \<Rightarrow> u8) \<Rightarrow> (u32 \<Rightarrow> u8)" where
  "store_bytes p sz v f = (\<lambda>q. if unat (q - p) < sz then stored_byte p v sz q else f q)"

lemma bit_stored_byte: "bit (stored_byte p v sz q) n \<longleftrightarrow> n < 8 \<and> bit v (8 * (sz - 1 - unat (q - p)) + n)"
  unfolding stored_byte_def bit_ucast_iff bit_drop_bit_eq by (auto dest: bit_imp_le_length)

lemma align_split:
  "p = (p AND NOT 3) + of_nat (unat (p AND 3))" "(p AND NOT 3) AND 3 = 0" "unat (p AND 3) < 4" for p :: u32
proof -
  have "(p AND NOT 3) + (p AND 3) = (p AND NOT 3) OR (p AND 3)"
    by (rule disjunctive_add_eq_or) (simp add: and.assoc and.left_commute)
  also have "\<dots> = p" by (simp flip: bit.conj_disj_distrib)
  finally show "p = (p AND NOT 3) + of_nat (unat (p AND 3))" by simp
  show "(p AND NOT 3) AND 3 = 0" by (simp add: and.assoc)
  have "unat (p AND 3) \<le> unat (3::u32)" by (rule word_le_nat_alt [THEN iffD1, OF word_and_le1])
  then show "unat (p AND 3) < 4" by simp
qed

lemma low_two_mod: "unat (x AND 3) = unat x mod 4" for x :: u32
proof -
  have "(3 :: u32) = mask 2" by (simp add: mask_eq_exp_minus_1)
  then have "x AND 3 = take_bit 2 x" by (simp add: take_bit_eq_mask)
  also have "unat \<dots> = take_bit 2 (unat x)" by (rule unsigned_take_bit_eq)
  finally show ?thesis by (simp add: take_bit_eq_mod)
qed

lemma aligned_div: "unat (x AND NOT 3) = 4 * (unat x div 4)" for x :: u32
proof -
  have "x AND 3 \<le> x" by (metis and.commute word_and_le1)
  moreover have "x AND NOT 3 = x - (x AND 3)"
    using align_split(1) [of x] by (metis add_diff_cancel_right' of_nat_unat ucast_id)
  ultimately have "unat (x AND NOT 3) = unat x - unat (x AND 3)" by (simp add: unat_sub)
  then show ?thesis by (simp add: low_two_mod minus_mod_eq_mult_div)
qed

lemma unat_diff_lane:
  assumes "j < 4" "k < 4"
  shows "unat ((P + of_nat j) - (P + of_nat k) :: u32) = (if k \<le> j then j - k else 2 ^ 32 - (k - j))"
proof -
  have "(P + of_nat j) - (P + of_nat k) = (of_nat j - of_nat k :: u32)" by simp
  moreover have "unat (of_nat j :: u32) = j" "unat (of_nat k :: u32) = k"
    using assms by (simp_all add: unat_of_nat take_bit_nat_eq_self)
  ultimately show ?thesis using assms by (auto simp: unat_sub_if_size word_size)
qed

lemma lane_position:
  fixes k r off sz :: nat
  assumes "off + sz \<le> 4" "k < 4" "r < 8"
  shows "off \<le> 3 - k \<Longrightarrow> 3 - k - off < sz \<Longrightarrow>
      8 * (sz - 1 - (3 - k - off)) + r = 8 * k + r - 8 * (4 - off - sz)"
    and "off \<le> 3 - k \<and> 3 - k - off < sz \<longleftrightarrow> 8 * (4 - off - sz) \<le> 8 * k + r \<and> 8 * k + r < 8 * (4 - off)"
  using assms by linarith+

lemma store_bytes_here:
  assumes "0 < sz" and "unat (p AND 3) + sz \<le> 4"
  shows "be_long (store_bytes p sz v f) (p AND NOT 3) = merge_lanes p sz v (be_long f (p AND NOT 3))"
proof (rule bit_word_eqI)
  fix n assume "n < LENGTH(32)"
  then have n: "n < 32" by simp
  let ?P = "p AND NOT 3" and ?off = "unat (p AND 3)" and ?j = "3 - n div 8"
  have j: "?j < 4" and off: "?off < 4" using align_split(3) [of p] by simp_all
  have d: "unat (?P + of_nat ?j - p) = (if ?off \<le> ?j then ?j - ?off else 2 ^ 32 - (?off - ?j))"
    using unat_diff_lane [OF j off, of ?P] unfolding align_split(1) [of p, symmetric] .
  have n8: "n div 8 < 4" "n = 8 * (n div 8) + n mod 8" "n mod 8 < 8" using n by simp_all
  show "bit (be_long (store_bytes p sz v f) ?P) n = bit (merge_lanes p sz v (be_long f ?P)) n"
  proof (cases "?off \<le> ?j \<and> ?j - ?off < sz")
    case True
    note place = lane_position(1) [OF assms(2) n8(1,3)] conjunct1 [OF lane_position(2) [OF assms(2) n8(1,3), THEN iffD1]]
      conjunct2 [OF lane_position(2) [OF assms(2) n8(1,3), THEN iffD1]]
    note place = place(1) [OF conjunct1 [OF True] conjunct2 [OF True], folded n8(2)]
      place(2,3) [OF True, folded n8(2)]
    have "bit (be_long (store_bytes p sz v f) ?P) n = bit (stored_byte p v sz (?P + of_nat ?j)) (n mod 8)"
      using n d True by (simp add: bit_be_long store_bytes_def)
    also have "\<dots> = bit v (n - 8 * (4 - ?off - sz))"
      unfolding bit_stored_byte d using True n8(3) place(1) by simp
    also have "\<dots> = bit (merge_lanes p sz v (be_long f ?P)) n"
      using bit_merge_lanes [of n sz p v "be_long f ?P"] n assms place(2,3) by simp
    finally show ?thesis .
  next
    case False
    have place: "\<not> (8 * (4 - ?off - sz) \<le> n \<and> n < 8 * (4 - ?off))"
      using False unfolding lane_position(2) [OF assms(2) n8(1,3)] n8(2) [symmetric] .
    have "\<not> unat (?P + of_nat ?j - p) < sz" using False d assms off by auto
    then have "bit (be_long (store_bytes p sz v f) ?P) n = bit (f (?P + of_nat ?j)) (n mod 8)"
      using n by (simp add: bit_be_long store_bytes_def)
    also have "\<dots> = bit (be_long f ?P) n" using n by (simp add: bit_be_long)
    also have "\<dots> = bit (merge_lanes p sz v (be_long f ?P)) n"
      using bit_merge_lanes [of n sz p v "be_long f ?P"] n assms place by auto
    finally show ?thesis .
  qed
qed

lemma store_bytes_elsewhere:
  assumes "0 < sz" and "unat (p AND 3) + sz \<le> 4" and "Q AND 3 = 0" "Q \<noteq> p AND NOT 3"
  shows "be_long (store_bytes p sz v f) Q = be_long f Q"
proof -
  have "store_bytes p sz v f (Q + of_nat j) = f (Q + of_nat j)" if "j < 4" for j
  proof (rule ccontr)
    let ?q = "Q + of_nat j" and ?d = "unat (Q + of_nat j - p)"
    assume "\<not> ?thesis"
    then have d: "?d < sz" by (auto simp: store_bytes_def split: if_splits)
    have "?q = p + of_nat ?d" by (metis add.commute diff_add_cancel of_nat_unat ucast_id)
    also have "\<dots> = ((p AND NOT 3) + of_nat (unat (p AND 3))) + of_nat ?d"
      by (simp only: align_split(1) [of p, symmetric])
    finally have q: "?q = (p AND NOT 3) + of_nat (unat (p AND 3) + ?d)"
      by (simp only: of_nat_add add.assoc)
    have "?q AND NOT 3 = p AND NOT 3"
      by (subst q, rule long_place(1)) (rule align_split(2), use d assms(2) in linarith)
    moreover have "?q AND NOT 3 = Q" by (rule long_place(1)) (use assms(3) that in auto)
    ultimately show False using assms(4) by simp
  qed
  from this [of 0] this [of 1] this [of 2] this [of 3] show ?thesis by (simp add: be_long_def)
qed

section \<open>Memory as the cache addresses it\<close>

definition slot_place :: "cache_slot \<Rightarrow> u32" where
  "slot_place = (\<lambda>(t, i, e). push_bit 8 t OR push_bit 4 (of_nat i) OR push_bit 2 (of_nat e))"

definition mem_view :: "(u32 \<Rightarrow> u8) \<Rightarrow> cache_slot \<Rightarrow> u32" where
  "mem_view f s = be_long f (slot_place s)"

lemma slot_place_of: "slot_place (slot_of a fc) = a AND NOT 3"
proof (rule bit_word_eqI)
  fix n assume "n < LENGTH(32)"
  then have n: "n < 32" by simp
  have masks: "(0x00FFFFFF :: u32) = mask 24" "(15 :: u32) = mask 4" "(3 :: u32) = mask 2" "(7 :: u8) = mask 3"
    by (simp_all add: mask_eq_exp_minus_1)
  have idx: "of_nat (cache_line_index a) = drop_bit 4 a AND mask 4"
    "of_nat (cache_entry_index a) = drop_bit 2 a AND mask 2"
    by (simp_all add: cache_line_index_def cache_entry_index_def CACHE_LINES_def CACHE_ENTRIES_def masks of_nat_unat ucast_id)
  consider "n < 2" | "2 \<le> n" "n < 4" "Suc (Suc (n - 2)) = n" | "4 \<le> n" "n < 8" "4 + (n - 4) = n"
    | "8 \<le> n" "8 + (n - 8) = n" by linarith
  then show "bit (slot_place (slot_of a fc)) n = bit (a AND NOT 3) n"
    unfolding slot_place_def slot_of_def prod.case idx cache_tag_def masks
    using n by cases
      (auto simp: bit_or_iff bit_and_iff bit_not_iff bit_push_bit_iff bit_drop_bit_eq bit_mask_iff bit_ucast_iff)
qed

lemma slot_place_aligned: "slot_place s AND 3 = 0"
proof -
  have "(3 :: u32) = mask 2" by (simp add: mask_eq_exp_minus_1)
  then show ?thesis
    by (cases s) (auto simp: slot_place_def bit_eq_iff bit_or_iff bit_and_iff bit_push_bit_iff bit_mask_iff)
qed

lemma slot_place_index:
  assumes "i < 16" "e < 4"
  shows "cache_line_index (slot_place (t, i, e)) = i" "cache_entry_index (slot_place (t, i, e)) = e"
proof -
  have n: "unat (of_nat i :: u32) = i" "unat (of_nat e :: u32) = e"
    using assms by (simp_all add: unat_of_nat take_bit_nat_eq_self)
  then have i: "of_nat i = (take_bit 4 (of_nat i) :: u32)" and e: "of_nat e = (take_bit 2 (of_nat e) :: u32)"
    using assms take_bit_self_iff [of 4 "of_nat i :: u32"] take_bit_self_iff [of 2 "of_nat e :: u32"] by simp_all
  have low: "k < 4 \<and> k < 28" if "bit (of_nat i :: u32) k" for k
    using arg_cong [OF i, of "\<lambda>w. bit w k"] that by (auto simp: bit_take_bit_iff)
  have low2: "k < 2 \<and> k < 4" if "bit (of_nat e :: u32) k" for k
    using arg_cong [OF e, of "\<lambda>w. bit w k"] that by (auto simp: bit_take_bit_iff)
  have masks: "(15 :: u32) = mask 4" "(3 :: u32) = mask 2" by (simp_all add: mask_eq_exp_minus_1)
  have "drop_bit 4 (slot_place (t, i, e)) AND 15 = (of_nat i :: u32)"
    unfolding slot_place_def prod.case masks
    by (rule bit_word_eqI)
      (auto dest: low low2 simp: bit_or_iff bit_and_iff bit_push_bit_iff bit_drop_bit_eq bit_mask_iff)
  moreover have "drop_bit 2 (slot_place (t, i, e)) AND 3 = (of_nat e :: u32)"
    unfolding slot_place_def prod.case masks
    by (rule bit_word_eqI)
      (auto dest: low2 simp: bit_or_iff bit_and_iff bit_push_bit_iff bit_drop_bit_eq bit_mask_iff)
  ultimately show "cache_line_index (slot_place (t, i, e)) = i" "cache_entry_index (slot_place (t, i, e)) = e"
    using n by (simp_all add: cache_line_index_def cache_entry_index_def CACHE_LINES_def CACHE_ENTRIES_def)
qed

lemma mem_view_of: "mem_view f (slot_of a fc) = be_long f (a AND NOT 3)"
  by (simp add: mem_view_def slot_place_of)

lemma store_bytes_effect:
  assumes "0 < sz" and "unat (p AND 3) + sz \<le> 4"
  shows "write_effect p fc sz v False (mem_view f) (mem_view (store_bytes p sz v f))"
proof -
  have "be_long (store_bytes p sz v f) (slot_place (t, i, e)) = be_long f (slot_place (t, i, e))"
    if "i < 16" "e < 4" "\<not> (i = cache_line_index p \<and> e = cache_entry_index p)" for t i e
  proof (rule store_bytes_elsewhere [OF assms slot_place_aligned])
    show "slot_place (t, i, e) \<noteq> p AND NOT 3"
    proof
      assume "slot_place (t, i, e) = p AND NOT 3"
      then have "slot_place (t, i, e) = slot_place (slot_of p 0)" by (simp add: slot_place_of)
      then show False
        using that slot_place_index [OF that(1,2), of t]
          slot_place_index [OF line_index_less [of p] entry_index_less [of p], of "cache_tag p 0"]
        by (simp add: slot_of_def)
    qed
  qed
  then show ?thesis
    unfolding write_effect_def mem_view_of store_bytes_here [OF assms] by (auto simp: mem_view_def)
qed

section \<open>The interface of the memory behind the access path\<close>

definition usable :: "'m access_ctx \<Rightarrow> bool" where
  "usable ax = cache_enabled (ax_cache_enabled ax) (ax_cache_disable ax) False"

text \<open>The control register settings under which a cache and memory stay together whatever function codes
  share the memory: no bursts, and write allocation without a freeze while the cache is used.\<close>

definition coherent_policy :: "'m access_ctx \<Rightarrow> bool" where
  "coherent_policy ax \<longleftrightarrow> \<not> ax_burst_enabled ax \<and> (usable ax \<longrightarrow> ax_write_allocate ax \<and> \<not> ax_cache_frozen ax)"

definition cache_empty :: "cache \<Rightarrow> bool" where
  "cache_empty c \<longleftrightarrow> list_all (\<lambda>l. list_all Not (cl_valid l)) c"

lemma empty_coherent:
  assumes "cache_empty c" and "coherent mem c"
  shows "coherent mem' c"
proof -
  have "line_coherent mem' i (c ! i)" if "i < 16" for i
  proof -
    have "length c = 16" "line_wf (c ! i)" using assms(2) that by (simp_all add: coherent_def)
    then show ?thesis using assms(1) that by (auto simp: cache_empty_def line_coherent_def list_all_length line_wf_def)
  qed
  then show ?thesis using assms(2) by (simp add: coherent_def)
qed

text \<open>A machine in good order whose cache agrees with its memory; a cache out of use is empty.\<close>

definition in_step :: "'m access_ctx \<Rightarrow> ('m \<Rightarrow> u32 \<Rightarrow> u8) \<Rightarrow> ('m \<Rightarrow> bool) \<Rightarrow> 'm access_state \<Rightarrow> bool" where
  "in_step ax bytes good st \<longleftrightarrow> good (as_machine st) \<and> coherent (mem_view (bytes (as_machine st))) (as_cache st) \<and>
     (usable ax \<or> cache_empty (as_cache st))"

text \<open>\<open>memory_bus\<close> is the memory behind the cycles of an access path, whatever translates in front of it: the
  fills answer its long words, the stores change exactly the bytes they name, a place a fill can answer is one
  a store can reach, and the other callbacks leave it alone.\<close>

locale memory_bus =
  fixes ax :: "'m access_ctx"
    and bytes :: "'m \<Rightarrow> u32 \<Rightarrow> u8"
    and good :: "'m \<Rightarrow> bool"
    and fitted :: "u32 \<Rightarrow> bool"
  assumes fills: "good m \<Longrightarrow> p AND 3 = 0 \<Longrightarrow> ax_fill ax p fc m = (answer, m') \<Longrightarrow>
      good m' \<and> bytes m' = bytes m \<and>
      (fa_termination answer = TERM_BERR \<or> fa_data answer ! 0 = be_long (bytes m) p)"
    and stores: "good m \<Longrightarrow> 0 < sz \<Longrightarrow> unat (p AND 3) + sz \<le> 4 \<Longrightarrow> store_out ax p v sz m = (stored, m') \<Longrightarrow>
      good m' \<and> bytes m' = (if stored then store_bytes p sz v (bytes m) else bytes m)"
    and fills_fitted: "good m \<Longrightarrow> p AND 3 = 0 \<Longrightarrow> fitted p \<Longrightarrow> fa_termination (fst (ax_fill ax p fc m)) \<noteq> TERM_BERR"
    and fills_fit: "good m \<Longrightarrow> p AND 3 = 0 \<Longrightarrow> fa_termination (fst (ax_fill ax p fc m)) \<noteq> TERM_BERR \<Longrightarrow> fitted p"
    and stores_fitted: "good m \<Longrightarrow> 0 < sz \<Longrightarrow> unat (p AND 3) + sz \<le> 4 \<Longrightarrow> fitted (p AND NOT 3) \<Longrightarrow>
      fst (store_out ax p v sz m)"
    and waits_quiet: "good m \<Longrightarrow> good (snd (waits ax p rd m)) \<and> bytes (snd (waits ax p rd m)) = bytes m"
    and acquire_quiet: "good m \<Longrightarrow> good (snd (acquire ax ph m)) \<and> bytes (snd (acquire ax ph m)) = bytes m"
    and clock_quiet: "good m \<Longrightarrow> good (bus_clock ax ph m) \<and> bytes (bus_clock ax ph m) = bytes m"
    and report_quiet: "good m \<Longrightarrow> good (report_mmu_fault ax a fc w why m) \<and>
      bytes (report_mmu_fault ax a fc w why m) = bytes m"
    and memory: "good m \<Longrightarrow> \<not> inhibits ax p m"
begin

lemma drive_quiet:
  "good m \<Longrightarrow> good (snd (snd (drive_cycle t w (bus_clock ax ph) c b m))) \<and>
    bytes (snd (snd (drive_cycle t w (bus_clock ax ph) c b m))) = bytes m"
proof (induction t w "bus_clock ax ph" c b m rule: drive_cycle.induct)
  case (1 t w c b m)
  show ?case using 1 clock_quiet
    by (subst (1 2) drive_cycle.simps) (auto simp: Let_def split: prod.split)
qed

end

text \<open>\<open>backing_memory\<close> is the case of the MC68030's path with its own translation off.\<close>

locale backing_memory = memory_bus ax bytes good fitted
  for ax :: "'m access_ctx"
    and bytes :: "'m \<Rightarrow> u32 \<Rightarrow> u8"
    and good :: "'m \<Rightarrow> bool"
    and fitted :: "u32 \<Rightarrow> bool" +
  assumes untranslated: "\<not> translating ax"
    and transparent: "ttr_transparent (tt_translate (ax_tt0 ax) (ax_tt1 ax) access) \<Longrightarrow>
      ttr_physical (tt_translate (ax_tt0 ax) (ax_tt1 ax) access) = ac_address access \<and>
      \<not> ttr_cache_inhibit (tt_translate (ax_tt0 ax) (ax_tt1 ax) access)"
begin

text \<open>With translation off the physical address is the logical one and nothing is inhibited.\<close>

lemma translate_plain:
  "mmu_translate ax w fc a st = (mmu, st') \<Longrightarrow>
    st' = st \<and> ma_refused mmu = None \<and> ma_physical mmu = a \<and> \<not> ma_inhibit mmu"
  using transparent untranslated by (auto simp: mmu_translate_def Let_def split: if_splits)

lemma miss_quiet:
  assumes "good m" and "rq_fill rq = ax_fill ax" "rq_wait_states rq = ax_wait_states ax"
    "rq_bus_acquire rq = ax_bus_acquire ax" "rq_bus_clock rq = ax_bus_clock ax"
    and "cache_read rq c b m = (r, c', b', m')"
  shows "good m' \<and> bytes m' = bytes m"
proof -
  have aligned: "(if x then rq_physical rq AND NOT 0xF else rq_physical rq AND NOT 3) AND 3 = 0" for x
    by (simp add: and.assoc)
  have clk: "(case ax_bus_clock ax of None \<Rightarrow> (\<lambda>m. m) | Some f \<Rightarrow> f ph) = bus_clock ax ph" for ph
    by (simp add: bus_clock_def fun_eq_iff split: option.split)
  have wait: "good m \<Longrightarrow> (case ax_wait_states ax of None \<Rightarrow> (0, m) | Some f \<Rightarrow>
      if t \<noteq> TERM_BERR then f p True m else (0, m)) = (w, m') \<Longrightarrow> good m' \<and> bytes m' = bytes m" for t p m w m'
    using waits_quiet [of m p True] by (auto simp: waits_def split: option.splits if_splits)
  have acq: "good m \<Longrightarrow> (case ax_bus_acquire ax of None \<Rightarrow> (0, m) | Some f \<Rightarrow> f ph m) = (w, m') \<Longrightarrow>
      good m' \<and> bytes m' = bytes m" for ph m w m'
    using acquire_quiet [of m ph] by (simp add: acquire_def)
  have cycle: "good m2 \<and> bytes m2 = bytes m1"
    if m1: "good m1" and run: "run_read_cycle rq p burst answer b m1 = (n, b1, m2)" for p burst answer m1 n b1 m2
  proof -
    obtain w m3 where w: "(case ax_wait_states ax of None \<Rightarrow> (0, m1) | Some f \<Rightarrow>
        if fa_termination answer \<noteq> TERM_BERR then f p True m1 else (0, m1)) = (w, m3)" by fastforce
    obtain k m4 where k: "(case ax_bus_acquire ax of None \<Rightarrow> (0, m3) | Some f \<Rightarrow> f (rq_rmc_phase rq) m3) = (k, m4)"
      by fastforce
    have "good m4 \<and> bytes m4 = bytes m1" using wait [OF m1 w] acq [OF _ k] by simp
    then show ?thesis
      using drive_quiet [of m4] run unfolding run_read_cycle_def Let_def assms clk w k prod.case
      by (metis snd_conv)
  qed
  have miss: "good m' \<and> bytes m' = bytes m" if r: "cache_read_miss rq c b m = (r, c', b', m')"
  proof -
    let ?burst = "asks_burst rq c" and ?fc = "rq_function_code rq"
    let ?cycle = "if ?burst then rq_physical rq AND NOT 0xF else rq_physical rq AND NOT 3"
    obtain answer m1 where fill: "rq_fill rq ?cycle ?fc m = (answer, m1)" by fastforce
    obtain n b1 m2 where run: "run_read_cycle rq ?cycle ?burst answer b m1 = (n, b1, m2)"
      by (metis prod_cases3)
    have "m' = m2"
      using r unfolding cache_read_miss_def Let_def asks_burst_def [symmetric] fill prod.case run
      by (auto split: if_splits)
    then show ?thesis
      using fills [OF assms(1) aligned fill [unfolded assms(2)]] cycle [OF _ run] by simp
  qed
  show ?thesis
    using assms(1,6) miss by (auto simp: cache_read_def split: if_splits option.splits)
qed

lemma usable_plain: "\<not> mmu \<Longrightarrow> cache_enabled (ax_cache_enabled ax) (ax_cache_disable ax) mmu = usable ax"
  by (simp add: usable_def)

lemma external_in_step:
  assumes st: "in_step ax bytes good st" and policy: "coherent_policy ax"
    and rd: "read_external ax fc a (usable ax) 0 out st = (r, st')" and out: "ar_phys out = a"
  shows "in_step ax bytes good st' \<and> bytes (as_machine st') = bytes (as_machine st)"
    and "ar_ok r \<Longrightarrow> ar_value r = be_long (bytes (as_machine st)) (a AND NOT 3)"
    and "fitted (a AND NOT 3) \<Longrightarrow> ar_ok r"
proof -
  let ?m = "as_machine st" and ?mem = "mem_view (bytes (as_machine st))"
  define rq where "rq = \<lparr>rq_address = a, rq_physical = a, rq_function_code = fc,
                rq_cache_enabled = usable ax, rq_burst_enable = ax_burst_enabled ax,
                rq_frozen = ax_cache_frozen ax, rq_read_modify_write = ax_rmc ax, rq_fill = ax_fill ax,
                rq_wait_states = ax_wait_states ax, rq_bus_acquire = ax_bus_acquire ax,
                rq_bus_clock = ax_bus_clock ax,
                rq_rmc_phase = (if \<not> ax_rmc ax then RMC_NONE
                                else if as_rmc_read_seen st then RMC_LOCKED else RMC_FIRST_READ)\<rparr>"
  obtain fetched c b m where run: "cache_read rq (as_cache st) (as_bus st) ?m = (fetched, c, b, m)"
    by (metis prod_cases4)
  have quiet: "good m \<and> bytes m = bytes ?m"
    using st by (intro miss_quiet [OF _ _ _ _ _ run]) (simp_all add: in_step_def rq_def)
  have single: "\<not> asks_burst rq (as_cache st)"
    using policy by (simp add: asks_burst_def rq_def coherent_policy_def cache_burst_request_def)
  have "answers_memory ?mem rq (as_cache st) ?m"
  proof -
    obtain answer m1 where fill: "ax_fill ax (a AND NOT 3) fc ?m = (answer, m1)" by fastforce
    have "good ?m" using st by (simp add: in_step_def)
    from fills [OF this align_split(2) fill] show ?thesis
      using single fill by (auto simp: answers_memory_def rq_def mem_view_of)
  qed
  note coherent = read_coherent [OF _ this _ run]
  have st': "r = out\<lparr>ar_value := ca_value fetched, ar_clocks := ca_clocks fetched, ar_ok := \<not> ca_bus_error fetched,
       ar_fault := ca_bus_error fetched\<rparr>"
    "as_cache st' = c" "as_machine st' = m"
    using rd run out unfolding read_external_def Let_def rq_def by (auto split: prod.splits)
  have empty: "cache_empty c" if "\<not> usable ax"
  proof -
    have "c = as_cache st"
      using run that by (auto simp: cache_read_def cache_read_miss_def rq_def Let_def split: if_splits prod.splits)
    then show ?thesis using st that by (simp add: in_step_def)
  qed
  show "in_step ax bytes good st' \<and> bytes (as_machine st') = bytes (as_machine st)"
    using coherent(1) st single quiet empty by (auto simp: in_step_def st')
  show "ar_value r = be_long (bytes ?m) (a AND NOT 3)" if "ar_ok r"
    using coherent(2) st single that by (simp add: in_step_def st' rq_def mem_view_of)
  show "ar_ok r" if "fitted (a AND NOT 3)"
  proof -
    have "rq_fill rq (a AND NOT 3) fc ?m = (answer, m1) \<Longrightarrow> fa_termination answer \<noteq> TERM_BERR" for answer m1
      using fills_fitted [OF _ align_split(2) that, of ?m fc] st by (auto simp: in_step_def rq_def)
    then have "\<not> ca_bus_error fetched"
      using run single unfolding cache_read_def cache_read_miss_def Let_def asks_burst_def [symmetric]
      by (auto simp: rq_def no_access_def split: if_splits prod.splits option.splits)
    then show ?thesis by (simp add: st')
  qed
qed

lemma read_in_step:
  assumes st: "in_step ax bytes good st" and policy: "coherent_policy ax"
    and rd: "access_read_sized ax a fc sz st = (r, st')"
  shows "in_step ax bytes good st' \<and> bytes (as_machine st') = bytes (as_machine st)"
    and "ar_ok r \<Longrightarrow> ar_value r = be_long (bytes (as_machine st)) (a AND NOT 3)"
    and "fitted (a AND NOT 3) \<Longrightarrow> ar_ok r"
proof -
  have plain: "cache_enabled (ax_cache_enabled ax) (ax_cache_disable ax) (inhibits ax p (as_machine st)) = usable ax" for p
    using st by (simp add: usable_plain memory in_step_def)
  have here: "\<not> inhibits ax p (as_machine st)" for p using st by (simp add: memory in_step_def)
  have "in_step ax bytes good st' \<and> bytes (as_machine st') = bytes (as_machine st) \<and>
      (ar_ok r \<longrightarrow> ar_value r = be_long (bytes (as_machine st)) (a AND NOT 3)) \<and> (fitted (a AND NOT 3) \<longrightarrow> ar_ok r)"
  proof (cases "if usable ax \<and> \<not> ax_rmc ax then cache_lookup (as_cache st) a fc else None")
    case (Some v)
    then have "v = mem_view (bytes (as_machine st)) (slot_of a fc)"
      using st by (intro lookup_coherent) (auto simp: in_step_def split: if_splits)
    then show ?thesis
      using rd st unfolding access_read_sized_def Let_def plain Some by (auto simp: mem_view_of)
  next
    case None
    obtain mmu st1 where mmu: "mmu_translate ax False fc a st = (mmu, st1)" by fastforce
    note t = translate_plain [OF this]
    have "read_external ax fc a (usable ax) (ma_clocks mmu) (no_result\<lparr>ar_mmu_consulted := True,
        ar_transparent := ma_transparent mmu, ar_descriptor_fetches := ma_fetches mmu, ar_phys := a\<rparr>) st = (r, st')"
      using rd t mmu unfolding access_read_sized_def Let_def plain None
      by (auto simp: here usable_plain split: prod.splits)
    moreover have "ma_clocks mmu = 0"
      using mmu untranslated by (auto simp: mmu_translate_def Let_def split: if_splits)
    ultimately show ?thesis using external_in_step [OF st policy, of fc a _ r st'] by auto
  qed
  then show "in_step ax bytes good st' \<and> bytes (as_machine st') = bytes (as_machine st)"
    and "ar_ok r \<Longrightarrow> ar_value r = be_long (bytes (as_machine st)) (a AND NOT 3)"
    and "fitted (a AND NOT 3) \<Longrightarrow> ar_ok r" by blast+
qed

lemma cycle_quiet:
  assumes "good (as_machine st)" and "write_cycle ax p fc sz k st = (n, st')"
  shows "good (as_machine st')" "bytes (as_machine st') = bytes (as_machine st)" "as_cache st' = as_cache st"
proof -
  obtain w m1 where w: "waits ax p False (as_machine st) = (w, m1)" by fastforce
  have "good m1 \<and> bytes m1 = bytes (as_machine st)" using waits_quiet [OF assms(1), of p False] w by simp
  moreover obtain s m2 where a: "acquire ax (if ax_rmc ax then RMC_LOCKED else RMC_NONE) m1 = (s, m2)" by fastforce
  ultimately have m2: "good m2" "bytes m2 = bytes (as_machine st)"
    using acquire_quiet [of m1 "if ax_rmc ax then RMC_LOCKED else RMC_NONE"] by simp_all
  show "good (as_machine st')" "bytes (as_machine st') = bytes (as_machine st)" "as_cache st' = as_cache st"
    using assms(2) drive_quiet [OF m2(1)] m2(2) unfolding write_cycle_def Let_def w prod.case
    by (auto simp: bus_begin_def a split: prod.splits) (metis snd_conv)+
qed

lemma write_in_step:
  assumes st: "in_step ax bytes good st" and policy: "coherent_policy ax" and lanes: "0 < sz" "unat (a AND 3) + sz \<le> 4"
    and wr: "access_write ax a fc v sz st = (r, st')"
  shows "in_step ax bytes good st'"
    and "bytes (as_machine st') =
      (if ar_ok r then store_bytes a sz v (bytes (as_machine st)) else bytes (as_machine st))"
    and "fitted (a AND NOT 3) \<Longrightarrow> ar_ok r"
proof -
  let ?m = "as_machine st" and ?al = "sz = 4 \<and> a AND 3 = 0"
  obtain mmu st1 where mmu: "mmu_translate ax True fc a st = (mmu, st1)" by fastforce
  note t = translate_plain [OF this]
  obtain stored m1 where out: "store_out ax a v sz ?m = (stored, m1)" by fastforce
  have m1: "good m1" "bytes m1 = (if stored then store_bytes a sz v (bytes ?m) else bytes ?m)"
    using stores [OF _ lanes out] st by (simp_all add: in_step_def)
  obtain n st2 where cyc: "write_cycle ax a fc sz (ma_clocks mmu) (st\<lparr>as_machine := m1\<rparr>) = (n, st2)" by fastforce
  have st2: "good (as_machine st2)" "bytes (as_machine st2) = bytes m1" "as_cache st2 = as_cache st"
    using cycle_quiet [OF _ cyc] m1(1) by simp_all
  have coh: "coherent (mem_view (store_bytes a sz v (bytes ?m)))
      (snd (cache_write a fc v ?al (ax_write_allocate ax) (ax_cache_frozen ax) sz (as_cache st)))" if "usable ax"
  proof (rule write_coherent)
    show "coherent (mem_view (bytes ?m)) (as_cache st)" using st by (simp add: in_step_def)
    show "write_effect a fc sz v (ax_cache_frozen ax \<or> \<not> ax_write_allocate ax) (mem_view (bytes ?m))
        (mem_view (store_bytes a sz v (bytes ?m)))"
      using policy that store_bytes_effect [OF lanes] by (simp add: coherent_policy_def)
  qed
  have empty: "coherent (mem_view f) (as_cache st) \<and> cache_empty (as_cache st)" if "\<not> usable ax" for f
    using st that empty_coherent by (auto simp: in_step_def)
  have present: "fitted (a AND NOT 3) \<Longrightarrow> stored" using stores_fitted [OF _ lanes, of ?m v] st out by (simp add: in_step_def)
  have "in_step ax bytes good st' \<and> bytes (as_machine st') = (if ar_ok r then store_bytes a sz v (bytes ?m) else bytes ?m) \<and>
      (fitted (a AND NOT 3) \<longrightarrow> ar_ok r)"
  proof (cases stored)
    case True
    then have "ar_ok r" "as_machine st' = as_machine st2"
      "as_cache st' = (if usable ax then snd (cache_write a fc v ?al (ax_write_allocate ax) (ax_cache_frozen ax) sz
         (as_cache st)) else as_cache st)"
      using wr t mmu out cyc st2(3) unfolding access_write_def Let_def
      by (auto simp: memory [OF st2(1)] usable_plain split: prod.splits)
    then show ?thesis using True coh empty st2 m1 by (auto simp: in_step_def)
  next
    case False
    then have "\<not> ar_ok r" "st' = st\<lparr>as_machine := m1\<rparr>"
      using wr t mmu out unfolding access_write_def Let_def by (auto simp: no_result_def split: prod.splits)
    then show ?thesis using False m1 st present by (auto simp: in_step_def)
  qed
  then show "in_step ax bytes good st'" and "bytes (as_machine st') =
      (if ar_ok r then store_bytes a sz v (bytes ?m) else bytes ?m)"
    and "fitted (a AND NOT 3) \<Longrightarrow> ar_ok r" by blast+
qed

end

end
