(* ===== verification/M68030_Regs.thy ===== *)
theory M68030_Regs
  imports Apollo_Prelude
begin

unbundle bit_operations_syntax

text \<open>
  The MC68030's programming model, \<^verbatim>\<open>src/core/cpu/m68030/ap_m68030_regs.{h,c}\<close>: the data and address
  registers, the three stack pointers that A7 stands for, the status register and the control registers.

  The lemmas say which stack pointer A7 is in each state, that a write through A7 changes only that one,
  that the condition codes can be written without touching the system byte, and that every operation
  keeps the shape of the registers.
\<close>

abbreviation (input) SR_T1_BIT :: nat where "SR_T1_BIT \<equiv> 15"
abbreviation (input) SR_T0_BIT :: nat where "SR_T0_BIT \<equiv> 14"
abbreviation (input) SR_S_BIT :: nat where "SR_S_BIT \<equiv> 13"
abbreviation (input) SR_M_BIT :: nat where "SR_M_BIT \<equiv> 12"
abbreviation (input) SR_INTERRUPT_SHIFT :: nat where "SR_INTERRUPT_SHIFT \<equiv> 8"

definition CCR_MASK :: u16 where "CCR_MASK = 0x001F"
definition SR_DEFINED :: u16 where "SR_DEFINED = 0xF71F"

datatype trace_mode = TRACE_NONE | TRACE_ANY_INSTRUCTION | TRACE_ON_CHANGE_OF_FLOW | TRACE_UNDEFINED

datatype stack = STACK_USP | STACK_ISP | STACK_MSP

record regs =
  rg_d :: "u32 list"
  rg_a :: "u32 list"
  rg_usp :: u32
  rg_isp :: u32
  rg_msp :: u32
  rg_pc :: u32
  rg_sr :: u16
  rg_vbr :: u32
  rg_sfc :: u8
  rg_dfc :: u8

definition supervisor :: "regs \<Rightarrow> bool" where
  "supervisor r = testbit (rg_sr r) SR_S_BIT"

definition master :: "regs \<Rightarrow> bool" where
  "master r = testbit (rg_sr r) SR_M_BIT"

definition interrupt_mask :: "regs \<Rightarrow> nat" where
  "interrupt_mask r = unat (drop_bit SR_INTERRUPT_SHIFT (rg_sr r) AND 7)"

definition trace_mode :: "regs \<Rightarrow> trace_mode" where
  "trace_mode r =
     (let t1 = testbit (rg_sr r) SR_T1_BIT; t0 = testbit (rg_sr r) SR_T0_BIT in
      if t1 \<and> t0 then TRACE_UNDEFINED
      else if t1 then TRACE_ANY_INSTRUCTION
      else if t0 then TRACE_ON_CHANGE_OF_FLOW
      else TRACE_NONE)"

definition active_stack :: "regs \<Rightarrow> stack" where
  "active_stack r =
     (if \<not> supervisor r then STACK_USP else if master r then STACK_MSP else STACK_ISP)"

definition read_a7 :: "regs \<Rightarrow> u32" where
  "read_a7 r = (case active_stack r of STACK_USP \<Rightarrow> rg_usp r | STACK_ISP \<Rightarrow> rg_isp r | STACK_MSP \<Rightarrow> rg_msp r)"

definition write_a7 :: "u32 \<Rightarrow> regs \<Rightarrow> regs" where
  "write_a7 v r =
     (case active_stack r of
        STACK_USP \<Rightarrow> r\<lparr>rg_usp := v\<rparr> | STACK_ISP \<Rightarrow> r\<lparr>rg_isp := v\<rparr> | STACK_MSP \<Rightarrow> r\<lparr>rg_msp := v\<rparr>)"

definition read_address_register :: "regs \<Rightarrow> nat \<Rightarrow> u32" where
  "read_address_register r i = (if i = 7 then read_a7 r else rg_a r ! i)"

definition write_address_register :: "nat \<Rightarrow> u32 \<Rightarrow> regs \<Rightarrow> regs" where
  "write_address_register i v r =
     (if i = 7 then write_a7 v r else r\<lparr>rg_a := (rg_a r)[i := v]\<rparr>)"

definition write_sr :: "u16 \<Rightarrow> regs \<Rightarrow> regs" where
  "write_sr v r = r\<lparr>rg_sr := v AND SR_DEFINED\<rparr>"

definition write_ccr :: "u16 \<Rightarrow> regs \<Rightarrow> regs" where
  "write_ccr v r = r\<lparr>rg_sr := (rg_sr r AND NOT CCR_MASK) OR (v AND CCR_MASK)\<rparr>"

definition read_ccr :: "regs \<Rightarrow> u16" where
  "read_ccr r = rg_sr r AND CCR_MASK"

section \<open>Shape\<close>

text \<open>Eight data registers, seven address registers beside A7, no reserved status bit, and function
  code registers of three bits.\<close>

definition regs_wf :: "regs \<Rightarrow> bool" where
  "regs_wf r \<longleftrightarrow> length (rg_d r) = 8 \<and> length (rg_a r) = 7 \<and> rg_sr r AND NOT SR_DEFINED = 0 \<and>
     rg_sfc r < 8 \<and> rg_dfc r < 8"

lemma write_a7_wf [intro]: "regs_wf r \<Longrightarrow> regs_wf (write_a7 v r)"
  by (auto simp: regs_wf_def write_a7_def split: stack.split)

lemma write_address_wf [intro]: "regs_wf r \<Longrightarrow> regs_wf (write_address_register i v r)"
  by (auto simp: write_address_register_def) (simp add: regs_wf_def)

lemma write_data_wf [intro]: "regs_wf r \<Longrightarrow> regs_wf (r\<lparr>rg_d := (rg_d r)[i := v]\<rparr>)"
  by (simp add: regs_wf_def)

lemma write_sr_wf [intro]: "regs_wf r \<Longrightarrow> regs_wf (write_sr v r)"
  by (simp add: regs_wf_def write_sr_def and.assoc)

lemma write_ccr_wf [intro]: "regs_wf r \<Longrightarrow> regs_wf (write_ccr v r)"
proof -
  have "CCR_MASK AND NOT SR_DEFINED = 0" by (simp add: CCR_MASK_def SR_DEFINED_def)
  moreover assume "regs_wf r"
  ultimately show ?thesis
    by (simp add: regs_wf_def write_ccr_def bit.conj_disj_distrib2 and.assoc and.left_commute)
qed

section \<open>A7 and the status register\<close>

lemma write_a7_stack [simp]: "active_stack (write_a7 v r) = active_stack r"
  by (simp add: active_stack_def supervisor_def master_def write_a7_def split: stack.split)

lemma read_write_a7 [simp]: "read_a7 (write_a7 v r) = v"
  unfolding read_a7_def write_a7_stack by (simp add: write_a7_def split: stack.split)

lemma write_a7_read [simp]: "write_a7 (read_a7 r) r = r"
  by (simp add: write_a7_def read_a7_def split: stack.split)

lemma write_a7_twice [simp]: "write_a7 v (write_a7 w r) = write_a7 v r"
  unfolding write_a7_def [of v] write_a7_stack by (simp add: write_a7_def split: stack.split)

lemma read_write_address [simp]:
  "length (rg_a r) = 7 \<Longrightarrow> i < 8 \<Longrightarrow> read_address_register (write_address_register i v r) i = v"
  by (simp add: read_address_register_def write_address_register_def)

lemma write_address_read [simp]: "write_address_register i (read_address_register r i) r = r"
  by (simp add: read_address_register_def write_address_register_def)

lemma write_address_twice [simp]:
  "write_address_register i v (write_address_register i w r) = write_address_register i v r"
  by (simp add: write_address_register_def)

text \<open>Writing the condition codes changes neither the privilege, the interrupt mask nor the stack.\<close>

lemma write_ccr_system:
  "rg_sr (write_ccr v r) AND NOT CCR_MASK = rg_sr r AND NOT CCR_MASK" "read_ccr (write_ccr v r) = v AND CCR_MASK"
  by (simp_all add: write_ccr_def read_ccr_def bit.conj_disj_distrib2 and.assoc)

lemma write_ccr_privilege: "active_stack (write_ccr v r) = active_stack r"
  by (simp add: active_stack_def supervisor_def master_def write_ccr_def CCR_MASK_def bit_or_iff bit_and_iff
      bit_not_iff bit_numeral_rec(1))

end
