(* ===== verification/M68030_Ea.thy ===== *)
theory M68030_Ea
  imports M68030_Regs
begin

unbundle bit_operations_syntax

text \<open>
  The MC68030's addressing modes: the decode of the effective address field and of the extension words,
  \<^verbatim>\<open>src/core/cpu/m68030/ap_m68030_ea.{h,c}\<close>, and the calculation of the address with its register
  side effects, \<^verbatim>\<open>src/core/cpu/m68030/ap_m68030_addr.{h,c}\<close>.

  Displacements and the scaled index are \<^typ>\<open>int\<close>: \<open>index_value\<close> is the product the C expression
  denotes, before the question whether it fits the \<^verbatim>\<open>int32_t\<close> it is computed in, which
  \<open>scaled_index_overflows\<close> answers. Addresses wrap at 32 bits.
\<close>

section \<open>Decode\<close>

datatype ea_kind = EA_DATA_REGISTER | EA_ADDRESS_REGISTER | EA_ADDRESS_INDIRECT | EA_POSTINCREMENT
  | EA_PREDECREMENT | EA_DISPLACEMENT | EA_INDEXED | EA_ABSOLUTE_SHORT | EA_ABSOLUTE_LONG
  | EA_PC_DISPLACEMENT | EA_PC_INDEXED | EA_IMMEDIATE | EA_INVALID

record ea =
  ea_kind :: ea_kind
  ea_reg :: nat

definition ea_decode :: "u32 \<Rightarrow> u32 \<Rightarrow> ea" where
  "ea_decode mode r =
     (let m = unat (mode AND 7); reg = unat r; sub = unat (r AND 7) in
      if m = 0 then \<lparr>ea_kind = EA_DATA_REGISTER, ea_reg = reg\<rparr>
      else if m = 1 then \<lparr>ea_kind = EA_ADDRESS_REGISTER, ea_reg = reg\<rparr>
      else if m = 2 then \<lparr>ea_kind = EA_ADDRESS_INDIRECT, ea_reg = reg\<rparr>
      else if m = 3 then \<lparr>ea_kind = EA_POSTINCREMENT, ea_reg = reg\<rparr>
      else if m = 4 then \<lparr>ea_kind = EA_PREDECREMENT, ea_reg = reg\<rparr>
      else if m = 5 then \<lparr>ea_kind = EA_DISPLACEMENT, ea_reg = reg\<rparr>
      else if m = 6 then \<lparr>ea_kind = EA_INDEXED, ea_reg = reg\<rparr>
      else if sub = 0 then \<lparr>ea_kind = EA_ABSOLUTE_SHORT, ea_reg = 0\<rparr>
      else if sub = 1 then \<lparr>ea_kind = EA_ABSOLUTE_LONG, ea_reg = 0\<rparr>
      else if sub = 2 then \<lparr>ea_kind = EA_PC_DISPLACEMENT, ea_reg = 0\<rparr>
      else if sub = 3 then \<lparr>ea_kind = EA_PC_INDEXED, ea_reg = 0\<rparr>
      else if sub = 4 then \<lparr>ea_kind = EA_IMMEDIATE, ea_reg = 0\<rparr>
      else \<lparr>ea_kind = EA_INVALID, ea_reg = 0\<rparr>)"

fun ea_uses_extension :: "ea_kind \<Rightarrow> bool" where
  "ea_uses_extension EA_INDEXED = True"
| "ea_uses_extension EA_PC_INDEXED = True"
| "ea_uses_extension _ = False"

datatype bd_size = BD_RESERVED | BD_NULL | BD_WORD | BD_LONG

datatype indirect = INDIRECT_NONE | INDIRECT_PREINDEXED | INDIRECT_POSTINDEXED | INDIRECT_MEMORY
  | INDIRECT_RESERVED

datatype od_size = OD_NONE | OD_NULL | OD_WORD | OD_LONG

record extension =
  xt_full_format :: bool
  xt_index_is_address_register :: bool
  xt_index_register :: nat
  xt_index_long :: bool
  xt_scale :: nat
  xt_displacement :: int
  xt_base_suppressed :: bool
  xt_index_suppressed :: bool
  xt_base_displacement_size :: bd_size
  xt_indirect :: indirect
  xt_outer_displacement_size :: od_size
  xt_reserved :: bool

definition bd_size_of :: "nat \<Rightarrow> bd_size" where
  "bd_size_of n = (if n = 0 then BD_RESERVED else if n = 1 then BD_NULL else if n = 2 then BD_WORD else BD_LONG)"

definition od_size_of :: "nat \<Rightarrow> od_size" where
  "od_size_of n = (if n = 0 then OD_NONE else if n = 1 then OD_NULL else if n = 2 then OD_WORD else OD_LONG)"

definition decode_indirect :: "bool \<Rightarrow> nat \<Rightarrow> extension \<Rightarrow> extension" where
  "decode_indirect index_suppressed i_is x =
     (if \<not> index_suppressed
      then if i_is = 0 then x\<lparr>xt_indirect := INDIRECT_NONE, xt_outer_displacement_size := OD_NONE\<rparr>
           else if i_is = 4 then x\<lparr>xt_indirect := INDIRECT_RESERVED, xt_reserved := True\<rparr>
           else x\<lparr>xt_indirect := (if i_is < 4 then INDIRECT_PREINDEXED else INDIRECT_POSTINDEXED),
                  xt_outer_displacement_size := od_size_of ((i_is - 1) mod 4 + 1)\<rparr>
      else if i_is = 0 then x\<lparr>xt_indirect := INDIRECT_NONE, xt_outer_displacement_size := OD_NONE\<rparr>
      else if i_is \<ge> 4 then x\<lparr>xt_indirect := INDIRECT_RESERVED, xt_reserved := True\<rparr>
      else x\<lparr>xt_indirect := INDIRECT_MEMORY, xt_outer_displacement_size := od_size_of (i_is - 1 + 1)\<rparr>)"

definition ea_decode_extension :: "u16 \<Rightarrow> extension" where
  "ea_decode_extension word =
     (let x = \<lparr>xt_full_format = testbit word 8,
               xt_index_is_address_register = testbit word 15,
               xt_index_register = unat (drop_bit 12 word AND 7),
               xt_index_long = testbit word 11,
               xt_scale = 2 ^ unat (drop_bit 9 word AND 3),
               xt_displacement = 0, xt_base_suppressed = False, xt_index_suppressed = False,
               xt_base_displacement_size = BD_RESERVED, xt_indirect = INDIRECT_NONE,
               xt_outer_displacement_size = OD_NONE, xt_reserved = False\<rparr>
      in if \<not> xt_full_format x
         then x\<lparr>xt_displacement := sint (ucast (word AND 0xFF) :: u8), xt_outer_displacement_size := OD_NONE\<rparr>
         else
           let x = x\<lparr>xt_base_suppressed := testbit word 7, xt_index_suppressed := testbit word 6,
                     xt_base_displacement_size := bd_size_of (unat (drop_bit 4 word AND 3))\<rparr>;
               x = (if xt_base_displacement_size x = BD_RESERVED then x\<lparr>xt_reserved := True\<rparr> else x)
           in decode_indirect (xt_index_suppressed x) (unat (word AND 7)) x)"

definition displacement_words :: "bd_size \<Rightarrow> nat" where
  "displacement_words s = (case s of BD_WORD \<Rightarrow> 1 | BD_LONG \<Rightarrow> 2 | _ \<Rightarrow> 0)"

definition ea_extension_words :: "extension \<Rightarrow> nat" where
  "ea_extension_words x =
     (if \<not> xt_full_format x then 0
      else displacement_words (xt_base_displacement_size x) +
           (case xt_outer_displacement_size x of OD_WORD \<Rightarrow> 1 | OD_LONG \<Rightarrow> 2 | OD_NONE \<Rightarrow> 0 | OD_NULL \<Rightarrow> 0))"

definition ea_words :: "ea_kind \<Rightarrow> u16 \<Rightarrow> nat \<Rightarrow> nat" where
  "ea_words kind extension_word operand_size =
     (case kind of
        EA_DISPLACEMENT \<Rightarrow> 1 | EA_PC_DISPLACEMENT \<Rightarrow> 1 | EA_ABSOLUTE_SHORT \<Rightarrow> 1
      | EA_ABSOLUTE_LONG \<Rightarrow> 2
      | EA_INDEXED \<Rightarrow> 1 + ea_extension_words (ea_decode_extension extension_word)
      | EA_PC_INDEXED \<Rightarrow> 1 + ea_extension_words (ea_decode_extension extension_word)
      | EA_IMMEDIATE \<Rightarrow> (if operand_size > 2 then 2 else 1)
      | _ \<Rightarrow> 0)"

section \<open>Calculation\<close>

record ea_address =
  ad_in_register :: bool
  ad_address_register :: bool
  ad_reg :: nat
  ad_immediate :: bool
  ad_address :: u32
  ad_indirection_pending :: bool
  ad_post_indirection :: int
  ad_valid :: bool

record ea_input =
  in_operand_size :: nat
  in_extension_address :: u32
  in_extension_word :: u16
  in_displacement :: int
  in_base_displacement :: int
  in_outer_displacement :: int

definition valid_address :: ea_address where
  "valid_address = \<lparr>ad_in_register = False, ad_address_register = False, ad_reg = 0, ad_immediate = False,
     ad_address = 0, ad_indirection_pending = False, ad_post_indirection = 0, ad_valid = True\<rparr>"

definition address_step :: "nat \<Rightarrow> nat \<Rightarrow> nat" where
  "address_step reg operand_size = (if reg = 7 \<and> operand_size = 1 then 2 else operand_size)"

definition index_value :: "regs \<Rightarrow> extension \<Rightarrow> int" where
  "index_value r x =
     (let raw = (if xt_index_is_address_register x then read_address_register r (xt_index_register x)
                 else rg_d r ! xt_index_register x);
          sized = (if xt_index_long x then sint raw else sint (ucast (raw AND 0xFFFF) :: u16))
      in sized * int (xt_scale x))"

definition indexed_address :: "ea \<Rightarrow> ea_input \<Rightarrow> regs \<Rightarrow> ea_address" where
  "indexed_address e inp r =
     (let x = ea_decode_extension (in_extension_word inp) in
      if xt_reserved x then valid_address\<lparr>ad_valid := False\<rparr>
      else
        let base = (if \<not> (xt_full_format x \<and> xt_base_suppressed x)
                    then if ea_kind e = EA_PC_INDEXED then in_extension_address inp
                         else read_address_register r (ea_reg e)
                    else 0);
            index = (if \<not> (xt_full_format x \<and> xt_index_suppressed x) then index_value r x else 0);
            displacement = (if xt_full_format x then in_base_displacement inp else xt_displacement x);
            indirect = (xt_full_format x \<and> xt_indirect x \<noteq> INDIRECT_NONE);
            index_after = (indirect \<and> xt_indirect x = INDIRECT_POSTINDEXED);
            out = valid_address\<lparr>ad_address := base + of_int displacement + (if index_after then 0 else of_int index)\<rparr>
        in if indirect
           then out\<lparr>ad_indirection_pending := True,
                    ad_post_indirection := in_outer_displacement inp + (if index_after then index else 0)\<rparr>
           else out)"

definition address_calculate :: "ea \<Rightarrow> ea_input \<Rightarrow> regs \<Rightarrow> ea_address \<times> regs" where
  "address_calculate e inp r =
     (let out = valid_address; step = of_nat (address_step (ea_reg e) (in_operand_size inp)) in
      case ea_kind e of
        EA_DATA_REGISTER \<Rightarrow> (out\<lparr>ad_in_register := True, ad_reg := ea_reg e\<rparr>, r)
      | EA_ADDRESS_REGISTER \<Rightarrow>
          (out\<lparr>ad_in_register := True, ad_address_register := True, ad_reg := ea_reg e\<rparr>, r)
      | EA_ADDRESS_INDIRECT \<Rightarrow> (out\<lparr>ad_address := read_address_register r (ea_reg e)\<rparr>, r)
      | EA_POSTINCREMENT \<Rightarrow>
          let address = read_address_register r (ea_reg e)
          in (out\<lparr>ad_address := address\<rparr>, write_address_register (ea_reg e) (address + step) r)
      | EA_PREDECREMENT \<Rightarrow>
          let moved = read_address_register r (ea_reg e) - step
          in (out\<lparr>ad_address := moved\<rparr>, write_address_register (ea_reg e) moved r)
      | EA_DISPLACEMENT \<Rightarrow>
          (out\<lparr>ad_address := read_address_register r (ea_reg e) + of_int (in_displacement inp)\<rparr>, r)
      | EA_PC_DISPLACEMENT \<Rightarrow>
          (out\<lparr>ad_address := in_extension_address inp + of_int (in_displacement inp)\<rparr>, r)
      | EA_ABSOLUTE_SHORT \<Rightarrow> (out\<lparr>ad_address := of_int (in_displacement inp)\<rparr>, r)
      | EA_ABSOLUTE_LONG \<Rightarrow> (out\<lparr>ad_address := of_int (in_displacement inp)\<rparr>, r)
      | EA_IMMEDIATE \<Rightarrow> (out\<lparr>ad_immediate := True\<rparr>, r)
      | EA_INDEXED \<Rightarrow> (indexed_address e inp r, r)
      | EA_PC_INDEXED \<Rightarrow> (indexed_address e inp r, r)
      | EA_INVALID \<Rightarrow> (out\<lparr>ad_valid := False\<rparr>, r))"

section \<open>Properties of the decode\<close>

text \<open>The encodings the manual reserves are exactly the ones the decode marks, and nothing else is.\<close>

definition reserved_encoding :: "u16 \<Rightarrow> bool" where
  "reserved_encoding w \<longleftrightarrow> bit w 8 \<and>
     (unat (drop_bit 4 w AND 3) = 0 \<or>
      (if bit w 6 then 4 \<le> unat (w AND 7) else unat (w AND 7) = 4))"

lemma decode_reserved: "xt_reserved (ea_decode_extension w) \<longleftrightarrow> reserved_encoding w"
proof -
  have "unat (drop_bit 4 w AND 3) \<le> unat (3 :: u16)" by (rule word_le_nat_alt [THEN iffD1, OF word_and_le1])
  then show ?thesis
    by (auto simp: ea_decode_extension_def reserved_encoding_def decode_indirect_def bd_size_of_def Let_def)
qed

lemma decode_extension_fields [simp]:
  "xt_full_format (ea_decode_extension w) = bit w 8" "xt_scale (ea_decode_extension w) = 2 ^ unat (drop_bit 9 w AND 3)"
  by (auto simp: ea_decode_extension_def decode_indirect_def Let_def)

lemma displacement_words_le: "displacement_words b \<le> 2"
  by (simp add: displacement_words_def split: bd_size.split)

lemma extension_words_le: "ea_extension_words x \<le> 4"
  using displacement_words_le [of "xt_base_displacement_size x"]
  by (simp add: ea_extension_words_def split: od_size.split)

lemma ea_words_le: "ea_words k w n \<le> 5"
  using extension_words_le [of "ea_decode_extension w"] by (simp add: ea_words_def split: ea_kind.split)

lemma decode_register: "ea_kind (ea_decode m r) \<notin> {EA_ABSOLUTE_SHORT, EA_ABSOLUTE_LONG, EA_PC_DISPLACEMENT,
    EA_PC_INDEXED, EA_IMMEDIATE, EA_INVALID} \<Longrightarrow> ea_reg (ea_decode m r) = unat r"
  by (auto simp: ea_decode_def Let_def split: if_splits)

section \<open>Properties of the calculation\<close>

lemma address_calculate_wf:
  "regs_wf r \<Longrightarrow> address_calculate e inp r = (a, r') \<Longrightarrow> regs_wf r'"
  by (auto simp: address_calculate_def Let_def split: ea_kind.splits)

text \<open>Only the two stepping modes change a register, and only their own.\<close>

lemma address_calculate_regs:
  "snd (address_calculate e inp r) =
    (case ea_kind e of
       EA_POSTINCREMENT \<Rightarrow> write_address_register (ea_reg e)
         (read_address_register r (ea_reg e) + of_nat (address_step (ea_reg e) (in_operand_size inp))) r
     | EA_PREDECREMENT \<Rightarrow> write_address_register (ea_reg e)
         (read_address_register r (ea_reg e) - of_nat (address_step (ea_reg e) (in_operand_size inp))) r
     | _ \<Rightarrow> r)"
  by (simp add: address_calculate_def Let_def split: ea_kind.split)

text \<open>Pushing with predecrement and popping with postincrement.\<close>

lemma push_pop:
  assumes "length (rg_a r) = 7" "n < 8"
    and "address_calculate \<lparr>ea_kind = EA_PREDECREMENT, ea_reg = n\<rparr> inp r = (pushed, r1)"
    and "address_calculate \<lparr>ea_kind = EA_POSTINCREMENT, ea_reg = n\<rparr> inp' r1 = (popped, r2)"
    and "in_operand_size inp' = in_operand_size inp"
  shows "r2 = r \<and> popped = pushed"
  using assms by (auto simp: address_calculate_def Let_def)

text \<open>The scaled index enters an indexed address exactly once: inside the brackets, or after them.\<close>

definition indexed_base :: "ea \<Rightarrow> ea_input \<Rightarrow> regs \<Rightarrow> u32" where
  "indexed_base e inp r =
     (let x = ea_decode_extension (in_extension_word inp) in
      if xt_full_format x \<and> xt_base_suppressed x then 0
      else if ea_kind e = EA_PC_INDEXED then in_extension_address inp else read_address_register r (ea_reg e))"

definition indexed_index :: "ea_input \<Rightarrow> regs \<Rightarrow> int" where
  "indexed_index inp r =
     (let x = ea_decode_extension (in_extension_word inp) in
      if xt_full_format x \<and> xt_index_suppressed x then 0 else index_value r x)"

lemma indexed_once:
  assumes "ad_valid (indexed_address e inp r)"
  shows "ad_address (indexed_address e inp r) + of_int (ad_post_indirection (indexed_address e inp r)) =
    indexed_base e inp r + of_int (indexed_index inp r) +
    of_int (if bit (in_extension_word inp) 8 then in_base_displacement inp
            else xt_displacement (ea_decode_extension (in_extension_word inp))) +
    of_int (if ad_indirection_pending (indexed_address e inp r) then in_outer_displacement inp else 0)"
  using assms
  by (auto simp: indexed_address_def indexed_base_def indexed_index_def valid_address_def Let_def algebra_simps)

text \<open>The product of a long index with its scale, which C computes in \<^verbatim>\<open>int32_t\<close>, can leave it.\<close>

lemma scaled_bounds:
  fixes w n :: int
  assumes "- 32768 \<le> w" "w < 32768" "0 \<le> n" "n \<le> 8"
  shows "- 262144 \<le> w * n" "w * n < 262144"
proof -
  have "w * n \<le> 32767 * n" "(- 32768) * n \<le> w * n"
    by (rule mult_right_mono, use assms in linarith, use assms in linarith)+
  then show "- 262144 \<le> w * n" "w * n < 262144" using assms(3,4) by linarith+
qed

lemma index_value_bounds:
  assumes "\<not> xt_index_long x" "xt_scale x \<le> 8"
  shows "- 262144 \<le> index_value r x" "index_value r x < 262144"
proof -
  have "index_value r x = sint (ucast ((if xt_index_is_address_register x
      then read_address_register r (xt_index_register x) else rg_d r ! xt_index_register x) AND 0xFFFF) :: u16) *
      int (xt_scale x)"
    using assms(1) by (simp add: index_value_def Let_def)
  then obtain w :: u16 where v: "index_value r x = sint w * int (xt_scale x)" ..
  have "- 32768 \<le> sint w" "sint w < 32768" using sint_ge [of w] sint_lt [of w] by simp_all
  from scaled_bounds [OF this, of "int (xt_scale x)"] assms(2)
  show "- 262144 \<le> index_value r x" "index_value r x < 262144" unfolding v by simp_all
qed

lemma scaled_index_overflows:
  assumes "rg_d r ! 0 = 0x40000000" and "x = ea_decode_extension 0x0C00"
  shows "index_value r x = 2 ^ 32" "\<not> xt_reserved x"
proof -
  have "xt_index_long x" "\<not> xt_index_is_address_register x" "xt_index_register x = 0" "xt_scale x = 4" "\<not> xt_reserved x"
    unfolding assms(2) by code_simp+
  then show "index_value r x = 2 ^ 32" "\<not> xt_reserved x" by (simp_all add: index_value_def assms(1))
qed

end
