(* ===== verification/M68030_Operand.thy ===== *)
theory M68030_Operand
  imports Memory_View M68030_Ea
begin

unbundle bit_operations_syntax

text \<open>
  Operands of the MC68030, \<^verbatim>\<open>src/core/cpu/m68030/ap_m68030_operand.{h,c}\<close>: the value of a calculated
  address, in a register or in memory, where an operand that crosses a long-word boundary is taken in as
  many accesses as it has long words.

  The lemmas say that over any memory that meets the \<open>backing_memory\<close> interface an operand read returns
  the big-endian value of its bytes and an operand write stores them, whatever the alignment and whatever
  the cache holds, and that a register write keeps what the operand does not cover.
\<close>

section \<open>The operations\<close>

record operand_result =
  or_ok :: bool
  or_value :: u32
  or_clocks :: nat
  or_fault :: bool
  or_translation_fault :: bool
  or_fault_address :: u32

definition no_operand :: operand_result where
  "no_operand = \<lparr>or_ok = False, or_value = 0, or_clocks = 0, or_fault = False, or_translation_fault = False,
     or_fault_address = 0\<rparr>"

definition sign_extend :: "u32 \<Rightarrow> nat \<Rightarrow> u32" where
  "sign_extend v sz =
     (if sz = 1 then scast (ucast (v AND 0xFF) :: u8)
      else if sz = 2 then scast (ucast (v AND 0xFFFF) :: u16)
      else v)"

definition size_mask :: "nat \<Rightarrow> u32" where
  "size_mask sz = (if sz = 1 then 0xFF else if sz = 2 then 0xFFFF else 0xFFFFFFFF)"

text \<open>The bytes of an operand that one access carries, and where they are in the long word.\<close>

definition chunk :: "u32 \<Rightarrow> nat \<Rightarrow> nat" where
  "chunk address remaining = (let c = 4 - unat (address AND 3) in if c > remaining then remaining else c)"

lemma chunk_bounds: "0 < n \<Longrightarrow> 0 < chunk a n" "chunk a n \<le> n" "unat (a AND 3) + chunk a n \<le> 4"
  using align_split(3) [of a] by (auto simp: chunk_def Let_def)

text \<open>An aligned long operand is one piece of four bytes, for which the C shifts what was gathered before (a
  zero) by the width of its type.\<close>

lemma aligned_long_shift: "a AND 3 = 0 \<Longrightarrow> chunk a 4 * 8 = LENGTH(32)"
  by (simp add: chunk_def)

function read_pieces :: "'m access_ctx \<Rightarrow> u8 \<Rightarrow> u32 \<Rightarrow> nat \<Rightarrow> u32 \<Rightarrow> operand_result \<Rightarrow> 'm access_state \<Rightarrow>
    operand_result \<times> 'm access_state" where
  "read_pieces ax fc address remaining value out st =
     (if remaining = 0 then (out\<lparr>or_value := value, or_ok := True\<rparr>, st)
      else
        let offset = unat (address AND 3); c = chunk address remaining;
            (rd, st) = access_read_sized ax address fc c st;
            out = out\<lparr>or_clocks := or_clocks out + ar_clocks rd\<rparr>
        in if \<not> ar_ok rd
           then (out\<lparr>or_fault := ar_fault rd, or_translation_fault := ar_translation_fault rd,
                    or_fault_address := address, or_ok := False\<rparr>, st)
           else
             let piece = drop_bit ((4 - offset - c) * 8) (ar_value rd) AND size_mask c
             in read_pieces ax fc (address + of_nat c) (remaining - c) (push_bit (c * 8) value OR piece) out st)"
  by pat_completeness auto
termination
  by (relation "measure (\<lambda>(_, _, _, n, _, _, _). n)") (auto simp: chunk_bounds)

declare read_pieces.simps [simp del]

function write_pieces :: "'m access_ctx \<Rightarrow> u8 \<Rightarrow> u32 \<Rightarrow> u32 \<Rightarrow> nat \<Rightarrow> operand_result \<Rightarrow> 'm access_state \<Rightarrow>
    operand_result \<times> 'm access_state" where
  "write_pieces ax fc value address remaining out st =
     (if remaining = 0 then (out\<lparr>or_ok := True\<rparr>, st)
      else
        let c = chunk address remaining;
            piece = drop_bit ((remaining - c) * 8) value AND size_mask c;
            (written, st) = access_write ax address fc piece c st;
            out = out\<lparr>or_clocks := or_clocks out + ar_clocks written\<rparr>
        in if \<not> ar_ok written
           then (out\<lparr>or_fault := ar_fault written, or_translation_fault := ar_translation_fault written,
                    or_fault_address := address, or_ok := False\<rparr>, st)
           else write_pieces ax fc value (address + of_nat c) (remaining - c) out st)"
  by pat_completeness auto
termination
  by (relation "measure (\<lambda>(_, _, _, _, n, _, _). n)") (auto simp: chunk_bounds)

declare write_pieces.simps [simp del]

definition operand_read :: "regs \<Rightarrow> 'm access_ctx \<Rightarrow> ea_address \<Rightarrow> nat \<Rightarrow> u8 \<Rightarrow> 'm access_state \<Rightarrow>
    operand_result \<times> 'm access_state" where
  "operand_read r ax ea sz fc st =
     (if \<not> ad_valid ea \<or> ad_indirection_pending ea then (no_operand\<lparr>or_fault := True\<rparr>, st)
      else if ad_in_register ea
      then let whole = (if ad_address_register ea then read_address_register r (ad_reg ea) else rg_d r ! ad_reg ea)
           in (no_operand\<lparr>or_value := whole AND size_mask sz, or_ok := True\<rparr>, st)
      else if ad_immediate ea then (no_operand\<lparr>or_fault := True\<rparr>, st)
      else read_pieces ax fc (ad_address ea) sz 0 no_operand st)"

definition operand_write :: "'m access_ctx \<Rightarrow> ea_address \<Rightarrow> nat \<Rightarrow> u32 \<Rightarrow> u8 \<Rightarrow> regs \<Rightarrow> 'm access_state \<Rightarrow>
    operand_result \<times> regs \<times> 'm access_state" where
  "operand_write ax ea sz value fc r st =
     (if \<not> ad_valid ea \<or> ad_indirection_pending ea \<or> ad_immediate ea
      then (no_operand\<lparr>or_fault := True\<rparr>, r, st)
      else if ad_in_register ea
      then (no_operand\<lparr>or_ok := True\<rparr>,
            (if ad_address_register ea then write_address_register (ad_reg ea) (sign_extend value sz) r
             else r\<lparr>rg_d := (rg_d r)[ad_reg ea :=
                      (rg_d r ! ad_reg ea AND NOT (size_mask sz)) OR (value AND size_mask sz)]\<rparr>),
            st)
      else let (out, st) = write_pieces ax fc value (ad_address ea) sz no_operand st in (out, r, st))"

section \<open>Registers\<close>

lemma operand_write_wf:
  "regs_wf r \<Longrightarrow> operand_write ax ea sz v fc r st = (out, r', st') \<Longrightarrow> regs_wf r'"
  by (auto simp: operand_write_def split: if_splits prod.splits)

lemma operand_write_data:
  assumes "regs_wf r" "ad_reg ea < 8" "ad_valid ea" "ad_in_register ea" "\<not> ad_address_register ea"
    "\<not> ad_indirection_pending ea" "\<not> ad_immediate ea"
    and "operand_write ax ea sz v fc r st = (out, r', st')"
  shows "rg_d r' ! ad_reg ea AND size_mask sz = v AND size_mask sz"
    "rg_d r' ! ad_reg ea AND NOT (size_mask sz) = rg_d r ! ad_reg ea AND NOT (size_mask sz)"
    "st' = st"
  using assms by (auto simp: operand_write_def regs_wf_def bit.conj_disj_distrib2 and.assoc)

section \<open>The bytes of an operand\<close>

primrec be_bytes :: "(u32 \<Rightarrow> u8) \<Rightarrow> u32 \<Rightarrow> nat \<Rightarrow> u32" where
  "be_bytes f p 0 = 0"
| "be_bytes f p (Suc n) = push_bit 8 (be_bytes f p n) OR ucast (f (p + of_nat n))"

lemma bit_be_bytes:
  "k < 32 \<Longrightarrow> bit (be_bytes f p n) k \<longleftrightarrow> k < 8 * n \<and> bit (f (p + of_nat (n - 1 - k div 8))) (k mod 8)"
proof (induction n arbitrary: k)
  case (Suc n)
  show ?case
  proof (cases "k < 8")
    case True
    then show ?thesis using Suc.prems by (simp add: bit_or_iff bit_push_bit_iff bit_ucast_iff)
  next
    case False
    then have k: "k - 8 < 32" "k = k - 8 + 8" "(k - 8) mod 8 = k mod 8" "k div 8 = Suc ((k - 8) div 8)"
      using Suc.prems by (simp_all add: le_mod_geq le_div_geq)
    have "bit (be_bytes f p (Suc n)) k \<longleftrightarrow> bit (be_bytes f p n) (k - 8)"
      using False Suc.prems by (auto simp: bit_or_iff bit_push_bit_iff bit_ucast_iff dest: bit_imp_le_length)
    also have "\<dots> \<longleftrightarrow> k < 8 * Suc n \<and> bit (f (p + of_nat (Suc n - 1 - k div 8))) (k mod 8)"
      using Suc.IH [OF k(1)] k(3,4) False by auto
    finally show ?thesis .
  qed
qed simp

lemma be_bytes_append:
  "be_bytes f p (c + d) = push_bit (8 * d) (be_bytes f p c) OR be_bytes f (p + of_nat c) d"
  by (induction d) (simp_all add: push_bit_or push_bit_push_bit or.assoc add.assoc)

text \<open>The bytes one access yields, and the bytes one access stores.\<close>

lemma piece_lane:
  fixes off c d :: nat
  shows "off + c \<le> 4 \<Longrightarrow> d < c \<Longrightarrow> 3 - (4 - off - c + d) = off + (c - 1 - d)"
  by linarith

lemma be_long_piece:
  assumes "0 < c" "unat (p AND 3) + c \<le> 4" "k < 8 * c"
  shows "bit (drop_bit ((4 - unat (p AND 3) - c) * 8) (be_long f (p AND NOT 3))) k = bit (be_bytes f p c) k"
proof -
  let ?off = "unat (p AND 3)" and ?n = "(4 - unat (p AND 3) - c) * 8 + k"
  have k: "k < 32" "?n < 32" using assms(2,3) by linarith+
  have k: "k < 32" "?n < 32" "k div 8 < c" using k assms(3) by (simp_all add: less_mult_imp_div_less mult.commute)
  have m: "?n mod 8 = k mod 8" "?n div 8 = 4 - ?off - c + k div 8" by simp_all
  note j = piece_lane [OF assms(2) k(3), folded m(2)] m(1)
  have "(p AND NOT 3) + of_nat (?off + (c - 1 - k div 8)) = ((p AND NOT 3) + of_nat ?off) + of_nat (c - 1 - k div 8)"
    by (simp only: of_nat_add add.assoc)
  also have "\<dots> = p + of_nat (c - 1 - k div 8)" by (simp only: align_split(1) [of p, symmetric])
  finally have a: "(p AND NOT 3) + of_nat (?off + (c - 1 - k div 8)) = p + of_nat (c - 1 - k div 8)" .
  show ?thesis
    unfolding bit_drop_bit_eq comp_def bit_be_long [OF k(2)] j a bit_be_bytes [OF k(1)] using assms(3) by simp
qed

lemma wrap_difference:
  fixes c d n :: nat
  shows "c \<le> n \<Longrightarrow> (if c \<le> d then d - c else d + n - c) = (if c \<le> d then d - c else n - (c - d))"
  by auto

lemma unat_diff_after:
  assumes "0 < c" "c \<le> 4"
  shows "unat (q - (p + of_nat c) :: u32) = (if c \<le> unat (q - p) then unat (q - p) - c else 2 ^ 32 - (c - unat (q - p)))"
proof -
  have "unat (of_nat c :: u32) = c" using assms by (simp add: unat_of_nat take_bit_nat_eq_self)
  moreover have "q - (p + of_nat c) = (q - p) - of_nat c" by simp
  ultimately have "unat (q - (p + of_nat c)) = (if c \<le> unat (q - p) then unat (q - p) - c
      else unat (q - p) + 2 ^ LENGTH(32) - c)"
    using unat_sub_if_size [of "q - p" "of_nat c"] by (simp only: word_size)
  also have "\<dots> = (if c \<le> unat (q - p) then unat (q - p) - c else 2 ^ LENGTH(32) - (c - unat (q - p)))"
    by (rule wrap_difference) (use assms in simp)
  finally show ?thesis by simp
qed

lemma bit_size_mask: "0 < c \<Longrightarrow> c \<le> 4 \<Longrightarrow> k < 8 * c \<Longrightarrow> bit (size_mask c) k"
proof -
  have m: "(0xFF :: u32) = mask 8" "(0xFFFF :: u32) = mask 16" "(0xFFFFFFFF :: u32) = mask 32"
    by (simp_all add: mask_eq_exp_minus_1)
  assume "0 < c" "c \<le> 4" "k < 8 * c"
  then show ?thesis unfolding size_mask_def m by (auto simp: bit_mask_iff)
qed

lemma store_split:
  assumes "0 < c" "c \<le> n" "n \<le> 4"
  shows "store_bytes (p + of_nat c) (n - c) v (store_bytes p c (drop_bit ((n - c) * 8) v AND size_mask c) f) =
    store_bytes p n v f"
proof (rule ext)
  fix q
  let ?d = "unat (q - p)"
  have after: "unat (q - (p + of_nat c)) = (if c \<le> ?d then ?d - c else 2 ^ 32 - (c - ?d))"
    by (rule unat_diff_after) (use assms in auto)
  show "store_bytes (p + of_nat c) (n - c) v (store_bytes p c (drop_bit ((n - c) * 8) v AND size_mask c) f) q =
    store_bytes p n v f q"
  proof (cases "c \<le> ?d")
    case True
    then have "unat (q - (p + of_nat c)) = ?d - c" using after by simp
    moreover have "n - c - 1 - (?d - c) = n - 1 - ?d" using True by simp
    ultimately show ?thesis using True by (auto simp: store_bytes_def stored_byte_def)
  next
    case False
    have "\<not> unat (q - (p + of_nat c)) < n - c" using False after assms by auto
    moreover have "stored_byte p (drop_bit ((n - c) * 8) v AND size_mask c) c q = stored_byte p v n q"
    proof (rule bit_word_eqI)
      fix k assume "k < LENGTH(8)"
      then have k: "8 * (c - 1 - ?d) + k < 8 * c" "(n - c) * 8 + (8 * (c - 1 - ?d) + k) = 8 * (n - 1 - ?d) + k"
        using False assms by auto
      show "bit (stored_byte p (drop_bit ((n - c) * 8) v AND size_mask c) c q) k = bit (stored_byte p v n q) k"
        unfolding bit_stored_byte bit_and_iff bit_drop_bit_eq comp_def k(2)
        using bit_size_mask [OF assms(1) _ k(1)] assms by simp
    qed
    ultimately show ?thesis using False assms by (auto simp: store_bytes_def)
  qed
qed

text \<open>A value stored and loaded again.\<close>

lemma bytes_of_store:
  assumes "n \<le> 4" "k < 32"
  shows "bit (be_bytes (store_bytes p n v f) p n) k \<longleftrightarrow> k < 8 * n \<and> bit v k"
proof (cases "k < 8 * n")
  case True
  then have k: "k div 8 < n" "n - 1 - (n - 1 - k div 8) = k div 8" by linarith+
  have "unat (of_nat (n - 1 - k div 8) :: u32) = n - 1 - k div 8"
    using assms(1) by (simp add: unat_of_nat take_bit_nat_eq_self)
  then have "store_bytes p n v f (p + of_nat (n - 1 - k div 8)) = stored_byte p v n (p + of_nat (n - 1 - k div 8))"
    and "unat (p + of_nat (n - 1 - k div 8) - p) = n - 1 - k div 8"
    using k(1) by (simp_all add: store_bytes_def)
  then show ?thesis
    unfolding bit_be_bytes [OF assms(2)] using True k(2) by (simp add: bit_stored_byte)
qed (simp add: bit_be_bytes assms(2))

lemma read_back:
  assumes "n \<in> {1, 2, 4}"
  shows "be_bytes (store_bytes p n v f) p n = v AND size_mask n"
proof (rule bit_word_eqI)
  fix k assume "k < LENGTH(32)"
  then have k: "k < 32" by simp
  have m: "(0xFF :: u32) = mask 8" "(0xFFFF :: u32) = mask 16" "(0xFFFFFFFF :: u32) = mask 32"
    by (simp_all add: mask_eq_exp_minus_1)
  have "n \<le> 4" using assms by auto
  then show "bit (be_bytes (store_bytes p n v f) p n) k = bit (v AND size_mask n) k"
    unfolding bytes_of_store [OF \<open>n \<le> 4\<close> k] using assms k unfolding size_mask_def m
    by (auto simp: bit_and_iff bit_mask_iff)
qed

section \<open>Operands in memory\<close>

text \<open>What is known of the value read: its low \<open>n\<close> bytes, and, unless a three-byte piece from the second
  byte of a long word is among them (\<open>size_mask\<close> leaves that unmasked), above them what was gathered
  before.\<close>

definition gathered :: "(u32 \<Rightarrow> u8) \<Rightarrow> u32 \<Rightarrow> nat \<Rightarrow> u32 \<Rightarrow> u32 \<Rightarrow> bool" where
  "gathered f p n v w \<longleftrightarrow> (\<forall>k<32. (k < 8 * n \<longrightarrow> bit w k = bit (be_bytes f p n) k) \<and>
     (n < 3 \<or> unat (p AND 3) \<noteq> 1 \<longrightarrow> 8 * n \<le> k \<longrightarrow> bit w k = bit v (k - 8 * n)))"

lemma gathered_none: "gathered f p 0 v v"
  by (simp add: gathered_def)

lemma gathered_all:
  assumes "gathered f p n 0 w" "n \<in> {1, 2, 4}"
  shows "w = be_bytes f p n"
proof (rule bit_word_eqI)
  fix k assume "k < LENGTH(32)"
  then show "bit w k = bit (be_bytes f p n) k"
    using assms by (cases "k < 8 * n") (auto simp: gathered_def bit_be_bytes)
qed

lemma piece_clean:
  fixes w p :: u32
  assumes "0 < c" "unat (p AND 3) + c \<le> 4" "c < 3 \<or> unat (p AND 3) \<noteq> 1" "8 * c \<le> k"
  shows "\<not> bit (drop_bit ((4 - unat (p AND 3) - c) * 8) w AND size_mask c) k"
proof -
  have m: "(0xFF :: u32) = mask 8" "(0xFFFF :: u32) = mask 16"
    by (simp_all add: mask_eq_exp_minus_1)
  consider "c = 1" | "c = 2" | "c = 3" "unat (p AND 3) = 0" | "c = 4" "unat (p AND 3) = 0"
    using assms by linarith
  then show ?thesis
    using assms(4) bit_imp_le_length [of w "8 + k"] bit_imp_le_length [of w k]
    by cases (auto simp: size_mask_def m bit_and_iff bit_drop_bit_eq bit_mask_iff)
qed

lemma gathered_step:
  assumes c: "0 < c" "c \<le> n" "unat (p AND 3) + c \<le> 4"
    and clean: "n - c < 3 \<or> unat ((p + of_nat c) AND 3) \<noteq> 1"
    and rest: "gathered f (p + of_nat c) (n - c) (push_bit (c * 8) v OR
      (drop_bit ((4 - unat (p AND 3) - c) * 8) (be_long f (p AND NOT 3)) AND size_mask c)) w"
  shows "gathered f p n v w"
proof -
  let ?piece = "drop_bit ((4 - unat (p AND 3) - c) * 8) (be_long f (p AND NOT 3)) AND size_mask c"
  let ?m = "8 * (n - c)"
  have cat: "be_bytes f p n = push_bit ?m (be_bytes f p c) OR be_bytes f (p + of_nat c) (n - c)"
    using be_bytes_append [of f p c "n - c"] c(2) by simp
  have high: "bit w k = bit (push_bit (c * 8) v OR ?piece) (k - ?m)" if "k < 32" "?m \<le> k" for k
    using rest clean that unfolding gathered_def by blast
  have piece: "bit ?piece j = bit (be_bytes f p c) j" if "j < 8 * c" for j
    using be_long_piece [OF c(1,3) that] bit_size_mask [OF c(1) _ that] c(3) by (simp add: bit_and_iff)
  have "bit w k = bit (be_bytes f p n) k" if k: "k < 32" "k < 8 * n" for k
  proof (cases "k < ?m")
    case True
    then show ?thesis
      using rest k by (simp add: gathered_def cat bit_or_iff bit_push_bit_iff)
  next
    case False
    then have j: "k - ?m < 8 * c" "\<not> c * 8 \<le> k - ?m" "?m \<le> k" using k c(2) by auto
    have "bit w k = bit (be_bytes f p c) (k - ?m)"
      using high [OF k(1) j(3)] piece [OF j(1)] j(2) by (simp add: bit_or_iff bit_push_bit_iff)
    then show ?thesis using j(3) k by (simp add: cat bit_or_iff bit_push_bit_iff bit_be_bytes)
  qed
  moreover have "bit w k = bit v (k - 8 * n)" if k: "k < 32" "8 * n \<le> k" "n < 3 \<or> unat (p AND 3) \<noteq> 1" for k
  proof -
    have j: "8 * c \<le> k - ?m" "?m \<le> k" "k - ?m - c * 8 = k - 8 * n" "k - ?m < 32" using k c(2) by auto
    have "c < 3 \<or> unat (p AND 3) \<noteq> 1" using k(3) c(2) by linarith
    from piece_clean [OF c(1,3) this j(1)] show ?thesis
      using high [OF k(1) j(2)] j k(1) by (simp add: bit_or_iff bit_push_bit_iff mult.commute)
  qed
  ultimately show ?thesis by (simp add: gathered_def)
qed

lemma after_chunk:
  assumes "chunk p n < n"
  shows "(p + of_nat (chunk p n)) AND 3 = 0"
proof -
  have c: "chunk p n = 4 - unat (p AND 3)" using assms by (auto simp: chunk_def Let_def split: if_splits)
  have "p + of_nat (chunk p n) = (p AND NOT 3) + of_nat (unat (p AND 3) + chunk p n)"
    by (subst align_split(1) [of p]) (simp only: of_nat_add add.assoc)
  also have "unat (p AND 3) + chunk p n = 4" using c align_split(3) [of p] by simp
  finally have sum: "p + of_nat (chunk p n) = (p AND NOT 3) + 4" by simp
  have "unat ((p AND NOT 3) + 4) mod 4 = (unat (p AND NOT 3) + 4) mod 2 ^ 32 mod 4"
    by (simp add: unat_word_ariths)
  also have "\<dots> = unat (p AND NOT 3) mod 4" by (subst mod_mod_cancel) simp_all
  also have "\<dots> = 0" using low_two_mod [of "p AND NOT 3"] align_split(2) [of p] by simp
  finally show ?thesis unfolding sum by (simp add: low_two_mod [symmetric] unat_eq_0)
qed

text \<open>An address in memory that needs nothing more.\<close>

definition addressable :: "ea_address \<Rightarrow> bool" where
  "addressable ea \<longleftrightarrow> ad_valid ea \<and> \<not> ad_in_register ea \<and> \<not> ad_immediate ea \<and> \<not> ad_indirection_pending ea"

context backing_memory
begin

text \<open>Memory is fitted at every byte of an operand.\<close>

definition covers :: "u32 \<Rightarrow> nat \<Rightarrow> bool" where
  "covers p n \<longleftrightarrow> (\<forall>i<n. fitted ((p + of_nat i) AND NOT 3))"

lemma covers_first: "covers p n \<Longrightarrow> 0 < n \<Longrightarrow> fitted (p AND NOT 3)"
  by (auto simp: covers_def dest: spec [of _ 0])

lemma covers_rest: "covers p n \<Longrightarrow> covers (p + of_nat c) (n - c)"
  unfolding covers_def
proof (intro allI impI)
  fix i assume "\<forall>i<n. fitted ((p + of_nat i) AND NOT 3)" "i < n - c"
  moreover from this have "c + i < n" by simp
  ultimately have "fitted ((p + of_nat (c + i)) AND NOT 3)" by blast
  then show "fitted ((p + of_nat c + of_nat i) AND NOT 3)" by (simp add: add.assoc)
qed

lemma read_pieces_memory:
  "in_step ax bytes good st \<Longrightarrow> coherent_policy ax \<Longrightarrow> n \<le> 4 \<Longrightarrow> read_pieces ax fc p n v out st = (r, st') \<Longrightarrow>
    in_step ax bytes good st' \<and> bytes (as_machine st') = bytes (as_machine st) \<and>
    (or_ok r \<longrightarrow> gathered (bytes (as_machine st)) p n v (or_value r)) \<and> (covers p n \<longrightarrow> or_ok r)"
proof (induction n arbitrary: p v out st rule: less_induct)
  case (less n)
  show ?case
  proof (cases "n = 0")
    case True
    then show ?thesis using less.prems by (subst (asm) read_pieces.simps) (auto simp: gathered_none)
  next
    case False
    let ?c = "chunk p n"
    obtain rd st1 where rd: "access_read_sized ax p fc ?c st = (rd, st1)" by fastforce
    note got = read_in_step [OF less.prems(1,2) rd]
    note c = chunk_bounds [where a = p and n = n]
    show ?thesis
    proof (cases "ar_ok rd")
      case True
      let ?piece = "drop_bit ((4 - unat (p AND 3) - ?c) * 8) (ar_value rd) AND size_mask ?c"
      have rest: "read_pieces ax fc (p + of_nat ?c) (n - ?c) (push_bit (?c * 8) v OR ?piece)
          (out\<lparr>or_clocks := or_clocks out + ar_clocks rd\<rparr>) st1 = (r, st')"
        using less.prems(4) rd True False by (subst (asm) read_pieces.simps) (simp add: Let_def)
      have IH: "in_step ax bytes good st' \<and> bytes (as_machine st') = bytes (as_machine st1) \<and>
          (or_ok r \<longrightarrow> gathered (bytes (as_machine st1)) (p + of_nat ?c) (n - ?c)
             (push_bit (?c * 8) v OR ?piece) (or_value r)) \<and> (covers (p + of_nat ?c) (n - ?c) \<longrightarrow> or_ok r)"
        by (rule less.IH [OF _ _ less.prems(2) _ rest]) (use c False got less.prems(3) in auto)
      have "n - ?c < 3 \<or> unat ((p + of_nat ?c) AND 3) \<noteq> 1"
        using after_chunk [of p n] c(2) by (cases "?c < n") auto
      from gathered_step [OF _ c(2,3) this] show ?thesis
        using IH got True c(1) False covers_rest [of p n ?c] by auto
    next
      case fault: False
      then show ?thesis
        using less.prems(4) got(1) got(3) [OF covers_first] fault False rd by (subst (asm) read_pieces.simps) (auto simp: Let_def)
    qed
  qed
qed

lemma write_pieces_memory:
  "in_step ax bytes good st \<Longrightarrow> coherent_policy ax \<Longrightarrow> n \<le> 4 \<Longrightarrow> write_pieces ax fc v p n out st = (r, st') \<Longrightarrow>
    in_step ax bytes good st' \<and> (or_ok r \<longrightarrow> bytes (as_machine st') = store_bytes p n v (bytes (as_machine st))) \<and>
    (covers p n \<longrightarrow> or_ok r)"
proof (induction n arbitrary: p out st rule: less_induct)
  case (less n)
  show ?case
  proof (cases "n = 0")
    case True
    then show ?thesis
      using less.prems by (subst (asm) write_pieces.simps) (auto simp: store_bytes_def)
  next
    case False
    let ?c = "chunk p n"
    let ?piece = "drop_bit ((n - ?c) * 8) v AND size_mask ?c"
    obtain wr st1 where wr: "access_write ax p fc ?piece ?c st = (wr, st1)" by fastforce
    note c = chunk_bounds [where a = p and n = n]
    note put = write_in_step [OF less.prems(1,2) _ c(3) wr]
    show ?thesis
    proof (cases "ar_ok wr")
      case True
      have rest: "write_pieces ax fc v (p + of_nat ?c) (n - ?c)
          (out\<lparr>or_clocks := or_clocks out + ar_clocks wr\<rparr>) st1 = (r, st')"
        using less.prems(4) wr True False by (subst (asm) write_pieces.simps) (simp add: Let_def)
      have IH: "in_step ax bytes good st' \<and> (or_ok r \<longrightarrow> bytes (as_machine st') =
          store_bytes (p + of_nat ?c) (n - ?c) v (bytes (as_machine st1))) \<and>
          (covers (p + of_nat ?c) (n - ?c) \<longrightarrow> or_ok r)"
        by (rule less.IH [OF _ _ less.prems(2) _ rest]) (use c False put less.prems(3) in auto)
      then show ?thesis
        using put True c False store_split [of ?c n p v] less.prems(3) covers_rest [of p n ?c] by auto
    next
      case fault: False
      then show ?thesis
        using less.prems(4) put(1) put(3) [OF _ covers_first] fault c(1) False wr by (subst (asm) write_pieces.simps) (auto simp: Let_def)
    qed
  qed
qed

text \<open>An operand written to memory and read back, and the invariant of both.\<close>

lemma operand_read_memory:
  assumes "in_step ax bytes good st" "coherent_policy ax" "sz \<in> {1, 2, 4}" "\<not> ad_in_register ea"
    and "operand_read r ax ea sz fc st = (out, st')"
  shows "in_step ax bytes good st'" "bytes (as_machine st') = bytes (as_machine st)"
    "or_ok out \<Longrightarrow> or_value out = be_bytes (bytes (as_machine st)) (ad_address ea) sz"
    "addressable ea \<Longrightarrow> covers (ad_address ea) sz \<Longrightarrow> or_ok out"
proof -
  have "sz \<le> 4" using assms(3) by auto
  have "in_step ax bytes good st' \<and> bytes (as_machine st') = bytes (as_machine st) \<and>
      (or_ok out \<longrightarrow> or_value out = be_bytes (bytes (as_machine st)) (ad_address ea) sz) \<and>
      (addressable ea \<longrightarrow> covers (ad_address ea) sz \<longrightarrow> or_ok out)"
    using assms(1,4,5) read_pieces_memory [OF assms(1,2) \<open>sz \<le> 4\<close>] gathered_all [OF _ assms(3)]
    by (auto simp: operand_read_def no_operand_def addressable_def split: if_splits)
  then show "in_step ax bytes good st'" "bytes (as_machine st') = bytes (as_machine st)"
    "or_ok out \<Longrightarrow> or_value out = be_bytes (bytes (as_machine st)) (ad_address ea) sz"
    "addressable ea \<Longrightarrow> covers (ad_address ea) sz \<Longrightarrow> or_ok out" by blast+
qed

lemma operand_write_memory:
  assumes "in_step ax bytes good st" "coherent_policy ax" "sz \<le> 4" "\<not> ad_in_register ea"
    and "operand_write ax ea sz v fc r st = (out, r', st')"
  shows "in_step ax bytes good st'" "r' = r"
    "or_ok out \<Longrightarrow> bytes (as_machine st') = store_bytes (ad_address ea) sz v (bytes (as_machine st))"
    "addressable ea \<Longrightarrow> covers (ad_address ea) sz \<Longrightarrow> or_ok out"
proof -
  have "in_step ax bytes good st' \<and> r' = r \<and>
      (or_ok out \<longrightarrow> bytes (as_machine st') = store_bytes (ad_address ea) sz v (bytes (as_machine st))) \<and>
      (addressable ea \<longrightarrow> covers (ad_address ea) sz \<longrightarrow> or_ok out)"
    using assms(1,4,5) write_pieces_memory [OF assms(1-3)]
    by (auto simp: operand_write_def no_operand_def addressable_def split: if_splits prod.splits)
  then show "in_step ax bytes good st'" "r' = r"
    "or_ok out \<Longrightarrow> bytes (as_machine st') = store_bytes (ad_address ea) sz v (bytes (as_machine st))"
    "addressable ea \<Longrightarrow> covers (ad_address ea) sz \<Longrightarrow> or_ok out" by blast+
qed

end

section \<open>The shape of the programming model\<close>


end
