(* ===== verification/M68882_Cir.thy ===== *)
theory M68882_Cir
  imports Apollo_Prelude
begin

unbundle bit_operations_syntax

text \<open>
  The MC68882's coprocessor interface registers as the processor addresses them in CPU space,
  \<^verbatim>\<open>src/core/cpu/m68882/ap_m68882_cir.{h,c}\<close>: which register an address selects, whether a cycle is
  for this coprocessor, and the width and direction of each register.
\<close>

datatype cir = CIR_RESPONSE | CIR_CONTROL | CIR_SAVE | CIR_RESTORE | CIR_OPERATION_WORD | CIR_COMMAND
  | CIR_CONDITION | CIR_OPERAND | CIR_REGISTER_SELECT | CIR_INSTRUCTION_ADDRESS | CIR_OPERAND_ADDRESS
  | CIR_RESERVED | CIR_NONE

definition CPU_SPACE_TYPE :: u32 where "CPU_SPACE_TYPE = 2"
definition DEFAULT_CPID :: u32 where "DEFAULT_CPID = 1"

definition cir_select :: "u32 \<Rightarrow> cir" where
  "cir_select address =
     (let s = address AND 0x1F; k = drop_bit 1 s in
      if s AND 0x1C = 0x10 then CIR_OPERAND
      else if s AND 0x1C = 0x18 then CIR_INSTRUCTION_ADDRESS
      else if s AND 0x1C = 0x1C then CIR_OPERAND_ADDRESS
      else if k = 0 then CIR_RESPONSE
      else if k = 1 then CIR_CONTROL
      else if k = 2 then CIR_SAVE
      else if k = 3 then CIR_RESTORE
      else if k = 4 then CIR_OPERATION_WORD
      else if k = 5 then CIR_COMMAND
      else if k = 6 then CIR_RESERVED
      else if k = 7 then CIR_CONDITION
      else if k = 0xA then CIR_REGISTER_SELECT
      else if k = 0xB then CIR_RESERVED
      else CIR_NONE)"

definition cir_selected :: "u8 \<Rightarrow> u32 \<Rightarrow> u32 \<Rightarrow> bool" where
  "cir_selected function_code address cpid =
     (if function_code \<noteq> 7 then False
      else if drop_bit 16 address AND 0xF \<noteq> CPU_SPACE_TYPE then False
      else drop_bit 13 address AND 7 = cpid)"

definition cir_width :: "cir \<Rightarrow> nat" where
  "cir_width c =
     (case c of CIR_OPERAND \<Rightarrow> 32 | CIR_INSTRUCTION_ADDRESS \<Rightarrow> 32 | CIR_OPERAND_ADDRESS \<Rightarrow> 32
      | CIR_NONE \<Rightarrow> 0 | _ \<Rightarrow> 16)"

definition cir_readable :: "cir \<Rightarrow> bool" where
  "cir_readable c \<longleftrightarrow> c \<in> {CIR_RESPONSE, CIR_SAVE, CIR_RESTORE, CIR_OPERAND, CIR_REGISTER_SELECT}"

definition cir_writable :: "cir \<Rightarrow> bool" where
  "cir_writable c \<longleftrightarrow> c \<in> {CIR_CONTROL, CIR_RESTORE, CIR_COMMAND, CIR_CONDITION, CIR_OPERAND, CIR_INSTRUCTION_ADDRESS}"

definition cir_implemented :: "cir \<Rightarrow> bool" where
  "cir_implemented c \<longleftrightarrow> c \<noteq> CIR_OPERATION_WORD \<and> c \<noteq> CIR_OPERAND_ADDRESS \<and> c \<noteq> CIR_RESERVED \<and> c \<noteq> CIR_NONE"

definition cir_unreadable_value :: "cir \<Rightarrow> u32" where
  "cir_unreadable_value c = (if cir_width c = 32 then 0xFFFFFFFF else 0x0000FFFF)"

text \<open>Every address selects a register, the low bit of a sixteen-bit one aside, and a register that can be
  read or written is one the part has.\<close>

lemma cir_selects: "cir_select a \<noteq> CIR_NONE"
proof -
  have "list_all (\<lambda>n. cir_select (of_nat n) \<noteq> CIR_NONE) [0..<32]" by code_simp
  moreover have "unat (a AND 0x1F) < 32"
    using word_le_nat_alt [THEN iffD1, OF word_and_le1, of a "0x1F"] by simp
  moreover have "cir_select a = cir_select (of_nat (unat (a AND 0x1F)))"
    by (simp add: cir_select_def Let_def and.assoc of_nat_unat ucast_id)
  ultimately show ?thesis unfolding list_all_iff set_upt by (metis atLeastLessThan_iff le0)
qed

lemma cir_used_implemented: "cir_readable c \<or> cir_writable c \<Longrightarrow> cir_implemented c"
  by (cases c) (simp_all add: cir_readable_def cir_writable_def cir_implemented_def)

end
