(* ===== verification/Machine_Memory.thy ===== *)
theory Machine_Memory
  imports M68030_Operand M68882_Cir Time_Base
begin

unbundle bit_operations_syntax

text \<open>
  The machine as the processor's access path sees it, \<^verbatim>\<open>src/core/machine/ap_machine.c\<close>: the callbacks
  that answer fills, stores, descriptor fetches and wait states, the bus callbacks that let the rest of
  the machine run inside a cycle, and the records they keep of faults and watched addresses.

  With a board the callbacks go to it. Its entry points (\<^verbatim>\<open>ap_board_read_access\<close> and the others) are the
  argument \<open>board_ops\<close> of the definitions, on a board state of any type. Without one the machine is flat
  memory; the interface \<open>backing_memory\<close> is interpreted on that machine, whatever the control register,
  the registers of transparent translation and the function code.
\<close>

section \<open>The machine\<close>

record 'b board_ops =
  bo_read_access :: "u64 \<Rightarrow> u32 \<Rightarrow> nat \<Rightarrow> 'b \<Rightarrow> bool \<times> u32 \<times> 'b"
  bo_write_access :: "u64 \<Rightarrow> u32 \<Rightarrow> nat \<Rightarrow> u32 \<Rightarrow> 'b \<Rightarrow> bool \<times> 'b"
  bo_access_time :: "u32 \<Rightarrow> bool \<Rightarrow> 'b \<Rightarrow> u64"
  bo_cache_inhibited :: "u32 \<Rightarrow> 'b \<Rightarrow> bool"
  bo_set_processor_rmc_state :: "rmc \<Rightarrow> 'b \<Rightarrow> 'b"
  bo_bus_tick :: "'b \<Rightarrow> 'b"
  bo_bus_ticks :: "u64 \<Rightarrow> 'b \<Rightarrow> 'b"
  bo_advance :: "u64 \<Rightarrow> 'b \<Rightarrow> 'b"
  bo_processor_may_run :: "'b \<Rightarrow> bool"

record fault_site =
  fs_pc :: u32
  fs_first_address :: u32
  fs_last_address :: u32
  fs_count :: u32

record mmu_fault_site = fault_site +
  fs_reason :: mmu_fault
  fs_write :: bool

record 'b machine =
  mc_ram :: "u8 list"
  mc_ram_bytes :: u32
  mc_board :: "'b option"
  mc_now :: u64
  mc_cpu_clock :: ap_clock
  mc_cpu_clocks :: u64
  mc_pc :: u32
  mc_cycle_clocks_accounted :: u64
  mc_cycle_rmc_asserted :: rmc
  mc_executing_address :: u32
  mc_watch_write_address :: u32
  mc_watch_writes :: u32
  mc_watch_write_pc :: u32
  mc_watch_write_value :: u32
  mc_watch_write_size :: nat
  mc_watch_read_address :: u32
  mc_watch_reads :: u32
  mc_watch_read_pc :: u32
  mc_watch_read_value :: u32
  mc_watch_read_size :: nat
  mc_bus_errors :: u32
  mc_first_bus_error :: u32
  mc_last_bus_error :: u32
  mc_last_bus_error_pc :: u32
  mc_fault_sites :: "fault_site list"
  mc_fault_sites_dropped :: u32
  mc_mmu_faults :: u32
  mc_mmu_fault_sites :: "mmu_fault_site list"
  mc_mmu_fault_sites_dropped :: u32
  mc_mmu_fault_stop_address :: u32
  mc_mmu_fault_stopped :: bool
  mc_coprocessor_cir_reads :: u32
  mc_table_fetches :: u32
  mc_table_updates :: u32
  mc_probe_fetches :: u32
  mc_probing :: bool

definition FAULT_SITES :: nat where "FAULT_SITES = 64"
definition MMU_FAULT_SITES :: nat where "MMU_FAULT_SITES = 1024"
definition STALL_LIMIT :: nat where "STALL_LIMIT = 4096"

section \<open>Memory and the records kept of it\<close>

definition read_bytes :: "'b machine \<Rightarrow> u32 \<Rightarrow> nat \<Rightarrow> u32" where
  "read_bytes m address count =
     fold (\<lambda>i value. push_bit 8 value OR ucast (mc_ram m ! unat (address + of_nat i))) [0..<count] 0"

definition write_bytes :: "u32 \<Rightarrow> nat \<Rightarrow> u32 \<Rightarrow> 'b machine \<Rightarrow> 'b machine" where
  "write_bytes address count value m =
     m\<lparr>mc_ram := fold (\<lambda>i ram. ram[unat (address + of_nat i) := ucast (drop_bit ((count - 1 - i) * 8) value)])
        [0..<count] (mc_ram m)\<rparr>"

definition in_range :: "'b machine \<Rightarrow> u32 \<Rightarrow> u32 \<Rightarrow> bool" where
  "in_range m address count \<longleftrightarrow> address \<le> mc_ram_bytes m \<and> count \<le> mc_ram_bytes m - address"

definition instruction_pc :: "'b machine \<Rightarrow> u32" where
  "instruction_pc m = (if mc_executing_address m \<noteq> 0 then mc_executing_address m else mc_pc m)"

definition note_read :: "u32 \<Rightarrow> nat \<Rightarrow> u32 \<Rightarrow> 'b machine \<Rightarrow> 'b machine" where
  "note_read physical sz value m =
     (if mc_watch_read_address m = 0 \<or> physical > mc_watch_read_address m \<or>
         mc_watch_read_address m \<ge> physical + of_nat sz
      then m
      else m\<lparr>mc_watch_reads := mc_watch_reads m + 1, mc_watch_read_pc := instruction_pc m,
             mc_watch_read_value := value, mc_watch_read_size := sz\<rparr>)"

text \<open>A site counted again, or a new one while there is room.\<close>

fun bump_site :: "u32 \<Rightarrow> u32 \<Rightarrow> 's fault_site_scheme list \<Rightarrow> 's fault_site_scheme list option" where
  "bump_site pc address [] = None"
| "bump_site pc address (s # ss) =
     (if fs_pc s = pc
      then Some (s\<lparr>fs_count := fs_count s + 1, fs_last_address := address\<rparr> # ss)
      else map_option ((#) s) (bump_site pc address ss))"

definition fault :: "u32 \<Rightarrow> 'b machine \<Rightarrow> 'b machine" where
  "fault address m =
     (let m = (if mc_bus_errors m = 0 then m\<lparr>mc_first_bus_error := address\<rparr> else m);
          m = m\<lparr>mc_last_bus_error := address, mc_last_bus_error_pc := mc_pc m,
                mc_bus_errors := mc_bus_errors m + 1\<rparr>
      in case bump_site (mc_pc m) address (mc_fault_sites m) of
           Some sites \<Rightarrow> m\<lparr>mc_fault_sites := sites\<rparr>
         | None \<Rightarrow>
             if length (mc_fault_sites m) < FAULT_SITES
             then m\<lparr>mc_fault_sites := mc_fault_sites m @
                    [\<lparr>fs_pc = mc_pc m, fs_first_address = address, fs_last_address = address, fs_count = 1\<rparr>]\<rparr>
             else m\<lparr>mc_fault_sites_dropped := mc_fault_sites_dropped m + 1\<rparr>)"

definition machine_mmu_faulted :: "u32 \<Rightarrow> u8 \<Rightarrow> bool \<Rightarrow> mmu_fault \<Rightarrow> 'b machine \<Rightarrow> 'b machine" where
  "machine_mmu_faulted logical function_code write reason m =
     (let m = m\<lparr>mc_mmu_faults := mc_mmu_faults m + 1\<rparr>;
          m = (if mc_mmu_fault_stop_address m \<noteq> 0 \<and> logical = mc_mmu_fault_stop_address m
               then m\<lparr>mc_mmu_fault_stopped := True\<rparr> else m)
      in case bump_site (mc_pc m) logical (mc_mmu_fault_sites m) of
           Some sites \<Rightarrow> m\<lparr>mc_mmu_fault_sites := sites\<rparr>
         | None \<Rightarrow>
             if length (mc_mmu_fault_sites m) < MMU_FAULT_SITES
             then m\<lparr>mc_mmu_fault_sites := mc_mmu_fault_sites m @
                    [\<lparr>fs_pc = mc_pc m, fs_first_address = logical, fs_last_address = logical, fs_count = 1,
                      fs_reason = reason, fs_write = write\<rparr>]\<rparr>
             else m\<lparr>mc_mmu_fault_sites_dropped := mc_mmu_fault_sites_dropped m + 1\<rparr>)"

section \<open>The board's side of an access\<close>

definition board_read :: "'b board_ops \<Rightarrow> 'b \<Rightarrow> u32 \<Rightarrow> nat \<Rightarrow> 'b machine \<Rightarrow> (bool \<times> u32) \<times> 'b machine" where
  "board_read ops b address count m =
     (let (ok, value, b) = bo_read_access ops (mc_now m) address count b
      in ((ok, value), m\<lparr>mc_board := Some b\<rparr>))"

definition board_write :: "'b board_ops \<Rightarrow> 'b \<Rightarrow> u32 \<Rightarrow> nat \<Rightarrow> u32 \<Rightarrow> 'b machine \<Rightarrow> bool \<times> 'b machine" where
  "board_write ops b address count value m =
     (let (ok, b) = bo_write_access ops (mc_now m) address count value b
      in (ok, m\<lparr>mc_board := Some b\<rparr>))"

section \<open>The callbacks of an access\<close>

definition berr_answer :: fill_answer where
  "berr_answer = \<lparr>fa_termination = TERM_BERR, fa_burst_acknowledge = False, fa_data = [0, 0, 0, 0]\<rparr>"

definition single_answer :: "u32 \<Rightarrow> fill_answer" where
  "single_answer v = \<lparr>fa_termination = TERM_STERM, fa_burst_acknowledge = False, fa_data = [v, 0, 0, 0]\<rparr>"

definition machine_fill :: "'b board_ops \<Rightarrow> u32 \<Rightarrow> u8 \<Rightarrow> 'b machine \<Rightarrow> fill_answer \<times> 'b machine" where
  "machine_fill ops line_address function_code m =
     (case mc_board m of
        Some b \<Rightarrow>
          let ((ok, value), m) = board_read ops b line_address 4 m
          in if \<not> ok then (berr_answer, fault line_address m)
             else (single_answer value, note_read line_address 4 value m)
      | None \<Rightarrow>
          if \<not> in_range m line_address 4 then (berr_answer, fault line_address m)
          else let value = read_bytes m line_address 4
               in (single_answer value, note_read line_address 4 value m))"

definition machine_wait_states :: "'b board_ops \<Rightarrow> u32 \<Rightarrow> bool \<Rightarrow> 'b machine \<Rightarrow> nat \<times> 'b machine" where
  "machine_wait_states ops physical read m =
     (case mc_board m of
        None \<Rightarrow> (0, m)
      | Some b \<Rightarrow>
          if ck_period (mc_cpu_clock m) = 0 then (0, m)
          else
            let needed = bo_access_time ops physical read b;
                clocks = (needed + ck_period (mc_cpu_clock m) - 1) div ck_period (mc_cpu_clock m)
            in if needed = 0 then (0, m)
               else (if clocks > of_nat MIN_BUS_CLOCKS
                     then unat (ucast (clocks - of_nat MIN_BUS_CLOCKS) :: u32) else 0, m))"

definition machine_cache_inhibited :: "'b board_ops \<Rightarrow> u32 \<Rightarrow> 'b machine \<Rightarrow> bool" where
  "machine_cache_inhibited ops address m =
     (case mc_board m of None \<Rightarrow> False | Some b \<Rightarrow> bo_cache_inhibited ops address b)"

definition machine_read_coprocessor_cir :: "u32 \<Rightarrow> 'b machine \<Rightarrow> u32 \<times> 'b machine" where
  "machine_read_coprocessor_cir address m =
     (cir_unreadable_value (cir_select address),
      m\<lparr>mc_coprocessor_cir_reads := mc_coprocessor_cir_reads m + 1\<rparr>)"

definition machine_read_sized :: "'b board_ops \<Rightarrow> u32 \<Rightarrow> u8 \<Rightarrow> nat \<Rightarrow> 'b machine \<Rightarrow> u32 option \<times> 'b machine" where
  "machine_read_sized ops address function_code sz m =
     (if cir_selected function_code address DEFAULT_CPID
      then apfst Some (machine_read_coprocessor_cir address m)
      else case mc_board m of
             None \<Rightarrow> (None, m)
           | Some b \<Rightarrow>
               let ((ok, value), m) = board_read ops b address sz m
               in if \<not> ok then (None, fault address m) else (Some value, note_read address sz value m))"

definition machine_store :: "'b board_ops \<Rightarrow> u32 \<Rightarrow> u32 \<Rightarrow> nat \<Rightarrow> 'b machine \<Rightarrow> bool \<times> 'b machine" where
  "machine_store ops physical value sz m =
     (let m = (if mc_watch_write_address m \<noteq> 0 \<and> physical \<le> mc_watch_write_address m \<and>
                  mc_watch_write_address m < physical + of_nat sz
               then m\<lparr>mc_watch_writes := mc_watch_writes m + 1, mc_watch_write_pc := instruction_pc m,
                      mc_watch_write_value := value, mc_watch_write_size := sz\<rparr>
               else m)
      in case mc_board m of
           Some b \<Rightarrow>
             let (ok, m) = board_write ops b physical sz value m
             in if \<not> ok then (False, fault physical m) else (True, m)
         | None \<Rightarrow>
             if \<not> in_range m physical (of_nat sz) then (False, fault physical m)
             else (True, write_bytes physical sz value m))"

section \<open>The bus callbacks\<close>

definition machine_drive_rmc :: "'b board_ops \<Rightarrow> 'b \<Rightarrow> rmc \<Rightarrow> 'b machine \<Rightarrow> 'b machine" where
  "machine_drive_rmc ops b rmc m =
     (if rmc \<noteq> mc_cycle_rmc_asserted m
      then m\<lparr>mc_board := Some (bo_set_processor_rmc_state ops rmc b), mc_cycle_rmc_asserted := rmc\<rparr>
      else m)"

definition machine_cycle_clock :: "'b board_ops \<Rightarrow> 'b machine \<Rightarrow> 'b machine" where
  "machine_cycle_clock ops m =
     (case mc_board m of
        None \<Rightarrow> m
      | Some b \<Rightarrow>
          let now = mc_now m + clock_duration (mc_cpu_clock m) 1
          in m\<lparr>mc_board := Some (bo_advance ops now (bo_bus_tick ops b)),
               mc_cycle_clocks_accounted := mc_cycle_clocks_accounted m + 1, mc_now := now\<rparr>)"

definition machine_cycle_catch_up :: "'b board_ops \<Rightarrow> 'b machine \<Rightarrow> 'b machine" where
  "machine_cycle_catch_up ops m =
     (if mc_cpu_clocks m \<le> mc_cycle_clocks_accounted m then m
      else
        let owed = mc_cpu_clocks m - mc_cycle_clocks_accounted m
        in m\<lparr>mc_board := map_option (bo_bus_ticks ops owed) (mc_board m),
             mc_now := mc_now m + clock_duration (mc_cpu_clock m) owed,
             mc_cycle_clocks_accounted := mc_cpu_clocks m\<rparr>)"

text \<open>The wait for the bus, with what is left of the limit.\<close>

fun acquire_loop :: "'b board_ops \<Rightarrow> nat \<Rightarrow> 'b machine \<Rightarrow> nat \<times> 'b machine" where
  "acquire_loop ops 0 m = (0, m)"
| "acquire_loop ops (Suc left) m =
     (case mc_board m of
        None \<Rightarrow> (0, m)
      | Some b \<Rightarrow>
          if bo_processor_may_run ops b then (0, m)
          else apfst Suc (acquire_loop ops left (machine_cycle_clock ops m)))"

definition machine_acquire :: "'b board_ops \<Rightarrow> rmc \<Rightarrow> 'b machine \<Rightarrow> nat \<times> 'b machine" where
  "machine_acquire ops rmc m =
     (case mc_board m of
        None \<Rightarrow> (0, m)
      | Some b \<Rightarrow> acquire_loop ops STALL_LIMIT (machine_drive_rmc ops b rmc m))"

definition machine_clock :: "'b board_ops \<Rightarrow> rmc \<Rightarrow> 'b machine \<Rightarrow> 'b machine" where
  "machine_clock ops rmc m =
     (case mc_board m of None \<Rightarrow> m | Some b \<Rightarrow> machine_cycle_clock ops (machine_drive_rmc ops b rmc m))"

section \<open>Descriptors\<close>

definition table_read :: "'b board_ops \<Rightarrow> u32 \<Rightarrow> 'b machine \<Rightarrow> u32 option \<times> 'b machine" where
  "table_read ops physical m =
     (case mc_board m of
        Some b \<Rightarrow>
          let ((ok, value), m) = board_read ops b physical 4 m
          in if \<not> ok then (None, fault physical m) else (Some value, m)
      | None \<Rightarrow>
          if \<not> in_range m physical 4 then (None, fault physical m)
          else (Some (read_bytes m physical 4), m))"

definition table_write :: "'b board_ops \<Rightarrow> u32 \<Rightarrow> u32 \<Rightarrow> 'b machine \<Rightarrow> bool \<times> 'b machine" where
  "table_write ops physical value m =
     (case mc_board m of
        Some b \<Rightarrow>
          let (ok, m) = board_write ops b physical 4 value m
          in if \<not> ok then (False, fault physical m) else (True, m)
      | None \<Rightarrow>
          if \<not> in_range m physical 4 then (False, fault physical m)
          else (True, write_bytes physical 4 value m))"

definition machine_table_fetch :: "'b board_ops \<Rightarrow> u32 \<Rightarrow> bool \<Rightarrow> 'b machine \<Rightarrow>
    m68030_descriptor option \<times> 'b machine" where
  "machine_table_fetch ops physical long_format m =
     (let m = (if mc_probing m then m\<lparr>mc_probe_fetches := mc_probe_fetches m + 1\<rparr>
               else m\<lparr>mc_table_fetches := mc_table_fetches m + 1\<rparr>);
          (upper, m) = table_read ops physical m
      in case upper of
           None \<Rightarrow> (None, m)
         | Some upper \<Rightarrow>
             if \<not> long_format then (Some (descriptor_unpack_short upper False), m)
             else let (lower, m) = table_read ops (physical + 4) m
                  in (map_option (\<lambda>lower. descriptor_unpack_long upper lower False) lower, m))"

definition machine_table_update :: "'b board_ops \<Rightarrow> u32 \<Rightarrow> bool \<Rightarrow> bool \<Rightarrow> 'b machine \<Rightarrow> bool \<times> 'b machine" where
  "machine_table_update ops physical set_used set_modified m =
     (let m = m\<lparr>mc_table_updates := mc_table_updates m + 1\<rparr>;
          (descriptor, m) = table_read ops physical m
      in case descriptor of
           None \<Rightarrow> (False, m)
         | Some d \<Rightarrow>
             let d = (if set_used then d OR push_bit 3 1 else d);
                 d = (if set_modified then d OR push_bit 4 1 else d)
             in table_write ops physical d m)"

text \<open>The data access of a 68030 machine as \<open>ap_machine_init\<close> and \<open>ap_m68030_cacr_publish\<close> set it up.\<close>

definition data_access :: "'b board_ops \<Rightarrow> m68030_tt option \<Rightarrow> m68030_tt option \<Rightarrow> m68030_tc \<Rightarrow> m68030_root \<Rightarrow>
    cacr \<Rightarrow> bool \<Rightarrow> 'b machine access_ctx" where
  "data_access ops tt0 tt1 tc root c rmc =
     \<lparr>ax_tt0 = tt0, ax_tt1 = tt1, ax_tc = Some tc, ax_root = root,
      ax_cache_enabled = cacr_enable_data c, ax_cache_frozen = cacr_freeze_data c,
      ax_burst_enabled = cacr_data_burst_enable c, ax_write_allocate = cacr_write_allocate c,
      ax_cache_disable = False, ax_rmc = rmc,
      ax_table_fetch = machine_table_fetch ops, ax_table_update = machine_table_update ops,
      ax_mmu_faulted = Some machine_mmu_faulted, ax_fill = machine_fill ops, ax_store = Some (machine_store ops),
      ax_wait_states = Some (machine_wait_states ops), ax_inhibits_cache = Some (machine_cache_inhibited ops),
      ax_read_sized = Some (machine_read_sized ops), ax_bus_acquire = Some (machine_acquire ops),
      ax_bus_clock = Some (machine_clock ops)\<rparr>"

section \<open>A machine without a board is memory\<close>

definition ram_byte :: "'b machine \<Rightarrow> u32 \<Rightarrow> u8" where
  "ram_byte m p = (if unat p < length (mc_ram m) then mc_ram m ! unat p else 0)"

definition flat :: "u32 \<Rightarrow> 'b machine \<Rightarrow> bool" where
  "flat n m \<longleftrightarrow> mc_board m = None \<and> mc_ram_bytes m = n \<and> length (mc_ram m) = unat n"

definition fitted_long :: "u32 \<Rightarrow> u32 \<Rightarrow> bool" where
  "fitted_long n p \<longleftrightarrow> p \<le> n \<and> 4 \<le> n - p"

lemma in_range_unat: "address \<le> n \<Longrightarrow> count \<le> n - address \<Longrightarrow> unat address + unat count \<le> unat n" for n :: u32
  by (simp add: word_le_nat_alt unat_sub)

lemma range_place:
  fixes p n :: u32
  assumes "unat p + i < unat n"
  shows "unat (p + of_nat i) = unat p + i"
proof -
  have "unat n < 2 ^ LENGTH(32)" by (rule unsigned_less)
  then show ?thesis using assms by (simp add: unat_word_ariths unat_of_nat)
qed

lemma read_bytes_value:
  assumes "flat n m" "unat p + k \<le> unat n"
  shows "read_bytes m p k = be_bytes (ram_byte m) p k"
  using assms(2)
proof (induction k)
  case (Suc k)
  have "unat (p + of_nat k) = unat p + k" using Suc.prems by (intro range_place [of _ _ n]) simp
  moreover have "length (mc_ram m) = unat n" using assms(1) by (simp add: flat_def)
  ultimately have "mc_ram m ! unat (p + of_nat k) = ram_byte m (p + of_nat k)"
    using Suc.prems by (simp add: ram_byte_def)
  then show ?case using Suc by (simp add: read_bytes_def)
qed (simp add: read_bytes_def)

lemma be_bytes_long: "be_bytes f p 4 = be_long f p"
  by (simp add: be_long_def eval_nat_numeral push_bit_or push_bit_push_bit add.assoc or.assoc)

lemma write_loop_value:
  fixes p q n :: u32
  assumes "length ram = unat n" "unat p + k \<le> unat n" "unat q < unat n"
  shows "fold (\<lambda>i ram. ram[unat (p + of_nat i) := g i]) [0..<k] ram ! unat q =
      (if unat (q - p) < k then g (unat (q - p)) else ram ! unat q)"
  using assms(2)
proof (induction k)
  case (Suc k)
  have place: "unat (p + of_nat k) = unat p + k" using Suc.prems by (intro range_place [of _ _ n]) simp
  have limit: "unat n < 2 ^ LENGTH(32)" by (rule unsigned_less)
  have "unat (q - p) = k \<longleftrightarrow> unat q = unat p + k"
  proof
    assume "unat (q - p) = k"
    then have "q = p + of_nat k" by (metis add.commute diff_add_cancel of_nat_unat ucast_id)
    then show "unat q = unat p + k" using place by simp
  next
    assume "unat q = unat p + k"
    then have "q = p + of_nat k" using place by (metis unsigned_word_eqI)
    then show "unat (q - p) = k"
      using place Suc.prems limit by (simp add: unat_of_nat take_bit_nat_eq_self)
  qed
  moreover have "length (fold (\<lambda>i ram. ram[unat (p + of_nat i) := g i]) is ram) = length ram" for "is"
    by (induction "is" rule: rev_induct) simp_all
  ultimately show ?case using Suc place assms(1,3) by (auto simp: nth_list_update less_Suc_eq)
qed simp

lemma length_write_bytes: "length (mc_ram (write_bytes p k v m)) = length (mc_ram m)"
proof -
  have "length (fold (\<lambda>i ram. ram[h i := g i]) is ram) = length ram" for h g "is" and ram :: "u8 list"
    by (induction "is" arbitrary: ram) simp_all
  then show ?thesis by (simp add: write_bytes_def)
qed

lemma write_bytes_value:
  assumes "flat n m" "unat p + k \<le> unat n" "k \<le> 4"
  shows "ram_byte (write_bytes p k v m) = store_bytes p k v (ram_byte m)" "flat n (write_bytes p k v m)"
proof -
  have len: "length (mc_ram m) = unat n" using assms(1) by (simp add: flat_def)
  have "ram_byte (write_bytes p k v m) q = store_bytes p k v (ram_byte m) q" for q
  proof (cases "unat q < unat n")
    case True
    then show ?thesis
      using write_loop_value [OF len assms(2) True, of "\<lambda>i. ucast (drop_bit ((k - 1 - i) * 8) v)"] len
        length_write_bytes [of p k v m]
      by (simp add: ram_byte_def write_bytes_def store_bytes_def stored_byte_def mult.commute)
  next
    case False
    have "\<not> unat (q - p) < k"
    proof
      assume d: "unat (q - p) < k"
      have "q = p + of_nat (unat (q - p))" by (metis add.commute diff_add_cancel of_nat_unat ucast_id)
      moreover have "unat (p + of_nat (unat (q - p))) = unat p + unat (q - p)"
        using d assms(2) by (intro range_place [of _ _ n]) simp
      ultimately show False using False d assms(2) by simp
    qed
    then show ?thesis using False len by (simp add: ram_byte_def store_bytes_def length_write_bytes)
  qed
  then show "ram_byte (write_bytes p k v m) = store_bytes p k v (ram_byte m)" by blast
  show "flat n (write_bytes p k v m)"
    using assms(1) length_write_bytes [of p k v m] by (simp add: flat_def) (simp add: write_bytes_def)
qed

text \<open>The records kept of an access are beside the memory.\<close>

lemma note_read_memory [simp]:
  "ram_byte (note_read p k v m) = ram_byte m" "flat n (note_read p k v m) = flat n m"
  by (simp_all add: note_read_def ram_byte_def flat_def fun_eq_iff)

lemma fault_memory [simp]:
  "ram_byte (fault p m) = ram_byte m" "flat n (fault p m) = flat n m"
  by (simp_all add: fault_def ram_byte_def flat_def fun_eq_iff Let_def split: option.split)

lemma mmu_faulted_memory [simp]:
  "ram_byte (machine_mmu_faulted a fc w r m) = ram_byte m" "flat n (machine_mmu_faulted a fc w r m) = flat n m"
  by (simp_all add: machine_mmu_faulted_def ram_byte_def flat_def fun_eq_iff Let_def split: option.split)

lemma in_range_fitted: "flat n m \<Longrightarrow> in_range m p 4 = fitted_long n p"
  by (simp add: in_range_def fitted_long_def flat_def)

lemma machine_fill_flat:
  assumes "flat n m" "machine_fill ops p fc m = (answer, m')"
  shows "flat n m'" "ram_byte m' = ram_byte m"
    "fa_termination answer = (if fitted_long n p then TERM_STERM else TERM_BERR)"
    "fitted_long n p \<Longrightarrow> fa_data answer ! 0 = be_long (ram_byte m) p"
proof -
  have read: "read_bytes m p 4 = be_long (ram_byte m) p" if "fitted_long n p"
    using read_bytes_value [OF assms(1), of p 4] in_range_unat [of p n 4] that
    by (simp add: fitted_long_def be_bytes_long)
  have board: "mc_board m = None" using assms(1) by (simp add: flat_def)
  show "flat n m'" "ram_byte m' = ram_byte m"
    "fa_termination answer = (if fitted_long n p then TERM_STERM else TERM_BERR)"
    "fitted_long n p \<Longrightarrow> fa_data answer ! 0 = be_long (ram_byte m) p"
    using assms(2) in_range_fitted [OF assms(1), of p] assms(1) read
    board by (auto simp: machine_fill_def Let_def berr_answer_def single_answer_def split: if_splits)
qed

lemma machine_store_flat:
  assumes "flat n m" "0 < sz" "unat (p AND 3) + sz \<le> 4" "machine_store ops p v sz m = (ok, m')"
  shows "flat n m'" "ram_byte m' = (if ok then store_bytes p sz v (ram_byte m) else ram_byte m)"
    "fitted_long n (p AND NOT 3) \<Longrightarrow> ok"
proof -
  let ?m = "if mc_watch_write_address m \<noteq> 0 \<and> p \<le> mc_watch_write_address m \<and>
      mc_watch_write_address m < p + of_nat sz
    then m\<lparr>mc_watch_writes := mc_watch_writes m + 1, mc_watch_write_pc := instruction_pc m,
           mc_watch_write_value := v, mc_watch_write_size := sz\<rparr> else m"
  have m: "flat n ?m" "ram_byte ?m = ram_byte m" "mc_board ?m = None" "mc_ram_bytes ?m = n"
    using assms(1) by (simp_all add: flat_def ram_byte_def fun_eq_iff)
  have sz: "sz \<le> 4" "unat (of_nat sz :: u32) = sz"
    using assms(3) by (simp_all add: unat_of_nat take_bit_nat_eq_self)
  have out: "(ok, m') = (if \<not> in_range ?m p (of_nat sz) then (False, fault p ?m) else (True, write_bytes p sz v ?m))"
    using assms(4) m(3) unfolding machine_store_def Let_def by simp
  have room: "unat p + sz \<le> unat n" if "in_range ?m p (of_nat sz)"
    using that in_range_unat [of p n "of_nat sz"] sz(2) m(4) by (simp add: in_range_def)
  show "flat n m'" "ram_byte m' = (if ok then store_bytes p sz v (ram_byte m) else ram_byte m)"
    using out m(1,2) write_bytes_value [OF m(1) room sz(1), of v] by (auto split: if_splits)
  show ok if fit: "fitted_long n (p AND NOT 3)"
  proof -
    have "unat (p AND NOT 3) + 4 \<le> unat n"
      using fit in_range_unat [of "p AND NOT 3" n 4] by (simp add: fitted_long_def)
    moreover have "unat p = unat (p AND NOT 3) + unat (p AND 3)"
      using range_place [of "p AND NOT 3" "unat (p AND 3)" n] align_split [of p] calculation by simp
    ultimately have "unat p + sz \<le> unat n" using assms(3) by linarith
    then have "in_range ?m p (of_nat sz)"
      using sz m(4) by (simp add: in_range_def word_le_nat_alt unat_sub)
    then show ?thesis using out by simp
  qed
qed

text \<open>The machine's translation never inhibits the cache when its transparent registers do not.\<close>

abbreviation (input) plain_tt :: "m68030_tt option \<Rightarrow> m68030_tt option" where
  "plain_tt t \<equiv> map_option (\<lambda>t. t\<lparr>tt_cache_inhibit := False\<rparr>) t"

abbreviation (input) flat_access :: "'b board_ops \<Rightarrow> m68030_tt option \<Rightarrow> m68030_tt option \<Rightarrow> m68030_tc \<Rightarrow>
    m68030_root \<Rightarrow> cacr \<Rightarrow> bool \<Rightarrow> 'b machine access_ctx" where
  "flat_access ops t0 t1 tc root c rmc \<equiv>
     data_access ops (plain_tt t0) (plain_tt t1) (tc\<lparr>tc_enable := False\<rparr>) root c rmc"

lemma plain_tt_transparent:
  "ttr_transparent (tt_translate (plain_tt t0) (plain_tt t1) a) \<Longrightarrow>
    ttr_physical (tt_translate (plain_tt t0) (plain_tt t1) a) = ac_address a \<and>
    \<not> ttr_cache_inhibit (tt_translate (plain_tt t0) (plain_tt t1) a)"
proof -
  have none: "\<not> tt_matches None a" by (simp add: tt_matches_def)
  show "ttr_transparent (tt_translate (plain_tt t0) (plain_tt t1) a) \<Longrightarrow> ?thesis"
    by (cases t0; cases t1) (auto simp: tt_translate_def Let_def none split: if_splits)
qed

interpretation machine_bus: memory_bus "data_access ops tt0 tt1 tc root c rmc" ram_byte "flat n" "fitted_long n"
proof
  fix m m' :: "'a machine" and p v :: u32 and fc :: u8 and sz :: nat and answer stored rd ph w why a
  let ?ax = "data_access ops tt0 tt1 tc root c rmc"
  show "flat n m' \<and> ram_byte m' = ram_byte m \<and>
      (fa_termination answer = TERM_BERR \<or> fa_data answer ! 0 = be_long (ram_byte m) p)"
    if "flat n m" "p AND 3 = 0" "ax_fill ?ax p fc m = (answer, m')"
    using machine_fill_flat [OF that(1), of ops p fc answer m'] that(3) by (auto simp: data_access_def)
  show "flat n m' \<and> ram_byte m' = (if stored then store_bytes p sz v (ram_byte m) else ram_byte m)"
    if "flat n m" "0 < sz" "unat (p AND 3) + sz \<le> 4" "store_out ?ax p v sz m = (stored, m')"
    using machine_store_flat [OF that(1-3), of ops v stored m'] that(4) by (simp add: store_out_def data_access_def)
  show "fa_termination (fst (ax_fill ?ax p fc m)) \<noteq> TERM_BERR" if "flat n m" "p AND 3 = 0" "fitted_long n p"
    using machine_fill_flat(3) [OF that(1) surjective_pairing, of ops p fc] that(3) by (simp add: data_access_def)
  show "fitted_long n p" if "flat n m" "p AND 3 = 0" "fa_termination (fst (ax_fill ?ax p fc m)) \<noteq> TERM_BERR"
    using machine_fill_flat(3) [OF that(1) surjective_pairing, of ops p fc] that(3)
    by (simp add: data_access_def split: if_splits)
  show "fst (store_out ?ax p v sz m)"
    if "flat n m" "0 < sz" "unat (p AND 3) + sz \<le> 4" "fitted_long n (p AND NOT 3)"
    using machine_store_flat(3) [OF that(1-3) surjective_pairing, of ops v] that(4)
    by (simp add: store_out_def data_access_def)
  show "flat n (snd (waits ?ax p rd m)) \<and> ram_byte (snd (waits ?ax p rd m)) = ram_byte m" if "flat n m"
    using that by (simp add: waits_def data_access_def machine_wait_states_def flat_def)
  show "flat n (snd (acquire ?ax ph m)) \<and> ram_byte (snd (acquire ?ax ph m)) = ram_byte m" if "flat n m"
    using that by (simp add: acquire_def data_access_def machine_acquire_def flat_def)
  show "flat n (bus_clock ?ax ph m) \<and> ram_byte (bus_clock ?ax ph m) = ram_byte m" if "flat n m"
    using that by (simp add: bus_clock_def data_access_def machine_clock_def flat_def)
  show "flat n (report_mmu_fault ?ax a fc w why m) \<and> ram_byte (report_mmu_fault ?ax a fc w why m) = ram_byte m"
    if "flat n m"
    using that by (simp add: report_mmu_fault_def data_access_def)
  show "\<not> inhibits ?ax p m" if "flat n m"
    using that by (simp add: inhibits_def data_access_def machine_cache_inhibited_def flat_def)
qed

interpretation machine_memory: backing_memory "flat_access ops t0 t1 tc root c rmc" ram_byte "flat n" "fitted_long n"
proof
  fix access
  let ?ax = "flat_access ops t0 t1 tc root c rmc"
  show "\<not> translating ?ax" by (simp add: translating_def data_access_def)
  show "ttr_physical (tt_translate (ax_tt0 ?ax) (ax_tt1 ?ax) access) = ac_address access \<and>
      \<not> ttr_cache_inhibit (tt_translate (ax_tt0 ?ax) (ax_tt1 ?ax) access)"
    if "ttr_transparent (tt_translate (ax_tt0 ?ax) (ax_tt1 ?ax) access)"
    using that plain_tt_transparent [of t0 t1 access] by (simp add: data_access_def)
qed

end
