(* ===== verification/Machine_Access.thy ===== *)
theory Machine_Access
  imports Machine_Memory
begin

unbundle bit_operations_syntax

text \<open>
  The processor and its memory together: operands written and read through the data cache of a machine
  without a board (\<^verbatim>\<open>ap_m68030_operand.c\<close>, \<^verbatim>\<open>ap_m68030_access.c\<close>, \<^verbatim>\<open>ap_m68030_cache.c\<close>,
  \<^verbatim>\<open>ap_m68030_bus.c\<close> and \<^verbatim>\<open>ap_machine.c\<close>). A run of operand reads and writes through the cache gives what
  the same run gives on plain memory, at any alignment and in any function code, as long as the control
  register keeps the two together; with bursts enabled it does not, because this machine refuses every
  burst and the cache then takes the long word at the base of the line for the one it wanted.
\<close>

section \<open>Operands in a machine's memory\<close>

text \<open>The address of an operand in memory, as the simple addressing modes give it.\<close>

definition memory_operand :: "u32 \<Rightarrow> ea_address" where
  "memory_operand p = valid_address\<lparr>ad_address := p\<rparr>"

definition operand_fits :: "u32 \<Rightarrow> u32 \<Rightarrow> nat \<Rightarrow> bool" where
  "operand_fits n p sz \<longleftrightarrow> sz \<in> {1, 2, 4} \<and> unat p + sz \<le> unat n \<and> n AND 3 = 0"

lemma memory_operand_addressable: "addressable (memory_operand p)" "ad_address (memory_operand p) = p"
  by (simp_all add: memory_operand_def addressable_def valid_address_def)

lemma fits_covered:
  assumes "operand_fits n p sz" "i < sz"
  shows "fitted_long n ((p + of_nat i) AND NOT 3)"
proof -
  let ?q = "p + of_nat i"
  have q: "unat ?q < unat n"
    using assms range_place [of p i n] by (auto simp: operand_fits_def)
  have "unat n mod 4 = 0" using assms(1) low_two_mod [of n] by (simp add: operand_fits_def)
  then have "4 * (unat ?q div 4) + 4 \<le> unat n" using q by presburger
  then have fit: "unat (?q AND NOT 3) + 4 \<le> unat n" by (simp only: aligned_div)
  then have "?q AND NOT 3 \<le> n" by (simp add: word_le_nat_alt)
  then show ?thesis using fit by (simp add: fitted_long_def word_le_nat_alt unat_sub)
qed

section \<open>Runs of operand accesses\<close>

datatype mem_op = OP_READ u8 u32 nat | OP_WRITE u8 u32 nat u32

fun op_fits :: "u32 \<Rightarrow> mem_op \<Rightarrow> bool" where
  "op_fits n (OP_READ fc p sz) = operand_fits n p sz"
| "op_fits n (OP_WRITE fc p sz v) = operand_fits n p sz"

text \<open>One access through the cache, and what it answers.\<close>

fun op_run :: "'m access_ctx \<Rightarrow> regs \<Rightarrow> mem_op \<Rightarrow> 'm access_state \<Rightarrow> (bool \<times> u32) \<times> 'm access_state" where
  "op_run ax r (OP_READ fc p sz) st =
     (let (out, st) = operand_read r ax (memory_operand p) sz fc st in ((or_ok out, or_value out), st))"
| "op_run ax r (OP_WRITE fc p sz v) st =
     (let (out, r, st) = operand_write ax (memory_operand p) sz v fc r st in ((or_ok out, v), st))"

fun ops_run :: "'m access_ctx \<Rightarrow> regs \<Rightarrow> mem_op list \<Rightarrow> 'm access_state \<Rightarrow> (bool \<times> u32) list \<times> 'm access_state" where
  "ops_run ax r [] st = ([], st)"
| "ops_run ax r (op # ops) st =
     (let (a, st) = op_run ax r op st; (as, st) = ops_run ax r ops st in (a # as, st))"

text \<open>The same accesses on memory alone: a function from addresses to bytes.\<close>

fun op_plain :: "mem_op \<Rightarrow> (u32 \<Rightarrow> u8) \<Rightarrow> (bool \<times> u32) \<times> (u32 \<Rightarrow> u8)" where
  "op_plain (OP_READ fc p sz) f = ((True, be_bytes f p sz), f)"
| "op_plain (OP_WRITE fc p sz v) f = ((True, v), store_bytes p sz v f)"

fun ops_plain :: "mem_op list \<Rightarrow> (u32 \<Rightarrow> u8) \<Rightarrow> (bool \<times> u32) list \<times> (u32 \<Rightarrow> u8)" where
  "ops_plain [] f = ([], f)"
| "ops_plain (op # ops) f = (let (a, f) = op_plain op f; (as, f) = ops_plain ops f in (a # as, f))"

lemma op_run_plain:
  assumes "in_step (flat_access bo t0 t1 tc root c rmc) ram_byte (flat n) st"
    "coherent_policy (flat_access bo t0 t1 tc root c rmc)" "op_fits n op"
    and "op_run (flat_access bo t0 t1 tc root c rmc) r op st = (a, st')"
  shows "in_step (flat_access bo t0 t1 tc root c rmc) ram_byte (flat n) st' \<and>
    op_plain op (ram_byte (as_machine st)) = (a, ram_byte (as_machine st'))"
proof (cases op)
  case (OP_READ fc p sz)
  obtain out st1 where rd: "operand_read r (flat_access bo t0 t1 tc root c rmc) (memory_operand p) sz fc st = (out, st1)"
    by fastforce
  have fits: "operand_fits n p sz" "sz \<in> {1, 2, 4}" using assms(3) OP_READ by (simp_all add: operand_fits_def)
  have "\<not> ad_in_register (memory_operand p)" by (simp add: memory_operand_def valid_address_def)
  note got = machine_memory.operand_read_memory [OF assms(1,2) fits(2) this rd]
  have "or_ok out"
    using got(4) memory_operand_addressable fits_covered [OF fits(1)] by (simp add: machine_memory.covers_def)
  then show ?thesis using got rd assms(4) OP_READ memory_operand_addressable(2) by auto
next
  case (OP_WRITE fc p sz v)
  obtain out r' st1 where wr: "operand_write (flat_access bo t0 t1 tc root c rmc) (memory_operand p) sz v fc r st = (out, r', st1)"
    by (metis prod_cases3)
  have fits: "operand_fits n p sz" "sz \<le> 4" using assms(3) OP_WRITE by (auto simp: operand_fits_def)
  have "\<not> ad_in_register (memory_operand p)" by (simp add: memory_operand_def valid_address_def)
  note put = machine_memory.operand_write_memory [OF assms(1,2) fits(2) this wr]
  have "or_ok out"
    using put(4) memory_operand_addressable fits_covered [OF fits(1)] by (simp add: machine_memory.covers_def)
  then show ?thesis using put wr assms(4) OP_WRITE memory_operand_addressable(2) by auto
qed

lemma ops_run_plain:
  assumes "in_step (flat_access bo t0 t1 tc root c rmc) ram_byte (flat n) st"
    and "coherent_policy (flat_access bo t0 t1 tc root c rmc)"
    and "list_all (op_fits n) ops"
  shows "ops_plain ops (ram_byte (as_machine st)) =
    apsnd (ram_byte \<circ> as_machine) (ops_run (flat_access bo t0 t1 tc root c rmc) r ops st)"
  using assms(1,3)
proof (induction ops arbitrary: st)
  case (Cons op ops)
  obtain a st1 where one: "op_run (flat_access bo t0 t1 tc root c rmc) r op st = (a, st1)" by fastforce
  have "in_step (flat_access bo t0 t1 tc root c rmc) ram_byte (flat n) st1 \<and>
      op_plain op (ram_byte (as_machine st)) = (a, ram_byte (as_machine st1))"
    by (rule op_run_plain [OF Cons.prems(1) assms(2) _ one]) (use Cons.prems(2) in simp)
  then show ?case
    using Cons.IH [of st1] Cons.prems(2) one by (auto simp: Let_def split: prod.splits)
qed simp

text \<open>C2: a run of operand reads and writes through the data cache of a machine without a board gives the
  answers of the same run on plain memory and leaves the same bytes, whatever the alignments, the function
  codes and the contents of the cache, as long as the control register enables no burst and, while the
  cache is on, allocates on writes and does not freeze it.\<close>

theorem cache_is_transparent:
  assumes "in_step (flat_access bo t0 t1 tc root c rmc) ram_byte (flat n) st"
    and "coherent_policy (flat_access bo t0 t1 tc root c rmc)"
    and "list_all (op_fits n) ops"
  shows "apsnd (ram_byte \<circ> as_machine) (ops_run (flat_access bo t0 t1 tc root c rmc) r ops st) =
    ops_plain ops (ram_byte (as_machine st))"
  by (rule ops_run_plain [OF assms, symmetric])

text \<open>C7: an operand written at any alignment, across the boundary of a long word included, and read back in
  any function code is the value written, cut to its size.\<close>

theorem operand_reads_back:
  assumes "in_step (flat_access bo t0 t1 tc root c rmc) ram_byte (flat n) st"
    and "coherent_policy (flat_access bo t0 t1 tc root c rmc)"
    and "operand_fits n p sz"
  shows "fst (ops_run (flat_access bo t0 t1 tc root c rmc) r [OP_WRITE fc p sz v, OP_READ fc' p sz] st) =
    [(True, v), (True, v AND size_mask sz)]"
proof -
  have "sz \<in> {1, 2, 4}" using assms(3) by (simp add: operand_fits_def)
  note again = read_back [OF this, of p v "ram_byte (as_machine st)"]
  have "list_all (op_fits n) [OP_WRITE fc p sz v, OP_READ fc' p sz]" using assms(3) by simp
  from arg_cong [OF ops_run_plain [OF assms(1,2) this, of r], of fst] show ?thesis
    using again by (simp add: apsnd_def)
qed

section \<open>A machine to run them on\<close>

definition no_board :: "unit board_ops" where
  "no_board = \<lparr>bo_read_access = (\<lambda>_ _ _ b. (False, 0, b)), bo_write_access = (\<lambda>_ _ _ _ b. (False, b)),
     bo_access_time = (\<lambda>_ _ _. 0), bo_cache_inhibited = (\<lambda>_ _. False), bo_set_processor_rmc_state = (\<lambda>_ b. b),
     bo_bus_tick = (\<lambda>b. b), bo_bus_ticks = (\<lambda>_ b. b), bo_advance = (\<lambda>_ b. b), bo_processor_may_run = (\<lambda>_. True)\<rparr>"

definition flat_machine :: "u8 list \<Rightarrow> unit machine" where
  "flat_machine ram = \<lparr>mc_ram = ram, mc_ram_bytes = of_nat (length ram), mc_board = None, mc_now = 0,
     mc_cpu_clock = \<lparr>ck_hz = 0, ck_period = 0\<rparr>, mc_cpu_clocks = 0, mc_pc = 0, mc_cycle_clocks_accounted = 0,
     mc_cycle_rmc_asserted = RMC_NONE, mc_executing_address = 0, mc_watch_write_address = 0, mc_watch_writes = 0,
     mc_watch_write_pc = 0, mc_watch_write_value = 0, mc_watch_write_size = 0, mc_watch_read_address = 0,
     mc_watch_reads = 0, mc_watch_read_pc = 0, mc_watch_read_value = 0, mc_watch_read_size = 0, mc_bus_errors = 0,
     mc_first_bus_error = 0, mc_last_bus_error = 0, mc_last_bus_error_pc = 0, mc_fault_sites = [],
     mc_fault_sites_dropped = 0, mc_mmu_faults = 0, mc_mmu_fault_sites = [], mc_mmu_fault_sites_dropped = 0,
     mc_mmu_fault_stop_address = 0, mc_mmu_fault_stopped = False, mc_coprocessor_cir_reads = 0,
     mc_table_fetches = 0, mc_table_updates = 0, mc_probe_fetches = 0, mc_probing = False\<rparr>"

definition blank_cache :: cache where
  "blank_cache = replicate 16 \<lparr>cl_tag = 0, cl_valid = replicate 4 False, cl_entry = replicate 4 0\<rparr>"

definition flat_state :: "u8 list \<Rightarrow> unit machine access_state" where
  "flat_state ram = \<lparr>as_cache = blank_cache, as_atc = replicate ATC_ENTRIES zero_entry, as_bus = idle_bus,
     as_rmc_read_seen = False, as_machine = flat_machine ram\<rparr>"

definition cacr_on :: cacr where
  "cacr_on = \<lparr>cacr_write_allocate = True, cacr_data_burst_enable = False, cacr_freeze_data = False,
     cacr_enable_data = True, cacr_instruction_burst_enable = False, cacr_freeze_instruction = False,
     cacr_enable_instruction = False\<rparr>"

definition null_root :: m68030_root where
  "null_root = \<lparr>rt_table_address = 0, rt_long_format = False, rt_limit = 0, rt_lower_limit = False,
     rt_has_limit = False, rt_page_descriptor = False, rt_dt = DT_INVALID\<rparr>"

abbreviation (input) sample_access :: "cacr \<Rightarrow> unit machine access_ctx" where
  "sample_access c \<equiv> flat_access no_board None None (tc_decode 0) null_root c False"

lemma blank_cache_coherent: "coherent mem blank_cache" "cache_empty blank_cache"
  by (simp_all add: blank_cache_def coherent_def line_wf_def line_coherent_def cache_empty_def list_all_iff)

lemma flat_state_in_step:
  "length ram < 2 ^ 32 \<Longrightarrow> in_step ax ram_byte (flat (of_nat (length ram))) (flat_state ram)"
  using blank_cache_coherent
  by (simp add: in_step_def flat_state_def flat_def flat_machine_def unat_of_nat take_bit_nat_eq_self)

lemma sample_policy: "coherent_policy (sample_access cacr_on)"
  by (simp add: coherent_policy_def data_access_def cacr_on_def)

definition sample_regs :: regs where
  "sample_regs = \<lparr>rg_d = replicate 8 0, rg_a = replicate 7 0, rg_usp = 0, rg_isp = 0, rg_msp = 0, rg_pc = 0,
     rg_sr = 0x2700, rg_vbr = 0, rg_sfc = 0, rg_dfc = 0\<rparr>"

lemma be_bytes_two: "be_bytes f p 2 = push_bit 8 (ucast (f p)) OR ucast (f (p + 1))"
  by (simp add: eval_nat_numeral)

definition sample_ops :: "mem_op list" where
  "sample_ops = [OP_WRITE 5 3 4 0x11223344, OP_READ 1 4 2, OP_WRITE 1 5 1 0x99, OP_READ 5 4 4]"

theorem cache_is_transparent_witness:
  "fst (ops_run (sample_access cacr_on) sample_regs sample_ops (flat_state (replicate 16 0))) =
   [(True, 0x11223344), (True, 0x2233), (True, 0x99), (True, 0x22994400)]"
proof -
  have "fst (ops_plain sample_ops (ram_byte (flat_machine (replicate 16 0)))) =
      [(True, 0x11223344), (True, 0x2233), (True, 0x99), (True, 0x22994400)]"
    by (simp add: sample_ops_def be_bytes_two be_bytes_long be_long_def store_bytes_def stored_byte_def ram_byte_def flat_machine_def
      unsigned_minus_1_eq_mask mask_eq_exp_minus_1)
  moreover have "list_all (op_fits 16) sample_ops" by code_simp
  ultimately show ?thesis
    using arg_cong [OF cache_is_transparent [OF flat_state_in_step [of "replicate 16 0"] sample_policy,
      of sample_ops sample_regs], of fst]
    by (simp add: flat_state_def)
qed

theorem operand_reads_back_witness:
  "fst (ops_run (sample_access cacr_on) sample_regs [OP_WRITE 5 7 2 0xABCDEF, OP_READ 1 7 2]
     (flat_state (replicate 16 0))) = [(True, 0xABCDEF), (True, 0xCDEF)]"
proof -
  have "operand_fits 16 7 2" by code_simp
  then show ?thesis
    using operand_reads_back [OF flat_state_in_step [of "replicate 16 0"] sample_policy, of 7 2 sample_regs 5 "0xABCDEF" 1]
    by (simp add: size_mask_def)
qed

section \<open>A burst the memory refuses\<close>

lemma refused_burst_read:
  assumes fill: "rq_fill rq (rq_physical rq AND NOT 0xF) (rq_function_code rq) m = (answer, m1)"
    and "fa_termination answer \<noteq> TERM_BERR" "\<not> fa_burst_acknowledge answer"
    and "asks_burst rq c" "cache_lookup c (rq_address rq) (rq_function_code rq) = None"
  shows "ca_value (fst (cache_read rq c b m)) = fa_data answer ! 0"
proof -
  let ?cycle = "rq_physical rq AND NOT 0xF"
  obtain n b1 m2 where run: "run_read_cycle rq ?cycle True answer b m1 = (n, b1, m2)" by (metis prod_cases3)
  have "bus_burst_beats b1 = 0"
    using read_cycle_single [of True answer rq ?cycle b m1] assms(3) run by simp
  then have "ca_value (fst (cache_read_miss rq c b m)) = fa_data answer ! 0"
    using assms(2,4) fill run unfolding cache_read_miss_def Let_def asks_burst_def [symmetric]
    by (simp add: BURST_BEATS_def no_access_def)
  then show ?thesis using assms(5) by (simp add: cache_read_def)
qed

text \<open>C38: a machine without a board acknowledges no burst, but a burst that was asked for has its fill
  addressed at the base of the line: the read returns the long word there, whichever was wanted.\<close>

theorem refused_burst_reads_line_base:
  assumes "flat n (as_machine st)" and "fitted_long n (a AND NOT 0xF)"
    and "cacr_enable_data c" "cacr_data_burst_enable c" "\<not> cacr_freeze_data c"
    and "cache_lookup (as_cache st) a fc = None" and "cache_burst_request (as_cache st) a fc True True False False"
  shows "ar_value (fst (access_read (flat_access bo t0 t1 tc root c False) a fc st)) =
    be_long (ram_byte (as_machine st)) (a AND NOT 0xF)"
proof -
  let ?ax = "flat_access bo t0 t1 tc root c False" and ?m = "as_machine st"
  obtain mmu st1 where mmu: "mmu_translate ?ax False fc a st = (mmu, st1)" by fastforce
  note t = machine_memory.translate_plain [OF this]
  have usable: "cache_enabled (ax_cache_enabled ?ax) (ax_cache_disable ?ax) (inhibits ?ax p ?m) = True" for p
    using assms(1,3) by (simp add: cache_enabled_def data_access_def inhibits_def machine_cache_inhibited_def flat_def)
  define rq where "rq = \<lparr>rq_address = a, rq_physical = a, rq_function_code = fc, rq_cache_enabled = True,
      rq_burst_enable = ax_burst_enabled ?ax, rq_frozen = ax_cache_frozen ?ax, rq_read_modify_write = ax_rmc ?ax,
      rq_fill = ax_fill ?ax, rq_wait_states = ax_wait_states ?ax, rq_bus_acquire = ax_bus_acquire ?ax,
      rq_bus_clock = ax_bus_clock ?ax,
      rq_rmc_phase = (if \<not> ax_rmc ?ax then RMC_NONE
                      else if as_rmc_read_seen st then RMC_LOCKED else RMC_FIRST_READ)\<rparr>"
  obtain answer m1 where fill: "machine_fill bo (a AND NOT 0xF) fc ?m = (answer, m1)" by fastforce
  note ans = machine_fill_flat [OF assms(1) fill]
  have "asks_burst rq (as_cache st)"
    using assms(4,5,7) by (simp add: asks_burst_def rq_def data_access_def)
  moreover have "fa_termination answer \<noteq> TERM_BERR" "\<not> fa_burst_acknowledge answer"
    using fill assms(2) ans(3) by (auto simp: machine_fill_def berr_answer_def single_answer_def Let_def
      split: option.splits prod.splits if_splits)
  ultimately have "ca_value (fst (cache_read rq (as_cache st) (as_bus st) ?m)) = fa_data answer ! 0"
    using fill assms(6) by (intro refused_burst_read) (simp_all add: rq_def data_access_def)
  then have got: "ca_value (fst (cache_read rq (as_cache st) (as_bus st) ?m)) = be_long (ram_byte ?m) (a AND NOT 0xF)"
    using ans(4) assms(2) by simp
  have "ar_value (fst (read_external ?ax fc a True k (out\<lparr>ar_phys := a\<rparr>) st)) =
      ca_value (fst (cache_read rq (as_cache st) (as_bus st) ?m))" for k out
    unfolding read_external_def Let_def rq_def by (simp split: prod.split)
  moreover have "cache_lookup (as_cache st) a fc = None \<Longrightarrow>
      fst (access_read ?ax a fc st) = fst (read_external ?ax fc a True (ma_clocks mmu)
        (no_result\<lparr>ar_mmu_consulted := True, ar_transparent := ma_transparent mmu,
          ar_descriptor_fetches := ma_fetches mmu, ar_phys := a\<rparr>) st)"
    unfolding access_read_def access_read_sized_def Let_def usable using mmu t
    by (simp add: usable [unfolded cache_enabled_def] cache_enabled_def split: prod.split)
  ultimately show ?thesis using got assms(6) by simp
qed

definition cacr_burst :: cacr where
  "cacr_burst = cacr_on\<lparr>cacr_data_burst_enable := True\<rparr>"

theorem refused_burst_reads_line_base_witness:
  "ar_value (fst (access_read (sample_access cacr_burst) 4 5 (flat_state (map of_nat [0..<16])))) = 0x00010203 \<and>
   be_long (ram_byte (flat_machine (map of_nat [0..<16]))) 4 = 0x04050607"
proof -
  let ?st = "flat_state (map of_nat [0..<16])"
  have "flat 16 (as_machine ?st)" "fitted_long 16 (4 AND NOT 0xF)"
    by (simp_all add: flat_state_def flat_def flat_machine_def fitted_long_def)
  moreover have "cache_lookup (as_cache ?st) 4 5 = None" "cache_burst_request (as_cache ?st) 4 5 True True False False"
    by (simp_all add: flat_state_def blank_cache_def cache_lookup_def cache_burst_request_def list_ex_iff Let_def)
  moreover have "be_long (ram_byte (as_machine ?st)) 0 = 0x00010203" "be_long (ram_byte (flat_machine (map of_nat [0..<16]))) 4 = 0x04050607"
    by (simp_all add: flat_state_def be_long_def ram_byte_def flat_machine_def)
  ultimately show ?thesis
    using refused_burst_reads_line_base [of 16 ?st 4 cacr_burst 5 no_board None None "tc_decode 0" null_root]
    by (simp add: cacr_burst_def cacr_on_def)
qed

section \<open>Registers of the sample machine\<close>

definition postincrement_a7 :: ea where
  "postincrement_a7 = \<lparr>ea_kind = EA_POSTINCREMENT, ea_reg = 7\<rparr>"

definition word_input :: ea_input where
  "word_input = \<lparr>in_operand_size = 2, in_extension_address = 0, in_extension_word = 0, in_displacement = 0,
     in_base_displacement = 0, in_outer_displacement = 0\<rparr>"


end
