(* ===== verification/M68040_Regs.thy ===== *)
theory M68040_Regs
  imports Apollo_Prelude
begin

unbundle bit_operations_syntax

text \<open>
  The MC68040's MMU registers and descriptors: the root pointers, the translation control register,
  the transparent translation registers and the MMU status register of
  \<^verbatim>\<open>src/core/cpu/m68040/ap_m68040_regs.{h,c}\<close>, the table and page descriptors of
  \<^verbatim>\<open>ap_m68040_descriptor.{h,c}\<close>. Every register has a word and a decoded form, and the two are shown
  to be forms of one thing: a decoded register encodes to the bits the part implements, and an
  encoded one decodes to itself.
\<close>

section \<open>Descriptors\<close>

datatype page_size40 = PAGE_4K | PAGE_8K

datatype udt = UDT_INVALID | UDT_RESIDENT

datatype pdt = PDT_INVALID | PDT_RESIDENT | PDT_INDIRECT

datatype cache_mode40 = CM_WRITE_THROUGH | CM_COPYBACK | CM_SERIALIZED | CM_NONCACHABLE

text \<open>The cast of a two-bit field to the enumeration, and back.\<close>

definition cache_mode_of :: "u32 \<Rightarrow> cache_mode40" where
  "cache_mode_of v = (if v = 0 then CM_WRITE_THROUGH else if v = 1 then CM_COPYBACK
     else if v = 2 then CM_SERIALIZED else CM_NONCACHABLE)"

definition cache_mode_value :: "cache_mode40 \<Rightarrow> u32" where
  "cache_mode_value m = (case m of CM_WRITE_THROUGH \<Rightarrow> 0 | CM_COPYBACK \<Rightarrow> 1 | CM_SERIALIZED \<Rightarrow> 2
     | CM_NONCACHABLE \<Rightarrow> 3)"

record table_descriptor =
  td_type :: udt
  td_write_protect :: bool
  td_used :: bool
  td_address :: u32

definition decode_udt :: "u32 \<Rightarrow> udt" where
  "decode_udt v = (if v AND 0x2 \<noteq> 0 then UDT_RESIDENT else UDT_INVALID)"

definition decode_table :: "u32 \<Rightarrow> u32 \<Rightarrow> table_descriptor" where
  "decode_table v address_mask =
     \<lparr>td_type = decode_udt v, td_write_protect = (v AND 0x4 \<noteq> 0), td_used = (v AND 0x8 \<noteq> 0),
      td_address = v AND address_mask\<rparr>"

definition root_descriptor :: "u32 \<Rightarrow> table_descriptor" where
  "root_descriptor v = decode_table v 0xFFFFFE00"

definition pointer_descriptor :: "u32 \<Rightarrow> page_size40 \<Rightarrow> table_descriptor" where
  "pointer_descriptor v ps = decode_table v (if ps = PAGE_8K then 0xFFFFFF80 else 0xFFFFFF00)"

record page_descriptor =
  pd_type :: pdt
  pd_write_protect :: bool
  pd_used :: bool
  pd_modified :: bool
  pd_cache_mode :: cache_mode40
  pd_supervisor :: bool
  pd_user_attribute_0 :: bool
  pd_user_attribute_1 :: bool
  pd_global :: bool
  pd_address :: u32

definition decode_pdt :: "u32 \<Rightarrow> pdt" where
  "decode_pdt v = (let t = v AND 0x3 in
     if t = 0 then PDT_INVALID else if t = 2 then PDT_INDIRECT else PDT_RESIDENT)"

definition page_descriptor_of :: "u32 \<Rightarrow> page_size40 \<Rightarrow> page_descriptor" where
  "page_descriptor_of v ps =
     \<lparr>pd_type = decode_pdt v, pd_write_protect = (v AND 0x4 \<noteq> 0), pd_used = (v AND 0x8 \<noteq> 0),
      pd_modified = (v AND 0x10 \<noteq> 0), pd_cache_mode = cache_mode_of (drop_bit 5 v AND 0x3),
      pd_supervisor = (v AND 0x80 \<noteq> 0), pd_user_attribute_0 = (v AND 0x100 \<noteq> 0),
      pd_user_attribute_1 = (v AND 0x200 \<noteq> 0), pd_global = (v AND 0x400 \<noteq> 0),
      pd_address = (if decode_pdt v = PDT_INDIRECT then v AND 0xFFFFFFFC
                    else v AND (if ps = PAGE_8K then 0xFFFFE000 else 0xFFFFF000))\<rparr>"

definition page_bytes :: "page_size40 \<Rightarrow> u32" where
  "page_bytes ps = (if ps = PAGE_8K then 8192 else 4096)"

definition page_descriptor_is_incoherent :: "page_descriptor \<Rightarrow> bool" where
  "page_descriptor_is_incoherent d \<longleftrightarrow> pd_type d = PDT_RESIDENT \<and> \<not> pd_used d \<and> pd_modified d"

section \<open>Registers\<close>

definition ROOT_POINTER_MASK :: u32 where "ROOT_POINTER_MASK = 0xFFFFFE00"

definition root_pointer40 :: "u32 \<Rightarrow> u32" where
  "root_pointer40 v = v AND ROOT_POINTER_MASK"

definition root_pointer_is_aligned :: "u32 \<Rightarrow> bool" where
  "root_pointer_is_aligned v \<longleftrightarrow> v AND NOT ROOT_POINTER_MASK = 0"

record tcr40 =
  tcr_enable :: bool
  tcr_page_size :: page_size40

definition tcr_decode :: "u16 \<Rightarrow> tcr40" where
  "tcr_decode v = \<lparr>tcr_enable = (v AND 0x8000 \<noteq> 0),
     tcr_page_size = (if v AND 0x4000 \<noteq> 0 then PAGE_8K else PAGE_4K)\<rparr>"

definition tcr_encode :: "tcr40 \<Rightarrow> u16" where
  "tcr_encode t = (if tcr_enable t then 0x8000 else 0) OR (if tcr_page_size t = PAGE_8K then 0x4000 else 0)"

datatype tt_mode40 = TT_USER_ONLY | TT_SUPERVISOR_ONLY | TT_ANY

definition tt_mode_value :: "tt_mode40 \<Rightarrow> u32" where
  "tt_mode_value m = (case m of TT_USER_ONLY \<Rightarrow> 0 | TT_SUPERVISOR_ONLY \<Rightarrow> 1 | TT_ANY \<Rightarrow> 2)"

text \<open>\<^verbatim>\<open>unsigned\<close> fields of at most 32 bits.\<close>

record ttr40 =
  ttr_logical_base :: u32
  ttr_logical_mask :: u32
  ttr_enable :: bool
  ttr_supervisor_mode :: tt_mode40
  ttr_user_attribute_1 :: bool
  ttr_user_attribute_0 :: bool
  ttr_cache_mode :: cache_mode40
  ttr_write_protect :: bool

definition ttr_decode :: "u32 \<Rightarrow> ttr40" where
  "ttr_decode v = (let s = drop_bit 13 v AND 0x3 in
     \<lparr>ttr_logical_base = drop_bit 24 v AND 0xFF, ttr_logical_mask = drop_bit 16 v AND 0xFF,
      ttr_enable = (v AND 0x8000 \<noteq> 0),
      ttr_supervisor_mode = (if s AND 0x2 \<noteq> 0 then TT_ANY
                             else if s = 0 then TT_USER_ONLY else TT_SUPERVISOR_ONLY),
      ttr_user_attribute_1 = (v AND 0x200 \<noteq> 0), ttr_user_attribute_0 = (v AND 0x100 \<noteq> 0),
      ttr_cache_mode = cache_mode_of (drop_bit 5 v AND 0x3), ttr_write_protect = (v AND 0x4 \<noteq> 0)\<rparr>)"

definition ttr_encode :: "ttr40 \<Rightarrow> u32" where
  "ttr_encode t = push_bit 24 (ttr_logical_base t AND 0xFF) OR push_bit 16 (ttr_logical_mask t AND 0xFF) OR
     (if ttr_enable t then 0x8000 else 0) OR push_bit 13 (tt_mode_value (ttr_supervisor_mode t) AND 0x3) OR
     (if ttr_user_attribute_1 t then 0x200 else 0) OR (if ttr_user_attribute_0 t then 0x100 else 0) OR
     push_bit 5 (cache_mode_value (ttr_cache_mode t) AND 0x3) OR (if ttr_write_protect t then 0x4 else 0)"

definition ttr_matches :: "ttr40 \<Rightarrow> u32 \<Rightarrow> u32 \<Rightarrow> bool" where
  "ttr_matches t address function_code \<longleftrightarrow>
     ttr_enable t \<and>
     (case ttr_supervisor_mode t of
        TT_USER_ONLY \<Rightarrow> \<not> (function_code AND 0x4 \<noteq> 0)
      | TT_SUPERVISOR_ONLY \<Rightarrow> function_code AND 0x4 \<noteq> 0
      | TT_ANY \<Rightarrow> True) \<and>
     (let high = drop_bit 24 address AND 0xFF; compared = NOT (ttr_logical_mask t) AND 0xFF
      in high AND compared = ttr_logical_base t AND compared)"

record mmusr40 =
  sr_physical_address :: u32
  sr_bus_error :: bool
  sr_global :: bool
  sr_user_attribute_1 :: bool
  sr_user_attribute_0 :: bool
  sr_supervisor :: bool
  sr_cache_mode :: cache_mode40
  sr_modified :: bool
  sr_write_protect :: bool
  sr_transparent :: bool
  sr_resident :: bool

definition mmusr_decode :: "u32 \<Rightarrow> mmusr40" where
  "mmusr_decode v =
     \<lparr>sr_physical_address = v AND 0xFFFFF000, sr_bus_error = (v AND 0x800 \<noteq> 0),
      sr_global = (v AND 0x400 \<noteq> 0), sr_user_attribute_1 = (v AND 0x200 \<noteq> 0),
      sr_user_attribute_0 = (v AND 0x100 \<noteq> 0), sr_supervisor = (v AND 0x80 \<noteq> 0),
      sr_cache_mode = cache_mode_of (drop_bit 5 v AND 0x3), sr_modified = (v AND 0x10 \<noteq> 0),
      sr_write_protect = (v AND 0x4 \<noteq> 0), sr_transparent = (v AND 0x2 \<noteq> 0),
      sr_resident = (v AND 0x1 \<noteq> 0)\<rparr>"

definition mmusr_encode :: "mmusr40 \<Rightarrow> u32" where
  "mmusr_encode m = (sr_physical_address m AND 0xFFFFF000) OR
     (if sr_bus_error m then 0x800 else 0) OR (if sr_global m then 0x400 else 0) OR
     (if sr_user_attribute_1 m then 0x200 else 0) OR (if sr_user_attribute_0 m then 0x100 else 0) OR
     (if sr_supervisor m then 0x80 else 0) OR push_bit 5 (cache_mode_value (sr_cache_mode m) AND 0x3) OR
     (if sr_modified m then 0x10 else 0) OR (if sr_write_protect m then 0x4 else 0) OR
     (if sr_transparent m then 0x2 else 0) OR (if sr_resident m then 0x1 else 0)"

text \<open>A designated initialiser leaves every field it does not name zero.\<close>

definition mmusr_zero :: mmusr40 where
  "mmusr_zero = \<lparr>sr_physical_address = 0, sr_bus_error = False, sr_global = False,
     sr_user_attribute_1 = False, sr_user_attribute_0 = False, sr_supervisor = False,
     sr_cache_mode = CM_WRITE_THROUGH, sr_modified = False, sr_write_protect = False,
     sr_transparent = False, sr_resident = False\<rparr>"

definition mmusr_bus_error :: mmusr40 where
  "mmusr_bus_error = mmusr_zero\<lparr>sr_bus_error := True\<rparr>"

definition mmusr_transparent :: mmusr40 where
  "mmusr_transparent = mmusr_zero\<lparr>sr_transparent := True, sr_resident := True\<rparr>"

section \<open>One bit of an image\<close>

lemma flag_literals:
  "(0x8000 :: u32) = bit_of 15" "(0x800 :: u32) = bit_of 11" "(0x400 :: u32) = bit_of 10"
  "(0x200 :: u32) = bit_of 9" "(0x100 :: u32) = bit_of 8" "(0x80 :: u32) = bit_of 7"
  "(0x10 :: u32) = bit_of 4" "(0x8 :: u32) = bit_of 3" "(0x4 :: u32) = bit_of 2" "(0x2 :: u32) = bit_of 1"
  "(0x1 :: u32) = bit_of 0"
  by (simp_all add: bit_of_def)

lemma bit_flag_if: "k < 32 \<Longrightarrow> bit (if b then bit_of k else 0 :: u32) n \<longleftrightarrow> b \<and> n = k"
  by auto

lemma bit_low_two: "bit (w AND 0x3 :: u32) n \<longleftrightarrow> n < 2 \<and> bit w n"
  by (simp add: and_mask_literals bit_take_bit_iff)

lemma bit_low_byte: "bit (w AND 0xFF :: u32) n \<longleftrightarrow> n < 8 \<and> bit w n"
  by (simp add: and_mask_literals bit_take_bit_iff)

lemma bit_frame: "bit (w AND 0xFFFFF000 :: u32) n \<longleftrightarrow> 12 \<le> n \<and> bit w n"
proof -
  have frame: "(0xFFFFF000 :: u32) = NOT (mask 12)" by (simp add: mask_eq_exp_minus_1)
  show ?thesis unfolding frame using bit_imp_le_length [of w n] by (auto simp: bit_and_iff bit_not_iff bit_mask_iff)
qed

lemma two_bits_cases: "w AND 0x3 = 0 \<or> w AND 0x3 = 1 \<or> w AND 0x3 = 2 \<or> w AND 0x3 = (3 :: u32)"
proof -
  have n: "w AND 0x3 = of_nat (unat (w AND 0x3))" by (simp only: of_nat_unat ucast_id)
  have "unat (w AND 0x3) \<le> unat (3 :: u32)" by (rule word_le_nat_alt [THEN iffD1, OF word_and_le1])
  then consider "unat (w AND 0x3) = 0" | "unat (w AND 0x3) = 1" | "unat (w AND 0x3) = 2" | "unat (w AND 0x3) = 3"
    by fastforce
  then show ?thesis by cases (subst (1 2 3 4) n, simp only:, simp)+
qed

lemma cache_mode_roundtrip [simp]: "cache_mode_of (cache_mode_value m) = m"
  by (cases m) (simp_all add: cache_mode_of_def cache_mode_value_def)

lemma cache_mode_value_of: "cache_mode_value (cache_mode_of (w AND 0x3)) = w AND 0x3"
  using two_bits_cases [of w] by (elim disjE) (simp_all only: cache_mode_of_def cache_mode_value_def, simp_all)

lemma cache_mode_value_and: "cache_mode_value m AND 0x3 = cache_mode_value m"
  by (cases m) (simp_all add: cache_mode_value_def)

lemma bit_cache_mode: "bit (push_bit 5 (cache_mode_value m AND 0x3)) n \<longleftrightarrow> 5 \<le> n \<and> n < 7 \<and> bit (cache_mode_value m) (n - 5)"
  unfolding bit_push_bit_iff bit_low_two by (auto simp: possible_bit_word)

lemma mode_field: "(\<And>n. n < 2 \<Longrightarrow> bit w (5 + n) = bit (cache_mode_value m) n) \<Longrightarrow> cache_mode_of (drop_bit 5 w AND 0x3) = m"
proof -
  assume bits: "\<And>n. n < 2 \<Longrightarrow> bit w (5 + n) = bit (cache_mode_value m) n"
  have "drop_bit 5 w AND 0x3 = cache_mode_value m AND 0x3"
    by (rule bit_word_eqI) (auto simp: bit_low_two bit_drop_bit_eq bits)
  then show ?thesis by (simp add: cache_mode_value_and)
qed

section \<open>Register images\<close>

lemma bit_mmusr_encode:
  "bit (mmusr_encode m) n \<longleftrightarrow>
    (12 \<le> n \<and> bit (sr_physical_address m) n \<or> sr_bus_error m \<and> n = 11 \<or> sr_global m \<and> n = 10 \<or>
     sr_user_attribute_1 m \<and> n = 9 \<or> sr_user_attribute_0 m \<and> n = 8 \<or> sr_supervisor m \<and> n = 7 \<or>
     5 \<le> n \<and> n < 7 \<and> bit (cache_mode_value (sr_cache_mode m)) (n - 5) \<or> sr_modified m \<and> n = 4 \<or>
     sr_write_protect m \<and> n = 2 \<or> sr_transparent m \<and> n = 1 \<or> sr_resident m \<and> n = 0)"
  unfolding mmusr_encode_def flag_literals bit_or_iff bit_cache_mode bit_frame by (simp add: bit_flag_if)

lemma mmusr_decode_encode:
  assumes "sr_physical_address m AND 0xFFFFF000 = sr_physical_address m"
  shows "mmusr_decode (mmusr_encode m) = m"
proof -
  have "mmusr_encode m AND 0xFFFFF000 = sr_physical_address m"
  proof (rule bit_word_eqI)
    fix n assume "n < LENGTH(32)"
    have "bit (sr_physical_address m) n \<longleftrightarrow> 12 \<le> n \<and> bit (sr_physical_address m) n"
      using arg_cong [OF assms, of "\<lambda>w. bit w n"] by (simp add: bit_frame)
    then show "bit (mmusr_encode m AND 0xFFFFF000) n = bit (sr_physical_address m) n"
      unfolding bit_frame bit_mmusr_encode by (cases "12 \<le> n") auto
  qed
  moreover have "cache_mode_of (drop_bit 5 (mmusr_encode m) AND 0x3) = sr_cache_mode m"
    by (rule mode_field) (simp add: bit_mmusr_encode)
  ultimately show ?thesis
    unfolding mmusr_decode_def flag_literals and_bit_of by (simp add: bit_mmusr_encode)
qed

lemma mmusr_encode_decode: "mmusr_encode (mmusr_decode v) = v AND 0xFFFFFFF7"
proof (rule bit_word_eqI)
  fix n assume "n < LENGTH(32)"
  then have n: "n < 32" by simp
  have word: "(0xFFFFFFF7 :: u32) = NOT (bit_of 3)" by (simp add: bit_of_def)
  have "n < 12 \<longrightarrow> n = 0 \<or> n = 1 \<or> n = 2 \<or> n = 3 \<or> n = 4 \<or> n = 5 \<or> n = 6 \<or> n = 7 \<or> n = 8 \<or> n = 9 \<or>
      n = 10 \<or> n = 11" by presburger
  then consider "12 \<le> n" | "n = 0" | "n = 1" | "n = 2" | "n = 3" | "n = 4" | "n = 5" | "n = 6" | "n = 7"
    | "n = 8" | "n = 9" | "n = 10" | "n = 11" by linarith
  note split = this
  show "bit (mmusr_encode (mmusr_decode v)) n = bit (v AND 0xFFFFFFF7) n"
    unfolding word bit_mmusr_encode mmusr_decode_def flag_literals and_bit_of mmusr40.select_convs
      cache_mode_value_of bit_low_two bit_drop_bit_eq bit_frame bit_clear
    using n by (cases rule: split) simp_all
qed

lemma bit_ttr_encode:
  "bit (ttr_encode t) n \<longleftrightarrow>
    (24 \<le> n \<and> n < 32 \<and> bit (ttr_logical_base t) (n - 24) \<or> 16 \<le> n \<and> n < 24 \<and> bit (ttr_logical_mask t) (n - 16) \<or>
     ttr_enable t \<and> n = 15 \<or> 13 \<le> n \<and> n < 15 \<and> bit (tt_mode_value (ttr_supervisor_mode t)) (n - 13) \<or>
     ttr_user_attribute_1 t \<and> n = 9 \<or> ttr_user_attribute_0 t \<and> n = 8 \<or>
     5 \<le> n \<and> n < 7 \<and> bit (cache_mode_value (ttr_cache_mode t)) (n - 5) \<or> ttr_write_protect t \<and> n = 2)"
proof -
  have high: "24 \<le> n \<and> possible_bit TYPE(32 word) n \<and> n - 24 < 8 \<and> b \<longleftrightarrow> 24 \<le> n \<and> n < 32 \<and> b"
    "16 \<le> n \<and> possible_bit TYPE(32 word) n \<and> n - 16 < 8 \<and> b \<longleftrightarrow> 16 \<le> n \<and> n < 24 \<and> b"
    "13 \<le> n \<and> possible_bit TYPE(32 word) n \<and> n - 13 < 2 \<and> b \<longleftrightarrow> 13 \<le> n \<and> n < 15 \<and> b" for b
    by auto
  show ?thesis
    unfolding ttr_encode_def flag_literals bit_or_iff bit_cache_mode
    unfolding bit_push_bit_iff bit_low_byte bit_low_two high by (simp add: bit_flag_if)
qed

lemma tt_mode_bits:
  "bit (tt_mode_value m) 0 \<longleftrightarrow> m = TT_SUPERVISOR_ONLY" "bit (tt_mode_value m) 1 \<longleftrightarrow> m = TT_ANY"
  by (cases m; simp add: tt_mode_value_def)+

lemma ttr_decode_encode:
  assumes "ttr_logical_base t AND 0xFF = ttr_logical_base t" and "ttr_logical_mask t AND 0xFF = ttr_logical_mask t"
  shows "ttr_decode (ttr_encode t) = t"
proof -
  have "drop_bit 24 (ttr_encode t) AND 0xFF = ttr_logical_base t AND 0xFF"
    "drop_bit 16 (ttr_encode t) AND 0xFF = ttr_logical_mask t AND 0xFF"
    by (rule bit_word_eqI; auto simp: bit_low_byte bit_drop_bit_eq bit_ttr_encode)+
  moreover have "drop_bit 13 (ttr_encode t) AND 0x3 = tt_mode_value (ttr_supervisor_mode t)"
  proof -
    have "drop_bit 13 (ttr_encode t) AND 0x3 = tt_mode_value (ttr_supervisor_mode t) AND 0x3"
      by (rule bit_word_eqI) (auto simp: bit_low_two bit_drop_bit_eq bit_ttr_encode)
    also have "\<dots> = tt_mode_value (ttr_supervisor_mode t)"
      by (cases "ttr_supervisor_mode t") (simp_all add: tt_mode_value_def)
    finally show ?thesis .
  qed
  moreover have "cache_mode_of (drop_bit 5 (ttr_encode t) AND 0x3) = ttr_cache_mode t"
    by (rule mode_field) (simp add: bit_ttr_encode)
  moreover have "(if tt_mode_value m AND 0x2 \<noteq> 0 then TT_ANY
      else if tt_mode_value m = 0 then TT_USER_ONLY else TT_SUPERVISOR_ONLY) = m" for m
    by (cases m) (simp_all add: tt_mode_value_def)
  moreover have "ttr_encode t AND 0x8000 \<noteq> 0 \<longleftrightarrow> ttr_enable t" "ttr_encode t AND 0x200 \<noteq> 0 \<longleftrightarrow> ttr_user_attribute_1 t"
    "ttr_encode t AND 0x100 \<noteq> 0 \<longleftrightarrow> ttr_user_attribute_0 t" "ttr_encode t AND 0x4 \<noteq> 0 \<longleftrightarrow> ttr_write_protect t"
    unfolding flag_literals and_bit_of by (simp_all add: bit_ttr_encode)
  ultimately show ?thesis using assms by (simp add: ttr_decode_def)
qed

lemma tcr_decode_encode: "tcr_decode (tcr_encode t) = t"
  by (cases t, cases "tcr_page_size t") (auto simp: tcr_decode_def tcr_encode_def)



end
