(* ===== verification/M68040_Tables.thy ===== *)
theory M68040_Tables
  imports M68040_Search
begin

unbundle bit_operations_syntax

text \<open>
  What translation tables say, and that a search of the MC68040 answers it. A memory is a partial
  function from the addresses of its long words; reading the tree is \<open>tables_say\<close>, which knows nothing
  of searches, results or callbacks. The history bits are the two bits of a descriptor a search may set;
  \<open>only_history\<close> relates a memory to what searches may have made of it.
\<close>

section \<open>Reading the tree\<close>

type_synonym words = "u32 \<Rightarrow> u32 option"

definition root_slot :: "u32 \<Rightarrow> u32 \<Rightarrow> u32" where
  "root_slot root l = (root AND 0xFFFFFE00) OR (root_index l * 4)"

definition pointer_slot :: "u32 \<Rightarrow> u32 \<Rightarrow> u32" where
  "pointer_slot r l = (r AND 0xFFFFFE00) OR (pointer_index l * 4)"

definition page_slot :: "page_size40 \<Rightarrow> u32 \<Rightarrow> u32 \<Rightarrow> u32" where
  "page_slot ps p l = (p AND (if ps = PAGE_8K then 0xFFFFFF80 else 0xFFFFFF00)) OR (page_index l ps * 4)"

definition without_history :: "u32 \<Rightarrow> u32" where
  "without_history d = (d AND NOT (bit_of 3)) AND NOT (bit_of 4)"

text \<open>No memory, no page, or the page descriptor's address, the protection of the tables above it and
  its bits other than the history.\<close>

datatype tables_answer = No_answer | Absent | Page u32 bool u32

definition leaf :: "u32 \<Rightarrow> bool \<Rightarrow> u32 \<Rightarrow> tables_answer" where
  "leaf s wp d = (if bit d 0 then Page s wp (without_history d) else Absent)"

definition tables_say :: "words \<Rightarrow> u32 \<Rightarrow> page_size40 \<Rightarrow> u32 \<Rightarrow> tables_answer" where
  "tables_say mem root ps l =
     (case mem (root_slot root l) of
        None \<Rightarrow> No_answer
      | Some r \<Rightarrow>
          if \<not> bit r 1 then Absent else
          case mem (pointer_slot r l) of
            None \<Rightarrow> No_answer
          | Some p \<Rightarrow>
              if \<not> bit p 1 then Absent else
              case mem (page_slot ps p l) of
                None \<Rightarrow> No_answer
              | Some d \<Rightarrow>
                  if d AND 3 = 2
                  then case mem (d AND 0xFFFFFFFC) of
                         None \<Rightarrow> No_answer
                       | Some e \<Rightarrow> leaf (d AND 0xFFFFFFFC) (bit r 2 \<or> bit p 2) e
                  else leaf (page_slot ps p l) (bit r 2 \<or> bit p 2) d)"

section \<open>Bits of descriptors\<close>

lemma u32_eq_iff: "a = b \<longleftrightarrow> (\<forall>n. bit a n = bit (b :: u32) n)"
  by (metis bit_eq_iff)

lemma bit_without_history [simp]: "bit (without_history d) n \<longleftrightarrow> bit d n \<and> n \<noteq> 3 \<and> n \<noteq> 4"
  by (auto simp: without_history_def)

lemma without_history_eq_iff:
  "without_history d = without_history e \<longleftrightarrow> (\<forall>n. n \<noteq> 3 \<and> n \<noteq> 4 \<longrightarrow> bit d n = bit e n)"
  by (auto simp: u32_eq_iff)

lemma without_history_twice [simp]: "without_history (without_history d) = without_history d"
  by (simp add: without_history_eq_iff)

lemma without_history_bit: "without_history d = without_history e \<Longrightarrow> n \<noteq> 3 \<Longrightarrow> n \<noteq> 4 \<Longrightarrow> bit d n = bit e n"
  by (simp add: without_history_eq_iff)

lemma without_history_and:
  assumes "without_history d = without_history e" and "\<not> bit k 3" "\<not> bit k 4"
  shows "d AND k = e AND k"
proof -
  have "bit d n \<and> bit k n \<longleftrightarrow> bit e n \<and> bit k n" for n
    using assms without_history_bit [OF assms(1), of n] by metis
  then show ?thesis by (simp add: u32_eq_iff bit_and_iff)
qed

lemma masks_free:
  "\<not> bit (0xFFFFFE00 :: u32) 3" "\<not> bit (0xFFFFFE00 :: u32) 4" "\<not> bit (0xFFFFFF80 :: u32) 3"
  "\<not> bit (0xFFFFFF80 :: u32) 4" "\<not> bit (0xFFFFFF00 :: u32) 3" "\<not> bit (0xFFFFFF00 :: u32) 4"
  "\<not> bit (0xFFFFE000 :: u32) 3" "\<not> bit (0xFFFFE000 :: u32) 4" "\<not> bit (0xFFFFF000 :: u32) 3"
  "\<not> bit (0xFFFFF000 :: u32) 4" "\<not> bit (3 :: u32) 3" "\<not> bit (3 :: u32) 4"
  by simp_all

lemma slots_without_history:
  assumes "without_history d = without_history e"
  shows "pointer_slot d l = pointer_slot e l" "page_slot ps d l = page_slot ps e l" "d AND 3 = e AND 3"
  using assms by (auto simp: pointer_slot_def page_slot_def intro!: without_history_and arg_cong2 [where f = "(OR)"] masks_free)

lemma word_aligned: "((x AND k) OR (i * 4)) AND 3 = (0 :: u32)" if "k AND 3 = 0"
proof -
  have three: "(3 :: u32) = mask 2" and four: "i * 4 = push_bit 2 i"
    by (simp_all add: mask_eq_exp_minus_1 push_bit_eq_mult mult.commute)
  have "\<not> bit k n" if "n < 2" for n
  proof -
    have "bit (k AND 3) n = bit k n" unfolding three using that by (simp add: bit_and_iff bit_mask_iff)
    then show ?thesis using \<open>k AND 3 = 0\<close> by simp
  qed
  then have "\<not> (bit k n \<and> n < 2)" for n by blast
  then show ?thesis
    unfolding four three u32_eq_iff bit_and_iff bit_or_iff bit_push_bit_iff bit_mask_iff by auto
qed

lemma slots_aligned: "root_slot root l AND 3 = 0" "pointer_slot r l AND 3 = 0" "page_slot ps p l AND 3 = 0"
  "(d AND 0xFFFFFFFC) AND 3 = (0 :: u32)"
proof -
  show "(d AND 0xFFFFFFFC) AND 3 = (0 :: u32)" by (simp add: and.assoc)
  have "((root AND 0xFFFFFE00) OR (root_index l * 4)) AND 3 = 0"
    "((r AND 0xFFFFFE00) OR (pointer_index l * 4)) AND 3 = 0"
    "((p AND 0xFFFFFF80) OR (page_index l q * 4)) AND 3 = 0"
    "((p AND 0xFFFFFF00) OR (page_index l q * 4)) AND 3 = 0" for q
    by (simp_all add: word_aligned)
  then show "root_slot root l AND 3 = 0" "pointer_slot r l AND 3 = 0" "page_slot ps p l AND 3 = 0"
    by (simp_all add: root_slot_def pointer_slot_def page_slot_def)
qed

lemma type_bits:
  "td_type (root_descriptor r) = UDT_INVALID \<longleftrightarrow> \<not> bit r 1"
  "td_type (pointer_descriptor r ps) = UDT_INVALID \<longleftrightarrow> \<not> bit r 1"
  "td_used (root_descriptor r) \<longleftrightarrow> bit r 3" "td_used (pointer_descriptor r ps) \<longleftrightarrow> bit r 3"
  "td_write_protect (root_descriptor r) \<longleftrightarrow> bit r 2" "td_write_protect (pointer_descriptor r ps) \<longleftrightarrow> bit r 2"
  "td_address (root_descriptor r) = r AND 0xFFFFFE00"
  "td_address (pointer_descriptor r ps) = r AND (if ps = PAGE_8K then 0xFFFFFF80 else 0xFFFFFF00)"
  unfolding root_descriptor_def pointer_descriptor_def decode_table_def decode_udt_def flag_literals and_bit_of
  by simp_all

lemma low_bit_odd: "bit d 0 \<longleftrightarrow> d AND 3 = 1 \<or> d AND 3 = (3 :: u32)"
proof -
  have "bit (d AND 3) 0 = bit d 0" by (simp add: bit_low_two)
  then show ?thesis using two_bits_cases [of d] by auto
qed

lemma pdt_bits:
  "decode_pdt d = PDT_INDIRECT \<longleftrightarrow> d AND 3 = 2" "decode_pdt d = PDT_RESIDENT \<longleftrightarrow> bit d 0"
  using two_bits_cases [of d] unfolding low_bit_odd by (auto simp: decode_pdt_def Let_def)

lemma page_bits:
  "pd_type (page_descriptor_of d ps) = decode_pdt d"
  "pd_used (page_descriptor_of d ps) \<longleftrightarrow> bit d 3" "pd_modified (page_descriptor_of d ps) \<longleftrightarrow> bit d 4"
  "pd_write_protect (page_descriptor_of d ps) \<longleftrightarrow> bit d 2" "pd_supervisor (page_descriptor_of d ps) \<longleftrightarrow> bit d 7"
  "pd_global (page_descriptor_of d ps) \<longleftrightarrow> bit d 10" "pd_user_attribute_0 (page_descriptor_of d ps) \<longleftrightarrow> bit d 8"
  "pd_user_attribute_1 (page_descriptor_of d ps) \<longleftrightarrow> bit d 9"
  "pd_cache_mode (page_descriptor_of d ps) = cache_mode_of (drop_bit 5 d AND 3)"
  "decode_pdt d = PDT_INDIRECT \<Longrightarrow> pd_address (page_descriptor_of d ps) = d AND 0xFFFFFFFC"
  "decode_pdt d \<noteq> PDT_INDIRECT \<Longrightarrow>
     pd_address (page_descriptor_of d ps) = d AND (if ps = PAGE_8K then 0xFFFFE000 else 0xFFFFF000)"
  unfolding page_descriptor_of_def flag_literals and_bit_of by simp_all

section \<open>Memories that differ in history\<close>

definition table_slot :: "words \<Rightarrow> u32 \<Rightarrow> u32 \<Rightarrow> u32 \<Rightarrow> bool" where
  "table_slot mem root l t \<longleftrightarrow> t = root_slot root l \<or>
     (\<exists>r. mem (root_slot root l) = Some r \<and> bit r 1 \<and> t = pointer_slot r l)"

definition indirect_slot :: "words \<Rightarrow> u32 \<Rightarrow> page_size40 \<Rightarrow> u32 \<Rightarrow> u32 \<Rightarrow> bool" where
  "indirect_slot mem root ps l s \<longleftrightarrow>
     (\<exists>r p d. mem (root_slot root l) = Some r \<and> bit r 1 \<and> mem (pointer_slot r l) = Some p \<and> bit p 1 \<and>
        s = page_slot ps p l \<and> mem s = Some d \<and> d AND 3 = 2)"

text \<open>Every word a search for an address reads.\<close>

definition reads_slot :: "words \<Rightarrow> u32 \<Rightarrow> page_size40 \<Rightarrow> u32 \<Rightarrow> u32 \<Rightarrow> bool" where
  "reads_slot mem root ps l s \<longleftrightarrow> table_slot mem root l s \<or>
     (\<exists>r p. mem (root_slot root l) = Some r \<and> bit r 1 \<and> mem (pointer_slot r l) = Some p \<and> bit p 1 \<and>
        (s = page_slot ps p l \<or> (\<exists>d. mem (page_slot ps p l) = Some d \<and> d AND 3 = 2 \<and> s = d AND 0xFFFFFFFC)))"

text \<open>No word of the tables serves both as a table descriptor and as an indirect page descriptor: the
  history bit of the one is an address bit of the other.\<close>

definition apart :: "u32 set \<Rightarrow> page_size40 \<Rightarrow> words \<Rightarrow> bool" where
  "apart roots ps mem \<longleftrightarrow> (\<forall>root \<in> roots. \<forall>root' \<in> roots. \<forall>l l' s.
     table_slot mem root l s \<longrightarrow> \<not> indirect_slot mem root' ps l' s)"

definition same_word :: "u32 option \<Rightarrow> u32 option \<Rightarrow> bool" where
  "same_word x y \<longleftrightarrow> (case x of None \<Rightarrow> y = None
     | Some w \<Rightarrow> (\<exists>w'. y = Some w' \<and> without_history w' = without_history w \<and>
         (bit w 3 \<longrightarrow> bit w' 3) \<and> (bit w 4 \<longrightarrow> bit w' 4)))"

definition only_history :: "u32 set \<Rightarrow> page_size40 \<Rightarrow> words \<Rightarrow> words \<Rightarrow> bool" where
  "only_history roots ps mem mem' \<longleftrightarrow> (\<forall>a. same_word (mem a) (mem' a)) \<and>
     (\<forall>root \<in> roots. \<forall>l s. indirect_slot mem root ps l s \<longrightarrow> mem' s = mem s)"

lemma same_wordE:
  assumes "same_word (Some w) y"
  obtains w' where "y = Some w'" "without_history w' = without_history w" "bit w 3 \<longrightarrow> bit w' 3" "bit w 4 \<longrightarrow> bit w' 4"
  using assms by (auto simp: same_word_def)

lemma same_word_None: "same_word None y \<longleftrightarrow> y = None"
  by (simp add: same_word_def)

lemma same_word_refl: "same_word x x"
  by (simp add: same_word_def split: option.split)

lemma same_word_trans: "same_word x y \<Longrightarrow> same_word y z \<Longrightarrow> same_word x z"
  by (auto simp: same_word_def split: option.splits)

lemma only_history_refl: "only_history roots ps mem mem"
  by (simp add: only_history_def same_word_refl)

text \<open>Such memories have the same slots and say the same.\<close>

lemma only_history_upper:
  assumes "only_history roots ps mem mem'"
  obtains "mem (root_slot root l) = None" "mem' (root_slot root l) = None"
  | r r' where "mem (root_slot root l) = Some r" "mem' (root_slot root l) = Some r'"
      "bit r' 1 = bit r 1" "bit r' 2 = bit r 2" "\<And>l. pointer_slot r' l = pointer_slot r l"
proof (cases "mem (root_slot root l)")
  case None
  then show ?thesis using assms that(1) by (metis only_history_def same_word_None)
next
  case (Some r)
  then have "same_word (Some r) (mem' (root_slot root l))" using assms by (metis only_history_def)
  then obtain w where w: "mem' (root_slot root l) = Some w" "without_history w = without_history r" by (rule same_wordE)
  show ?thesis
    by (rule that(2) [OF Some w(1)]) (simp_all add: without_history_bit [OF w(2)] slots_without_history [OF w(2)])
qed

lemma only_history_middle:
  assumes "only_history roots ps mem mem'"
  obtains "mem (pointer_slot r l) = None" "mem' (pointer_slot r l) = None"
  | p p' where "mem (pointer_slot r l) = Some p" "mem' (pointer_slot r l) = Some p'"
      "bit p' 1 = bit p 1" "bit p' 2 = bit p 2" "\<And>ps l. page_slot ps p' l = page_slot ps p l"
proof (cases "mem (pointer_slot r l)")
  case None
  then show ?thesis using assms that(1) by (metis only_history_def same_word_None)
next
  case (Some p)
  then have "same_word (Some p) (mem' (pointer_slot r l))" using assms by (metis only_history_def)
  then obtain w where w: "mem' (pointer_slot r l) = Some w" "without_history w = without_history p" by (rule same_wordE)
  show ?thesis
    by (rule that(2) [OF Some w(1)]) (simp_all add: without_history_bit [OF w(2)] slots_without_history [OF w(2)])
qed

lemma same_word_type:
  assumes "same_word x y"
  shows "(\<exists>d. y = Some d \<and> d AND 3 = 2) \<longleftrightarrow> (\<exists>d. x = Some d \<and> d AND 3 = 2)"
proof (cases x)
  case (Some d)
  then obtain w where w: "y = Some w" "without_history w = without_history d" using assms by (metis same_wordE)
  show ?thesis by (simp add: Some w(1) slots_without_history(3) [OF w(2)])
qed (use assms in \<open>simp add: same_word_None\<close>)

lemma only_history_slots:
  assumes oh: "only_history roots ps mem mem'"
  shows "table_slot mem' root l = table_slot mem root l" "indirect_slot mem' root ps l = indirect_slot mem root ps l"
proof -
  have "table_slot mem' root l s = table_slot mem root l s \<and>
      indirect_slot mem' root ps l s = indirect_slot mem root ps l s" for s
  proof (rule only_history_upper [OF oh, of root l])
    assume "mem (root_slot root l) = None" "mem' (root_slot root l) = None"
    then show ?thesis by (simp add: table_slot_def indirect_slot_def)
  next
    fix r r' assume r: "mem (root_slot root l) = Some r" "mem' (root_slot root l) = Some r'"
      "bit r' 1 = bit r 1" "\<And>l. pointer_slot r' l = pointer_slot r l"
    have type: "(\<exists>d. mem' s = Some d \<and> d AND 3 = 2) \<longleftrightarrow> (\<exists>d. mem s = Some d \<and> d AND 3 = 2)"
      by (rule same_word_type) (use oh in \<open>simp add: only_history_def\<close>)
    show ?thesis
    proof (rule only_history_middle [OF oh, of r l])
      assume "mem (pointer_slot r l) = None" "mem' (pointer_slot r l) = None"
      then show ?thesis using r by (simp add: table_slot_def indirect_slot_def)
    next
      fix p p' assume p: "mem (pointer_slot r l) = Some p" "mem' (pointer_slot r l) = Some p'"
        "bit p' 1 = bit p 1" "\<And>ps l. page_slot ps p' l = page_slot ps p l"
      then show ?thesis using r type by (auto simp: table_slot_def indirect_slot_def)
    qed
  qed
  then show "table_slot mem' root l = table_slot mem root l" "indirect_slot mem' root ps l = indirect_slot mem root ps l"
    by (simp_all add: fun_eq_iff)
qed

lemma only_history_apart: "only_history roots ps mem mem' \<Longrightarrow> apart roots ps mem' = apart roots ps mem"
  by (simp add: apart_def only_history_slots)

lemma only_history_trans:
  assumes "only_history roots ps mem mem'" and "only_history roots ps mem' mem''"
  shows "only_history roots ps mem mem''"
  using assms same_word_trans only_history_slots(2) [OF assms(1)] unfolding only_history_def by metis

lemma leaf_cong: "same_word (Some d) (Some d') \<Longrightarrow> leaf s wp d' = leaf s wp d"
  by (erule same_wordE) (simp add: leaf_def without_history_bit [of d' d 0])

lemma only_history_says:
  assumes oh: "only_history roots ps mem mem'" and root: "root \<in> roots"
  shows "tables_say mem' root ps l = tables_say mem root ps l"
proof (rule only_history_upper [OF oh, of root l])
  assume "mem (root_slot root l) = None" "mem' (root_slot root l) = None"
  then show ?thesis by (simp add: tables_say_def)
next
  fix r r' assume r: "mem (root_slot root l) = Some r" "mem' (root_slot root l) = Some r'"
    "bit r' 1 = bit r 1" "bit r' 2 = bit r 2" "\<And>l. pointer_slot r' l = pointer_slot r l"
  show ?thesis
  proof (rule only_history_middle [OF oh, of r l])
    assume "mem (pointer_slot r l) = None" "mem' (pointer_slot r l) = None"
    then show ?thesis using r by (simp add: tables_say_def)
  next
    fix p p' assume p: "mem (pointer_slot r l) = Some p" "mem' (pointer_slot r l) = Some p'"
      "bit p' 1 = bit p 1" "bit p' 2 = bit p 2" "\<And>ps l. page_slot ps p' l = page_slot ps p l"
    show ?thesis
    proof (cases "bit r 1 \<and> bit p 1")
      case False
      then show ?thesis using r p by (auto simp: tables_say_def)
    next
      case True
      let ?s = "page_slot ps p l"
      have same: "same_word (mem a) (mem' a)" for a using oh by (simp add: only_history_def)
      show ?thesis
      proof (cases "mem ?s")
        case None
        then show ?thesis using True r p same [of ?s] by (simp add: tables_say_def same_word_None)
      next
        case (Some d)
        then obtain d' where d': "mem' ?s = Some d'" "without_history d' = without_history d"
          using same [of ?s] by (metis same_wordE)
        show ?thesis
        proof (cases "d AND 3 = 2")
          case ind: True
          then have "indirect_slot mem root ps l ?s" using True r p Some by (auto simp: indirect_slot_def)
          then have "d' = d" using oh root d' Some by (simp add: only_history_def)
          moreover have "(case mem' a of None \<Rightarrow> No_answer | Some e \<Rightarrow> leaf s wp e) =
              (case mem a of None \<Rightarrow> No_answer | Some e \<Rightarrow> leaf s wp e)" for a s wp
            using same [of a] by (cases "mem a"; cases "mem' a") (auto simp: same_word_None leaf_cong, simp add: same_word_def)
          ultimately show ?thesis using True r(1,2,5) p(1,2,5) Some d' ind unfolding tables_say_def r(3,4) p(3,4)
            by (simp only: option.case if_True if_False simp_thms r p d')
        next
          case False
          then have "\<not> d' AND 3 = 2" using slots_without_history(3) [OF d'(2)] by simp
          then show ?thesis
            using True r p Some d' False leaf_cong [of d d'] same [of ?s] by (simp add: tables_say_def)
        qed
      qed
    qed
  qed
qed

text \<open>Setting history bits in a word that is no indirect descriptor.\<close>

definition mark_history :: "bool \<Rightarrow> bool \<Rightarrow> u32 \<Rightarrow> u32" where
  "mark_history set_used set_modified d =
     (let d = (if set_used then d OR push_bit 3 1 else d)
      in if set_modified then d OR push_bit 4 1 else d)"

lemma bit_mark_history:
  "bit (mark_history u md d) n \<longleftrightarrow> bit d n \<or> u \<and> n = 3 \<or> md \<and> n = 4"
  unfolding mark_history_def Let_def bit_of_def [symmetric] by auto

lemma only_history_mark:
  assumes "mem t = Some w" and "\<And>root l. root \<in> roots \<Longrightarrow> \<not> indirect_slot mem root ps l t"
  shows "only_history roots ps mem (mem(t \<mapsto> mark_history u md w))"
  using assms by (auto simp: only_history_def same_word_def without_history_eq_iff bit_mark_history same_word_refl
    split: option.split)

section \<open>Answering what the tables say\<close>

definition page_frame :: "page_size40 \<Rightarrow> u32 \<Rightarrow> u32" where
  "page_frame ps d = d AND (if ps = PAGE_8K then 0xFFFFE000 else 0xFFFFF000)"

definition page_cache_mode :: "u32 \<Rightarrow> cache_mode40" where
  "page_cache_mode d = cache_mode_of (drop_bit 5 d AND 3)"

text \<open>A result that is the tables' answer, on a memory in which the page is marked used, and modified when
  the result says so and after every write the page permits.\<close>

definition agrees :: "'m search_config40 \<Rightarrow> u32 \<Rightarrow> tables_answer \<Rightarrow> words \<Rightarrow> search_result40 \<Rightarrow> bool" where
  "agrees cf l answer mem r =
     (case answer of
        No_answer \<Rightarrow> sx_status r = SEARCH_BUS_ERROR
      | Absent \<Rightarrow> sx_status r = SEARCH_INVALID
      | Page s wp d \<Rightarrow>
          sx_status r = SEARCH_RESIDENT \<and>
          sx_physical_address r = page_frame (cf_page_size cf) d OR page_offset40 l (cf_page_size cf) \<and>
          sx_write_protect r = (wp \<or> bit d 2) \<and> sx_supervisor r = bit d 7 \<and>
          sx_cache_mode r = page_cache_mode d \<and> sx_global r = bit d 10 \<and>
          sx_user_attribute_0 r = bit d 8 \<and> sx_user_attribute_1 r = bit d 9 \<and>
          (\<exists>w. mem s = Some w \<and> bit w 3 \<and> sx_modified r = bit w 4 \<and>
            (cf_write cf \<and> \<not> (wp \<or> bit d 2) \<and> \<not> (bit d 7 \<and> \<not> cf_supervisor cf) \<longrightarrow> bit w 4)))"

lemma frame_without_history:
  "page_frame ps (without_history d) = page_frame ps d" "page_cache_mode (without_history d) = page_cache_mode d"
proof -
  show "page_frame ps (without_history d) = page_frame ps d"
    by (simp add: page_frame_def without_history_and [OF without_history_twice] masks_free)
  have "drop_bit 5 (without_history d) AND 3 = drop_bit 5 d AND 3"
    by (simp add: u32_eq_iff bit_low_two bit_drop_bit_eq)
  then show "page_cache_mode (without_history d) = page_cache_mode d" by (simp add: page_cache_mode_def)
qed

section \<open>A memory for the search\<close>

lemma drop_third: "A \<and> B \<and> C \<and> D \<Longrightarrow> A \<and> B \<and> D" and take_third: "A \<and> B \<and> C \<and> D \<Longrightarrow> C"
  by blast+

locale descriptor_memory =
  fixes fetch :: "'m fetch40" and update :: "'m update40" and words :: "'m \<Rightarrow> words" and good :: "'m \<Rightarrow> bool"
  assumes fetch_word: "good m \<Longrightarrow> a AND 3 = 0 \<Longrightarrow> fst (fetch a m) = words m a"
    and fetch_quiet: "good m \<Longrightarrow> a AND 3 = 0 \<Longrightarrow> good (snd (fetch a m)) \<and> words (snd (fetch a m)) = words m"
    and update_word: "good m \<Longrightarrow> a AND 3 = 0 \<Longrightarrow> words m a = Some w \<Longrightarrow> update a u md l m = (ok, m') \<Longrightarrow>
      ok \<and> good m' \<and> words m' = (words m)(a \<mapsto> mark_history u md w)"
begin

lemma fetch_run:
  assumes "good m" "a AND 3 = 0"
  obtains m1 where "fetch a m = (words m a, m1)" "good m1" "words m1 = words m"
  using fetch_word [OF assms] fetch_quiet [OF assms] by (metis prod.collapse)

lemma history_run:
  assumes "good m" "a AND 3 = 0" "words m a = Some w"
    and "cf_update cf = Some update" "apply_history cf a u md (out, m) = (ok, out', m')"
  shows "ok \<and> good m' \<and> words m' = (if u \<or> md then (words m)(a \<mapsto> mark_history u md w) else words m) \<and>
    sx_write_protect out' = sx_write_protect out \<and> sx_supervisor out' = sx_supervisor out"
proof (cases "u \<or> md")
  case True
  obtain k m2 where up: "update a u md (u \<and> \<not> md) m = (k, m2)" by fastforce
  note facts = update_word [OF assms(1-3) up]
  have "apply_history cf a u md (out, m) = (k, (if u \<and> \<not> md then out\<lparr>sx_updates := sx_updates out + 1,
      sx_locked_updates := sx_locked_updates out + 1\<rparr> else out\<lparr>sx_updates := sx_updates out + 1\<rparr>), m2)"
    using True by (auto simp: apply_history_def assms(4) Let_def up)
  then show ?thesis using assms(5) facts True by auto
qed (use assms in \<open>simp add: apply_history_def\<close>)

lemma history_marks:
  assumes "words m a = Some w" "\<And>root l. root \<in> roots \<Longrightarrow> \<not> indirect_slot (words m) root ps l a"
    and "mem = (if u \<or> md then (words m)(a \<mapsto> mark_history u md w) else words m)"
  shows "only_history roots ps (words m) mem" "mem a = Some (mark_history u md w)"
  using only_history_mark [of "words m" a w roots ps u md] only_history_refl assms by (auto simp: mark_history_def)

lemma level_run:
  assumes m: "good m" "a AND 3 = 0" and cf: "cf_fetch cf = fetch" "cf_update cf = Some update"
    and slot: "\<And>root l. root \<in> roots \<Longrightarrow> \<not> indirect_slot (words m) root ps l a"
    and dec: "\<And>w. td_type (dec w) = UDT_INVALID \<longleftrightarrow> \<not> bit w 1" "\<And>w. td_write_protect (dec w) \<longleftrightarrow> bit w 2"
    and run: "table_level cf dec a (out, m) = (t, out', m')"
  shows "good m' \<and> only_history roots ps (words m) (words m') \<and> (\<forall>s. s \<noteq> a \<longrightarrow> words m' s = words m s) \<and>
    (case words m a of None \<Rightarrow> t = None \<and> sx_status out' = SEARCH_BUS_ERROR
     | Some w \<Rightarrow> if \<not> bit w 1 then t = None \<and> sx_status out' = SEARCH_INVALID
         else t = Some (td_address (dec w)) \<and> sx_supervisor out' = sx_supervisor out \<and>
           sx_write_protect out' = (sx_write_protect out \<or> bit w 2))"
proof -
  obtain m1 where f: "fetch a m = (words m a, m1)" "good m1" "words m1 = words m" using fetch_run [OF m] .
  show ?thesis
  proof (cases "words m a")
    case None
    then have "t = None" "out' = out\<lparr>sx_status := SEARCH_BUS_ERROR\<rparr>" "m' = m1"
      using run f by (simp_all add: table_level_def cf)
    then show ?thesis using None f only_history_refl by simp
  next
    case (Some w)
    let ?out = "out\<lparr>sx_fetches := sx_fetches out + 1\<rparr>"
    obtain ok o1 m2 where h: "apply_history cf a (\<not> td_used (dec w)) False (?out, m1) = (ok, o1, m2)"
      by (metis prod_cases3)
    note hr = history_run [OF f(2) m(2) _ cf(2) h, of w]
    have w1: "words m1 a = Some w" using f Some by simp
    note hr = hr [OF this]
    note marks = history_marks [where u = "\<not> td_used (dec w)" and md = False, OF w1, of roots ps "words m2"]
    have run: "(if \<not> bit w 1 then (None, ?out\<lparr>sx_status := SEARCH_INVALID\<rparr>, m1)
        else if \<not> ok then (None, o1\<lparr>sx_status := SEARCH_BUS_ERROR\<rparr>, m2)
        else (Some (td_address (dec w)), o1\<lparr>sx_write_protect := sx_write_protect o1 \<or> td_write_protect (dec w)\<rparr>, m2)) =
        (t, out', m')"
      using run unfolding table_level_def prod.case cf f Some option.case Let_def dec h .
    show ?thesis
    proof (cases "bit w 1")
      case True
      then have "t = Some (td_address (dec w))" "m' = m2"
        "out' = o1\<lparr>sx_write_protect := sx_write_protect o1 \<or> td_write_protect (dec w)\<rparr>" using run hr by auto
      moreover have "only_history roots ps (words m) (words m2)" using marks(1) slot hr f(3) by simp
      ultimately show ?thesis using True Some hr f(3) by (simp add: dec)
    next
      case False
      then show ?thesis using run Some f only_history_refl by auto
    qed
  qed
qed

lemma finish_run:
  assumes m: "good m" "s AND 3 = 0" "words m s = Some w" "bit w 0"
    and cf: "cf_update cf = Some update" and out: "\<not> sx_supervisor out"
    and run: "finish_search cf l s (page_descriptor_of w (cf_page_size cf)) (out, m) = (r, m')"
  shows "good m' \<and> only_history roots ps (words m) (words m') \<and> (\<forall>t. t \<noteq> s \<longrightarrow> words m' t = words m t) \<and>
    agrees cf l (leaf s (sx_write_protect out) w) (words m') r"
proof -
  let ?wp = "sx_write_protect out \<or> bit w 2" and ?v = "bit w 7 \<and> \<not> cf_supervisor cf"
  let ?u = "\<not> bit w 3" and ?md = "cf_write cf \<and> \<not> bit w 4 \<and> \<not> ?wp \<and> \<not> ?v"
  have type: "decode_pdt w = PDT_RESIDENT" using m(4) by (simp add: pdt_bits)
  obtain ok o1 m1 where h: "apply_history cf s ?u ?md (out, m) = (ok, o1, m1)" by (metis prod_cases3)
  note hr = history_run [OF m(1-3) cf h]
  have "w AND 3 \<noteq> 2" using m(4) by (auto simp: low_bit_odd)
  then have free: "\<not> indirect_slot (words m) root ps l s" for root l using m(3) by (auto simp: indirect_slot_def)
  note marks = history_marks [OF m(3), of roots ps "words m1" ?u ?md]
  have oh: "only_history roots ps (words m) (words m1)" "words m1 s = Some (mark_history ?u ?md w)"
    using marks free hr by simp_all
  have r: "r = o1\<lparr>sx_status := SEARCH_RESIDENT,
      sx_physical_address := page_frame (cf_page_size cf) w OR page_offset40 l (cf_page_size cf),
      sx_write_protect := ?wp, sx_supervisor := bit w 7, sx_cache_mode := page_cache_mode w,
      sx_modified := bit w 4 \<or> ?md, sx_global := bit w 10, sx_user_attribute_0 := bit w 8,
      sx_user_attribute_1 := bit w 9\<rparr>" and m': "m' = m1"
    using run h hr out unfolding finish_search_def Let_def prod.case
    by (auto simp: page_bits cf type page_frame_def page_cache_mode_def)
  show ?thesis
    using oh hr m(4) unfolding r m' agrees_def leaf_def
    by (auto simp: frame_without_history bit_mark_history)
qed

lemma page_run:
  assumes m: "good m" "a AND 3 = 0" and cf: "cf_fetch cf = fetch" "cf_update cf = Some update"
    and out: "\<not> sx_supervisor out" and run: "page_level cf l a (out, m) = (r, m')"
  shows "good m' \<and> only_history roots ps (words m) (words m') \<and>
    (\<forall>t. t \<noteq> a \<and> (\<forall>d. words m a = Some d \<and> d AND 3 = 2 \<longrightarrow> t \<noteq> d AND 0xFFFFFFFC) \<longrightarrow> words m' t = words m t) \<and>
    agrees cf l (case words m a of None \<Rightarrow> No_answer
      | Some d \<Rightarrow> if d AND 3 = 2
          then case words m (d AND 0xFFFFFFFC) of None \<Rightarrow> No_answer
            | Some e \<Rightarrow> leaf (d AND 0xFFFFFFFC) (sx_write_protect out) e
          else leaf a (sx_write_protect out) d) (words m') r"
proof -
  obtain m1 where f: "fetch a m = (words m a, m1)" "good m1" "words m1 = words m" using fetch_run [OF m] .
  show ?thesis
  proof (cases "words m a")
    case None
    then show ?thesis using run f only_history_refl by (auto simp: page_level_def cf agrees_def)
  next
    case (Some d)
    let ?out = "out\<lparr>sx_fetches := sx_fetches out + 1\<rparr>"
    show ?thesis
    proof (cases "decode_pdt d")
      case PDT_INVALID
      then have "d AND 3 \<noteq> 2" "\<not> bit d 0" using pdt_bits [of d] by auto
      then show ?thesis
        using run f Some PDT_INVALID only_history_refl
        by (auto simp: page_level_def cf Let_def page_bits agrees_def leaf_def)
    next
      case PDT_RESIDENT
      then have d: "d AND 3 \<noteq> 2" "bit d 0" using pdt_bits [of d] by auto
      have "finish_search cf l a (page_descriptor_of d (cf_page_size cf)) (?out, m1) = (r, m')"
        using run f Some PDT_RESIDENT by (simp add: page_level_def cf Let_def page_bits)
      from finish_run [OF f(2) m(2) _ d(2) cf(2) _ this] f(3) Some d(1) out show ?thesis by simp
    next
      case PDT_INDIRECT
      then have d: "d AND 3 = 2" using pdt_bits [of d] by auto
      let ?s = "d AND 0xFFFFFFFC"
      have s: "pd_address (page_descriptor_of d (cf_page_size cf)) = ?s" using PDT_INDIRECT by (simp add: page_bits)
      obtain m2 where g: "fetch ?s m1 = (words m1 ?s, m2)" "good m2" "words m2 = words m1"
        using fetch_run [OF f(2) slots_aligned(4)] .
      show ?thesis
      proof (cases "words m ?s")
        case None
        then show ?thesis
          using run f g d Some PDT_INDIRECT only_history_refl
          by (auto simp: page_level_def cf Let_def page_bits agrees_def s)
      next
        case e: (Some e)
        let ?out2 = "?out\<lparr>sx_fetches := sx_fetches ?out + 1, sx_indirect := True\<rparr>"
        show ?thesis
        proof (cases "bit e 0")
          case True
          then have "finish_search cf l ?s (page_descriptor_of e (cf_page_size cf)) (?out2, m2) = (r, m')"
            using run f g Some PDT_INDIRECT e
            by (simp add: page_level_def cf Let_def page_bits s pdt_bits)
          from finish_run [OF g(2) slots_aligned(4) _ True cf(2) _ this] f(3) g(3) Some d e out show ?thesis by simp
        next
          case False
          then show ?thesis
            using run f g d Some PDT_INDIRECT e only_history_refl
            by (auto simp: page_level_def cf Let_def page_bits s pdt_bits agrees_def leaf_def)
        qed
      qed
    qed
  qed
qed

text \<open>A search answers what the tables say, and leaves what they say of every address as it was.\<close>

lemma search_answers:
  assumes m: "good m" and cf: "cf_fetch cf = fetch" "cf_update cf = Some update"
    and tables: "apart roots (cf_page_size cf) (words m)" "cf_root_pointer cf \<in> roots"
    and run: "search40 cf l m = (r, m')"
  shows "good m' \<and> only_history roots (cf_page_size cf) (words m) (words m') \<and>
    (\<forall>s. \<not> reads_slot (words m) (cf_root_pointer cf) (cf_page_size cf) l s \<longrightarrow> words m' s = words m s) \<and>
    agrees cf l (tables_say (words m) (cf_root_pointer cf) (cf_page_size cf) l) (words m') r"
proof -
  let ?root = "cf_root_pointer cf" and ?ps = "cf_page_size cf"
  let ?a = "root_slot ?root l" and ?oh = "only_history roots (cf_page_size cf)"
  have a: "(?root AND ROOT_POINTER_MASK) OR (root_index l * 4) = ?a" by (simp add: root_slot_def ROOT_POINTER_MASK_def)
  obtain t o1 m1 where t: "table_level cf root_descriptor ?a (search_start, m) = (t, o1, m1)" by (metis prod_cases3)
  have free: "\<not> indirect_slot (words m) root' ?ps l' ?a" if "root' \<in> roots" for root' l'
    using tables that unfolding apart_def table_slot_def by blast
  note one0 = level_run [OF m slots_aligned(1) cf free type_bits(1,5) t]
  note one = drop_third [OF one0]
  have off1: "words m1 s = words m s" if "\<not> reads_slot (words m) ?root ?ps l s" for s
    using take_third [OF one0] that by (auto simp: reads_slot_def table_slot_def)
  show ?thesis
  proof (cases "words m ?a")
    case None
    then have "r = o1" "m' = m1" "t = None" using run one by (auto simp: search40_def a t)
    then show ?thesis using one off1 None by (simp add: tables_say_def agrees_def)
  next
    case (Some w)
    show ?thesis
    proof (cases "bit w 1")
      case False
      then have "r = o1" "m' = m1" using run one Some by (auto simp: search40_def a t)
      then show ?thesis using one off1 Some False by (simp add: tables_say_def agrees_def)
    next
      case True
      let ?b = "pointer_slot w l"
      have w: "t = Some (w AND 0xFFFFFE00)" "\<not> sx_supervisor o1" "sx_write_protect o1 = bit w 2"
        and oh1: "good m1" "?oh (words m) (words m1)"
        using one Some True by (simp_all add: type_bits search_start_def)
      have b: "(w AND 0xFFFFFE00) OR (pointer_index l * 4) = ?b" by (simp add: pointer_slot_def)
      obtain u o2 m2 where u: "table_level cf (\<lambda>raw. pointer_descriptor raw ?ps) ?b (o1, m1) = (u, o2, m2)"
        by (metis prod_cases3)
      have "table_slot (words m) ?root l ?b" using Some True by (auto simp: table_slot_def)
      then have free: "\<not> indirect_slot (words m1) root' ?ps l' ?b" if "root' \<in> roots" for root' l'
        unfolding only_history_slots(2) [OF oh1(2)] using tables that unfolding apart_def by blast
      note two0 = level_run [OF oh1(1) slots_aligned(2) cf free type_bits(2,6) u]
      note two = drop_third [OF two0]
      have off2: "words m2 s = words m s" if "\<not> reads_slot (words m) ?root ?ps l s" for s
        using take_third [OF two0] off1 [OF that] that Some True by (auto simp: reads_slot_def table_slot_def)
      have "same_word (words m ?b) (words m1 ?b)" using oh1(2) by (simp add: only_history_def)
      then have two_word: "words m1 ?b = None \<longleftrightarrow> words m ?b = None"
        "\<And>p. words m ?b = Some p \<Longrightarrow> \<exists>p'. words m1 ?b = Some p' \<and> without_history p' = without_history p"
        by (auto simp: same_word_def split: option.splits)
      show ?thesis
      proof (cases "words m ?b")
        case None
        then have "r = o2" "m' = m2" using run two two_word w by (auto simp: search40_def a t b u)
        moreover have "?oh (words m) (words m2)" using two oh1(2) only_history_trans by blast
        ultimately show ?thesis using two off2 two_word Some True None by (simp add: tables_say_def agrees_def)
      next
        case p0: (Some p)
        then obtain p' where p': "words m1 ?b = Some p'" "without_history p' = without_history p" using two_word by blast
        note same = without_history_bit [OF p'(2)] slots_without_history(2) [OF p'(2)]
        have oh2: "?oh (words m) (words m2)" using two oh1(2) only_history_trans by blast
        show ?thesis
        proof (cases "bit p 1")
          case False
          then have "r = o2" "m' = m2" using run two p' w same by (auto simp: search40_def a t b u)
          then show ?thesis using two off2 p' oh2 Some True p0 False same by (simp add: tables_say_def agrees_def)
        next
          case bit1: True
          let ?c = "page_slot ?ps p l"
          have c: "u = Some (p' AND (if ?ps = PAGE_8K then 0xFFFFFF80 else 0xFFFFFF00))" "\<not> sx_supervisor o2"
            "sx_write_protect o2 = (bit w 2 \<or> bit p 2)" "good m2"
            using two p' bit1 w same by (simp_all add: type_bits)
          have slot: "(p' AND (if ?ps = PAGE_8K then 0xFFFFFF80 else 0xFFFFFF00)) OR (page_index l ?ps * 4) = ?c"
            unfolding same(2) [symmetric] by (simp add: page_slot_def)
          have "page_level cf l ?c (o2, m2) = (r, m')"
            using run w(1) c(1) slot by (simp add: search40_def a t b u)
          note three0 = page_run [OF c(4) slots_aligned(3) cf c(2) this, of roots ?ps]
          note three = drop_third [OF three0]
          have ind: "words m ?c = Some d" if d: "words m2 ?c = Some d" "d AND 3 = 2" for d
          proof -
            have same: "same_word (words m ?c) (words m2 ?c)" using oh2 by (simp add: only_history_def)
            have "\<exists>e. words m ?c = Some e \<and> e AND 3 = 2" using same_word_type [OF same] d by blast
            then have "indirect_slot (words m) ?root ?ps l ?c" using Some True p0 bit1 by (auto simp: indirect_slot_def)
            then have "words m2 ?c = words m ?c" using oh2 tables(2) by (simp add: only_history_def)
            then show ?thesis using d(1) by simp
          qed
          have off3: "words m' s = words m s" if off: "\<not> reads_slot (words m) ?root ?ps l s" for s
          proof -
            have "s \<noteq> ?c" "\<forall>d. words m2 ?c = Some d \<and> d AND 3 = 2 \<longrightarrow> s \<noteq> d AND 0xFFFFFFFC"
              using off Some True p0 bit1 ind unfolding reads_slot_def by blast+
            then show ?thesis using take_third [OF three0] off2 [OF off] by simp
          qed
          have "tables_say (words m) ?root ?ps l = tables_say (words m2) ?root ?ps l"
            using only_history_says [OF oh2 tables(2)] by simp
          also have "\<dots> = (case words m2 ?c of None \<Rightarrow> No_answer
              | Some d \<Rightarrow> if d AND 3 = 2
                  then case words m2 (d AND 0xFFFFFFFC) of None \<Rightarrow> No_answer
                    | Some e \<Rightarrow> leaf (d AND 0xFFFFFFFC) (sx_write_protect o2) e
                  else leaf ?c (sx_write_protect o2) d)"
          proof (rule only_history_upper [OF oh2, of ?root l])
            fix r r2 assume r: "words m ?a = Some r" "words m2 ?a = Some r2" "bit r2 1 = bit r 1"
              "bit r2 2 = bit r 2" "\<And>l. pointer_slot r2 l = pointer_slot r l"
            then have rw: "r = w" using Some by simp
            show ?thesis
            proof (rule only_history_middle [OF oh2, of w l])
              fix q q2 assume q: "words m ?b = Some q" "words m2 ?b = Some q2" "bit q2 1 = bit q 1"
                "bit q2 2 = bit q 2" "\<And>ps l. page_slot ps q2 l = page_slot ps q l"
              then have "q = p" using p0 by simp
              then show ?thesis using r q True bit1 by (simp add: tables_say_def rw c(3) cong: option.case_cong if_cong)
            qed (simp add: p0)
          qed (simp add: Some)
          finally have "agrees cf l (tables_say (words m) ?root ?ps l) (words m') r" "good m'" "?oh (words m) (words m')"
            using three oh2 only_history_trans by metis+
          then show ?thesis using off3 by simp
        qed
      qed
    qed
  qed
qed

end

end
