(* ===== verification/M68040_Atc.thy ===== *)
theory M68040_Atc
  imports M68040_Regs Translation_Cache
begin

unbundle bit_operations_syntax

text \<open>
  An address translation cache of the MC68040, \<^verbatim>\<open>src/core/cpu/m68040/ap_m68040_atc.{h,c}\<close>: sixteen sets
  of four ways with one replacement counter, as a list of lists of entries. The lookup, the choice of
  a way, the fill, the counter and the three flushes.

  The interpretation \<open>atc40\<close> discharges the contract of a translation cache for it, the contract the
  MC68030's fully associative cache discharges too.
\<close>

section \<open>Entries and operations\<close>

definition ATC40_SETS :: nat where "ATC40_SETS = 16"
definition ATC40_WAYS :: nat where "ATC40_WAYS = 4"

record atc_entry40 =
  e4_valid :: bool
  e4_global :: bool
  e4_supervisor_space :: bool
  e4_logical_tag :: u32
  e4_user_attribute_1 :: bool
  e4_user_attribute_0 :: bool
  e4_supervisor :: bool
  e4_cache_mode :: cache_mode40
  e4_modified :: bool
  e4_write_protect :: bool
  e4_resident :: bool
  e4_physical_address :: u32

record m68040_atc =
  a4_entry :: "atc_entry40 list list"
  a4_counter :: u32

definition zero_entry40 :: atc_entry40 where
  "zero_entry40 = \<lparr>e4_valid = False, e4_global = False, e4_supervisor_space = False, e4_logical_tag = 0,
     e4_user_attribute_1 = False, e4_user_attribute_0 = False, e4_supervisor = False,
     e4_cache_mode = CM_WRITE_THROUGH, e4_modified = False, e4_write_protect = False, e4_resident = False,
     e4_physical_address = 0\<rparr>"

definition atc40_init :: m68040_atc where
  "atc40_init = \<lparr>a4_entry = replicate ATC40_SETS (replicate ATC40_WAYS zero_entry40), a4_counter = 0\<rparr>"

definition page_number :: "u32 \<Rightarrow> page_size40 \<Rightarrow> u32" where
  "page_number l ps = drop_bit (if ps = PAGE_8K then 13 else 12) l"

definition atc40_set :: "u32 \<Rightarrow> page_size40 \<Rightarrow> nat" where
  "atc40_set l ps = unat (page_number l ps AND 0xF)"

definition atc40_tag :: "u32 \<Rightarrow> page_size40 \<Rightarrow> u32" where
  "atc40_tag l ps = drop_bit 4 (page_number l ps)"

definition entry40 :: "m68040_atc \<Rightarrow> nat \<Rightarrow> nat \<Rightarrow> atc_entry40" where
  "entry40 c s w = a4_entry c ! s ! w"

definition set_entry40 :: "nat \<Rightarrow> nat \<Rightarrow> atc_entry40 \<Rightarrow> m68040_atc \<Rightarrow> m68040_atc" where
  "set_entry40 s w e c = c\<lparr>a4_entry := (a4_entry c)[s := (a4_entry c ! s)[w := e]]\<rparr>"

definition holds40 :: "bool \<Rightarrow> u32 \<Rightarrow> atc_entry40 \<Rightarrow> bool" where
  "holds40 sv tag e \<longleftrightarrow> e4_valid e \<and> e4_logical_tag e = tag \<and> e4_supervisor_space e = sv"

definition atc40_lookup :: "m68040_atc \<Rightarrow> u32 \<Rightarrow> bool \<Rightarrow> page_size40 \<Rightarrow> nat" where
  "atc40_lookup c l sv ps =
     (case find (\<lambda>w. holds40 sv (atc40_tag l ps) (entry40 c (atc40_set l ps) w)) [0..<ATC40_WAYS] of
        Some w \<Rightarrow> w | None \<Rightarrow> ATC40_WAYS)"

definition atc40_select_way :: "m68040_atc \<Rightarrow> u32 \<Rightarrow> bool \<Rightarrow> page_size40 \<Rightarrow> nat" where
  "atc40_select_way c l sv ps =
     (let held = atc40_lookup c l sv ps in
      if held < ATC40_WAYS then held
      else case find (\<lambda>w. \<not> e4_valid (entry40 c (atc40_set l ps) w)) [0..<ATC40_WAYS] of
             Some w \<Rightarrow> w | None \<Rightarrow> unat (a4_counter c AND 3))"

definition atc40_tick :: "m68040_atc \<Rightarrow> m68040_atc" where
  "atc40_tick c = c\<lparr>a4_counter := (a4_counter c + 1) AND 3\<rparr>"

definition atc40_fill :: "nat \<Rightarrow> u32 \<Rightarrow> page_size40 \<Rightarrow> atc_entry40 \<Rightarrow> m68040_atc \<Rightarrow> m68040_atc" where
  "atc40_fill way l ps e c =
     set_entry40 (atc40_set l ps) (way mod 4) (e\<lparr>e4_valid := True, e4_logical_tag := atc40_tag l ps\<rparr>) c"

definition atc40_flush_all :: "m68040_atc \<Rightarrow> m68040_atc" where
  "atc40_flush_all c = c\<lparr>a4_entry := map (map (\<lambda>e. e\<lparr>e4_valid := False\<rparr>)) (a4_entry c)\<rparr>"

definition atc40_flush_nonglobal :: "bool \<Rightarrow> m68040_atc \<Rightarrow> m68040_atc" where
  "atc40_flush_nonglobal sv c = c\<lparr>a4_entry := map (map (\<lambda>e.
     if \<not> e4_valid e \<or> e4_supervisor_space e \<noteq> sv then e
     else if e4_global e then e else e\<lparr>e4_valid := False\<rparr>)) (a4_entry c)\<rparr>"

definition atc40_flush_page :: "u32 \<Rightarrow> bool \<Rightarrow> page_size40 \<Rightarrow> bool \<Rightarrow> m68040_atc \<Rightarrow> m68040_atc" where
  "atc40_flush_page l sv ps nonglobal_only c =
     (let way = atc40_lookup c l sv ps; s = atc40_set l ps in
      if way \<ge> ATC40_WAYS then c
      else if nonglobal_only \<and> e4_global (entry40 c s way) then c
      else set_entry40 s way ((entry40 c s way)\<lparr>e4_valid := False\<rparr>) c)"

section \<open>Well-formed caches\<close>

text \<open>The sets and ways of the array, and in no set two valid entries with one tag and one space.\<close>

definition wf_atc40 :: "m68040_atc \<Rightarrow> bool" where
  "wf_atc40 c \<longleftrightarrow> length (a4_entry c) = 16 \<and> (\<forall>s < 16. length (a4_entry c ! s) = 4) \<and>
     (\<forall>s < 16. \<forall>v < 4. \<forall>w < 4. \<forall>sv tag.
        holds40 sv tag (entry40 c s v) \<longrightarrow> holds40 sv tag (entry40 c s w) \<longrightarrow> v = w)"

lemmas atc40_sizes = ATC40_SETS_def ATC40_WAYS_def

lemma atc40_set_less [simp]: "atc40_set l ps < 16"
proof -
  have "unat (page_number l ps AND 0xF) = unat (take_bit 4 (page_number l ps))" by (simp add: and_mask_literals)
  also have "\<dots> < 2 ^ 4" using take_bit_self_iff [of 4 "take_bit 4 (page_number l ps)"] by simp
  finally show ?thesis by (simp add: atc40_set_def)
qed

lemma page_number_parts:
  assumes "atc40_set l ps = atc40_set l' ps" and "atc40_tag l ps = atc40_tag l' ps"
  shows "page_number l ps = page_number l' ps"
proof -
  let ?n = "page_number l ps" and ?n' = "page_number l' ps"
  have "take_bit 4 ?n = take_bit 4 ?n'"
    using assms(1) unfolding atc40_set_def and_mask_literals by (rule word_unat_eq_iff [THEN iffD2])
  moreover have "push_bit 4 (drop_bit 4 ?n) = push_bit 4 (drop_bit 4 ?n')" using assms(2) by (simp add: atc40_tag_def)
  ultimately show ?thesis by (metis bits_ident)
qed

lemma find_way:
  "find P [0..<4] = Some w \<Longrightarrow> w < 4 \<and> P w" "find P [0..<4] = None \<Longrightarrow> w < 4 \<Longrightarrow> \<not> P w" for P :: "nat \<Rightarrow> bool"
  by (auto simp: find_Some_iff find_None_iff)

lemma lookup40_hit:
  assumes "atc40_lookup c l sv ps < 4"
  shows "holds40 sv (atc40_tag l ps) (entry40 c (atc40_set l ps) (atc40_lookup c l sv ps))"
  using assms find_way(1) by (auto simp: atc40_lookup_def atc40_sizes split: option.splits)

lemma lookup40_miss:
  assumes "\<not> atc40_lookup c l sv ps < 4" and "w < 4"
  shows "\<not> holds40 sv (atc40_tag l ps) (entry40 c (atc40_set l ps) w)"
proof (cases "find (\<lambda>w. holds40 sv (atc40_tag l ps) (entry40 c (atc40_set l ps) w)) [0..<4]")
  case None
  from find_way(2) [OF this assms(2)] show ?thesis .
next
  case (Some v)
  then show ?thesis using assms(1) find_way(1) [OF Some] by (simp add: atc40_lookup_def atc40_sizes)
qed

lemma lookup40_at:
  assumes "wf_atc40 c" "w < 4" "holds40 sv (atc40_tag l ps) (entry40 c (atc40_set l ps) w)"
  shows "atc40_lookup c l sv ps = w"
proof -
  have "atc40_lookup c l sv ps < 4" using lookup40_miss assms by blast
  then show ?thesis using lookup40_hit assms atc40_set_less unfolding wf_atc40_def by blast
qed

lemma select_way_less: "atc40_select_way c l sv ps < 4"
proof -
  have "unat (a4_counter c AND 3) \<le> unat (3 :: u32)" by (rule word_le_nat_alt [THEN iffD1, OF word_and_le1])
  then show ?thesis
    using find_way(1) by (auto simp: atc40_select_way_def Let_def atc40_sizes split: option.split)
qed

lemma select_way_held:
  assumes "wf_atc40 c" "w < 4" "holds40 sv (atc40_tag l ps) (entry40 c (atc40_set l ps) w)"
  shows "atc40_select_way c l sv ps = w"
  using lookup40_at [OF assms] assms(2) by (simp add: atc40_select_way_def atc40_sizes)

lemma entry40_set:
  assumes "wf_atc40 c" "s < 16" "w < 4" "s' < 16" "w' < 4"
  shows "entry40 (set_entry40 s w e c) s' w' = (if s' = s \<and> w' = w then e else entry40 c s' w')"
  using assms by (auto simp: entry40_def set_entry40_def wf_atc40_def nth_list_update)

lemma set_entry40_lengths:
  assumes "length (a4_entry c) = 16 \<and> (\<forall>s < 16. length (a4_entry c ! s) = 4)"
  shows "length (a4_entry (set_entry40 s w e c)) = 16 \<and> (\<forall>s' < 16. length (a4_entry (set_entry40 s w e c) ! s') = 4)"
  using assms by (cases "s < 16") (auto simp: set_entry40_def nth_list_update)

text \<open>An entry may be replaced by one that no other way of its set holds.\<close>

lemma wf_set_entry40:
  assumes wf: "wf_atc40 c" "s < 16" "w < 4"
    and free: "\<And>sv tag v. holds40 sv tag e \<Longrightarrow> v < 4 \<Longrightarrow> v \<noteq> w \<Longrightarrow> \<not> holds40 sv tag (entry40 c s v)"
  shows "wf_atc40 (set_entry40 s w e c)"
proof -
  have "v = u" if "t < 16" "v < 4" "u < 4" "holds40 sv tag (entry40 (set_entry40 s w e c) t v)"
    "holds40 sv tag (entry40 (set_entry40 s w e c) t u)" for t v u sv tag
  proof (cases "t = s")
    case True
    then show ?thesis
      using that free [of sv tag u] free [of sv tag v] wf unfolding entry40_set [OF wf that(1,2)] entry40_set [OF wf that(1,3)]
      by (auto simp: wf_atc40_def split: if_splits)
  next
    case False
    then show ?thesis
      using that wf unfolding entry40_set [OF wf that(1,2)] entry40_set [OF wf that(1,3)] by (auto simp: wf_atc40_def)
  qed
  then show ?thesis using wf set_entry40_lengths [of c s w e] unfolding wf_atc40_def by blast
qed

lemma wf_map40:
  assumes "wf_atc40 c" and "\<And>e. f e = e \<or> \<not> e4_valid (f e)"
  shows "wf_atc40 (c\<lparr>a4_entry := map (map f) (a4_entry c)\<rparr>)"
    and "s < 16 \<Longrightarrow> w < 4 \<Longrightarrow> entry40 (c\<lparr>a4_entry := map (map f) (a4_entry c)\<rparr>) s w = f (entry40 c s w)"
proof -
  show entry: "entry40 (c\<lparr>a4_entry := map (map f) (a4_entry c)\<rparr>) s w = f (entry40 c s w)" if "s < 16" "w < 4" for s w
    using assms(1) that by (simp add: wf_atc40_def entry40_def)
  have "holds40 sv tag (f e) \<Longrightarrow> holds40 sv tag e" for sv tag e
    using assms(2) [of e] by (auto simp: holds40_def)
  then show "wf_atc40 (c\<lparr>a4_entry := map (map f) (a4_entry c)\<rparr>)"
    using assms(1) entry unfolding wf_atc40_def by simp blast
qed

section \<open>The contract of a translation cache\<close>

text \<open>What an entry caches, whatever page it is filed under.\<close>

definition cached40 :: "atc_entry40 \<Rightarrow> atc_entry40" where
  "cached40 e = e\<lparr>e4_valid := False, e4_supervisor_space := False, e4_logical_tag := 0\<rparr>"

definition same40 :: "page_size40 \<Rightarrow> bool \<times> u32 \<Rightarrow> bool \<times> u32 \<Rightarrow> bool" where
  "same40 ps k k' \<longleftrightarrow> fst k = fst k' \<and> page_number (snd k) ps = page_number (snd k') ps"

definition probe40 :: "page_size40 \<Rightarrow> bool \<times> u32 \<Rightarrow> m68040_atc \<Rightarrow> atc_entry40 option" where
  "probe40 ps k c = (let w = atc40_lookup c (snd k) (fst k) ps
     in if w < ATC40_WAYS then Some (cached40 (entry40 c (atc40_set (snd k) ps) w)) else None)"

text \<open>The fill as the MMU makes it: into the selected way, then the counter's step.\<close>

definition load40 :: "page_size40 \<Rightarrow> bool \<times> u32 \<Rightarrow> atc_entry40 \<Rightarrow> m68040_atc \<Rightarrow> m68040_atc" where
  "load40 ps k e c = atc40_tick (atc40_fill (atc40_select_way c (snd k) (fst k) ps) (snd k) ps
     (e\<lparr>e4_supervisor_space := fst k\<rparr>) c)"

datatype flush40 = FlushAll | FlushNonglobal bool | FlushPage bool u32 bool

fun purge40 :: "page_size40 \<Rightarrow> flush40 \<Rightarrow> m68040_atc \<Rightarrow> m68040_atc" where
  "purge40 ps FlushAll c = atc40_flush_all c"
| "purge40 ps (FlushNonglobal sv) c = atc40_flush_nonglobal sv c"
| "purge40 ps (FlushPage sv l nonglobal_only) c = atc40_flush_page l sv ps nonglobal_only c"

fun selects40 :: "page_size40 \<Rightarrow> flush40 \<Rightarrow> bool \<times> u32 \<Rightarrow> atc_entry40 \<Rightarrow> bool" where
  "selects40 ps FlushAll k v \<longleftrightarrow> True"
| "selects40 ps (FlushNonglobal sv) k v \<longleftrightarrow> fst k = sv \<and> \<not> e4_global v"
| "selects40 ps (FlushPage sv l nonglobal_only) k v \<longleftrightarrow> same40 ps (sv, l) k \<and> \<not> (nonglobal_only \<and> e4_global v)"

lemma same40_iff: "same40 ps k k' \<longleftrightarrow> fst k = fst k' \<and> atc40_set (snd k) ps = atc40_set (snd k') ps \<and>
    atc40_tag (snd k) ps = atc40_tag (snd k') ps"
  using page_number_parts by (auto simp: same40_def atc40_set_def atc40_tag_def)

lemma probe40_iff:
  assumes "wf_atc40 c"
  shows "probe40 ps k c = Some v \<longleftrightarrow>
    (\<exists>w < 4. holds40 (fst k) (atc40_tag (snd k) ps) (entry40 c (atc40_set (snd k) ps) w) \<and>
      v = cached40 (entry40 c (atc40_set (snd k) ps) w))"
proof
  assume "probe40 ps k c = Some v"
  then show "\<exists>w < 4. holds40 (fst k) (atc40_tag (snd k) ps) (entry40 c (atc40_set (snd k) ps) w) \<and>
      v = cached40 (entry40 c (atc40_set (snd k) ps) w)"
    using lookup40_hit by (auto simp: probe40_def Let_def atc40_sizes split: if_splits)
next
  assume "\<exists>w < 4. holds40 (fst k) (atc40_tag (snd k) ps) (entry40 c (atc40_set (snd k) ps) w) \<and>
      v = cached40 (entry40 c (atc40_set (snd k) ps) w)"
  then obtain w where w: "w < 4" "holds40 (fst k) (atc40_tag (snd k) ps) (entry40 c (atc40_set (snd k) ps) w)"
    "v = cached40 (entry40 c (atc40_set (snd k) ps) w)" by blast
  from lookup40_at [OF assms w(1,2)] w show "probe40 ps k c = Some v" by (simp add: probe40_def atc40_sizes)
qed

text \<open>What a fill leaves in the ways of every set.\<close>

lemma fill40:
  fixes c l sv ps e
  assumes wf: "wf_atc40 c"
  defines "w \<equiv> atc40_select_way c l sv ps" and "new \<equiv> e\<lparr>e4_valid := True, e4_logical_tag := atc40_tag l ps\<rparr>"
  assumes sv: "e4_supervisor_space e = sv"
  shows "wf_atc40 (atc40_fill w l ps e c)"
    and "s < 16 \<Longrightarrow> v < 4 \<Longrightarrow> entry40 (atc40_fill w l ps e c) s v =
      (if s = atc40_set l ps \<and> v = w then new else entry40 c s v)"
    and "v < 4 \<Longrightarrow> v \<noteq> w \<Longrightarrow> \<not> holds40 sv (atc40_tag l ps) (entry40 c (atc40_set l ps) v)"
proof -
  have w: "w < 4" unfolding w_def by (rule select_way_less)
  show free: "v < 4 \<Longrightarrow> v \<noteq> w \<Longrightarrow> \<not> holds40 sv (atc40_tag l ps) (entry40 c (atc40_set l ps) v)" for v
    using select_way_held [OF wf] unfolding w_def by blast
  have fill: "atc40_fill w l ps e c = set_entry40 (atc40_set l ps) w new c"
    using w by (simp add: atc40_fill_def new_def)
  show "s < 16 \<Longrightarrow> v < 4 \<Longrightarrow> entry40 (atc40_fill w l ps e c) s v =
      (if s = atc40_set l ps \<and> v = w then new else entry40 c s v)"
    unfolding fill using entry40_set [OF wf atc40_set_less w] by simp
  show "wf_atc40 (atc40_fill w l ps e c)"
    unfolding fill by (rule wf_set_entry40 [OF wf atc40_set_less w]) (use free sv in \<open>auto simp: holds40_def new_def\<close>)
qed

lemma wf_tick40: "wf_atc40 (atc40_tick c) = wf_atc40 c" "entry40 (atc40_tick c) = entry40 c"
  by (auto simp: wf_atc40_def atc40_tick_def entry40_def fun_eq_iff)

lemma flush_page40:
  assumes wf: "wf_atc40 c"
  shows "wf_atc40 (atc40_flush_page l sv ps g c)"
    and "s < 16 \<Longrightarrow> w < 4 \<Longrightarrow> entry40 (atc40_flush_page l sv ps g c) s w =
      (let e = entry40 c s w in
       if s = atc40_set l ps \<and> holds40 sv (atc40_tag l ps) e \<and> \<not> (g \<and> e4_global e) then e\<lparr>e4_valid := False\<rparr> else e)"
proof -
  let ?s = "atc40_set l ps" and ?way = "atc40_lookup c l sv ps"
  have hit: "holds40 sv (atc40_tag l ps) (entry40 c ?s w) \<longleftrightarrow> w = ?way" if "?way < 4" "w < 4" for w
    using lookup40_at [OF wf that(2)] lookup40_hit [OF that(1)] by auto
  have miss: "\<not> holds40 sv (atc40_tag l ps) (entry40 c ?s w)" if "\<not> ?way < 4" "w < 4" for w
    using lookup40_miss that by blast
  have "wf_atc40 (set_entry40 ?s ?way ((entry40 c ?s ?way)\<lparr>e4_valid := False\<rparr>) c)" if "?way < 4"
    by (rule wf_set_entry40 [OF wf atc40_set_less that]) (simp add: holds40_def)
  then show "wf_atc40 (atc40_flush_page l sv ps g c)"
    using wf by (simp add: atc40_flush_page_def Let_def atc40_sizes)
  show "s < 16 \<Longrightarrow> w < 4 \<Longrightarrow> entry40 (atc40_flush_page l sv ps g c) s w =
      (let e = entry40 c s w in
       if s = ?s \<and> holds40 sv (atc40_tag l ps) e \<and> \<not> (g \<and> e4_global e) then e\<lparr>e4_valid := False\<rparr> else e)"
    using hit [of w] miss [of w] entry40_set [OF wf atc40_set_less [of l ps], of ?way s w]
    by (cases "?way < 4") (auto simp: atc40_flush_page_def Let_def atc40_sizes)
qed

lemma purge_entry40:
  assumes wf: "wf_atc40 c"
  shows "wf_atc40 (purge40 ps p c)"
    and "s < 16 \<Longrightarrow> w < 4 \<Longrightarrow> entry40 (purge40 ps p c) s w = entry40 c s w \<or>
      \<not> e4_valid (entry40 (purge40 ps p c) s w)"
    and "w < 4 \<Longrightarrow> holds40 (fst k) (atc40_tag (snd k) ps) (entry40 (purge40 ps p c) (atc40_set (snd k) ps) w) \<longleftrightarrow>
      holds40 (fst k) (atc40_tag (snd k) ps) (entry40 c (atc40_set (snd k) ps) w) \<and>
      \<not> selects40 ps p k (cached40 (entry40 c (atc40_set (snd k) ps) w))"
proof -
  have all: "wf_atc40 (purge40 ps p c) \<and>
    (s < 16 \<longrightarrow> w < 4 \<longrightarrow> (entry40 (purge40 ps p c) s w = entry40 c s w \<or> \<not> e4_valid (entry40 (purge40 ps p c) s w)) \<and>
      (s = atc40_set (snd k) ps \<longrightarrow>
        (holds40 (fst k) (atc40_tag (snd k) ps) (entry40 (purge40 ps p c) s w) \<longleftrightarrow>
         holds40 (fst k) (atc40_tag (snd k) ps) (entry40 c s w) \<and> \<not> selects40 ps p k (cached40 (entry40 c s w)))))"
    for s w k
  proof (cases p)
    case FlushAll
    note m = wf_map40 [OF wf, where f = "\<lambda>e. e\<lparr>e4_valid := False\<rparr>"]
    show ?thesis using m by (simp add: FlushAll atc40_flush_all_def holds40_def)
  next
    case (FlushNonglobal sv)
    define f where "f = (\<lambda>e :: atc_entry40. if \<not> e4_valid e \<or> e4_supervisor_space e \<noteq> sv then e
       else if e4_global e then e else e\<lparr>e4_valid := False\<rparr>)"
    have f: "holds40 u t (f e) \<longleftrightarrow> holds40 u t e \<and> \<not> (u = sv \<and> \<not> e4_global e)" "f e = e \<or> \<not> e4_valid (f e)" for u t e
      by (auto simp: f_def holds40_def split: if_splits)
    have m: "wf_atc40 (purge40 ps p c)" "t < 16 \<Longrightarrow> u < 4 \<Longrightarrow> entry40 (purge40 ps p c) t u = f (entry40 c t u)" for t u
      using wf_map40 [OF wf f(2)] by (simp_all add: FlushNonglobal atc40_flush_nonglobal_def f_def)
    show ?thesis using m f by (simp add: FlushNonglobal cached40_def)
  next
    case (FlushPage sv l g)
    have m: "wf_atc40 (purge40 ps p c)" "s < 16 \<Longrightarrow> w < 4 \<Longrightarrow> entry40 (purge40 ps p c) s w =
      (let e = entry40 c s w in
       if s = atc40_set l ps \<and> holds40 sv (atc40_tag l ps) e \<and> \<not> (g \<and> e4_global e) then e\<lparr>e4_valid := False\<rparr> else e)"
      using flush_page40 [OF wf] by (simp_all add: FlushPage)
    show ?thesis using m by (auto simp: FlushPage holds40_def cached40_def same40_iff Let_def split: if_splits)
  qed
  show "wf_atc40 (purge40 ps p c)" using all by blast
  show "s < 16 \<Longrightarrow> w < 4 \<Longrightarrow> entry40 (purge40 ps p c) s w = entry40 c s w \<or> \<not> e4_valid (entry40 (purge40 ps p c) s w)"
    using all by blast
  show "w < 4 \<Longrightarrow> holds40 (fst k) (atc40_tag (snd k) ps) (entry40 (purge40 ps p c) (atc40_set (snd k) ps) w) \<longleftrightarrow>
      holds40 (fst k) (atc40_tag (snd k) ps) (entry40 c (atc40_set (snd k) ps) w) \<and>
      \<not> selects40 ps p k (cached40 (entry40 c (atc40_set (snd k) ps) w))"
    using all atc40_set_less by blast
qed

lemma option_filtered:
  assumes "\<And>v. x = Some v \<longleftrightarrow> y = Some v \<and> \<not> P v"
  shows "x = (case y of None \<Rightarrow> None | Some v \<Rightarrow> if P v then None else Some v)"
proof (cases y)
  case None
  then show ?thesis using assms by (cases x) auto
next
  case (Some v)
  have "x = Some v \<longleftrightarrow> \<not> P v" and "x = Some u \<Longrightarrow> u = v" for u
    using assms [of v] assms [of u] Some by auto
  then show ?thesis using Some by (cases x) auto
qed

interpretation atc40: translation_cache wf_atc40 "same40 ps" "probe40 ps" "load40 ps" "purge40 ps" "selects40 ps" cached40
  for ps
proof unfold_locales
  fix c and k :: "bool \<times> u32" and v :: atc_entry40
  assume wf: "wf_atc40 c"
  let ?e = "v\<lparr>e4_supervisor_space := fst k\<rparr>"
  note fill = fill40 [OF wf, where e = ?e and sv = "fst k" and l = "snd k" and ps = ps, simplified]
  show inv: "wf_atc40 (load40 ps k v c)" using fill(1) by (simp add: load40_def wf_tick40)
  have entry: "s < 16 \<Longrightarrow> w < 4 \<Longrightarrow> entry40 (load40 ps k v c) s w =
      (if s = atc40_set (snd k) ps \<and> w = atc40_select_way c (snd k) (fst k) ps
       then ?e\<lparr>e4_valid := True, e4_logical_tag := atc40_tag (snd k) ps\<rparr> else entry40 c s w)" for s w
    using fill(2) by (simp add: load40_def wf_tick40)
  show "same40 ps k k' \<Longrightarrow> probe40 ps k' (load40 ps k v c) = Some (cached40 v)" for k'
    using select_way_less [of c "snd k" "fst k" ps]
    unfolding probe40_iff [OF inv] same40_iff
    by (intro exI [of _ "atc40_select_way c (snd k) (fst k) ps"]) (auto simp: entry holds40_def cached40_def)
  show "probe40 ps k' (load40 ps k v c) = None \<or> probe40 ps k' (load40 ps k v c) = probe40 ps k' c"
    if "\<not> same40 ps k k'" for k'
  proof (cases "probe40 ps k' (load40 ps k v c)")
    case (Some x)
    then obtain w where w: "w < 4"
      "holds40 (fst k') (atc40_tag (snd k') ps) (entry40 (load40 ps k v c) (atc40_set (snd k') ps) w)"
      "x = cached40 (entry40 (load40 ps k v c) (atc40_set (snd k') ps) w)" unfolding probe40_iff [OF inv] by blast
    have "entry40 (load40 ps k v c) (atc40_set (snd k') ps) w = entry40 c (atc40_set (snd k') ps) w"
      using w(2) that entry [OF atc40_set_less w(1)] unfolding same40_iff by (auto simp: holds40_def split: if_splits)
    then have "probe40 ps k' c = Some x" using w unfolding probe40_iff [OF wf] by auto
    then show ?thesis using Some by simp
  qed simp
next
  fix c s assume wf: "wf_atc40 c"
  show inv: "wf_atc40 (purge40 ps s c)" by (rule purge_entry40(1) [OF wf])
  fix k :: "bool \<times> u32"
  note p = purge_entry40 [OF wf, where p = s and ps = ps]
  show "probe40 ps k (purge40 ps s c) =
      (case probe40 ps k c of None \<Rightarrow> None | Some v \<Rightarrow> if selects40 ps s k v then None else Some v)"
  proof -
    have "probe40 ps k (purge40 ps s c) = Some v \<longleftrightarrow> probe40 ps k c = Some v \<and> \<not> selects40 ps s k v" for v
    proof
      assume "probe40 ps k (purge40 ps s c) = Some v"
      then obtain w where w: "w < 4"
        "holds40 (fst k) (atc40_tag (snd k) ps) (entry40 (purge40 ps s c) (atc40_set (snd k) ps) w)"
        "v = cached40 (entry40 (purge40 ps s c) (atc40_set (snd k) ps) w)" unfolding probe40_iff [OF inv] by blast
      have "entry40 (purge40 ps s c) (atc40_set (snd k) ps) w = entry40 c (atc40_set (snd k) ps) w"
        using p(2) [OF atc40_set_less [of "snd k" ps] w(1)] w(2) by (auto simp: holds40_def)
      then show "probe40 ps k c = Some v \<and> \<not> selects40 ps s k v"
        using w p(3) [OF w(1), of k] unfolding probe40_iff [OF wf] by auto
    next
      assume v: "probe40 ps k c = Some v \<and> \<not> selects40 ps s k v"
      then obtain w where w: "w < 4" "holds40 (fst k) (atc40_tag (snd k) ps) (entry40 c (atc40_set (snd k) ps) w)"
        "v = cached40 (entry40 c (atc40_set (snd k) ps) w)" unfolding probe40_iff [OF wf] by blast
      then have h: "holds40 (fst k) (atc40_tag (snd k) ps) (entry40 (purge40 ps s c) (atc40_set (snd k) ps) w)"
        using v p(3) [OF w(1), of k] by auto
      then have "entry40 (purge40 ps s c) (atc40_set (snd k) ps) w = entry40 c (atc40_set (snd k) ps) w"
        using p(2) [OF atc40_set_less [of "snd k" ps] w(1)] by (auto simp: holds40_def)
      then show "probe40 ps k (purge40 ps s c) = Some v" using w h unfolding probe40_iff [OF inv] by auto
    qed
    then show ?thesis by (rule option_filtered)
  qed
qed

lemma wf_atc40_init: "wf_atc40 atc40_init"
  by (simp add: wf_atc40_def atc40_init_def atc40_sizes entry40_def holds40_def zero_entry40_def)

lemma probe40_init: "probe40 ps k atc40_init = None"
proof (rule ccontr)
  assume "\<not> ?thesis"
  then obtain v where "probe40 ps k atc40_init = Some v" by blast
  then show False
    unfolding probe40_iff [OF wf_atc40_init]
    by (auto simp: atc40_init_def atc40_sizes entry40_def holds40_def zero_entry40_def)
qed

end
