(* ===== verification/M68040_Mmu.thy ===== *)
theory M68040_Mmu
  imports M68040_Tables M68040_Atc
begin

unbundle bit_operations_syntax

text \<open>
  The MC68040's MMU, \<^verbatim>\<open>src/core/cpu/m68040/ap_m68040_mmu.{h,c}\<close> and \<^verbatim>\<open>ap_m68040_ptest.{h,c}\<close>:
  transparent translation, the translation cache and the table search joined into one translation, and
  the \<^verbatim>\<open>PTEST\<close> instruction. The translation cache is threaded with the machine the callbacks work on.

  The reference is \<open>reference40\<close>: the registers and what the tables say, with no cache. Inside
  \<open>descriptor_memory\<close> every translation is shown to answer it, whatever translations came before, and every
  write it lets through to find its page marked used and modified in the tables.
\<close>

section \<open>Translation\<close>

record mmu_regs40 =
  mr_tc :: u32
  mr_ttr :: "u32 list"
  mr_urp :: u32
  mr_srp :: u32

datatype mmu_status40 = MMU_UNTRANSLATED | MMU_TRANSPARENT | MMU_TRANSLATED | MMU_FAULT

datatype mmu_reason40 = FAULT_NONE | FAULT_CACHED | FAULT_NOT_RESIDENT | FAULT_PROTECTION | FAULT_SEARCH_BUS

record mmu_result40 =
  rs_status :: mmu_status40
  rs_physical :: u32
  rs_cache_mode :: cache_mode40
  rs_fetches :: nat
  rs_filled :: bool
  rs_reason :: mmu_reason40

definition matching_ttr :: "mmu_regs40 \<Rightarrow> u32 \<Rightarrow> u32 \<Rightarrow> ttr40 option" where
  "matching_ttr regs logical function_code =
     (case find (\<lambda>i. ttr_matches (ttr_decode (mr_ttr regs ! i)) logical function_code) [0..<2] of
        None \<Rightarrow> None | Some i \<Rightarrow> Some (ttr_decode (mr_ttr regs ! i)))"

definition mmu_tcr :: "mmu_regs40 \<Rightarrow> tcr40" where
  "mmu_tcr regs = tcr_decode (ucast (mr_tc regs AND 0xFFFF))"

definition root_for :: "mmu_regs40 \<Rightarrow> bool \<Rightarrow> u32" where
  "root_for regs supervisor = (if supervisor then mr_srp regs else mr_urp regs)"

definition mmu_config :: "mmu_regs40 \<Rightarrow> bool \<Rightarrow> bool \<Rightarrow> 'm fetch40 \<Rightarrow> 'm update40 option \<Rightarrow> 'm search_config40" where
  "mmu_config regs write supervisor fetch update =
     \<lparr>cf_root_pointer = root_for regs supervisor, cf_page_size = tcr_page_size (mmu_tcr regs), cf_write = write,
      cf_supervisor = supervisor, cf_fetch = fetch, cf_update = update\<rparr>"

definition offset_mask40 :: "page_size40 \<Rightarrow> u32" where
  "offset_mask40 ps = (if ps = PAGE_8K then 0x1FFF else 0x0FFF)"

text \<open>The entry a completed search leaves, and the fill with it.\<close>

definition searched_entry :: "search_result40 \<Rightarrow> bool \<Rightarrow> u32 \<Rightarrow> page_size40 \<Rightarrow> atc_entry40" where
  "searched_entry r supervisor logical ps =
     \<lparr>e4_valid = True, e4_global = sx_global r, e4_supervisor_space = supervisor,
      e4_logical_tag = atc40_tag logical ps, e4_user_attribute_1 = sx_user_attribute_1 r,
      e4_user_attribute_0 = sx_user_attribute_0 r, e4_supervisor = sx_supervisor r,
      e4_cache_mode = sx_cache_mode r, e4_modified = sx_modified r, e4_write_protect = sx_write_protect r,
      e4_resident = (sx_status r = SEARCH_RESIDENT),
      e4_physical_address = sx_physical_address r AND NOT (offset_mask40 ps)\<rparr>"

definition fill_searched :: "search_result40 \<Rightarrow> bool \<Rightarrow> u32 \<Rightarrow> page_size40 \<Rightarrow> m68040_atc \<Rightarrow> m68040_atc" where
  "fill_searched r supervisor logical ps c =
     atc40_tick (atc40_fill (atc40_select_way c logical supervisor ps) logical ps
       (searched_entry r supervisor logical ps) c)"

definition untranslated40 :: "u32 \<Rightarrow> mmu_result40" where
  "untranslated40 logical = \<lparr>rs_status = MMU_UNTRANSLATED, rs_physical = logical, rs_cache_mode = CM_WRITE_THROUGH,
     rs_fetches = 0, rs_filled = False, rs_reason = FAULT_NONE\<rparr>"

text \<open>The second half of a translation, which a miss reaches and a write through an unmodified entry.\<close>

definition translate_search :: "mmu_regs40 \<Rightarrow> u32 \<Rightarrow> bool \<Rightarrow> bool \<Rightarrow> 'm fetch40 \<Rightarrow> 'm update40 option \<Rightarrow>
    m68040_atc \<times> 'm \<Rightarrow> mmu_result40 \<times> m68040_atc \<times> 'm" where
  "translate_search regs logical supervisor write fetch update = (\<lambda>(c, m).
     let ps = tcr_page_size (mmu_tcr regs);
         (search, m) = search40 (mmu_config regs write supervisor fetch update) logical m;
         out = (untranslated40 logical)\<lparr>rs_fetches := sx_fetches search\<rparr>;
         filled = (sx_status search \<noteq> SEARCH_BUS_ERROR);
         c = (if filled then fill_searched search supervisor logical ps c else c);
         out = (if filled then out\<lparr>rs_filled := True\<rparr> else out)
     in if sx_status search \<noteq> SEARCH_RESIDENT \<or> sx_supervisor search \<and> \<not> supervisor \<or>
           write \<and> sx_write_protect search
        then (out\<lparr>rs_status := MMU_FAULT,
                 rs_reason := (if sx_status search = SEARCH_BUS_ERROR then FAULT_SEARCH_BUS
                   else if sx_status search \<noteq> SEARCH_RESIDENT then FAULT_NOT_RESIDENT else FAULT_PROTECTION)\<rparr>, c, m)
        else (out\<lparr>rs_status := MMU_TRANSLATED, rs_physical := sx_physical_address search,
                 rs_cache_mode := sx_cache_mode search\<rparr>, c, m))"

definition translate40 :: "mmu_regs40 \<Rightarrow> u32 \<Rightarrow> u32 \<Rightarrow> bool \<Rightarrow> 'm fetch40 \<Rightarrow> 'm update40 option \<Rightarrow>
    m68040_atc \<times> 'm \<Rightarrow> mmu_result40 \<times> m68040_atc \<times> 'm" where
  "translate40 regs logical function_code write fetch update = (\<lambda>(c, m).
     let out = untranslated40 logical in
     case matching_ttr regs logical function_code of
       Some ttr \<Rightarrow>
         if write \<and> ttr_write_protect ttr
         then (out\<lparr>rs_status := MMU_FAULT, rs_reason := FAULT_PROTECTION\<rparr>, c, m)
         else (out\<lparr>rs_status := MMU_TRANSPARENT, rs_cache_mode := ttr_cache_mode ttr\<rparr>, c, m)
     | None \<Rightarrow>
         if \<not> tcr_enable (mmu_tcr regs) then (out, c, m)
         else
           let ps = tcr_page_size (mmu_tcr regs); supervisor = (function_code AND 4 \<noteq> 0);
               way = atc40_lookup c logical supervisor ps;
               entry = entry40 c (atc40_set logical ps) way
           in if way < ATC40_WAYS \<and> (\<not> e4_resident entry \<or> e4_supervisor entry \<and> \<not> supervisor \<or>
                   write \<and> e4_write_protect entry)
              then (out\<lparr>rs_status := MMU_FAULT, rs_reason := FAULT_CACHED\<rparr>, c, m)
              else if way < ATC40_WAYS \<and> (\<not> write \<or> e4_modified entry)
              then (out\<lparr>rs_status := MMU_TRANSLATED,
                       rs_physical := e4_physical_address entry OR page_offset40 logical ps,
                       rs_cache_mode := e4_cache_mode entry\<rparr>, c, m)
              else translate_search regs logical supervisor write fetch update (c, m))"

section \<open>PTEST\<close>

record ptest_result40 =
  pt_mmusr :: mmusr40
  pt_defined :: bool
  pt_fetches :: nat
  pt_filled :: bool

definition searched_mmusr :: "search_result40 \<Rightarrow> mmusr40" where
  "searched_mmusr r =
     \<lparr>sr_physical_address = sx_physical_address r AND 0xFFFFF000, sr_bus_error = False, sr_global = sx_global r,
      sr_user_attribute_1 = sx_user_attribute_1 r, sr_user_attribute_0 = sx_user_attribute_0 r,
      sr_supervisor = sx_supervisor r, sr_cache_mode = sx_cache_mode r, sr_modified = sx_modified r,
      sr_write_protect = sx_write_protect r, sr_transparent = False,
      sr_resident = (sx_status r = SEARCH_RESIDENT)\<rparr>"

definition ptest40 :: "mmu_regs40 \<Rightarrow> u32 \<Rightarrow> u32 \<Rightarrow> bool \<Rightarrow> 'm fetch40 \<Rightarrow> 'm update40 option \<Rightarrow>
    m68040_atc \<times> 'm \<Rightarrow> ptest_result40 \<times> m68040_atc \<times> 'm" where
  "ptest40 regs logical function_code write fetch update = (\<lambda>(c, m).
     let out = \<lparr>pt_mmusr = mmusr_zero, pt_defined = False, pt_fetches = 0, pt_filled = False\<rparr> in
     if function_code \<noteq> 1 \<and> function_code \<noteq> 2 \<and> function_code \<noteq> 5 \<and> function_code \<noteq> 6 then (out, c, m)
     else case matching_ttr regs logical function_code of
       Some ttr \<Rightarrow> (out\<lparr>pt_mmusr := mmusr_transparent, pt_defined := True\<rparr>, c, m)
     | None \<Rightarrow>
         if \<not> tcr_enable (mmu_tcr regs) then (out, c, m)
         else
           let ps = tcr_page_size (mmu_tcr regs); supervisor = (function_code AND 4 \<noteq> 0);
               c = atc40_flush_page logical supervisor ps False c;
               (search, m) = search40 (mmu_config regs write supervisor fetch update) logical m;
               out = out\<lparr>pt_fetches := sx_fetches search, pt_defined := True\<rparr>
           in if sx_status search = SEARCH_BUS_ERROR then (out\<lparr>pt_mmusr := mmusr_bus_error\<rparr>, c, m)
              else (out\<lparr>pt_filled := True, pt_mmusr := searched_mmusr search\<rparr>,
                    fill_searched search supervisor logical ps c, m))"

section \<open>The reference\<close>

text \<open>What an access is answered from the registers and the tables alone. Of a fault nothing but that it
  is one.\<close>

datatype answer40 = Refused | Granted mmu_status40 u32 cache_mode40

definition reference40 :: "mmu_regs40 \<Rightarrow> words \<Rightarrow> u32 \<Rightarrow> u32 \<Rightarrow> bool \<Rightarrow> answer40" where
  "reference40 regs mem l fc write =
     (case matching_ttr regs l fc of
        Some t \<Rightarrow> if write \<and> ttr_write_protect t then Refused else Granted MMU_TRANSPARENT l (ttr_cache_mode t)
      | None \<Rightarrow>
          if \<not> tcr_enable (mmu_tcr regs) then Granted MMU_UNTRANSLATED l CM_WRITE_THROUGH
          else let ps = tcr_page_size (mmu_tcr regs); supervisor = (fc AND 4 \<noteq> 0) in
            case tables_say mem (root_for regs supervisor) ps l of
              Page s wp d \<Rightarrow>
                if bit d 7 \<and> \<not> supervisor \<or> write \<and> (wp \<or> bit d 2) then Refused
                else Granted MMU_TRANSLATED (page_frame ps d OR page_offset40 l ps) (page_cache_mode d)
            | _ \<Rightarrow> Refused)"

definition answer_of :: "mmu_result40 \<Rightarrow> answer40" where
  "answer_of r = (if rs_status r = MMU_FAULT then Refused else Granted (rs_status r) (rs_physical r) (rs_cache_mode r))"

text \<open>The page's descriptor as it stands in memory.\<close>

definition page_marked :: "mmu_regs40 \<Rightarrow> words \<Rightarrow> u32 \<Rightarrow> u32 \<Rightarrow> bool" where
  "page_marked regs mem l fc \<longleftrightarrow>
     (case tables_say mem (root_for regs (fc AND 4 \<noteq> 0)) (tcr_page_size (mmu_tcr regs)) l of
        Page s wp d \<Rightarrow> (\<exists>w. mem s = Some w \<and> bit w 3 \<and> bit w 4) | _ \<Rightarrow> False)"

section \<open>What the cache holds is true\<close>

definition entry_true :: "words \<Rightarrow> u32 \<Rightarrow> page_size40 \<Rightarrow> u32 \<Rightarrow> atc_entry40 \<Rightarrow> bool" where
  "entry_true mem root ps l e \<longleftrightarrow>
     (case tables_say mem root ps l of
        No_answer \<Rightarrow> False
      | Absent \<Rightarrow> \<not> e4_resident e
      | Page s wp d \<Rightarrow> e4_resident e \<and> e4_physical_address e = page_frame ps d \<and>
          e4_write_protect e = (wp \<or> bit d 2) \<and> e4_supervisor e = bit d 7 \<and> e4_cache_mode e = page_cache_mode d \<and>
          (\<exists>w. mem s = Some w \<and> bit w 3 \<and> (e4_modified e \<longrightarrow> bit w 4)))"

definition cache_true :: "mmu_regs40 \<Rightarrow> page_size40 \<Rightarrow> words \<Rightarrow> m68040_atc \<Rightarrow> bool" where
  "cache_true regs ps mem c \<longleftrightarrow> (\<forall>l sv. \<forall>w < 4. holds40 sv (atc40_tag l ps) (entry40 c (atc40_set l ps) w) \<longrightarrow>
     entry_true mem (root_for regs sv) ps l (entry40 c (atc40_set l ps) w))"

definition both_roots :: "mmu_regs40 \<Rightarrow> u32 set" where
  "both_roots regs = {mr_urp regs, mr_srp regs}"

lemma root_for_both: "root_for regs sv \<in> both_roots regs"
  by (simp add: root_for_def both_roots_def)

text \<open>The tables answer for pages, not for addresses.\<close>

lemma indices_of_page:
  assumes "page_number l ps = page_number l' ps"
  shows "root_index l = root_index l'" "pointer_index l = pointer_index l'" "page_index l ps = page_index l' ps"
proof -
  let ?k = "if ps = PAGE_8K then 13 else 12 :: nat"
  have drop: "drop_bit (?k + j) l = drop_bit (?k + j) l'" for j
  proof -
    have "drop_bit j (drop_bit ?k l) = drop_bit j (drop_bit ?k l')" using assms by (simp add: page_number_def)
    then show ?thesis by (simp only: drop_bit_drop_bit add.commute)
  qed
  have k: "?k + (25 - ?k) = 25" "?k + (18 - ?k) = 18" "?k + 0 = ?k" by simp_all
  have d: "drop_bit 25 l = drop_bit 25 l'" "drop_bit 18 l = drop_bit 18 l'" "drop_bit ?k l = drop_bit ?k l'"
    using drop [of "25 - ?k"] drop [of "18 - ?k"] drop [of 0] unfolding k .
  show "root_index l = root_index l'" "pointer_index l = pointer_index l'"
    by (simp_all only: root_index_def pointer_index_def d)
  show "page_index l ps = page_index l' ps" using d(3) by (simp add: page_index_def split: if_splits)
qed

lemma tables_say_page:
  assumes "page_number l ps = page_number l' ps"
  shows "tables_say mem root ps l = tables_say mem root ps l'"
  by (simp only: tables_say_def root_slot_def pointer_slot_def page_slot_def indices_of_page [OF assms])

lemma entry_true_history:
  assumes "only_history roots ps mem mem'" "root \<in> roots" "entry_true mem root ps l e"
  shows "entry_true mem' root ps l e"
proof -
  have "same_word (mem s) (mem' s)" for s using assms(1) by (simp add: only_history_def)
  then have keep: "mem s = Some w \<Longrightarrow> \<exists>w'. mem' s = Some w' \<and> (bit w 3 \<longrightarrow> bit w' 3) \<and> (bit w 4 \<longrightarrow> bit w' 4)" for s w
    by (metis same_wordE)
  show ?thesis
    using assms(3) unfolding entry_true_def only_history_says [OF assms(1,2)]
    by (auto split: tables_answer.splits dest!: keep)
qed

lemma cache_true_history:
  "only_history (both_roots regs) ps mem mem' \<Longrightarrow> cache_true regs ps mem c \<Longrightarrow> cache_true regs ps mem' c"
  using entry_true_history root_for_both unfolding cache_true_def by blast

lemma frame_offset:
  "(page_frame ps d OR page_offset40 l ps) AND NOT (offset_mask40 ps) = page_frame ps d"
proof -
  have m: "(0x1FFF :: u32) = mask 13" "(0xFFF :: u32) = mask 12" "(0xFFFFE000 :: u32) = NOT (mask 13)"
    "(0xFFFFF000 :: u32) = NOT (mask 12)" "(8192 :: u32) - 1 = mask 13" "(4096 :: u32) - 1 = mask 12"
    by (simp_all add: mask_eq_exp_minus_1)
  have "((d AND NOT (mask k)) OR (l AND mask k)) AND NOT (mask k) = d AND NOT (mask k :: u32)" for k
    unfolding u32_eq_iff by (auto simp: bit_and_iff bit_or_iff bit_not_iff)
  then show ?thesis
    by (simp only: page_frame_def page_offset40_def page_bytes_def offset_mask40_def m if_split [of _ "ps = PAGE_8K"])
      (simp add: m)
qed

text \<open>The entry a search leaves is true, and the fill keeps the others.\<close>

lemma searched_entry_true:
  assumes "agrees cf l (tables_say mem (cf_root_pointer cf) (cf_page_size cf) l) mem r"
    and "sx_status r \<noteq> SEARCH_BUS_ERROR"
  shows "entry_true mem (cf_root_pointer cf) (cf_page_size cf) l (searched_entry r sv l (cf_page_size cf))"
  using assms frame_offset unfolding agrees_def entry_true_def searched_entry_def
  by (auto split: tables_answer.splits)

lemma fill_searched_true:
  assumes wf: "wf_atc40 c" and true: "cache_true regs ps mem c"
    and entry: "entry_true mem (root_for regs sv) ps l (searched_entry r sv l ps)"
  shows "wf_atc40 (fill_searched r sv l ps c) \<and> cache_true regs ps mem (fill_searched r sv l ps c)"
proof -
  let ?e = "searched_entry r sv l ps" and ?c = "fill_searched r sv l ps c" and ?w = "atc40_select_way c l sv ps"
  have space: "e4_supervisor_space ?e = sv" by (simp add: searched_entry_def)
  note fill = fill40 [OF wf, where e = ?e and sv = sv and l = l and ps = ps, OF space]
  have e: "entry40 ?c s v = (if s = atc40_set l ps \<and> v = ?w
      then ?e\<lparr>e4_valid := True, e4_logical_tag := atc40_tag l ps\<rparr> else entry40 c s v)" if "s < 16" "v < 4" for s v
    using fill(2) [OF that] by (simp add: fill_searched_def wf_tick40)
  have "entry_true mem (root_for regs sv') ps l' (entry40 ?c (atc40_set l' ps) w)"
    if w: "w < 4" "holds40 sv' (atc40_tag l' ps) (entry40 ?c (atc40_set l' ps) w)" for l' sv' w
  proof (cases "atc40_set l' ps = atc40_set l ps \<and> w = ?w")
    case True
    then have new: "entry40 ?c (atc40_set l' ps) w = ?e\<lparr>e4_valid := True, e4_logical_tag := atc40_tag l ps\<rparr>"
      using e [OF atc40_set_less w(1), of l' ps] by simp
    then have "sv' = sv" "atc40_tag l' ps = atc40_tag l ps"
      using w(2) space by (auto simp: holds40_def)
    moreover have "tables_say mem root ps l' = tables_say mem root ps l" for root
      using True calculation page_number_parts tables_say_page by metis
    ultimately show ?thesis using entry unfolding new entry_true_def
      by (auto simp: searched_entry_def split: tables_answer.splits)
  next
    case False
    then have "entry40 ?c (atc40_set l' ps) w = entry40 c (atc40_set l' ps) w"
      using e [OF atc40_set_less w(1), of l' ps] by auto
    then show ?thesis using true w by (simp add: cache_true_def)
  qed
  then show ?thesis using fill(1) by (simp add: cache_true_def fill_searched_def wf_tick40)
qed

section \<open>Translations answer the reference\<close>

context descriptor_memory begin

lemma search_translation:
  assumes m: "good m" "wf_atc40 c" "cache_true regs ps (words m) c" "apart (both_roots regs) ps (words m)"
    and ps: "ps = tcr_page_size (mmu_tcr regs)"
    and run: "translate_search regs l sv write fetch (Some update) (c, m) = (r, c', m')"
  shows "good m' \<and> wf_atc40 c' \<and> cache_true regs ps (words m') c' \<and>
    only_history (both_roots regs) ps (words m) (words m')"
    and "case tables_say (words m) (root_for regs sv) ps l of
        Page s wp d \<Rightarrow>
          if bit d 7 \<and> \<not> sv \<or> write \<and> (wp \<or> bit d 2) then answer_of r = Refused
          else answer_of r = Granted MMU_TRANSLATED (page_frame ps d OR page_offset40 l ps) (page_cache_mode d) \<and>
            (write \<longrightarrow> (\<exists>w. words m' s = Some w \<and> bit w 3 \<and> bit w 4))
      | _ \<Rightarrow> answer_of r = Refused"
proof -
  let ?cf = "mmu_config regs write sv fetch (Some update)"
  have cf: "cf_fetch ?cf = fetch" "cf_update ?cf = Some update" "cf_page_size ?cf = ps"
    "cf_root_pointer ?cf = root_for regs sv" "cf_write ?cf = write" "cf_supervisor ?cf = sv"
    by (simp_all add: mmu_config_def ps)
  obtain s m1 where s: "search40 ?cf l m = (s, m1)" by fastforce
  note found = drop_third [OF search_answers [OF m(1) cf(1,2) _ _ s, unfolded cf(3,4), OF m(4) root_for_both]]
  let ?say = "tables_say (words m) (root_for regs sv) ps l"
  have say: "tables_say (words m1) (root_for regs sv) ps l = ?say"
    using found only_history_says root_for_both by blast
  have true: "cache_true regs ps (words m1) c" using found cache_true_history m(3) by blast
  have fill: "wf_atc40 (fill_searched s sv l ps c) \<and> cache_true regs ps (words m1) (fill_searched s sv l ps c)"
    if "sx_status s \<noteq> SEARCH_BUS_ERROR"
    using fill_searched_true [OF m(2) true searched_entry_true [of ?cf, unfolded cf(3,4)]] found say that by simp
  have m': "m' = m1" "c' = (if sx_status s \<noteq> SEARCH_BUS_ERROR then fill_searched s sv l ps c else c)"
    using run by (auto simp: translate_search_def Let_def s ps split: if_splits)
  show "good m' \<and> wf_atc40 c' \<and> cache_true regs ps (words m') c' \<and>
    only_history (both_roots regs) ps (words m) (words m')"
    using found fill true m(2) by (simp add: m')
  have ans: "answer_of r = (if sx_status s \<noteq> SEARCH_RESIDENT \<or> sx_supervisor s \<and> \<not> sv \<or> write \<and> sx_write_protect s
      then Refused else Granted MMU_TRANSLATED (sx_physical_address s) (sx_cache_mode s))"
    using run by (auto simp: translate_search_def Let_def s ps answer_of_def split: if_splits)
  show "case ?say of
        Page s wp d \<Rightarrow>
          if bit d 7 \<and> \<not> sv \<or> write \<and> (wp \<or> bit d 2) then answer_of r = Refused
          else answer_of r = Granted MMU_TRANSLATED (page_frame ps d OR page_offset40 l ps) (page_cache_mode d) \<and>
            (write \<longrightarrow> (\<exists>w. words m' s = Some w \<and> bit w 3 \<and> bit w 4))
      | _ \<Rightarrow> answer_of r = Refused"
  proof (cases ?say)
    case (Page t wp d)
    then show ?thesis using found unfolding ans m' by (auto simp: agrees_def cf)
  qed (use found in \<open>simp_all add: ans agrees_def\<close>)
qed

lemma translation:
  assumes m: "good m" "wf_atc40 c" "cache_true regs ps (words m) c" "apart (both_roots regs) ps (words m)"
    and ps: "ps = tcr_page_size (mmu_tcr regs)"
    and run: "translate40 regs l fc write fetch (Some update) (c, m) = (r, c', m')"
  shows "good m' \<and> wf_atc40 c' \<and> cache_true regs ps (words m') c' \<and>
    only_history (both_roots regs) ps (words m) (words m')"
    and "answer_of r = reference40 regs (words m) l fc write"
    and "write \<Longrightarrow> rs_status r = MMU_TRANSLATED \<Longrightarrow> page_marked regs (words m') l fc"
proof -
  let ?sv = "fc AND 4 \<noteq> 0" and ?same = "only_history (both_roots regs) ps (words m) (words m)"
  let ?say = "tables_say (words m) (root_for regs ?sv) ps l"
  let ?goal = "(good m' \<and> wf_atc40 c' \<and> cache_true regs ps (words m') c' \<and>
      only_history (both_roots regs) ps (words m) (words m')) \<and>
    answer_of r = reference40 regs (words m) l fc write \<and>
    (write \<and> rs_status r = MMU_TRANSLATED \<longrightarrow> page_marked regs (words m') l fc)"
  have ?goal
  proof (cases "matching_ttr regs l fc")
    case (Some t)
    then show ?thesis
      using run m only_history_refl
      by (auto simp: translate40_def Let_def reference40_def answer_of_def untranslated40_def split: if_splits)
  next
    case no_ttr: None
    show ?thesis
    proof (cases "tcr_enable (mmu_tcr regs)")
      case False
      then show ?thesis
        using run m only_history_refl no_ttr
        by (auto simp: translate40_def reference40_def answer_of_def untranslated40_def)
    next
      case on: True
      let ?way = "atc40_lookup c l ?sv ps"
      let ?e = "entry40 c (atc40_set l ps) ?way"
      have ref: "reference40 regs (words m) l fc write = (case ?say of
          Page s wp d \<Rightarrow> if bit d 7 \<and> \<not> ?sv \<or> write \<and> (wp \<or> bit d 2) then Refused
            else Granted MMU_TRANSLATED (page_frame ps d OR page_offset40 l ps) (page_cache_mode d)
        | _ \<Rightarrow> Refused)"
        using no_ttr on by (simp add: reference40_def Let_def flip: ps)
      have run': "(if ?way < 4 \<and> (\<not> e4_resident ?e \<or> e4_supervisor ?e \<and> \<not> ?sv \<or> write \<and> e4_write_protect ?e)
          then ((untranslated40 l)\<lparr>rs_status := MMU_FAULT, rs_reason := FAULT_CACHED\<rparr>, c, m)
          else if ?way < 4 \<and> (\<not> write \<or> e4_modified ?e)
          then ((untranslated40 l)\<lparr>rs_status := MMU_TRANSLATED,
                  rs_physical := e4_physical_address ?e OR page_offset40 l ps, rs_cache_mode := e4_cache_mode ?e\<rparr>, c, m)
          else translate_search regs l ?sv write fetch (Some update) (c, m)) = (r, c', m')"
        using run unfolding translate40_def Let_def prod.case no_ttr option.case ps [symmetric] atc40_sizes
        by (simp only: on not_True_eq_False if_False)
      have hit: "entry_true (words m) (root_for regs ?sv) ps l ?e" if "?way < 4"
        using m(3) lookup40_hit [OF that] that by (simp add: cache_true_def)
      consider (no) "?way < 4" "\<not> e4_resident ?e \<or> e4_supervisor ?e \<and> \<not> ?sv \<or> write \<and> e4_write_protect ?e"
        | (yes) "?way < 4" "e4_resident ?e" "\<not> (e4_supervisor ?e \<and> \<not> ?sv)" "\<not> (write \<and> e4_write_protect ?e)"
            "\<not> write \<or> e4_modified ?e"
        | (search) "translate_search regs l ?sv write fetch (Some update) (c, m) = (r, c', m')"
        using run' by (cases "?way < 4") (auto split: if_splits)
      then show ?thesis
      proof cases
        case no
        then have "r = (untranslated40 l)\<lparr>rs_status := MMU_FAULT, rs_reason := FAULT_CACHED\<rparr>" "c' = c" "m' = m"
          using run' by auto
        then show ?thesis
          using m only_history_refl hit [OF no(1)] no(2)
          by (auto simp: ref answer_of_def entry_true_def split: tables_answer.splits)
      next
        case yes
        then have "r = (untranslated40 l)\<lparr>rs_status := MMU_TRANSLATED,
            rs_physical := e4_physical_address ?e OR page_offset40 l ps, rs_cache_mode := e4_cache_mode ?e\<rparr>" "c' = c" "m' = m"
          using run' by auto
        then show ?thesis
          using m only_history_refl hit [OF yes(1)] yes(2-)
          by (auto simp: ref answer_of_def entry_true_def page_marked_def ps split: tables_answer.splits)
      next
        case search
        note st = search_translation [OF m ps search]
        have "tables_say (words m') (root_for regs ?sv) ps l = ?say"
          using st(1) only_history_says root_for_both by blast
        then show ?thesis
          using st by (auto simp: ref page_marked_def answer_of_def simp flip: ps split: tables_answer.splits if_splits)
      qed
    qed
  qed
  then show "good m' \<and> wf_atc40 c' \<and> cache_true regs ps (words m') c' \<and>
    only_history (both_roots regs) ps (words m) (words m')"
    and "answer_of r = reference40 regs (words m) l fc write"
    and "write \<Longrightarrow> rs_status r = MMU_TRANSLATED \<Longrightarrow> page_marked regs (words m') l fc" by blast+
qed

text \<open>A translation changes no word but those its search reads.\<close>

lemma translation_leaves:
  assumes m: "good m" "apart (both_roots regs) ps (words m)" and ps: "ps = tcr_page_size (mmu_tcr regs)"
    and run: "translate40 regs l fc write fetch (Some update) (c, m) = (r, c', m')"
    and s: "\<not> reads_slot (words m) (root_for regs (fc AND 4 \<noteq> 0)) ps l s"
  shows "words m' s = words m s"
proof -
  let ?sv = "fc AND 4 \<noteq> 0"
  let ?cf = "mmu_config regs write ?sv fetch (Some update)"
  have cf: "cf_fetch ?cf = fetch" "cf_update ?cf = Some update" "cf_page_size ?cf = ps" "cf_root_pointer ?cf = root_for regs ?sv"
    by (simp_all add: mmu_config_def ps)
  obtain x m1 where x: "search40 ?cf l m = (x, m1)" by fastforce
  note found = search_answers [OF m(1) cf(1,2) _ _ x, unfolded cf(3,4), OF m(2) root_for_both]
  have "words m1 s = words m s" using found s by blast
  moreover have "snd (snd (translate_search regs l ?sv write fetch (Some update) (c, m))) = m1"
    by (simp add: translate_search_def Let_def x)
  moreover have "m' = m \<or> m' = snd (snd (translate_search regs l ?sv write fetch (Some update) (c, m)))"
    using run by (auto simp: translate40_def Let_def split: option.splits if_splits)
  ultimately show ?thesis by auto
qed

end

end
