(* ===== verification/Machine_Mmu40.thy ===== *)
theory Machine_Mmu40
  imports Machine_Access M68040_Mmu
begin

unbundle bit_operations_syntax

text \<open>
  The MC68040's MMU on the machine, \<^verbatim>\<open>src/core/machine/ap_machine.c\<close>: the descriptor fetch and the
  history update a 68040 machine gives its searches. The interface \<open>descriptor_memory\<close> is interpreted on
  the machine without a board, whose memory is its bytes; every translation of a run then answers what
  the tables said before the run.
\<close>

section \<open>The callbacks\<close>

definition machine_table_fetch_040 :: "'b board_ops \<Rightarrow> u32 \<Rightarrow> 'b machine \<Rightarrow> u32 option \<times> 'b machine" where
  "machine_table_fetch_040 ops physical m =
     (let m = (if mc_probing m then m\<lparr>mc_probe_fetches := mc_probe_fetches m + 1\<rparr>
               else m\<lparr>mc_table_fetches := mc_table_fetches m + 1\<rparr>)
      in table_read ops physical m)"

definition machine_table_update_040 :: "'b board_ops \<Rightarrow> u32 \<Rightarrow> bool \<Rightarrow> bool \<Rightarrow> bool \<Rightarrow> 'b machine \<Rightarrow>
    bool \<times> 'b machine" where
  "machine_table_update_040 ops physical set_used set_modified locked m =
     machine_table_update ops physical set_used set_modified m"

section \<open>The words of flat memory\<close>

text \<open>The long words at the addresses a descriptor can have.\<close>

definition machine_words :: "'b machine \<Rightarrow> words" where
  "machine_words m a =
     (if a AND 3 = 0 \<and> fitted_long (mc_ram_bytes m) a then Some (be_long (ram_byte m) a) else None)"

lemma machine_words_cong:
  "ram_byte m' = ram_byte m \<Longrightarrow> mc_ram_bytes m' = mc_ram_bytes m \<Longrightarrow> machine_words m' = machine_words m"
  by (rule ext) (simp only: machine_words_def)

lemma table_read_flat:
  assumes "flat n m" "a AND 3 = 0"
  shows "fst (table_read ops a m) = machine_words m a" "flat n (snd (table_read ops a m))"
    "machine_words (snd (table_read ops a m)) = machine_words m" "ram_byte (snd (table_read ops a m)) = ram_byte m"
proof -
  have read: "read_bytes m a 4 = be_long (ram_byte m) a" if "fitted_long n a"
    using read_bytes_value [OF assms(1), of a 4] in_range_unat [of a n 4] that
    by (simp add: fitted_long_def be_bytes_long)
  have m: "mc_board m = None" "mc_ram_bytes m = n" using assms(1) by (simp_all add: flat_def)
  note run = table_read_def in_range_fitted [OF assms(1)]
  show "fst (table_read ops a m) = machine_words m a" using m read assms(2) by (simp add: run machine_words_def)
  show flat: "flat n (snd (table_read ops a m))" and bytes: "ram_byte (snd (table_read ops a m)) = ram_byte m"
    using m assms(1) by (simp_all add: run)
  show "machine_words (snd (table_read ops a m)) = machine_words m"
    by (rule machine_words_cong [OF bytes]) (use flat m in \<open>simp add: flat_def\<close>)
qed

lemma store_long_words:
  assumes m: "flat n m" "a AND 3 = 0" "fitted_long n a" and m': "ram_byte m' = store_bytes a 4 v (ram_byte m)" "flat n m'"
  shows "machine_words m' = (machine_words m)(a \<mapsto> v)"
proof -
  have n: "mc_ram_bytes m = n" "mc_ram_bytes m' = n" using m(1) m'(2) by (simp_all add: flat_def)
  have here: "a AND NOT 3 = a" using long_place(1) [OF m(2), of 0] by simp
  have fit: "unat (a AND 3) + 4 \<le> 4" using m(2) by simp
  have "be_long (store_bytes a 4 v (ram_byte m)) a = merge_lanes a 4 v (be_long (ram_byte m) a)"
    using store_bytes_here [OF _ fit, of v "ram_byte m", unfolded here] by simp
  also have "\<dots> = v"
  proof (rule bit_word_eqI)
    fix k assume "k < LENGTH(32)"
    then show "bit (merge_lanes a 4 v (be_long (ram_byte m) a)) k = bit v k"
      using bit_merge_lanes [of k 4 a v "be_long (ram_byte m) a"] m(2) by simp
  qed
  finally have at: "be_long (ram_byte m') a = v" by (simp add: m'(1))
  have other: "be_long (ram_byte m') b = be_long (ram_byte m) b" if "b AND 3 = 0" "b \<noteq> a" for b
    using store_bytes_elsewhere [OF _ fit that(1), of v "ram_byte m", unfolded here] that(2) by (simp add: m'(1))
  show ?thesis
    using at other m(2,3) by (auto simp: machine_words_def n fun_eq_iff)
qed

lemma mark_history_eq:
  "mark_history u md d = (let d = if u then d OR push_bit 3 1 else d in if md then d OR push_bit 4 1 else d)"
  by (simp add: mark_history_def)

interpretation machine_descriptors: descriptor_memory "machine_table_fetch_040 ops" "machine_table_update_040 ops"
  machine_words "flat n"
proof
  fix m m' :: "'a machine" and a w :: u32 and u md l ok
  assume m: "flat n m" "a AND 3 = 0"
  let ?m = "if mc_probing m then m\<lparr>mc_probe_fetches := mc_probe_fetches m + 1\<rparr>
               else m\<lparr>mc_table_fetches := mc_table_fetches m + 1\<rparr>"
  have "ram_byte ?m = ram_byte m" by (rule ext) (simp add: ram_byte_def)
  then have q: "flat n ?m" "machine_words ?m = machine_words m"
    using m(1) machine_words_cong [of ?m m] by (simp_all add: flat_def)
  show "fst (machine_table_fetch_040 ops a m) = machine_words m a"
    "flat n (snd (machine_table_fetch_040 ops a m)) \<and>
      machine_words (snd (machine_table_fetch_040 ops a m)) = machine_words m"
    using table_read_flat [OF q(1) m(2)] q(2) by (simp_all add: machine_table_fetch_040_def Let_def)
  show "ok \<and> flat n m' \<and> machine_words m' = (machine_words m)(a \<mapsto> mark_history u md w)"
    if w: "machine_words m a = Some w" and run: "machine_table_update_040 ops a u md l m = (ok, m')"
  proof -
    let ?m = "m\<lparr>mc_table_updates := mc_table_updates m + 1\<rparr>"
    have b: "ram_byte ?m = ram_byte m" by (rule ext) (simp add: ram_byte_def)
    then have q: "flat n ?m" "machine_words ?m = machine_words m"
      using m(1) machine_words_cong [of ?m m] by (simp_all add: flat_def)
    obtain x m1 where r: "table_read ops a ?m = (x, m1)" by fastforce
    have m1: "x = Some w" "flat n m1" "machine_words m1 = machine_words m" "ram_byte m1 = ram_byte m"
      using table_read_flat [OF q(1) m(2), of ops] q b w unfolding r by simp_all
    have fit: "fitted_long n a" using w m(1) by (simp add: machine_words_def flat_def split: if_splits)
    have "table_write ops a (mark_history u md w) m1 = (ok, m')"
      using run r m1(1) by (simp add: machine_table_update_040_def machine_table_update_def mark_history_def Let_def)
    then have out: "ok" "m' = write_bytes a 4 (mark_history u md w) m1"
      using m1(2) fit by (simp_all add: table_write_def flat_def in_range_fitted [OF m1(2)])
    have room: "unat a + 4 \<le> unat n" using fit in_range_unat [of a n 4] by (simp add: fitted_long_def)
    note wb = write_bytes_value [OF m1(2) room, of "mark_history u md w"]
    show ?thesis
      using store_long_words [OF m1(2) m(2) fit, of m' "mark_history u md w"] wb out m1(3) by simp
  qed
qed

section \<open>Runs of accesses\<close>

text \<open>The accesses of one side of the machine: an address, a function code and whether it writes.\<close>

type_synonym access40 = "u32 \<times> u32 \<times> bool"

fun machine_accesses :: "'b board_ops \<Rightarrow> mmu_regs40 \<Rightarrow> access40 list \<Rightarrow> m68040_atc \<times> 'b machine \<Rightarrow>
    mmu_result40 list \<times> m68040_atc \<times> 'b machine" where
  "machine_accesses ops regs [] s = ([], s)"
| "machine_accesses ops regs ((l, fc, write) # xs) s =
     (let (r, s) = translate40 regs l fc write (machine_table_fetch_040 ops) (Some (machine_table_update_040 ops)) s;
          (rs, s) = machine_accesses ops regs xs s
      in (r # rs, s))"

lemma reference_history:
  assumes "only_history (both_roots regs) (tcr_page_size (mmu_tcr regs)) mem mem'"
  shows "reference40 regs mem' l fc write = reference40 regs mem l fc write"
  by (simp add: reference40_def Let_def only_history_says [OF assms root_for_both] split: option.split)

lemma page_marked_history:
  assumes "only_history (both_roots regs) (tcr_page_size (mmu_tcr regs)) mem mem'" "page_marked regs mem l fc"
  shows "page_marked regs mem' l fc"
proof -
  have "same_word (mem s) (mem' s)" for s using assms(1) by (simp add: only_history_def)
  then have keep: "mem s = Some w \<Longrightarrow> \<exists>w'. mem' s = Some w' \<and> (bit w 3 \<longrightarrow> bit w' 3) \<and> (bit w 4 \<longrightarrow> bit w' 4)" for s w
    by (metis same_wordE)
  show ?thesis
    using assms(2) unfolding page_marked_def only_history_says [OF assms(1) root_for_both]
    by (auto split: tables_answer.splits dest!: keep)
qed

lemma accesses_answered:
  assumes "flat n m" "wf_atc40 c" "cache_true regs (tcr_page_size (mmu_tcr regs)) (machine_words m) c"
    and "apart (both_roots regs) (tcr_page_size (mmu_tcr regs)) (machine_words m)"
    and "machine_accesses ops regs xs (c, m) = (rs, c', m')"
  shows "map answer_of rs = map (\<lambda>(l, fc, write). reference40 regs (machine_words m) l fc write) xs \<and>
    only_history (both_roots regs) (tcr_page_size (mmu_tcr regs)) (machine_words m) (machine_words m') \<and>
    (\<forall>i < length xs. snd (snd (xs ! i)) \<and> rs_status (rs ! i) = MMU_TRANSLATED \<longrightarrow>
       page_marked regs (machine_words m') (fst (xs ! i)) (fst (snd (xs ! i)))) \<and> length rs = length xs"
  using assms
proof (induction xs arbitrary: c m rs)
  case Nil
  then show ?case by (simp add: only_history_refl)
next
  case (Cons a xs)
  obtain l fc wr where a: "a = (l, fc, wr)" by (metis prod_cases3)
  let ?ps = "tcr_page_size (mmu_tcr regs)"
  obtain r c1 m1 where one: "translate40 regs l fc wr (machine_table_fetch_040 ops)
      (Some (machine_table_update_040 ops)) (c, m) = (r, c1, m1)" by (metis prod_cases3)
  obtain rest c2 m2 where two: "machine_accesses ops regs xs (c1, m1) = (rest, c2, m2)" by (metis prod_cases3)
  have rs: "rs = r # rest" "m' = m2" using Cons.prems(5) by (simp_all add: a one two)
  note t = machine_descriptors.translation [OF Cons.prems(1-4) refl one]
  have apart: "apart (both_roots regs) ?ps (machine_words m1)"
    using t(1) Cons.prems(4) only_history_apart by blast
  have "c2 = c'" using Cons.prems(5) by (simp add: a one two)
  then have ih: "map answer_of rest = map (\<lambda>(l, fc, wr). reference40 regs (machine_words m1) l fc wr) xs"
    "only_history (both_roots regs) ?ps (machine_words m1) (machine_words m')"
    "\<forall>i < length xs. snd (snd (xs ! i)) \<and> rs_status (rest ! i) = MMU_TRANSLATED \<longrightarrow>
       page_marked regs (machine_words m') (fst (xs ! i)) (fst (snd (xs ! i)))" "length rest = length xs"
    using Cons.IH [of m1 c1 rest] t(1) apart two rs(2) by simp_all
  have ref: "reference40 regs (machine_words m1) l fc w = reference40 regs (machine_words m) l fc w" for l fc w
    using t(1) reference_history by blast
  have all: "only_history (both_roots regs) ?ps (machine_words m) (machine_words m')"
    using t(1) ih(2) only_history_trans by blast
  have "wr \<and> rs_status r = MMU_TRANSLATED \<Longrightarrow> page_marked regs (machine_words m') l fc"
    using t(3) page_marked_history [OF ih(2)] by blast
  then show ?case using ih(1,3,4) t(2) all by (auto simp: rs(1) a ref less_Suc_eq_0_disj)
qed

lemma empty_cache_true: "cache_true regs ps mem atc40_init"
proof -
  have "\<not> holds40 sv t (entry40 atc40_init s w)" if "s < 16" "w < 4" for sv t s w
    using that by (simp add: atc40_init_def atc40_sizes entry40_def holds40_def zero_entry40_def)
  then show ?thesis using atc40_set_less unfolding cache_true_def by blast
qed

text \<open>C3: the MMU of the MC68040 follows the tables. On a machine without a board whose tables keep table
  descriptors and indirect page descriptors apart, a run of accesses from an empty translation cache is
  answered, access by access, as the registers and the tables before the run demand: the physical
  address and the cache mode of the page, or a refusal. Neither the cache, its replacements and its
  cached faults nor the history bits the searches write on the way change an answer.\<close>

theorem mmu40_follows_tables:
  assumes "flat n m" and "apart (both_roots regs) (tcr_page_size (mmu_tcr regs)) (machine_words m)"
    and "machine_accesses ops regs xs (atc40_init, m) = (rs, c', m')"
  shows "map answer_of rs = map (\<lambda>(l, fc, write). reference40 regs (machine_words m) l fc write) xs"
  using accesses_answered [OF assms(1) wf_atc40_init empty_cache_true assms(2,3)] by blast

text \<open>C9: every page a run has written is marked in the tables: when a write of the run was translated, the
  page's descriptor has its used and modified bits set in memory at the end of the run, even if a
  translation cached by an earlier read served the page.\<close>

theorem mmu40_marks_written_pages:
  assumes "flat n m" and "apart (both_roots regs) (tcr_page_size (mmu_tcr regs)) (machine_words m)"
    and "machine_accesses ops regs xs (atc40_init, m) = (rs, c', m')"
    and "i < length xs" and "xs ! i = (l, fc, True)" and "rs_status (rs ! i) = MMU_TRANSLATED"
  shows "page_marked regs (machine_words m') l fc"
  using accesses_answered [OF assms(1) wf_atc40_init empty_cache_true assms(2,3)] assms(4-6) by auto

section \<open>A machine with one page\<close>

text \<open>A kilobyte of memory: the root table at 0, its first pointer table at 0x400, the first page table
  at 0x100, and in it one page at 0x1000.\<close>

definition one_page_ram :: "u8 list" where
  "one_page_ram = (replicate 1028 0)[2 := 0x04, 3 := 0x03, 0x402 := 0x01, 0x403 := 0x03, 0x102 := 0x10, 0x103 := 0x01]"

definition one_page_machine :: "unit machine" where
  "one_page_machine = flat_machine one_page_ram"

definition one_page_regs :: mmu_regs40 where
  "one_page_regs = \<lparr>mr_tc = 0x8000, mr_ttr = [0, 0], mr_urp = 0, mr_srp = 0\<rparr>"

lemma apart_no_indirect:
  assumes "\<And>a w. mem a = Some w \<Longrightarrow> w AND 3 \<noteq> 2"
  shows "apart roots ps mem"
  using assms by (auto simp: apart_def indirect_slot_def)

lemma be_long_low: "be_long f a AND 3 = ucast (f (a + 3) AND 3)"
  by (rule bit_word_eqI)
    (auto simp: be_long_def bit_low_two bit_or_iff bit_push_bit_iff bit_ucast_iff and_mask_literals bit_take_bit_iff)

lemma one_page_flat: "flat 1028 one_page_machine"
  by (simp add: flat_def one_page_machine_def one_page_ram_def flat_machine_def)

lemma one_page_apart: "apart roots ps (machine_words one_page_machine)"
proof (rule apart_no_indirect)
  fix a w assume "machine_words one_page_machine a = Some w"
  then have w: "w = be_long (ram_byte one_page_machine) a" by (simp add: machine_words_def split: if_splits)
  have "set one_page_ram \<subseteq> {0, 0x04, 0x03, 0x01, 0x10}"
    unfolding one_page_ram_def
    by (intro order_trans [OF set_update_subset_insert] insert_subsetI) (auto simp: set_update_subset_insert)
  then have "b AND 3 = 0 \<or> b AND 3 = 1 \<or> b AND 3 = 3" if "b \<in> set one_page_ram" for b using that by auto
  then have "ram_byte one_page_machine p AND 3 = 0 \<or> ram_byte one_page_machine p AND 3 = 1 \<or>
      ram_byte one_page_machine p AND 3 = 3" for p
    by (simp add: ram_byte_def one_page_machine_def flat_machine_def)
  from this [of "a + 3"] show "w AND 3 \<noteq> 2" unfolding w be_long_low by (elim disjE) (simp_all only:, simp_all)
qed

lemma one_page_byte:
  "i < 1028 \<Longrightarrow> one_page_ram ! i = (if i = 2 then 0x04 else if i = 3 then 0x03 else if i = 0x402 then 0x01
     else if i = 0x403 then 0x03 else if i = 0x102 then 0x10 else if i = 0x103 then 0x01 else 0)"
  by (simp add: one_page_ram_def nth_list_update)

lemma one_page_length: "length one_page_ram = 1028"
  by (simp add: one_page_ram_def)

lemma one_page_words:
  "machine_words one_page_machine 0 = Some 0x403" "machine_words one_page_machine 0x400 = Some 0x103"
  "machine_words one_page_machine 0x100 = Some 0x1001"
  by (simp_all add: machine_words_def one_page_machine_def flat_machine_def one_page_byte one_page_length
    fitted_long_def be_long_def ram_byte_def)

lemma one_page_says: "tables_say (machine_words one_page_machine) 0 PAGE_4K 0x10 = Page 0x100 False 0x1001"
  by (simp add: tables_say_def root_slot_def pointer_slot_def page_slot_def root_index_def pointer_index_def
    page_index_def one_page_words leaf_def without_history_def bit_of_def)

lemma two_registers: "[0..<2] = [0, 1 :: nat]"
  by (simp add: numeral_2_eq_2)

lemma one_page_setup:
  "mmu_tcr one_page_regs = \<lparr>tcr_enable = True, tcr_page_size = PAGE_4K\<rparr>"
  "matching_ttr one_page_regs l fc = None" "root_for one_page_regs sv = 0"
  by (simp_all add: mmu_tcr_def one_page_regs_def tcr_decode_def matching_ttr_def ttr_matches_def ttr_decode_def
    Let_def root_for_def two_registers)

lemma one_page_reference:
  "reference40 one_page_regs (machine_words one_page_machine) 0x10 5 wr = Granted MMU_TRANSLATED 0x1010 CM_WRITE_THROUGH"
  by (simp add: reference40_def one_page_setup one_page_says Let_def page_frame_def page_offset40_def page_bytes_def
    page_cache_mode_def cache_mode_of_def)

definition one_page_run :: "access40 list" where
  "one_page_run = [(0x10, 5, False), (0x10, 5, True)]"

lemma mmu40_follows_tables_witness:
  "\<exists>rs c m. machine_accesses no_board one_page_regs one_page_run (atc40_init, one_page_machine) = (rs, c, m) \<and>
    map answer_of rs = replicate 2 (Granted MMU_TRANSLATED 0x1010 CM_WRITE_THROUGH)"
proof -
  obtain rs c m where run: "machine_accesses no_board one_page_regs one_page_run (atc40_init, one_page_machine) = (rs, c, m)"
    by (metis prod_cases3)
  from mmu40_follows_tables [OF one_page_flat one_page_apart run] run show ?thesis
    by (simp add: one_page_run_def one_page_reference numeral_2_eq_2)
qed

lemma mmu40_marks_written_pages_witness:
  "\<exists>rs c m. machine_accesses no_board one_page_regs one_page_run (atc40_init, one_page_machine) = (rs, c, m) \<and>
    page_marked one_page_regs (machine_words m) 0x10 5"
proof -
  obtain rs c m where run: "machine_accesses no_board one_page_regs one_page_run (atc40_init, one_page_machine) = (rs, c, m)"
    by (metis prod_cases3)
  note all = accesses_answered [OF one_page_flat wf_atc40_init empty_cache_true one_page_apart run]
  then have "answer_of (rs ! 1) = Granted MMU_TRANSLATED 0x1010 CM_WRITE_THROUGH"
    by (auto simp: one_page_run_def one_page_reference)
  then have "rs_status (rs ! 1) = MMU_TRANSLATED" by (simp add: answer_of_def split: if_splits)
  from mmu40_marks_written_pages [OF one_page_flat one_page_apart run _ _ this, where l = "0x10" and fc = "5"] run show ?thesis
    by (auto simp: one_page_run_def)
qed

end
