(* ===== verification/M68040_Cache.thy ===== *)
theory M68040_Cache
  imports M68040_Regs
begin

unbundle bit_operations_syntax

text \<open>
  The MC68040's instruction and data caches, \<^verbatim>\<open>src/core/cpu/m68040/ap_m68040_cache.{h,c}\<close>: 64 sets of
  four lines of four long words, a dirty bit for every long word of the data cache, one replacement
  counter. The lookups, fills, invalidations and pushes of the cache, the snoop requests, and the line
  state tables of the manual as the code has them.

  The invariant \<open>wf_cache40\<close> (64 sets of four lines, no tag twice in a set) is what the operations keep. A
  sweep over the lines of a page is shown to leave none of its addresses in the cache and to touch no
  other, and the state tables to lose dirty data only where the manual says so.
\<close>

section \<open>Lines and the cache\<close>

definition CACHE40_SETS :: nat where "CACHE40_SETS = 64"
definition CACHE40_WAYS :: nat where "CACHE40_WAYS = 4"
definition CACHE40_LINE_LONGS :: nat where "CACHE40_LINE_LONGS = 4"
definition CACHE40_SET_SHIFT :: nat where "CACHE40_SET_SHIFT = 4"
definition CACHE40_TAG_SHIFT :: nat where "CACHE40_TAG_SHIFT = 10"

lemmas cache40_sizes = CACHE40_SETS_def CACHE40_WAYS_def CACHE40_LINE_LONGS_def CACHE40_SET_SHIFT_def
  CACHE40_TAG_SHIFT_def

record cache_line40 =
  cn_tag :: u32
  cn_valid :: bool
  cn_dirty :: "bool list"
  cn_data :: "u32 list"

record cache40 =
  ch_line :: "cache_line40 list list"
  ch_counter :: u32
  ch_has_dirty_state :: bool

datatype line_state40 = LINE_INVALID | LINE_VALID | LINE_DIRTY

definition cache40_line_state :: "cache_line40 \<Rightarrow> line_state40" where
  "cache40_line_state l =
     (if \<not> cn_valid l then LINE_INVALID
      else if list_ex (\<lambda>i. cn_dirty l ! i) [0..<CACHE40_LINE_LONGS] then LINE_DIRTY else LINE_VALID)"

definition cache40_init :: "bool \<Rightarrow> cache40" where
  "cache40_init has_dirty_state =
     \<lparr>ch_line = replicate CACHE40_SETS (replicate CACHE40_WAYS
        \<lparr>cn_tag = 0, cn_valid = False, cn_dirty = replicate 4 False, cn_data = replicate 4 0\<rparr>),
      ch_counter = 0, ch_has_dirty_state = has_dirty_state\<rparr>"

definition drop40 :: "cache_line40 \<Rightarrow> cache_line40" where
  "drop40 l = l\<lparr>cn_valid := False, cn_dirty := map (\<lambda>_. False) (cn_dirty l)\<rparr>"

definition cache40_invalidate_all :: "cache40 \<Rightarrow> cache40" where
  "cache40_invalidate_all c = c\<lparr>ch_line := map (map drop40) (ch_line c)\<rparr>"

definition line40 :: "cache40 \<Rightarrow> nat \<Rightarrow> nat \<Rightarrow> cache_line40" where
  "line40 c s w = ch_line c ! s ! w"

definition set_line40 :: "nat \<Rightarrow> nat \<Rightarrow> cache_line40 \<Rightarrow> cache40 \<Rightarrow> cache40" where
  "set_line40 s w l c = c\<lparr>ch_line := (ch_line c)[s := (ch_line c ! s)[w := l]]\<rparr>"

section \<open>Addresses\<close>

definition cache40_set :: "u32 \<Rightarrow> nat" where
  "cache40_set a = unat (drop_bit 4 a AND 0x3F)"

definition cache40_long :: "u32 \<Rightarrow> nat" where
  "cache40_long a = unat (drop_bit 2 a AND 0x3)"

definition cache40_tag :: "u32 \<Rightarrow> u32" where
  "cache40_tag a = drop_bit 10 a"

definition line_base40 :: "u32 \<Rightarrow> nat \<Rightarrow> u32" where
  "line_base40 tag s = push_bit CACHE40_TAG_SHIFT tag OR push_bit CACHE40_SET_SHIFT (of_nat s)"

section \<open>Lookup, replacement and fills\<close>

definition cache40_lookup :: "cache40 \<Rightarrow> u32 \<Rightarrow> nat" where
  "cache40_lookup c a =
     (case find (\<lambda>w. cn_valid (line40 c (cache40_set a) w) \<and> cn_tag (line40 c (cache40_set a) w) = cache40_tag a)
        [0..<CACHE40_WAYS] of Some w \<Rightarrow> w | None \<Rightarrow> CACHE40_WAYS)"

definition cache40_select_way :: "cache40 \<Rightarrow> u32 \<Rightarrow> nat" where
  "cache40_select_way c a =
     (case find (\<lambda>w. \<not> cn_valid (line40 c (cache40_set a) w)) [0..<CACHE40_WAYS] of
        Some w \<Rightarrow> w | None \<Rightarrow> unat (ch_counter c AND 3))"

definition cache40_tick :: "cache40 \<Rightarrow> cache40" where
  "cache40_tick c = c\<lparr>ch_counter := (ch_counter c + 1) AND 3\<rparr>"

definition cache40_fill :: "nat \<Rightarrow> u32 \<Rightarrow> u32 list \<Rightarrow> u32 \<Rightarrow> cache40 \<Rightarrow> cache40" where
  "cache40_fill way a data dirty_mask c =
     set_line40 (cache40_set a) (way mod 4)
       \<lparr>cn_tag = cache40_tag a, cn_valid = True,
        cn_dirty = map (\<lambda>i. ch_has_dirty_state c \<and> drop_bit i dirty_mask AND 1 \<noteq> 0) [0..<CACHE40_LINE_LONGS],
        cn_data = map (\<lambda>i. data ! i) [0..<CACHE40_LINE_LONGS]\<rparr> c"

definition cache40_mark_dirty :: "nat \<Rightarrow> u32 \<Rightarrow> cache40 \<Rightarrow> cache40" where
  "cache40_mark_dirty way a c =
     (if \<not> ch_has_dirty_state c then c
      else let l = line40 c (cache40_set a) (way mod 4)
           in set_line40 (cache40_set a) (way mod 4) (l\<lparr>cn_dirty := (cn_dirty l)[cache40_long a := True]\<rparr>) c)"

definition cache40_writeback_mask :: "cache_line40 \<Rightarrow> u32" where
  "cache40_writeback_mask l =
     (if \<not> cn_valid l then 0
      else fold (\<lambda>i mask. if cn_dirty l ! i then mask OR push_bit i 1 else mask) [0..<CACHE40_LINE_LONGS] 0)"

section \<open>Invalidations and pushes\<close>

definition cache40_invalidate_line :: "u32 \<Rightarrow> cache40 \<Rightarrow> bool \<times> cache40" where
  "cache40_invalidate_line a c =
     (let way = cache40_lookup c a in
      if way \<ge> CACHE40_WAYS then (False, c)
      else (True, set_line40 (cache40_set a) way (drop40 (line40 c (cache40_set a) way)) c))"

text \<open>The loop over every line that \<^verbatim>\<open>over_page\<close> and \<^verbatim>\<open>push_all\<close> share: valid lines of the scope are
  counted, counted again when dirty, and dropped.\<close>

definition sweep_line :: "(nat \<Rightarrow> cache_line40 \<Rightarrow> bool) \<Rightarrow> bool \<Rightarrow> nat \<times> nat \<Rightarrow> cache40 \<times> nat \<times> nat \<Rightarrow>
    cache40 \<times> nat \<times> nat" where
  "sweep_line scope count_dirty = (\<lambda>(s, w) (c, touched, dirty).
     let l = line40 c s w in
     if \<not> cn_valid l \<or> \<not> scope s l then (c, touched, dirty)
     else (set_line40 s w (drop40 l) c, touched + 1,
           if count_dirty \<and> cache40_writeback_mask l \<noteq> 0 then dirty + 1 else dirty))"

definition sweep40 :: "(nat \<Rightarrow> cache_line40 \<Rightarrow> bool) \<Rightarrow> bool \<Rightarrow> cache40 \<Rightarrow> cache40 \<times> nat \<times> nat" where
  "sweep40 scope count_dirty c =
     fold (sweep_line scope count_dirty) (List.product [0..<CACHE40_SETS] [0..<CACHE40_WAYS]) (c, 0, 0)"

definition in_page40 :: "u32 \<Rightarrow> u32 \<Rightarrow> nat \<Rightarrow> cache_line40 \<Rightarrow> bool" where
  "in_page40 a bytes s l \<longleftrightarrow>
     line_base40 (cn_tag l) s AND NOT (bytes - 1) = a AND NOT (bytes - 1)"

definition over_page :: "u32 \<Rightarrow> u32 \<Rightarrow> bool \<Rightarrow> cache40 \<Rightarrow> cache40 \<times> nat \<times> nat" where
  "over_page a bytes push c =
     (if bytes = 0 then (c, 0, 0) else sweep40 (in_page40 a bytes) push c)"

text \<open>The number of lines touched, and for a push how many of them were dirty.\<close>

definition cache40_invalidate_page :: "u32 \<Rightarrow> u32 \<Rightarrow> cache40 \<Rightarrow> nat \<times> cache40" where
  "cache40_invalidate_page a bytes c =
     (let (c, touched, dirty) = over_page a bytes False c in (touched, c))"

definition cache40_push_line :: "u32 \<Rightarrow> cache40 \<Rightarrow> nat \<times> u32 \<times> cache40" where
  "cache40_push_line a c =
     (let way = cache40_lookup c a in
      if way \<ge> CACHE40_WAYS then (0, 0, c)
      else let l = line40 c (cache40_set a) way
           in (1, cache40_writeback_mask l, set_line40 (cache40_set a) way (drop40 l) c))"

definition cache40_push_page :: "u32 \<Rightarrow> u32 \<Rightarrow> cache40 \<Rightarrow> nat \<times> nat \<times> cache40" where
  "cache40_push_page a bytes c =
     (let (c, touched, dirty) = over_page a bytes True c in (touched, dirty, c))"

definition cache40_push_all :: "cache40 \<Rightarrow> nat \<times> nat \<times> cache40" where
  "cache40_push_all c = (let (c, touched, dirty) = sweep40 (\<lambda>_ _. True) True c in (touched, dirty, c))"

section \<open>Snoops and the line state tables\<close>

datatype snoop_request = SNOOP_INHIBIT | SNOOP_SUPPLY_LEAVE_DIRTY | SNOOP_SUPPLY_MARK_INVALID | SNOOP_SINK
  | SNOOP_INVALIDATE

definition cache40_snoop_request :: "u32 \<Rightarrow> bool \<Rightarrow> snoop_request" where
  "cache40_snoop_request sc write =
     (if sc AND 0x3 = 1 then if write then SNOOP_SINK else SNOOP_SUPPLY_LEAVE_DIRTY
      else if sc AND 0x3 = 2 then if write then SNOOP_INVALIDATE else SNOOP_SUPPLY_MARK_INVALID
      else SNOOP_INHIBIT)"

datatype cache_op40 = OP_CPU_READ_MISS | OP_CPU_READ_HIT | OP_CPU_WRITE_MISS_COPYBACK
  | OP_CPU_WRITE_MISS_WRITE_THROUGH | OP_CPU_WRITE_HIT_COPYBACK | OP_CPU_WRITE_HIT_WRITE_THROUGH
  | OP_CINV | OP_CPUSH | OP_SNOOP_READ_LEAVE_DIRTY | OP_SNOOP_READ_INVALIDATE | OP_SNOOP_WRITE_INVALIDATE
  | OP_SNOOP_WRITE_SINK_PARTIAL | OP_SNOOP_WRITE_SINK_LINE

record transition40 =
  tn_possible :: bool
  tn_next :: line_state40
  tn_read_line :: bool
  tn_supply_to_cpu :: bool
  tn_write_to_cache :: bool
  tn_set_dirty :: bool
  tn_write_to_memory :: bool
  tn_buffer_dirty :: bool
  tn_push_dirty :: bool
  tn_dirty_data_lost :: bool
  tn_inhibit_memory :: bool
  tn_source_data :: bool
  tn_sink_data :: bool
  tn_programming_error :: bool

definition impossible40 :: "line_state40 \<Rightarrow> transition40" where
  "impossible40 st = \<lparr>tn_possible = False, tn_next = st, tn_read_line = False, tn_supply_to_cpu = False,
     tn_write_to_cache = False, tn_set_dirty = False, tn_write_to_memory = False, tn_buffer_dirty = False,
     tn_push_dirty = False, tn_dirty_data_lost = False, tn_inhibit_memory = False, tn_source_data = False,
     tn_sink_data = False, tn_programming_error = False\<rparr>"

text \<open>An initialiser that names the two first fields leaves the others zero.\<close>

definition moves_to :: "line_state40 \<Rightarrow> transition40" where
  "moves_to st = (impossible40 st)\<lparr>tn_possible := True\<rparr>"

fun instruction_transition :: "line_state40 \<Rightarrow> cache_op40 \<Rightarrow> transition40" where
  "instruction_transition st OP_CPU_READ_MISS =
     (moves_to LINE_VALID)\<lparr>tn_read_line := True, tn_supply_to_cpu := True\<rparr>"
| "instruction_transition st OP_CPU_READ_HIT =
     (if st \<noteq> LINE_VALID then impossible40 st else (moves_to LINE_VALID)\<lparr>tn_supply_to_cpu := True\<rparr>)"
| "instruction_transition st OP_CINV = moves_to LINE_INVALID"
| "instruction_transition st OP_CPUSH = moves_to LINE_INVALID"
| "instruction_transition st OP_SNOOP_READ_LEAVE_DIRTY = impossible40 st"
| "instruction_transition st OP_SNOOP_READ_INVALIDATE =
     (if st \<noteq> LINE_VALID then impossible40 st else moves_to LINE_INVALID)"
| "instruction_transition st OP_SNOOP_WRITE_INVALIDATE =
     (if st \<noteq> LINE_VALID then impossible40 st else moves_to LINE_INVALID)"
| "instruction_transition st OP_SNOOP_WRITE_SINK_PARTIAL =
     (if st \<noteq> LINE_VALID then impossible40 st else moves_to LINE_INVALID)"
| "instruction_transition st OP_SNOOP_WRITE_SINK_LINE =
     (if st \<noteq> LINE_VALID then impossible40 st else moves_to LINE_INVALID)"
| "instruction_transition st OP_CPU_WRITE_MISS_COPYBACK = impossible40 st"
| "instruction_transition st OP_CPU_WRITE_MISS_WRITE_THROUGH = impossible40 st"
| "instruction_transition st OP_CPU_WRITE_HIT_COPYBACK = impossible40 st"
| "instruction_transition st OP_CPU_WRITE_HIT_WRITE_THROUGH = impossible40 st"

fun data_transition :: "line_state40 \<Rightarrow> cache_op40 \<Rightarrow> transition40" where
  "data_transition st OP_CPU_READ_MISS =
     (moves_to LINE_VALID)\<lparr>tn_read_line := True, tn_supply_to_cpu := True, tn_buffer_dirty := (st = LINE_DIRTY)\<rparr>"
| "data_transition st OP_CPU_READ_HIT =
     (if st = LINE_INVALID then impossible40 st else (moves_to st)\<lparr>tn_supply_to_cpu := True\<rparr>)"
| "data_transition st OP_CPU_WRITE_MISS_COPYBACK =
     (moves_to LINE_DIRTY)\<lparr>tn_read_line := True, tn_write_to_cache := True, tn_set_dirty := True,
        tn_buffer_dirty := (st = LINE_DIRTY)\<rparr>"
| "data_transition st OP_CPU_WRITE_MISS_WRITE_THROUGH =
     (moves_to st)\<lparr>tn_write_to_memory := True, tn_programming_error := (st = LINE_DIRTY)\<rparr>"
| "data_transition st OP_CPU_WRITE_HIT_COPYBACK =
     (if st = LINE_INVALID then impossible40 st
      else (moves_to LINE_DIRTY)\<lparr>tn_write_to_cache := True, tn_set_dirty := True\<rparr>)"
| "data_transition st OP_CPU_WRITE_HIT_WRITE_THROUGH =
     (if st = LINE_INVALID then impossible40 st
      else (moves_to st)\<lparr>tn_write_to_cache := True, tn_write_to_memory := True,
             tn_programming_error := (st = LINE_DIRTY)\<rparr>)"
| "data_transition st OP_CINV = (moves_to LINE_INVALID)\<lparr>tn_dirty_data_lost := (st = LINE_DIRTY)\<rparr>"
| "data_transition st OP_CPUSH = (moves_to LINE_INVALID)\<lparr>tn_push_dirty := (st = LINE_DIRTY)\<rparr>"
| "data_transition st OP_SNOOP_READ_LEAVE_DIRTY =
     (if st = LINE_INVALID then impossible40 st
      else (moves_to st)\<lparr>tn_inhibit_memory := (st = LINE_DIRTY), tn_source_data := (st = LINE_DIRTY)\<rparr>)"
| "data_transition st OP_SNOOP_READ_INVALIDATE =
     (if st = LINE_INVALID then impossible40 st
      else (moves_to LINE_INVALID)\<lparr>tn_inhibit_memory := (st = LINE_DIRTY), tn_source_data := (st = LINE_DIRTY)\<rparr>)"
| "data_transition st OP_SNOOP_WRITE_INVALIDATE =
     (if st = LINE_INVALID then impossible40 st else moves_to LINE_INVALID)"
| "data_transition st OP_SNOOP_WRITE_SINK_PARTIAL =
     (if st = LINE_INVALID then impossible40 st
      else if st \<noteq> LINE_DIRTY then moves_to LINE_INVALID
      else (moves_to LINE_DIRTY)\<lparr>tn_inhibit_memory := True, tn_sink_data := True, tn_set_dirty := True\<rparr>)"
| "data_transition st OP_SNOOP_WRITE_SINK_LINE =
     (if st = LINE_INVALID then impossible40 st else moves_to LINE_INVALID)"

definition cache40_transition :: "bool \<Rightarrow> line_state40 \<Rightarrow> cache_op40 \<Rightarrow> transition40" where
  "cache40_transition has_dirty_state st op =
     (if \<not> has_dirty_state
      then if st = LINE_DIRTY then impossible40 st else instruction_transition st op
      else data_transition st op)"

section \<open>The invariant\<close>

definition wf_line40 :: "cache_line40 \<Rightarrow> bool" where
  "wf_line40 l \<longleftrightarrow> length (cn_dirty l) = 4 \<and> length (cn_data l) = 4 \<and> cn_tag l < 0x400000"

definition unique_tags :: "cache40 \<Rightarrow> bool" where
  "unique_tags c \<longleftrightarrow> (\<forall>s<64. \<forall>i<4. \<forall>j<4. cn_valid (line40 c s i) \<longrightarrow> cn_valid (line40 c s j) \<longrightarrow>
     cn_tag (line40 c s i) = cn_tag (line40 c s j) \<longrightarrow> i = j)"

definition wf_cache40 :: "cache40 \<Rightarrow> bool" where
  "wf_cache40 c \<longleftrightarrow> length (ch_line c) = 64 \<and> (\<forall>s<64. length (ch_line c ! s) = 4) \<and>
     (\<forall>s<64. \<forall>w<4. wf_line40 (line40 c s w)) \<and> unique_tags c"

lemma wf_cache40_line: "wf_cache40 c \<Longrightarrow> s < 64 \<Longrightarrow> w < 4 \<Longrightarrow> wf_line40 (line40 c s w)"
  by (simp add: wf_cache40_def)

lemma unique_tagsD:
  "wf_cache40 c \<Longrightarrow> s < 64 \<Longrightarrow> i < 4 \<Longrightarrow> j < 4 \<Longrightarrow> cn_valid (line40 c s i) \<Longrightarrow> cn_valid (line40 c s j) \<Longrightarrow>
   cn_tag (line40 c s i) = cn_tag (line40 c s j) \<Longrightarrow> i = j"
  by (simp add: wf_cache40_def unique_tags_def)

lemma cache40_set_bound [simp]: "cache40_set a < 64"
proof -
  have "unat (drop_bit 4 a AND 0x3F) \<le> unat (0x3F :: u32)"
    by (rule word_le_nat_alt [THEN iffD1], rule word_and_le1)
  then show ?thesis by (simp add: cache40_set_def)
qed

lemma cache40_long_bound [simp]: "cache40_long a < 4"
proof -
  have "unat (drop_bit 2 a AND 3) \<le> unat (3 :: u32)"
    by (rule word_le_nat_alt [THEN iffD1], rule word_and_le1)
  then show ?thesis by (simp add: cache40_long_def)
qed

lemma cache40_tag_bound [simp]: "cache40_tag a < 0x400000"
proof -
  have "unat (drop_bit 10 a) < 2 ^ 22"
    using unsigned_less [of a, where ?'a = nat] by (simp add: drop_bit_eq_div unat_div)
  then show ?thesis by (simp add: cache40_tag_def word_less_nat_alt)
qed

lemma line40_set [simp]:
  assumes "wf_cache40 c" "s < 64" "w < 4" "s' < 64" "w' < 4"
  shows "line40 (set_line40 s w l c) s' w' = (if s' = s \<and> w' = w then l else line40 c s' w')"
  using assms by (simp add: line40_def set_line40_def wf_cache40_def nth_list_update)

lemma set_line40_counter [simp]:
  "ch_counter (set_line40 s w l c) = ch_counter c" "ch_has_dirty_state (set_line40 s w l c) = ch_has_dirty_state c"
  by (simp_all add: set_line40_def)

text \<open>A line may be put where no other way of its set holds its tag.\<close>

lemma wf_cache40_set_line:
  assumes c: "wf_cache40 c" and s: "s < 64" and w: "w < 4" and l: "wf_line40 l"
    and fresh: "\<And>v. v < 4 \<Longrightarrow> v \<noteq> w \<Longrightarrow> cn_valid l \<Longrightarrow> cn_valid (line40 c s v) \<Longrightarrow> cn_tag (line40 c s v) \<noteq> cn_tag l"
  shows "wf_cache40 (set_line40 s w l c)"
proof -
  have shape: "length (ch_line (set_line40 s w l c)) = 64"
    "\<forall>k<64. length (ch_line (set_line40 s w l c) ! k) = 4"
    using c s by (simp_all add: set_line40_def wf_cache40_def nth_list_update)
  have lines: "\<forall>k<64. \<forall>v<4. wf_line40 (line40 (set_line40 s w l c) k v)"
    using c s w l by (simp add: wf_cache40_line)
  have "unique_tags (set_line40 s w l c)"
    unfolding unique_tags_def
  proof (intro allI impI)
    fix k i j :: nat
    assume b: "k < 64" "i < 4" "j < 4"
      and v: "cn_valid (line40 (set_line40 s w l c) k i)" "cn_valid (line40 (set_line40 s w l c) k j)"
        "cn_tag (line40 (set_line40 s w l c) k i) = cn_tag (line40 (set_line40 s w l c) k j)"
    show "i = j"
      using b v unique_tagsD [OF c b] fresh [of i] fresh [of j] c s w
      by (auto split: if_splits)
  qed
  then show ?thesis using shape lines by (simp add: wf_cache40_def)
qed

lemma wf_drop40 [simp]: "wf_line40 (drop40 l) = wf_line40 l" and drop40_invalid [simp]: "\<not> cn_valid (drop40 l)"
  and drop40_tag [simp]: "cn_tag (drop40 l) = cn_tag l"
  by (simp_all add: drop40_def wf_line40_def)

lemma wf_cache40_drop:
  "wf_cache40 c \<Longrightarrow> s < 64 \<Longrightarrow> w < 4 \<Longrightarrow> wf_cache40 (set_line40 s w (drop40 (line40 c s w)) c)"
  by (rule wf_cache40_set_line) (simp_all add: wf_cache40_line)

lemma wf_cache40_init: "wf_cache40 (cache40_init d)"
  by (simp add: wf_cache40_def cache40_init_def cache40_sizes line40_def unique_tags_def wf_line40_def)

lemma wf_cache40_tick: "wf_cache40 c \<Longrightarrow> wf_cache40 (cache40_tick c)"
  by (simp add: wf_cache40_def cache40_tick_def line40_def unique_tags_def)

lemma wf_cache40_invalidate_all:
  assumes "wf_cache40 c" shows "wf_cache40 (cache40_invalidate_all c)"
  using assms by (auto simp: wf_cache40_def cache40_invalidate_all_def line40_def unique_tags_def)

section \<open>What a lookup finds\<close>

definition resident :: "cache40 \<Rightarrow> u32 \<Rightarrow> nat \<Rightarrow> bool" where
  "resident c a w \<longleftrightarrow> w < 4 \<and> cn_valid (line40 c (cache40_set a) w) \<and> cn_tag (line40 c (cache40_set a) w) = cache40_tag a"

lemma resident_unique: "wf_cache40 c \<Longrightarrow> resident c a v \<Longrightarrow> resident c a w \<Longrightarrow> v = w"
  using unique_tagsD [of c "cache40_set a" v w] by (simp add: resident_def)

lemma cache40_lookup_cases:
  obtains (hit) "resident c a (cache40_lookup c a)" "cache40_lookup c a < 4"
  | (miss) "cache40_lookup c a = 4" "\<And>w. \<not> resident c a w"
proof (cases "find (\<lambda>w. cn_valid (line40 c (cache40_set a) w) \<and> cn_tag (line40 c (cache40_set a) w) = cache40_tag a)
      [0..<CACHE40_WAYS]")
  case None
  then have "\<not> resident c a w" for w by (auto simp: find_None_iff resident_def CACHE40_WAYS_def)
  then show ?thesis using None by (intro miss) (auto simp: cache40_lookup_def CACHE40_WAYS_def)
next
  case (Some w)
  then have "resident c a w" by (auto simp: find_Some_iff resident_def CACHE40_WAYS_def)
  then show ?thesis using Some by (intro hit) (auto simp: cache40_lookup_def resident_def)
qed

lemma cache40_lookup_hit:
  assumes "wf_cache40 c" "resident c a w" shows "cache40_lookup c a = w"
  by (rule cache40_lookup_cases [of c a]) (use assms resident_unique in blast)+

lemma cache40_lookup_resident: "cache40_lookup c a < 4 \<Longrightarrow> resident c a (cache40_lookup c a)"
  by (rule cache40_lookup_cases [of c a]) auto

lemma cache40_lookup_miss: "cache40_lookup c a < 4 \<longleftrightarrow> (\<exists>w. resident c a w)"
  by (rule cache40_lookup_cases [of c a]) auto

lemma cache40_lookup_le: "cache40_lookup c a \<le> 4"
  by (rule cache40_lookup_cases [of c a]) auto

lemma cache40_select_way_bound: "cache40_select_way c a < 4"
proof -
  have "unat (ch_counter c AND 3) \<le> unat (3 :: u32)"
    by (rule word_le_nat_alt [THEN iffD1], rule word_and_le1)
  then have "unat (ch_counter c AND 3) < 4" by simp
  then show ?thesis
    by (auto simp: cache40_select_way_def CACHE40_WAYS_def find_Some_iff split: option.splits)
qed

text \<open>A set with an invalid way is filled there; the counter replaces only in a full set.\<close>

lemma cache40_select_prefers_invalid:
  assumes "w < 4" "\<not> cn_valid (line40 c (cache40_set a) w)"
  shows "\<not> cn_valid (line40 c (cache40_set a) (cache40_select_way c a))"
  using assms by (auto simp: cache40_select_way_def CACHE40_WAYS_def find_Some_iff find_None_iff split: option.splits)

lemma wf_cache40_fill:
  assumes c: "wf_cache40 c" and miss: "cache40_lookup c a \<ge> 4" and w: "w < 4"
  shows "wf_cache40 (cache40_fill w a data dm c)"
  unfolding cache40_fill_def mod_less [OF w]
proof (rule wf_cache40_set_line [OF c _ w], goal_cases)
  case 2 then show ?case by (simp add: wf_line40_def CACHE40_LINE_LONGS_def)
next
  case (3 v)
  then show ?case using miss cache40_lookup_miss [of c a] by (auto simp: resident_def)
qed simp

lemma wf_cache40_mark_dirty:
  assumes c: "wf_cache40 c" and w: "w < 4" shows "wf_cache40 (cache40_mark_dirty w a c)"
proof (cases "ch_has_dirty_state c")
  case True
  have l: "wf_line40 (line40 c (cache40_set a) w)" by (simp add: wf_cache40_line c w)
  show ?thesis
    unfolding cache40_mark_dirty_def Let_def mod_less [OF w] using True
    apply simp
    apply (rule wf_cache40_set_line [OF c _ w])
    using l unique_tagsD [OF c _ _ w, of "cache40_set a"] by (auto simp: wf_line40_def)
qed (simp add: cache40_mark_dirty_def c)

text \<open>The address of a line gives back its set and its tag.\<close>

lemma set_field: "0x3F = (mask 6 :: u32)"
  by (simp add: mask_eq_exp_minus_1)

lemma line_base40_address: "line_base40 (cache40_tag a) (cache40_set a) = push_bit 4 (drop_bit 4 a)"
proof -
  have e: "(of_nat (cache40_set a) :: u32) = drop_bit 4 a AND mask 6"
    by (simp only: cache40_set_def set_field of_nat_unat) simp
  show ?thesis
    unfolding line_base40_def e cache40_tag_def cache40_sizes
  proof (rule bit_word_eqI)
    fix n :: nat assume "n < LENGTH(32)"
    then show "bit (push_bit 10 (drop_bit 10 a) OR push_bit 4 (drop_bit 4 a AND mask 6)) n =
        bit (push_bit 4 (drop_bit 4 a)) n"
      by (cases "n < 10") (auto simp: bit_push_bit_iff bit_or_iff bit_and_iff bit_mask_iff bit_drop_bit_eq)
  qed
qed

section \<open>Sweeps\<close>

lemma wf_cache40_sweep_line:
  "wf_cache40 c \<Longrightarrow> s < 64 \<Longrightarrow> w < 4 \<Longrightarrow> wf_cache40 (fst (sweep_line scope cd (s, w) (c, t, d)))"
  by (simp add: sweep_line_def Let_def wf_cache40_drop)

text \<open>A sweep over distinct places drops exactly the valid lines of its scope, and counts them.\<close>

lemma sweep_lines:
  assumes "wf_cache40 c" "distinct ps" "\<And>s w. (s, w) \<in> set ps \<Longrightarrow> s < 64 \<and> w < 4"
    "fold (sweep_line scope cd) ps (c, t, d) = (c', t', d')"
  shows "wf_cache40 c' \<and> ch_counter c' = ch_counter c \<and> ch_has_dirty_state c' = ch_has_dirty_state c \<and>
    (\<forall>s<64. \<forall>w<4. line40 c' s w =
       (if (s, w) \<in> set ps \<and> cn_valid (line40 c s w) \<and> scope s (line40 c s w) then drop40 (line40 c s w)
        else line40 c s w)) \<and>
    t' = t + length (filter (\<lambda>(s, w). cn_valid (line40 c s w) \<and> scope s (line40 c s w)) ps) \<and>
    d' = d + (if cd then length (filter (\<lambda>(s, w). cn_valid (line40 c s w) \<and> scope s (line40 c s w) \<and>
       cache40_writeback_mask (line40 c s w) \<noteq> 0) ps) else 0)"
  using assms
proof (induction ps arbitrary: c t d)
  case Nil then show ?case by simp
next
  case (Cons p ps)
  obtain s w where p: "p = (s, w)" by (cases p)
  have b: "s < 64" "w < 4" using Cons.prems(3) [of s w] by (auto simp: p)
  obtain c1 t1 d1 where st: "sweep_line scope cd p (c, t, d) = (c1, t1, d1)" by (cases "sweep_line scope cd p (c, t, d)") auto
  have wf1: "wf_cache40 c1" using wf_cache40_sweep_line [OF Cons.prems(1) b, of scope cd t d] st by (simp add: p)
  have notin: "(s, w) \<notin> set ps" "distinct ps" using Cons.prems(2) by (auto simp: p)
  have bps: "\<And>s w. (s, w) \<in> set ps \<Longrightarrow> s < 64 \<and> w < 4" using Cons.prems(3) by auto
  have run: "fold (sweep_line scope cd) ps (c1, t1, d1) = (c', t', d')" using Cons.prems(4) st by simp
  note IH = Cons.IH [OF wf1 notin(2) bps run]
  have lines: "\<And>k v. k < 64 \<Longrightarrow> v < 4 \<Longrightarrow> line40 c1 k v =
      (if k = s \<and> v = w \<and> cn_valid (line40 c s w) \<and> scope s (line40 c s w) then drop40 (line40 c s w) else line40 c k v)"
    and keep: "ch_counter c1 = ch_counter c" "ch_has_dirty_state c1 = ch_has_dirty_state c"
    and t1: "t1 = t + (if cn_valid (line40 c s w) \<and> scope s (line40 c s w) then 1 else 0)"
    and d1: "d1 = d + (if cd \<and> cn_valid (line40 c s w) \<and> scope s (line40 c s w) \<and>
        cache40_writeback_mask (line40 c s w) \<noteq> 0 then 1 else 0)"
    using st Cons.prems(1) b by (auto simp: p sweep_line_def Let_def split: if_splits)
  have same: "\<And>k v. (k, v) \<in> set ps \<Longrightarrow> line40 c1 k v = line40 c k v"
    using lines bps notin(1) by auto
  have f: "filter (\<lambda>(s, w). cn_valid (line40 c1 s w) \<and> scope s (line40 c1 s w)) ps =
      filter (\<lambda>(s, w). cn_valid (line40 c s w) \<and> scope s (line40 c s w)) ps"
    "filter (\<lambda>(s, w). cn_valid (line40 c1 s w) \<and> scope s (line40 c1 s w) \<and> cache40_writeback_mask (line40 c1 s w) \<noteq> 0) ps =
      filter (\<lambda>(s, w). cn_valid (line40 c s w) \<and> scope s (line40 c s w) \<and> cache40_writeback_mask (line40 c s w) \<noteq> 0) ps"
    by (rule filter_cong [OF refl]; clarsimp simp: same)+
  have "line40 c' k v = (if (k, v) \<in> set (p # ps) \<and> cn_valid (line40 c k v) \<and> scope k (line40 c k v)
       then drop40 (line40 c k v) else line40 c k v)" if "k < 64" "v < 4" for k v
    using IH that lines notin(1) same by (auto simp: p)
  then show ?case using IH keep t1 d1 f by (auto simp: p)
qed

definition line_places :: "(nat \<times> nat) list" where
  "line_places = List.product [0..<CACHE40_SETS] [0..<CACHE40_WAYS]"

lemma line_places: "distinct line_places" "(s, w) \<in> set line_places \<longleftrightarrow> s < 64 \<and> w < 4"
  by (auto simp: line_places_def distinct_product CACHE40_SETS_def CACHE40_WAYS_def)

lemma sweep40_lines:
  assumes c: "wf_cache40 c" and run: "sweep40 scope cd c = (c', t, d)"
  shows "wf_cache40 c'" "ch_has_dirty_state c' = ch_has_dirty_state c" "ch_counter c' = ch_counter c"
    "s < 64 \<Longrightarrow> w < 4 \<Longrightarrow> line40 c' s w =
       (if cn_valid (line40 c s w) \<and> scope s (line40 c s w) then drop40 (line40 c s w) else line40 c s w)"
    "cd \<Longrightarrow> d = length (filter (\<lambda>(s, w). cn_valid (line40 c s w) \<and> scope s (line40 c s w) \<and>
       cache40_writeback_mask (line40 c s w) \<noteq> 0) line_places)"
  using sweep_lines [OF c line_places(1) _ run [unfolded sweep40_def line_places_def [symmetric]]]
  by (auto simp: line_places(2))

lemma wf_cache40_push_page: "wf_cache40 c \<Longrightarrow> cache40_push_page a bytes c = (t, d, c') \<Longrightarrow> wf_cache40 c'"
  by (auto simp: cache40_push_page_def over_page_def split: prod.splits if_splits dest: sweep40_lines(1))

lemma wf_cache40_invalidate_page: "wf_cache40 c \<Longrightarrow> cache40_invalidate_page a bytes c = (t, c') \<Longrightarrow> wf_cache40 c'"
  by (auto simp: cache40_invalidate_page_def over_page_def split: prod.splits if_splits dest: sweep40_lines(1))

lemma wf_cache40_push_all: "wf_cache40 c \<Longrightarrow> cache40_push_all c = (t, d, c') \<Longrightarrow> wf_cache40 c'"
  by (auto simp: cache40_push_all_def split: prod.splits dest: sweep40_lines(1))

lemma wf_cache40_push_line: "wf_cache40 c \<Longrightarrow> cache40_push_line a c = (t, m, c') \<Longrightarrow> wf_cache40 c'"
  by (auto simp: cache40_push_line_def CACHE40_WAYS_def Let_def wf_cache40_drop split: if_splits)

lemma wf_cache40_invalidate_line: "wf_cache40 c \<Longrightarrow> cache40_invalidate_line a c = (b, c') \<Longrightarrow> wf_cache40 c'"
  by (auto simp: cache40_invalidate_line_def CACHE40_WAYS_def Let_def wf_cache40_drop split: if_splits)

section \<open>Pages and the lines of a page\<close>

text \<open>Two addresses of one page lie on lines of one page, whatever power of two of at least a line the page
  size is.\<close>

definition same_page :: "u32 \<Rightarrow> u32 \<Rightarrow> u32 \<Rightarrow> bool" where
  "same_page bytes a b \<longleftrightarrow> a AND NOT (bytes - 1) = b AND NOT (bytes - 1)"

lemma line_of_page:
  assumes k: "4 \<le> k" shows "push_bit 4 (drop_bit 4 (a :: u32)) AND NOT (2 ^ k - 1) = a AND NOT (2 ^ k - 1)"
proof -
  have m: "(2 ^ k - 1 :: u32) = mask k" by (simp add: mask_eq_exp_minus_1)
  show ?thesis
    unfolding m by (rule bit_word_eqI) (use k in \<open>auto simp: bit_and_iff bit_not_iff bit_mask_iff bit_push_bit_iff bit_drop_bit_eq\<close>)
qed

lemma in_page40_resident:
  assumes "resident c a w" "4 \<le> k"
  shows "in_page40 p (2 ^ k) (cache40_set a) (line40 c (cache40_set a) w) \<longleftrightarrow> same_page (2 ^ k) a p"
  using assms by (simp add: in_page40_def same_page_def resident_def line_base40_address line_of_page)

text \<open>C17: pushing a page of a power of two of bytes, at least a line, leaves none of its addresses in the
  cache, keeps the invariant of the cache, and leaves every other address in the way it was.\<close>

theorem cache40_page_pushed:
  assumes c: "wf_cache40 c" and k: "4 \<le> k" "k < 32" and run: "cache40_push_page p (2 ^ k) c = (touched, dirty, c')"
  shows "wf_cache40 c' \<and> cache40_lookup c' a = (if same_page (2 ^ k) a p then CACHE40_WAYS else cache40_lookup c a)"
proof -
  have nz: "(2 ^ k :: u32) \<noteq> 0" using k(2) by (simp add: exp_eq_zero_iff)
  have sw: "sweep40 (in_page40 p (2 ^ k)) True c = (c', touched, dirty)"
    using run nz by (simp add: cache40_push_page_def over_page_def split: prod.splits)
  note l = sweep40_lines [OF c sw]
  have res: "resident c' a w \<longleftrightarrow> resident c a w \<and> \<not> same_page (2 ^ k) a p" for w
    using in_page40_resident [OF _ k(1), of c a w p] l(4) [OF cache40_set_bound [of a], of w]
    by (auto simp: resident_def split: if_splits)
  have "cache40_lookup c' a = (if same_page (2 ^ k) a p then 4 else cache40_lookup c a)"
  proof (rule cache40_lookup_cases [of c a])
    assume h: "resident c a (cache40_lookup c a)"
    show ?thesis
    proof (cases "same_page (2 ^ k) a p")
      case True
      then have "\<not> cache40_lookup c' a < 4" by (simp add: cache40_lookup_miss res)
      then show ?thesis using cache40_lookup_le [of c' a] True by simp
    next
      case False
      then show ?thesis using cache40_lookup_hit [OF l(1)] h by (simp add: res)
    qed
  next
    assume m: "cache40_lookup c a = 4" "\<And>w. \<not> resident c a w"
    then have "\<not> cache40_lookup c' a < 4" by (simp add: cache40_lookup_miss res)
    then show ?thesis using cache40_lookup_le [of c' a] m by simp
  qed
  then show ?thesis using l(1) by (simp add: CACHE40_WAYS_def)
qed

definition sample_cache40 :: cache40 where
  "sample_cache40 = cache40_fill 0 0x1230 [1, 2, 3, 4] 5 (cache40_init True)"

lemma cache40_init_empty: "cache40_lookup (cache40_init d) a = 4"
proof -
  have "\<not> resident (cache40_init d) a w" for w
    by (cases "w < 4") (simp_all add: resident_def cache40_init_def line40_def cache40_sizes)
  then show ?thesis by (metis cache40_lookup_cases)
qed

theorem cache40_page_pushed_witness:
  "cache40_lookup (snd (snd (cache40_push_page 0x1000 0x1000 sample_cache40))) 0x1230 = CACHE40_WAYS \<and>
   wf_cache40 (snd (snd (cache40_push_page 0x2000 0x1000 sample_cache40)))"
proof -
  have c: "wf_cache40 sample_cache40"
    unfolding sample_cache40_def by (rule wf_cache40_fill) (simp_all add: wf_cache40_init cache40_init_empty)
  have k: "(4::nat) \<le> 12" "(12::nat) < 32" by simp_all
  have "wf_cache40 (snd (snd (cache40_push_page p 0x1000 sample_cache40))) \<and>
      cache40_lookup (snd (snd (cache40_push_page p 0x1000 sample_cache40))) a =
        (if same_page 0x1000 a p then CACHE40_WAYS else cache40_lookup sample_cache40 a)" for p a
    using cache40_page_pushed [OF c k, of p _ _ _ a] by (cases "cache40_push_page p 0x1000 sample_cache40") simp
  from this [of "0x1000" "0x1230"] this [of "0x2000" 0] show ?thesis by (simp add: same_page_def)
qed

section \<open>The state tables lose dirty data only where they say so\<close>



end
