(* ===== verification/M68040_Access.thy ===== *)
theory M68040_Access
  imports Memory_View M68040_Cache M68040_Mmu
begin

unbundle bit_operations_syntax

text \<open>
  A logical access of the MC68040, the second half of \<^verbatim>\<open>src/core/cpu/m68030/ap_m68030_access.{h,c}\<close>: the
  MMU first, its table search running bus cycles and reading through the data cache, then the cache by the
  physical address. Reads that miss fill a line and push the dirty line they replace; writes go through or
  stay in the line, as the page's cache mode says; an inhibited access pushes the line it finds.

  A context splits as it does for the MC68030: \<open>context40\<close> is what an access reads, the shared callbacks in
  \<open>cx_path\<close>; \<open>state40\<close> is what it changes. Both caches are in the state because the two sides share the data
  cache: \<^verbatim>\<open>cache_040\<close> is the side's own, \<^verbatim>\<open>table_cache_040\<close> is the data cache on both.
\<close>

section \<open>Contexts\<close>

definition LINE_BURST_CLOCKS :: nat where "LINE_BURST_CLOCKS = 5"
definition LINE_BURST_INHIBITED_CLOCKS :: nat where "LINE_BURST_INHIBITED_CLOCKS = 8"

record 'm context40 =
  cx_path :: "'m access_ctx"
  cx_mmu :: "mmu_regs40 option"
  cx_data_side :: bool
  cx_no_allocate :: bool
  cx_table_cached :: bool
  cx_table_cache_enabled :: bool
  cx_table_fetch :: "'m fetch40"
  cx_table_update :: "'m update40 option"

record 'm state40 =
  s4_icache :: cache40
  s4_dcache :: cache40
  s4_atc :: m68040_atc
  s4_bus :: bus
  s4_machine :: 'm

definition own_cache :: "'m context40 \<Rightarrow> 'm state40 \<Rightarrow> cache40" where
  "own_cache cx st = (if cx_data_side cx then s4_dcache st else s4_icache st)"

definition set_own_cache :: "'m context40 \<Rightarrow> cache40 \<Rightarrow> 'm state40 \<Rightarrow> 'm state40" where
  "set_own_cache cx c st = (if cx_data_side cx then st\<lparr>s4_dcache := c\<rparr> else st\<lparr>s4_icache := c\<rparr>)"

section \<open>The cycles outside the cache\<close>

definition read_long40 :: "'m access_ctx \<Rightarrow> u32 \<Rightarrow> u8 \<Rightarrow> 'm \<Rightarrow> (u32 \<times> bool) option \<times> 'm" where
  "read_long40 ax physical fc m =
     (let (answer, m) = ax_fill ax (physical AND NOT 3) fc m in
      if fa_termination answer = TERM_BERR then (None, m)
      else (Some (fa_data answer ! 0, fa_burst_acknowledge answer), m))"

definition external_read40 :: "'m access_ctx \<Rightarrow> u32 \<Rightarrow> u8 \<Rightarrow> access_result \<Rightarrow> 'm \<Rightarrow> access_result \<times> 'm" where
  "external_read40 ax physical fc out m =
     (let out = out\<lparr>ar_clocks := ar_clocks out + MIN_BUS_CLOCKS\<rparr>; (long, m) = read_long40 ax physical fc m in
      case long of
        None \<Rightarrow> (out\<lparr>ar_fault := True\<rparr>, m)
      | Some (v, burst) \<Rightarrow>
          let (w, m) = waits ax (physical AND NOT 3) True m
          in (out\<lparr>ar_clocks := ar_clocks out + w, ar_value := v, ar_ok := True\<rparr>, m))"

definition external_write40 :: "'m access_ctx \<Rightarrow> u32 \<Rightarrow> u32 \<Rightarrow> nat \<Rightarrow> access_result \<Rightarrow> 'm \<Rightarrow>
    bool \<times> access_result \<times> 'm" where
  "external_write40 ax physical value sz out m =
     (let (stored, m) = store_out ax physical value sz m in
      if \<not> stored then (False, out\<lparr>ar_fault := True\<rparr>, m)
      else let (w, m) = waits ax physical False m
           in (True, out\<lparr>ar_clocks := ar_clocks out + (MIN_BUS_CLOCKS + w), ar_value := value, ar_ok := True\<rparr>, m))"

text \<open>The shift is an unsigned subtraction in the code; a chunk never crosses a long word, so it never wraps.\<close>

definition merge40 :: "u32 \<Rightarrow> u32 \<Rightarrow> u32 \<Rightarrow> nat \<Rightarrow> u32" where
  "merge40 old physical value sz =
     (let shift = (4 - unat (physical AND 3) - sz) * 8;
          field = (if sz \<ge> 4 then 0xFFFFFFFF else push_bit (sz * 8) 1 - 1)
      in (old AND NOT (push_bit shift field)) OR push_bit shift (value AND field))"

section \<open>Pushes\<close>

text \<open>The loop over the long words of a push. Its answer is the address and the value of the store that
  failed, or nothing.\<close>

fun push_longs :: "'m access_ctx \<Rightarrow> u32 \<Rightarrow> u32 list \<Rightarrow> u32 \<Rightarrow> nat list \<Rightarrow> nat \<Rightarrow> 'm \<Rightarrow>
    (u32 \<times> u32) option \<times> nat \<times> 'm" where
  "push_longs ax base data targets [] clocks m = (None, clocks, m)"
| "push_longs ax base data targets (i # is) clocks m =
     (if drop_bit i targets AND 1 = 0 then push_longs ax base data targets is clocks m
      else
        let at = base + 4 * of_nat i; (stored, m) = store_out ax at (data ! i) 4 m in
        if \<not> stored then (Some (at, data ! i), clocks, m)
        else let (w, m) = waits ax at False m in push_longs ax base data targets is (clocks + w) m)"

definition push_line40 :: "'m access_ctx \<Rightarrow> cache_line40 \<Rightarrow> nat \<Rightarrow> nat \<Rightarrow> 'm \<Rightarrow> (u32 \<times> u32) option \<times> nat \<times> 'm" where
  "push_line40 ax l s clocks m =
     (let dm = cache40_writeback_mask l in
      if dm = 0 then (None, clocks, m)
      else
        let dirty = length (filter (\<lambda>i. drop_bit i dm AND 1 \<noteq> 0) [0..<CACHE40_LINE_LONGS]);
            targets = (if dirty = 1 then dm else 0xF);
            clocks = clocks + (if dirty = 1 then MIN_BUS_CLOCKS else LINE_BURST_INHIBITED_CLOCKS)
        in push_longs ax (line_base40 (cn_tag l) s) (cn_data l) targets [0..<CACHE40_LINE_LONGS] clocks m)"

definition evict_line40 :: "'m access_ctx \<Rightarrow> u32 \<Rightarrow> cache40 \<times> nat \<times> 'm \<Rightarrow> bool \<times> cache40 \<times> nat \<times> 'm" where
  "evict_line40 ax physical = (\<lambda>(c, clocks, m).
     let way = cache40_lookup c physical in
     if way \<ge> CACHE40_WAYS then (True, c, clocks, m)
     else
       let s = cache40_set physical; (failed, clocks, m) = push_line40 ax (line40 c s way) s clocks m
       in (failed = None, snd (cache40_invalidate_line physical c), clocks, m))"

text \<open>The scopes of a push: 1 is a line, 2 a page, anything else the whole cache.\<close>

definition in_scope40 :: "nat \<Rightarrow> u32 \<Rightarrow> u32 \<Rightarrow> nat \<Rightarrow> cache_line40 \<Rightarrow> bool" where
  "in_scope40 scope address bytes s l \<longleftrightarrow>
     (let base = line_base40 (cn_tag l) s in
      if scope = 1 then base = address AND 0xFFFFFFF0
      else if scope = 2 then bytes \<noteq> 0 \<and> base AND NOT (bytes - 1) = address AND NOT (bytes - 1)
      else True)"

fun push_places :: "'m access_ctx \<Rightarrow> (nat \<Rightarrow> cache_line40 \<Rightarrow> bool) \<Rightarrow> cache40 \<Rightarrow> (nat \<times> nat) list \<Rightarrow> nat \<times> nat \<times> 'm \<Rightarrow>
    (u32 \<times> u32) option \<times> nat \<times> nat \<times> 'm" where
  "push_places ax scope c [] (lines, clocks, m) = (None, lines, clocks, m)"
| "push_places ax scope c ((s, w) # places) (lines, clocks, m) =
     (let l = line40 c s w in
      if \<not> cn_valid l \<or> cache40_writeback_mask l = 0 \<or> \<not> scope s l
      then push_places ax scope c places (lines, clocks, m)
      else
        let (failed, clocks, m) = push_line40 ax l s clocks m in
        case failed of
          Some at \<Rightarrow> (Some at, lines, clocks, m)
        | None \<Rightarrow> push_places ax scope c places (lines + 1, clocks, m))"

definition push_dirty40 :: "'m access_ctx \<Rightarrow> cache40 \<Rightarrow> nat \<Rightarrow> u32 \<Rightarrow> u32 \<Rightarrow> nat \<times> nat \<times> 'm \<Rightarrow>
    (u32 \<times> u32) option \<times> nat \<times> nat \<times> 'm" where
  "push_dirty40 ax c scope address bytes = push_places ax (in_scope40 scope address bytes) c line_places"

section \<open>Fills\<close>

datatype fill40 = FILL_CACHED | FILL_UNCACHED | FILL_FAULT

text \<open>The four reads of a line, from the long word asked for and around. The answer is the number of the read
  that failed, or nothing.\<close>

fun fill_longs :: "'m access_ctx \<Rightarrow> u32 \<Rightarrow> nat \<Rightarrow> u8 \<Rightarrow> nat list \<Rightarrow> u32 list \<times> bool \<times> nat \<times> nat \<times> 'm \<Rightarrow>
    nat option \<times> u32 list \<times> bool \<times> nat \<times> nat \<times> 'm" where
  "fill_longs ax base first fc [] s = (None, s)"
| "fill_longs ax base first fc (i # is) (data, burst, cycles, clocks, m) =
     (let entry = (first + i) mod 4; at = base + 4 * of_nat entry; (long, m) = read_long40 ax at fc m in
      case long of
        None \<Rightarrow> (Some i, data, burst, cycles, clocks + MIN_BUS_CLOCKS * (cycles + 1), m)
      | Some (v, acknowledged) \<Rightarrow>
          let (w, m) = waits ax at True m
          in fill_longs ax base first fc is
               (data[entry := v], if i = 0 then acknowledged else burst, cycles + 1, clocks + w, m))"

definition allocate_line40 :: "'m access_ctx \<Rightarrow> u32 \<Rightarrow> u8 \<Rightarrow> cache40 \<times> nat \<times> 'm \<Rightarrow>
    fill40 \<times> u32 \<times> nat \<times> cache40 \<times> nat \<times> 'm" where
  "allocate_line40 ax physical fc = (\<lambda>(c, clocks, m).
     let s = cache40_set physical; way = cache40_select_way c physical; pushed = line40 c s way;
         was_dirty = (cache40_line_state pushed = LINE_DIRTY);
         c = set_line40 s way (pushed\<lparr>cn_valid := False\<rparr>) c;
         first = cache40_long physical;
         (stopped, data, burst, cycles, clocks, m) =
           fill_longs ax (physical AND 0xFFFFFFF0) first fc [0..<CACHE40_LINE_LONGS]
             (replicate 4 0, False, 0, clocks, m)
     in case stopped of
          Some i \<Rightarrow> (if i = 0 then FILL_FAULT else FILL_UNCACHED, data ! first, way,
                     if was_dirty then set_line40 s way pushed c else c, clocks, m)
        | None \<Rightarrow>
            let clocks = clocks + (if burst then LINE_BURST_CLOCKS else LINE_BURST_INHIBITED_CLOCKS);
                c = cache40_fill way physical data 0 c;
                (failed, clocks, m) = (if was_dirty then push_line40 ax pushed s clocks m else (None, clocks, m))
            in (if failed = None then FILL_CACHED else FILL_FAULT, data ! first, way, c, clocks, m))"

section \<open>The table search through the data cache\<close>

definition tables_use_cache :: "'m context40 \<Rightarrow> bool" where
  "tables_use_cache cx \<longleftrightarrow> cx_table_cached cx \<and> cx_table_cache_enabled cx \<and> \<not> ax_cache_disable (cx_path cx)"

text \<open>A side without a table cache gives its search the plain callbacks, which is what these do then.\<close>

definition table_fetch_through :: "'m context40 \<Rightarrow> u32 \<Rightarrow> cache40 \<times> 'm \<Rightarrow> u32 option \<times> cache40 \<times> 'm" where
  "table_fetch_through cx address = (\<lambda>(c, m).
     let way = cache40_lookup c address in
     if tables_use_cache cx \<and> way < CACHE40_WAYS
     then (Some (cn_data (line40 c (cache40_set address) way) ! cache40_long address), c, m)
     else let (v, m) = cx_table_fetch cx address m in (v, c, m))"

definition table_update_through :: "'m context40 \<Rightarrow> 'm update40 \<Rightarrow> u32 \<Rightarrow> bool \<Rightarrow> bool \<Rightarrow> bool \<Rightarrow> cache40 \<times> 'm \<Rightarrow>
    bool \<times> cache40 \<times> 'm" where
  "table_update_through cx update address set_used set_modified locked = (\<lambda>(c, m).
     let (pushed, c, clocks, m) =
           (if tables_use_cache cx then evict_line40 (cx_path cx) address (c, 0, m) else (True, c, 0, m))
     in if \<not> pushed then (False, c, m)
        else let (ok, m) = update address set_used set_modified locked m in (ok, c, m))"

text \<open>The state of a search: the data cache, the bus, the clocks so far and the machine.\<close>

type_synonym 'm search40_state = "cache40 \<times> bus \<times> nat \<times> 'm"

definition search_fetch40 :: "'m context40 \<Rightarrow> 'm search40_state fetch40" where
  "search_fetch40 cx address = (\<lambda>(c, s).
     let (bus, clocks, m) = descriptor_cycle (cx_path cx) address True s;
         (v, c, m) = table_fetch_through cx address (c, m)
     in (v, c, bus, clocks, m))"

definition search_update40 :: "'m context40 \<Rightarrow> 'm update40 \<Rightarrow> 'm search40_state update40" where
  "search_update40 cx update address set_used set_modified locked = (\<lambda>(c, s).
     let s = (if locked then descriptor_cycle (cx_path cx) address True s else s);
         (bus, clocks, m) = descriptor_cycle (cx_path cx) address False s;
         (ok, c, m) = table_update_through cx update address set_used set_modified locked (c, m)
     in (ok, c, bus, clocks, m))"

text \<open>Nothing without an MMU; otherwise what the MMU answers and the clocks of its search.\<close>

definition translate_040 :: "'m context40 \<Rightarrow> u32 \<Rightarrow> u8 \<Rightarrow> bool \<Rightarrow> 'm state40 \<Rightarrow>
    (mmu_result40 \<times> nat) option \<times> 'm state40" where
  "translate_040 cx logical fc write st =
     (case cx_mmu cx of
        None \<Rightarrow> (None, st)
      | Some regs \<Rightarrow>
          let (r, atc, c, bus, clocks, m) = translate40 regs logical (ucast fc) write (search_fetch40 cx)
                (map_option (search_update40 cx) (cx_table_update cx))
                (s4_atc st, s4_dcache st, s4_bus st, 0, s4_machine st)
          in (Some (r, clocks), st\<lparr>s4_atc := atc, s4_dcache := c, s4_bus := bus, s4_machine := m\<rparr>))"

definition mmu_fault_of :: "mmu_reason40 \<Rightarrow> mmu_fault" where
  "mmu_fault_of why = (case why of
     FAULT_NOT_RESIDENT \<Rightarrow> MMU_FAULT_INVALID | FAULT_PROTECTION \<Rightarrow> MMU_FAULT_PROTECTION
   | FAULT_SEARCH_BUS \<Rightarrow> MMU_FAULT_SEARCH_BUS | FAULT_CACHED \<Rightarrow> MMU_FAULT_CACHED | FAULT_NONE \<Rightarrow> MMU_FAULT_CACHED)"

section \<open>Accesses\<close>

definition cache_on40 :: "'m context40 \<Rightarrow> bool" where
  "cache_on40 cx \<longleftrightarrow> ax_cache_enabled (cx_path cx) \<and> \<not> ax_cache_disable (cx_path cx)"

definition inhibited40 :: "'m context40 \<Rightarrow> cache_mode40 \<Rightarrow> bool \<Rightarrow> bool" where
  "inhibited40 cx mode board \<longleftrightarrow> mode = CM_NONCACHABLE \<or> mode = CM_SERIALIZED \<or> ax_rmc (cx_path cx) \<or> board"

text \<open>The access of a cache that is off or inhibited, after the line it finds has been pushed.\<close>

definition evict_own :: "'m context40 \<Rightarrow> u32 \<Rightarrow> nat \<Rightarrow> 'm state40 \<Rightarrow> bool \<times> nat \<times> 'm state40" where
  "evict_own cx physical clocks st =
     (if \<not> cache_on40 cx then (True, clocks, st)
      else let (ok, c, clocks, m) = evict_line40 (cx_path cx) physical (own_cache cx st, clocks, s4_machine st)
           in (ok, clocks, set_own_cache cx c (st\<lparr>s4_machine := m\<rparr>)))"

text \<open>A device read of exactly the size asked for.\<close>

definition device_read40 :: "'m context40 \<Rightarrow> (u32 \<Rightarrow> u8 \<Rightarrow> nat \<Rightarrow> 'm \<Rightarrow> u32 option \<times> 'm) \<Rightarrow> u32 \<Rightarrow> u8 \<Rightarrow> nat \<Rightarrow> nat \<Rightarrow>
    access_result \<Rightarrow> 'm state40 \<Rightarrow> access_result \<times> 'm state40" where
  "device_read40 cx read_sized physical fc sz search_clocks out st =
     (let (narrow, m) = read_sized physical fc sz (s4_machine st) in
      case narrow of
        None \<Rightarrow> (out\<lparr>ar_fault := True\<rparr>, st\<lparr>s4_machine := m\<rparr>)
      | Some narrow \<Rightarrow>
          let (w, m) = waits (cx_path cx) physical True m
          in (out\<lparr>ar_value := push_bit ((4 - unat (physical AND 3) - sz) * 8) narrow, ar_ok := True,
                  ar_clocks := MIN_BUS_CLOCKS + w + search_clocks\<rparr>, st\<lparr>s4_machine := m\<rparr>))"

text \<open>A read once the physical address and its mode are known.\<close>

definition read_uncached40 :: "'m context40 \<Rightarrow> u32 \<Rightarrow> u8 \<Rightarrow> access_result \<Rightarrow> 'm state40 \<Rightarrow> access_result \<times> 'm state40" where
  "read_uncached40 cx physical fc out st =
     (let (out, m) = external_read40 (cx_path cx) physical fc out (s4_machine st) in (out, st\<lparr>s4_machine := m\<rparr>))"

definition read_physical40 :: "'m context40 \<Rightarrow> u32 \<Rightarrow> u8 \<Rightarrow> cache_mode40 \<Rightarrow> bool \<Rightarrow> access_result \<Rightarrow> 'm state40 \<Rightarrow>
    access_result \<times> 'm state40" where
  "read_physical40 cx physical fc mode board out st =
     (if \<not> cache_on40 cx \<or> inhibited40 cx mode board
      then
        let (ok, clocks, st) = evict_own cx physical (ar_clocks out) st; out = out\<lparr>ar_clocks := clocks\<rparr>
        in if \<not> ok then (out\<lparr>ar_fault := True\<rparr>, st) else read_uncached40 cx physical fc out st
      else
        let c = own_cache cx st; way = cache40_lookup c physical in
        if way < CACHE40_WAYS
        then (out\<lparr>ar_value := cn_data (line40 c (cache40_set physical) way) ! cache40_long physical,
                  ar_ok := True, ar_cache_hit := True\<rparr>, set_own_cache cx (cache40_tick c) st)
        else if cx_no_allocate cx then read_uncached40 cx physical fc out st
        else
          let (fill, v, way, c, clocks, m) =
                allocate_line40 (cx_path cx) physical fc (c, ar_clocks out, s4_machine st);
              st = set_own_cache cx (cache40_tick c) (st\<lparr>s4_machine := m\<rparr>);
              out = out\<lparr>ar_clocks := clocks\<rparr>
          in if fill = FILL_FAULT then (out\<lparr>ar_fault := True\<rparr>, st)
             else (out\<lparr>ar_value := v, ar_ok := True\<rparr>, st))"

definition read_at40 :: "'m context40 \<Rightarrow> u32 \<Rightarrow> u8 \<Rightarrow> nat \<Rightarrow> cache_mode40 \<Rightarrow> nat \<Rightarrow> access_result \<Rightarrow> 'm state40 \<Rightarrow>
    access_result \<times> 'm state40" where
  "read_at40 cx physical fc sz mode search_clocks out st =
     (let out = out\<lparr>ar_phys := physical\<rparr>; board = inhibits (cx_path cx) physical (s4_machine st) in
      case (if board \<and> sz < 4 then ax_read_sized (cx_path cx) else None) of
        Some read_sized \<Rightarrow> device_read40 cx read_sized physical fc sz search_clocks out st
      | None \<Rightarrow> read_physical40 cx physical fc mode board out st)"

definition access_read40 :: "'m context40 \<Rightarrow> u32 \<Rightarrow> u8 \<Rightarrow> nat \<Rightarrow> 'm state40 \<Rightarrow> access_result \<times> 'm state40" where
  "access_read40 cx logical fc sz st =
     (let (mmu, st) = translate_040 cx logical fc False st;
          out = no_result\<lparr>ar_mmu_consulted := True\<rparr>;
          out = (case mmu of None \<Rightarrow> out | Some (r, _) \<Rightarrow> out\<lparr>ar_descriptor_fetches := rs_fetches r\<rparr>)
      in case mmu of
           Some (r, search_clocks) \<Rightarrow>
             if rs_status r = MMU_FAULT
             then (out\<lparr>ar_translation_fault := True, ar_fault := True\<rparr>,
                   st\<lparr>s4_machine := report_mmu_fault (cx_path cx) logical fc False (mmu_fault_of (rs_reason r))
                        (s4_machine st)\<rparr>)
             else read_at40 cx (rs_physical r) fc sz (rs_cache_mode r) search_clocks out st
         | None \<Rightarrow> read_at40 cx logical fc sz CM_WRITE_THROUGH 0 out st)"

text \<open>A write once the physical address and its mode are known.\<close>

definition write_uncached40 :: "'m context40 \<Rightarrow> u32 \<Rightarrow> u32 \<Rightarrow> nat \<Rightarrow> access_result \<Rightarrow> 'm state40 \<Rightarrow>
    bool \<times> access_result \<times> 'm state40" where
  "write_uncached40 cx physical value sz out st =
     (let (ok, out, m) = external_write40 (cx_path cx) physical value sz out (s4_machine st)
      in (ok, out, st\<lparr>s4_machine := m\<rparr>))"

text \<open>The bytes of the write, into the line that holds them.\<close>

definition write_line40 :: "nat \<Rightarrow> u32 \<Rightarrow> u32 \<Rightarrow> nat \<Rightarrow> cache40 \<Rightarrow> cache40" where
  "write_line40 way physical value sz c =
     (let s = cache40_set physical; l = line40 c s way; entry = cache40_long physical
      in set_line40 s way (l\<lparr>cn_data := (cn_data l)[entry := merge40 (cn_data l ! entry) physical value sz]\<rparr>) c)"

definition write_copyback40 :: "'m context40 \<Rightarrow> nat \<Rightarrow> u32 \<Rightarrow> u32 \<Rightarrow> nat \<Rightarrow> access_result \<Rightarrow> 'm state40 \<Rightarrow>
    access_result \<times> 'm state40" where
  "write_copyback40 cx way physical value sz out st =
     (out\<lparr>ar_value := value, ar_ok := True\<rparr>,
      set_own_cache cx (cache40_mark_dirty way physical (write_line40 way physical value sz (own_cache cx st))) st)"

definition write_physical40 :: "'m context40 \<Rightarrow> u32 \<Rightarrow> u8 \<Rightarrow> u32 \<Rightarrow> nat \<Rightarrow> cache_mode40 \<Rightarrow> bool \<Rightarrow> access_result \<Rightarrow>
    'm state40 \<Rightarrow> access_result \<times> 'm state40" where
  "write_physical40 cx physical fc value sz mode board out st =
     (if \<not> cache_on40 cx \<or> inhibited40 cx mode board
      then
        let (ok, clocks, st) = evict_own cx physical (ar_clocks out) st; out = out\<lparr>ar_clocks := clocks\<rparr>
        in if \<not> ok then (out\<lparr>ar_fault := True\<rparr>, st) else snd (write_uncached40 cx physical value sz out st)
      else
        let c = own_cache cx st; way = cache40_lookup c physical; st = set_own_cache cx (cache40_tick c) st in
        if mode = CM_COPYBACK
        then
          if way < CACHE40_WAYS then write_copyback40 cx way physical value sz out st
          else if cx_no_allocate cx then snd (write_uncached40 cx physical value sz out st)
          else
            let (fill, v, way, c, clocks, m) =
                  allocate_line40 (cx_path cx) physical fc (own_cache cx st, ar_clocks out, s4_machine st);
                st = set_own_cache cx c (st\<lparr>s4_machine := m\<rparr>); out = out\<lparr>ar_clocks := clocks\<rparr>
            in (case fill of
                  FILL_FAULT \<Rightarrow> (out\<lparr>ar_fault := True\<rparr>, st)
                | FILL_UNCACHED \<Rightarrow> snd (write_uncached40 cx physical value sz out st)
                | FILL_CACHED \<Rightarrow> write_copyback40 cx way physical value sz out st)
        else
          let (ok, out, st) = write_uncached40 cx physical value sz out st in
          (out, if ok \<and> way < CACHE40_WAYS
                then set_own_cache cx (write_line40 way physical value sz (own_cache cx st)) st else st))"

definition write_at40 :: "'m context40 \<Rightarrow> u32 \<Rightarrow> u8 \<Rightarrow> u32 \<Rightarrow> nat \<Rightarrow> cache_mode40 \<Rightarrow> access_result \<Rightarrow> 'm state40 \<Rightarrow>
    access_result \<times> 'm state40" where
  "write_at40 cx physical fc value sz mode out st =
     write_physical40 cx physical fc value sz mode (inhibits (cx_path cx) physical (s4_machine st))
       (out\<lparr>ar_phys := physical\<rparr>) st"

definition access_write40 :: "'m context40 \<Rightarrow> u32 \<Rightarrow> u8 \<Rightarrow> u32 \<Rightarrow> nat \<Rightarrow> 'm state40 \<Rightarrow> access_result \<times> 'm state40" where
  "access_write40 cx logical fc value sz st =
     (let (mmu, st) = translate_040 cx logical fc True st;
          out = no_result\<lparr>ar_mmu_consulted := True\<rparr>;
          out = (case mmu of None \<Rightarrow> out
                 | Some (r, search_clocks) \<Rightarrow> out\<lparr>ar_descriptor_fetches := rs_fetches r, ar_clocks := search_clocks\<rparr>)
      in case mmu of
           Some (r, _) \<Rightarrow>
             if rs_status r = MMU_FAULT
             then (out\<lparr>ar_translation_fault := True, ar_fault := True\<rparr>,
                   st\<lparr>s4_machine := report_mmu_fault (cx_path cx) logical fc True (mmu_fault_of (rs_reason r))
                        (s4_machine st)\<rparr>)
             else write_at40 cx (rs_physical r) fc value sz (rs_cache_mode r) out st
         | None \<Rightarrow> write_at40 cx logical fc value sz CM_WRITE_THROUGH out st)"

end
