(* ===== verification/M68040_Copyback.thy ===== *)
theory M68040_Copyback
  imports M68040_Access
begin

unbundle bit_operations_syntax

text \<open>
  What a program sees through the MC68040's data cache: the long word of the resident line if there is one,
  the long word of memory otherwise. The pushes, fills, evictions and writes of \<^verbatim>\<open>ap_m68030_access.c\<close> are
  shown to keep that view, or to change it by exactly the bytes written, whatever the cache mode: the copy
  in memory may be old, the view never is.

  The interface is \<open>memory_bus\<close>; \<open>cached_memory\<close> adds the descriptor callbacks of the machine, and gives the
  contract \<open>descriptor_memory\<close> once more, for a table search that reads and writes through the cache.
\<close>

section \<open>The long words of a line\<close>

definition line_at :: "u32 \<Rightarrow> nat \<Rightarrow> u32" where
  "line_at a i = push_bit 4 (drop_bit 4 a) + 4 * of_nat i"

lemma unat_and_low: "unat (x AND 0x3F) = unat x mod 64" for x :: u32
proof -
  have "(0x3F :: u32) = mask 6" by (simp add: mask_eq_exp_minus_1)
  then have "x AND 0x3F = take_bit 6 x" by (simp add: take_bit_eq_mask)
  also have "unat \<dots> = take_bit 6 (unat x)" by (rule unsigned_take_bit_eq)
  finally show ?thesis by (simp add: take_bit_eq_mod)
qed

lemma cache40_parts:
  "cache40_set a = unat a div 16 mod 64" "unat (cache40_tag a) = unat a div 1024" "cache40_long a = unat a div 4 mod 4"
  by (simp_all add: cache40_set_def cache40_tag_def cache40_long_def unat_and_low low_two_mod drop_bit_eq_div unat_div)

lemma line_arith:
  fixes x i :: nat
  assumes "i < 4" shows "(16 * x + 4 * i) div 16 = x" "(16 * x + 4 * i) div 4 = 4 * x + i" "(4 * x + i) mod 4 = i"
  using assms by presburger+

lemma unat_line_at:
  assumes "i < 4" shows "unat (line_at a i) = 16 * (unat a div 16) + 4 * i"
proof -
  have b: "unat a < 2 ^ 32" using unsigned_less [of a, where ?'a = nat] by simp
  have p: "unat (push_bit 4 (drop_bit 4 a)) = 16 * (unat a div 16)"
    using b by (simp add: push_bit_eq_mult drop_bit_eq_div unat_word_ariths unat_div)
  have k: "unat (4 * of_nat i :: u32) = 4 * i" using assms by (simp add: unat_word_ariths unat_of_nat)
  have "unat a div 16 \<le> (2 ^ 32 - 1) div 16" by (rule div_le_mono) (use b in simp)
  then have "16 * (unat a div 16) + 4 * i < 2 ^ 32" using assms by simp
  from mod_less [OF this] show ?thesis
    unfolding line_at_def unat_word_ariths(1) p k by simp
qed

lemma line_at_parts:
  assumes "i < 4"
  shows "cache40_set (line_at a i) = cache40_set a" "cache40_tag (line_at a i) = cache40_tag a"
    "cache40_long (line_at a i) = i" "line_at a i AND 3 = 0" "line_at a i AND NOT 3 = line_at a i"
proof -
  note u = unat_line_at [OF assms, of a]
  show "cache40_set (line_at a i) = cache40_set a" "cache40_long (line_at a i) = i"
    by (simp_all add: cache40_parts u line_arith [OF assms] assms)
  have "n div 1024 = n div 16 div 64" for n :: nat by (simp flip: div_mult2_eq)
  then show "cache40_tag (line_at a i) = cache40_tag a"
    unfolding word_unat_eq_iff cache40_parts u by (simp only: u \<open>\<And>n. n div 1024 = n div 16 div 64\<close> line_arith [OF assms])
  have "unat (line_at a i AND 3) = 0" using assms by (simp add: low_two_mod u)
  then show low: "line_at a i AND 3 = 0" by (simp add: unat_eq_zero)
  show "line_at a i AND NOT 3 = line_at a i" using long_place(1) [OF low, of 0] by simp
qed

definition same_line :: "u32 \<Rightarrow> u32 \<Rightarrow> bool" where
  "same_line a q \<longleftrightarrow> cache40_set q = cache40_set a \<and> cache40_tag q = cache40_tag a"

lemma same_line_at: "i < 4 \<Longrightarrow> same_line a (line_at a i)"
  by (simp add: same_line_def line_at_parts)

lemma line_at_of:
  assumes "same_line a q" shows "q AND NOT 3 = line_at a (cache40_long q)"
proof -
  have "unat q div 1024 = unat a div 1024" "unat q div 16 mod 64 = unat a div 16 mod 64"
    using assms unfolding same_line_def by (simp_all add: cache40_parts(1) flip: cache40_parts(2))
  then have "unat q div 16 div 64 = unat a div 16 div 64" "unat q div 16 mod 64 = unat a div 16 mod 64"
    by (simp_all flip: div_mult2_eq)
  then have "unat q div 16 = unat a div 16" by (metis div_mod_decomp)
  then have "unat q div 4 div 4 = unat a div 16" by (simp flip: div_mult2_eq)
  then have "4 * (unat q div 4) = 16 * (unat a div 16) + 4 * (unat q div 4 mod 4)"
    using div_mult_mod_eq [of "unat q div 4" 4] by simp
  then show ?thesis
    unfolding word_unat_eq_iff aligned_div by (simp add: unat_line_at cache40_parts(3))
qed

lemma same_line_own: "a AND NOT 3 = line_at a (cache40_long a)"
  by (rule line_at_of) (simp add: same_line_def)

lemma aligned_parts:
  "cache40_set (a AND NOT 3) = cache40_set a" "cache40_tag (a AND NOT 3) = cache40_tag a"
  "cache40_long (a AND NOT 3) = cache40_long a"
  unfolding same_line_own by (simp_all add: line_at_parts)

lemma same_long:
  assumes "same_line a q" shows "cache40_long q = cache40_long a \<longleftrightarrow> q AND NOT 3 = a AND NOT 3"
  using line_at_of [OF assms] same_line_own [of a] aligned_parts(3) [of q] aligned_parts(3) [of a] by metis

text \<open>The address a line is filed under.\<close>

lemma line_base40_parts:
  assumes "s < 64" "t < 0x400000"
  shows "cache40_set (line_base40 t s) = s" "cache40_tag (line_base40 t s) = t"
    "push_bit 4 (drop_bit 4 (line_base40 t s)) = line_base40 t s"
proof -
  have t: "unat t < 0x400000" using assms(2) by (simp add: word_less_nat_alt)
  have s: "unat (of_nat s :: u32) = s" using assms(1) by (simp add: unat_of_nat)
  have "line_base40 t s = push_bit 10 t + push_bit 4 (of_nat s)"
    unfolding line_base40_def cache40_sizes
  proof (rule disjunctive_add_eq_or [symmetric], rule bit_word_eqI)
    fix n assume "n < LENGTH(32)"
    have "n < 6" if "bit (of_nat s :: u32) n" for n
    proof -
      have "(of_nat s :: u32) = take_bit 6 (of_nat s)"
        using assms(1) s take_bit_self_iff by (simp add: take_bit_eq_mod word_unat_eq_iff unat_mod)
      then show ?thesis using that by (metis bit_take_bit_iff)
    qed
    then show "bit (push_bit 10 t AND push_bit 4 (of_nat s)) n = bit (0 :: u32) n"
      by (force simp: bit_and_iff bit_push_bit_iff)
  qed
  then have u: "unat (line_base40 t s) = 1024 * unat t + 16 * s"
    using t s assms(1) by (simp add: push_bit_eq_mult unat_word_ariths)
  show "cache40_set (line_base40 t s) = s" using assms(1) by (simp add: cache40_parts u)
  show "cache40_tag (line_base40 t s) = t"
    unfolding word_unat_eq_iff cache40_parts u using assms(1) by presburger
  have "line_at (line_base40 t s) 0 = line_base40 t s"
    unfolding word_unat_eq_iff using unat_line_at [of 0 "line_base40 t s"] by (simp add: u)
  then show "push_bit 4 (drop_bit 4 (line_base40 t s)) = line_base40 t s" by (simp add: line_at_def)
qed

lemma be_long_store:
  assumes "P AND 3 = 0" "Q AND 3 = 0"
  shows "be_long (store_bytes P 4 v f) Q = (if Q = P then v else be_long f Q)"
proof -
  have here: "P AND NOT 3 = P" using long_place(1) [OF assms(1), of 0] by simp
  have fit: "unat (P AND 3) + 4 \<le> 4" using assms(1) by simp
  have "merge_lanes P 4 v old = v" for old
    by (rule bit_word_eqI) (use bit_merge_lanes [of _ 4 P v old] assms(1) in simp)
  then show ?thesis
    using store_bytes_here [OF _ fit, of v f] store_bytes_elsewhere [OF _ fit assms(2), of v f] by (auto simp: here [simplified])
qed

lemma merge40_lanes:
  assumes "0 < sz" "unat (p AND 3) + sz \<le> 4"
  shows "merge40 old p v sz = merge_lanes p sz v old"
proof -
  let ?sh = "(4 - unat (p AND 3) - sz) * 8"
  have f: "(if sz \<ge> 4 then 0xFFFFFFFF else push_bit (sz * 8) 1 - 1) = (mask (sz * 8) :: u32)"
  proof (cases "sz \<ge> 4")
    case True
    then have "sz = 4" using assms(2) by linarith
    then show ?thesis by (simp add: mask_eq_exp_minus_1)
  qed (simp add: mask_eq_exp_minus_1 push_bit_of_1)
  have "8 * (4 - unat (p AND 3) - sz) + sz * 8 = 8 * (4 - unat (p AND 3))" using assms(2) by linarith
  then show ?thesis
    unfolding merge40_def Let_def f
    by (intro bit_word_eqI)
      (use bit_merge_lanes [OF _ assms, of _ v old] in \<open>auto simp: bit_or_iff bit_and_iff bit_not_iff bit_push_bit_iff bit_mask_iff mult.commute\<close>)
qed

section \<open>The view\<close>

definition view40 :: "cache40 \<Rightarrow> (u32 \<Rightarrow> u8) \<Rightarrow> u32 \<Rightarrow> u32" where
  "view40 c f a =
     (if cache40_lookup c a < CACHE40_WAYS
      then cn_data (line40 c (cache40_set a) (cache40_lookup c a)) ! cache40_long a
      else be_long f (a AND NOT 3))"

text \<open>A cache that may be trusted: every long word of a resident line is dirty or a copy of memory, and could be
  pushed.\<close>

definition faithful40 :: "(u32 \<Rightarrow> bool) \<Rightarrow> (u32 \<Rightarrow> u8) \<Rightarrow> cache40 \<Rightarrow> bool" where
  "faithful40 fitted f c \<longleftrightarrow> wf_cache40 c \<and> ch_has_dirty_state c \<and>
     (\<forall>a w. resident c a w \<longrightarrow> fitted (a AND NOT 3) \<and>
        (cn_dirty (line40 c (cache40_set a) w) ! cache40_long a \<or>
         cn_data (line40 c (cache40_set a) w) ! cache40_long a = be_long f (a AND NOT 3)))"

lemma view40_resident: "wf_cache40 c \<Longrightarrow> resident c a w \<Longrightarrow> view40 c f a = cn_data (line40 c (cache40_set a) w) ! cache40_long a"
  using cache40_lookup_hit [of c a w] by (simp add: view40_def resident_def CACHE40_WAYS_def)

lemma view40_absent: "(\<And>w. \<not> resident c a w) \<Longrightarrow> view40 c f a = be_long f (a AND NOT 3)"
  by (rule cache40_lookup_cases [of c a]) (auto simp: view40_def CACHE40_WAYS_def)

lemma resident_same_line: "same_line a q \<Longrightarrow> resident c q w = resident c a w"
  by (simp add: resident_def same_line_def)

lemma resident_aligned: "resident c (a AND NOT 3) w = resident c a w"
  by (simp add: resident_def aligned_parts [simplified])

lemma view40_aligned: "view40 c f (a AND NOT 3) = view40 c f a"
proof -
  have "cache40_lookup c (a AND NOT 3) = cache40_lookup c a" by (simp add: cache40_lookup_def aligned_parts [simplified])
  then show ?thesis by (simp add: view40_def aligned_parts [simplified] and.assoc)
qed

section \<open>Pushes\<close>

lemma low_bit_is: "drop_bit i t AND 1 = 0 \<longleftrightarrow> \<not> bit (t :: u32) i"
  by (simp add: and_one_eq bit_iff_odd_drop_bit odd_iff_mod_2_eq_one even_iff_mod_2_eq_zero)

lemma four_longs: "[0..<4] = [0, 1, 2, 3 :: nat]"
  by (simp add: upt_rec)

lemma bit_writeback_mask:
  assumes "i < 4" "cn_valid l"
  shows "bit (cache40_writeback_mask l) i \<longleftrightarrow> cn_dirty l ! i"
proof -
  have "i = 0 \<or> i = 1 \<or> i = 2 \<or> i = 3" using assms(1) by linarith
  then show ?thesis
    using assms(2) by (auto simp: cache40_writeback_mask_def CACHE40_LINE_LONGS_def four_longs bit_or_iff bit_push_bit_iff bit_1_iff)
qed

lemma no_writeback: "cn_valid l \<Longrightarrow> cache40_writeback_mask l = 0 \<Longrightarrow> i < 4 \<Longrightarrow> \<not> cn_dirty l ! i"
  using bit_writeback_mask [of i l] by simp

text \<open>What a line promises about the memory behind it.\<close>

definition line_faithful :: "(u32 \<Rightarrow> bool) \<Rightarrow> (u32 \<Rightarrow> u8) \<Rightarrow> u32 \<Rightarrow> cache_line40 \<Rightarrow> bool" where
  "line_faithful fitted f a l \<longleftrightarrow>
     (\<forall>i<4. fitted (line_at a i) \<and> (cn_dirty l ! i \<or> cn_data l ! i = be_long f (line_at a i)))"

lemma faithful_line:
  assumes "faithful40 fitted f c" "resident c a w"
  shows "line_faithful fitted f a (line40 c (cache40_set a) w)"
  unfolding line_faithful_def
proof (intro allI impI)
  fix i :: nat assume i: "i < 4"
  have "resident c (line_at a i) w" using assms(2) resident_same_line [OF same_line_at [OF i]] by blast
  then show "fitted (line_at a i) \<and> (cn_dirty (line40 c (cache40_set a) w) ! i \<or>
      cn_data (line40 c (cache40_set a) w) ! i = be_long f (line_at a i))"
    using assms(1) unfolding faithful40_def by (metis line_at_parts(1,3,5) i)
qed

text \<open>Memory with the long words of a line in it.\<close>

definition pushed_long :: "(u32 \<Rightarrow> u8) \<Rightarrow> u32 \<Rightarrow> cache_line40 \<Rightarrow> u32 \<Rightarrow> u32" where
  "pushed_long f a l Q = (if same_line a Q then cn_data l ! cache40_long Q else be_long f Q)"

text \<open>A line that leaves the cache, its long words in memory, leaves the view as it was.\<close>

lemma line_dropped:
  assumes c: "faithful40 fitted f c" "resident c a w" and l': "wf_line40 l'" "\<not> cn_valid l'"
    and f': "\<And>Q. Q AND 3 = 0 \<Longrightarrow> be_long f' Q = pushed_long f a (line40 c (cache40_set a) w) Q"
  shows "faithful40 fitted f' (set_line40 (cache40_set a) w l' c)"
    and "view40 (set_line40 (cache40_set a) w l' c) f' = view40 c f"
    and "resident (set_line40 (cache40_set a) w l' c) q v \<longleftrightarrow> resident c q v \<and> \<not> same_line a q"
proof -
  let ?c = "set_line40 (cache40_set a) w l' c"
  have wf: "wf_cache40 c" "w < 4" using c by (simp_all add: faithful40_def resident_def)
  have wf': "wf_cache40 ?c" using wf_cache40_set_line [OF wf(1) _ wf(2) l'(1)] l'(2) by simp
  have res: "resident ?c q v \<longleftrightarrow> resident c q v \<and> \<not> same_line a q" for q v
  proof -
    have "resident ?c q v \<longleftrightarrow> resident c q v \<and> \<not> (cache40_set q = cache40_set a \<and> v = w)"
      using wf l'(2) by (auto simp: resident_def split: if_splits)
    also have "\<dots> \<longleftrightarrow> resident c q v \<and> \<not> same_line a q"
      using resident_unique [OF wf(1) c(2), of v] resident_same_line [of a q c v] c(2)
      by (auto simp: same_line_def resident_def)
    finally show ?thesis .
  qed
  have line: "line40 ?c (cache40_set q) v = line40 c (cache40_set q) v" if "resident ?c q v" for q v
  proof -
    have "resident c q v" "\<not> same_line a q" using that res by simp_all
    then have "\<not> (cache40_set q = cache40_set a \<and> v = w)" "v < 4"
      using c(2) by (auto simp: resident_def same_line_def)
    then show ?thesis using wf by auto
  qed
  have mem: "be_long f' (q AND NOT 3) = be_long f (q AND NOT 3)" if "\<not> same_line a q" for q
    using f' [of "q AND NOT 3"] align_split(2) [of q] that
    by (auto simp: pushed_long_def same_line_def aligned_parts [simplified])
  have here: "be_long f' (q AND NOT 3) = cn_data (line40 c (cache40_set a) w) ! cache40_long q" if "same_line a q" for q
    using f' [of "q AND NOT 3"] align_split(2) [of q] that
    by (simp add: pushed_long_def same_line_def aligned_parts [simplified])
  show "faithful40 fitted f' ?c"
    unfolding faithful40_def
  proof (intro conjI allI impI)
    show "wf_cache40 ?c" "ch_has_dirty_state ?c" using wf' c(1) by (simp_all add: faithful40_def)
    fix q v assume r: "resident ?c q v"
    then have q: "resident c q v" "\<not> same_line a q" using res by simp_all
    show "fitted (q AND NOT 3)" using c(1) q(1) unfolding faithful40_def by blast
    show "cn_dirty (line40 ?c (cache40_set q) v) ! cache40_long q \<or>
        cn_data (line40 ?c (cache40_set q) v) ! cache40_long q = be_long f' (q AND NOT 3)"
      using c(1) q(1) unfolding faithful40_def line [OF r] mem [OF q(2)] by blast
  qed
  show "view40 ?c f' = view40 c f"
  proof
    fix q
    consider v where "resident c q v" "\<not> same_line a q" | "same_line a q" | "\<And>v. \<not> resident c q v" "\<not> same_line a q" by blast
    then show "view40 ?c f' q = view40 c f q"
    proof cases
      case (1 v)
      then show ?thesis using line [of q v] res by (simp add: view40_resident wf(1) wf')
    next
      case 2
      then have "resident c q w" "\<And>v. \<not> resident ?c q v" using res c(2) resident_same_line by auto
      then show ?thesis
        using 2 here by (simp add: view40_resident [OF wf(1)] view40_absent same_line_def)
    next
      case 3
      then have "\<And>v. \<not> resident ?c q v" using res by simp
      then show ?thesis using 3 mem by (simp add: view40_absent)
    qed
  qed
  show "resident ?c q v \<longleftrightarrow> resident c q v \<and> \<not> same_line a q" by (rule res)
qed

lemma clean_pushed:
  assumes "line_faithful fitted f a l" "\<And>i. i < 4 \<Longrightarrow> \<not> cn_dirty l ! i" "Q AND 3 = 0"
  shows "be_long f Q = pushed_long f a l Q"
proof (cases "same_line a Q")
  case True
  have "Q AND NOT 3 = Q" using long_place(1) [OF assms(3), of 0] by simp
  then have "line_at a (cache40_long Q) = Q" using line_at_of [OF True] by simp
  then show ?thesis using True assms(1,2) cache40_long_bound [of Q] unfolding line_faithful_def pushed_long_def by metis
qed (simp add: pushed_long_def)

text \<open>A clean line that enters an invalid place leaves the view as it was.\<close>

lemma line_added:
  assumes c: "faithful40 fitted f c" "\<And>v. \<not> resident c a v" and w: "w < 4" "\<not> cn_valid (line40 c (cache40_set a) w)"
    and l: "wf_line40 l" "cn_valid l" "cn_tag l = cache40_tag a"
    and data: "\<And>j. j < 4 \<Longrightarrow> cn_data l ! j = be_long f (line_at a j) \<and> fitted (line_at a j)"
  shows "faithful40 fitted f (set_line40 (cache40_set a) w l c)"
    and "view40 (set_line40 (cache40_set a) w l c) f = view40 c f"
    and "resident (set_line40 (cache40_set a) w l c) a w"
proof -
  let ?c = "set_line40 (cache40_set a) w l c"
  have wf: "wf_cache40 c" using c by (simp add: faithful40_def)
  have wf': "wf_cache40 ?c"
    by (rule wf_cache40_set_line [OF wf _ w(1) l(1)]) (use c(2) l(3) in \<open>auto simp: resident_def\<close>)
  have res: "resident ?c q v \<longleftrightarrow> resident c q v \<or> same_line a q \<and> v = w" for q v
    using wf w l by (auto simp: resident_def same_line_def split: if_splits)
  have line: "line40 ?c (cache40_set q) v = line40 c (cache40_set q) v" if "resident c q v" for q v
    using that wf w by (auto simp: resident_def)
  have new: "line40 ?c (cache40_set q) w = l" if "same_line a q" for q
    using that wf w by (simp add: same_line_def)
  have copy: "cn_data l ! cache40_long q = be_long f (q AND NOT 3) \<and> fitted (q AND NOT 3)" if "same_line a q" for q
    using data [OF cache40_long_bound [of q]] line_at_of [OF that] by simp
  show "faithful40 fitted f ?c"
    unfolding faithful40_def
  proof (intro conjI allI impI)
    show "wf_cache40 ?c" "ch_has_dirty_state ?c" using wf' c(1) by (simp_all add: faithful40_def)
    fix q v assume "resident ?c q v"
    then consider "resident c q v" | "same_line a q" "v = w" using res by blast
    then have "fitted (q AND NOT 3) \<and> (cn_dirty (line40 ?c (cache40_set q) v) ! cache40_long q \<or>
        cn_data (line40 ?c (cache40_set q) v) ! cache40_long q = be_long f (q AND NOT 3))"
    proof cases
      case 1
      then show ?thesis using c(1) unfolding faithful40_def line [OF 1] by blast
    next
      case 2
      then show ?thesis using copy [OF 2(1)] new [OF 2(1)] by simp
    qed
    then show "fitted (q AND NOT 3)" "cn_dirty (line40 ?c (cache40_set q) v) ! cache40_long q \<or>
        cn_data (line40 ?c (cache40_set q) v) ! cache40_long q = be_long f (q AND NOT 3)" by blast+
  qed
  show "view40 ?c f = view40 c f"
  proof
    fix q
    consider v where "resident c q v" | "same_line a q" | "\<And>v. \<not> resident ?c q v" "\<And>v. \<not> resident c q v"
      using res by blast
    then show "view40 ?c f q = view40 c f q"
    proof cases
      case (1 v)
      then have "resident ?c q v" using res by blast
      then show ?thesis using 1 line [OF 1] by (simp add: view40_resident wf wf')
    next
      case 2
      then have "resident ?c q w" "\<And>v. \<not> resident c q v" 
        using res c(2) resident_same_line [OF 2] by (simp_all add: same_line_def)
      then show ?thesis using copy [OF 2] new [OF 2] by (simp add: view40_resident [OF wf'] view40_absent)
    qed (simp add: view40_absent)
  qed
  show "resident ?c a w" using res [of a w] by (simp add: same_line_def)
qed

lemma set_line_twice: "set_line40 s w l (set_line40 s w l' c) = set_line40 s w l c"
  by (cases "s < length (ch_line c)") (simp_all add: set_line40_def list_update_beyond)

lemma set_line_same: "wf_cache40 c \<Longrightarrow> s < 64 \<Longrightarrow> w < 4 \<Longrightarrow> set_line40 s w (line40 c s w) c = c"
  by (simp add: set_line40_def line40_def wf_cache40_def list_update_id)

lemma valid_resident:
  assumes "wf_cache40 c" "s < 64" "w < 4" "cn_valid (line40 c s w)"
  shows "resident c (line_base40 (cn_tag (line40 c s w)) s) w" "cache40_set (line_base40 (cn_tag (line40 c s w)) s) = s"
proof -
  have "cn_tag (line40 c s w) < 0x400000" using wf_cache40_line [OF assms(1-3)] by (simp add: wf_line40_def)
  note parts = line_base40_parts [OF assms(2) this]
  show "cache40_set (line_base40 (cn_tag (line40 c s w)) s) = s" by (rule parts(1))
  show "resident c (line_base40 (cn_tag (line40 c s w)) s) w" using parts assms by (simp add: resident_def)
qed

lemma line_state_dirty:
  "cache40_line_state l = LINE_DIRTY \<longleftrightarrow> cn_valid l \<and> (\<exists>i<4. cn_dirty l ! i)"
  by (auto simp: cache40_line_state_def CACHE40_LINE_LONGS_def list_ex_iff)

context memory_bus begin

lemma push_longs_stored:
  assumes "good m" "distinct is" "\<And>i. i \<in> set is \<Longrightarrow> i < 4 \<and> fitted (line_at a i)"
    and "push_longs ax (push_bit 4 (drop_bit 4 a)) data targets is k m = (failed, k', m')"
  shows "failed = None \<and> good m' \<and> (\<forall>Q. Q AND 3 = 0 \<longrightarrow> be_long (bytes m') Q =
    (if same_line a Q \<and> cache40_long Q \<in> set is \<and> bit targets (cache40_long Q)
     then data ! cache40_long Q else be_long (bytes m) Q))"
  using assms
proof (induction "is" arbitrary: k m)
  case (Cons i "is")
  have i: "i < 4" "fitted (line_at a i)" using Cons.prems(3) by simp_all
  note at = line_at_parts [OF i(1), of a]
  show ?case
  proof (cases "bit targets i")
    case False
    then have "push_longs ax (push_bit 4 (drop_bit 4 a)) data targets is k m = (failed, k', m')"
      using Cons.prems(4) by (simp add: low_bit_is)
    from Cons.IH [OF Cons.prems(1) _ _ this] Cons.prems(2,3) False show ?thesis by auto
  next
    case True
    have base: "push_bit 4 (drop_bit 4 a) + 4 * of_nat i = line_at a i" by (simp add: line_at_def)
    obtain ok m1 where st: "store_out ax (line_at a i) (data ! i) 4 m = (ok, m1)" by fastforce
    have lanes: "unat (line_at a i AND 3) + 4 \<le> 4" using at(4) by simp
    have ok: "ok" using stores_fitted [OF Cons.prems(1) _ lanes, of "data ! i"] i(2) at(5) st by simp
    have m1: "good m1" "bytes m1 = store_bytes (line_at a i) 4 (data ! i) (bytes m)"
      using stores [OF Cons.prems(1) _ lanes st] ok by simp_all
    obtain w m2 where w: "waits ax (line_at a i) False m1 = (w, m2)" by fastforce
    have m2: "good m2" "bytes m2 = bytes m1" using waits_quiet [OF m1(1), of "line_at a i" False] w by simp_all
    have "push_longs ax (push_bit 4 (drop_bit 4 a)) data targets is (k + w) m2 = (failed, k', m')"
      using Cons.prems(4) True ok st w by (simp add: low_bit_is base)
    note ih = Cons.IH [OF m2(1) _ _ this]
    have long: "Q = line_at a i \<longleftrightarrow> same_line a Q \<and> cache40_long Q = i" if "Q AND 3 = 0" for Q
    proof -
      have "Q AND NOT 3 = Q" using long_place(1) [OF that, of 0] by simp
      then show ?thesis using line_at_of [of a Q] same_line_at [OF i(1), of a] at(3) by auto
    qed
    show ?thesis
      using ih Cons.prems(2,3) True m2(2) m1(2) be_long_store [OF at(4)] long by auto
  qed
qed simp

text \<open>A push of a line in good order succeeds, puts the line in memory and nothing else.\<close>

lemma push_line_stored:
  assumes m: "good m" and l: "cn_valid l" "cn_tag l = cache40_tag a" and faith: "line_faithful fitted (bytes m) a l"
    and run: "push_line40 ax l (cache40_set a) k m = (failed, k', m')"
  shows "failed = None \<and> good m' \<and> (\<forall>Q. Q AND 3 = 0 \<longrightarrow> be_long (bytes m') Q = pushed_long (bytes m) a l Q)"
proof -
  let ?dm = "cache40_writeback_mask l"
  have clean: "cn_data l ! cache40_long Q = be_long (bytes m) Q"
    if "same_line a Q" "Q AND 3 = 0" "\<not> cn_dirty l ! cache40_long Q" for Q
  proof -
    have "Q AND NOT 3 = Q" using long_place(1) [OF that(2), of 0] by simp
    then have "line_at a (cache40_long Q) = Q" using line_at_of [OF that(1)] by simp
    then show ?thesis using faith that(3) cache40_long_bound [of Q] unfolding line_faithful_def by metis
  qed
  show ?thesis
  proof (cases "?dm = 0")
    case True
    then have "failed = None" "m' = m" using run by (simp_all add: push_line40_def)
    then show ?thesis using m clean no_writeback [OF l(1) True] by (auto simp: pushed_long_def)
  next
    case False
    define targets where "targets = (if length (filter (\<lambda>i. drop_bit i ?dm AND 1 \<noteq> 0) [0..<CACHE40_LINE_LONGS]) = 1
      then ?dm else 0xF)"
    have dirty: "cn_dirty l ! i \<Longrightarrow> i < 4 \<Longrightarrow> bit targets i" for i
    proof -
      assume i: "cn_dirty l ! i" "i < 4"
      have "i = 0 \<or> i = 1 \<or> i = 2 \<or> i = 3" using i(2) by linarith
      then have "bit (0xF :: u32) i" by auto
      then show "bit targets i" using bit_writeback_mask [OF i(2) l(1)] i(1) by (simp add: targets_def)
    qed
    have "\<exists>k1. push_longs ax (push_bit 4 (drop_bit 4 a)) (cn_data l) targets [0..<4] k1 m = (failed, k', m')"
      using run False unfolding push_line40_def Let_def targets_def [symmetric] l(2) line_base40_address
      by (auto simp: CACHE40_LINE_LONGS_def)
    then obtain k1 where run: "push_longs ax (push_bit 4 (drop_bit 4 a)) (cn_data l) targets [0..<4] k1 m = (failed, k', m')"
      by blast
    have fit: "i \<in> set [0..<4] \<Longrightarrow> i < 4 \<and> fitted (line_at a i)" for i
      using faith by (simp add: line_faithful_def)
    have keep: "same_line a Q \<Longrightarrow> Q AND 3 = 0 \<Longrightarrow> \<not> bit targets (cache40_long Q) \<Longrightarrow>
        cn_data l ! cache40_long Q = be_long (bytes m) Q" for Q
      using clean dirty cache40_long_bound [of Q] by blast
    show ?thesis
      using push_longs_stored [OF m _ fit run] keep by (auto simp: pushed_long_def)
  qed
qed

text \<open>An eviction leaves the view, and the line is gone.\<close>

lemma evict_view:
  assumes m: "good m" and c: "faithful40 fitted (bytes m) c"
    and run: "evict_line40 ax p (c, k, m) = (ok, c', k', m')"
  shows "ok \<and> good m' \<and> faithful40 fitted (bytes m') c' \<and> view40 c' (bytes m') = view40 c (bytes m) \<and>
    (\<forall>w. \<not> resident c' p w)"
proof (rule cache40_lookup_cases [of c p])
  assume w: "resident c p (cache40_lookup c p)" "cache40_lookup c p < 4"
  let ?l = "line40 c (cache40_set p) (cache40_lookup c p)"
  obtain failed k1 m1 where push: "push_line40 ax ?l (cache40_set p) k m = (failed, k1, m1)" by (metis prod_cases3)
  have wf: "wf_cache40 c" using c by (simp add: faithful40_def)
  have l: "cn_valid ?l" "cn_tag ?l = cache40_tag p" using w(1) by (simp_all add: resident_def)
  note st = push_line_stored [OF m l faithful_line [OF c w(1)] push]
  have c': "c' = set_line40 (cache40_set p) (cache40_lookup c p) (drop40 ?l) c" "m' = m1" "ok"
    using run push st w(2) by (auto simp: evict_line40_def CACHE40_WAYS_def cache40_invalidate_line_def Let_def)
  have gone: "wf_line40 (drop40 ?l)" "\<not> cn_valid (drop40 ?l)" using wf_cache40_line [OF wf _ w(2)] by simp_all
  note d = line_dropped [OF c w(1) gone, of "bytes m1"]
  show ?thesis
    using d st c'(3) unfolding c'(1,2) by (simp add: same_line_def)
next
  assume "cache40_lookup c p = 4" "\<And>w. \<not> resident c p w"
  then show ?thesis using run m c by (simp add: evict_line40_def CACHE40_WAYS_def)
qed

text \<open>Reads of memory.\<close>

lemma read_long:
  assumes "good m" "read_long40 ax p fc m = (r, m')"
  shows "good m'" "bytes m' = bytes m"
    "r = None \<Longrightarrow> \<not> fitted (p AND NOT 3)"
    "r = Some (v, b) \<Longrightarrow> v = be_long (bytes m) (p AND NOT 3) \<and> fitted (p AND NOT 3)"
proof -
  obtain answer m1 where f: "ax_fill ax (p AND NOT 3) fc m = (answer, m1)" by fastforce
  note fill = fills [OF assms(1) align_split(2) f]
  have m': "m' = m1" "r = (if fa_termination answer = TERM_BERR then None
      else Some (fa_data answer ! 0, fa_burst_acknowledge answer))"
    using assms(2) by (auto simp: read_long40_def f [simplified] split: if_splits)
  show "good m'" "bytes m' = bytes m" using fill m' by simp_all
  show "r = None \<Longrightarrow> \<not> fitted (p AND NOT 3)"
    using fills_fitted [OF assms(1) align_split(2), of p fc] f m' by (auto split: if_splits)
  show "r = Some (v, b) \<Longrightarrow> v = be_long (bytes m) (p AND NOT 3) \<and> fitted (p AND NOT 3)"
    using fills_fit [OF assms(1) align_split(2), of p fc] fill f m' by (auto split: if_splits)
qed

lemma wait_quiet: "good m \<Longrightarrow> waits ax p rd m = (w, m') \<Longrightarrow> good m' \<and> bytes m' = bytes m"
  using waits_quiet [of m p rd] by simp

text \<open>The loop of a line read: what it leaves in the line is memory, and it stops only where memory ends.\<close>

lemma fill_longs_memory:
  assumes "good m" "length data = 4"
    and "fill_longs ax (push_bit 4 (drop_bit 4 a)) first fc is (data, b, cy, k, m) = (stopped, data', b', cy', k', m')"
  shows "good m' \<and> bytes m' = bytes m \<and> length data' = 4 \<and>
    (\<forall>j<4. data' ! j = data ! j \<or> data' ! j = be_long (bytes m) (line_at a j)) \<and>
    (case stopped of
       None \<Rightarrow> \<forall>i \<in> set is. data' ! ((first + i) mod 4) = be_long (bytes m) (line_at a ((first + i) mod 4)) \<and>
         fitted (line_at a ((first + i) mod 4))
     | Some i \<Rightarrow> i \<in> set is)"
  using assms
proof (induction "is" arbitrary: data b cy k m)
  case (Cons i "is")
  let ?e = "(first + i) mod 4"
  have e: "?e < 4" by simp
  note at = line_at_parts [OF e, of a]
  have base: "push_bit 4 (drop_bit 4 a) + 4 * of_nat ?e = line_at a ?e" by (simp add: line_at_def)
  obtain r m1 where rd: "read_long40 ax (line_at a ?e) fc m = (r, m1)" by fastforce
  note m1 = read_long [OF Cons.prems(1) rd, unfolded at(5)]
  show ?case
  proof (cases r)
    case None
    then show ?thesis
      using Cons.prems m1(1,2) unfolding fill_longs.simps Let_def base rd by auto
  next
    case (Some vb)
    obtain v ack where vb: "vb = (v, ack)" by fastforce
    obtain w m2 where w: "waits ax (line_at a ?e) True m1 = (w, m2)" by fastforce
    have m2: "good m2" "bytes m2 = bytes m" using wait_quiet [OF m1(1) w] m1(2) by simp_all
    have v: "v = be_long (bytes m) (line_at a ?e)" "fitted (line_at a ?e)" using m1(4) Some vb by simp_all
    have "fill_longs ax (push_bit 4 (drop_bit 4 a)) first fc is
        (data[?e := v], if i = 0 then ack else b, cy + 1, k + w, m2) = (stopped, data', b', cy', k', m')"
      using Cons.prems(3) unfolding fill_longs.simps Let_def base rd prod.case Some vb option.case w .
    note ih = Cons.IH [OF m2(1) _ this]
    have "length (data[?e := v]) = 4" using Cons.prems(2) by simp
    note ih = ih [OF this, unfolded m2(2)]
    have all: "\<forall>j<4. data' ! j = data ! j \<or> data' ! j = be_long (bytes m) (line_at a j)"
      using ih v(1) Cons.prems(2) by (auto simp: nth_list_update split: if_splits)
    have here: "data' ! ?e = be_long (bytes m) (line_at a ?e)"
      using ih v(1) Cons.prems(2) e by (metis nth_list_update_eq)
    show ?thesis using ih all here v(2) by (auto split: option.splits)
  qed
qed simp

lemma line_read:
  assumes m: "good m"
    and run: "fill_longs ax (push_bit 4 (drop_bit 4 a)) (cache40_long a) fc [0..<4] (replicate 4 0, b, cy, k, m) =
      (stopped, data, b', cy', k', m')"
  shows "good m'" "bytes m' = bytes m" "length data = 4"
    "stopped = None \<Longrightarrow> j < 4 \<Longrightarrow> data ! j = be_long (bytes m) (line_at a j) \<and> fitted (line_at a j)"
    "stopped = Some 0 \<Longrightarrow> \<not> fitted (a AND NOT 3)"
    "stopped \<noteq> Some 0 \<Longrightarrow> data ! cache40_long a = be_long (bytes m) (a AND NOT 3)"
proof -
  note all = fill_longs_memory [OF m _ run]
  show "good m'" "bytes m' = bytes m" "length data = 4" using all by simp_all
  show "data ! j = be_long (bytes m) (line_at a j) \<and> fitted (line_at a j)" if "stopped = None" "j < 4"
  proof -
    have "\<exists>i<4. (cache40_long a + i) mod 4 = j" using that(2) cache40_long_bound [of a] by presburger
    then show ?thesis using all that(1) by auto
  qed
  let ?e = "cache40_long a mod 4"
  have e: "?e = cache40_long a" by simp
  have base: "push_bit 4 (drop_bit 4 a) + 4 * of_nat ?e = line_at a ?e" by (simp add: line_at_def)
  have here: "line_at a ?e = a AND NOT 3" unfolding e by (rule same_line_own [symmetric])
  have twice: "(a AND NOT 3) AND NOT 3 = a AND NOT 3" by (simp add: and.assoc)
  obtain r m1 where rd: "read_long40 ax (a AND NOT 3) fc m = (r, m1)" by fastforce
  note m1 = read_long [OF m rd, unfolded twice]
  have list: "[0..<4] = 0 # [1..<4 :: nat]" by (simp add: upt_rec)
  note step = run [unfolded list fill_longs.simps add_0_right Let_def base here rd prod.case]
  have rest: "1 \<le> i" "data ! cache40_long a = be_long (bytes m) (a AND NOT 3)"
    if "r = Some vb" "stopped = Some i \<or> stopped = None \<and> i = 1" for vb i
  proof -
    obtain v ack where vb: "vb = (v, ack)" by fastforce
    obtain w m2 where w: "waits ax (a AND NOT 3) True m1 = (w, m2)" by fastforce
    have m2: "good m2" "bytes m2 = bytes m" using wait_quiet [OF m1(1) w] m1(2) by simp_all
    have v: "v = be_long (bytes m) (a AND NOT 3)" using m1(4) that(1) vb by simp
    have len: "length ((replicate 4 0)[?e := v]) = 4" by simp
    note tail = fill_longs_memory [OF m2(1) len step [unfolded that(1) vb option.case prod.case w]]
    show "1 \<le> i" using tail that(2) by (auto split: option.splits)
    show "data ! cache40_long a = be_long (bytes m) (a AND NOT 3)"
      using spec [OF conjunct1 [OF conjunct2 [OF conjunct2 [OF conjunct2 [OF tail]]]], of "cache40_long a"]
        m2(2) v cache40_long_bound [of a] same_line_own [of a] by simp
  qed
  show "\<not> fitted (a AND NOT 3)" if "stopped = Some 0" using m1(3) rest(1) that by (cases r) auto
  show "data ! cache40_long a = be_long (bytes m) (a AND NOT 3)" if "stopped \<noteq> Some 0"
  proof (cases r)
    case None
    then have "stopped = Some 0" using step by simp
    then show ?thesis using that by simp
  next
    case (Some vb)
    then show ?thesis using rest(2) by (cases stopped) auto
  qed
qed

text \<open>A fill leaves the view, whatever becomes of the line it replaces.\<close>

lemma base_of_line: "a AND 0xFFFFFFF0 = push_bit 4 (drop_bit 4 a)" for a :: u32
proof -
  have m: "(0xFFFFFFF0 :: u32) = NOT (mask 4)" by (simp add: mask_eq_exp_minus_1)
  show ?thesis unfolding m by (intro bit_word_eqI) (auto simp: bit_push_bit_iff bit_drop_bit_eq bit_and_iff bit_not_iff bit_mask_iff)
qed

lemma allocate_view:
  assumes m: "good m" and c: "faithful40 fitted (bytes m) c" and miss: "\<And>w. \<not> resident c a w"
    and run: "allocate_line40 ax a fc (c, k, m) = (fill, v, way, c', k', m')"
  shows "good m' \<and> faithful40 fitted (bytes m') c' \<and> view40 c' (bytes m') = view40 c (bytes m) \<and>
    (fill = FILL_FAULT \<longrightarrow> \<not> fitted (a AND NOT 3)) \<and> (fill \<noteq> FILL_FAULT \<longrightarrow> v = be_long (bytes m) (a AND NOT 3)) \<and>
    (if fill = FILL_CACHED then resident c' a way else \<forall>w. \<not> resident c' a w)"
proof -
  let ?s = "cache40_set a" and ?w = "cache40_select_way c a"
  let ?l = "line40 c ?s ?w"
  let ?c1 = "set_line40 ?s ?w (?l\<lparr>cn_valid := False\<rparr>) c"
  define dirty where "dirty = (cache40_line_state ?l = LINE_DIRTY)"
  have wf: "wf_cache40 c" using c by (simp add: faithful40_def)
  have w: "?w < 4" by (rule cache40_select_way_bound)
  have l1: "wf_line40 (?l\<lparr>cn_valid := False\<rparr>)" "\<not> cn_valid (?l\<lparr>cn_valid := False\<rparr>)"
    using wf_cache40_line [OF wf cache40_set_bound w] by (simp_all add: wf_line40_def)
  obtain stopped data b cy k1 m1 where f: "fill_longs ax (push_bit 4 (drop_bit 4 a)) (cache40_long a) fc [0..<4]
      (replicate 4 0, False, 0, k, m) = (stopped, data, b, cy, k1, m1)" by (metis prod_cases6)
  note rd = line_read [OF m f]
  have run: "(case stopped of
      Some i \<Rightarrow> (if i = 0 then FILL_FAULT else FILL_UNCACHED, data ! cache40_long a, ?w,
                 if dirty then set_line40 ?s ?w ?l ?c1 else ?c1, k1, m1)
    | None \<Rightarrow>
        let clocks = k1 + (if b then LINE_BURST_CLOCKS else LINE_BURST_INHIBITED_CLOCKS);
            c = cache40_fill ?w a data 0 ?c1;
            (failed, clocks, m) = (if dirty then push_line40 ax ?l ?s clocks m1 else (None, clocks, m1))
        in (if failed = None then FILL_CACHED else FILL_FAULT, data ! cache40_long a, ?w, c, clocks, m)) =
    (fill, v, way, c', k', m')"
    using run unfolding allocate_line40_def prod.case Let_def base_of_line CACHE40_LINE_LONGS_def f dirty_def [symmetric] .
  text \<open>The replaced line dropped, once its long words are in memory.\<close>
  have dropped: "faithful40 fitted f' ?c1 \<and> view40 ?c1 f' = view40 c (bytes m) \<and> (\<forall>v. \<not> resident ?c1 a v) \<and>
      (\<forall>j<4. be_long f' (line_at a j) = be_long (bytes m) (line_at a j))"
    if f': "if dirty then \<forall>Q. Q AND 3 = 0 \<longrightarrow> be_long f' Q = pushed_long (bytes m) (line_base40 (cn_tag ?l) ?s) ?l Q
      else f' = bytes m" for f'
  proof (cases "cn_valid ?l")
    case True
    let ?a = "line_base40 (cn_tag ?l) ?s"
    note old = valid_resident [OF wf cache40_set_bound w True]
    have push: "be_long f' Q = pushed_long (bytes m) ?a ?l Q" if "Q AND 3 = 0" for Q
      using f' that clean_pushed [OF faithful_line [OF c old(1)], unfolded old(2)] True
      by (auto simp: dirty_def line_state_dirty split: if_splits)
    have apart: "\<not> same_line ?a a" using resident_same_line [of ?a a c] old(1) miss by blast
    have other: "be_long f' (line_at a j) = be_long (bytes m) (line_at a j)" if "j < 4" for j
    proof -
      have "\<not> same_line ?a (line_at a j)" using apart that by (simp add: same_line_def line_at_parts)
      then show ?thesis using push [OF line_at_parts(4) [OF that, of a]] by (simp only: pushed_long_def if_False)
    qed
    show ?thesis
      using line_dropped [OF c old(1) l1, unfolded old(2), OF push] other miss by simp
  next
    case False
    then have "?l\<lparr>cn_valid := False\<rparr> = ?l" by simp
    then have "?c1 = c" using set_line_same [OF wf cache40_set_bound w] by simp
    moreover have "\<not> dirty" using False by (simp add: dirty_def line_state_dirty)
    ultimately show ?thesis using f' c miss by simp
  qed
  show ?thesis
  proof (cases stopped)
    case (Some i)
    have put: "set_line40 ?s ?w ?l ?c1 = c" unfolding set_line_twice by (rule set_line_same [OF wf cache40_set_bound w])
    have c': "c' = (if dirty then c else ?c1)" "m' = m1" "v = data ! cache40_long a"
      "fill = (if i = 0 then FILL_FAULT else FILL_UNCACHED)"
      using run unfolding Some option.case put by auto
    show ?thesis
      using dropped [of "bytes m"] rd Some c miss by (auto simp: c')
  next
    case None
    let ?n = "\<lparr>cn_tag = cache40_tag a, cn_valid = True,
        cn_dirty = map (\<lambda>i. ch_has_dirty_state ?c1 \<and> drop_bit i (0 :: u32) AND 1 \<noteq> 0) [0..<CACHE40_LINE_LONGS],
        cn_data = map (\<lambda>i. data ! i) [0..<CACHE40_LINE_LONGS]\<rparr>"
    have filled: "cache40_fill ?w a data 0 ?c1 = set_line40 ?s ?w ?n ?c1"
      using w by (simp add: cache40_fill_def)
    obtain failed k2 m2 where p: "(if dirty then push_line40 ax ?l ?s (k1 + (if b then LINE_BURST_CLOCKS
        else LINE_BURST_INHIBITED_CLOCKS)) m1 else (None, k1 + (if b then LINE_BURST_CLOCKS
        else LINE_BURST_INHIBITED_CLOCKS), m1)) = (failed, k2, m2)" by (metis prod_cases3)
    have c': "c' = set_line40 ?s ?w ?n ?c1" "m' = m2" "v = data ! cache40_long a" "way = ?w"
      "fill = (if failed = None then FILL_CACHED else FILL_FAULT)"
      using run by (auto simp: None Let_def p filled)
    have m2: "failed = None" "good m2" "if dirty then \<forall>Q. Q AND 3 = 0 \<longrightarrow>
        be_long (bytes m2) Q = pushed_long (bytes m) (line_base40 (cn_tag ?l) ?s) ?l Q else bytes m2 = bytes m"
    proof -
      have "failed = None \<and> good m2 \<and> (if dirty then \<forall>Q. Q AND 3 = 0 \<longrightarrow>
        be_long (bytes m2) Q = pushed_long (bytes m) (line_base40 (cn_tag ?l) ?s) ?l Q else bytes m2 = bytes m)"
      proof (cases dirty)
        case True
        then have valid: "cn_valid ?l" by (simp add: dirty_def line_state_dirty)
        note old = valid_resident [OF wf cache40_set_bound w valid]
        let ?a = "line_base40 (cn_tag ?l) ?s"
        have "push_line40 ax ?l (cache40_set ?a) (k1 + (if b then LINE_BURST_CLOCKS
          else LINE_BURST_INHIBITED_CLOCKS)) m1 = (failed, k2, m2)" using p True by (simp add: old(2))
        moreover have "cn_tag ?l = cache40_tag ?a" using old by (simp add: resident_def)
        moreover have "line_faithful fitted (bytes m1) ?a ?l"
          using faithful_line [OF c old(1)] rd(2) by (simp add: old(2))
        ultimately show ?thesis using push_line_stored [OF rd(1) valid] True rd(2) by simp
      qed (use p rd in simp)
      then show "failed = None" "good m2" "if dirty then \<forall>Q. Q AND 3 = 0 \<longrightarrow>
        be_long (bytes m2) Q = pushed_long (bytes m) (line_base40 (cn_tag ?l) ?s) ?l Q else bytes m2 = bytes m" by blast+
    qed
    note d = dropped [OF m2(3)]
    have place: "\<not> cn_valid (line40 ?c1 ?s ?w)" using wf w by simp
    have n: "wf_line40 ?n" "cn_valid ?n" "cn_tag ?n = cache40_tag a" by (simp_all add: wf_line40_def CACHE40_LINE_LONGS_def)
    have data: "cn_data ?n ! j = be_long (bytes m2) (line_at a j) \<and> fitted (line_at a j)" if "j < 4" for j
      using rd(4) [OF None that] d that by (simp add: CACHE40_LINE_LONGS_def)
    note add = line_added [OF conjunct1 [OF d] _ w place n data]
    show ?thesis
      using add d m2 rd(6) None by (simp add: c')
  qed
qed

end

section \<open>Writes into the view\<close>

definition put_long :: "(u32 \<Rightarrow> u32) \<Rightarrow> u32 \<Rightarrow> nat \<Rightarrow> u32 \<Rightarrow> u32 \<Rightarrow> u32" where
  "put_long V a sz v = (\<lambda>q. if q AND NOT 3 = a AND NOT 3 then merge_lanes a sz v (V a) else V q)"

lemma line_written:
  assumes c: "faithful40 fitted f c" "resident c a w"
    and l: "l = (line40 c (cache40_set a) w)\<lparr>cn_data := (cn_data (line40 c (cache40_set a) w))[cache40_long a := x],
      cn_dirty := B\<rparr>"
    and B: "length B = 4" "\<And>i. i < 4 \<Longrightarrow> i \<noteq> cache40_long a \<Longrightarrow> B ! i = cn_dirty (line40 c (cache40_set a) w) ! i"
      "B ! cache40_long a \<or> x = be_long f' (a AND NOT 3)"
    and f': "\<And>Q. Q AND 3 = 0 \<Longrightarrow> Q \<noteq> a AND NOT 3 \<Longrightarrow> be_long f' Q = be_long f Q"
  shows "faithful40 fitted f' (set_line40 (cache40_set a) w l c)"
    and "view40 (set_line40 (cache40_set a) w l c) f' q = (if q AND NOT 3 = a AND NOT 3 then x else view40 c f q)"
proof -
  let ?s = "cache40_set a" and ?c = "set_line40 (cache40_set a) w l c"
  let ?l = "line40 c ?s w"
  have wf: "wf_cache40 c" "w < 4" using c by (simp_all add: faithful40_def resident_def)
  have old: "wf_line40 ?l" "cn_valid ?l" "cn_tag ?l = cache40_tag a"
    using wf_cache40_line [OF wf(1) _ wf(2)] c(2) by (simp_all add: resident_def)
  have new: "wf_line40 l" "cn_valid l" "cn_tag l = cache40_tag a"
    using old B(1) by (simp_all add: l wf_line40_def)
  have wf': "wf_cache40 ?c"
  proof (rule wf_cache40_set_line [OF wf(1) _ wf(2) new(1)])
    show "cn_tag (line40 c ?s v) \<noteq> cn_tag l" if "v < 4" "v \<noteq> w" "cn_valid (line40 c ?s v)" for v
      using resident_unique [OF wf(1) c(2), of v] that new(3) by (auto simp: resident_def)
  qed simp
  have res: "resident ?c q v = resident c q v" for q v
    using wf new old by (auto simp: resident_def split: if_splits)
  have line: "line40 ?c (cache40_set q) v = (if cache40_set q = ?s \<and> v = w then l else line40 c (cache40_set q) v)"
    if "resident c q v" for q v
    using that wf by (simp add: resident_def)
  have own: "cache40_set q = ?s \<and> v = w \<longleftrightarrow> same_line a q" if "resident c q v" for q v
    using that c(2) resident_unique [OF wf(1) that, of w] resident_same_line [of a q c w]
    by (auto simp: same_line_def resident_def)
  have data: "cn_data l ! cache40_long q = (if q AND NOT 3 = a AND NOT 3 then x else cn_data ?l ! cache40_long q)"
    if "same_line a q" for q
  proof -
    have "length (cn_data ?l) = 4" using old(1) by (simp add: wf_line40_def)
    then have "(cn_data ?l)[cache40_long a := x] ! cache40_long q =
        (if cache40_long q = cache40_long a then x else cn_data ?l ! cache40_long q)" by auto
    then show ?thesis unfolding same_long [OF that] by (simp add: l)
  qed
  have mem: "be_long f' (q AND NOT 3) = be_long f (q AND NOT 3)" if "q AND NOT 3 \<noteq> a AND NOT 3" for q
    by (rule f' [OF align_split(2) that])
  have far: "q AND NOT 3 \<noteq> a AND NOT 3" if "\<not> same_line a q" for q
    using that aligned_parts(1,2) [of q] aligned_parts(1,2) [of a] by (metis same_line_def)
  show "faithful40 fitted f' ?c"
    unfolding faithful40_def
  proof (intro conjI allI impI)
    show "wf_cache40 ?c" "ch_has_dirty_state ?c" using wf' c(1) by (simp_all add: faithful40_def)
    fix q v assume "resident ?c q v"
    then have r: "resident c q v" by (simp add: res)
    then have ok: "fitted (q AND NOT 3)" "cn_dirty (line40 c (cache40_set q) v) ! cache40_long q \<or>
        cn_data (line40 c (cache40_set q) v) ! cache40_long q = be_long f (q AND NOT 3)"
      using c(1) unfolding faithful40_def by blast+
    show "fitted (q AND NOT 3)" by (rule ok(1))
    show "cn_dirty (line40 ?c (cache40_set q) v) ! cache40_long q \<or>
        cn_data (line40 ?c (cache40_set q) v) ! cache40_long q = be_long f' (q AND NOT 3)"
    proof (cases "q AND NOT 3 = a AND NOT 3")
      case True
      then have sl: "same_line a q" using far by blast
      have "cache40_long q = cache40_long a" using same_long [OF sl] True by simp
      then show ?thesis using B(3) data [OF sl] own [OF r] sl True unfolding line [OF r] by (auto simp: l)
    next
      case False
      show ?thesis
      proof (cases "same_line a q")
        case True
        then have "cache40_long q \<noteq> cache40_long a" using same_long False by simp
        then show ?thesis
          using ok(2) data [OF True] own [OF r] True False B(2) [OF cache40_long_bound [of q]] mem [OF False]
          unfolding line [OF r] by (auto simp: l)
      next
        case False
        then show ?thesis using ok(2) own [OF r] mem [OF far [OF False]] unfolding line [OF r] by auto
      qed
    qed
  qed
  show "view40 ?c f' q = (if q AND NOT 3 = a AND NOT 3 then x else view40 c f q)"
  proof (cases "\<exists>v. resident c q v")
    case True
    then obtain v where r: "resident c q v" by blast
    then have "view40 ?c f' q = cn_data (line40 ?c (cache40_set q) v) ! cache40_long q"
      using view40_resident [OF wf'] res by blast
    also have "\<dots> = (if q AND NOT 3 = a AND NOT 3 then x else cn_data (line40 c (cache40_set q) v) ! cache40_long q)"
      using own [OF r] data [of q] far [of q] unfolding line [OF r] by (cases "same_line a q") auto
    finally show ?thesis using view40_resident [OF wf(1) r] by simp
  next
    case False
    then have "q AND NOT 3 \<noteq> a AND NOT 3" using far c(2) resident_same_line by blast
    then show ?thesis using False res mem by (simp add: view40_absent)
  qed
qed

text \<open>A store to an address that is not in the cache.\<close>

lemma absent_stored:
  assumes c: "faithful40 fitted f c" "\<And>w. \<not> resident c a w"
    and f': "\<And>Q. Q AND 3 = 0 \<Longrightarrow> be_long f' Q = (if Q = a AND NOT 3 then x else be_long f Q)"
  shows "faithful40 fitted f' c" "view40 c f' q = (if q AND NOT 3 = a AND NOT 3 then x else view40 c f q)"
proof -
  have far: "q AND NOT 3 \<noteq> a AND NOT 3" if "resident c q w" for q w
    using that c(2) resident_aligned by metis
  have mem: "be_long f' (q AND NOT 3) = (if q AND NOT 3 = a AND NOT 3 then x else be_long f (q AND NOT 3))" for q
    by (rule f' [OF align_split(2)])
  show "faithful40 fitted f' c"
    using c(1) far unfolding faithful40_def mem by (auto split: if_splits)
  show "view40 c f' q = (if q AND NOT 3 = a AND NOT 3 then x else view40 c f q)"
  proof (cases "\<exists>w. resident c q w")
    case True
    then obtain w where "resident c q w" by blast
    then show ?thesis using far c(1) by (simp add: view40_resident faithful40_def)
  next
    case False
    then have "view40 c f' q = be_long f' (q AND NOT 3)" "view40 c f q = be_long f (q AND NOT 3)"
      by (blast intro: view40_absent)+
    then show ?thesis using mem [of q] by (simp only:)
  qed
qed

lemma view40_tick: "view40 (cache40_tick c) = view40 c"
  by (simp add: view40_def fun_eq_iff cache40_lookup_def line40_def cache40_tick_def)

lemma resident_tick: "resident (cache40_tick c) = resident c"
  by (simp add: resident_def fun_eq_iff line40_def cache40_tick_def)

lemma faithful_tick: "faithful40 fitted f (cache40_tick c) = faithful40 fitted f c"
proof -
  have "wf_cache40 (cache40_tick c) = wf_cache40 c"
    by (simp add: wf_cache40_def unique_tags_def line40_def cache40_tick_def)
  then show ?thesis by (simp add: faithful40_def resident_tick) (simp add: line40_def cache40_tick_def)
qed

end
