(* ===== verification/M68040_Program.thy ===== *)
theory M68040_Program
  imports M68040_Copyback
begin

unbundle bit_operations_syntax

text \<open>
  The accesses of \<^verbatim>\<open>ap_m68030_access.c\<close> on the MC68040's data side, as a program sees them. In
  \<open>memory_bus\<close> a read at a physical address returns the long word of the view and a write stores its bytes
  there, whatever the cache mode, the locked accesses, the special accesses that do not allocate and the
  lines they push. In \<open>cached_memory\<close> the table search reads and marks descriptors in the same view.
\<close>

section \<open>The state behind an access\<close>

text \<open>The data side of the machine with its cache on.\<close>

definition data_side :: "'m context40 \<Rightarrow> 'm access_ctx \<Rightarrow> bool" where
  "data_side cx ax \<longleftrightarrow> cx_path cx = ax \<and> cx_data_side cx \<and> cache_on40 cx"

context memory_bus begin

definition in_order :: "'m state40 \<Rightarrow> bool" where
  "in_order st \<longleftrightarrow> good (s4_machine st) \<and> faithful40 fitted (bytes (s4_machine st)) (s4_dcache st)"

definition seen :: "'m state40 \<Rightarrow> u32 \<Rightarrow> u32" where
  "seen st = view40 (s4_dcache st) (bytes (s4_machine st))"

text \<open>An access with its cache and memory moved, the rest of the state as it was.\<close>

definition elsewhere_same :: "'m state40 \<Rightarrow> 'm state40 \<Rightarrow> bool" where
  "elsewhere_same st st' \<longleftrightarrow> s4_icache st' = s4_icache st \<and> s4_atc st' = s4_atc st \<and> s4_bus st' = s4_bus st"

lemma external_read_view:
  assumes m: "good m" and c: "faithful40 fitted (bytes m) c" and gone: "\<And>w. \<not> resident c p w"
    and out: "\<not> ar_ok out" and run: "external_read40 ax p fc out m = (r, m')"
  shows "good m' \<and> bytes m' = bytes m \<and> (ar_ok r \<longrightarrow> ar_value r = view40 c (bytes m) p) \<and>
    (fitted (p AND NOT 3) \<longrightarrow> ar_ok r)"
proof -
  obtain long m1 where rd: "read_long40 ax p fc m = (long, m1)" by fastforce
  note l = read_long [OF m rd]
  obtain w m2 where w: "waits ax (p AND NOT 3) True m1 = (w, m2)" by fastforce
  note q = wait_quiet [OF l(1) w]
  show ?thesis
  proof (cases long)
    case None
    then show ?thesis using run rd l out by (auto simp: external_read40_def)
  next
    case (Some vb)
    obtain v b where vb: "vb = (v, b)" by fastforce
    have "r = out\<lparr>ar_clocks := ar_clocks out + MIN_BUS_CLOCKS + w, ar_value := v, ar_ok := True\<rparr>" "m' = m2"
      using run w by (simp_all add: external_read40_def rd Some vb)
    then show ?thesis using l(4) [of v b] Some vb q l(2) view40_absent [OF gone, of "bytes m"] by simp
  qed
qed

lemma external_write_view:
  assumes m: "good m" and c: "faithful40 fitted (bytes m) c" and lanes: "0 < sz" "unat (p AND 3) + sz \<le> 4"
    and out: "\<not> ar_ok out" and run: "external_write40 ax p v sz out m = (ok, r, m')"
  shows "good m' \<and> ok = ar_ok r \<and> (fitted (p AND NOT 3) \<longrightarrow> ok) \<and>
    bytes m' = (if ok then store_bytes p sz v (bytes m) else bytes m)"
proof -
  obtain stored m1 where st: "store_out ax p v sz m = (stored, m1)" by fastforce
  note s = stores [OF m lanes st] and f = stores_fitted [OF m lanes, of v]
  obtain w m2 where w: "waits ax p False m1 = (w, m2)" by fastforce
  have "good m1" using s by simp
  note q = wait_quiet [OF this w]
  show ?thesis using run st s f w q out by (auto simp: external_write40_def split: if_splits)
qed

text \<open>A store's long words.\<close>

lemma stored_long:
  assumes "0 < sz" "unat (p AND 3) + sz \<le> 4" "Q AND 3 = 0"
  shows "be_long (store_bytes p sz v f) Q = (if Q = p AND NOT 3 then merge_lanes p sz v (be_long f (p AND NOT 3)) else be_long f Q)"
  using store_bytes_here [OF assms(1,2), of v f] store_bytes_elsewhere [OF assms, of v f] by simp

lemma uncached_write_view:
  assumes m: "good m" and c: "faithful40 fitted (bytes m) c" and gone: "\<And>w. \<not> resident c p w"
    and lanes: "0 < sz" "unat (p AND 3) + sz \<le> 4"
    and out: "\<not> ar_ok out" and run: "external_write40 ax p v sz out m = (ok, r, m')"
  shows "good m' \<and> faithful40 fitted (bytes m') c \<and> (fitted (p AND NOT 3) \<longrightarrow> ar_ok r) \<and>
    view40 c (bytes m') = (if ar_ok r then put_long (view40 c (bytes m)) p sz v else view40 c (bytes m))"
proof -
  note wr = external_write_view [OF m c lanes out run]
  have at: "view40 c (bytes m) p = be_long (bytes m) (p AND NOT 3)" by (rule view40_absent [OF gone])
  note st = absent_stored [OF c gone stored_long [OF lanes], of v]
  have "view40 c (store_bytes p sz v (bytes m)) = put_long (view40 c (bytes m)) p sz v"
    by (rule ext) (simp only: st(2) put_long_def at)
  then show ?thesis using wr st(1) c by (cases "ar_ok r") auto
qed

text \<open>A write into a resident line.\<close>

lemma merged_long:
  assumes "wf_cache40 c" "resident c p w" "0 < sz" "unat (p AND 3) + sz \<le> 4"
  shows "merge40 (cn_data (line40 c (cache40_set p) w) ! cache40_long p) p v sz = merge_lanes p sz v (view40 c f p)"
  using assms by (simp add: merge40_lanes view40_resident)

lemma copyback_view:
  assumes c: "faithful40 fitted f c" and r: "resident c p w" and lanes: "0 < sz" "unat (p AND 3) + sz \<le> 4"
  shows "faithful40 fitted f (cache40_mark_dirty w p (write_line40 w p v sz c))"
    "view40 (cache40_mark_dirty w p (write_line40 w p v sz c)) f = put_long (view40 c f) p sz v"
proof -
  let ?s = "cache40_set p" and ?e = "cache40_long p"
  let ?l = "line40 c ?s w" and ?x = "merge_lanes p sz v (view40 c f p)"
  have wf: "wf_cache40 c" "w < 4" "ch_has_dirty_state c" using c r by (simp_all add: faithful40_def resident_def)
  have B: "length ((cn_dirty ?l)[?e := True]) = 4" "(cn_dirty ?l)[?e := True] ! ?e"
    using wf_cache40_line [OF wf(1) _ wf(2)] by (simp_all add: wf_line40_def)
  let ?n = "?l\<lparr>cn_data := (cn_data ?l)[?e := ?x], cn_dirty := (cn_dirty ?l)[?e := True]\<rparr>"
  have "cache40_mark_dirty w p (write_line40 w p v sz c) = set_line40 ?s w ?n c"
    using wf merged_long [OF wf(1) r lanes, of v f]
    by (simp add: cache40_mark_dirty_def write_line40_def Let_def set_line_twice)
  note eq = this
  note wr = line_written [OF c r refl B(1) _ _, where x = ?x and f' = f]
  show "faithful40 fitted f (cache40_mark_dirty w p (write_line40 w p v sz c))"
    unfolding eq by (rule wr(1)) (use B(2) in auto)
  show "view40 (cache40_mark_dirty w p (write_line40 w p v sz c)) f = put_long (view40 c f) p sz v"
    unfolding eq by (rule ext, unfold put_long_def, rule wr(2)) (use B(2) in auto)
qed

lemma write_through_view:
  assumes c: "faithful40 fitted f c" and r: "resident c p w" and lanes: "0 < sz" "unat (p AND 3) + sz \<le> 4"
  shows "faithful40 fitted (store_bytes p sz v f) (write_line40 w p v sz c)"
    "view40 (write_line40 w p v sz c) (store_bytes p sz v f) = put_long (view40 c f) p sz v"
proof -
  let ?s = "cache40_set p" and ?e = "cache40_long p"
  let ?l = "line40 c ?s w" and ?x = "merge_lanes p sz v (view40 c f p)"
  have wf: "wf_cache40 c" "w < 4" using c r by (simp_all add: faithful40_def resident_def)
  have len: "length (cn_dirty ?l) = 4" using wf_cache40_line [OF wf(1) _ wf(2)] by (simp add: wf_line40_def)
  have "write_line40 w p v sz c = set_line40 ?s w (?l\<lparr>cn_data := (cn_data ?l)[?e := ?x], cn_dirty := cn_dirty ?l\<rparr>) c"
    using merged_long [OF wf(1) r lanes, of v f] by (simp add: write_line40_def Let_def)
  note eq = this
  have clean: "cn_dirty ?l ! ?e \<or> ?x = be_long (store_bytes p sz v f) (p AND NOT 3)"
  proof (cases "cn_dirty ?l ! ?e")
    case False
    then have "view40 c f p = be_long f (p AND NOT 3)"
      using c r unfolding view40_resident [OF wf(1) r] faithful40_def by blast
    then show ?thesis using store_bytes_here [OF lanes, of v f] by simp
  qed simp
  have off: "Q AND 3 = 0 \<Longrightarrow> Q \<noteq> p AND NOT 3 \<Longrightarrow> be_long (store_bytes p sz v f) Q = be_long f Q" for Q
    by (rule store_bytes_elsewhere [OF lanes])
  note wr = line_written [OF c r refl len refl clean off]
  show "faithful40 fitted (store_bytes p sz v f) (write_line40 w p v sz c)" unfolding eq by (rule wr(1))
  show "view40 (write_line40 w p v sz c) (store_bytes p sz v f) = put_long (view40 c f) p sz v"
    unfolding eq by (rule ext, unfold put_long_def, rule wr(2))
qed

text \<open>Reads and writes at a physical address.\<close>

lemma evict_own_view:
  assumes cx: "data_side cx ax" and st: "in_order st" and run: "evict_own cx p k st = (ok, k', st')"
  shows "ok \<and> in_order st' \<and> seen st' = seen st \<and> elsewhere_same st st' \<and> (\<forall>w. \<not> resident (s4_dcache st') p w)"
proof -
  obtain ok1 c1 k1 m1 where e: "evict_line40 ax p (s4_dcache st, k, s4_machine st) = (ok1, c1, k1, m1)"
    by (metis prod_cases4)
  have "good (s4_machine st)" "faithful40 fitted (bytes (s4_machine st)) (s4_dcache st)"
    using st by (simp_all add: in_order_def)
  note v = evict_view [OF this e]
  have "ok = ok1" "st' = st\<lparr>s4_machine := m1, s4_dcache := c1\<rparr>"
    using run cx e by (auto simp: evict_own_def data_side_def own_cache_def set_own_cache_def)
  then show ?thesis using v by (simp add: in_order_def seen_def elsewhere_same_def)
qed

lemma read_uncached_view:
  assumes cx: "data_side cx ax" and st: "in_order st" and gone: "\<And>w. \<not> resident (s4_dcache st) p w"
    and out: "\<not> ar_ok out" and run: "read_uncached40 cx p fc out st = (r, st')"
  shows "in_order st' \<and> seen st' = seen st \<and> elsewhere_same st st' \<and> (ar_ok r \<longrightarrow> ar_value r = seen st p) \<and>
    (fitted (p AND NOT 3) \<longrightarrow> ar_ok r)"
proof -
  obtain r1 m1 where e: "external_read40 ax p fc out (s4_machine st) = (r1, m1)" by fastforce
  have "good (s4_machine st)" "faithful40 fitted (bytes (s4_machine st)) (s4_dcache st)"
    using st by (simp_all add: in_order_def)
  note v = external_read_view [OF this gone out e]
  have "r = r1" "st' = st\<lparr>s4_machine := m1\<rparr>" using run cx e by (auto simp: read_uncached40_def data_side_def)
  then show ?thesis using v st by (simp add: in_order_def seen_def elsewhere_same_def)
qed

lemma read_physical_view:
  assumes cx: "data_side cx ax" and st: "in_order st" and out: "\<not> ar_ok out"
    and run: "read_physical40 cx p fc mode board out st = (r, st')"
  shows "in_order st' \<and> seen st' = seen st \<and> elsewhere_same st st' \<and> (ar_ok r \<longrightarrow> ar_value r = seen st p) \<and>
    (fitted (p AND NOT 3) \<longrightarrow> ar_ok r)"
proof -
  have on: "cache_on40 cx" and path: "cx_path cx = ax" "cx_data_side cx" using cx by (simp_all add: data_side_def)
  have own: "own_cache cx s = s4_dcache s" "set_own_cache cx c s = s\<lparr>s4_dcache := c\<rparr>" for s c
    using path by (simp_all add: own_cache_def set_own_cache_def)
  let ?c = "s4_dcache st" and ?m = "s4_machine st"
  have mc: "good ?m" "faithful40 fitted (bytes ?m) ?c" using st by (simp_all add: in_order_def)
  have wf: "wf_cache40 ?c" using mc(2) by (simp add: faithful40_def)
  show ?thesis
  proof (cases "inhibited40 cx mode board")
    case True
    obtain ok k st1 where e: "evict_own cx p (ar_clocks out) st = (ok, k, st1)" by (metis prod_cases3)
    note v = evict_own_view [OF cx st e]
    have "read_uncached40 cx p fc (out\<lparr>ar_clocks := k\<rparr>) st1 = (r, st')"
      using run True e v by (simp add: read_physical40_def)
    from read_uncached_view [OF cx _ _ _ this] v out show ?thesis by (auto simp: elsewhere_same_def)
  next
    case plain: False
    show ?thesis
    proof (rule cache40_lookup_cases [of ?c p])
      assume hit: "resident ?c p (cache40_lookup ?c p)" "cache40_lookup ?c p < 4"
      have "r = out\<lparr>ar_value := seen st p, ar_ok := True, ar_cache_hit := True\<rparr>" "st' = st\<lparr>s4_dcache := cache40_tick ?c\<rparr>"
        using run plain on hit view40_resident [OF wf hit(1)]
        by (auto simp: read_physical40_def own CACHE40_WAYS_def Let_def seen_def)
      then show ?thesis using mc by (simp add: in_order_def seen_def elsewhere_same_def faithful_tick view40_tick)
    next
      assume miss: "cache40_lookup ?c p = 4" "\<And>w. \<not> resident ?c p w"
      show ?thesis
      proof (cases "cx_no_allocate cx")
        case True
        then have "read_uncached40 cx p fc out st = (r, st')"
          using run plain on miss by (simp add: read_physical40_def own CACHE40_WAYS_def)
        from read_uncached_view [OF cx st miss(2) out this] show ?thesis .
      next
        case False
        obtain fill v way c1 k1 m1 where a: "allocate_line40 ax p fc (?c, ar_clocks out, ?m) = (fill, v, way, c1, k1, m1)"
          by (metis prod_cases6)
        note al = allocate_view [OF mc miss(2) a]
        have "st' = st\<lparr>s4_machine := m1, s4_dcache := cache40_tick c1\<rparr>"
          "r = (if fill = FILL_FAULT then out\<lparr>ar_clocks := k1, ar_fault := True\<rparr>
             else out\<lparr>ar_clocks := k1, ar_value := v, ar_ok := True\<rparr>)"
          using run plain on miss False unfolding read_physical40_def own path CACHE40_WAYS_def Let_def a prod.case
          by (auto split: if_splits)
        then show ?thesis
          using al out view40_absent [OF miss(2), of "bytes ?m"]
          by (auto simp: in_order_def seen_def elsewhere_same_def faithful_tick view40_tick)
      qed
    qed
  qed
qed

lemma write_uncached_view:
  assumes cx: "data_side cx ax" and st: "in_order st" and gone: "\<And>w. \<not> resident (s4_dcache st) p w"
    and lanes: "0 < sz" "unat (p AND 3) + sz \<le> 4"
    and out: "\<not> ar_ok out" and run: "write_uncached40 cx p v sz out st = (ok, r, st')"
  shows "in_order st' \<and> elsewhere_same st st' \<and> (fitted (p AND NOT 3) \<longrightarrow> ar_ok r) \<and>
    seen st' = (if ar_ok r then put_long (seen st) p sz v else seen st)"
proof -
  obtain ok1 r1 m1 where e: "external_write40 ax p v sz out (s4_machine st) = (ok1, r1, m1)" by (metis prod_cases3)
  have "good (s4_machine st)" "faithful40 fitted (bytes (s4_machine st)) (s4_dcache st)"
    using st by (simp_all add: in_order_def)
  note v = uncached_write_view [OF this gone lanes out e]
  have "r = r1" "st' = st\<lparr>s4_machine := m1\<rparr>" using run cx e by (auto simp: write_uncached40_def data_side_def)
  then show ?thesis using v by (simp add: in_order_def seen_def elsewhere_same_def)
qed

lemma write_copyback_view:
  assumes cx: "data_side cx ax" and st: "in_order st" and r: "resident (s4_dcache st) p w"
    and lanes: "0 < sz" "unat (p AND 3) + sz \<le> 4" and run: "write_copyback40 cx w p v sz out st = (r, st')"
  shows "in_order st' \<and> elsewhere_same st st' \<and> ar_ok r \<and> seen st' = put_long (seen st) p sz v"
proof -
  have own: "own_cache cx s = s4_dcache s" "set_own_cache cx c s = s\<lparr>s4_dcache := c\<rparr>" for s c
    using cx by (simp_all add: data_side_def own_cache_def set_own_cache_def)
  have "good (s4_machine st)" "faithful40 fitted (bytes (s4_machine st)) (s4_dcache st)"
    using st by (simp_all add: in_order_def)
  note v = this(1) copyback_view [OF this(2) r lanes, of v]
  show ?thesis using run v by (auto simp: write_copyback40_def own in_order_def seen_def elsewhere_same_def)
qed

lemma write_physical_view:
  assumes cx: "data_side cx ax" and st: "in_order st" and out: "\<not> ar_ok out"
    and lanes: "0 < sz" "unat (p AND 3) + sz \<le> 4"
    and run: "write_physical40 cx p fc v sz mode board out st = (r, st')"
  shows "in_order st' \<and> elsewhere_same st st' \<and> (fitted (p AND NOT 3) \<longrightarrow> ar_ok r) \<and>
    seen st' = (if ar_ok r then put_long (seen st) p sz v else seen st)"
proof -
  have on: "cache_on40 cx" and path: "cx_path cx = ax" "cx_data_side cx" using cx by (simp_all add: data_side_def)
  have own: "own_cache cx s = s4_dcache s" "set_own_cache cx c s = s\<lparr>s4_dcache := c\<rparr>" for s c
    using path by (simp_all add: own_cache_def set_own_cache_def)
  let ?c = "s4_dcache st" and ?m = "s4_machine st"
  let ?st = "st\<lparr>s4_dcache := cache40_tick ?c\<rparr>"
  have mc: "good ?m" "faithful40 fitted (bytes ?m) ?c" using st by (simp_all add: in_order_def)
  have wf: "wf_cache40 ?c" using mc(2) by (simp add: faithful40_def)
  have tick: "in_order ?st" "seen ?st = seen st" "elsewhere_same st ?st" "resident (s4_dcache ?st) = resident ?c"
    using mc by (simp_all add: in_order_def seen_def elsewhere_same_def faithful_tick view40_tick resident_tick)
  have trans: "elsewhere_same ?st s \<Longrightarrow> elsewhere_same st s" for s by (simp add: elsewhere_same_def)
  show ?thesis
  proof (cases "inhibited40 cx mode board")
    case True
    obtain ok k st1 where e: "evict_own cx p (ar_clocks out) st = (ok, k, st1)" by (metis prod_cases3)
    note ev = evict_own_view [OF cx st e]
    obtain ok2 r2 st2 where w: "write_uncached40 cx p v sz (out\<lparr>ar_clocks := k\<rparr>) st1 = (ok2, r2, st2)" by (metis prod_cases3)
    have "r = r2" "st' = st2" using run True e ev w by (auto simp: write_physical40_def)
    then show ?thesis using write_uncached_view [OF cx _ _ lanes _ w] ev out by (auto simp: elsewhere_same_def)
  next
    case plain: False
    show ?thesis
    proof (cases "mode = CM_COPYBACK")
      case through: False
      obtain ok2 r2 st2 where w: "write_uncached40 cx p v sz out ?st = (ok2, r2, st2)" by (metis prod_cases3)
      show ?thesis
      proof (rule cache40_lookup_cases [of ?c p])
        assume hit: "resident ?c p (cache40_lookup ?c p)" "cache40_lookup ?c p < 4"
        obtain ok1 r1 m1 where e: "external_write40 ax p v sz out ?m = (ok1, r1, m1)" by (metis prod_cases3)
        note ex = external_write_view [OF mc lanes out e]
        have st2: "st2 = ?st\<lparr>s4_machine := m1\<rparr>" "ok2 = ok1" "r2 = r1" using w e path by (auto simp: write_uncached40_def)
        have res: "resident (cache40_tick ?c) p (cache40_lookup ?c p)" using hit(1) by (simp add: resident_tick)
        have f: "faithful40 fitted (bytes ?m) (cache40_tick ?c)" using mc(2) by (simp add: faithful_tick)
        note wt = write_through_view [OF f res lanes, of v]
        have "r = r1" "st' = (if ok1 then st2\<lparr>s4_dcache := write_line40 (cache40_lookup ?c p) p v sz (cache40_tick ?c)\<rparr> else st2)"
          using run plain on through hit w st2 by (auto simp: write_physical40_def own CACHE40_WAYS_def Let_def split: if_splits)
        then show ?thesis
          using ex wt mc st2 by (auto simp: in_order_def seen_def elsewhere_same_def faithful_tick view40_tick)
      next
        assume miss: "cache40_lookup ?c p = 4" "\<And>w. \<not> resident ?c p w"
        have "r = r2" "st' = st2"
          using run plain on through miss w by (auto simp: write_physical40_def own CACHE40_WAYS_def Let_def)
        moreover have "\<not> resident (s4_dcache ?st) p w" for w unfolding tick(4) by (rule miss(2))
        note uv = write_uncached_view [OF cx tick(1) this lanes out w, unfolded tick(2)]
        ultimately show ?thesis using uv trans by simp
      qed
    next
      case copyback: True
      show ?thesis
      proof (rule cache40_lookup_cases [of ?c p])
        assume hit: "resident ?c p (cache40_lookup ?c p)" "cache40_lookup ?c p < 4"
        then have "write_copyback40 cx (cache40_lookup ?c p) p v sz out ?st = (r, st')"
          using run plain on copyback by (simp add: write_physical40_def own CACHE40_WAYS_def Let_def)
        note wc = write_copyback_view [OF cx tick(1) _ lanes this, unfolded tick(2,4), OF hit(1)]
        then show ?thesis using trans by simp
      next
        assume miss: "cache40_lookup ?c p = 4" "\<And>w. \<not> resident ?c p w"
        show ?thesis
        proof (cases "cx_no_allocate cx")
          case True
          obtain ok2 r2 st2 where w: "write_uncached40 cx p v sz out ?st = (ok2, r2, st2)" by (metis prod_cases3)
          have "r = r2" "st' = st2"
            using run plain on copyback miss w True by (auto simp: write_physical40_def own CACHE40_WAYS_def Let_def)
          moreover have "\<not> resident (s4_dcache ?st) p w" for w unfolding tick(4) by (rule miss(2))
          note uv = write_uncached_view [OF cx tick(1) this lanes out w, unfolded tick(2)]
          ultimately show ?thesis using uv trans by simp
        next
          case False
          obtain fill x way c1 k1 m1 where a: "allocate_line40 ax p fc (cache40_tick ?c, ar_clocks out, ?m) =
              (fill, x, way, c1, k1, m1)" by (metis prod_cases6)
          have f: "faithful40 fitted (bytes ?m) (cache40_tick ?c)" using mc(2) by (simp add: faithful_tick)
          have gone: "\<not> resident (cache40_tick ?c) p w" for w using miss(2) by (simp add: resident_tick)
          note al = allocate_view [OF mc(1) f gone a, unfolded view40_tick]
          let ?st1 = "?st\<lparr>s4_machine := m1, s4_dcache := c1\<rparr>"
          have st1: "in_order ?st1" "seen ?st1 = seen st" "elsewhere_same st ?st1"
            using al by (simp_all add: in_order_def seen_def elsewhere_same_def)
          have run: "(r, st') = (case fill of
                FILL_FAULT \<Rightarrow> (out\<lparr>ar_clocks := k1, ar_fault := True\<rparr>, ?st1)
              | FILL_UNCACHED \<Rightarrow> snd (write_uncached40 cx p v sz (out\<lparr>ar_clocks := k1\<rparr>) ?st1)
              | FILL_CACHED \<Rightarrow> write_copyback40 cx way p v sz (out\<lparr>ar_clocks := k1\<rparr>) ?st1)"
            using run plain on copyback miss a False path
            by (simp add: write_physical40_def own CACHE40_WAYS_def Let_def eq_commute [of "(r, st')"] cong: fill40.case_cong)
          show ?thesis
          proof (cases fill)
            case FILL_CACHED
            then have "write_copyback40 cx way p v sz (out\<lparr>ar_clocks := k1\<rparr>) ?st1 = (r, st')" using run by simp
            from write_copyback_view [OF cx st1(1) _ lanes this] al FILL_CACHED st1 show ?thesis
              by (auto simp: elsewhere_same_def)
          next
            case FILL_UNCACHED
            obtain ok2 r2 st2 where w: "write_uncached40 cx p v sz (out\<lparr>ar_clocks := k1\<rparr>) ?st1 = (ok2, r2, st2)"
              by (metis prod_cases3)
            have "r = r2" "st' = st2" using run w FILL_UNCACHED by simp_all
            then show ?thesis using write_uncached_view [OF cx st1(1) _ lanes _ w] al FILL_UNCACHED st1 out
              by (auto simp: elsewhere_same_def)
          next
            case FILL_FAULT
            then show ?thesis using run al st1 out by simp
          qed
        qed
      qed
    qed
  qed
qed

end

end
