(* ===== verification/M68040_Through.thy ===== *)
theory M68040_Through
  imports M68040_Program
begin

unbundle bit_operations_syntax

text \<open>
  The MC68040's table search through its data cache (\<^verbatim>\<open>ap_m68030_access_table_fetch_040\<close> and
  \<^verbatim>\<open>ap_m68030_access_table_update_040\<close> of \<^verbatim>\<open>ap_m68030_access.c\<close>) and the accesses that use it. The locale
  \<open>cached_memory\<close> joins the bus and the descriptor callbacks of the machine; its sublocale shows that a search
  through the cache has the contract \<open>descriptor_memory\<close> on the words a program sees. An access is then the
  reference translation of those words followed by a read or a write of the view.
\<close>

section \<open>The words a program sees\<close>

definition visible40 :: "(u32 \<Rightarrow> bool) \<Rightarrow> cache40 \<Rightarrow> (u32 \<Rightarrow> u8) \<Rightarrow> words" where
  "visible40 fitted c f a = (if a AND 3 = 0 \<and> fitted a then Some (view40 c f a) else None)"

definition memory_words :: "(u32 \<Rightarrow> bool) \<Rightarrow> (u32 \<Rightarrow> u8) \<Rightarrow> words" where
  "memory_words fitted f a = (if a AND 3 = 0 \<and> fitted a then Some (be_long f a) else None)"

lemma aligned_self: "a AND 3 = 0 \<Longrightarrow> a AND NOT 3 = a" for a :: u32
  using long_place(1) [of a 0] by simp

lemma visible_absent: "(\<And>w. \<not> resident c a w) \<Longrightarrow> visible40 fitted c f a = memory_words fitted f a"
  by (cases "a AND 3 = 0")
    (simp_all only: visible40_def memory_words_def view40_absent aligned_self simp_thms if_False)

lemma visible_resident:
  assumes "faithful40 fitted f c" "resident c a w" "a AND 3 = 0"
  shows "visible40 fitted c f a = Some (cn_data (line40 c (cache40_set a) w) ! cache40_long a)"
proof -
  have "fitted (a AND NOT 3)" "wf_cache40 c" using assms(1,2) unfolding faithful40_def by blast+
  then show ?thesis using assms(3) by (simp only: visible40_def view40_resident [OF _ assms(2)] aligned_self) simp
qed

text \<open>A word of memory changed where the cache has no line.\<close>

lemma absent_marked:
  assumes c: "faithful40 fitted f c" "\<And>w. \<not> resident c a w"
    and f': "memory_words fitted f' = (memory_words fitted f)(a \<mapsto> x)"
  shows "faithful40 fitted f' c" "visible40 fitted c f' = (visible40 fitted c f)(a \<mapsto> x)"
proof -
  have far: "q AND NOT 3 \<noteq> a" if "resident c q w" for q w
    using that c(2) resident_aligned by metis
  have mem: "be_long f' (q AND NOT 3) = be_long f (q AND NOT 3)" if "resident c q w" for q w
  proof -
    have "fitted (q AND NOT 3)" using c(1) that unfolding faithful40_def by blast
    then show ?thesis
      using fun_cong [OF f', of "q AND NOT 3"] far [OF that] align_split(2) [of q] by (simp add: memory_words_def split: if_splits)
  qed
  have wf: "wf_cache40 c" using c(1) by (simp add: faithful40_def)
  show "faithful40 fitted f' c"
    using c(1) mem unfolding faithful40_def by auto
  show "visible40 fitted c f' = (visible40 fitted c f)(a \<mapsto> x)"
  proof
    fix q
    show "visible40 fitted c f' q = ((visible40 fitted c f)(a \<mapsto> x)) q"
    proof (cases "\<exists>w. resident c q w")
      case True
      then obtain w where r: "resident c q w" by blast
      then have "q \<noteq> a" using c(2) by blast
      then show ?thesis using r by (simp add: visible40_def view40_resident [OF wf])
    next
      case False
      have "visible40 fitted c g q = memory_words fitted g q" for g by (rule visible_absent) (use False in blast)
      then show ?thesis by (simp add: f')
    qed
  qed
qed

section \<open>Searches through the cache\<close>

locale cached_memory = memory_bus ax bytes good fitted +
    plain: descriptor_memory "cx_table_fetch cx" update "\<lambda>m. memory_words fitted (bytes m)" good
  for ax :: "'m access_ctx"
    and bytes :: "'m \<Rightarrow> u32 \<Rightarrow> u8"
    and good :: "'m \<Rightarrow> bool"
    and fitted :: "u32 \<Rightarrow> bool"
    and cx :: "'m context40"
    and update :: "'m update40" +
  assumes side: "data_side cx ax"
    and tables: "tables_use_cache cx" "cx_table_update cx = Some update"
begin

definition search_words :: "'m search40_state \<Rightarrow> words" where
  "search_words = (\<lambda>(c, bus, clocks, m). visible40 fitted c (bytes m))"

definition search_good :: "'m search40_state \<Rightarrow> bool" where
  "search_good = (\<lambda>(c, bus, clocks, m). good m \<and> faithful40 fitted (bytes m) c)"

lemma path: "cx_path cx = ax"
  using side by (simp add: data_side_def)

lemma descriptor_cycle_quiet:
  assumes "good m" "descriptor_cycle ax p rd (b, t, m) = (b', t', m')"
  shows "good m' \<and> bytes m' = bytes m"
proof -
  obtain w m1 where w: "waits ax p rd m = (w, m1)" by fastforce
  obtain k m2 where k: "acquire ax RMC_LOCKED m1 = (k, m2)" by fastforce
  have "good m2 \<and> bytes m2 = bytes m"
    using wait_quiet [OF assms(1) w] acquire_quiet [of m1 RMC_LOCKED] k by simp
  then show ?thesis
    using assms(2) drive_quiet [of m2] unfolding descriptor_cycle_def Let_def prod.case w k
    by (auto split: prod.splits) (metis snd_conv)+
qed

lemma fetch_through:
  assumes m: "good m" "faithful40 fitted (bytes m) c" "a AND 3 = 0"
    and run: "table_fetch_through cx a (c, m) = (v, c', m')"
  shows "v = visible40 fitted c (bytes m) a" "c' = c" "good m'"
    "memory_words fitted (bytes m') = memory_words fitted (bytes m)"
proof -
  have "v = visible40 fitted c (bytes m) a \<and> c' = c \<and> good m' \<and>
      memory_words fitted (bytes m') = memory_words fitted (bytes m)"
  proof (rule cache40_lookup_cases [of c a])
    assume "resident c a (cache40_lookup c a)" "cache40_lookup c a < 4"
    then show ?thesis
      using run m visible_resident [OF m(2) _ m(3)] tables(1)
      by (auto simp: table_fetch_through_def CACHE40_WAYS_def Let_def)
  next
    assume miss: "cache40_lookup c a = 4" "\<And>w. \<not> resident c a w"
    obtain x m1 where f: "cx_table_fetch cx a m = (x, m1)" by fastforce
    have "v = x" "c' = c" "m' = m1" using run miss f by (simp_all add: table_fetch_through_def CACHE40_WAYS_def)
    then show ?thesis
      using plain.fetch_word [OF m(1,3)] plain.fetch_quiet [OF m(1,3)] f visible_absent [OF miss(2)] by simp
  qed
  then show "v = visible40 fitted c (bytes m) a" "c' = c" "good m'"
    "memory_words fitted (bytes m') = memory_words fitted (bytes m)" by blast+
qed

text \<open>A machine with the same words is as good for the cache.\<close>

lemma same_words:
  assumes "faithful40 fitted f c" "memory_words fitted f' = memory_words fitted f"
  shows "faithful40 fitted f' c \<and> visible40 fitted c f' = visible40 fitted c f"
proof -
  have wf: "wf_cache40 c" using assms(1) by (simp add: faithful40_def)
  have mem: "be_long f' (q AND NOT 3) = be_long f (q AND NOT 3)" if "fitted (q AND NOT 3)" for q
    using fun_cong [OF assms(2), of "q AND NOT 3"] that align_split(2) [of q] by (simp add: memory_words_def split: if_splits)
  have "visible40 fitted c f' q = visible40 fitted c f q" for q
  proof (cases "\<exists>w. resident c q w")
    case True
    then show ?thesis by (auto simp: visible40_def view40_resident [OF wf])
  next
    case False
    have "visible40 fitted c g q = memory_words fitted g q" for g by (rule visible_absent) (use False in blast)
    then show ?thesis by (simp only: assms(2))
  qed
  moreover have "faithful40 fitted f' c" using assms(1) mem unfolding faithful40_def by auto
  ultimately show ?thesis by (simp add: fun_eq_iff)
qed

lemma update_through:
  assumes m: "good m" "faithful40 fitted (bytes m) c" "a AND 3 = 0" "visible40 fitted c (bytes m) a = Some w"
    and run: "table_update_through cx update a u md l (c, m) = (ok, c', m')"
  shows "ok \<and> good m' \<and> faithful40 fitted (bytes m') c' \<and>
    visible40 fitted c' (bytes m') = (visible40 fitted c (bytes m))(a \<mapsto> mark_history u md w)"
proof -
  obtain e c1 k m1 where e: "evict_line40 ax a (c, 0, m) = (e, c1, k, m1)" by (metis prod_cases4)
  note ev = evict_view [OF m(1,2) e]
  obtain o1 m2 where up: "update a u md l m1 = (o1, m2)" by fastforce
  have out: "ok = o1" "c' = c1" "m' = m2"
    using run ev up tables(1) by (simp_all add: table_update_through_def path e)
  have vis: "visible40 fitted c1 (bytes m1) = visible40 fitted c (bytes m)"
    using ev by (simp add: visible40_def fun_eq_iff)
  then have "memory_words fitted (bytes m1) a = Some w"
    using ev m(4) visible_absent [of c1 a fitted "bytes m1"] by simp
  note mw = plain.update_word [OF _ m(3) this up]
  have gone: "\<And>w. \<not> resident c1 a w" and good1: "good m1" and f1: "faithful40 fitted (bytes m1) c1" using ev by blast+
  show ?thesis
    using mw [OF good1] absent_marked [OF f1 gone] vis by (simp add: out)
qed

end

sublocale cached_memory \<subseteq> through: descriptor_memory "search_fetch40 cx" "search_update40 cx update" search_words search_good
proof
  fix s s' :: "'m search40_state" and a w :: u32 and u md l ok
  assume s: "search_good s" "a AND 3 = 0"
  obtain c b t m where st: "s = (c, b, t, m)" by (metis prod_cases4)
  have m: "good m" "faithful40 fitted (bytes m) c" using s(1) by (simp_all add: st search_good_def)
  obtain b1 t1 m1 where d: "descriptor_cycle ax a True (b, t, m) = (b1, t1, m1)" by (metis prod_cases3)
  have m1: "good m1" "bytes m1 = bytes m" using descriptor_cycle_quiet [OF m(1) d] by simp_all
  have m1c: "faithful40 fitted (bytes m1) c" using m(2) m1(2) by simp
  obtain v c2 m2 where f: "table_fetch_through cx a (c, m1) = (v, c2, m2)" by (metis prod_cases3)
  note ft = fetch_through [OF m1(1) m1c s(2) f]
  have run: "search_fetch40 cx a s = (v, c2, b1, t1, m2)" by (simp add: st search_fetch40_def path d f)
  show "fst (search_fetch40 cx a s) = search_words s a"
    using ft(1) m1(2) by (simp add: run) (simp add: st search_words_def)
  show "search_good (snd (search_fetch40 cx a s)) \<and> search_words (snd (search_fetch40 cx a s)) = search_words s"
    using ft same_words [OF m1c ft(4)] m1(2) by (simp add: run) (simp add: st search_words_def search_good_def)
  show "ok \<and> search_good s' \<and> search_words s' = (search_words s)(a \<mapsto> mark_history u md w)"
    if w: "search_words s a = Some w" and up: "search_update40 cx update a u md l s = (ok, s')"
  proof -
    obtain b2 t2 m3 where d2: "(if l then descriptor_cycle ax a True (b, t, m) else (b, t, m)) = (b2, t2, m3)"
      by (metis prod_cases3)
    have m3: "good m3" "bytes m3 = bytes m" using d2 d m1 m by (auto split: if_splits)
    obtain b4 t4 m4 where d4: "descriptor_cycle ax a False (b2, t2, m3) = (b4, t4, m4)" by (metis prod_cases3)
    have m4: "good m4" "bytes m4 = bytes m" using descriptor_cycle_quiet [OF m3(1) d4] m3(2) by simp_all
    obtain o5 c5 m5 where u: "table_update_through cx update a u md l (c, m4) = (o5, c5, m5)" by (metis prod_cases3)
    have out: "ok = o5" "s' = (c5, b4, t4, m5)"
      using up unfolding search_update40_def st prod.case path d2 Let_def d4 u by simp_all
    have c: "faithful40 fitted (bytes m4) c" "visible40 fitted c (bytes m4) a = Some w"
      using m(2) m4(2) w by (simp_all add: st search_words_def)
    show ?thesis
      using update_through [OF m4(1) c(1) s(2) c(2) u] m4(2) by (simp add: out) (simp add: st search_words_def search_good_def)
  qed
qed

section \<open>Words off the tables\<close>

text \<open>The words the translations of a pair of roots depend on.\<close>

definition table_words :: "u32 set \<Rightarrow> page_size40 \<Rightarrow> words \<Rightarrow> u32 set" where
  "table_words roots ps mem = {s. \<exists>root \<in> roots. \<exists>l. reads_slot mem root ps l s}"

definition same_tables :: "u32 set \<Rightarrow> page_size40 \<Rightarrow> words \<Rightarrow> words \<Rightarrow> bool" where
  "same_tables roots ps mem mem' \<longleftrightarrow> (\<forall>root \<in> roots. \<forall>l. tables_say mem' root ps l = tables_say mem root ps l \<and>
     (\<forall>s. reads_slot mem' root ps l s = reads_slot mem root ps l s))"

lemma same_tables_words: "same_tables roots ps mem mem' \<Longrightarrow> table_words roots ps mem' = table_words roots ps mem"
  by (auto simp: same_tables_def table_words_def)

lemma same_tables_trans: "same_tables roots ps a b \<Longrightarrow> same_tables roots ps b c \<Longrightarrow> same_tables roots ps a c"
  by (simp add: same_tables_def)

lemma same_tables_refl: "same_tables roots ps a a"
  by (simp add: same_tables_def)

lemma history_reads:
  assumes oh: "only_history roots ps mem mem'" and root: "root \<in> roots"
  shows "reads_slot mem' root ps l s = reads_slot mem root ps l s"
proof (rule only_history_upper [OF oh, of root l])
  assume "mem (root_slot root l) = None" "mem' (root_slot root l) = None"
  then show ?thesis by (simp add: reads_slot_def table_slot_def)
next
  fix r r' assume r: "mem (root_slot root l) = Some r" "mem' (root_slot root l) = Some r'"
    "bit r' 1 = bit r 1" "\<And>l. pointer_slot r' l = pointer_slot r l"
  show ?thesis
  proof (rule only_history_middle [OF oh, of r l])
    assume "mem (pointer_slot r l) = None" "mem' (pointer_slot r l) = None"
    then show ?thesis using r by (simp add: reads_slot_def table_slot_def)
  next
    fix p p' assume p: "mem (pointer_slot r l) = Some p" "mem' (pointer_slot r l) = Some p'"
      "bit p' 1 = bit p 1" "\<And>ps l. page_slot ps p' l = page_slot ps p l"
    let ?c = "page_slot ps p l"
    have ind: "(\<exists>d. mem' ?c = Some d \<and> d AND 3 = 2 \<and> s = d AND 0xFFFFFFFC) \<longleftrightarrow>
        (\<exists>d. mem ?c = Some d \<and> d AND 3 = 2 \<and> s = d AND 0xFFFFFFFC)" if bits: "bit r 1" "bit p 1"
    proof (cases "\<exists>d. mem ?c = Some d \<and> d AND 3 = 2")
      case True
      then have "indirect_slot mem root ps l ?c" using r p bits by (auto simp: indirect_slot_def)
      then have "mem' ?c = mem ?c" using oh root by (simp add: only_history_def)
      then show ?thesis by simp
    next
      case False
      have "same_word (mem ?c) (mem' ?c)" using oh by (simp add: only_history_def)
      then show ?thesis using False same_word_type by blast
    qed
    show ?thesis using r p ind by (auto simp: reads_slot_def table_slot_def)
  qed
qed

lemma history_same_tables: "only_history roots ps mem mem' \<Longrightarrow> same_tables roots ps mem mem'"
  by (simp add: same_tables_def history_reads only_history_says)

text \<open>A change of a word no search reads.\<close>

lemma untouched_tables:
  assumes same: "\<And>s. s \<in> table_words roots ps mem \<Longrightarrow> mem' s = mem s" and root: "root \<in> roots"
  shows "tables_say mem' root ps l = tables_say mem root ps l" "reads_slot mem' root ps l s = reads_slot mem root ps l s"
    "table_slot mem' root l s = table_slot mem root l s" "indirect_slot mem' root ps l s = indirect_slot mem root ps l s"
proof -
  have in_words: "reads_slot mem root ps l s \<Longrightarrow> mem' s = mem s" for s
    using same root by (auto simp: table_words_def)
  have a: "mem' (root_slot root l) = mem (root_slot root l)"
    by (rule in_words) (simp add: reads_slot_def table_slot_def)
  have all: "tables_say mem' root ps l = tables_say mem root ps l \<and>
      reads_slot mem' root ps l s = reads_slot mem root ps l s \<and>
      table_slot mem' root l s = table_slot mem root l s \<and> indirect_slot mem' root ps l s = indirect_slot mem root ps l s"
  proof (cases "mem (root_slot root l)")
    case None
    then show ?thesis using a by (simp add: tables_say_def reads_slot_def table_slot_def indirect_slot_def)
  next
    case r: (Some r)
    show ?thesis
    proof (cases "bit r 1")
      case False
      then show ?thesis using a r by (simp add: tables_say_def reads_slot_def table_slot_def indirect_slot_def)
    next
      case r1: True
      have b: "mem' (pointer_slot r l) = mem (pointer_slot r l)"
        by (rule in_words) (use r r1 in \<open>auto simp: reads_slot_def table_slot_def\<close>)
      show ?thesis
      proof (cases "mem (pointer_slot r l)")
        case None
        then show ?thesis using a b r r1 by (simp add: tables_say_def reads_slot_def table_slot_def indirect_slot_def)
      next
        case p: (Some p)
        show ?thesis
        proof (cases "bit p 1")
          case False
          then show ?thesis using a b r r1 p by (simp add: tables_say_def reads_slot_def table_slot_def indirect_slot_def)
        next
          case p1: True
          have c: "mem' (page_slot ps p l) = mem (page_slot ps p l)"
            by (rule in_words) (use r r1 p p1 in \<open>auto simp: reads_slot_def\<close>)
          have d: "mem' (d AND 0xFFFFFFFC) = mem (d AND 0xFFFFFFFC)" if "mem (page_slot ps p l) = Some d" "d AND 3 = 2" for d
            by (rule in_words) (use r r1 p p1 that in \<open>auto simp: reads_slot_def\<close>)
          have i: "indirect_slot X root ps l s \<longleftrightarrow> s = page_slot ps p l \<and> (\<exists>d. X (page_slot ps p l) = Some d \<and> d AND 3 = 2)"
            if "X (root_slot root l) = Some r" "X (pointer_slot r l) = Some p" for X
            using that r1 p1 by (auto simp: indirect_slot_def)
          have "indirect_slot mem' root ps l s = indirect_slot mem root ps l s"
            using i [of mem'] i [of mem] a b c r p by simp
          moreover have "tables_say mem' root ps l = tables_say mem root ps l"
            using a b c d r r1 p p1 unfolding tables_say_def by (auto split: option.splits)
          ultimately show ?thesis using a b c r r1 p p1 by (auto simp: reads_slot_def table_slot_def)
        qed
      qed
    qed
  qed
  then show "tables_say mem' root ps l = tables_say mem root ps l" "reads_slot mem' root ps l s = reads_slot mem root ps l s"
    "table_slot mem' root l s = table_slot mem root l s" "indirect_slot mem' root ps l s = indirect_slot mem root ps l s"
    by blast+
qed

lemma untouched_same_tables:
  assumes same: "\<And>s. s \<in> table_words roots ps mem \<Longrightarrow> mem' s = mem s"
  shows "same_tables roots ps mem mem'"
proof -
  have "tables_say mem' root ps l = tables_say mem root ps l"
    "reads_slot mem' root ps l s = reads_slot mem root ps l s" if "root \<in> roots" for root l s
    using untouched_tables(1,2) [OF same that] by simp_all
  then show ?thesis by (simp add: same_tables_def)
qed

lemma untouched_apart:
  assumes same: "\<And>s. s \<in> table_words roots ps mem \<Longrightarrow> mem' s = mem s"
  shows "apart roots ps mem' = apart roots ps mem"
proof -
  have "table_slot mem' root l s = table_slot mem root l s"
    "indirect_slot mem' root ps l s = indirect_slot mem root ps l s" if "root \<in> roots" for root l s
    using untouched_tables(3,4) [OF same that] by simp_all
  then show ?thesis by (simp add: apart_def cong: ball_cong)
qed

text \<open>The page descriptor itself is one of the words.\<close>

lemma page_word:
  assumes "tables_say mem root ps l = Page s wp d" shows "reads_slot mem root ps l s"
  using assms unfolding tables_say_def leaf_def reads_slot_def table_slot_def
  by (auto split: option.splits if_splits)

lemma untouched_cache_true:
  assumes same: "\<And>s. s \<in> table_words (both_roots regs) ps mem \<Longrightarrow> mem' s = mem s" and true: "cache_true regs ps mem c"
  shows "cache_true regs ps mem' c"
proof -
  have "entry_true mem' (root_for regs sv) ps l e" if "entry_true mem (root_for regs sv) ps l e" for sv l e
  proof -
    have "mem' s = mem s" if "tables_say mem (root_for regs sv) ps l = Page s wp d" for s wp d
      using same page_word [OF that] root_for_both by (auto simp: table_words_def)
    then show ?thesis
      using that untouched_tables(1) [OF same root_for_both] unfolding entry_true_def by (auto split: tables_answer.splits)
  qed
  then show ?thesis using true unfolding cache_true_def by blast
qed

lemma reference_same_tables:
  assumes "same_tables (both_roots regs) (tcr_page_size (mmu_tcr regs)) mem mem'"
  shows "reference40 regs mem' l fc write = reference40 regs mem l fc write"
proof -
  have "tables_say mem' (root_for regs sv) (tcr_page_size (mmu_tcr regs)) l =
      tables_say mem (root_for regs sv) (tcr_page_size (mmu_tcr regs)) l" for sv
    using assms root_for_both unfolding same_tables_def by blast
  then show ?thesis by (simp add: reference40_def Let_def split: option.split)
qed

end
