(* ===== verification/M68040_Runs.thy ===== *)
theory M68040_Runs
  imports M68040_Through
begin

unbundle bit_operations_syntax

text \<open>
  Programs on the MC68040's data side: runs of logical reads and writes through the translation cache, the
  table search, the data cache and the bus (\<^verbatim>\<open>ap_m68030_access_read_040\<close> and
  \<^verbatim>\<open>ap_m68030_access_write_040\<close> of \<^verbatim>\<open>ap_m68030_access.c\<close>). The abstract machine is a partial function from
  addresses to long words: an access translates by what the words say and then reads or writes one of them.
  Inside \<open>cached_memory\<close> a run of the detailed machine answers what the abstract one answers and ends with the
  same words, the history bits of the tables apart.
\<close>

section \<open>Programs\<close>

text \<open>Whether a miss may allocate a line, the logical address, the function code, the size and what is written.\<close>

datatype prog40 = READ40 bool u32 u8 nat | WRITE40 bool u32 u8 nat u32

definition answered :: "access_result \<Rightarrow> u32 option" where
  "answered r = (if ar_ok r then Some (ar_value r) else None)"

fun prog_step :: "'m context40 \<Rightarrow> prog40 \<Rightarrow> 'm state40 \<Rightarrow> u32 option \<times> 'm state40" where
  "prog_step cx (READ40 na l fc sz) st = apfst answered (access_read40 (cx\<lparr>cx_no_allocate := na\<rparr>) l fc sz st)"
| "prog_step cx (WRITE40 na l fc sz v) st =
     apfst (\<lambda>r. if ar_ok r then Some v else None) (access_write40 (cx\<lparr>cx_no_allocate := na\<rparr>) l fc v sz st)"

fun prog_run :: "'m context40 \<Rightarrow> prog40 list \<Rightarrow> 'm state40 \<Rightarrow> u32 option list \<times> 'm state40" where
  "prog_run cx [] st = ([], st)"
| "prog_run cx (op # ops) st = (let (a, st) = prog_step cx op st; (as, st) = prog_run cx ops st in (a # as, st))"

text \<open>The abstract machine: the registers of the MMU and the words.\<close>

fun word_step :: "mmu_regs40 \<Rightarrow> prog40 \<Rightarrow> words \<Rightarrow> u32 option \<times> words" where
  "word_step regs (READ40 na l fc sz) mem =
     (case reference40 regs mem l (ucast fc) False of
        Refused \<Rightarrow> (None, mem) | Granted _ p _ \<Rightarrow> (mem (p AND NOT 3), mem))"
| "word_step regs (WRITE40 na l fc sz v) mem =
     (case reference40 regs mem l (ucast fc) True of
        Refused \<Rightarrow> (None, mem)
      | Granted _ p _ \<Rightarrow> (Some v, mem(p AND NOT 3 \<mapsto> merge_lanes p sz v (the (mem (p AND NOT 3))))))"

fun word_run :: "mmu_regs40 \<Rightarrow> prog40 list \<Rightarrow> words \<Rightarrow> u32 option list \<times> words" where
  "word_run regs [] mem = ([], mem)"
| "word_run regs (op # ops) mem =
     (let (a, mem) = word_step regs op mem; (as, mem) = word_run regs ops mem in (a # as, mem))"

text \<open>What a run asks of its operations: the place an address translates to is memory and no word of the
  translation tables, and a write stays in its long word.\<close>

definition off_tables :: "mmu_regs40 \<Rightarrow> words \<Rightarrow> u32 \<Rightarrow> bool" where
  "off_tables regs mem p \<longleftrightarrow> mem (p AND NOT 3) \<noteq> None \<and>
     p AND NOT 3 \<notin> table_words (both_roots regs) (tcr_page_size (mmu_tcr regs)) mem"

fun op_apart :: "mmu_regs40 \<Rightarrow> words \<Rightarrow> prog40 \<Rightarrow> bool" where
  "op_apart regs mem (READ40 na l fc sz) =
     (case reference40 regs mem l (ucast fc) False of Refused \<Rightarrow> True | Granted _ p _ \<Rightarrow> off_tables regs mem p)"
| "op_apart regs mem (WRITE40 na l fc sz v) =
     (case reference40 regs mem l (ucast fc) True of
        Refused \<Rightarrow> True
      | Granted _ p _ \<Rightarrow> off_tables regs mem p \<and> 0 < sz \<and> unat (p AND 3) + sz \<le> 4)"

section \<open>Words off the tables, and words a run agrees on\<close>

lemma off_tables_same:
  assumes "same_tables (both_roots regs) (tcr_page_size (mmu_tcr regs)) mem mem'" "dom mem' = dom mem"
  shows "off_tables regs mem' p = off_tables regs mem p" "op_apart regs mem' op = op_apart regs mem op"
proof -
  show off: "off_tables regs mem' p = off_tables regs mem p" for p
    using assms(2) same_tables_words [OF assms(1)] unfolding off_tables_def by (auto simp: dom_def)
  show "op_apart regs mem' op = op_apart regs mem op"
    by (cases op) (simp_all add: off reference_same_tables [OF assms(1)] split: answer40.split)
qed

lemma off_table_word:
  assumes "a \<notin> table_words (both_roots regs) ps mem"
  shows "same_tables (both_roots regs) ps mem (mem(a \<mapsto> x))"
  by (rule untouched_same_tables) (use assms in auto)

text \<open>The abstract machine keeps its tables.\<close>

lemma word_step_tables:
  assumes "op_apart regs mem op" "word_step regs op mem = (a, mem')"
  shows "same_tables (both_roots regs) (tcr_page_size (mmu_tcr regs)) mem mem' \<and> dom mem' = dom mem"
proof (cases op)
  case (READ40 na l fc sz)
  then show ?thesis using assms(2) same_tables_refl by (auto split: answer40.splits)
next
  case (WRITE40 na l fc sz v)
  show ?thesis
  proof (cases "reference40 regs mem l (ucast fc) True")
    case Refused
    then show ?thesis using assms(2) WRITE40 same_tables_refl by simp
  next
    case (Granted k p mode)
    then have off: "off_tables regs mem p" and "mem' = mem(p AND NOT 3 \<mapsto> merge_lanes p sz v (the (mem (p AND NOT 3))))"
      using assms WRITE40 by auto
    then show ?thesis
      using off_table_word [of "p AND NOT 3" regs "tcr_page_size (mmu_tcr regs)" mem] by (auto simp: off_tables_def)
  qed
qed

text \<open>Two memories with the same tables and the same words off them.\<close>

definition alike :: "mmu_regs40 \<Rightarrow> words \<Rightarrow> words \<Rightarrow> bool" where
  "alike regs mem mem' \<longleftrightarrow> same_tables (both_roots regs) (tcr_page_size (mmu_tcr regs)) mem mem' \<and> dom mem' = dom mem \<and>
     (\<forall>a. a \<notin> table_words (both_roots regs) (tcr_page_size (mmu_tcr regs)) mem \<longrightarrow> mem' a = mem a)"

lemma alike_refl: "alike regs mem mem"
  by (simp add: alike_def same_tables_refl)

lemma alike_reference: "alike regs mem mem' \<Longrightarrow> reference40 regs mem' l fc w = reference40 regs mem l fc w"
  by (simp add: alike_def reference_same_tables)

lemma alike_stored:
  assumes "alike regs mem mem'" "off_tables regs mem p"
  shows "alike regs (mem(p AND NOT 3 \<mapsto> x)) (mem'(p AND NOT 3 \<mapsto> x))"
proof -
  let ?roots = "both_roots regs" and ?ps = "tcr_page_size (mmu_tcr regs)" and ?a = "p AND NOT 3"
  have off: "?a \<notin> table_words ?roots ?ps mem" using assms(2) by (simp add: off_tables_def)
  have same: "same_tables ?roots ?ps mem mem'" using assms(1) by (simp add: alike_def)
  have off': "?a \<notin> table_words ?roots ?ps mem'" using off same_tables_words [OF same] by simp
  note t = off_table_word [OF off, of x] off_table_word [OF off', of x]
  have "same_tables ?roots ?ps (mem(?a \<mapsto> x)) (mem'(?a \<mapsto> x))"
    using t same by (simp add: same_tables_def)
  then show ?thesis
    using assms(1) same_tables_words [OF t(1)] by (simp add: alike_def)
qed

lemma alike_trans:
  assumes "alike regs a b" "alike regs b c"
  shows "alike regs a c"
  using assms same_tables_words [of "both_roots regs" "tcr_page_size (mmu_tcr regs)" a b] same_tables_trans
  unfolding alike_def by metis

text \<open>The abstract machine takes alike memories to alike memories.\<close>

lemma word_step_alike:
  assumes al: "alike regs mem mem'" and op: "op_apart regs mem op"
    and run: "word_step regs op mem = (a, n)" "word_step regs op mem' = (a', n')"
  shows "a' = a \<and> alike regs n n'"
proof -
  note ref = alike_reference [OF al]
  have same: "mem' (p AND NOT 3) = mem (p AND NOT 3)" if "off_tables regs mem p" for p
    using that al by (simp add: alike_def off_tables_def)
  show ?thesis
  proof (cases op)
    case (READ40 na l fc sz)
    then show ?thesis using run op ref same al by (cases "reference40 regs mem l (ucast fc) False") auto
  next
    case (WRITE40 na l fc sz v)
    show ?thesis
    proof (cases "reference40 regs mem l (ucast fc) True")
      case Refused
      then show ?thesis using run ref al WRITE40 by simp
    next
      case (Granted k p mode)
      then have off: "off_tables regs mem p" using op WRITE40 by simp
      from alike_stored [OF al this] run ref Granted WRITE40 same [OF off] show ?thesis by auto
    qed
  qed
qed

section \<open>Accesses, one by one\<close>

context cached_memory begin

text \<open>The words a program sees in a state.\<close>

definition program_words :: "'m state40 \<Rightarrow> words" where
  "program_words st = visible40 fitted (s4_dcache st) (bytes (s4_machine st))"

lemma program_words_seen: "program_words st a = (if a AND 3 = 0 \<and> fitted a then Some (seen st a) else None)"
  by (simp add: program_words_def visible40_def seen_def)

lemma seen_aligned: "seen st (p AND NOT 3) = seen st p"
  unfolding seen_def by (rule view40_aligned)

lemma program_word:
  assumes "program_words st (p AND NOT 3) = Some w"
  shows "fitted (p AND NOT 3)" "seen st p = w"
  using assms seen_aligned [of st p] unfolding program_words_seen by (auto split: if_splits)

lemma program_words_put:
  assumes "fitted (p AND NOT 3)" "seen st' = put_long (seen st) p sz v"
  shows "program_words st' = (program_words st)(p AND NOT 3 \<mapsto> merge_lanes p sz v (seen st p))"
proof
  fix a :: u32
  have low: "(p AND NOT 3) AND 3 = 0" by (rule align_split(2))
  have "a AND 3 = 0 \<Longrightarrow> a AND NOT 3 = a" by (rule aligned_self)
  then show "program_words st' a = ((program_words st)(p AND NOT 3 \<mapsto> merge_lanes p sz v (seen st p))) a"
    using assms low unfolding program_words_seen assms(2) put_long_def by (cases "a AND 3 = 0") auto
qed

text \<open>The MMU and the data cache are true to the words a program sees.\<close>

definition ready :: "mmu_regs40 \<Rightarrow> 'm state40 \<Rightarrow> bool" where
  "ready regs st \<longleftrightarrow> in_order st \<and> wf_atc40 (s4_atc st) \<and>
     cache_true regs (tcr_page_size (mmu_tcr regs)) (program_words st) (s4_atc st) \<and>
     apart (both_roots regs) (tcr_page_size (mmu_tcr regs)) (program_words st)"

lemma ready_iff:
  "ready regs st \<longleftrightarrow> good (s4_machine st) \<and> faithful40 fitted (bytes (s4_machine st)) (s4_dcache st) \<and>
     wf_atc40 (s4_atc st) \<and> cache_true regs (tcr_page_size (mmu_tcr regs)) (program_words st) (s4_atc st) \<and>
     apart (both_roots regs) (tcr_page_size (mmu_tcr regs)) (program_words st)"
  by (simp add: ready_def in_order_def)

lemma ready_same:
  assumes "ready regs st" "in_order st'" "elsewhere_same st st'" "seen st' = seen st"
  shows "ready regs st'" "program_words st' = program_words st"
proof -
  show "program_words st' = program_words st" using assms(4) unfolding program_words_seen fun_eq_iff by simp
  then show "ready regs st'" using assms(1-3) by (simp add: ready_def elsewhere_same_def)
qed

lemma ready_put:
  assumes r: "ready regs st" and st': "in_order st'" "elsewhere_same st st'" "seen st' = put_long (seen st) p sz v"
    and off: "off_tables regs (program_words st) p"
  shows "ready regs st'"
    "program_words st' = (program_words st)(p AND NOT 3 \<mapsto> merge_lanes p sz v (the (program_words st (p AND NOT 3))))"
proof -
  obtain w where w: "program_words st (p AND NOT 3) = Some w" using off by (auto simp: off_tables_def)
  note pw = program_word [OF w]
  show words: "program_words st' = (program_words st)(p AND NOT 3 \<mapsto> merge_lanes p sz v (the (program_words st (p AND NOT 3))))"
    using program_words_put [OF pw(1) st'(3)] pw(2) w by simp
  have same: "program_words st' s = program_words st s"
    if "s \<in> table_words (both_roots regs) (tcr_page_size (mmu_tcr regs)) (program_words st)" for s
    using that off by (auto simp: words off_tables_def)
  show "ready regs st'"
    using r st'(1,2) untouched_apart [OF same] untouched_cache_true [OF same]
    by (simp add: ready_def elsewhere_same_def)
qed

lemma search_no_allocate:
  "search_fetch40 (cx\<lparr>cx_no_allocate := na\<rparr>) = search_fetch40 cx"
  "search_update40 (cx\<lparr>cx_no_allocate := na\<rparr>) = search_update40 cx"
proof -
  let ?cx = "cx\<lparr>cx_no_allocate := na\<rparr>"
  have "cx_path ?cx = cx_path cx" "cx_table_cached ?cx = cx_table_cached cx"
    "cx_table_cache_enabled ?cx = cx_table_cache_enabled cx" "cx_table_fetch ?cx = cx_table_fetch cx" by simp_all
  note same = search_fetch40_def search_update40_def table_fetch_through_def table_update_through_def
    tables_use_cache_def this
  show "search_fetch40 ?cx = search_fetch40 cx" "search_update40 ?cx = search_update40 cx"
    by ((rule ext)+, simp only: same)+
qed

text \<open>A translation answers what the words say and changes only their history.\<close>

lemma translate_ready:
  assumes r: "ready regs st" and cx: "cx_mmu cx = Some regs"
    and run: "translate_040 (cx\<lparr>cx_no_allocate := na\<rparr>) l fc write st = (x, st')"
  shows "\<exists>y k. x = Some (y, k) \<and> answer_of y = reference40 regs (program_words st) l (ucast fc) write \<and>
    ready regs st' \<and> alike regs (program_words st) (program_words st')"
proof -
  let ?ps = "tcr_page_size (mmu_tcr regs)" and ?s = "(s4_dcache st, s4_bus st, 0 :: nat, s4_machine st)"
  obtain y atc c bus clocks m where t: "translate40 regs l (ucast fc) write (search_fetch40 cx)
      (Some (search_update40 cx update)) (s4_atc st, ?s) = (y, atc, c, bus, clocks, m)" by (metis prod_cases6)
  have w: "search_words ?s = program_words st" by (simp add: search_words_def program_words_def)
  have good: "search_good ?s" using r by (simp add: ready_def in_order_def search_good_def)
  have pre: "wf_atc40 (s4_atc st)" "cache_true regs ?ps (search_words ?s) (s4_atc st)"
    "apart (both_roots regs) ?ps (search_words ?s)" using r by (simp_all add: ready_def w)
  note tr = through.translation [OF good pre refl t, unfolded w]
  have out: "x = Some (y, clocks)" "st' = st\<lparr>s4_atc := atc, s4_dcache := c, s4_bus := bus, s4_machine := m\<rparr>"
    using run cx tables(2) t by (auto simp: translate_040_def search_no_allocate)
  have w': "search_words (c, bus, clocks, m) = program_words st'" by (simp add: search_words_def program_words_def out(2))
  have oh: "only_history (both_roots regs) ?ps (program_words st) (program_words st')" using tr(1) w' by simp
  have same: "same_tables (both_roots regs) ?ps (program_words st) (program_words st')"
    unfolding same_tables_def using only_history_says [OF oh] history_reads [OF oh] by blast
  have off: "program_words st' a = program_words st a" if "a \<notin> table_words (both_roots regs) ?ps (program_words st)" for a
  proof -
    have "\<not> reads_slot (search_words ?s) (root_for regs (ucast fc AND 4 \<noteq> (0::u32))) ?ps l a"
      using that root_for_both unfolding table_words_def w by blast
    from through.translation_leaves [OF good pre(3) refl t this] show ?thesis unfolding w w' .
  qed
  have "same_word (program_words st a) (program_words st' a)" for a using oh by (simp add: only_history_def)
  then have "program_words st' a = None \<longleftrightarrow> program_words st a = None" for a
    by (metis same_wordE same_word_None option.distinct(1) option.exhaust)
  then have "dom (program_words st') = dom (program_words st)" by (simp add: dom_def)
  then have al: "alike regs (program_words st) (program_words st')" using same off by (simp add: alike_def)
  have "ready regs st'"
    using tr(1) w' only_history_apart [OF oh] r by (simp add: ready_def search_good_def in_order_def out(2))
  then show ?thesis using out(1) tr(2) al by blast
qed

lemma no_allocate_side: "data_side (cx\<lparr>cx_no_allocate := na\<rparr>) ax"
  using side by (auto simp: data_side_def cache_on40_def)

text \<open>An access after its translation.\<close>

lemma read_ready:
  assumes r: "ready regs st" and off: "off_tables regs (program_words st) p" and out: "\<not> ar_ok out"
    and run: "read_at40 (cx\<lparr>cx_no_allocate := na\<rparr>) p fc sz mode k out st = (x, st')"
  shows "answered x = program_words st (p AND NOT 3) \<and> ready regs st' \<and> program_words st' = program_words st"
proof -
  obtain w where w: "program_words st (p AND NOT 3) = Some w" using off by (auto simp: off_tables_def)
  note pw = program_word [OF w]
  have st: "in_order st" using r by (simp add: ready_def)
  then have "\<not> inhibits ax p (s4_machine st)" using memory by (simp add: in_order_def)
  then have "read_physical40 (cx\<lparr>cx_no_allocate := na\<rparr>) p fc mode False (out\<lparr>ar_phys := p\<rparr>) st = (x, st')"
    using run path by (simp add: read_at40_def)
  note v = read_physical_view [OF no_allocate_side st _ this]
  have "in_order st'" "seen st' = seen st" "elsewhere_same st st'" "ar_ok x" "ar_value x = seen st p"
    using v out pw by simp_all
  then show ?thesis using ready_same [OF r] pw w by (simp add: answered_def)
qed

lemma write_ready:
  assumes r: "ready regs st" and off: "off_tables regs (program_words st) p" and out: "\<not> ar_ok out"
    and lanes: "0 < sz" "unat (p AND 3) + sz \<le> 4"
    and run: "write_at40 (cx\<lparr>cx_no_allocate := na\<rparr>) p fc v sz mode out st = (x, st')"
  shows "ar_ok x \<and> ready regs st' \<and>
    program_words st' = (program_words st)(p AND NOT 3 \<mapsto> merge_lanes p sz v (the (program_words st (p AND NOT 3))))"
proof -
  obtain w where w: "program_words st (p AND NOT 3) = Some w" using off by (auto simp: off_tables_def)
  note pw = program_word [OF w]
  have st: "in_order st" using r by (simp add: ready_def)
  then have "\<not> inhibits ax p (s4_machine st)" using memory by (simp add: in_order_def)
  then have "write_physical40 (cx\<lparr>cx_no_allocate := na\<rparr>) p fc v sz mode False (out\<lparr>ar_phys := p\<rparr>) st = (x, st')"
    using run path by (simp add: write_at40_def)
  note v = write_physical_view [OF no_allocate_side st _ lanes this]
  have "in_order st'" "seen st' = put_long (seen st) p sz v" "elsewhere_same st st'" "ar_ok x"
    using v out pw by simp_all
  then show ?thesis using ready_put [OF r _ _ _ off] by blast
qed

lemma refused_ready:
  assumes "ready regs st"
  shows "ready regs (st\<lparr>s4_machine := report_mmu_fault ax l fc w why (s4_machine st)\<rparr>)"
    "program_words (st\<lparr>s4_machine := report_mmu_fault ax l fc w why (s4_machine st)\<rparr>) = program_words st"
  using assms report_quiet [of "s4_machine st" l fc w why]
  by (simp_all add: ready_def in_order_def program_words_def)

lemma step_words:
  assumes r: "ready regs st" and cx: "cx_mmu cx = Some regs" and op: "op_apart regs (program_words st) op"
    and run: "prog_step cx op st = (a, st')" and ref: "word_step regs op (program_words st) = (b, mem)"
  shows "a = b \<and> ready regs st' \<and> alike regs mem (program_words st')"
proof (cases op)
  case (READ40 na l fc sz)
  obtain x st1 where x: "translate_040 (cx\<lparr>cx_no_allocate := na\<rparr>) l fc False st = (x, st1)" by fastforce
  then obtain y k where y: "x = Some (y, k)" "answer_of y = reference40 regs (program_words st) l (ucast fc) False"
    and r1: "ready regs st1" "alike regs (program_words st) (program_words st1)"
    using translate_ready [OF r cx] by blast
  show ?thesis
  proof (cases "rs_status y = MMU_FAULT")
    case True
    then have "reference40 regs (program_words st) l (ucast fc) False = Refused" using y(2) by (simp add: answer_of_def)
    then show ?thesis
      using run ref READ40 x y(1) True r1 refused_ready [OF r1(1)] path
      by (auto simp: access_read40_def Let_def answered_def no_result_def)
  next
    case False
    then have g: "reference40 regs (program_words st) l (ucast fc) False = Granted (rs_status y) (rs_physical y) (rs_cache_mode y)"
      using y(2) by (simp add: answer_of_def)
    then have off: "off_tables regs (program_words st) (rs_physical y)" using op READ40 by simp
    then have off1: "off_tables regs (program_words st1) (rs_physical y)"
      using r1(2) off_tables_same(1) unfolding alike_def by blast
    have mem: "program_words st1 (rs_physical y AND NOT 3) = program_words st (rs_physical y AND NOT 3)"
      using r1(2) off by (simp add: alike_def off_tables_def)
    obtain z st2 where z: "read_at40 (cx\<lparr>cx_no_allocate := na\<rparr>) (rs_physical y) fc sz (rs_cache_mode y) k
        (no_result\<lparr>ar_mmu_consulted := True, ar_descriptor_fetches := rs_fetches y\<rparr>) st1 = (z, st2)" by fastforce
    have "\<not> ar_ok (no_result\<lparr>ar_mmu_consulted := True, ar_descriptor_fetches := rs_fetches y\<rparr>)" by (simp add: no_result_def)
    note v = read_ready [OF r1(1) off1 this z]
    have "a = answered z" "st' = st2" using run READ40 x y(1) False z by (auto simp: access_read40_def Let_def)
    then show ?thesis using v ref READ40 g mem r1(2) by auto
  qed
next
  case (WRITE40 na l fc sz w)
  obtain x st1 where x: "translate_040 (cx\<lparr>cx_no_allocate := na\<rparr>) l fc True st = (x, st1)" by fastforce
  then obtain y k where y: "x = Some (y, k)" "answer_of y = reference40 regs (program_words st) l (ucast fc) True"
    and r1: "ready regs st1" "alike regs (program_words st) (program_words st1)"
    using translate_ready [OF r cx] by blast
  show ?thesis
  proof (cases "rs_status y = MMU_FAULT")
    case True
    then have "reference40 regs (program_words st) l (ucast fc) True = Refused" using y(2) by (simp add: answer_of_def)
    then show ?thesis
      using run ref WRITE40 x y(1) True r1 refused_ready [OF r1(1)] path
      by (auto simp: access_write40_def Let_def no_result_def)
  next
    case False
    then have g: "reference40 regs (program_words st) l (ucast fc) True = Granted (rs_status y) (rs_physical y) (rs_cache_mode y)"
      using y(2) by (simp add: answer_of_def)
    then have off: "off_tables regs (program_words st) (rs_physical y)" and lanes: "0 < sz" "unat (rs_physical y AND 3) + sz \<le> 4"
      using op WRITE40 by simp_all
    then have off1: "off_tables regs (program_words st1) (rs_physical y)"
      using r1(2) off_tables_same(1) unfolding alike_def by blast
    have mem: "program_words st1 (rs_physical y AND NOT 3) = program_words st (rs_physical y AND NOT 3)"
      using r1(2) off by (simp add: alike_def off_tables_def)
    let ?out = "no_result\<lparr>ar_mmu_consulted := True, ar_descriptor_fetches := rs_fetches y, ar_clocks := k\<rparr>"
    obtain z st2 where z: "write_at40 (cx\<lparr>cx_no_allocate := na\<rparr>) (rs_physical y) fc w sz (rs_cache_mode y) ?out st1 = (z, st2)"
      by fastforce
    have "\<not> ar_ok ?out" by (simp add: no_result_def)
    note v = write_ready [OF r1(1) off1 this lanes z]
    have "a = (if ar_ok z then Some w else None)" "st' = st2"
      using run WRITE40 x y(1) False z by (auto simp: access_write40_def Let_def)
    then show ?thesis using v ref WRITE40 g mem alike_stored [OF r1(2) off] by auto
  qed
qed

lemma run_words:
  assumes "ready regs st" "cx_mmu cx = Some regs" "alike regs mem (program_words st)" "list_all (op_apart regs mem) ops"
    and "prog_run cx ops st = (as, st')" "word_run regs ops mem = (bs, mem')"
  shows "as = bs \<and> ready regs st' \<and> alike regs mem' (program_words st')"
  using assms
proof (induction ops arbitrary: st mem as bs)
  case (Cons op ops)
  obtain a st1 where one: "prog_step cx op st = (a, st1)" by fastforce
  obtain as1 st2 where rest: "prog_run cx ops st1 = (as1, st2)" by fastforce
  obtain b n where b: "word_step regs op (program_words st) = (b, n)" by fastforce
  obtain b' n' where b': "word_step regs op mem = (b', n')" by fastforce
  obtain bs1 n2 where rest': "word_run regs ops n' = (bs1, n2)" by fastforce
  have op: "op_apart regs mem op" and ops: "list_all (op_apart regs mem) ops" using Cons.prems(4) by simp_all
  have al: "same_tables (both_roots regs) (tcr_page_size (mmu_tcr regs)) mem (program_words st)"
    "dom (program_words st) = dom mem" using Cons.prems(3) by (simp_all add: alike_def)
  have "op_apart regs (program_words st) op" using op off_tables_same(2) [OF al] by simp
  note s = step_words [OF Cons.prems(1,2) this one b]
  note w = word_step_alike [OF Cons.prems(3) op b' b]
  note t = word_step_tables [OF op b']
  have "list_all (op_apart regs n') ops"
    using ops off_tables_same(2) [of regs mem n'] t by (auto simp: list_all_iff)
  moreover have "ready regs st1" "alike regs n' (program_words st1)" using s w alike_trans by blast+
  moreover have last: "st2 = st'" "n2 = mem'" "as = a # as1" "bs = b' # bs1"
    using Cons.prems(5,6) one rest b' rest' by simp_all
  ultimately have "as1 = bs1 \<and> ready regs st' \<and> alike regs mem' (program_words st')"
    using Cons.IH [of st1 n' as1 bs1] Cons.prems(2) rest rest' by simp
  then show ?case using s w last by simp
qed (simp_all add: alike_refl)

end

end
