(* ===== verification/Machine_Cache40.thy ===== *)
theory Machine_Cache40
  imports Machine_Mmu40 M68040_Runs
begin

unbundle bit_operations_syntax

text \<open>
  The MC68040's data side on the machine, \<^verbatim>\<open>src/core/machine/ap_machine.c\<close>: the access context
  \<open>ap_machine_init\<close> sets up on a model with the MC68040's MMU and caches. The interface \<open>cached_memory\<close> is
  interpreted on the machine without a board, so that a program run through the translation cache, the
  table search, the copyback cache and the bus is the program run on plain words.
\<close>

section \<open>The access context\<close>

definition data_access40 :: "'b machine access_ctx \<Rightarrow> 'b board_ops \<Rightarrow> mmu_regs40 \<Rightarrow> cacr \<Rightarrow> 'b machine context40" where
  "data_access40 ax ops regs c =
     \<lparr>cx_path = ax, cx_mmu = Some regs, cx_data_side = True, cx_no_allocate = False, cx_table_cached = True,
      cx_table_cache_enabled = cacr_enable_data c, cx_table_fetch = machine_table_fetch_040 ops,
      cx_table_update = Some (machine_table_update_040 ops)\<rparr>"

abbreviation (input) cached_access :: "'b board_ops \<Rightarrow> m68030_tt option \<Rightarrow> m68030_tt option \<Rightarrow> m68030_tc \<Rightarrow>
    m68030_root \<Rightarrow> cacr \<Rightarrow> bool \<Rightarrow> 'b machine access_ctx" where
  "cached_access ops tt0 tt1 tc root c rmc \<equiv> data_access ops tt0 tt1 tc root (c\<lparr>cacr_enable_data := True\<rparr>) rmc"

abbreviation (input) cached_context :: "'b board_ops \<Rightarrow> m68030_tt option \<Rightarrow> m68030_tt option \<Rightarrow> m68030_tc \<Rightarrow>
    m68030_root \<Rightarrow> cacr \<Rightarrow> bool \<Rightarrow> mmu_regs40 \<Rightarrow> 'b machine context40" where
  "cached_context ops tt0 tt1 tc root c rmc regs \<equiv>
     data_access40 (cached_access ops tt0 tt1 tc root c rmc) ops regs (c\<lparr>cacr_enable_data := True\<rparr>)"

lemma memory_words_machine: "flat n m \<Longrightarrow> memory_words (fitted_long n) (ram_byte m) = machine_words m"
  by (rule ext) (simp add: memory_words_def machine_words_def flat_def)

interpretation machine_cached: cached_memory "cached_access ops tt0 tt1 tc root c rmc" ram_byte "flat n" "fitted_long n"
  "cached_context ops tt0 tt1 tc root c rmc regs" "machine_table_update_040 ops"
proof
  fix m m' :: "'a machine" and a w :: u32 and u md l ok
  let ?cx = "cached_context ops tt0 tt1 tc root c rmc regs"
  assume m: "flat n m" "a AND 3 = 0"
  have fetch: "cx_table_fetch ?cx = machine_table_fetch_040 ops" by (simp add: data_access40_def)
  note q = machine_descriptors.fetch_quiet [OF m, of ops]
  show "fst (cx_table_fetch ?cx a m) = memory_words (fitted_long n) (ram_byte m) a"
    using machine_descriptors.fetch_word [OF m, of ops] by (simp add: fetch memory_words_machine [OF m(1)])
  show "flat n (snd (cx_table_fetch ?cx a m)) \<and>
      memory_words (fitted_long n) (ram_byte (snd (cx_table_fetch ?cx a m))) = memory_words (fitted_long n) (ram_byte m)"
    using q by (simp add: fetch memory_words_machine m(1))
  show "ok \<and> flat n m' \<and> memory_words (fitted_long n) (ram_byte m') =
      (memory_words (fitted_long n) (ram_byte m))(a \<mapsto> mark_history u md w)"
    if "memory_words (fitted_long n) (ram_byte m) a = Some w" "machine_table_update_040 ops a u md l m = (ok, m')"
    using machine_descriptors.update_word [OF m _ that(2)] that(1) by (simp add: memory_words_machine m(1))
next
  let ?cx = "cached_context ops tt0 tt1 tc root c rmc regs"
  show "data_side ?cx (cached_access ops tt0 tt1 tc root c rmc)" "tables_use_cache ?cx"
    "cx_table_update ?cx = Some (machine_table_update_040 ops)"
    by (simp_all add: data_side_def tables_use_cache_def data_access40_def data_access_def cache_on40_def)
qed

section \<open>Programs on plain words\<close>

text \<open>The words a program sees on the machine: the data cache before memory.\<close>

definition cached_words :: "u32 \<Rightarrow> 'b machine state40 \<Rightarrow> words" where
  "cached_words n st = visible40 (fitted_long n) (s4_dcache st) (ram_byte (s4_machine st))"

text \<open>C1: a program on the MC68040's data side gets what it would get on plain words. In any cache mode, with the
  translation cache, the table search reading descriptors from the data cache, lines filled, pushed and
  replaced and descriptors marked on the way, a run of reads and writes answers what the abstract machine
  answers and leaves the words it leaves, the history bits of the translation tables apart; the accesses
  it is asked to make reach memory outside the tables.\<close>

theorem mmu40_program_sees_words:
  assumes "flat n (s4_machine st)" and "faithful40 (fitted_long n) (ram_byte (s4_machine st)) (s4_dcache st)"
    and "wf_atc40 (s4_atc st)" and "cache_true regs (tcr_page_size (mmu_tcr regs)) (cached_words n st) (s4_atc st)"
    and "apart (both_roots regs) (tcr_page_size (mmu_tcr regs)) (cached_words n st)"
    and "list_all (op_apart regs (cached_words n st)) prog"
    and "prog_run (cached_context ops tt0 tt1 tc root c rmc regs) prog st = (as, st')"
  shows "as = fst (word_run regs prog (cached_words n st)) \<and>
    alike regs (snd (word_run regs prog (cached_words n st))) (cached_words n st')"
proof -
  have mmu: "cx_mmu (cached_context ops tt0 tt1 tc root c rmc regs) = Some regs" by (simp add: data_access40_def)
  have words: "cached_words n s = machine_cached.program_words n s" for s :: "'a machine state40"
    by (simp add: cached_words_def machine_cached.program_words_def)
  have "machine_cached.ready n regs st"
    using assms(1-5) by (simp add: machine_cached.ready_iff words)
  from machine_cached.run_words [OF this mmu alike_refl _ assms(7), where bs = "fst (word_run regs prog (cached_words n st))"
      and mem' = "snd (word_run regs prog (cached_words n st))"]
  show ?thesis using assms(6) by (simp add: words)
qed

section \<open>A machine with one copyback page\<close>

text \<open>The tables of \<open>one_page_ram\<close> with the page at 0 and cached for copyback.\<close>

definition copyback_ram :: "u8 list" where
  "copyback_ram = one_page_ram[0x102 := 0, 0x103 := 0x21]"

definition copyback_state :: "unit machine state40" where
  "copyback_state = \<lparr>s4_icache = cache40_init False, s4_dcache = cache40_init True, s4_atc = atc40_init,
     s4_bus = idle_bus, s4_machine = flat_machine copyback_ram\<rparr>"

definition copyback_word :: "u32 \<Rightarrow> u32" where
  "copyback_word a = (if a = 0 then 0x403 else if a = 0x400 then 0x103 else if a = 0x100 then 0x21 else 0)"

lemma copyback_byte:
  "i < 1028 \<Longrightarrow> copyback_ram ! i = (if i = 2 then 0x04 else if i = 3 then 0x03 else if i = 0x402 then 0x01
     else if i = 0x403 then 0x03 else if i = 0x103 then 0x21 else 0)"
  by (simp add: copyback_ram_def nth_list_update one_page_length one_page_byte)

lemma copyback_flat: "flat 1028 (flat_machine copyback_ram)"
  by (simp add: flat_def flat_machine_def copyback_ram_def one_page_length)

lemma copyback_words:
  "machine_words (flat_machine copyback_ram) a = (if a AND 3 = 0 \<and> fitted_long 1028 a then Some (copyback_word a) else None)"
proof (cases "a AND 3 = 0 \<and> fitted_long 1028 a")
  case True
  then have fit: "unat a + 4 \<le> 1028" using in_range_unat [of a 1028 4] by (simp add: fitted_long_def)
  have al: "unat a mod 4 = 0" using True low_two_mod [of a] by simp
  have n: "unat (a + 1) = unat a + 1" "unat (a + 2) = unat a + 2" "unat (a + 3) = unat a + 3"
    using fit by (simp_all add: unat_plus_if_size word_size)
  have "be_long (ram_byte (flat_machine copyback_ram)) a = copyback_word a"
  proof -
    consider "a = 0" | "a = 0x400" | "a = 0x100" | "a \<noteq> 0" "a \<noteq> 0x400" "a \<noteq> 0x100" by blast
    then show ?thesis
    proof cases
      case 4
      then have off: "unat a \<noteq> 0" "unat a \<noteq> 0x400" "unat a \<noteq> 0x100" by (auto simp: word_unat_eq_iff)
      have "ram_byte (flat_machine copyback_ram) (a + of_nat k) = 0" if "k < 4" for k
      proof -
        have u: "unat (a + of_nat k) = unat a + k" using that n by (cases k rule: nat.exhaust) (auto simp: less_Suc_eq numeral_eq_Suc)
        have "unat a + k \<notin> {2, 3, 0x402, 0x403, 0x103}" using off al that by simp presburger
        then show ?thesis using u fit that
          by (simp add: ram_byte_def flat_machine_def copyback_byte copyback_ram_def [symmetric])
      qed
      from this [of 0] this [of 1] this [of 2] this [of 3] show ?thesis
        using 4 by (auto simp: be_long_def copyback_word_def)
    qed (simp_all add: be_long_def ram_byte_def flat_machine_def copyback_byte copyback_word_def copyback_ram_def one_page_length one_page_byte)
  qed
  then show ?thesis using True copyback_flat by (simp add: machine_words_def flat_def)
qed (use copyback_flat in \<open>auto simp: machine_words_def flat_def\<close>)

text \<open>The word at 0x200 is none of the tables'.\<close>

lemma copyback_off_tables:
  assumes "\<And>a w. mem a = Some w \<Longrightarrow> w = copyback_word a"
  shows "0x200 \<notin> table_words {0} PAGE_4K mem"
proof -
  have root: "root_slot 0 l \<noteq> 0x200" "root_slot 0 l \<noteq> 0x400" for l
  proof -
    have "x * 4 = push_bit 2 x" for x :: u32 by (simp add: push_bit_eq_mult)
    then have "\<not> bit (root_slot 0 l) 9" "\<not> bit (root_slot 0 l) 10"
      by (simp_all add: root_slot_def root_index_def bit_simps)
    then show "root_slot 0 l \<noteq> 0x200" "root_slot 0 l \<noteq> 0x400" by (auto simp: bit_simps)
  qed
  have one: "copyback_word a = r \<and> bit r 1 \<Longrightarrow> a = 0 \<and> r = 0x403 \<or> a = 0x400 \<and> r = 0x103" for a r
    by (auto simp: copyback_word_def split: if_splits)
  have two: "copyback_word a AND 3 \<noteq> 2" for a by (simp add: copyback_word_def)
  have pointer: "pointer_slot 0x403 l \<noteq> 0x200" "pointer_slot 0x403 l \<noteq> 0" for l
  proof -
    have "bit (pointer_slot 0x403 l) 10" by (simp add: pointer_slot_def bit_or_iff)
    then show "pointer_slot 0x403 l \<noteq> 0x200" "pointer_slot 0x403 l \<noteq> 0" by (auto simp: bit_simps)
  qed
  have page: "page_slot PAGE_4K 0x103 l \<noteq> 0x200" for l
  proof -
    have "bit (page_slot PAGE_4K 0x103 l) 8" by (simp add: page_slot_def bit_or_iff)
    then show "page_slot PAGE_4K 0x103 l \<noteq> 0x200" by (auto simp: bit_simps)
  qed
  have "\<not> reads_slot mem 0 PAGE_4K l 0x200" for l
  proof
    assume r: "reads_slot mem 0 PAGE_4K l 0x200"
    have rr: "r = 0x403" if "mem (root_slot 0 l) = Some r" "bit r 1" for r
      using one [of "root_slot 0 l" r] assms [OF that(1)] that(2) root(2) by metis
    have pp: "p = 0x103" if "mem (pointer_slot 0x403 l) = Some p" "bit p 1" for p
      using one [of "pointer_slot 0x403 l" p] assms [OF that(1)] that(2) pointer(2) by metis
    obtain q where q: "mem (root_slot 0 l) = Some q" "bit q 1"
      using r root(1) [of l] by (auto simp: reads_slot_def table_slot_def)
    have q403: "q = 0x403" by (rule rr [OF q])
    have "\<not> table_slot mem 0 l 0x200"
      using q root(1) [of l] pointer(1) [of l] by (auto simp: table_slot_def q403)
    then obtain p where p: "mem (pointer_slot 0x403 l) = Some p" "bit p 1" and
      last: "0x200 = page_slot PAGE_4K p l \<or> (\<exists>d. mem (page_slot PAGE_4K p l) = Some d \<and> d AND 3 = 2)"
      using r q q403 by (auto simp: reads_slot_def)
    have p103: "p = 0x103" by (rule pp [OF p])
    then obtain d where d: "mem (page_slot PAGE_4K p l) = Some d" "d AND 3 = 2" using last page [of l] by auto
    show False using two [of "page_slot PAGE_4K p l"] assms [OF d(1)] d(2) by simp
  qed
  then show ?thesis by (simp add: table_words_def)
qed

lemma fresh_not_resident: "\<not> resident (cache40_init d) a w"
  using cache40_parts(1) [of a] by (auto simp: resident_def cache40_init_def line40_def cache40_sizes)

lemma copyback_state_words: "cached_words 1028 copyback_state = machine_words (flat_machine copyback_ram)"
  unfolding cached_words_def copyback_state_def
  by (rule ext) (simp add: visible_absent fresh_not_resident memory_words_machine copyback_flat)

lemma copyback_state_faithful:
  "faithful40 (fitted_long 1028) (ram_byte (s4_machine copyback_state)) (s4_dcache copyback_state)"
  by (simp add: faithful40_def copyback_state_def fresh_not_resident wf_cache40_init) (simp add: cache40_init_def)

definition sample_prog40 :: "prog40 list" where
  "sample_prog40 = [WRITE40 False 0x200 5 2 0xABCD, READ40 True 0x200 5 4]"

lemma copyback_reference:
  assumes "mem 0 = Some 0x403" "mem 0x400 = Some 0x103" "mem 0x100 = Some 0x21"
  shows "reference40 one_page_regs mem 0x200 5 wr = Granted MMU_TRANSLATED 0x200 CM_COPYBACK"
proof -
  have "tables_say mem 0 PAGE_4K 0x200 = Page 0x100 False 0x21"
    by (simp add: tables_say_def root_slot_def pointer_slot_def page_slot_def root_index_def pointer_index_def
      page_index_def assms leaf_def without_history_def bit_of_def)
  then show ?thesis
    by (simp add: reference40_def one_page_setup Let_def page_frame_def page_offset40_def page_bytes_def
      page_cache_mode_def cache_mode_of_def)
qed

theorem mmu40_program_sees_words_witness:
  "fst (prog_run (cached_context no_board None None (tc_decode 0) null_root cacr_on False one_page_regs)
     sample_prog40 copyback_state) = [Some 0xABCD, Some 0xABCD0000]"
proof -
  let ?cx = "cached_context no_board None None (tc_decode 0) null_root cacr_on False one_page_regs"
  let ?W = "cached_words 1028 copyback_state"
  obtain as st' where run: "prog_run ?cx sample_prog40 copyback_state = (as, st')" by fastforce
  have W: "?W 0 = Some 0x403" "?W 0x400 = Some 0x103" "?W 0x100 = Some 0x21" "?W 0x200 = Some 0"
    by (simp_all add: copyback_state_words copyback_words copyback_word_def fitted_long_def)
  have words: "?W a = Some w \<Longrightarrow> w = copyback_word a" for a w
    by (simp add: copyback_state_words copyback_words split: if_splits)
  have roots: "both_roots one_page_regs = {0}" by (simp add: both_roots_def one_page_regs_def)
  have "copyback_word a AND 3 \<noteq> 2" for a by (simp add: copyback_word_def)
  then have apart: "apart (both_roots one_page_regs) PAGE_4K ?W"
    by (intro apart_no_indirect) (use words in blast)
  have off: "off_tables one_page_regs ?W 0x200"
    using copyback_off_tables [OF words] W(4) by (simp add: off_tables_def one_page_setup roots)
  have ops: "list_all (op_apart one_page_regs ?W) sample_prog40"
    using off by (simp add: sample_prog40_def copyback_reference [OF W(1-3)])
  have start: "flat 1028 (s4_machine copyback_state)" "wf_atc40 (s4_atc copyback_state)"
    "cache_true one_page_regs (tcr_page_size (mmu_tcr one_page_regs)) ?W (s4_atc copyback_state)"
    using copyback_flat wf_atc40_init empty_cache_true by (simp_all add: copyback_state_def)
  have "fst (word_run one_page_regs sample_prog40 ?W) = [Some 0xABCD, Some 0xABCD0000]"
    using W by (simp add: sample_prog40_def copyback_reference merge_lanes_def Let_def)
  with mmu40_program_sees_words [OF start(1) copyback_state_faithful start(2,3) _ ops run] apart run
  show ?thesis by (simp add: one_page_setup)
qed

end
