(* ===== verification/Spec2Isabelle.thy ===== *)
theory Spec2Isabelle
  imports Time_Base Ring_Framer Ring_Phy Ring_Probe Ring_Node State_Hash Board_Intr M68030_Walk
    Board_Dma M68030_Shift Machine_Access Machine_Cache40
begin

text \<open>
  A verification library for the Apollo workstation emulator, whose C code is under \<^verbatim>\<open>src/core\<close>.

  \<^bold>\<open>The program.\<close> A machine (\<^verbatim>\<open>machine/ap_machine.c\<close>) is a processor, a board and memory. The processor
  (\<^verbatim>\<open>cpu/m68030\<close>, \<^verbatim>\<open>cpu/m68040\<close>) reaches memory through one access path: the memory management unit
  translates a logical address, searching tables in memory when its translation cache has no answer; the
  data cache answers or is filled; bus cycles run. Callbacks of the machine answer the cycles, from flat
  memory or from the board (\<^verbatim>\<open>board/\<close>), which arbitrates the bus between the processor and the DMA
  controllers, routes interrupts, and carries the network ring (\<^verbatim>\<open>ring/\<close>): stations on a medium of cables
  and relays, clocked by a scheduler on an exact time base (\<^verbatim>\<open>time/\<close>). A state hash (\<^verbatim>\<open>state/\<close>) fingerprints
  it all.

  \<^bold>\<open>Conventions.\<close> A C struct is a record with its fields in order, an enum a datatype, a \<^verbatim>\<open>uint\<close> of a
  width the word of that width; \<^verbatim>\<open>unsigned\<close> counters and indices that the code keeps small are \<open>nat\<close>. A
  pointer to state the code changes is a record passed in and returned; a callback is an argument on a
  machine state of any type; an out parameter with a success flag is an \<open>option\<close>. A definition that models code
  computes. A C name \<^verbatim>\<open>ap_part_name\<close> becomes \<open>name\<close>, with \<open>40\<close> appended where the MC68040 has its own.

  \<^bold>\<open>The theories.\<close>
  \<^item> \<open>Apollo_Prelude\<close>: word types, bit operations and list lemmas shared by all.
  \<^item> \<open>Time_Base\<close> (\<^verbatim>\<open>time/ap_time\<close>): clocks whose period is exact; alignment.
  \<^item> \<open>Ring_Mac\<close>, \<open>Ring_Frame\<close>, \<open>Ring_Framer\<close>, \<open>Ring_Phy\<close>, \<open>Ring_Medium\<close>, \<open>Ring_Station\<close>, \<open>Ring_Sched\<close>,
    \<open>Ring_Node\<close>, \<open>Ring_Probe\<close> (\<^verbatim>\<open>ring/ap_ring_*\<close>, and the joining of a board in \<^verbatim>\<open>board/ap_board.c\<close>): symbols and
    stuffing, frame fields and check, frames emitted and parsed, biphase cells, the medium as the solution
    of its equations, the station's receive and drive machines, the scheduler and the probe ring.
  \<^item> \<open>State_Hash\<close> (\<^verbatim>\<open>state/ap_hash\<close>): the traversal hash is FNV-1a over the stream of fields.
  \<^item> \<open>Dev_I8259\<close>, \<open>Board_Intr\<close> (\<^verbatim>\<open>device/ap_i8259\<close>, \<^verbatim>\<open>board/ap_intr\<close>): the interrupt controller, its priority
    resolution, and the cascade of two.
  \<^item> \<open>Board_Arbiter\<close>, \<open>Dev_I8237\<close>, \<open>Board_Dma\<close> (\<^verbatim>\<open>cpu/m68030/ap_m68030_arb\<close>, \<^verbatim>\<open>board/ap_arbiter\<close>,
    \<^verbatim>\<open>device/ap_i8237\<close>, \<^verbatim>\<open>board/ap_atmap\<close>, \<^verbatim>\<open>ap_dma\<close>, \<^verbatim>\<open>ap_master\<close>, the bus clock of \<^verbatim>\<open>ap_board.c\<close>): who owns the bus,
    what a DMA transfer moves and where it lands.
  \<^item> \<open>M68030_Alu\<close>, \<open>M68030_Shift\<close> (\<^verbatim>\<open>ap_m68030_alu\<close>, \<^verbatim>\<open>ap_m68030_cond\<close>): results, flags, conditions, shifts.
  \<^item> \<open>M68030_Regs\<close>, \<open>M68030_Ea\<close>, \<open>M68030_Operand\<close>: the programming model, addressing modes, and operands cut
    at long words.
  \<^item> \<open>Translation_Cache\<close>: what an address translation cache promises. \<open>M68030_Tc\<close>, \<open>M68030_Atc\<close>, \<open>M68030_Walk\<close>:
    the MC68030's translation, its cache and its table search.
  \<^item> \<open>M68030_Bus\<close>, \<open>M68030_Cache\<close>, \<open>M68030_Access\<close>: bus cycles, the logical caches, and the access path.
  \<^item> \<open>Memory_View\<close>: what the access path needs of the memory behind it and what it then guarantees.
    \<open>M68882_Cir\<close>, \<open>Machine_Memory\<close>, \<open>Machine_Access\<close> (\<^verbatim>\<open>machine/ap_machine.c\<close>): the machine's callbacks, and
    operands read and written on it.
  \<^item> \<open>M68040_Regs\<close>, \<open>M68040_Search\<close>, \<open>M68040_Atc\<close>, \<open>M68040_Mmu\<close>, \<open>M68040_Cache\<close> (\<^verbatim>\<open>cpu/m68040/ap_m68040_*\<close>):
    registers and descriptors, the table search, the translation cache, translation and PTEST, the caches
    with their state tables. \<open>M68040_Access\<close> (\<^verbatim>\<open>ap_m68030_access.c\<close>, the functions with \<^verbatim>\<open>_040\<close> in their name):
    the access path through them.
  \<^item> \<open>M68040_Tables\<close>: what translation tables say, as a function of memory, and that a search answers it.
    \<open>M68040_Copyback\<close>, \<open>M68040_Program\<close>: the long words a program sees through a copyback cache, kept by
    pushes, fills, evictions and replacements. \<open>M68040_Through\<close>: a search that reads descriptors from the
    data cache follows the words the program sees. \<open>M68040_Runs\<close>: programs, against an abstract machine of
    registers and words. \<open>Machine_Mmu40\<close>, \<open>Machine_Cache40\<close>: the same on the machine.

  \<^bold>\<open>Interfaces.\<close> \<open>delay_line\<close> (what a cable delivers) is interpreted by the cells of the medium, \<open>timekeeping\<close>
  (what the scheduler needs of a participant) by the ring step of a board, \<open>translation_cache\<close> by the
  caches of both processors, \<open>memory_bus\<close> and its extension \<open>backing_memory\<close> by the machine without a board,
  \<open>descriptor_memory\<close> by the machine's descriptor callbacks. \<open>cached_memory\<close> joins \<open>memory_bus\<close> with
  \<open>descriptor_memory\<close>; it is a \<open>descriptor_memory\<close> again, with the search through the data cache for its
  operations, and is interpreted by the data side of the machine.

  \<^bold>\<open>What the lemmas show.\<close> Invariants of every operation of the stations, the medium, the caches, the
  translation caches and the registers. Refinement: the medium solves its equations, a program on either
  processor's data side sees plain memory, translations follow the tables as they were, the hash is a
  function of the stream. Round trips of frames, registers and operands. Exactness of arithmetic, shifts
  and conditions against integers. Safety and liveness of arbitration. Termination of the scheduler and
  bounds on searches. Some theorems state a defect of the code, and say so.

  \<^bold>\<open>Bounds.\<close> Loops of the code with a fixed bound keep it: 64 clocks for a bus cycle before it is cut, 4096
  for a processor waiting for the bus, the probe's limit of bit times, four levels of a search. The loop of
  the scheduler has none and is a \<open>partial_function (option)\<close>; that it returns is a theorem. Arbitration is
  answered within four clocks and given back within seven. An MC68040 search reads at most four
  descriptors and writes three.

  \<^bold>\<open>What is not modelled.\<close> The instruction decoders and the stepping of instructions, the floating-point
  parts and the timing tables; the device controllers other than interrupts, DMA and the ring; image
  files, the frontends and their input and output. The theorems on programs take accesses as their
  instructions, on a machine without a board: a device's registers are not memory. Clock counts of
  accesses are computed by the definitions and appear in no theorem on programs.
\<close>

end
